(* ===== verification/Prelude.thy ===== *)
theory Prelude
  imports Main "HOL-Library.Word"
begin

unbundle bit_operations_syntax

text \<open>
  What every component shares: the machine types of \<open>types.h\<close>, the result of running a
  kernel function on a state, little-endian words over bytes, and lemmas on lists and words.
\<close>

section \<open>Machine types (types.h)\<close>

type_synonym uint = "32 word"
type_synonym ushort = "16 word"
type_synonym uchar = "8 word"

section \<open>Results of kernel functions\<close>

text \<open>
  A kernel function is run on a state \<open>'s\<close> and ends in one of these ways:
  \<^item> \<open>Ok a s\<close>: it returns \<open>a\<close> and leaves the state \<open>s\<close>;
  \<^item> \<open>Panic m\<close>: it calls \<open>panic(m)\<close>;
  \<^item> \<open>Fault m\<close>: it does what C leaves undefined (an index out of an array's bounds, a null
    pointer dereferenced);
  \<^item> \<open>Swtch s\<close>: the calling process gave up the CPU in \<open>sched()\<close> and the scheduler was
    entered with state \<open>s\<close>;
  \<^item> \<open>NoReturn s\<close>: it never returns to its caller (\<open>exit()\<close>).
\<close>

datatype ('s, 'a) res = Ok 'a 's | Panic string | Fault string | Swtch 's | NoReturn 's

fun bindR :: "('s, 'a) res \<Rightarrow> ('a \<Rightarrow> 's \<Rightarrow> ('s, 'b) res) \<Rightarrow> ('s, 'b) res" where
  "bindR (Ok a s) f = f a s"
| "bindR (Panic m) f = Panic m"
| "bindR (Fault m) f = Fault m"
| "bindR (Swtch s) f = Swtch s"
| "bindR (NoReturn s) f = NoReturn s"

lemma bindR_cong [fundef_cong]:
  "m = m' \<Longrightarrow> (\<And>a s. m' = Ok a s \<Longrightarrow> f a s = g a s) \<Longrightarrow> bindR m f = bindR m' g"
  by (cases m') auto

lemma bindR_eq_Ok: "bindR m f = Ok b t \<longleftrightarrow> (\<exists>a s. m = Ok a s \<and> f a s = Ok b t)"
  by (cases m) auto

lemma bindR_assoc: "bindR (bindR m f) g = bindR m (\<lambda>a s. bindR (f a s) g)"
  by (cases m) auto

lemma bindR_OkE:
  assumes "bindR m f = Ok b t"
  obtains a s where "m = Ok a s" and "f a s = Ok b t"
  using assms by (auto simp: bindR_eq_Ok)

lemma bindR_if: "bindR (if c then m else n) f = (if c then bindR m f else bindR n f)"
  by simp

text \<open>A loop \<open>for(x in xs) f(x)\<close>, left at the first call that does not return.\<close>

fun forR :: "'x list \<Rightarrow> ('x \<Rightarrow> 's \<Rightarrow> ('s, unit) res) \<Rightarrow> 's \<Rightarrow> ('s, unit) res" where
  "forR [] f s = Ok () s"
| "forR (x # xs) f s = bindR (f x s) (\<lambda>_ s. forR xs f s)"

lemma forR_cong [fundef_cong]:
  "xs = ys \<Longrightarrow> s = t \<Longrightarrow> (\<And>x s. x \<in> set ys \<Longrightarrow> f x s = g x s) \<Longrightarrow> forR xs f s = forR ys g t"
proof (induction xs arbitrary: ys s t)
  case (Cons x xs)
  from Cons.prems have "ys = x # xs" "s = t" "f x t = g x t" by auto
  moreover have "forR xs f = forR xs g"
    by (rule ext, rule Cons.IH) (use Cons.prems in auto)
  ultimately show ?case by simp
qed auto

lemma forR_append: "forR (xs @ ys) f s = bindR (forR xs f s) (\<lambda>_ s. forR ys f s)"
  by (induction xs arbitrary: s) (auto simp: bindR_assoc intro!: bindR_cong)

text \<open>An invariant of the body is one of the loop.\<close>

lemma forR_inv:
  assumes "P s" and "\<And>x s. x \<in> set xs \<Longrightarrow> P s \<Longrightarrow> \<exists>s'. f x s = Ok () s' \<and> P s'"
  shows "\<exists>s'. forR xs f s = Ok () s' \<and> P s'"
  using assms
proof (induction xs arbitrary: s)
  case (Cons x xs)
  from Cons.prems obtain s1 where "f x s = Ok () s1" "P s1" by (meson list.set_intros(1))
  with Cons show ?case by simp
qed auto

lemma forR_upt:
  assumes "P 0 s" and "\<And>i s. i < n \<Longrightarrow> P i s \<Longrightarrow> \<exists>s'. f i s = Ok () s' \<and> P (Suc i) s'"
  shows "\<exists>s'. forR [0..<n] f s = Ok () s' \<and> P n s'"
  using assms
proof (induction n)
  case (Suc n)
  then obtain s1 where "forR [0..<n] f s = Ok () s1" "P n s1" by (meson less_SucI)
  moreover from Suc.prems(2) [of n s1] this obtain s2 where "f n s1 = Ok () s2" "P (Suc n) s2" by auto
  ultimately show ?case by (simp add: forR_append)
qed auto

text \<open>A loop that returns from inside: it stops at the first element for which the body gives a result.\<close>

fun findR :: "'x list \<Rightarrow> ('x \<Rightarrow> 's \<Rightarrow> ('s, 'b option) res) \<Rightarrow> 's \<Rightarrow> ('s, 'b option) res" where
  "findR [] f s = Ok None s"
| "findR (x # xs) f s =
     bindR (f x s) (\<lambda>r s. case r of Some b \<Rightarrow> Ok (Some b) s | None \<Rightarrow> findR xs f s)"

lemma findR_none:
  assumes "P s" and "\<And>x s. x \<in> set xs \<Longrightarrow> P s \<Longrightarrow> \<exists>s'. f x s = Ok None s' \<and> P s'"
  shows "\<exists>s'. findR xs f s = Ok None s' \<and> P s'"
  using assms
proof (induction xs arbitrary: s)
  case (Cons x xs)
  from Cons.prems obtain s1 where "f x s = Ok None s1" "P s1" by (meson list.set_intros(1))
  with Cons show ?case by simp
qed auto

lemma findR_append:
  "findR (xs @ ys) f s =
     bindR (findR xs f s) (\<lambda>r s. case r of Some b \<Rightarrow> Ok (Some b) s | None \<Rightarrow> findR ys f s)"
  by (induction xs arbitrary: s) (auto simp: bindR_assoc intro!: bindR_cong split: option.split)

text \<open>The elements before the first hit keep the invariant and give nothing.\<close>

lemma findR_hit:
  assumes "P s" and "\<And>x s. x \<in> set xs \<Longrightarrow> P s \<Longrightarrow> \<exists>s'. f x s = Ok None s' \<and> P s'"
  shows "\<exists>s'. P s' \<and> findR (xs @ y # ys) f s =
    bindR (f y s') (\<lambda>r s. case r of Some b \<Rightarrow> Ok (Some b) s | None \<Rightarrow> findR ys f s)"
proof -
  from findR_none [where P = P and f = f and xs = xs, OF assms]
  obtain s1 where "findR xs f s = Ok None s1" "P s1" by blast
  then show ?thesis by (auto simp: findR_append)
qed

section \<open>Little-endian words over bytes\<close>

definition byte_of :: "uint \<Rightarrow> nat \<Rightarrow> uchar" where
  "byte_of w k = ucast (drop_bit (8 * k) w)"

definition le32 :: "uchar \<Rightarrow> uchar \<Rightarrow> uchar \<Rightarrow> uchar \<Rightarrow> uint" where
  "le32 a b c d =
     ucast a OR push_bit 8 (ucast b) OR push_bit 16 (ucast c) OR push_bit 24 (ucast d)"

lemma le32_byte_of [simp]:
  "le32 (byte_of w 0) (byte_of w (Suc 0)) (byte_of w 2) (byte_of w 3) = w"
proof (rule bit_word_eqI)
  fix n assume "n < LENGTH(32)"
  then have "n div 8 < 4" by (simp add: less_mult_imp_div_less)
  then have "n div 8 = 0 \<or> n div 8 = 1 \<or> n div 8 = 2 \<or> n div 8 = 3" by linarith
  then have "n = n mod 8 \<or> n = 8 + n mod 8 \<or> n = 16 + n mod 8 \<or> n = 24 + n mod 8"
    using mult_div_mod_eq [of 8 n] by (elim disjE) simp_all
  then obtain k where "k < 8" and "n = k \<or> n = 8 + k \<or> n = 16 + k \<or> n = 24 + k"
    by (metis mod_less_divisor zero_less_numeral)
  then show "bit (le32 (byte_of w 0) (byte_of w (Suc 0)) (byte_of w 2) (byte_of w 3)) n = bit w n"
    by (elim disjE) (simp_all add: le32_def byte_of_def bit_simps)
qed

lemma bit_uchar_ge [simp]: "8 \<le> n \<Longrightarrow> \<not> bit a n"
  for a :: uchar
  using bit_imp_le_length [of a n] by auto

lemma byte_of_le32 [simp]:
  "byte_of (le32 a b c d) 0 = a"
  "byte_of (le32 a b c d) (Suc 0) = b"
  "byte_of (le32 a b c d) 2 = c"
  "byte_of (le32 a b c d) 3 = d"
  by (auto simp: le32_def byte_of_def bit_simps intro!: bit_word_eqI)

section \<open>Lists\<close>

text \<open>\<open>splice off src xs\<close> is \<open>xs\<close> after \<open>memmove(xs + off, src, length src)\<close>.\<close>

definition splice :: "nat \<Rightarrow> 'a list \<Rightarrow> 'a list \<Rightarrow> 'a list" where
  "splice off src xs = take off xs @ src @ drop (off + length src) xs"

lemma length_splice [simp]:
  "off + length src \<le> length xs \<Longrightarrow> length (splice off src xs) = length xs"
  by (simp add: splice_def)

lemma nth_splice:
  "off + length src \<le> length xs \<Longrightarrow> i < length xs \<Longrightarrow>
   splice off src xs ! i = (if off \<le> i \<and> i < off + length src then src ! (i - off) else xs ! i)"
  by (auto simp: splice_def nth_append min_def)

definition slice :: "nat \<Rightarrow> nat \<Rightarrow> 'a list \<Rightarrow> 'a list" where
  "slice off n xs = take n (drop off xs)"

lemma length_slice [simp]: "off + n \<le> length xs \<Longrightarrow> length (slice off n xs) = n"
  by (simp add: slice_def)

lemma nth_slice: "off + n \<le> length xs \<Longrightarrow> i < n \<Longrightarrow> slice off n xs ! i = xs ! (off + i)"
  by (simp add: slice_def)

lemma slice_splice_same [simp]:
  "off + length src \<le> length xs \<Longrightarrow> n = length src \<Longrightarrow> slice off n (splice off src xs) = src"
  by (simp add: slice_def splice_def)

lemma slice_splice_other:
  assumes "off + length src \<le> length xs" "off' + n \<le> length xs"
    and "off' + n \<le> off \<or> off + length src \<le> off'"
  shows "slice off' n (splice off src xs) = slice off' n xs"
  using assms by (intro nth_equalityI) (auto simp: nth_slice nth_splice)

lemma find_Some_iff':
  "find P xs = Some x \<longleftrightarrow> (\<exists>i < length xs. P (xs ! i) \<and> x = xs ! i \<and> (\<forall>j < i. \<not> P (xs ! j)))"
  by (fact find_Some_iff)

lemma find_SomeD: "find P xs = Some x \<Longrightarrow> x \<in> set xs \<and> P x"
  by (auto simp: find_Some_iff)

lemma find_NoneD: "find P xs = None \<Longrightarrow> x \<in> set xs \<Longrightarrow> \<not> P x"
  by (auto simp: find_None_iff)

section \<open>Words\<close>

lemma unat_add_lt: "unat a + unat b < 2 ^ 32 \<Longrightarrow> unat (a + b) = unat a + unat b"
  for a b :: uint
  by (simp add: unat_word_ariths)

lemma unat_lt32: "unat (a :: uint) < 4294967296"
  using unsigned_less [of a, where ?'a = nat] by simp

lemma unat_of_nat32: "n < 4294967296 \<Longrightarrow> unat (of_nat n :: uint) = n"
  by (simp add: unat_of_nat)

lemma of_nat32_eq_iff:
  "m < 4294967296 \<Longrightarrow> n < 4294967296 \<Longrightarrow> (of_nat m :: uint) = of_nat n \<longleftrightarrow> m = n"
  using unat_of_nat32 by metis

lemma sint_of_nat32: "n < 2147483648 \<Longrightarrow> sint (of_nat n :: uint) = int n"
  by (simp add: signed_of_nat signed_take_bit_int_eq_self)

lemma unat_and_not_mask: "unat (a AND NOT (mask n)) = unat a - unat a mod 2 ^ n"
  for a :: uint
proof -
  have "a AND NOT (mask n) = push_bit n (drop_bit n a)"
    by (rule bit_word_eqI) (auto simp: bit_simps bit_imp_le_length)
  then have "unat (a AND NOT (mask n)) = unat (push_bit n (drop_bit n a))"
    by (rule arg_cong)
  also have "\<dots> = take_bit 32 (push_bit n (drop_bit n (unat a)))"
    by (simp add: unsigned_push_bit_eq unat_drop_bit_eq)
  also have "\<dots> = take_bit 32 (unat a div 2 ^ n * 2 ^ n)"
    by (simp add: push_bit_eq_mult drop_bit_eq_div)
  also have "\<dots> = unat a div 2 ^ n * 2 ^ n"
    using unat_lt32 [of a]
    by (simp add: take_bit_nat_eq_self_iff le_less_trans [OF div_times_less_eq_dividend])
  also have "\<dots> = unat a - unat a mod 2 ^ n"
    by (simp add: minus_mod_eq_div_mult)
  finally show ?thesis .
qed

lemma unat_neg: "x \<noteq> 0 \<Longrightarrow> unat (- x) = 2 ^ 32 - unat x"
  for x :: uint
proof -
  assume nz: "x \<noteq> 0"
  have "(unat x + unat (- x)) mod 2 ^ 32 = 0"
  proof -
    have "unat (x + - x) = (unat x + unat (- x)) mod 2 ^ 32"
      unfolding unat_word_ariths by simp
    then show ?thesis by simp
  qed
  moreover have "0 < unat x" using nz by (simp add: unat_gt_0)
  moreover have "unat x + unat (- x) < 2 * 2 ^ 32"
    using unat_lt32 [of x] unat_lt32 [of "- x"] by simp
  moreover have "n = m" if "n mod m = 0" "0 < n" "n < 2 * m" for n m :: nat
  proof -
    have q: "n = n div m * m" using that(1) by (metis add_0_right div_mult_mod_eq)
    moreover define q where "q = n div m"
    ultimately have q: "n = q * m" by simp
    with that(2,3) have "0 < q" "q < 2" by auto
    with q show ?thesis by (cases q) auto
  qed
  ultimately have "unat x + unat (- x) = 2 ^ 32" by simp
  then show ?thesis by simp
qed

end
