(* ===== verification/Mmu.thy ===== *)
theory Mmu
  imports Prelude
begin

text \<open>
  The paging arithmetic of \<open>mmu.h\<close> and \<open>memlayout.h\<close>: page rounding, the split of a
  linear address into directory index, table index and offset, page table entry flags, and the
  kernel's direct map \<open>V2P\<close>/\<open>P2V\<close>. Every macro works on \<open>uint\<close>, so sums wrap.
\<close>

section \<open>Constants\<close>

definition EXTMEM :: uint where "EXTMEM = 0x100000"
definition PHYSTOP :: uint where "PHYSTOP = 0xE000000"
definition DEVSPACE :: uint where "DEVSPACE = 0xFE000000"
definition KERNBASE :: uint where "KERNBASE = 0x80000000"
definition KERNLINK :: uint where "KERNLINK = KERNBASE + EXTMEM"

definition PGSIZE :: uint where "PGSIZE = 4096"
definition NPDENTRIES :: nat where "NPDENTRIES = 1024"
definition PTXSHIFT :: nat where "PTXSHIFT = 12"
definition PDXSHIFT :: nat where "PDXSHIFT = 22"

definition PTE_P :: uint where "PTE_P = 0x001"
definition PTE_W :: uint where "PTE_W = 0x002"
definition PTE_U :: uint where "PTE_U = 0x004"
definition PTE_PG :: uint where "PTE_PG = 0x200"

lemmas mmu_consts = EXTMEM_def PHYSTOP_def DEVSPACE_def KERNBASE_def KERNLINK_def
  PGSIZE_def NPDENTRIES_def PTXSHIFT_def PDXSHIFT_def PTE_P_def PTE_W_def PTE_U_def PTE_PG_def

section \<open>Macros\<close>

definition V2P :: "uint \<Rightarrow> uint" where "V2P a = a - KERNBASE"
definition P2V :: "uint \<Rightarrow> uint" where "P2V a = a + KERNBASE"

definition PDX :: "uint \<Rightarrow> uint" where "PDX va = drop_bit PDXSHIFT va AND 0x3FF"
definition PTX :: "uint \<Rightarrow> uint" where "PTX va = drop_bit PTXSHIFT va AND 0x3FF"
definition PGADDR :: "uint \<Rightarrow> uint \<Rightarrow> uint \<Rightarrow> uint" where
  "PGADDR d t off = (push_bit PDXSHIFT d OR push_bit PTXSHIFT t OR off)"

definition PGROUNDUP :: "uint \<Rightarrow> uint" where
  "PGROUNDUP sz = ((sz + PGSIZE - 1) AND NOT (PGSIZE - 1))"
definition PGROUNDDOWN :: "uint \<Rightarrow> uint" where
  "PGROUNDDOWN a = (a AND NOT (PGSIZE - 1))"

definition PTE_ADDR :: "uint \<Rightarrow> uint" where "PTE_ADDR pte = (pte AND NOT 0xFFF)"
definition PTE_FLAGS :: "uint \<Rightarrow> uint" where "PTE_FLAGS pte = (pte AND 0xFFF)"

text \<open>Tests of the C source such as \<open>if(*pte & PTE_P)\<close>.\<close>

definition pte_has :: "uint \<Rightarrow> uint \<Rightarrow> bool" where
  "pte_has pte flag \<longleftrightarrow> pte AND flag \<noteq> 0"

section \<open>Facts about the macros\<close>

lemma V2P_P2V [simp]: "V2P (P2V a) = a" and P2V_V2P [simp]: "P2V (V2P a) = a"
  by (simp_all add: V2P_def P2V_def)

lemma page_mask: "(4095 :: uint) = mask 12" and index_mask: "(1023 :: uint) = mask 10"
  by (simp_all add: mask_eq_exp_minus_1)

lemma unat_PGROUNDDOWN: "unat (PGROUNDDOWN a) = unat a - unat a mod 4096"
  using unat_and_not_mask [of a 12] by (simp add: PGROUNDDOWN_def PGSIZE_def page_mask)

lemma PTE_ADDR_PGROUNDDOWN: "PTE_ADDR a = PGROUNDDOWN a"
  by (simp add: PTE_ADDR_def PGROUNDDOWN_def PGSIZE_def)

lemma unat_and_mask: "unat (a AND mask n) = unat a mod 2 ^ n"
  for a :: uint
proof -
  have "unat (a AND mask n) = take_bit n (unat a)"
    by (simp add: take_bit_eq_mask [symmetric] unsigned_take_bit_eq)
  then show ?thesis by (simp add: take_bit_eq_mod)
qed

lemma unat_drop: "unat (drop_bit n a) = unat a div 2 ^ n"
  for a :: uint
  by (subst unat_drop_bit_eq) (simp add: drop_bit_eq_div)

lemma unat_PDX: "unat (PDX va) = unat va div 2 ^ 22"
proof -
  have "unat va div 2 ^ 22 < 2 ^ 10"
    using unat_lt32 [of va] by (simp add: less_mult_imp_div_less)
  then show ?thesis
    by (simp only: PDX_def PDXSHIFT_def index_mask unat_and_mask unat_drop mod_less)
qed

lemma unat_PTX: "unat (PTX va) = unat va div 4096 mod 1024"
  by (simp only: PTX_def PTXSHIFT_def index_mask unat_and_mask unat_drop) simp

lemma unat_PTE_FLAGS: "unat (PTE_FLAGS a) = unat a mod 4096"
  using unat_and_mask [of a 12] by (simp add: PTE_FLAGS_def page_mask)

text \<open>Page alignment.\<close>

definition page_aligned :: "uint \<Rightarrow> bool" where
  "page_aligned a \<longleftrightarrow> unat a mod 4096 = 0"

lemma page_aligned_mod: "page_aligned a \<longleftrightarrow> a mod PGSIZE = 0"
  by (simp add: page_aligned_def PGSIZE_def word_unat_eq_iff unat_mod)

lemma PGROUNDDOWN_aligned [simp]: "page_aligned (PGROUNDDOWN a)"
  by (simp add: page_aligned_def unat_PGROUNDDOWN minus_mod_eq_mult_div)

lemma PGROUNDDOWN_id: "page_aligned a \<Longrightarrow> PGROUNDDOWN a = a"
  by (simp add: page_aligned_def word_unat_eq_iff unat_PGROUNDDOWN)

lemma PGROUNDDOWN_idem [simp]: "PGROUNDDOWN (PGROUNDDOWN a) = PGROUNDDOWN a"
  by (simp add: PGROUNDDOWN_id)

lemma PGROUNDDOWN_le: "PGROUNDDOWN a \<le> a"
  by (simp add: word_le_nat_alt unat_PGROUNDDOWN)

lemma PGROUNDUP_down: "PGROUNDUP sz = PGROUNDDOWN (sz + 4095)"
  by (simp add: PGROUNDUP_def PGROUNDDOWN_def PGSIZE_def add.commute)

lemma PTE_ADDR_FLAGS: "PTE_ADDR p OR PTE_FLAGS p = p"
  by (rule bit_word_eqI) (auto simp: PTE_ADDR_def PTE_FLAGS_def bit_simps page_mask)

lemma PTE_split_inj: "PTE_ADDR p = PTE_ADDR q \<Longrightarrow> PTE_FLAGS p = PTE_FLAGS q \<Longrightarrow> p = q"
  by (metis PTE_ADDR_FLAGS)

lemma PDX_PTX_eq_iff:
  "PDX a = PDX b \<and> PTX a = PTX b \<longleftrightarrow> PGROUNDDOWN a = PGROUNDDOWN b"
proof -
  have pdx: "unat (PDX v) = unat v div 4096 div 1024" for v
    by (simp add: unat_PDX div_mult2_eq)
  have pg: "unat (PGROUNDDOWN v) = 4096 * (unat v div 4096)" for v
    by (simp add: unat_PGROUNDDOWN minus_mod_eq_mult_div)
  have "PGROUNDDOWN a = PGROUNDDOWN b \<longleftrightarrow> unat a div 4096 = unat b div 4096"
    by (simp only: word_unat_eq_iff pg) simp
  moreover have "PDX a = PDX b \<and> PTX a = PTX b \<longleftrightarrow>
      unat a div 4096 div 1024 = unat b div 4096 div 1024 \<and>
      unat a div 4096 mod 1024 = unat b div 4096 mod 1024"
    by (simp only: word_unat_eq_iff pdx unat_PTX)
  ultimately show ?thesis
    by (metis div_mult_mod_eq)
qed

lemma PGADDR_split: "PGADDR (PDX va) (PTX va) (PTE_FLAGS va) = va"
proof (rule bit_word_eqI)
  fix n assume "n < LENGTH(32)"
  then show "bit (PGADDR (PDX va) (PTX va) (PTE_FLAGS va)) n = bit va n"
    by (cases "n < 12"; cases "n < 22") (auto simp: PGADDR_def PDX_def PTX_def PTE_FLAGS_def PDXSHIFT_def PTXSHIFT_def
        index_mask page_mask bit_simps)
qed

lemma PGADDR_parts:
  assumes "unat d < 1024" "unat t < 1024" "unat off < 4096"
  shows "PDX (PGADDR d t off) = d" "PTX (PGADDR d t off) = t" "PTE_FLAGS (PGADDR d t off) = off"
proof -
  have d: "d = d AND mask 10" and t: "t = t AND mask 10" and off: "off = off AND mask 12"
    using assms by (simp_all add: word_unat_eq_iff unat_and_mask)
  have hi: "\<not> bit d n" "\<not> bit t n" if "10 \<le> n" for n
  proof -
    have "bit d n = bit (d AND mask 10) n" "bit t n = bit (t AND mask 10) n"
      by (subst d, rule refl) (subst t, rule refl)
    with that show "\<not> bit d n" "\<not> bit t n" by (simp_all add: bit_simps)
  qed
  have lo: "\<not> bit off n" if "12 \<le> n" for n
  proof -
    have "bit off n = bit (off AND mask 12) n" using off by (rule arg_cong)
    with that show "\<not> bit off n" by (simp add: bit_simps)
  qed
  have pg: "bit (PGADDR d t off) n \<longleftrightarrow> n < 32 \<and>
      (if n < 12 then bit off n else if n < 22 then bit t (n - 12) else bit d (n - 22))" for n
    by (cases "n < 12"; cases "n < 22")
       (auto simp: PGADDR_def PDXSHIFT_def PTXSHIFT_def bit_simps hi lo)
  have hi': "bit d n \<Longrightarrow> n < 10" "bit t n \<Longrightarrow> n < 10" and lo': "bit off n \<Longrightarrow> n < 12" for n
    using hi lo by (meson not_le)+
  show "PDX (PGADDR d t off) = d"
    by (rule bit_word_eqI) (auto simp: PDX_def PDXSHIFT_def index_mask bit_simps pg intro: hi')
  show "PTX (PGADDR d t off) = t"
    by (rule bit_word_eqI) (auto simp: PTX_def PTXSHIFT_def index_mask bit_simps pg intro: hi')
  show "PTE_FLAGS (PGADDR d t off) = off"
    by (rule bit_word_eqI) (auto simp: PTE_FLAGS_def page_mask bit_simps pg intro: lo')
qed

section \<open>Pages as sets of addresses\<close>

lemma page_aligned_dvd: "page_aligned a \<longleftrightarrow> 4096 dvd unat a"
  by (simp add: page_aligned_def mod_eq_0_iff_dvd)

lemma page_offset_unat:
  assumes "page_aligned v" "k < PGSIZE"
  shows "unat (v + k) = unat v + unat k"
proof (rule unat_add_lt)
  have "4096 dvd (2 ^ 32 - unat v :: nat)"
    using assms(1) by (intro dvd_diff_nat) (simp_all add: page_aligned_dvd)
  moreover have "0 < (2 ^ 32 - unat v :: nat)" using unat_lt32 [of v] by simp
  ultimately have "4096 \<le> (2 ^ 32 - unat v :: nat)" by (rule dvd_imp_le)
  with assms(2) show "unat v + unat k < 2 ^ 32"
    by (simp add: PGSIZE_def word_less_nat_alt)
qed

lemma in_page_iff: "page_aligned v \<Longrightarrow> a - v < PGSIZE \<longleftrightarrow> PGROUNDDOWN a = v"
proof
  assume v: "page_aligned v" and "a - v < PGSIZE"
  then have k: "unat (a - v) < 4096" "unat (v + (a - v)) = unat v + unat (a - v)"
    using page_offset_unat [of v "a - v"] by (simp_all add: PGSIZE_def word_less_nat_alt)
  then have "unat a = unat v + unat (a - v)" by simp
  with v k(1) have "unat a - unat a mod 4096 = unat v"
    by (auto simp: page_aligned_def mod_add_eq [symmetric, of "unat v"])
  then show "PGROUNDDOWN a = v" by (simp add: word_unat_eq_iff unat_PGROUNDDOWN)
next
  assume v: "page_aligned v" and "PGROUNDDOWN a = v"
  then have "unat v = unat a - unat a mod 4096" by (auto simp: unat_PGROUNDDOWN)
  moreover have "unat v \<le> unat a" using calculation by simp
  ultimately have "unat (a - v) = unat a mod 4096"
    by (simp add: unat_sub word_le_nat_alt)
  then show "a - v < PGSIZE" by (simp add: PGSIZE_def word_less_nat_alt)
qed

lemma pages_disjoint:
  "page_aligned v \<Longrightarrow> page_aligned w \<Longrightarrow> v \<noteq> w \<Longrightarrow> a - w < PGSIZE \<Longrightarrow> \<not> a - v < PGSIZE"
  by (simp add: in_page_iff)

lemma page_aligned_imp_word: "page_aligned a \<Longrightarrow> 4 dvd unat a"
  by (auto simp: page_aligned_dvd intro: dvd_trans [of 4 4096])

section \<open>Summary\<close>

text \<open>
  The macros split an address without loss: \<open>PGADDR\<close> puts directory index, table index and
  offset together again, two addresses have the same two indices just when they lie in the same
  page, a page table entry is its address part and its flags, and \<open>V2P\<close> and \<open>P2V\<close> invert
  each other.
\<close>

theorem address_split:
  "PGADDR (PDX va) (PTX va) (PTE_FLAGS va) = va \<and>
   (PDX va = PDX vb \<and> PTX va = PTX vb) = (PGROUNDDOWN va = PGROUNDDOWN vb) \<and>
   (PTE_ADDR e OR PTE_FLAGS e) = e \<and> V2P (P2V va) = va \<and> P2V (V2P va) = va"
  by (simp add: PGADDR_split PDX_PTX_eq_iff PTE_ADDR_FLAGS)

end
