(* ===== verification/Spinlock.thy ===== *)
theory Spinlock
  imports Mmu
begin

text \<open>
  \<open>spinlock.c\<close>: interrupt nesting (\<open>pushcli\<close>, \<open>popcli\<close>), the spin lock itself and
  the saved call stack, for any number of CPUs. \<open>acquire\<close> and \<open>release\<close> are also cut at
  their atomic instructions, and the interleaving of all CPUs is a step relation; mutual exclusion
  is an invariant of its reachable states.
\<close>

section \<open>Interrupt nesting\<close>

text \<open>The fields of \<open>struct cpu\<close> that locking uses, and the interrupt flag of \<open>%eflags\<close>.\<close>

record cpu =
  fl_if :: bool
  ncli :: int
  intena :: bool

definition cli :: "cpu \<Rightarrow> cpu" where "cli c = c\<lparr>fl_if := False\<rparr>"
definition sti :: "cpu \<Rightarrow> cpu" where "sti c = c\<lparr>fl_if := True\<rparr>"

definition pushcli :: "cpu \<Rightarrow> cpu" where
  "pushcli c =
     (let eflags = fl_if c;
          c = cli c;
          c = (if ncli c = 0 then c\<lparr>intena := eflags\<rparr> else c)
      in c\<lparr>ncli := ncli c + 1\<rparr>)"

definition popcli :: "cpu \<Rightarrow> (cpu, unit) res" where
  "popcli c =
     (if fl_if c then Panic ''popcli - interruptible''
      else let c = c\<lparr>ncli := ncli c - 1\<rparr>
           in if ncli c < 0 then Panic ''popcli''
              else if ncli c = 0 \<and> intena c then Ok () (sti c)
              else Ok () c)"

fun pops :: "nat \<Rightarrow> cpu \<Rightarrow> (cpu, unit) res" where
  "pops 0 c = Ok () c"
| "pops (Suc n) c = bindR (popcli c) (\<lambda>_ c. pops n c)"

text \<open>A CPU that runs with interrupts on is outside every \<open>pushcli\<close>.\<close>

definition cpu_ok :: "cpu \<Rightarrow> bool" where
  "cpu_ok c \<longleftrightarrow> 0 \<le> ncli c \<and> (fl_if c \<longrightarrow> ncli c = 0)"

lemma ncli_pushcli [simp]: "ncli (pushcli c) = ncli c + 1"
  and fl_if_pushcli [simp]: "fl_if (pushcli c) = False"
  and intena_pushcli: "intena (pushcli c) = (if ncli c = 0 then fl_if c else intena c)"
  by (simp_all add: pushcli_def cli_def Let_def)

lemma pushcli_cpu_ok: "cpu_ok c \<Longrightarrow> cpu_ok (pushcli c)"
  by (simp add: cpu_ok_def)

lemma popcli_pushcli:
  "cpu_ok c \<Longrightarrow> popcli (pushcli c) = Ok () (c\<lparr>intena := intena (pushcli c)\<rparr>)"
  by (cases c) (auto simp: popcli_def pushcli_def cli_def sti_def cpu_ok_def Let_def)

lemma pushclis:
  assumes "cpu_ok c" "0 < n"
  shows "(pushcli ^^ n) c =
    c\<lparr>fl_if := False, intena := intena (pushcli c), ncli := ncli c + int n\<rparr>"
  using assms(2)
proof (induction n)
  case (Suc n)
  show ?case
  proof (cases "n = 0")
    case True
    then show ?thesis by (cases c) (simp add: pushcli_def cli_def Let_def)
  next
    case False
    with Suc assms(1) show ?thesis
      by (cases c) (auto simp: pushcli_def cli_def Let_def cpu_ok_def)
  qed
qed simp

lemma pops_down:
  assumes "0 \<le> m" "\<not> fl_if c" "ncli c = m + int n" "0 < n"
  shows "pops n c = Ok () (c\<lparr>ncli := m, fl_if := (m = 0 \<and> intena c)\<rparr>)"
  using assms
proof (induction n arbitrary: c)
  case (Suc n)
  show ?case
  proof (cases "n = 0")
    case True
    with Suc.prems show ?thesis
      by (cases c) (auto simp: popcli_def sti_def Let_def)
  next
    case False
    have "popcli c = Ok () (c\<lparr>ncli := m + int n\<rparr>)"
      using Suc.prems False by (simp add: popcli_def Let_def)
    with Suc.IH [of "c\<lparr>ncli := m + int n\<rparr>"] Suc.prems False show ?thesis by simp
  qed
qed simp

section \<open>The lock\<close>

record spinlock =
  locked :: uint
  lcpu :: "nat option"
  pcs :: "uint list"

record smp =
  cpus :: "nat \<Rightarrow> cpu"
  lks :: "nat \<Rightarrow> spinlock"

definition initlock :: "spinlock \<Rightarrow> spinlock" where
  "initlock lk = lk\<lparr>locked := 0, lcpu := None\<rparr>"

definition on_cpu :: "nat \<Rightarrow> (cpu \<Rightarrow> (cpu, unit) res) \<Rightarrow> 'a smp_scheme \<Rightarrow> ('a smp_scheme, unit) res" where
  "on_cpu i f s =
     (case f (cpus s i) of
        Ok a c \<Rightarrow> Ok a (s\<lparr>cpus := (cpus s)(i := c)\<rparr>)
      | Panic m \<Rightarrow> Panic m
      | Fault m \<Rightarrow> Fault m
      | Swtch c \<Rightarrow> Swtch (s\<lparr>cpus := (cpus s)(i := c)\<rparr>)
      | NoReturn c \<Rightarrow> NoReturn (s\<lparr>cpus := (cpus s)(i := c)\<rparr>))"

definition push_cpu :: "nat \<Rightarrow> 'a smp_scheme \<Rightarrow> 'a smp_scheme" where
  "push_cpu i s = s\<lparr>cpus := (cpus s)(i := pushcli (cpus s i))\<rparr>"

definition upd_lk :: "nat \<Rightarrow> (spinlock \<Rightarrow> spinlock) \<Rightarrow> 'a smp_scheme \<Rightarrow> 'a smp_scheme" where
  "upd_lk l f s = s\<lparr>lks := (lks s)(l := f (lks s l))\<rparr>"

definition holding :: "nat \<Rightarrow> nat \<Rightarrow> 'a smp_scheme \<Rightarrow> ('a smp_scheme, bool) res" where
  "holding i l s =
     (let s = push_cpu i s;
          r = (locked (lks s l) \<noteq> 0 \<and> lcpu (lks s l) = Some i)
      in bindR (on_cpu i popcli s) (\<lambda>_ s. Ok r s))"

text \<open>
  \<open>getcallerpcs\<close> follows the chain of saved frame pointers; \<open>rd\<close> reads a word of memory.
\<close>

fun callerpcs_from :: "(uint \<Rightarrow> uint) \<Rightarrow> uint \<Rightarrow> nat \<Rightarrow> uint list" where
  "callerpcs_from rd ebp 0 = []"
| "callerpcs_from rd ebp (Suc n) =
     (if ebp = 0 \<or> ebp < KERNBASE \<or> ebp = 0xffffffff then []
      else rd (ebp + 4) # callerpcs_from rd (rd ebp) n)"

definition getcallerpcs :: "(uint \<Rightarrow> uint) \<Rightarrow> uint \<Rightarrow> uint list" where
  "getcallerpcs rd v =
     (let xs = callerpcs_from rd (v - 8) 10 in xs @ replicate (10 - length xs) 0)"

text \<open>The three stages of \<open>acquire\<close>: before the loop, one \<open>xchg\<close>, after the loop.\<close>

definition acquire_enter :: "nat \<Rightarrow> nat \<Rightarrow> 'a smp_scheme \<Rightarrow> ('a smp_scheme, unit) res" where
  "acquire_enter i l s =
     bindR (holding i l (push_cpu i s)) (\<lambda>r s. if r then Panic ''acquire'' else Ok () s)"

definition xchg :: "nat \<Rightarrow> uint \<Rightarrow> 'a smp_scheme \<Rightarrow> uint \<times> 'a smp_scheme" where
  "xchg l v s = (locked (lks s l), upd_lk l (\<lambda>lk. lk\<lparr>locked := v\<rparr>) s)"

definition acquire_done ::
  "(uint \<Rightarrow> uint) \<Rightarrow> uint \<Rightarrow> nat \<Rightarrow> nat \<Rightarrow> 'a smp_scheme \<Rightarrow> 'a smp_scheme" where
  "acquire_done rd v i l s = upd_lk l (\<lambda>lk. lk\<lparr>lcpu := Some i, pcs := getcallerpcs rd v\<rparr>) s"

text \<open>
  \<open>acquire\<close> run with no other CPU moving: where another CPU holds the lock it spins for ever.
\<close>

definition acquire ::
  "(uint \<Rightarrow> uint) \<Rightarrow> uint \<Rightarrow> nat \<Rightarrow> nat \<Rightarrow> 'a smp_scheme \<Rightarrow> ('a smp_scheme, unit) res" where
  "acquire rd v i l s =
     bindR (acquire_enter i l s) (\<lambda>_ s.
       let (old, s) = xchg l 1 s
       in if old \<noteq> 0 then NoReturn s else Ok () (acquire_done rd v i l s))"

definition release_enter :: "nat \<Rightarrow> nat \<Rightarrow> 'a smp_scheme \<Rightarrow> ('a smp_scheme, unit) res" where
  "release_enter i l s =
     bindR (holding i l s) (\<lambda>r s.
       if \<not> r then Panic ''release''
       else Ok () (upd_lk l (\<lambda>lk. lk\<lparr>pcs := (pcs lk)[0 := 0], lcpu := None\<rparr>) s))"

definition release_done :: "nat \<Rightarrow> nat \<Rightarrow> 'a smp_scheme \<Rightarrow> ('a smp_scheme, unit) res" where
  "release_done i l s = on_cpu i popcli (upd_lk l (\<lambda>lk. lk\<lparr>locked := 0\<rparr>) s)"

definition release :: "nat \<Rightarrow> nat \<Rightarrow> 'a smp_scheme \<Rightarrow> ('a smp_scheme, unit) res" where
  "release i l s = bindR (release_enter i l s) (\<lambda>_ s. release_done i l s)"

section \<open>All CPUs together\<close>

text \<open>
  Where a CPU stands: in other code (\<open>Out\<close>), in the loop of \<open>acquire\<close>, past the \<open>xchg\<close>
  that took the lock, or between the two halves of \<open>release\<close>. \<open>stack\<close> lists the locks that the
  CPU's code has acquired and not yet begun to release.
\<close>

datatype lpc = Out | Spin nat | Got nat | Rel nat

record sys = smp +
  pc :: "nat \<Rightarrow> lpc"
  stack :: "nat \<Rightarrow> nat list"

inductive lock_step :: "sys \<Rightarrow> sys \<Rightarrow> bool" where
  enter: "pc s i = Out \<Longrightarrow> acquire_enter i l s = Ok () s' \<Longrightarrow>
     lock_step s (s'\<lparr>pc := (pc s')(i := Spin l)\<rparr>)"
| spin: "pc s i = Spin l \<Longrightarrow> xchg l 1 s = (old, s') \<Longrightarrow> old \<noteq> 0 \<Longrightarrow> lock_step s s'"
| got: "pc s i = Spin l \<Longrightarrow> xchg l 1 s = (old, s') \<Longrightarrow> old = 0 \<Longrightarrow>
     lock_step s (s'\<lparr>pc := (pc s')(i := Got l)\<rparr>)"
| acquired: "pc s i = Got l \<Longrightarrow> s' = acquire_done rd v i l s \<Longrightarrow>
     lock_step s (s'\<lparr>pc := (pc s')(i := Out), stack := (stack s')(i := l # stack s' i)\<rparr>)"
| releasing: "pc s i = Out \<Longrightarrow> release_enter i l s = Ok () s' \<Longrightarrow>
     lock_step s (s'\<lparr>pc := (pc s')(i := Rel l), stack := (stack s')(i := remove1 l (stack s' i))\<rparr>)"
| released: "pc s i = Rel l \<Longrightarrow> release_done i l s = Ok () s' \<Longrightarrow>
     lock_step s (s'\<lparr>pc := (pc s')(i := Out)\<rparr>)"

definition lock_init :: "sys \<Rightarrow> bool" where
  "lock_init s \<longleftrightarrow> (\<forall>i. ncli (cpus s i) = 0 \<and> pc s i = Out \<and> stack s i = []) \<and>
     (\<forall>l. locked (lks s l) = 0 \<and> lcpu (lks s l) = None)"

inductive lock_reachable :: "sys \<Rightarrow> bool" where
  init: "lock_init s \<Longrightarrow> lock_reachable s"
| step: "lock_reachable s \<Longrightarrow> lock_step s t \<Longrightarrow> lock_reachable t"

section \<open>The invariant of the reachable states\<close>

definition owns :: "sys \<Rightarrow> nat \<Rightarrow> nat \<Rightarrow> bool" where
  "owns s i l \<longleftrightarrow> l \<in> set (stack s i) \<or> pc s i = Got l \<or> pc s i = Rel l"

definition lock_inv :: "sys \<Rightarrow> bool" where
  "lock_inv s \<longleftrightarrow>
     (\<forall>i l. lcpu (lks s l) = Some i \<longleftrightarrow> l \<in> set (stack s i)) \<and>
     (\<forall>i j l. owns s i l \<longrightarrow> owns s j l \<longrightarrow> i = j) \<and>
     (\<forall>l. locked (lks s l) \<noteq> 0 \<longleftrightarrow> (\<exists>i. owns s i l)) \<and>
     (\<forall>i. distinct (stack s i) \<and> (\<forall>l. pc s i = Got l \<or> pc s i = Rel l \<longrightarrow> l \<notin> set (stack s i))) \<and>
     (\<forall>i. ncli (cpus s i) = int (length (stack s i)) + (if pc s i = Out then 0 else 1)) \<and>
     (\<forall>i. cpu_ok (cpus s i))"

lemma lock_invD:
  assumes "lock_inv s"
  shows "lcpu (lks s l) = Some i \<longleftrightarrow> l \<in> set (stack s i)"
    and "owns s i l \<Longrightarrow> owns s j l \<Longrightarrow> i = j"
    and "locked (lks s l) \<noteq> 0 \<longleftrightarrow> (\<exists>i. owns s i l)"
    and "distinct (stack s i)"
    and "pc s i = Got l \<or> pc s i = Rel l \<Longrightarrow> l \<notin> set (stack s i)"
    and "ncli (cpus s i) = int (length (stack s i)) + (if pc s i = Out then 0 else 1)"
    and "cpu_ok (cpus s i)"
  using assms unfolding lock_inv_def by blast+

lemma lock_invI:
  assumes "\<And>i l. lcpu (lks s l) = Some i \<longleftrightarrow> l \<in> set (stack s i)"
    and "\<And>i j l. owns s i l \<Longrightarrow> owns s j l \<Longrightarrow> i = j"
    and "\<And>l. locked (lks s l) \<noteq> 0 \<longleftrightarrow> (\<exists>i. owns s i l)"
    and "\<And>i. distinct (stack s i)"
    and "\<And>i l. pc s i = Got l \<or> pc s i = Rel l \<Longrightarrow> l \<notin> set (stack s i)"
    and "\<And>i. ncli (cpus s i) = int (length (stack s i)) + (if pc s i = Out then 0 else 1)"
    and "\<And>i. cpu_ok (cpus s i)"
  shows "lock_inv s"
  unfolding lock_inv_def using assms by blast

lemma holding_ok:
  assumes "cpu_ok (cpus s i)"
  shows "holding i l s = Ok (locked (lks s l) \<noteq> 0 \<and> lcpu (lks s l) = Some i)
    (s\<lparr>cpus := (cpus s)(i := (cpus s i)\<lparr>intena := intena (pushcli (cpus s i))\<rparr>)\<rparr>)"
  by (simp add: holding_def on_cpu_def push_cpu_def popcli_pushcli assms Let_def)

lemma acquire_enter_ok:
  assumes "cpu_ok (cpus s i)"
  shows "acquire_enter i l s =
    (if locked (lks s l) \<noteq> 0 \<and> lcpu (lks s l) = Some i then Panic ''acquire''
     else Ok () (push_cpu i s))"
proof -
  have nz: "ncli (cpus s i) + 1 \<noteq> 0" using assms by (auto simp: cpu_ok_def)
  have ok: "cpu_ok (cpus (push_cpu i s) i)"
    using assms by (simp add: push_cpu_def pushcli_cpu_ok)
  have "intena (pushcli (pushcli (cpus s i))) = intena (pushcli (cpus s i))"
    using nz by (simp add: intena_pushcli)
  then have "(pushcli (cpus s i))\<lparr>intena := intena (pushcli (pushcli (cpus s i)))\<rparr> = pushcli (cpus s i)"
    by simp
  with holding_ok [OF ok, of l] show ?thesis
    by (simp add: acquire_enter_def push_cpu_def)
qed

lemma release_enter_ok:
  assumes "cpu_ok (cpus s i)"
  shows "release_enter i l s =
    (if locked (lks s l) \<noteq> 0 \<and> lcpu (lks s l) = Some i
     then Ok () (upd_lk l (\<lambda>lk. lk\<lparr>pcs := (pcs lk)[0 := 0], lcpu := None\<rparr>)
       (s\<lparr>cpus := (cpus s)(i := (cpus s i)\<lparr>intena := intena (pushcli (cpus s i))\<rparr>)\<rparr>))
     else Panic ''release'')"
  by (simp add: release_enter_def holding_ok [OF assms])

lemma popcli_ok:
  "cpu_ok c \<Longrightarrow> 0 < ncli c \<Longrightarrow>
   popcli c = Ok () (c\<lparr>ncli := ncli c - 1, fl_if := (ncli c = 1 \<and> intena c)\<rparr>)"
  by (cases c) (auto simp: popcli_def sti_def cpu_ok_def Let_def)

lemma release_done_ok:
  assumes "cpu_ok (cpus s i)" "0 < ncli (cpus s i)"
  shows "release_done i l s = Ok () (upd_lk l (\<lambda>lk. lk\<lparr>locked := 0\<rparr>)
    (s\<lparr>cpus := (cpus s)(i := (cpus s i)\<lparr>ncli := ncli (cpus s i) - 1,
        fl_if := (ncli (cpus s i) = 1 \<and> intena (cpus s i))\<rparr>)\<rparr>))"
  using popcli_ok [OF assms] by (simp add: release_done_def on_cpu_def upd_lk_def)

lemmas smp_defs = push_cpu_def upd_lk_def xchg_def acquire_done_def

lemma lock_inv_init: "lock_init s \<Longrightarrow> lock_inv s"
  by (auto simp: lock_init_def lock_inv_def owns_def cpu_ok_def)

lemma lock_inv_enter:
  assumes inv: "lock_inv s" and pc: "pc s i = Out" and ok: "acquire_enter i l s = Ok () s'"
  shows "lock_inv (s'\<lparr>pc := (pc s')(i := Spin l)\<rparr>)"
proof -
  note D = lock_invD [OF inv]
  have s': "s' = push_cpu i s"
    using ok D(7) by (simp add: acquire_enter_ok split: if_splits)
  have owns: "owns (s'\<lparr>pc := (pc s')(i := Spin l)\<rparr>) j k \<longleftrightarrow> owns s j k" for j k
    using pc by (auto simp: owns_def s' push_cpu_def)
  show ?thesis
  proof (rule lock_invI)
    show "cpu_ok (cpus (s'\<lparr>pc := (pc s')(i := Spin l)\<rparr>) j)" for j
      using D(7) by (simp add: s' push_cpu_def pushcli_cpu_ok)
  qed (unfold owns, use D pc in \<open>auto simp: s' push_cpu_def split: if_splits\<close>)
qed

lemma lock_inv_xchg:
  assumes inv: "lock_inv s" and pc: "pc s i = Spin l" and x: "xchg l 1 s = (old, s')"
  shows "old \<noteq> 0 \<Longrightarrow> s' = s\<lparr>lks := (lks s)(l := (lks s l)\<lparr>locked := 1\<rparr>)\<rparr> \<and> lock_inv s'"
    and "old = 0 \<Longrightarrow> lock_inv (s'\<lparr>pc := (pc s')(i := Got l)\<rparr>)"
proof -
  note D = lock_invD [OF inv]
  have s': "s' = s\<lparr>lks := (lks s)(l := (lks s l)\<lparr>locked := 1\<rparr>)\<rparr>" and old: "old = locked (lks s l)"
    using x by (auto simp: xchg_def upd_lk_def)
  show "old \<noteq> 0 \<Longrightarrow> s' = s\<lparr>lks := (lks s)(l := (lks s l)\<lparr>locked := 1\<rparr>)\<rparr> \<and> lock_inv s'"
  proof (intro conjI s' lock_invI)
    assume nz: "old \<noteq> 0"
    have owns: "owns s' j k \<longleftrightarrow> owns s j k" for j k by (auto simp: owns_def s')
    show "(locked (lks s' k) \<noteq> 0) = (\<exists>j. owns s' j k)" for k
      unfolding owns using D(3) [of k] D(3) [of l] nz old by (auto simp: s')
    show "owns s' j k \<Longrightarrow> owns s' m k \<Longrightarrow> j = m" for j m k using D(2) by (simp add: owns)
  qed (use D in \<open>auto simp: s'\<close>)
  assume z: "old = 0"
  let ?t = "s'\<lparr>pc := (pc s')(i := Got l)\<rparr>"
  have none: "\<not> owns s j l" for j using D(3) [of l] z old by auto
  have owns: "owns ?t j k \<longleftrightarrow> owns s j k \<or> j = i \<and> k = l" for j k
    using pc by (auto simp: owns_def s')
  show "lock_inv ?t"
  proof (rule lock_invI)
    show "(locked (lks ?t k) \<noteq> 0) = (\<exists>j. owns ?t j k)" for k
      unfolding owns using D(3) [of k] by (auto simp: s')
    show "owns ?t j k \<Longrightarrow> owns ?t m k \<Longrightarrow> j = m" for j m k
      using D(2) none by (auto simp: owns)
    show "pc ?t j = Got k \<or> pc ?t j = Rel k \<Longrightarrow> k \<notin> set (stack ?t j)" for j k
      using D(5) none [of i] by (auto simp: s' owns_def split: if_splits)
  qed (use D(1,4,6,7) pc in \<open>auto simp: s' split: if_splits\<close>)
qed

lemma lock_inv_acquired:
  assumes inv: "lock_inv s" and pc: "pc s i = Got l" and s': "s' = acquire_done rd v i l s"
  shows "lock_inv (s'\<lparr>pc := (pc s')(i := Out), stack := (stack s')(i := l # stack s' i)\<rparr>)"
    (is "lock_inv ?t")
proof -
  note D = lock_invD [OF inv]
  have mine: "owns s i l" using pc by (simp add: owns_def)
  have notin: "l \<notin> set (stack s j)" for j
    using D(2) [OF mine, of j] D(5) [of i l] pc by (auto simp: owns_def)
  have owns: "owns ?t j k \<longleftrightarrow> owns s j k" for j k
    using pc by (auto simp: owns_def s' acquire_done_def upd_lk_def)
  show ?thesis
  proof (rule lock_invI)
    show "lcpu (lks ?t k) = Some j \<longleftrightarrow> k \<in> set (stack ?t j)" for j k
      using D(1) notin by (auto simp: s' acquire_done_def upd_lk_def)
    show "owns ?t j k \<Longrightarrow> owns ?t m k \<Longrightarrow> j = m" for j m k using D(2) by (simp only: owns)
    show "(locked (lks ?t k) \<noteq> 0) = (\<exists>j. owns ?t j k)" for k
      unfolding owns using D(3) [of k] by (auto simp: s' acquire_done_def upd_lk_def)
    show "pc ?t j = Got k \<or> pc ?t j = Rel k \<Longrightarrow> k \<notin> set (stack ?t j)" for j k
      using D(5) by (auto simp: s' acquire_done_def upd_lk_def split: if_splits)
  qed (use D(4,6,7) notin pc in \<open>auto simp: s' acquire_done_def upd_lk_def split: if_splits\<close>)
qed

lemma lock_inv_releasing:
  assumes inv: "lock_inv s" and pc: "pc s i = Out" and ok: "release_enter i l s = Ok () s'"
  shows "lock_inv (s'\<lparr>pc := (pc s')(i := Rel l), stack := (stack s')(i := remove1 l (stack s' i))\<rparr>)"
    (is "lock_inv ?t")
proof -
  note D = lock_invD [OF inv]
  have s': "s' = upd_lk l (\<lambda>lk. lk\<lparr>pcs := (pcs lk)[0 := 0], lcpu := None\<rparr>)
       (s\<lparr>cpus := (cpus s)(i := (cpus s i)\<lparr>intena := intena (pushcli (cpus s i))\<rparr>)\<rparr>)"
    and mem: "l \<in> set (stack s i)"
    using ok D(1,7) by (auto simp: release_enter_ok split: if_splits)
  have others: "l \<notin> set (stack s j)" if "j \<noteq> i" for j
    using D(2) [of i l j] mem that by (auto simp: owns_def)
  have owns: "owns ?t j k \<longleftrightarrow> owns s j k" for j k
    using pc mem D(4) [of i] by (auto simp: owns_def s' upd_lk_def)
  have len: "int (length (remove1 l (stack s i))) = int (length (stack s i)) - 1"
    using mem length_pos_if_in_set [OF mem] by (simp add: length_remove1 of_nat_diff Suc_leI)
  show ?thesis
  proof (rule lock_invI)
    show "lcpu (lks ?t k) = Some j \<longleftrightarrow> k \<in> set (stack ?t j)" for j k
      using D(1) D(4) [of i] others by (auto simp: s' upd_lk_def)
    show "owns ?t j k \<Longrightarrow> owns ?t m k \<Longrightarrow> j = m" for j m k using D(2) by (simp only: owns)
    show "(locked (lks ?t k) \<noteq> 0) = (\<exists>j. owns ?t j k)" for k
      unfolding owns using D(3) [of k] by (auto simp: s' upd_lk_def)
    show "pc ?t j = Got k \<or> pc ?t j = Rel k \<Longrightarrow> k \<notin> set (stack ?t j)" for j k
      using D(4) [of i] D(5) by (auto simp: s' upd_lk_def split: if_splits)
    show "ncli (cpus ?t j) = int (length (stack ?t j)) + (if pc ?t j = Out then 0 else 1)" for j
      using D(6) pc len by (auto simp: s' upd_lk_def)
    show "cpu_ok (cpus ?t j)" for j
      using D(7) [of j] by (cases "j = i") (simp_all add: s' upd_lk_def cpu_ok_def)
  qed (use D(4) in \<open>auto simp: s' upd_lk_def\<close>)
qed

lemma lock_inv_released:
  assumes inv: "lock_inv s" and pc: "pc s i = Rel l" and ok: "release_done i l s = Ok () s'"
  shows "lock_inv (s'\<lparr>pc := (pc s')(i := Out)\<rparr>)" (is "lock_inv ?t")
proof -
  note D = lock_invD [OF inv]
  have pos: "0 < ncli (cpus s i)" using D(6) pc by simp
  have s': "s' = upd_lk l (\<lambda>lk. lk\<lparr>locked := 0\<rparr>)
    (s\<lparr>cpus := (cpus s)(i := (cpus s i)\<lparr>ncli := ncli (cpus s i) - 1,
        fl_if := (ncli (cpus s i) = 1 \<and> intena (cpus s i))\<rparr>)\<rparr>)"
    using ok release_done_ok [OF D(7) pos] by simp
  have mine: "owns s i l" using pc by (simp add: owns_def)
  have only: "owns s j l \<Longrightarrow> j = i" for j using D(2) mine by blast
  have owns: "owns ?t j k \<longleftrightarrow> owns s j k \<and> k \<noteq> l" for j k
  proof (cases "j = i")
    case True
    then show ?thesis using pc D(5) [of i l] by (auto simp: owns_def s' upd_lk_def)
  next
    case False
    then have "owns ?t j k \<longleftrightarrow> owns s j k" by (simp add: owns_def s' upd_lk_def)
    with False only [of j] show ?thesis by blast
  qed
  show ?thesis
  proof (rule lock_invI)
    show "owns ?t j k \<Longrightarrow> owns ?t m k \<Longrightarrow> j = m" for j m k using D(2) by (auto simp: owns)
    show "(locked (lks ?t k) \<noteq> 0) = (\<exists>j. owns ?t j k)" for k
      unfolding owns using D(3) [of k] by (auto simp: s' upd_lk_def)
    show "lcpu (lks ?t k) = Some j \<longleftrightarrow> k \<in> set (stack ?t j)" for j k
      using D(1) by (auto simp: s' upd_lk_def)
    show "pc ?t j = Got k \<or> pc ?t j = Rel k \<Longrightarrow> k \<notin> set (stack ?t j)" for j k
      using D(5) by (auto simp: s' upd_lk_def split: if_splits)
    show "cpu_ok (cpus ?t j)" for j
      using D(7) [of j] D(7) [of i] pos by (cases "j = i") (simp_all add: s' upd_lk_def cpu_ok_def)
  qed (use D(4,6) pc in \<open>auto simp: s' upd_lk_def\<close>)
qed

lemma lock_step_inv: "lock_step s t \<Longrightarrow> lock_inv s \<Longrightarrow> lock_inv t"
  by (induction rule: lock_step.induct)
     (blast intro: lock_inv_enter lock_inv_acquired lock_inv_releasing lock_inv_released
       dest: lock_inv_xchg)+

lemma reachable_lock_inv: "lock_reachable s \<Longrightarrow> lock_inv s"
  by (induction rule: lock_reachable.induct) (blast intro: lock_inv_init lock_step_inv)+

lemma length_callerpcs_from: "length (callerpcs_from rd ebp n) \<le> n"
  by (induction n arbitrary: ebp) auto

lemma length_getcallerpcs: "length (getcallerpcs rd v) = 10"
  using length_callerpcs_from [of rd "v - 8" 10] by (simp add: getcallerpcs_def Let_def)

section \<open>Properties\<close>

text \<open>
  (C5) Mutual exclusion: in every state that any interleaving of all CPUs' \<open>acquire\<close> and
  \<open>release\<close> steps can reach, two CPUs that have both acquired the same spin lock are the same
  CPU, and that CPU runs with interrupts off.
\<close>

theorem mutual_exclusion:
  assumes "lock_reachable s" and "l \<in> set (stack s i)" and "l \<in> set (stack s j)"
  shows "i = j \<and> \<not> fl_if (cpus s i)"
proof -
  note D = lock_invD [OF reachable_lock_inv [OF assms(1)]]
  from assms(2,3) have "i = j" by (intro D(2)) (auto simp: owns_def)
  moreover have "0 < length (stack s i)" using assms(2) by (rule length_pos_if_in_set)
  then have "ncli (cpus s i) \<noteq> 0" using D(6) [of i] by simp
  then have "\<not> fl_if (cpus s i)" using D(7) [of i] by (auto simp: cpu_ok_def)
  ultimately show ?thesis by simp
qed

definition boot_sys :: sys where
  "boot_sys = \<lparr>cpus = (\<lambda>_. \<lparr>fl_if = True, ncli = 0, intena = False\<rparr>),
     lks = (\<lambda>_. \<lparr>locked = 0, lcpu = None, pcs = replicate 10 0\<rparr>),
     pc = (\<lambda>_. Out), stack = (\<lambda>_. [])\<rparr>"

lemma boot_sys_run:
  "\<exists>s. lock_reachable s \<and> stack s = (\<lambda>_. [])(1 := [5]) \<and> pc s = (\<lambda>_. Out)"
proof -
  have r0: "lock_reachable boot_sys"
    by (rule lock_reachable.init) (simp add: lock_init_def boot_sys_def)
  have e: "acquire_enter 1 5 boot_sys = Ok () (push_cpu 1 boot_sys)"
    by (subst acquire_enter_ok) (simp_all add: boot_sys_def cpu_ok_def)
  let ?s1 = "(push_cpu 1 boot_sys)\<lparr>pc := (pc (push_cpu 1 boot_sys))(1 := Spin 5)\<rparr>"
  have r1: "lock_reachable ?s1"
    by (rule lock_reachable.step [OF r0 lock_step.enter [OF _ e]]) (simp add: boot_sys_def)
  let ?s2 = "snd (xchg 5 1 ?s1)"
  let ?s3 = "?s2\<lparr>pc := (pc ?s2)(1 := Got 5)\<rparr>"
  have x: "xchg 5 1 ?s1 = (0, ?s2)"
    by (simp add: xchg_def push_cpu_def boot_sys_def)
  have r3: "lock_reachable ?s3"
    by (rule lock_reachable.step [OF r1 lock_step.got [OF _ x]]) simp_all
  let ?s4 = "acquire_done (\<lambda>_. 0) 0 1 5 ?s3"
  let ?s5 = "?s4\<lparr>pc := (pc ?s4)(1 := Out), stack := (stack ?s4)(1 := 5 # stack ?s4 1)\<rparr>"
  have "lock_reachable ?s5"
    by (rule lock_reachable.step [OF r3 lock_step.acquired [OF _ refl]]) simp
  moreover have "stack ?s5 = (\<lambda>_. [])(1 := [5])" "pc ?s5 = (\<lambda>_. Out)"
    by (simp_all add: smp_defs boot_sys_def fun_eq_iff)
  ultimately show ?thesis by blast
qed

theorem mutual_exclusion_witness:
  "\<exists>s. lock_reachable s \<and> 5 \<in> set (stack s 1) \<and> \<not> fl_if (cpus s 1)"
proof -
  obtain s where s: "lock_reachable s" "stack s = (\<lambda>_. [])(1 := [5])"
    using boot_sys_run by blast
  then have "5 \<in> set (stack s 1)" by simp
  with mutual_exclusion [OF s(1) this this] s(1) show ?thesis by blast
qed

text \<open>
  In every reachable state a CPU outside \<open>acquire\<close> and \<open>release\<close> panics in
  \<open>acquire\<close> exactly when it already holds the lock, and in \<open>release\<close> exactly when it does
  not: the debugging fields of the lock never give a false alarm and never miss a misuse.
\<close>

theorem misuse_panics:
  assumes "lock_reachable s" and "pc s i = Out"
  shows "(acquire_enter i l s = Panic ''acquire'') = (l \<in> set (stack s i)) \<and>
    (release_enter i l s = Panic ''release'') = (l \<notin> set (stack s i))"
proof -
  note D = lock_invD [OF reachable_lock_inv [OF assms(1)]]
  have "(locked (lks s l) \<noteq> 0 \<and> lcpu (lks s l) = Some i) = (l \<in> set (stack s i))"
    using D(1) D(3) [of l] by (auto simp: owns_def)
  then show ?thesis
    by (simp add: acquire_enter_ok release_enter_ok D(7))
qed

theorem misuse_panics_witness:
  "\<exists>s. lock_reachable s \<and> acquire_enter 1 5 s = Panic ''acquire'' \<and>
     release_enter 1 6 s = Panic ''release''"
proof -
  obtain s where s: "lock_reachable s" "stack s = (\<lambda>_. [])(1 := [5])" "pc s = (\<lambda>_. Out)"
    using boot_sys_run by blast
  then have "pc s 1 = Out" by simp
  with misuse_panics [OF s(1) this, of 5] misuse_panics [OF s(1) this, of 6] s show ?thesis
    by auto
qed

text \<open>
  \<open>pushcli\<close> and \<open>popcli\<close> match: \<open>n\<close> pushes leave interrupts off, and \<open>n\<close> pops
  after them succeed and put back the nesting depth and the interrupt flag the CPU had.
\<close>

theorem pushcli_popcli_match:
  assumes "cpu_ok c" and "0 < n"
  shows "\<not> fl_if ((pushcli ^^ n) c) \<and>
    (\<exists>c'. pops n ((pushcli ^^ n) c) = Ok () c' \<and> ncli c' = ncli c \<and> fl_if c' = fl_if c)"
proof -
  let ?c = "(pushcli ^^ n) c"
  note p = pushclis [OF assms]
  have "pops n ?c = Ok () (?c\<lparr>ncli := ncli c, fl_if := (ncli c = 0 \<and> intena ?c)\<rparr>)"
    using assms by (intro pops_down) (simp_all add: p cpu_ok_def)
  moreover have "(ncli c = 0 \<and> intena ?c) = fl_if c"
    using assms(1) by (auto simp: p cpu_ok_def intena_pushcli)
  ultimately show ?thesis by (simp add: p)
qed

theorem pushcli_popcli_match_witness:
  "\<exists>c'. pops 3 ((pushcli ^^ 3) \<lparr>fl_if = True, ncli = 0, intena = False\<rparr>) = Ok () c' \<and> fl_if c'"
  using pushcli_popcli_match [of "\<lparr>fl_if = True, ncli = 0, intena = False\<rparr>" 3]
  by (auto simp: cpu_ok_def)

end
