(* ===== verification/Cstring.thy ===== *)
theory Cstring
  imports Mmu
begin

text \<open>
  The kernel's memory as bytes at 32-bit addresses, and \<open>string.c\<close>. Functions that write
  through a pointer into arbitrary memory (\<open>memset\<close>, \<open>memmove\<close>) work on the memory; string
  functions take a string as the bytes seen from its pointer, \<open>nat \<Rightarrow> uchar\<close>, and those that
  fill a buffer return the bytes they write.
\<close>

type_synonym memory = "uint \<Rightarrow> uchar"

section \<open>Words in memory\<close>

definition load32 :: "memory \<Rightarrow> uint \<Rightarrow> uint" where
  "load32 m a = le32 (m a) (m (a + 1)) (m (a + 2)) (m (a + 3))"

definition store32 :: "uint \<Rightarrow> uint \<Rightarrow> memory \<Rightarrow> memory" where
  "store32 a w m = m(a := byte_of w 0, a + 1 := byte_of w (Suc 0), a + 2 := byte_of w 2,
     a + 3 := byte_of w 3)"

lemma load32_store32_same [simp]: "load32 (store32 a w m) a = w"
  by (simp add: load32_def store32_def)

lemma load32_cong: "(\<And>k. k < 4 \<Longrightarrow> m (a + k) = m' (a + k)) \<Longrightarrow> load32 m a = load32 m' a"
proof -
  assume "\<And>k. k < 4 \<Longrightarrow> m (a + k) = m' (a + k)"
  from this [of 0] this [of 1] this [of 2] this [of 3] show ?thesis
    by (simp add: load32_def)
qed

lemma store32_apply: "store32 a w m b = (if b - a < 4 then byte_of w (unat (b - a)) else m b)"
proof -
  have "b - a < 4 \<longleftrightarrow> b = a \<or> b = a + 1 \<or> b = a + 2 \<or> b = a + 3"
  proof
    assume "b - a < 4"
    then have "unat (b - a) < 4" by (simp add: word_less_nat_alt)
    then have "unat (b - a) = 0 \<or> unat (b - a) = 1 \<or> unat (b - a) = 2 \<or> unat (b - a) = 3" by auto
    then have "b - a = 0 \<or> b - a = 1 \<or> b - a = 2 \<or> b - a = 3"
      by (auto simp: word_unat_eq_iff)
    then show "b = a \<or> b = a + 1 \<or> b = a + 2 \<or> b = a + 3" by (metis diff_add_cancel add.commute add_0)
  qed auto
  then show ?thesis by (auto simp: store32_def)
qed

lemma store32_again [simp]: "store32 a w (store32 a v m) = store32 a w m"
  by (rule ext) (simp add: store32_apply)

text \<open>Two words do not overlap when neither starts inside the other.\<close>

lemma words_apart:
  assumes "4 \<le> b - a" "4 \<le> a - b" "k < (4 :: uint)"
  shows "\<not> b + k - a < (4 :: uint)"
proof -
  have nz: "b - a \<noteq> 0" using assms(1) by auto
  have "unat (b - a) \<le> 2 ^ 32 - 4"
    using unat_neg [OF nz] assms(2) unat_lt32 [of "b - a"] by (simp add: word_le_nat_alt)
  then have "unat (b - a + k) = unat (b - a) + unat k"
    using assms(3) by (intro unat_add_lt) (simp add: word_less_nat_alt)
  then have "unat (b + k - a) = unat (b - a) + unat k" by (simp only: diff_add_eq)
  then show ?thesis using assms(1) by (simp add: word_less_nat_alt word_le_nat_alt)
qed

lemma load32_store32_far:
  "4 \<le> b - a \<Longrightarrow> 4 \<le> a - b \<Longrightarrow> load32 (store32 a w m) b = load32 m b"
  by (rule load32_cong) (simp add: store32_apply words_apart)

definition word_aligned :: "uint \<Rightarrow> bool" where
  "word_aligned a \<longleftrightarrow> 4 dvd unat a"

lemma dvd_unat_diff:
  fixes a b :: uint
  assumes "n dvd unat a" "n dvd unat b" "n dvd 2 ^ 32"
  shows "n dvd unat (b - a)"
proof (cases "unat a \<le> unat b")
  case True
  with assms show ?thesis by (simp add: unat_sub word_le_nat_alt dvd_diff_nat)
next
  case False
  with assms show ?thesis
    by (simp add: unat_sub_if_size word_size dvd_diff_nat)
qed

lemma aligned_diff:
  assumes "word_aligned a" "word_aligned b" "a \<noteq> b"
  shows "4 \<le> b - a"
proof -
  have "4 dvd unat (b - a)"
    using assms(1,2) by (intro dvd_unat_diff) (auto simp: word_aligned_def)
  moreover have "unat (b - a) \<noteq> 0" using assms(3) by (simp add: unat_eq_0)
  ultimately have "4 \<le> unat (b - a)" by (auto intro: dvd_imp_le)
  then show ?thesis by (simp add: word_le_nat_alt)
qed

lemma load32_store32_aligned:
  "word_aligned a \<Longrightarrow> word_aligned b \<Longrightarrow>
   load32 (store32 a w m) b = (if a = b then w else load32 m b)"
  by (auto intro: load32_store32_far aligned_diff)

text \<open>Bytes moved between the memory and a buffer that the model keeps as a list.\<close>

definition get_bytes :: "memory \<Rightarrow> uint \<Rightarrow> nat \<Rightarrow> uchar list" where
  "get_bytes m a n = map (\<lambda>i. m (a + of_nat i)) [0..<n]"

definition put_bytes :: "uint \<Rightarrow> uchar list \<Rightarrow> memory \<Rightarrow> memory" where
  "put_bytes a bs m = (\<lambda>b. if unat (b - a) < length bs then bs ! unat (b - a) else m b)"

lemma length_get_bytes [simp]: "length (get_bytes m a n) = n"
  by (simp add: get_bytes_def)

lemma nth_get_bytes [simp]: "i < n \<Longrightarrow> get_bytes m a n ! i = m (a + of_nat i)"
  by (simp add: get_bytes_def)

lemma put_bytes_Nil [simp]: "put_bytes a [] m = m"
  by (simp add: put_bytes_def)

lemma get_put_bytes:
  assumes "length bs < 2 ^ 32"
  shows "get_bytes (put_bytes a bs m) a (length bs) = bs"
  using assms by (intro nth_equalityI) (simp_all add: put_bytes_def unat_of_nat32)

section \<open>memset, memmove, memcmp\<close>

fun stosb :: "uint \<Rightarrow> uchar \<Rightarrow> nat \<Rightarrow> memory \<Rightarrow> memory" where
  "stosb d c 0 m = m"
| "stosb d c (Suc n) m = stosb (d + 1) c n (m(d := c))"

fun stosl :: "uint \<Rightarrow> uint \<Rightarrow> nat \<Rightarrow> memory \<Rightarrow> memory" where
  "stosl d w 0 m = m"
| "stosl d w (Suc n) m = stosl (d + 4) w n (store32 d w m)"

text \<open>\<open>c\<close> is the \<open>int\<close> argument as its 32 bits.\<close>

definition memset :: "uint \<Rightarrow> uint \<Rightarrow> uint \<Rightarrow> memory \<Rightarrow> memory" where
  "memset dst c n m =
     (if unat dst mod 4 = 0 \<and> unat n mod 4 = 0
      then let c = c AND 0xFF
           in stosl dst (push_bit 24 c OR push_bit 16 c OR push_bit 8 c OR c) (unat n div 4) m
      else stosb dst (ucast c) (unat n) m)"

fun copy_up :: "uint \<Rightarrow> uint \<Rightarrow> nat \<Rightarrow> memory \<Rightarrow> memory" where
  "copy_up d s 0 m = m"
| "copy_up d s (Suc n) m = copy_up (d + 1) (s + 1) n (m(d := m s))"

fun copy_down :: "uint \<Rightarrow> uint \<Rightarrow> nat \<Rightarrow> memory \<Rightarrow> memory" where
  "copy_down d s 0 m = m"
| "copy_down d s (Suc n) m = copy_down (d - 1) (s - 1) n (m(d - 1 := m (s - 1)))"

definition memmove :: "uint \<Rightarrow> uint \<Rightarrow> uint \<Rightarrow> memory \<Rightarrow> memory" where
  "memmove dst src n m =
     (if src < dst \<and> dst < src + n then copy_down (dst + n) (src + n) (unat n) m
      else copy_up dst src (unat n) m)"

definition memcpy :: "uint \<Rightarrow> uint \<Rightarrow> uint \<Rightarrow> memory \<Rightarrow> memory" where
  "memcpy dst src n m = memmove dst src n m"

fun memcmp :: "(nat \<Rightarrow> uchar) \<Rightarrow> (nat \<Rightarrow> uchar) \<Rightarrow> nat \<Rightarrow> int" where
  "memcmp s1 s2 0 = 0"
| "memcmp s1 s2 (Suc n) =
     (if s1 0 \<noteq> s2 0 then int (unat (s1 0)) - int (unat (s2 0))
      else memcmp (\<lambda>i. s1 (Suc i)) (\<lambda>i. s2 (Suc i)) n)"

section \<open>Strings\<close>

fun strncmp :: "(nat \<Rightarrow> uchar) \<Rightarrow> (nat \<Rightarrow> uchar) \<Rightarrow> nat \<Rightarrow> int" where
  "strncmp p q 0 = 0"
| "strncmp p q (Suc n) =
     (if p 0 \<noteq> 0 \<and> p 0 = q 0 then strncmp (\<lambda>i. p (Suc i)) (\<lambda>i. q (Suc i)) n
      else int (unat (p 0)) - int (unat (q 0)))"

text \<open>The bytes written to the buffer by \<open>strncpy\<close> and \<open>safestrcpy\<close>.\<close>

fun strncpy :: "(nat \<Rightarrow> uchar) \<Rightarrow> nat \<Rightarrow> uchar list" where
  "strncpy t 0 = []"
| "strncpy t (Suc n) =
     (if t 0 \<noteq> 0 then t 0 # strncpy (\<lambda>i. t (Suc i)) n else 0 # replicate n 0)"

fun safestrcpy :: "(nat \<Rightarrow> uchar) \<Rightarrow> nat \<Rightarrow> uchar list" where
  "safestrcpy t 0 = []"
| "safestrcpy t (Suc 0) = [0]"
| "safestrcpy t (Suc (Suc n)) =
     (if t 0 \<noteq> 0 then t 0 # safestrcpy (\<lambda>i. t (Suc i)) (Suc n) else [0, 0])"

text \<open>\<open>strlen\<close> runs on until it meets a NUL: \<open>None\<close> is a string that has none.\<close>

partial_function (option) strlen_from :: "(nat \<Rightarrow> uchar) \<Rightarrow> nat \<Rightarrow> nat option" where
  "strlen_from s n = (if s n \<noteq> 0 then strlen_from s (Suc n) else Some n)"

definition strlen :: "(nat \<Rightarrow> uchar) \<Rightarrow> nat option" where
  "strlen s = strlen_from s 0"

section \<open>What the loops compute\<close>

lemma unat_pred: "a \<noteq> d \<Longrightarrow> unat (a - (d + 1)) = unat (a - d) - 1" for a d :: uint
  using unat_minus_one [of "a - d"] by (simp add: diff_diff_eq)

lemma stosb_eq:
  "n \<le> 2 ^ 32 \<Longrightarrow> stosb d c n m a = (if unat (a - d) < n then c else m a)"
proof (induction n arbitrary: d m)
  case (Suc n)
  then have IH: "stosb (d + 1) c n (m(d := c)) a =
      (if unat (a - (d + 1)) < n then c else (m(d := c)) a)" by simp
  show ?case
  proof (cases "a = d")
    case True
    with IH show ?thesis by simp
  next
    case False
    then have "unat (a - d) \<noteq> 0" by (simp add: unat_eq_0)
    with False have "unat (a - (d + 1)) < n \<longleftrightarrow> unat (a - d) < Suc n"
      by (simp add: unat_pred less_Suc_eq_0_disj) arith
    with IH False show ?thesis by simp
  qed
qed simp

lemma stosl_eq:
  assumes "\<And>k. k < 4 \<Longrightarrow> byte_of w k = c" "4 * n \<le> 2 ^ 32"
  shows "stosl d w n m a = (if unat (a - d) < 4 * n then c else m a)"
  using assms(2)
proof (induction n arbitrary: d m)
  case (Suc n)
  then have IH: "stosl (d + 4) w n (store32 d w m) a =
      (if unat (a - (d + 4)) < 4 * n then c else store32 d w m a)" by simp
  show ?case
  proof (cases "a - d < 4")
    case True
    then have "unat (a - d) < 4" by (simp add: word_less_nat_alt)
    with IH True assms(1) show ?thesis by (simp add: store32_apply)
  next
    case False
    then have "unat (a - d - 4) = unat (a - d) - 4" by (simp add: unat_sub not_less)
    then have "unat (a - (d + 4)) = unat (a - d) - 4" by (simp add: diff_diff_eq)
    moreover have "4 \<le> unat (a - d)" using False by (simp add: word_less_nat_alt)
    ultimately show ?thesis using IH False by (auto simp: store32_apply)
  qed
qed simp

lemma byte_of_fill:
  assumes "k < 4"
  shows "byte_of (push_bit 24 (c AND 0xFF) OR push_bit 16 (c AND 0xFF) OR
    push_bit 8 (c AND 0xFF) OR (c AND 0xFF)) k = ucast c"
proof -
  have m: "(0xFF :: uint) = mask 8" by (simp add: mask_eq_exp_minus_1)
  have "k = 0 \<or> k = 1 \<or> k = 2 \<or> k = 3" using assms by auto
  then show ?thesis
    by (elim disjE; simp only: m; intro bit_word_eqI) (auto simp: byte_of_def bit_simps)
qed

lemma memset_eq: "memset dst c n m = (\<lambda>a. if a - dst < n then ucast c else m a)"
proof
  fix a
  show "memset dst c n m a = (if a - dst < n then ucast c else m a)"
  proof (cases "unat dst mod 4 = 0 \<and> unat n mod 4 = 0")
    case True
    then have n: "4 * (unat n div 4) = unat n" by auto
    have "unat n \<le> 2 ^ 32" using unat_lt32 [of n] by simp
    with n show ?thesis
      using True stosl_eq [OF byte_of_fill, of "unat n div 4" dst c m a]
      by (simp add: memset_def Let_def word_less_nat_alt)
  next
    case False
    have "unat n \<le> 2 ^ 32" using unat_lt32 [of n] by simp
    then show ?thesis
      by (simp only: memset_def if_not_P [OF False] stosb_eq word_less_nat_alt)
  qed
qed

lemma copy_up_eq:
  assumes "n < 2 ^ 32" "d = s \<or> n \<le> unat (d - s)"
  shows "copy_up d s n m a = (if unat (a - d) < n then m (s + (a - d)) else m a)"
  using assms
proof (induction n arbitrary: d s m)
  case (Suc n)
  have IH: "copy_up (d + 1) (s + 1) n (m(d := m s)) a =
      (if unat (a - (d + 1)) < n then (m(d := m s)) (s + 1 + (a - (d + 1))) else (m(d := m s)) a)"
    by (intro Suc.IH) (use Suc.prems in auto)
  have shift: "s + 1 + (a - (d + 1)) = s + (a - d)" by (simp add: algebra_simps)
  show ?case
  proof (cases "a = d")
    case True
    have "\<not> unat (- 1 :: uint) < n" using Suc.prems(1) unat_neg [of 1] by simp
    with IH True show ?thesis by (simp add: shift)
  next
    case False
    then have nz: "unat (a - d) \<noteq> 0" by (simp add: unat_eq_0)
    from False nz have lt: "unat (a - (d + 1)) < n \<longleftrightarrow> unat (a - d) < Suc n"
      by (simp add: unat_pred) arith
    have "s + (a - d) \<noteq> d" if "unat (a - d) < Suc n"
    proof
      assume "s + (a - d) = d"
      then have "a - d = d - s" by (simp add: algebra_simps)
      with that Suc.prems(2) nz show False by auto
    qed
    with IH False lt show ?thesis by (simp add: shift)
  qed
qed simp

lemma copy_down_eq:
  assumes "n < 2 ^ 32" "d = s \<or> n \<le> unat (s - d)"
  shows "copy_down d s n m a = (if unat (d - 1 - a) < n then m (s + (a - d)) else m a)"
  using assms
proof (induction n arbitrary: d s m)
  case (Suc n)
  have IH: "copy_down (d - 1) (s - 1) n (m(d - 1 := m (s - 1))) a =
      (if unat (d - 1 - 1 - a) < n then (m(d - 1 := m (s - 1))) (s - 1 + (a - (d - 1)))
       else (m(d - 1 := m (s - 1))) a)"
    by (intro Suc.IH) (use Suc.prems in auto)
  have shift: "s - 1 + (a - (d - 1)) = s + (a - d)" by (simp add: algebra_simps)
  show ?case
  proof (cases "a = d - 1")
    case True
    have "\<not> unat (- 1 :: uint) < n" using Suc.prems(1) unat_neg [of 1] by simp
    with IH True show ?thesis by simp
  next
    case False
    then have nz: "unat (d - 1 - a) \<noteq> 0" by (simp add: unat_eq_0)
    have "unat (d - 1 - 1 - a) = unat (d - 1 - a) - 1"
      using unat_minus_one [of "d - 1 - a"] nz by (simp add: unat_eq_0 algebra_simps)
    with nz have lt: "unat (d - 1 - 1 - a) < n \<longleftrightarrow> unat (d - 1 - a) < Suc n" by arith
    have "s + (a - d) \<noteq> d - 1" if "unat (d - 1 - a) < Suc n"
    proof
      assume "s + (a - d) = d - 1"
      then have "d - 1 - a = s - d" by (simp add: algebra_simps)
      with that Suc.prems(2) nz show False by auto
    qed
    with IH False lt show ?thesis by (simp add: shift)
  qed
qed simp

lemma memmove_eq:
  assumes "unat src + unat n < 2 ^ 32" "unat dst + unat n < 2 ^ 32"
  shows "memmove dst src n m = (\<lambda>a. if a - dst < n then m (src + (a - dst)) else m a)"
proof
  fix a
  have n: "unat n < 2 ^ 32" using assms(1) by simp
  have ends: "unat (src + n) = unat src + unat n" using assms(1) by (rule unat_add_lt)
  show "memmove dst src n m a = (if a - dst < n then m (src + (a - dst)) else m a)"
  proof (cases "src < dst \<and> dst < src + n")
    case True
    then have "unat (dst - src) < unat n" "src < dst"
      using ends by (auto simp: word_less_nat_alt unat_sub word_le_nat_alt)
    moreover have "dst - src \<noteq> 0" using True by auto
    ultimately have "unat n \<le> unat (src + n - (dst + n))"
      using unat_neg [of "dst - src"] assms(2)
      by (simp add: unat_sub word_less_nat_alt word_le_nat_alt)
    moreover have "unat (dst + n - 1 - a) < unat n \<longleftrightarrow> a - dst < n"
    proof (cases "n = 0")
      case False
      have 1: "dst + n - 1 - a = n - 1 - (a - dst)" by (simp add: algebra_simps)
      have n1: "unat (n - 1) = unat n - 1" using False by (rule unat_minus_one)
      have "0 < unat n" using False by (simp add: unat_gt_0)
      then show ?thesis
        unfolding 1 word_less_nat_alt using n n1 unat_lt32 [of "a - dst"]
        by (auto simp: unat_sub_if_size word_size)
    qed simp
    ultimately show ?thesis
      using True n copy_down_eq [of "unat n" "dst + n" "src + n" m a]
      by (simp add: memmove_def algebra_simps)
  next
    case False
    have "dst = src \<or> unat n \<le> unat (dst - src)"
    proof (cases "src < dst")
      case True
      with False ends show ?thesis
        by (auto simp: word_less_nat_alt unat_sub word_le_nat_alt)
    next
      case less: False
      show ?thesis
      proof (cases "dst = src")
        case False
        have "unat (src - dst) = unat src - unat dst"
          using less by (simp add: unat_sub not_less)
        with unat_neg [of "src - dst"] False assms(1) show ?thesis by simp
      qed simp
    qed
    then show ?thesis
      using n copy_up_eq [of "unat n" dst src m a]
      unfolding memmove_def if_not_P [OF False] by (simp add: word_less_nat_alt)
  qed
qed

section \<open>Facts about the string functions\<close>

text \<open>The string at \<open>p\<close>, cut at its NUL or after \<open>n\<close> bytes.\<close>

definition cstr :: "(nat \<Rightarrow> uchar) \<Rightarrow> nat \<Rightarrow> uchar list" where
  "cstr p n = takeWhile (\<lambda>c. c \<noteq> 0) (map p [0..<n])"

lemma cstr_0 [simp]: "cstr p 0 = []"
  by (simp add: cstr_def)

lemma cstr_Suc [simp]: "cstr p (Suc n) = (if p 0 = 0 then [] else p 0 # cstr (\<lambda>i. p (Suc i)) n)"
proof -
  have "map p [0..<Suc n] = p 0 # map (\<lambda>i. p (Suc i)) [0..<n]"
    by (simp add: upt_conv_Cons map_Suc_upt [symmetric] del: upt_Suc)
  then show ?thesis by (simp add: cstr_def del: upt_Suc)
qed

lemma byte_diff_0: "int (unat a) - int (unat b) = 0 \<longleftrightarrow> a = b" for a b :: uchar
  by (simp add: word_uint_eq_iff)

lemma strncmp_0_iff: "strncmp p q n = 0 \<longleftrightarrow> cstr p n = cstr q n"
proof (induction p q n rule: strncmp.induct)
  case (2 p q n)
  then show ?case using byte_diff_0 [of "p 0" "q 0"] by (auto simp del: right_minus_eq)
qed simp

lemma length_strncpy [simp]: "length (strncpy t n) = n"
  by (induction t n rule: strncpy.induct) auto

lemma strncpy_nth_shift: "(\<lambda>i. (x # xs) ! Suc i) = (\<lambda>i. xs ! i)"
  by simp

lemma cstr_replicate_0: "cstr (\<lambda>i. replicate n 0 ! i) n = []"
  by (cases n) simp_all

lemma cstr_strncpy [simp]: "cstr (\<lambda>i. strncpy t n ! i) n = cstr t n"
  by (induction t n rule: strncpy.induct) auto

lemma safestrcpy_props:
  "0 < n \<Longrightarrow> length (safestrcpy t n) \<le> n \<and> safestrcpy t n \<noteq> [] \<and> last (safestrcpy t n) = 0 \<and>
     cstr (\<lambda>i. safestrcpy t n ! i) (length (safestrcpy t n)) = cstr t (n - 1)"
  by (induction t n rule: safestrcpy.induct) auto

lemma strlen_from_unfold: "strlen_from s n = (if s n \<noteq> 0 then strlen_from s (Suc n) else Some n)"
  by (rule strlen_from.simps)

lemma strlen_from_Some:
  "s (n + k) = 0 \<Longrightarrow> (\<forall>i < k. s (n + i) \<noteq> 0) \<Longrightarrow> strlen_from s n = Some (n + k)"
proof (induction k arbitrary: n)
  case (Suc k)
  have "strlen_from s (Suc n) = Some (Suc n + k)"
    using Suc.prems by (intro Suc.IH) (auto dest: spec [of _ "Suc _"])
  moreover have "s n \<noteq> 0" using Suc.prems(2) by (metis add_0_right zero_less_Suc)
  ultimately show ?case by (subst strlen_from_unfold) simp
qed (subst strlen_from_unfold, simp)

section \<open>Properties\<close>

text \<open>
  \<open>memmove\<close> is correct for overlapping regions: when neither region runs off the address
  space, the destination ends up with the bytes the source held before the call, and every other
  byte of memory is unchanged, whichever way the copy loop ran.
\<close>

theorem memmove_correct:
  assumes "unat src + unat n < 2 ^ 32" and "unat dst + unat n < 2 ^ 32"
  shows "(\<forall>k. k < n \<longrightarrow> memmove dst src n m (dst + k) = m (src + k)) \<and>
    (\<forall>a. \<not> a - dst < n \<longrightarrow> memmove dst src n m a = m a)"
  by (simp add: memmove_eq [OF assms])

theorem memmove_correct_witness:
  "memmove 11 10 4 (\<lambda>a. if a = 10 then 7 else 0) 11 = 7 \<and>
   memmove 11 10 4 (\<lambda>a. if a = 10 then 7 else 0) 15 = 0"
proof -
  note c = memmove_correct [of 10 4 11 "\<lambda>a. if a = 10 then 7 else 0"]
  have "\<forall>k. k < 4 \<longrightarrow> memmove 11 10 4 (\<lambda>a. if a = 10 then 7 else 0) (11 + k) =
      (if 10 + k = (10 :: uint) then 7 else 0)"
    using c by simp
  from this [rule_format, of 0] c show ?thesis by simp
qed

text \<open>
  The bounded string copies: \<open>strncpy\<close> fills exactly \<open>n\<close> bytes and the copy compares
  equal to its source under \<open>strncmp\<close>, which returns 0 just when the strings agree up to a
  common NUL or to \<open>n\<close> bytes; \<open>safestrcpy\<close> writes at most \<open>n\<close> bytes, ends them with a NUL
  and copies the longest prefix that fits.
\<close>

theorem bounded_copies:
  "length (strncpy t n) = n \<and> strncmp (\<lambda>i. strncpy t n ! i) t n = 0 \<and>
   (strncmp t u n = 0) = (cstr t n = cstr u n) \<and>
   length (safestrcpy t n) \<le> n \<and>
   (0 < n \<longrightarrow> last (safestrcpy t n) = 0 \<and>
     cstr (\<lambda>i. safestrcpy t n ! i) (length (safestrcpy t n)) = cstr t (n - 1))"
proof (cases "n = 0")
  case False
  then show ?thesis using safestrcpy_props [of n t] by (simp add: strncmp_0_iff)
qed simp

theorem bounded_copies_witness:
  "last (safestrcpy (\<lambda>i. 65) 3) = 0 \<and> length (safestrcpy (\<lambda>i. 65) 3) \<le> 3"
  using bounded_copies [of "\<lambda>i. 65" 3 "\<lambda>i. 65"] by simp

end
