(* ===== verification/Proc_Base.thy ===== *)
theory Proc_Base
  imports Mmu
begin

text \<open>
  The process table and the primitives by which kernel code waits: \<open>struct proc\<close> of
  \<open>proc.h\<close>, and \<open>myproc\<close>, \<open>sched\<close>, \<open>yield\<close>, \<open>sleep\<close> and
  \<open>wakeup\<close> of \<open>proc.c\<close>. The state records of the other components extend the one
  defined here, so each of their operations runs on the whole kernel state.

  From here on a spin lock is its name, and \<open>held\<close> is the stack of the spin locks that this CPU
  holds; \<open>Spinlock\<close> shows what the lock's fields and the interrupt flag do underneath. Kernel
  code is run as seen by one CPU: a lock another CPU holds only delays the caller.
\<close>

section \<open>Data\<close>

text \<open>What a process can sleep on: the address given to \<open>sleep\<close> and \<open>wakeup\<close>.\<close>

datatype chan =
    ChProc nat | ChLog | ChTicks | ChBuf nat | ChBufLock nat | ChInodeLock nat
  | ChPipeRead uint | ChPipeWrite uint | ChInput

text \<open>The spin locks of the kernel. \<open>Lsleep\<close> is the spin lock inside a sleep lock.\<close>

datatype lockid =
    Lptable | Lkmem | Lbcache | Licache | Lftable | Llog | Lticks | Lide | Lcons
  | Lpipe uint | Lsleep chan

definition NPROC :: nat where "NPROC = 64"
definition NOFILE :: nat where "NOFILE = 16"
definition MAX_PSYCH_PAGES :: nat where "MAX_PSYCH_PAGES = 15"

datatype procstate = UNUSED | EMBRYO | SLEEPING | RUNNABLE | RUNNING | ZOMBIE

record trapframe =
  eax :: uint
  esp :: uint
  eip :: uint
  eflags :: uint
  cs :: ushort
  ds :: ushort
  es :: ushort
  ss :: ushort
  trapno :: uint
  err :: uint

text \<open>
  Where \<open>swtch\<close> resumes a process: at \<open>forkret\<close> for a new one, after the call in
  \<open>sched\<close> for any other.
\<close>

datatype resume_at = AtForkret | AfterSched

record PageMeta =
  meta_va :: uint
  file_start_idx :: uint

record proc =
  sz :: uint
  pgdir :: uint
  kstack :: uint
  state :: procstate
  pid :: int
  parent :: "nat option"
  tf :: trapframe
  ctx :: resume_at
  chan :: "chan option"
  killed :: bool
  ofile :: "nat option list"
  cwd :: "nat option"
  pname :: "uchar list"
  swapFile :: "nat option"
  page_list :: "uint list"
  page_list_last :: int
  meta_list :: "PageMeta list"
  meta_list_last :: int
  file_offset :: uint

record klocks =
  held :: "lockid list"

record pstate = klocks +
  procs :: "nat \<Rightarrow> proc"
  cur :: "nat option"
  nextpid :: int
  initproc :: nat
  ticks :: uint

text \<open>A static \<open>struct proc\<close>, as the table holds before its first use.\<close>

definition zero_tf :: trapframe where
  "zero_tf = \<lparr>eax = 0, esp = 0, eip = 0, eflags = 0, cs = 0, ds = 0, es = 0, ss = 0,
     trapno = 0, err = 0\<rparr>"

definition zero_proc :: proc where
  "zero_proc = \<lparr>sz = 0, pgdir = 0, kstack = 0, state = UNUSED, pid = 0, parent = None,
     tf = zero_tf, ctx = AtForkret, chan = None, killed = False, ofile = replicate NOFILE None,
     cwd = None, pname = replicate 16 0, swapFile = None,
     page_list = replicate MAX_PSYCH_PAGES 0, page_list_last = 0,
     meta_list = replicate MAX_PSYCH_PAGES \<lparr>meta_va = 0, file_start_idx = 0\<rparr>,
     meta_list_last = 0, file_offset = 0\<rparr>"

section \<open>Spin locks as names\<close>

definition acquire_lk :: "lockid \<Rightarrow> 'a klocks_scheme \<Rightarrow> ('a klocks_scheme, unit) res" where
  "acquire_lk l s =
     (if l \<in> set (held s) then Panic ''acquire'' else Ok () (s\<lparr>held := l # held s\<rparr>))"

definition release_lk :: "lockid \<Rightarrow> 'a klocks_scheme \<Rightarrow> ('a klocks_scheme, unit) res" where
  "release_lk l s =
     (if l \<in> set (held s) then Ok () (s\<lparr>held := remove1 l (held s)\<rparr>) else Panic ''release'')"

lemma acquire_free [simp]: "l \<notin> set (held s) \<Longrightarrow> acquire_lk l s = Ok () (s\<lparr>held := l # held s\<rparr>)"
  by (simp add: acquire_lk_def)

lemma release_top [simp]: "held s = l # ls \<Longrightarrow> release_lk l s = Ok () (s\<lparr>held := ls\<rparr>)"
  by (simp add: release_lk_def)

lemma held_same [simp]: "held s = h \<Longrightarrow> s\<lparr>held := h\<rparr> = s"
  by (cases s) simp

section \<open>The process table\<close>

definition upd_proc :: "nat \<Rightarrow> (proc \<Rightarrow> proc) \<Rightarrow> 'a pstate_scheme \<Rightarrow> 'a pstate_scheme" where
  "upd_proc i f s = s\<lparr>procs := (procs s)(i := f (procs s i))\<rparr>"

lemma procs_upd_proc [simp]: "procs (upd_proc i f s) = (procs s)(i := f (procs s i))"
  and held_upd_proc [simp]: "held (upd_proc i f s) = held s"
  and cur_upd_proc [simp]: "cur (upd_proc i f s) = cur s"
  and nextpid_upd_proc [simp]: "nextpid (upd_proc i f s) = nextpid s"
  and initproc_upd_proc [simp]: "initproc (upd_proc i f s) = initproc s"
  and ticks_upd_proc [simp]: "ticks (upd_proc i f s) = ticks s"
  by (simp_all add: upd_proc_def)

text \<open>
  \<open>mycpu\<close> looks the local APIC id up among the CPUs'; \<open>ids\<close> are the \<open>apicid\<close> fields of
  \<open>cpus[0..ncpu-1]\<close>. \<open>cpuid\<close> is the same index.
\<close>

definition mycpu :: "bool \<Rightarrow> uchar \<Rightarrow> uchar list \<Rightarrow> 's \<Rightarrow> ('s, nat) res" where
  "mycpu fl_if lapicid ids s =
     (if fl_if then Panic (''mycpu called with interrupts enabled'' @ [CHR 0x0A])
      else case find (\<lambda>i. ids ! i = lapicid) [0..<length ids] of
             Some i \<Rightarrow> Ok i s
           | None \<Rightarrow> Panic (''unknown apicid'' @ [CHR 0x0A]))"

definition cpuid :: "bool \<Rightarrow> uchar \<Rightarrow> uchar list \<Rightarrow> 's \<Rightarrow> ('s, nat) res" where
  "cpuid fl_if lapicid ids s = mycpu fl_if lapicid ids s"

text \<open>\<open>myproc()\<close>: the process of this CPU; the code dereferences it without a check.\<close>

definition myproc :: "'a pstate_scheme \<Rightarrow> ('a pstate_scheme, nat) res" where
  "myproc s = (case cur s of Some i \<Rightarrow> Ok i s | None \<Rightarrow> Fault ''myproc'')"

lemma myproc_cur [simp]: "cur s = Some i \<Longrightarrow> myproc s = Ok i s"
  by (simp add: myproc_def)

section \<open>Giving up the CPU\<close>

text \<open>
  \<open>sched\<close> up to \<open>swtch\<close>. The number of locks held is \<open>ncli\<close>, and interrupts are off
  while it is positive.
\<close>

definition sched :: "'a pstate_scheme \<Rightarrow> ('a pstate_scheme, 'b) res" where
  "sched s =
     bindR (myproc s) (\<lambda>p s.
       if Lptable \<notin> set (held s) then Panic ''sched ptable.lock''
       else if length (held s) \<noteq> 1 then Panic ''sched locks''
       else if state (procs s p) = RUNNING then Panic ''sched running''
       else Swtch (upd_proc p (\<lambda>q. q\<lparr>ctx := AfterSched\<rparr>) s))"

definition yield :: "'a pstate_scheme \<Rightarrow> ('a pstate_scheme, unit) res" where
  "yield s =
     bindR (acquire_lk Lptable s) (\<lambda>_ s.
     bindR (myproc s) (\<lambda>p s.
       sched (upd_proc p (\<lambda>q. q\<lparr>state := RUNNABLE\<rparr>) s)))"

text \<open>\<open>yield\<close> after the scheduler came back to it.\<close>

definition yield_resume :: "'a pstate_scheme \<Rightarrow> ('a pstate_scheme, unit) res" where
  "yield_resume s = release_lk Lptable s"

text \<open>\<open>sleep(chan, lk)\<close> up to the switch, and after the process was woken and scheduled.\<close>

definition sleep :: "chan \<Rightarrow> lockid \<Rightarrow> 'a pstate_scheme \<Rightarrow> ('a pstate_scheme, 'b) res" where
  "sleep ch lk s =
     (case cur s of
        None \<Rightarrow> Panic ''sleep''
      | Some p \<Rightarrow>
          bindR (if lk \<noteq> Lptable
                 then bindR (acquire_lk Lptable s) (\<lambda>_ s. release_lk lk s)
                 else Ok () s) (\<lambda>_ s.
            sched (upd_proc p (\<lambda>q. q\<lparr>chan := Some ch, state := SLEEPING\<rparr>) s)))"

definition sleep_resume :: "lockid \<Rightarrow> 'a pstate_scheme \<Rightarrow> ('a pstate_scheme, unit) res" where
  "sleep_resume lk s =
     bindR (myproc s) (\<lambda>p s.
       let s = upd_proc p (\<lambda>q. q\<lparr>chan := None\<rparr>) s
       in if lk \<noteq> Lptable
          then bindR (release_lk Lptable s) (\<lambda>_ s. acquire_lk lk s)
          else Ok () s)"

section \<open>Waking up\<close>

definition wake :: "chan \<Rightarrow> proc \<Rightarrow> proc" where
  "wake ch p = (if state p = SLEEPING \<and> chan p = Some ch then p\<lparr>state := RUNNABLE\<rparr> else p)"

definition wakeup1 :: "chan \<Rightarrow> 'a pstate_scheme \<Rightarrow> 'a pstate_scheme" where
  "wakeup1 ch s = s\<lparr>procs := (\<lambda>i. if i < NPROC then wake ch (procs s i) else procs s i)\<rparr>"

definition wakeup :: "chan \<Rightarrow> 'a pstate_scheme \<Rightarrow> ('a pstate_scheme, unit) res" where
  "wakeup ch s =
     bindR (acquire_lk Lptable s) (\<lambda>_ s. release_lk Lptable (wakeup1 ch s))"

lemma held_wakeup1 [simp]: "held (wakeup1 ch s) = held s"
  and cur_wakeup1 [simp]: "cur (wakeup1 ch s) = cur s"
  and procs_wakeup1: "procs (wakeup1 ch s) i = (if i < NPROC then wake ch (procs s i) else procs s i)"
  by (simp_all add: wakeup1_def)

lemma wakeup1_held: "wakeup1 ch (s\<lparr>held := h\<rparr>) = (wakeup1 ch s)\<lparr>held := h\<rparr>"
  by (simp add: wakeup1_def cong: if_cong)

lemma wakeup_ok [simp]: "Lptable \<notin> set (held s) \<Longrightarrow> wakeup ch s = Ok () (wakeup1 ch s)"
  by (simp add: wakeup_def wakeup1_def cong: if_cong)

text \<open>The fields of a process that \<open>wake\<close> leaves alone.\<close>

lemma wake_frame [simp]:
  "sz (wake ch p) = sz p" "pgdir (wake ch p) = pgdir p" "kstack (wake ch p) = kstack p"
  "pid (wake ch p) = pid p" "parent (wake ch p) = parent p" "tf (wake ch p) = tf p"
  "chan (wake ch p) = chan p" "killed (wake ch p) = killed p" "ofile (wake ch p) = ofile p"
  "cwd (wake ch p) = cwd p" "swapFile (wake ch p) = swapFile p" "pname (wake ch p) = pname p"
  "page_list (wake ch p) = page_list p" "page_list_last (wake ch p) = page_list_last p"
  "meta_list (wake ch p) = meta_list p" "meta_list_last (wake ch p) = meta_list_last p"
  "file_offset (wake ch p) = file_offset p" "ctx (wake ch p) = ctx p"
  by (simp_all add: wake_def)

lemma state_wake:
  "state (wake ch p) = (if state p = SLEEPING \<and> chan p = Some ch then RUNNABLE else state p)"
  by (simp add: wake_def)

lemma wake_idem [simp]: "wake ch (wake ch p) = wake ch p"
  by (simp add: wake_def)

section \<open>Sleeping and waking\<close>

lemma sleep_Swtch:
  assumes "cur s = Some p" "held s = [lk]" "lk \<noteq> Lptable"
  shows "sleep ch lk s = Swtch (upd_proc p (\<lambda>q. q\<lparr>chan := Some ch, state := SLEEPING,
    ctx := AfterSched\<rparr>) (s\<lparr>held := [Lptable]\<rparr>))"
  using assms by (simp add: sleep_def sched_def release_lk_def myproc_def upd_proc_def)

lemma sleep_ptable_Swtch:
  assumes "cur s = Some p" "held s = [Lptable]"
  shows "sleep ch Lptable s = Swtch (upd_proc p (\<lambda>q. q\<lparr>chan := Some ch, state := SLEEPING,
    ctx := AfterSched\<rparr>) s)"
  using assms by (simp add: sleep_def sched_def myproc_def upd_proc_def)



end
