(* ===== verification/Kalloc.thy ===== *)
theory Kalloc
  imports Proc_Base Cstring
begin

text \<open>
  \<open>kalloc.c\<close>: the allocator of 4096-byte physical pages. Free pages form a linked list whose
  links are stored in the pages themselves; \<open>free_list\<close> reads that list off the memory, and every
  operation is shown to act on it as on a stack of distinct pages. The contract is the locale
  \<open>page_allocator\<close>, whose clients see only the list of available pages.
\<close>

section \<open>The contract of a page allocator\<close>

text \<open>
  \<open>alloc\<close> returns \<open>null\<close> when nothing is available; \<open>avail s xs\<close> says that \<open>xs\<close> are the
  available pages of \<open>s\<close> in the order they will be handed out.
\<close>

locale page_allocator =
  fixes alloc :: "'s \<Rightarrow> ('s, 'p) res"
    and free :: "'p \<Rightarrow> 's \<Rightarrow> ('s, unit) res"
    and null :: 'p
    and valid :: "'s \<Rightarrow> 'p \<Rightarrow> bool"
    and avail :: "'s \<Rightarrow> 'p list \<Rightarrow> bool"
  assumes avail_distinct: "avail s xs \<Longrightarrow> distinct xs \<and> null \<notin> set xs"
    and alloc_none: "avail s [] \<Longrightarrow> \<exists>s'. alloc s = Ok null s' \<and> avail s' []"
    and alloc_some: "avail s (x # xs) \<Longrightarrow> \<exists>s'. alloc s = Ok x s' \<and> avail s' xs \<and> valid s' = valid s"
    and free_page: "avail s xs \<Longrightarrow> valid s x \<Longrightarrow> x \<notin> set xs \<Longrightarrow>
      \<exists>s'. free x s = Ok () s' \<and> avail s' (x # xs) \<and> valid s' = valid s"

text \<open>What a client does with it: allocate \<open>n\<close> pages one after another, free a list of pages.\<close>

fun allocs :: "('s \<Rightarrow> ('s, 'p) res) \<Rightarrow> nat \<Rightarrow> 's \<Rightarrow> ('s, 'p list) res" where
  "allocs alloc 0 s = Ok [] s"
| "allocs alloc (Suc n) s =
     bindR (alloc s) (\<lambda>p s. bindR (allocs alloc n s) (\<lambda>ps s. Ok (p # ps) s))"

fun frees :: "('p \<Rightarrow> 's \<Rightarrow> ('s, unit) res) \<Rightarrow> 'p list \<Rightarrow> 's \<Rightarrow> ('s, unit) res" where
  "frees free [] s = Ok () s"
| "frees free (p # ps) s = bindR (free p s) (\<lambda>_ s. frees free ps s)"

context page_allocator
begin

lemma allocs_enough:
  "avail s xs \<Longrightarrow> n \<le> length xs \<Longrightarrow>
   \<exists>s'. allocs alloc n s = Ok (take n xs) s' \<and> avail s' (drop n xs) \<and> valid s' = valid s"
proof (induction n arbitrary: s xs)
  case (Suc n)
  then obtain y ys where xs: "xs = y # ys" by (cases xs) auto
  with Suc.prems obtain s1 where "alloc s = Ok y s1" "avail s1 ys" "valid s1 = valid s"
    using alloc_some by blast
  with Suc.IH [of s1 ys] Suc.prems xs show ?case by auto
qed simp

lemma allocs_exhausted:
  assumes "avail s xs"
  shows "\<exists>s'. allocs alloc (length xs + k) s = Ok (xs @ replicate k null) s' \<and> avail s' []"
  using assms
proof (induction xs arbitrary: s)
  case Nil
  then show ?case
  proof (induction k arbitrary: s)
    case (Suc k)
    then obtain s1 where "alloc s = Ok null s1" "avail s1 []" using alloc_none by blast
    with Suc.IH [of s1] show ?case by auto
  qed simp
next
  case (Cons y ys)
  then obtain s1 where "alloc s = Ok y s1" "avail s1 ys" using alloc_some by blast
  with Cons.IH [of s1] show ?case by auto
qed

lemma frees_ok:
  "avail s xs \<Longrightarrow> distinct ps \<Longrightarrow> set ps \<inter> set xs = {} \<Longrightarrow> (\<forall>p \<in> set ps. valid s p) \<Longrightarrow>
   \<exists>s'. frees free ps s = Ok () s' \<and> avail s' (rev ps @ xs) \<and> valid s' = valid s"
proof (induction ps arbitrary: s xs)
  case (Cons p ps)
  then obtain s1 where s1: "free p s = Ok () s1" "avail s1 (p # xs)" "valid s1 = valid s"
    using free_page [of s xs p] by auto
  from Cons.prems have "set ps \<inter> set (p # xs) = {}" by auto
  with Cons.IH [of s1 "p # xs"] s1 Cons.prems show ?case by auto
qed simp

text \<open>Pages handed out are distinct, and freeing them gives them back in reverse order.\<close>

lemma allocs_frees:
  assumes "avail s xs" "n \<le> length xs" "\<And>x. x \<in> set xs \<Longrightarrow> valid s x"
  shows "\<exists>s1 s2. allocs alloc n s = Ok (take n xs) s1 \<and> distinct (take n xs) \<and>
    null \<notin> set (take n xs) \<and>
    frees free (rev (take n xs)) s1 = Ok () s2 \<and> avail s2 xs"
proof -
  obtain s1 where s1: "allocs alloc n s = Ok (take n xs) s1" "avail s1 (drop n xs)"
    "valid s1 = valid s"
    using allocs_enough [OF assms(1,2)] by blast
  have d: "distinct xs" "null \<notin> set xs" using avail_distinct [OF assms(1)] by auto
  have "set (rev (take n xs)) \<inter> set (drop n xs) = {}"
    using d(1) by (simp add: set_take_disj_set_drop_if_distinct)
  moreover have "\<forall>p \<in> set (rev (take n xs)). valid s1 p"
    using assms(3) s1(3) by (auto dest: in_set_takeD)
  ultimately obtain s2 where "frees free (rev (take n xs)) s1 = Ok () s2"
    "avail s2 (take n xs @ drop n xs)"
    using frees_ok [OF s1(2), of "rev (take n xs)"] d(1) by auto
  then have "avail s2 xs" by simp
  moreover have "null \<notin> set (take n xs)" using d(2) by (auto dest: in_set_takeD)
  ultimately show ?thesis using s1(1) d(1) \<open>frees free _ _ = _\<close> by auto
qed

end

section \<open>State and operations\<close>

record kmem = pstate +
  mem :: memory
  freelist :: uint
  use_lock :: bool
  kend :: uint

text \<open>\<open>kend\<close> is the linker's \<open>end[]\<close>, the first address after the kernel.\<close>

definition kfree :: "uint \<Rightarrow> 'a kmem_scheme \<Rightarrow> ('a kmem_scheme, unit) res" where
  "kfree v s =
     (if v mod PGSIZE \<noteq> 0 \<or> v < kend s \<or> PHYSTOP \<le> V2P v then Panic ''kfree''
      else let s = s\<lparr>mem := memset v 1 PGSIZE (mem s)\<rparr>
           in bindR (if use_lock s then acquire_lk Lkmem s else Ok () s) (\<lambda>_ s.
                let s = s\<lparr>mem := store32 v (freelist s) (mem s), freelist := v\<rparr>
                in if use_lock s then release_lk Lkmem s else Ok () s))"

definition kalloc :: "'a kmem_scheme \<Rightarrow> ('a kmem_scheme, uint) res" where
  "kalloc s =
     bindR (if use_lock s then acquire_lk Lkmem s else Ok () s) (\<lambda>_ s.
       let r = freelist s;
           s = (if r \<noteq> 0 then s\<lparr>freelist := load32 (mem s) r\<rparr> else s)
       in bindR (if use_lock s then release_lk Lkmem s else Ok () s) (\<lambda>_ s. Ok r s))"

lemma kfree_Ok_range: "kfree p s = Ok () s' \<Longrightarrow> V2P p < PHYSTOP"
  by (auto simp: kfree_def not_le split: if_splits)

lemma V2P_lt_no_wrap: "V2P p < PHYSTOP \<Longrightarrow> unat (p + PGSIZE) = unat p + 4096"
proof -
  assume "V2P p < PHYSTOP"
  then have lt: "unat (V2P p) < 0xE000000" by (simp add: word_less_nat_alt PHYSTOP_def)
  have "unat (V2P p + KERNBASE) = unat (V2P p) + unat KERNBASE"
    using lt by (intro unat_add_lt) (simp add: KERNBASE_def)
  then have "unat p = unat (V2P p) + 0x80000000"
    by (simp add: V2P_def KERNBASE_def)
  with lt have "unat p + unat PGSIZE < 2 ^ 32" by (simp add: PGSIZE_def)
  then have "unat (p + PGSIZE) = unat p + unat PGSIZE" by (rule unat_add_lt)
  then show ?thesis by (simp add: PGSIZE_def)
qed

text \<open>
  The loop of \<open>freerange\<close>. It stops because \<open>kfree\<close> panics before \<open>p\<close> can wrap around.
\<close>

function freerange_from :: "uint \<Rightarrow> uint \<Rightarrow> 'a kmem_scheme \<Rightarrow> ('a kmem_scheme, unit) res" where
  "freerange_from p vend s =
     (if p + PGSIZE \<le> vend
      then bindR (kfree p s) (\<lambda>_ s. freerange_from (p + PGSIZE) vend s)
      else Ok () s)"
  by pat_completeness auto
termination
proof (relation "measure (\<lambda>(p, vend, s). 2 ^ 32 - unat p)", goal_cases)
  case (2 p vend s a s')
  then have "unat (p + PGSIZE) = unat p + 4096"
    by (intro V2P_lt_no_wrap kfree_Ok_range [of p s s']) simp
  with unat_lt32 [of p] show ?case by simp
qed simp

declare freerange_from.simps [simp del]

definition freerange :: "uint \<Rightarrow> uint \<Rightarrow> 'a kmem_scheme \<Rightarrow> ('a kmem_scheme, unit) res" where
  "freerange vstart vend s = freerange_from (PGROUNDUP vstart) vend s"

definition kinit1 :: "uint \<Rightarrow> uint \<Rightarrow> 'a kmem_scheme \<Rightarrow> ('a kmem_scheme, unit) res" where
  "kinit1 vstart vend s = freerange vstart vend (s\<lparr>use_lock := False\<rparr>)"

definition kinit2 :: "uint \<Rightarrow> uint \<Rightarrow> 'a kmem_scheme \<Rightarrow> ('a kmem_scheme, unit) res" where
  "kinit2 vstart vend s =
     bindR (freerange vstart vend s) (\<lambda>_ s. Ok () (s\<lparr>use_lock := True\<rparr>))"

section \<open>The free list in memory\<close>

fun free_list :: "memory \<Rightarrow> uint \<Rightarrow> uint list \<Rightarrow> bool" where
  "free_list m h [] = (h = 0)"
| "free_list m h (x # xs) = (h = x \<and> x \<noteq> 0 \<and> free_list m (load32 m x) xs)"

definition kpage :: "'a kmem_scheme \<Rightarrow> uint \<Rightarrow> bool" where
  "kpage s v \<longleftrightarrow> page_aligned v \<and> kend s \<le> v \<and> V2P v < PHYSTOP"

definition kfree_pages :: "'a kmem_scheme \<Rightarrow> uint list \<Rightarrow> bool" where
  "kfree_pages s xs \<longleftrightarrow> free_list (mem s) (freelist s) xs \<and> distinct xs \<and>
     (\<forall>x \<in> set xs. kpage s x) \<and> (use_lock s \<longrightarrow> Lkmem \<notin> set (held s))"

lemma free_list_cong:
  "(\<And>x k. x \<in> set xs \<Longrightarrow> k < 4 \<Longrightarrow> m (x + k) = m' (x + k)) \<Longrightarrow> free_list m h xs = free_list m' h xs"
proof (induction xs arbitrary: h)
  case (Cons x xs)
  have "load32 m x = load32 m' x" by (rule load32_cong) (use Cons.prems in auto)
  with Cons show ?case by simp
qed simp

text \<open>Writes outside the free pages leave the list alone.\<close>

lemma word_in_page:
  assumes "page_aligned x" "k < (4 :: uint)"
  shows "PGROUNDDOWN (x + k) = x"
proof -
  have "k < PGSIZE" using assms(2) by (simp add: PGSIZE_def word_less_nat_alt)
  then have "x + k - x < PGSIZE" by simp
  then show ?thesis using in_page_iff [OF assms(1)] by blast
qed

lemma kfree_pages_frame:
  assumes "kfree_pages s xs" and "\<And>a. m a \<noteq> mem s a \<Longrightarrow> PGROUNDDOWN a \<notin> set xs"
  shows "kfree_pages (s\<lparr>mem := m\<rparr>) xs"
proof -
  have al: "page_aligned x" if "x \<in> set xs" for x
    using assms(1) that by (auto simp: kfree_pages_def kpage_def)
  have "free_list m h xs = free_list (mem s) h xs" for h
    by (rule free_list_cong) (metis al assms(2) word_in_page)
  with assms(1) show ?thesis by (simp add: kfree_pages_def kpage_def)
qed

lemma kpage_nonnull: "kpage s v \<Longrightarrow> v \<noteq> 0"
  by (auto simp: kpage_def V2P_def KERNBASE_def PHYSTOP_def)

lemma kalloc_empty: "kfree_pages s [] \<Longrightarrow> kalloc s = Ok 0 s"
  by (simp add: kfree_pages_def kalloc_def Let_def)

lemma kalloc_Cons:
  assumes "kfree_pages s (x # xs)"
  shows "\<exists>h. kalloc s = Ok x (s\<lparr>freelist := h\<rparr>) \<and> kfree_pages (s\<lparr>freelist := h\<rparr>) xs"
  using assms by (auto simp: kfree_pages_def kalloc_def kpage_def Let_def)

lemma kfree_ok:
  assumes "kfree_pages s xs" "kpage s v" "v \<notin> set xs"
  shows "\<exists>m. kfree v s = Ok () (s\<lparr>mem := m, freelist := v\<rparr>) \<and>
    kfree_pages (s\<lparr>mem := m, freelist := v\<rparr>) (v # xs) \<and> (\<forall>a. PGROUNDDOWN a \<noteq> v \<longrightarrow> m a = mem s a)"
proof -
  let ?m = "store32 v (freelist s) (memset v 1 PGSIZE (mem s))"
  have v: "page_aligned v" "v mod PGSIZE = 0" "\<not> v < kend s" "\<not> PHYSTOP \<le> V2P v" "v \<noteq> 0"
    using assms(2) kpage_nonnull [OF assms(2)]
    by (auto simp: kpage_def page_aligned_mod simp flip: not_less)
  have eq: "kfree v s = Ok () (s\<lparr>mem := ?m, freelist := v\<rparr>)"
    using v assms(1) by (auto simp: kfree_def kfree_pages_def Let_def)
  have out: "?m a = mem s a" if "PGROUNDDOWN a \<noteq> v" for a
  proof -
    have "\<not> a - v < PGSIZE" using that in_page_iff [OF v(1)] by blast
    moreover from this have "\<not> a - v < 4" by (simp add: PGSIZE_def word_less_nat_alt)
    ultimately show ?thesis by (simp add: store32_apply memset_eq)
  qed
  have "kfree_pages (s\<lparr>mem := ?m\<rparr>) xs"
    by (rule kfree_pages_frame [OF assms(1)]) (use out assms(3) in metis)
  with v assms(2,3) have "kfree_pages (s\<lparr>mem := ?m, freelist := v\<rparr>) (v # xs)"
    by (simp add: kfree_pages_def kpage_def)
  with eq out show ?thesis by blast
qed

section \<open>kalloc and kfree meet the contract\<close>

interpretation kp: page_allocator kalloc kfree 0 kpage kfree_pages
proof (unfold_locales, goal_cases)
  case (1 s xs)
  then show ?case using kpage_nonnull by (auto simp: kfree_pages_def)
next
  case (2 s)
  then show ?case using kalloc_empty by blast
next
  case (3 s x xs)
  then show ?case using kalloc_Cons [of s x xs] by (auto simp: fun_eq_iff kpage_def)
next
  case (4 s xs x)
  then show ?case using kfree_ok [of s xs x] by (auto simp: fun_eq_iff kpage_def)
qed

section \<open>freerange\<close>

lemma freerange_step:
  "p + PGSIZE \<le> vend \<Longrightarrow>
   freerange_from p vend s = bindR (kfree p s) (\<lambda>_ s. freerange_from (p + PGSIZE) vend s)"
  by (subst freerange_from.simps) simp

lemma freerange_stop: "\<not> p + PGSIZE \<le> vend \<Longrightarrow> freerange_from p vend s = Ok () s"
  by (subst freerange_from.simps) simp

text \<open>The pages \<open>freerange\<close> frees, first freed first.\<close>

definition pages_from :: "uint \<Rightarrow> nat \<Rightarrow> uint list" where
  "pages_from p n = map (\<lambda>i. p + of_nat i * PGSIZE) [0..<n]"

lemma pages_from_Suc: "pages_from p (Suc n) = p # pages_from (p + PGSIZE) n"
  by (simp add: pages_from_def upt_conv_Cons map_Suc_upt [symmetric] algebra_simps del: upt_Suc)

lemma freerange_from_frees:
  fixes s :: "'a kmem_scheme"
  assumes "unat p + 4096 * n \<le> unat vend" "unat vend < unat p + 4096 * Suc n"
    "unat vend + 4096 < 2 ^ 32"
  shows "freerange_from p vend s = frees kfree (pages_from p n) s"
  using assms
proof (induction n arbitrary: p s)
  case 0
  then have "unat (p + PGSIZE) = unat p + 4096"
    using unat_add_lt [of p PGSIZE] by (simp add: PGSIZE_def)
  with 0 show ?case by (simp add: freerange_stop word_le_nat_alt pages_from_def)
next
  case (Suc n)
  then have p: "unat (p + PGSIZE) = unat p + 4096"
    using unat_add_lt [of p PGSIZE] by (simp add: PGSIZE_def)
  with Suc.prems have "p + PGSIZE \<le> vend" by (simp add: word_le_nat_alt)
  moreover have "freerange_from (p + PGSIZE) vend t = frees kfree (pages_from (p + PGSIZE) n) t"
    for t :: "'a kmem_scheme"
    by (rule Suc.IH) (use Suc.prems p in auto)
  ultimately show ?case by (simp add: freerange_step pages_from_Suc)
qed

lemma unat_pages_from:
  assumes "x \<in> set (pages_from p n)" "unat p + 4096 * n < 2 ^ 32"
  obtains i where "i < n" "x = p + of_nat i * PGSIZE" "unat x = unat p + 4096 * i"
proof -
  obtain i where i: "i < n" "x = p + of_nat i * PGSIZE"
    using assms(1) by (auto simp: pages_from_def)
  have "unat (of_nat i * PGSIZE :: uint) = 4096 * i"
    using i(1) assms(2) by (simp add: PGSIZE_def unat_word_ariths unat_of_nat)
  then have "unat x = unat p + 4096 * i"
    using i assms(2) by (simp add: unat_add_lt)
  with i that show ?thesis by blast
qed

lemma distinct_pages_from:
  assumes "unat p + 4096 * n < 2 ^ 32"
  shows "distinct (pages_from p n)"
proof -
  have u: "unat (p + of_nat i * PGSIZE) = unat p + 4096 * i" if "i < n" for i
  proof -
    have "unat (of_nat i * PGSIZE :: uint) = 4096 * i"
      using that assms by (simp add: PGSIZE_def unat_word_ariths unat_of_nat)
    with that assms show ?thesis by (simp add: unat_add_lt)
  qed
  have "inj_on (\<lambda>i. p + of_nat i * PGSIZE) {0..<n}"
    by (rule inj_onI) (use u in \<open>metis add_left_cancel atLeastLessThan_iff mult_cancel_left zero_neq_numeral\<close>)
  then show ?thesis by (simp add: pages_from_def distinct_map)
qed

section \<open>Properties\<close>

text \<open>
  (C17) No page is handed out twice: from a state whose free list holds the pages \<open>xs\<close>, \<open>n\<close>
  calls of \<open>kalloc\<close> return the first \<open>n\<close> of them, which are distinct and not null, freeing them
  in reverse order succeeds and restores the free list, and the call after the last page returns
  the null pointer.
\<close>

theorem kalloc_distinct:
  assumes "kfree_pages s xs" and "n \<le> length xs"
  shows "(\<exists>s1 s2. allocs kalloc n s = Ok (take n xs) s1 \<and> distinct (take n xs) \<and>
      0 \<notin> set (take n xs) \<and> frees kfree (rev (take n xs)) s1 = Ok () s2 \<and> kfree_pages s2 xs) \<and>
    (\<exists>s3. allocs kalloc (length xs + 1) s = Ok (xs @ [0]) s3)"
proof -
  have "\<And>x. x \<in> set xs \<Longrightarrow> kpage s x" using assms(1) by (simp add: kfree_pages_def)
  then have "\<exists>s1 s2. allocs kalloc n s = Ok (take n xs) s1 \<and> distinct (take n xs) \<and>
      0 \<notin> set (take n xs) \<and> frees kfree (rev (take n xs)) s1 = Ok () s2 \<and> kfree_pages s2 xs"
    by (rule kp.allocs_frees [OF assms])
  with kp.allocs_exhausted [OF assms(1), of 1] show ?thesis by auto
qed

definition ex_kmem :: kmem where
  "ex_kmem = \<lparr>held = [], procs = \<lambda>_. zero_proc, cur = Some 3, nextpid = 4, initproc = 0, ticks = 0,
     mem = store32 0x80401000 0x80402000 (\<lambda>_. 0), freelist = 0x80401000, use_lock = True,
     kend = 0x80400000\<rparr>"

lemma ex_kmem_pages: "kfree_pages ex_kmem [0x80401000, 0x80402000]"
  by (auto simp: kfree_pages_def ex_kmem_def kpage_def page_aligned_def V2P_def mmu_consts
      load32_def store32_def le32_def byte_of_def)

theorem kalloc_distinct_witness:
  "\<exists>s1. allocs kalloc 2 ex_kmem = Ok [0x80401000, 0x80402000] s1"
  using kalloc_distinct [OF ex_kmem_pages, of 2] by auto

text \<open>
  \<open>freerange\<close>, by which \<open>kinit1\<close> and \<open>kinit2\<close> hand memory to the allocator, frees
  every page that lies wholly inside \<open>[vstart, vend)\<close> exactly once and panics on none of them:
  afterwards these pages, last freed first, stand before the pages that were free already.
\<close>

theorem freerange_correct:
  assumes "kfree_pages s xs"
    and "unat vstart + 4095 < 2 ^ 32" and "unat vend + 4096 < 2 ^ 32"
    and "p = PGROUNDUP vstart" and "n = (unat vend - unat p) div 4096" and "unat p \<le> unat vend"
    and "\<forall>x \<in> set (pages_from p n). kend s \<le> x \<and> V2P x < PHYSTOP \<and> x \<notin> set xs"
  shows "\<exists>s'. freerange vstart vend s = Ok () s' \<and> kfree_pages s' (rev (pages_from p n) @ xs)"
proof -
  have bnd: "unat p + 4096 * n \<le> unat vend" "unat vend < unat p + 4096 * Suc n"
    using assms(5,6) div_times_less_eq_dividend [of "unat vend - unat p" 4096]
      dividend_less_div_times [of 4096 "unat vend - unat p"] by (auto simp: mult.commute)
  have lt: "unat p + 4096 * n < 2 ^ 32" using bnd(1) assms(3) by simp
  have "page_aligned p" using assms(4) by (simp add: PGROUNDUP_down)
  then have "\<forall>x \<in> set (pages_from p n). kpage s x"
    using assms(7) lt by (auto simp: kpage_def page_aligned_def elim!: unat_pages_from)
  moreover have "set (pages_from p n) \<inter> set xs = {}" using assms(7) by auto
  ultimately obtain s' where "frees kfree (pages_from p n) s = Ok () s'"
    "kfree_pages s' (rev (pages_from p n) @ xs)"
    using kp.frees_ok [OF assms(1) distinct_pages_from [OF lt]] by blast
  moreover have "freerange vstart vend s = frees kfree (pages_from p n) s"
    unfolding freerange_def assms(4) [symmetric] by (rule freerange_from_frees [OF bnd assms(3)])
  ultimately show ?thesis by simp
qed

theorem freerange_correct_witness:
  "\<exists>s'. freerange 0x80410001 0x80412000 ex_kmem = Ok () s' \<and>
     kfree_pages s' [0x80411000, 0x80401000, 0x80402000]"
proof -
  have p: "(0x80411000 :: uint) = PGROUNDUP 0x80410001" by (simp add: PGROUNDUP_def PGSIZE_def)
  have pages: "pages_from 0x80411000 (Suc 0) = [0x80411000]" by (simp add: pages_from_def)
  show ?thesis
    using freerange_correct [OF ex_kmem_pages, of "0x80410001" "0x80412000" "0x80411000" 1]
    by (simp add: p [symmetric] pages) (simp add: ex_kmem_def V2P_def mmu_consts)
qed

end
