(* ===== verification/Pagelist.thy ===== *)
theory Pagelist
  imports Proc_Base
begin

text \<open>
  The resident pages of a process as \<open>vm.c\<close> keeps them for page replacement: the array
  \<open>page_list\<close> with the index \<open>page_list_last\<close> of its last entry, \<open>FifoAlgo\<close> and
  \<open>remove_page_\<close>. \<open>resident\<close> reads the array as a list, and the contract a replacement policy
  needs from it is the locale \<open>bounded_fifo\<close>.
\<close>

section \<open>The contract\<close>

locale bounded_fifo =
  fixes push :: "'x \<Rightarrow> 's \<Rightarrow> ('s, unit) res"
    and pop :: "'s \<Rightarrow> ('s, 'x) res"
    and del :: "'x \<Rightarrow> 's \<Rightarrow> 's"
    and full :: "'s \<Rightarrow> bool"
    and queue :: "'s \<Rightarrow> 'x list"
    and ok :: "'s \<Rightarrow> bool"
    and cap :: nat
  assumes cap_pos: "0 < cap"
    and ok_len: "ok s \<Longrightarrow> length (queue s) \<le> cap"
    and full_iff: "ok s \<Longrightarrow> full s \<longleftrightarrow> length (queue s) = cap"
    and push_ok: "ok s \<Longrightarrow> length (queue s) < cap \<Longrightarrow>
      \<exists>s'. push x s = Ok () s' \<and> ok s' \<and> queue s' = queue s @ [x]"
    and pop_ok: "ok s \<Longrightarrow> queue s = x # xs \<Longrightarrow> \<exists>s'. pop s = Ok x s' \<and> ok s' \<and> queue s' = xs"
    and del_ok: "ok s \<Longrightarrow> ok (del x s) \<and> queue (del x s) = remove1 x (queue s)"

text \<open>
  What page replacement does with it: bring pages in one after another, evicting the first page
  of the queue whenever the queue is full. The result is the list of the pages evicted.
\<close>

fun bring_in :: "('x \<Rightarrow> 's \<Rightarrow> ('s, unit) res) \<Rightarrow> ('s \<Rightarrow> ('s, 'x) res) \<Rightarrow> ('s \<Rightarrow> bool) \<Rightarrow>
    'x list \<Rightarrow> 's \<Rightarrow> ('s, 'x list) res" where
  "bring_in push pop full [] s = Ok [] s"
| "bring_in push pop full (x # xs) s =
     (if full s
      then bindR (pop s) (\<lambda>v s. bindR (push x s) (\<lambda>_ s.
             bindR (bring_in push pop full xs s) (\<lambda>vs s. Ok (v # vs) s)))
      else bindR (push x s) (\<lambda>_ s. bring_in push pop full xs s))"

context bounded_fifo
begin

lemma bring_in_fifo:
  assumes "ok s"
  shows "\<exists>s'. bring_in push pop full xs s =
      Ok (take (length (queue s @ xs) - cap) (queue s @ xs)) s' \<and> ok s' \<and>
    queue s' = drop (length (queue s @ xs) - cap) (queue s @ xs)"
  using assms
proof (induction xs arbitrary: s)
  case Nil
  then show ?case using ok_len by simp
next
  case (Cons x xs)
  note full = full_iff [OF Cons.prems]
  show ?case
  proof (cases "full s")
    case True
    then obtain v vs where q: "queue s = v # vs" using full cap_pos by (cases "queue s") auto
    obtain s1 where s1: "pop s = Ok v s1" "ok s1" "queue s1 = vs"
      using pop_ok [OF Cons.prems q] by blast
    have "length (queue s1) < cap" using True full q s1(3) by simp
    then obtain s2 where s2: "push x s1 = Ok () s2" "ok s2" "queue s2 = vs @ [x]"
      using push_ok [OF s1(2)] s1(3) by blast
    have "length (v # vs) = cap" using True full q by simp
    then have n: "Suc (length vs + length xs) - (cap - Suc 0) = Suc (Suc (length vs + length xs) - cap)"
      by auto
    from Cons.IH [OF s2(2)] show ?thesis
      using True q s1 s2 \<open>length (v # vs) = cap\<close> by (auto simp: Suc_diff_le)
  next
    case False
    then have "length (queue s) < cap" using full ok_len [OF Cons.prems] by simp
    then obtain s2 where s2: "push x s = Ok () s2" "ok s2" "queue s2 = queue s @ [x]"
      using push_ok [OF Cons.prems] by blast
    from Cons.IH [OF s2(2)] show ?thesis using False s2 by simp
  qed
qed

end

section \<open>The list of resident pages\<close>

text \<open>\<open>for(j = lo; j < hi; j++) a[j] = a[j+1]\<close>.\<close>

definition shift_left :: "nat \<Rightarrow> nat \<Rightarrow> 'a list \<Rightarrow> 'a list" where
  "shift_left lo hi xs = fold (\<lambda>j xs. xs[j := xs ! (j + 1)]) [lo..<hi] xs"

definition in_page_list :: "int \<Rightarrow> bool" where
  "in_page_list i \<longleftrightarrow> 0 \<le> i \<and> i < int MAX_PSYCH_PAGES"

definition FifoAlgo :: "proc \<Rightarrow> (proc, uint) res" where
  "FifoAlgo p =
     (let va = page_list p ! 0
      in if 0 < page_list_last p \<and> \<not> in_page_list (page_list_last p) then Fault ''page_list''
         else Ok va (p\<lparr>page_list := shift_left 0 (nat (page_list_last p)) (page_list p),
                       page_list_last := page_list_last p - 1\<rparr>))"

definition get_va_to_replaced :: "proc \<Rightarrow> (proc, uint) res" where
  "get_va_to_replaced p = FifoAlgo p"

definition remove_page :: "uint \<Rightarrow> proc \<Rightarrow> proc" where
  "remove_page va p =
     (case find (\<lambda>j. page_list p ! j = va) [0..<nat (page_list_last p + 1)] of
        None \<Rightarrow> p
      | Some idx \<Rightarrow> p\<lparr>page_list := shift_left idx (nat (page_list_last p)) (page_list p),
                      page_list_last := page_list_last p - 1\<rparr>)"

text \<open>\<open>page_list_last++; page_list[page_list_last].va = va\<close>, in \<open>allocuvm\<close>.\<close>

definition append_page :: "uint \<Rightarrow> proc \<Rightarrow> (proc, unit) res" where
  "append_page va p =
     (let i = page_list_last p + 1
      in if in_page_list i
         then Ok () (p\<lparr>page_list_last := i, page_list := (page_list p)[nat i := va]\<rparr>)
         else Fault ''page_list'')"

definition page_list_full :: "proc \<Rightarrow> bool" where
  "page_list_full p \<longleftrightarrow> \<not> page_list_last p < int MAX_PSYCH_PAGES - 1"

definition resident :: "proc \<Rightarrow> uint list" where
  "resident p = take (nat (page_list_last p + 1)) (page_list p)"

definition page_list_ok :: "proc \<Rightarrow> bool" where
  "page_list_ok p \<longleftrightarrow> length (page_list p) = MAX_PSYCH_PAGES \<and>
     - 1 \<le> page_list_last p \<and> page_list_last p < int MAX_PSYCH_PAGES"

section \<open>Shifting removes one element\<close>

lemma length_shift_left [simp]: "length (shift_left lo hi xs) = length xs"
proof -
  have "length (fold (\<lambda>j xs. xs[j := xs ! (j + 1)]) js xs) = length xs" for js :: "nat list"
    by (induction js arbitrary: xs) auto
  then show ?thesis by (simp add: shift_left_def)
qed

lemma nth_shift_left:
  assumes "hi < length xs" "lo \<le> hi" "i < length xs"
  shows "shift_left lo hi xs ! i = (if lo \<le> i \<and> i < hi then xs ! (i + 1) else xs ! i)"
  using assms
proof (induction hi arbitrary: i)
  case (Suc hi)
  show ?case
  proof (cases "lo = Suc hi")
    case False
    then have step: "shift_left lo (Suc hi) xs =
        (shift_left lo hi xs)[hi := shift_left lo hi xs ! (hi + 1)]"
      using Suc.prems by (simp add: shift_left_def)
    have "shift_left lo hi xs ! (hi + 1) = xs ! (hi + 1)"
      using Suc.IH [of "hi + 1"] Suc.prems False by simp
    with Suc.IH [of i] Suc.prems False show ?thesis
      by (auto simp: step nth_list_update less_Suc_eq)
  qed (auto simp: shift_left_def)
qed (simp add: shift_left_def)

lemma take_shift_left:
  assumes "hi < length xs" "lo \<le> hi"
  shows "take hi (shift_left lo hi xs) = take lo xs @ take (hi - lo) (drop (lo + 1) xs)"
  using assms by (intro nth_equalityI) (auto simp: nth_shift_left nth_append)

lemma remove1_first:
  "k < length xs \<Longrightarrow> xs ! k = v \<Longrightarrow> (\<forall>j < k. xs ! j \<noteq> v) \<Longrightarrow>
   remove1 v xs = take k xs @ drop (k + 1) xs"
proof (induction xs arbitrary: k)
  case (Cons x xs)
  show ?case
  proof (cases k)
    case (Suc k')
    with Cons.prems have "x \<noteq> v" by auto
    moreover have "remove1 v xs = take k' xs @ drop (k' + 1) xs"
      using Cons.prems Suc by (intro Cons.IH) auto
    ultimately show ?thesis using Suc by simp
  qed (use Cons.prems in simp)
qed simp

section \<open>The operations on the list\<close>

lemma resident_len: "page_list_ok p \<Longrightarrow> length (resident p) = nat (page_list_last p + 1)"
  by (auto simp: resident_def page_list_ok_def MAX_PSYCH_PAGES_def)

lemma append_page_ok:
  assumes "page_list_ok p" "length (resident p) < MAX_PSYCH_PAGES"
  shows "\<exists>p'. append_page va p = Ok () p' \<and> page_list_ok p' \<and> resident p' = resident p @ [va]"
proof -
  let ?n = "nat (page_list_last p + 1)"
  have n: "?n < MAX_PSYCH_PAGES" using assms by (simp add: resident_len)
  then have "in_page_list (page_list_last p + 1)"
    using assms(1) by (auto simp: in_page_list_def page_list_ok_def)
  moreover have "take (Suc ?n) ((page_list p)[?n := va]) = take ?n (page_list p) @ [va]"
    using n assms(1) by (simp add: page_list_ok_def take_Suc_conv_app_nth)
  moreover have "nat (page_list_last p + 1 + 1) = Suc ?n"
    using assms(1) by (auto simp: page_list_ok_def)
  ultimately show ?thesis
    using assms(1) n by (auto simp: append_page_def Let_def resident_def page_list_ok_def)
qed

lemma FifoAlgo_ok:
  assumes "page_list_ok p" "resident p = v # vs"
  shows "\<exists>p'. FifoAlgo p = Ok v p' \<and> page_list_ok p' \<and> resident p' = vs"
proof -
  let ?n = "nat (page_list_last p)"
  have len: "length (page_list p) = MAX_PSYCH_PAGES" and hi: "page_list_last p < int MAX_PSYCH_PAGES"
    using assms(1) by (auto simp: page_list_ok_def)
  have lo: "0 \<le> page_list_last p"
    using assms resident_len [OF assms(1)] by auto
  then have n: "nat (page_list_last p + 1) = Suc ?n" by simp
  obtain x xs where px: "page_list p = x # xs"
    using len by (cases "page_list p") (auto simp: MAX_PSYCH_PAGES_def)
  have "x = v" "take ?n xs = vs" using assms(2) by (simp_all add: resident_def n px)
  moreover have "take ?n (shift_left 0 ?n (page_list p)) = take ?n xs"
    using take_shift_left [of ?n "page_list p" 0] len hi lo by (simp add: px)
  ultimately show ?thesis
    using len hi lo px
    by (auto simp: FifoAlgo_def Let_def in_page_list_def resident_def page_list_ok_def)
qed

lemma remove_page_ok:
  assumes "page_list_ok p"
  shows "page_list_ok (remove_page va p) \<and> resident (remove_page va p) = remove1 va (resident p)"
proof (cases "find (\<lambda>j. page_list p ! j = va) [0..<nat (page_list_last p + 1)]")
  case None
  then have "va \<notin> set (resident p)"
    using assms by (auto simp: find_None_iff resident_def in_set_conv_nth)
  with None assms show ?thesis by (simp add: remove_page_def remove1_idem)
next
  case (Some k)
  let ?n = "nat (page_list_last p)"
  have k: "k < nat (page_list_last p + 1)" "page_list p ! k = va" "\<forall>j < k. page_list p ! j \<noteq> va"
    using Some by (auto simp: find_Some_iff)
  then have n: "nat (page_list_last p + 1) = Suc ?n" "k \<le> ?n" "0 \<le> page_list_last p" by auto
  have len: "length (page_list p) = MAX_PSYCH_PAGES" "?n < length (page_list p)"
    using assms k(1) by (auto simp: page_list_ok_def)
  have "remove1 va (resident p) = take k (resident p) @ drop (k + 1) (resident p)"
    using k n len by (intro remove1_first) (auto simp: resident_def)
  also have "\<dots> = take ?n (shift_left k ?n (page_list p))"
    using n len by (simp add: take_shift_left resident_def drop_take min_def)
  finally show ?thesis
    using Some n assms by (auto simp: remove_page_def resident_def page_list_ok_def)
qed

interpretation pl: bounded_fifo append_page FifoAlgo remove_page page_list_full resident
  page_list_ok MAX_PSYCH_PAGES
proof (unfold_locales, goal_cases)
  case 1
  show ?case by (simp add: MAX_PSYCH_PAGES_def)
next
  case (2 p)
  then show ?case using resident_len [OF 2] by (auto simp: page_list_ok_def)
next
  case (3 p)
  then show ?case
    using resident_len [OF 3] by (auto simp: page_list_full_def page_list_ok_def)
qed (simp_all add: append_page_ok FifoAlgo_ok remove_page_ok)

section \<open>Properties\<close>

text \<open>
  (C16) Page replacement is first in, first out: when a process whose list holds the pages
  \<open>resident p\<close> brings in the pages \<open>vs\<close> one by one, evicting whenever the 15 entries are
  taken, the evicted pages are the oldest ones in the order in which they came in, and the list
  holds the newest, at most 15; no index ever leaves the array. \<open>remove_page\<close> takes one page out
  and keeps the order of the others.
\<close>

theorem replacement_is_fifo:
  assumes "page_list_ok p"
  shows "\<exists>p'. bring_in append_page FifoAlgo page_list_full vs p =
      Ok (take (length (resident p @ vs) - 15) (resident p @ vs)) p' \<and>
    page_list_ok p' \<and> resident p' = drop (length (resident p @ vs) - 15) (resident p @ vs) \<and>
    resident (remove_page v p') = remove1 v (resident p')"
  using pl.bring_in_fifo [OF assms, of vs] remove_page_ok by (auto simp: MAX_PSYCH_PAGES_def)

theorem replacement_is_fifo_witness:
  "\<exists>p'. bring_in append_page FifoAlgo page_list_full [1, 2, 3]
     (zero_proc\<lparr>page_list_last := 13\<rparr>) = Ok [0, 0] p'"
proof -
  have "page_list_ok (zero_proc\<lparr>page_list_last := 13\<rparr>)"
    by (simp add: page_list_ok_def zero_proc_def MAX_PSYCH_PAGES_def)
  from replacement_is_fifo [OF this, of "[1, 2, 3]"] obtain p' where
    "bring_in append_page FifoAlgo page_list_full [1, 2, 3] (zero_proc\<lparr>page_list_last := 13\<rparr>) =
      Ok (take 2 (replicate 14 0 @ [1, 2, 3])) p'"
    by (auto simp: resident_def zero_proc_def MAX_PSYCH_PAGES_def simp del: bring_in.simps)
  then show ?thesis by (simp add: numeral_eq_Suc del: bring_in.simps)
qed

end
