(* ===== verification/Pgtable.thy ===== *)
theory Pgtable
  imports Kalloc Pagelist
begin

text \<open>
  \<open>vm.c\<close> without its calls into the file system: two-level page tables in memory, mapping and
  unmapping pages, copying an address space and copying out to user memory. Page tables are bytes
  of the kernel's memory, read and written with \<open>load32\<close> and \<open>store32\<close>.
\<close>

section \<open>State\<close>

text \<open>
  \<open>kdata\<close> is the linker's \<open>data[]\<close>; \<open>cr3\<close> and \<open>ts_esp0\<close> are the page table register and
  the kernel stack pointer of this CPU's task segment.
\<close>

record vmstate = kmem +
  kdata :: uint
  kpgdir :: uint
  cr3 :: uint
  ts_esp0 :: uint

definition KSTACKSIZE :: uint where "KSTACKSIZE = 4096"

section \<open>Walking and mapping\<close>

definition walkpgdir :: "uint \<Rightarrow> uint \<Rightarrow> bool \<Rightarrow> 'a kmem_scheme \<Rightarrow> ('a kmem_scheme, uint) res" where
  "walkpgdir pd va alloc s =
     (let pde = pd + 4 * PDX va;
          e = load32 (mem s) pde
      in if pte_has e PTE_P then Ok (P2V (PTE_ADDR e) + 4 * PTX va) s
         else if \<not> alloc then Ok 0 s
         else bindR (kalloc s) (\<lambda>pgtab s.
           if pgtab = 0 then Ok 0 s
           else let s = s\<lparr>mem := memset pgtab 0 PGSIZE (mem s)\<rparr>;
                    s = s\<lparr>mem := store32 pde (V2P pgtab OR PTE_P OR PTE_W OR PTE_U) (mem s)\<rparr>
                in Ok (pgtab + 4 * PTX va) s))"

fun mappages_loop :: "nat \<Rightarrow> uint \<Rightarrow> uint \<Rightarrow> uint \<Rightarrow> uint \<Rightarrow> uint \<Rightarrow>
    'a kmem_scheme \<Rightarrow> ('a kmem_scheme, int) res" where
  "mappages_loop 0 pd a lst pa perm s = Fault ''fuel''"
| "mappages_loop (Suc n) pd a lst pa perm s =
     bindR (walkpgdir pd a True s) (\<lambda>pte s.
       if pte = 0 then Ok (- 1) s
       else if pte_has (load32 (mem s) pte) PTE_P then Panic ''remap''
       else let s = s\<lparr>mem := store32 pte (pa OR perm OR PTE_P) (mem s)\<rparr>;
                s = s\<lparr>mem := store32 pte (load32 (mem s) pte AND NOT PTE_PG) (mem s)\<rparr>
            in if a = lst then Ok 0 s
               else mappages_loop n pd (a + PGSIZE) lst (pa + PGSIZE) perm s)"

text \<open>The loop runs once per page from \<open>a\<close> to \<open>last\<close>, both page aligned.\<close>

definition mappages :: "uint \<Rightarrow> uint \<Rightarrow> uint \<Rightarrow> uint \<Rightarrow> uint \<Rightarrow>
    'a kmem_scheme \<Rightarrow> ('a kmem_scheme, int) res" where
  "mappages pd va len pa perm s =
     (let a = PGROUNDDOWN va;
          lst = PGROUNDDOWN (va + len - 1)
      in mappages_loop (Suc (unat (lst - a) div 4096)) pd a lst pa perm s)"

section \<open>Unmapping\<close>

fun deallocuvm_loop :: "nat \<Rightarrow> uint \<Rightarrow> uint \<Rightarrow> uint \<Rightarrow> 'a kmem_scheme \<Rightarrow> ('a kmem_scheme, unit) res" where
  "deallocuvm_loop 0 pd a oldsz s = Fault ''fuel''"
| "deallocuvm_loop (Suc n) pd a oldsz s =
     (if \<not> a < oldsz then Ok () s
      else bindR (walkpgdir pd a False s) (\<lambda>pte s.
        if pte = 0
        then deallocuvm_loop n pd (PGADDR (PDX a + 1) 0 0 - PGSIZE + PGSIZE) oldsz s
        else if pte_has (load32 (mem s) pte) PTE_P
        then let pa = PTE_ADDR (load32 (mem s) pte)
             in if pa = 0 then Panic ''kfree''
                else bindR (myproc s) (\<lambda>p s.
                  let s = (if 2 < pid (procs s p) then upd_proc p (remove_page (PGROUNDDOWN a)) s else s)
                  in bindR (kfree (P2V pa) s) (\<lambda>_ s.
                       deallocuvm_loop n pd (a + PGSIZE) oldsz (s\<lparr>mem := store32 pte 0 (mem s)\<rparr>)))
        else deallocuvm_loop n pd (a + PGSIZE) oldsz s))"

text \<open>At most one step per page below \<open>oldsz\<close>, and one to leave the loop.\<close>

definition deallocuvm :: "uint \<Rightarrow> uint \<Rightarrow> uint \<Rightarrow> 'a kmem_scheme \<Rightarrow> ('a kmem_scheme, uint) res" where
  "deallocuvm pd oldsz newsz s =
     (if oldsz \<le> newsz then Ok oldsz s
      else bindR (deallocuvm_loop (unat oldsz div 4096 + 2) pd (PGROUNDUP newsz) oldsz s)
             (\<lambda>_ s. Ok newsz s))"

definition freevm :: "uint \<Rightarrow> 'a kmem_scheme \<Rightarrow> ('a kmem_scheme, unit) res" where
  "freevm pd s =
     (if pd = 0 then Panic ''freevm: no pgdir''
      else bindR (deallocuvm pd KERNBASE 0 s) (\<lambda>_ s.
           bindR (forR [0..<NPDENTRIES] (\<lambda>i s.
             let e = load32 (mem s) (pd + 4 * of_nat i)
             in if pte_has e PTE_P then kfree (P2V (PTE_ADDR e)) s else Ok () s) s) (\<lambda>_ s.
           kfree pd s)))"

section \<open>Kernel mappings\<close>

record kmapping =
  virt :: uint
  phys_start :: uint
  phys_end :: uint
  kperm :: uint

definition kmap :: "uint \<Rightarrow> kmapping list" where
  "kmap data =
     [\<lparr>virt = KERNBASE, phys_start = 0, phys_end = EXTMEM, kperm = PTE_W\<rparr>,
      \<lparr>virt = KERNLINK, phys_start = V2P KERNLINK, phys_end = V2P data, kperm = 0\<rparr>,
      \<lparr>virt = data, phys_start = V2P data, phys_end = PHYSTOP, kperm = PTE_W\<rparr>,
      \<lparr>virt = DEVSPACE, phys_start = DEVSPACE, phys_end = 0, kperm = PTE_W\<rparr>]"

fun setupkvm_loop :: "uint \<Rightarrow> kmapping list \<Rightarrow> 'a kmem_scheme \<Rightarrow> ('a kmem_scheme, uint) res" where
  "setupkvm_loop pd [] s = Ok pd s"
| "setupkvm_loop pd (k # ks) s =
     bindR (mappages pd (virt k) (phys_end k - phys_start k) (phys_start k) (kperm k) s) (\<lambda>r s.
       if r < 0 then bindR (freevm pd s) (\<lambda>_ s. Ok 0 s)
       else setupkvm_loop pd ks s)"

definition setupkvm :: "'a vmstate_scheme \<Rightarrow> ('a vmstate_scheme, uint) res" where
  "setupkvm s =
     bindR (kalloc s) (\<lambda>pd s.
       if pd = 0 then Ok 0 s
       else let s = s\<lparr>mem := memset pd 0 PGSIZE (mem s)\<rparr>
            in if DEVSPACE < P2V PHYSTOP then Panic ''PHYSTOP too high''
               else setupkvm_loop pd (kmap (kdata s)) s)"

definition switchkvm :: "'a vmstate_scheme \<Rightarrow> 'a vmstate_scheme" where
  "switchkvm s = s\<lparr>cr3 := V2P (kpgdir s)\<rparr>"

definition kvmalloc :: "'a vmstate_scheme \<Rightarrow> ('a vmstate_scheme, unit) res" where
  "kvmalloc s = bindR (setupkvm s) (\<lambda>d s. Ok () (switchkvm (s\<lparr>kpgdir := d\<rparr>)))"

definition switchuvm :: "nat option \<Rightarrow> 'a vmstate_scheme \<Rightarrow> ('a vmstate_scheme, unit) res" where
  "switchuvm p s =
     (case p of
        None \<Rightarrow> Panic ''switchuvm: no process''
      | Some i \<Rightarrow>
          if kstack (procs s i) = 0 then Panic ''switchuvm: no kstack''
          else if pgdir (procs s i) = 0 then Panic ''switchuvm: no pgdir''
          else Ok () (s\<lparr>ts_esp0 := kstack (procs s i) + KSTACKSIZE, cr3 := V2P (pgdir (procs s i))\<rparr>))"

section \<open>User memory\<close>

definition inituvm :: "uint \<Rightarrow> uchar list \<Rightarrow> 'a kmem_scheme \<Rightarrow> ('a kmem_scheme, unit) res" where
  "inituvm pd code s =
     (if unat PGSIZE \<le> length code then Panic ''inituvm: more than a page''
      else bindR (kalloc s) (\<lambda>v s.
           bindR (mappages pd 0 PGSIZE (V2P v) (PTE_W OR PTE_U)
                    (s\<lparr>mem := memset v 0 PGSIZE (mem s)\<rparr>)) (\<lambda>_ s.
           Ok () (s\<lparr>mem := put_bytes v code (mem s)\<rparr>))))"

definition clearpteu :: "uint \<Rightarrow> uint \<Rightarrow> 'a kmem_scheme \<Rightarrow> ('a kmem_scheme, unit) res" where
  "clearpteu pd uva s =
     bindR (walkpgdir pd uva False s) (\<lambda>pte s.
       if pte = 0 then Panic ''clearpteu''
       else Ok () (s\<lparr>mem := store32 pte (load32 (mem s) pte AND NOT PTE_U) (mem s)\<rparr>))"

fun copyuvm_loop :: "nat \<Rightarrow> uint \<Rightarrow> uint \<Rightarrow> uint \<Rightarrow> uint \<Rightarrow> 'a kmem_scheme \<Rightarrow> ('a kmem_scheme, uint) res" where
  "copyuvm_loop 0 pd d i nsz s = Fault ''fuel''"
| "copyuvm_loop (Suc n) pd d i nsz s =
     (if \<not> i < nsz then Ok d s
      else bindR (walkpgdir pd i False s) (\<lambda>pte s.
        if pte = 0 then Panic ''copyuvm: pte should exist''
        else let e = load32 (mem s) pte
        in if \<not> pte_has e PTE_P \<and> \<not> pte_has e PTE_PG then Panic ''copyuvm: page not present''
           else bindR (kalloc s) (\<lambda>v s.
             if v = 0 then bindR (freevm d s) (\<lambda>_ s. Ok 0 s)
             else bindR (mappages d i PGSIZE (V2P v) (PTE_FLAGS e)
                           (s\<lparr>mem := memmove v (P2V (PTE_ADDR e)) PGSIZE (mem s)\<rparr>)) (\<lambda>r s.
               if r < 0 then bindR (kfree v s) (\<lambda>_ s. bindR (freevm d s) (\<lambda>_ s. Ok 0 s))
               else copyuvm_loop n pd d (i + PGSIZE) nsz s))))"

definition copyuvm :: "uint \<Rightarrow> uint \<Rightarrow> 'a vmstate_scheme \<Rightarrow> ('a vmstate_scheme, uint) res" where
  "copyuvm pd nsz s =
     bindR (setupkvm s) (\<lambda>d s.
       if d = 0 then Ok 0 s else copyuvm_loop (unat nsz div 4096 + 2) pd d 0 nsz s)"

text \<open>
  \<open>uva2ka\<close> dereferences the entry without testing that \<open>walkpgdir\<close> found one.
\<close>

definition uva2ka :: "uint \<Rightarrow> uint \<Rightarrow> 'a kmem_scheme \<Rightarrow> ('a kmem_scheme, uint) res" where
  "uva2ka pd uva s =
     bindR (walkpgdir pd uva False s) (\<lambda>pte s.
       if pte = 0 then Fault ''uva2ka''
       else let e = load32 (mem s) pte
            in if \<not> pte_has e PTE_P then Ok 0 s
               else if \<not> pte_has e PTE_U then Ok 0 s
               else Ok (P2V (PTE_ADDR e)) s)"

lemma page_room: "0 < unat (PGSIZE - (va - PGROUNDDOWN va))"
proof -
  have "va - PGROUNDDOWN va < PGSIZE" by (simp add: in_page_iff)
  then show ?thesis by (simp add: unat_sub word_less_nat_alt word_le_nat_alt)
qed

text \<open>\<open>copyout\<close>, with the kernel buffer given as its bytes.\<close>

function copyout :: "uint \<Rightarrow> uint \<Rightarrow> uchar list \<Rightarrow> 'a kmem_scheme \<Rightarrow> ('a kmem_scheme, int) res" where
  "copyout pd va buf s =
     (if buf = [] then Ok 0 s
      else let va0 = PGROUNDDOWN va
      in bindR (uva2ka pd va0 s) (\<lambda>pa0 s.
           if pa0 = 0 then Ok (- 1) s
           else let n = min (unat (PGSIZE - (va - va0))) (length buf)
                in copyout pd (va0 + PGSIZE) (drop n buf)
                     (s\<lparr>mem := put_bytes (pa0 + (va - va0)) (take n buf) (mem s)\<rparr>)))"
  by pat_completeness auto

termination
proof (relation "measure (\<lambda>(pd, va, buf, s). length buf)", goal_cases)
  case (2 pd va buf s va0 pa0 s' n)
  then have "0 < n" using page_room [of va] by simp
  with 2 show ?case by simp
qed simp

declare copyout.simps [simp del]

section \<open>Entries of a table\<close>

text \<open>\<open>t\<close> is a page of 1024 words, \<open>t + 4 * x\<close> the address of its word \<open>x\<close>.\<close>

lemma PDX_lt [simp]: "unat (PDX va) < 1024"
  using unat_lt32 [of va] by (simp add: unat_PDX less_mult_imp_div_less)

lemma PTX_lt [simp]: "unat (PTX va) < 1024"
  by (simp add: unat_PTX)

lemma unat_entry:
  fixes x :: uint
  assumes "unat x < 1024"
  shows "unat (4 * x) = 4 * unat x"
  using assms unat_mult_lem [of 4 x] by simp

lemma entry_in_page:
  assumes "page_aligned t" "unat x < 1024" "k < (4 :: uint)"
  shows "PGROUNDDOWN (t + 4 * x + k) = t"
proof -
  have "unat (4 * x + k) = 4 * unat x + unat k"
    using assms by (subst unat_add_lt) (auto simp: unat_entry word_less_nat_alt)
  then have "4 * x + k < PGSIZE"
    using assms(2,3) by (simp add: PGSIZE_def word_less_nat_alt)
  then show ?thesis using in_page_iff [OF assms(1), of "t + 4 * x + k"] by simp
qed

lemma entry_page: "page_aligned t \<Longrightarrow> unat x < 1024 \<Longrightarrow> PGROUNDDOWN (t + 4 * x) = t"
  using entry_in_page [of t x 0] by simp

lemma entry_unat: "page_aligned t \<Longrightarrow> unat x < 1024 \<Longrightarrow> unat (t + 4 * x) = unat t + 4 * unat x"
  using page_offset_unat [of t "4 * x"] by (simp add: unat_entry PGSIZE_def word_less_nat_alt)

lemma entry_aligned: "page_aligned t \<Longrightarrow> unat x < 1024 \<Longrightarrow> word_aligned (t + 4 * x)"
  using page_aligned_imp_word [of t] by (simp add: word_aligned_def entry_unat)

lemma entry_eq_iff:
  assumes "page_aligned t" "unat x < 1024" "page_aligned u" "unat y < 1024"
  shows "t + 4 * x = u + 4 * y \<longleftrightarrow> t = u \<and> x = y"
proof
  assume eq: "t + 4 * x = u + 4 * y"
  then have "t = u" by (metis assms entry_page)
  with eq have "unat x = unat y" using assms entry_unat by (metis add_left_cancel nat_mult_eq_cancel_disj zero_neq_numeral)
  with \<open>t = u\<close> show "t = u \<and> x = y" by (simp add: word_unat_eq_iff)
qed simp

lemma load_store_entry:
  assumes "page_aligned t" "unat x < 1024" "page_aligned u" "unat y < 1024"
  shows "load32 (store32 (t + 4 * x) w m) (u + 4 * y) = (if t = u \<and> x = y then w else load32 m (u + 4 * y))"
  using assms by (simp add: load32_store32_aligned entry_aligned entry_eq_iff)

lemma store_entry_outside:
  assumes "page_aligned t" "unat x < 1024" "PGROUNDDOWN a \<noteq> t"
  shows "store32 (t + 4 * x) w m a = m a"
proof -
  have "\<not> a - (t + 4 * x) < 4"
  proof
    assume "a - (t + 4 * x) < 4"
    then have "PGROUNDDOWN (t + 4 * x + (a - (t + 4 * x))) = t"
      by (rule entry_in_page [OF assms(1,2)])
    with assms(3) show False by simp
  qed
  then show ?thesis by (simp add: store32_apply)
qed

lemma load_zeroed:
  assumes "page_aligned t" "unat x < 1024"
  shows "load32 (memset t 0 PGSIZE m) (t + 4 * x) = 0"
proof -
  have "memset t 0 PGSIZE m (t + 4 * x + k) = 0" if "k < 4" for k
    using entry_in_page [OF assms that] in_page_iff [OF assms(1)] by (simp add: memset_eq)
  then have "load32 (memset t 0 PGSIZE m) (t + 4 * x) = load32 (\<lambda>_. 0) (t + 4 * x)"
    by (intro load32_cong) simp
  then show ?thesis by (simp add: load32_def le32_def)
qed

lemma load_memset_other:
  assumes "page_aligned t" "page_aligned u" "unat x < 1024" "t \<noteq> u"
  shows "load32 (memset t c PGSIZE m) (u + 4 * x) = load32 m (u + 4 * x)"
proof (rule load32_cong)
  fix k :: uint assume "k < 4"
  then have "PGROUNDDOWN (u + 4 * x + k) = u" by (rule entry_in_page [OF assms(2,3)])
  with assms(4) have "\<not> u + 4 * x + k - t < PGSIZE" using in_page_iff [OF assms(1)] by simp
  then show "memset t c PGSIZE m (u + 4 * x + k) = m (u + 4 * x + k)" by (simp add: memset_eq)
qed

section \<open>The map a page table stands for\<close>

text \<open>The page table page for \<open>va\<close>, the entry's address, and the entry when it is present.\<close>

definition pt_table :: "memory \<Rightarrow> uint \<Rightarrow> uint \<Rightarrow> uint option" where
  "pt_table m pd x =
     (let e = load32 m (pd + 4 * x) in if pte_has e PTE_P then Some (P2V (PTE_ADDR e)) else None)"

definition pt_slot :: "memory \<Rightarrow> uint \<Rightarrow> uint \<Rightarrow> uint option" where
  "pt_slot m pd va = map_option (\<lambda>t. t + 4 * PTX va) (pt_table m pd (PDX va))"

definition pt_entry :: "memory \<Rightarrow> uint \<Rightarrow> uint \<Rightarrow> uint option" where
  "pt_entry m pd va =
     (case pt_slot m pd va of
        None \<Rightarrow> None
      | Some a \<Rightarrow> if pte_has (load32 m a) PTE_P then Some (load32 m a) else None)"

text \<open>
  A well-formed page table: its pages are aligned, no two directory entries share one, and none is
  the directory itself.
\<close>

definition pt_pages :: "memory \<Rightarrow> uint \<Rightarrow> uint set" where
  "pt_pages m pd = insert pd {t. \<exists>x. unat x < 1024 \<and> pt_table m pd x = Some t}"

definition pt_wf :: "memory \<Rightarrow> uint \<Rightarrow> bool" where
  "pt_wf m pd \<longleftrightarrow> page_aligned pd \<and> pd \<noteq> 0 \<and>
     (\<forall>x t. unat x < 1024 \<longrightarrow> pt_table m pd x = Some t \<longrightarrow> t \<noteq> pd \<and> t \<noteq> 0) \<and>
     (\<forall>x y t. unat x < 1024 \<longrightarrow> unat y < 1024 \<longrightarrow> pt_table m pd x = Some t \<longrightarrow>
        pt_table m pd y = Some t \<longrightarrow> x = y)"

definition vm_ok :: "'a kmem_scheme \<Rightarrow> uint \<Rightarrow> uint list \<Rightarrow> bool" where
  "vm_ok s pd xs \<longleftrightarrow> kfree_pages s xs \<and> pt_wf (mem s) pd \<and> pt_pages (mem s) pd \<inter> set xs = {}"

lemma P2V_aligned: "page_aligned a \<Longrightarrow> page_aligned (P2V a)"
proof -
  assume "page_aligned a"
  then have "4096 dvd unat a" by (simp add: page_aligned_dvd)
  moreover have "4096 dvd unat KERNBASE" by (simp add: KERNBASE_def)
  ultimately have "4096 dvd (unat a + unat KERNBASE) mod 2 ^ 32"
    by (intro dvd_mod) auto
  then show ?thesis by (simp add: P2V_def page_aligned_dvd unat_word_ariths)
qed

lemma pt_table_aligned: "pt_table m pd x = Some t \<Longrightarrow> page_aligned t"
  by (auto simp: pt_table_def PTE_ADDR_PGROUNDDOWN P2V_aligned Let_def split: if_splits)

lemma pt_wfD:
  assumes "pt_wf m pd"
  shows "page_aligned pd" "pd \<noteq> 0"
    and "unat x < 1024 \<Longrightarrow> pt_table m pd x = Some t \<Longrightarrow> t \<noteq> pd"
    and "unat x < 1024 \<Longrightarrow> pt_table m pd x = Some t \<Longrightarrow> t \<noteq> 0"
    and "unat x < 1024 \<Longrightarrow> unat y < 1024 \<Longrightarrow> pt_table m pd x = Some t \<Longrightarrow>
      pt_table m pd y = Some t \<Longrightarrow> x = y"
  using assms unfolding pt_wf_def by blast+

lemma pt_slot_nonnull: "pt_wf m pd \<Longrightarrow> pt_slot m pd va = Some a \<Longrightarrow> a \<noteq> 0"
proof -
  assume wf: "pt_wf m pd" and "pt_slot m pd va = Some a"
  then obtain t where t: "pt_table m pd (PDX va) = Some t" "a = t + 4 * PTX va"
    by (auto simp: pt_slot_def)
  have "t \<noteq> 0" by (rule pt_wfD(4) [OF wf PDX_lt t(1)])
  moreover have "PGROUNDDOWN a = t" using entry_page [OF pt_table_aligned [OF t(1)] PTX_lt] t(2) by simp
  ultimately show "a \<noteq> 0" by (auto simp: PGROUNDDOWN_def)
qed

lemma walkpgdir_found:
  "pt_slot (mem s) pd va = Some a \<Longrightarrow> walkpgdir pd va alloc s = Ok a s"
  by (auto simp: walkpgdir_def pt_slot_def pt_table_def Let_def split: if_splits)

lemma walkpgdir_none:
  "pt_slot (mem s) pd va = None \<Longrightarrow> walkpgdir pd va False s = Ok 0 s"
  by (auto simp: walkpgdir_def pt_slot_def pt_table_def Let_def split: if_splits)

lemma walkpgdir_no_alloc: "walkpgdir pd va False s = Ok (case pt_slot (mem s) pd va of Some a \<Rightarrow> a | None \<Rightarrow> 0) s"
  by (auto simp: walkpgdir_found walkpgdir_none split: option.splits)

text \<open>Writing one entry.\<close>

lemma pt_table_store:
  assumes "pt_wf m pd" "pt_slot m pd va = Some a" "unat x < 1024"
  shows "pt_table (store32 a e m) pd x = pt_table m pd x"
proof -
  obtain t where t: "pt_table m pd (PDX va) = Some t" "a = t + 4 * PTX va"
    using assms(2) by (auto simp: pt_slot_def)
  have "t \<noteq> pd" by (rule pt_wfD(3) [OF assms(1) PDX_lt t(1)])
  then show ?thesis
    using assms(3) pt_wfD(1) [OF assms(1)] pt_table_aligned [OF t(1)]
    by (simp add: pt_table_def t(2) load_store_entry)
qed

lemma pt_wf_cong:
  assumes "\<And>x. unat x < 1024 \<Longrightarrow> pt_table m' pd x = pt_table m pd x"
  shows "pt_wf m' pd = pt_wf m pd" "pt_pages m' pd = pt_pages m pd"
  using assms unfolding pt_wf_def pt_pages_def by auto

lemma pt_slot_store:
  "pt_wf m pd \<Longrightarrow> pt_slot m pd va = Some a \<Longrightarrow> pt_slot (store32 a e m) pd vb = pt_slot m pd vb"
  by (simp add: pt_slot_def [of _ _ vb] pt_table_store)

lemma pt_slot_inj:
  assumes "pt_wf m pd" "pt_slot m pd va = Some a" "pt_slot m pd vb = Some b"
  shows "a = b \<longleftrightarrow> PGROUNDDOWN va = PGROUNDDOWN vb"
proof -
  obtain t u where t: "pt_table m pd (PDX va) = Some t" "a = t + 4 * PTX va"
    and u: "pt_table m pd (PDX vb) = Some u" "b = u + 4 * PTX vb"
    using assms(2,3) by (auto simp: pt_slot_def)
  have "a = b \<longleftrightarrow> t = u \<and> PTX va = PTX vb"
    using t u by (simp add: entry_eq_iff pt_table_aligned)
  also have "\<dots> \<longleftrightarrow> PDX va = PDX vb \<and> PTX va = PTX vb"
    using t u pt_wfD(5) [OF assms(1), of "PDX va" "PDX vb"] by auto
  finally show ?thesis by (simp add: PDX_PTX_eq_iff)
qed

lemma pt_slot_aligned: "pt_slot m pd va = Some a \<Longrightarrow> word_aligned a"
  by (auto simp: pt_slot_def entry_aligned pt_table_aligned)

lemma pt_entry_store:
  assumes "pt_wf m pd" "pt_slot m pd va = Some a"
  shows "pt_entry (store32 a e m) pd vb =
    (if PGROUNDDOWN vb = PGROUNDDOWN va then (if pte_has e PTE_P then Some e else None)
     else pt_entry m pd vb)"
proof (cases "pt_slot m pd vb")
  case None
  moreover have "PGROUNDDOWN vb \<noteq> PGROUNDDOWN va"
  proof
    assume "PGROUNDDOWN vb = PGROUNDDOWN va"
    then have "PDX vb = PDX va" using PDX_PTX_eq_iff by blast
    with None assms(2) show False by (simp add: pt_slot_def)
  qed
  ultimately show ?thesis by (simp add: pt_entry_def pt_slot_store [OF assms])
next
  case (Some b)
  then show ?thesis
    using pt_slot_inj [OF assms Some] pt_slot_aligned [OF assms(2)] pt_slot_aligned [OF Some]
    by (auto simp: pt_entry_def pt_slot_store [OF assms] load32_store32_aligned)
qed

text \<open>The address part of an entry.\<close>

lemma aligned_low_bits: "page_aligned p \<Longrightarrow> n < 12 \<Longrightarrow> \<not> bit p n"
proof -
  assume "page_aligned p" and n: "n < 12"
  then have "p = p AND NOT (mask 12)"
    using PGROUNDDOWN_id [of p] by (simp add: PGROUNDDOWN_def PGSIZE_def page_mask)
  then have "bit p n = bit (p AND NOT (mask 12)) n" by (rule arg_cong)
  with n show ?thesis by (simp add: bit_simps)
qed

lemma PTE_ADDR_or:
  assumes "page_aligned p" "PTE_ADDR f = 0"
  shows "PTE_ADDR (p OR f) = p"
proof (rule bit_word_eqI)
  fix n assume n: "n < LENGTH(32)"
  have "bit (PTE_ADDR f) n = bit (0 :: uint) n" using assms(2) by (rule arg_cong)
  with n aligned_low_bits [OF assms(1), of n] show "bit (PTE_ADDR (p OR f)) n = bit p n"
    by (cases "n < 12") (auto simp: PTE_ADDR_def bit_simps page_mask)
qed

lemma V2P_aligned: "page_aligned a \<Longrightarrow> page_aligned (V2P a)"
proof -
  assume "page_aligned a"
  moreover have "V2P a = P2V a"
    by (simp add: V2P_def P2V_def KERNBASE_def)
  ultimately show ?thesis using P2V_aligned by metis
qed

lemma new_pde:
  assumes "page_aligned t"
  shows "PTE_ADDR (V2P t OR PTE_P OR PTE_W OR PTE_U) = V2P t"
    and "pte_has (V2P t OR PTE_P OR PTE_W OR PTE_U) PTE_P"
proof -
  have f: "PTE_ADDR (PTE_P OR PTE_W OR PTE_U) = 0"
    by (simp add: PTE_ADDR_def PTE_P_def PTE_W_def PTE_U_def)
  show "PTE_ADDR (V2P t OR PTE_P OR PTE_W OR PTE_U) = V2P t"
    using PTE_ADDR_or [OF V2P_aligned [OF assms] f] .
  have "bit ((V2P t OR PTE_P OR PTE_W OR PTE_U) AND PTE_P) 0"
    by (simp add: bit_simps PTE_P_def)
  then show "pte_has (V2P t OR PTE_P OR PTE_W OR PTE_U) PTE_P"
    unfolding pte_has_def by (metis bit_0_eq bot_apply bot_bool_def)
qed

text \<open>A new page table page in a directory.\<close>

lemma pt_new_table:
  assumes wf: "pt_wf m pd" and none: "pt_table m pd d = None" and d: "unat d < 1024"
    and x: "page_aligned x" "x \<noteq> 0" "x \<notin> pt_pages m pd"
    and m': "m' = store32 (pd + 4 * d) (V2P x OR PTE_P OR PTE_W OR PTE_U) (memset x 0 PGSIZE m)"
  shows "unat y < 1024 \<Longrightarrow> pt_table m' pd y = (if y = d then Some x else pt_table m pd y)"
    and "pt_wf m' pd" and "pt_pages m' pd = insert x (pt_pages m pd)"
    and "pt_entry m' pd vb = pt_entry m pd vb"
proof -
  have pd: "page_aligned pd" "pd \<noteq> 0" and xpd: "x \<noteq> pd"
    using wf x(3) by (auto simp: pt_wf_def pt_pages_def)
  have tab: "pt_table m' pd y = (if y = d then Some x else pt_table m pd y)" if "unat y < 1024" for y
    using that pd d x xpd
    by (simp add: pt_table_def m' load_store_entry load_memset_other new_pde Let_def)
  have fresh: "t \<noteq> x" if "unat y < 1024" "pt_table m pd y = Some t" for y t
    using x(3) that by (auto simp: pt_pages_def)
  then have old: "pt_table m pd y \<noteq> Some x" if "unat y < 1024" for y
    using that by blast
  show "pt_wf m' pd"
    unfolding pt_wf_def using pd xpd x(2) pt_wfD(3,4,5) [OF wf] old by (auto simp: tab)
  show "pt_pages m' pd = insert x (pt_pages m pd)"
  proof (intro equalityI subsetI)
    fix t assume "t \<in> pt_pages m' pd"
    then show "t \<in> insert x (pt_pages m pd)"
      by (auto simp: pt_pages_def tab split: if_splits)
  next
    fix t assume "t \<in> insert x (pt_pages m pd)"
    then consider "t = pd" | "t = x" | y where "unat y < 1024" "pt_table m pd y = Some t"
      by (auto simp: pt_pages_def)
    then show "t \<in> pt_pages m' pd"
    proof cases
      case 3
      with none have "y \<noteq> d" by auto
      with 3 show ?thesis by (auto simp: pt_pages_def tab)
    qed (use d tab [OF d] in \<open>auto simp: pt_pages_def\<close>)
  qed
  show "pt_entry m' pd vb = pt_entry m pd vb"
  proof (cases "PDX vb = d")
    case True
    then have "pt_slot m' pd vb = Some (x + 4 * PTX vb)" by (simp add: pt_slot_def tab d)
    moreover have "load32 m' (x + 4 * PTX vb) = 0"
      using pd d x xpd by (simp add: m' load_store_entry load_zeroed)
    ultimately show ?thesis
      using none True by (simp add: pt_entry_def pt_slot_def pte_has_def)
  next
    case False
    then have slot: "pt_slot m' pd vb = pt_slot m pd vb" by (simp add: pt_slot_def tab)
    show ?thesis
    proof (cases "pt_table m pd (PDX vb)")
      case (Some t)
      have "t \<noteq> x" "t \<noteq> pd" using fresh [OF _ Some] pt_wfD(3) [OF wf _ Some] by auto
      then have "load32 m' (t + 4 * PTX vb) = load32 m (t + 4 * PTX vb)"
        using pd d x pt_table_aligned [OF Some] by (simp add: m' load_store_entry load_memset_other)
      with Some show ?thesis by (simp add: pt_entry_def slot) (simp add: pt_slot_def)
    qed (use slot in \<open>simp add: pt_entry_def pt_slot_def\<close>)
  qed
  show "unat y < 1024 \<Longrightarrow> pt_table m' pd y = (if y = d then Some x else pt_table m pd y)"
    by (rule tab)
qed

section \<open>walkpgdir and mappages\<close>

text \<open>
  What allocating operations on the page table \<open>pd\<close> keep: they only write to its pages and to
  free pages, and free pages only leave the free list to become page table pages.
\<close>

definition pt_frame :: "uint \<Rightarrow> 'a kmem_scheme \<Rightarrow> uint list \<Rightarrow> 'a kmem_scheme \<Rightarrow> uint list \<Rightarrow> bool" where
  "pt_frame pd s xs s' xs' \<longleftrightarrow>
     s' = s\<lparr>mem := mem s', freelist := freelist s'\<rparr> \<and>
     pt_pages (mem s') pd \<union> set xs' = pt_pages (mem s) pd \<union> set xs \<and>
     pt_pages (mem s) pd \<subseteq> pt_pages (mem s') pd \<and>
     (\<forall>a. PGROUNDDOWN a \<notin> pt_pages (mem s) pd \<union> set xs \<longrightarrow> mem s' a = mem s a)"

lemma pt_frameI:
  assumes "s' = s\<lparr>mem := m, freelist := h\<rparr>"
    and "pt_pages m pd \<union> set xs' = pt_pages (mem s) pd \<union> set xs"
    and "pt_pages (mem s) pd \<subseteq> pt_pages m pd"
    and "\<And>a. PGROUNDDOWN a \<notin> pt_pages (mem s) pd \<union> set xs \<Longrightarrow> m a = mem s a"
  shows "pt_frame pd s xs s' xs'"
  using assms by (simp add: pt_frame_def)

lemma pt_frame_refl: "pt_frame pd s xs s xs"
  by (rule pt_frameI [where m = "mem s" and h = "freelist s"]) simp_all

lemma pt_frame_trans:
  assumes "pt_frame pd s xs t ys" "pt_frame pd t ys u zs"
  shows "pt_frame pd s xs u zs"
proof -
  have t: "t = s\<lparr>mem := mem t, freelist := freelist t\<rparr>" using assms(1) by (simp only: pt_frame_def)
  have u: "u = t\<lparr>mem := mem u, freelist := freelist u\<rparr>" using assms(2) by (simp only: pt_frame_def)
  have "t\<lparr>mem := m, freelist := h\<rparr> = s\<lparr>mem := m, freelist := h\<rparr>" for m h
    by (subst t) simp
  with u have eq: "u = s\<lparr>mem := mem u, freelist := freelist u\<rparr>" by metis
  show ?thesis
  proof (rule pt_frameI [OF eq])
    fix a assume "PGROUNDDOWN a \<notin> pt_pages (mem s) pd \<union> set xs"
    then show "mem u a = mem s a" using assms by (auto simp: pt_frame_def)
  qed (use assms in \<open>auto simp: pt_frame_def\<close>)
qed

lemma vm_ok_store:
  assumes "vm_ok s pd xs" "pt_slot (mem s) pd va = Some a"
  shows "vm_ok (s\<lparr>mem := store32 a e (mem s)\<rparr>) pd xs"
    and "pt_frame pd s xs (s\<lparr>mem := store32 a e (mem s)\<rparr>) xs"
proof -
  have wf: "pt_wf (mem s) pd" and k: "kfree_pages s xs" and dis: "pt_pages (mem s) pd \<inter> set xs = {}"
    using assms(1) by (auto simp: vm_ok_def)
  obtain t where t: "pt_table (mem s) pd (PDX va) = Some t" "a = t + 4 * PTX va"
    using assms(2) by (auto simp: pt_slot_def)
  have tp: "t \<in> pt_pages (mem s) pd"
    using t(1) by (auto simp: pt_pages_def intro: exI [of _ "PDX va"])
  have out: "store32 a e (mem s) b = mem s b" if "PGROUNDDOWN b \<noteq> t" for b
    using store_entry_outside [OF pt_table_aligned [OF t(1)] PTX_lt that] t(2) by simp
  have tabs: "pt_table (store32 a e (mem s)) pd x = pt_table (mem s) pd x" if "unat x < 1024" for x
    by (rule pt_table_store [OF wf assms(2) that])
  have "kfree_pages (s\<lparr>mem := store32 a e (mem s)\<rparr>) xs"
  proof (rule kfree_pages_frame [OF k])
    fix b assume "store32 a e (mem s) b \<noteq> mem s b"
    then have "PGROUNDDOWN b = t" using out [of b] by auto
    then show "PGROUNDDOWN b \<notin> set xs" using tp dis by auto
  qed
  then show "vm_ok (s\<lparr>mem := store32 a e (mem s)\<rparr>) pd xs"
    using wf dis pt_wf_cong [OF tabs] by (simp add: vm_ok_def)
  show "pt_frame pd s xs (s\<lparr>mem := store32 a e (mem s)\<rparr>) xs"
  proof (rule pt_frameI [where m = "store32 a e (mem s)" and h = "freelist s"])
    fix b assume "PGROUNDDOWN b \<notin> pt_pages (mem s) pd \<union> set xs"
    then have "PGROUNDDOWN b \<noteq> t" using tp by blast
    then show "store32 a e (mem s) b = mem s b" using out by simp
  qed (simp_all add: pt_wf_cong(2) [OF tabs])
qed

lemma walkpgdir_alloc:
  assumes "vm_ok s pd xs"
  shows "\<exists>a s' xs'. walkpgdir pd va True s = Ok a s' \<and> vm_ok s' pd xs' \<and> pt_frame pd s xs s' xs' \<and>
    pt_entry (mem s') pd = pt_entry (mem s) pd \<and>
    (if a = 0 then xs' = [] else pt_slot (mem s') pd va = Some a)"
proof (cases "pt_slot (mem s) pd va")
  case (Some a)
  have "a \<noteq> 0" using assms pt_slot_nonnull [OF _ Some] by (simp add: vm_ok_def)
  with Some assms show ?thesis
    by (intro exI [of _ a] exI [of _ s] exI [of _ xs]) (simp add: walkpgdir_found pt_frame_refl)
next
  case None
  then have none: "pt_table (mem s) pd (PDX va) = None" by (simp add: pt_slot_def)
  then have np: "\<not> pte_has (load32 (mem s) (pd + 4 * PDX va)) PTE_P"
    by (auto simp: pt_table_def Let_def split: if_splits)
  have wf: "pt_wf (mem s) pd" and k: "kfree_pages s xs" and dis: "pt_pages (mem s) pd \<inter> set xs = {}"
    using assms by (auto simp: vm_ok_def)
  show ?thesis
  proof (cases xs)
    case Nil
    with k np assms show ?thesis
      by (intro exI [of _ 0] exI [of _ s] exI [of _ xs])
         (simp add: walkpgdir_def kalloc_empty Let_def pt_frame_refl)
  next
    case (Cons x ys)
    obtain h where h: "kalloc s = Ok x (s\<lparr>freelist := h\<rparr>)" "kfree_pages (s\<lparr>freelist := h\<rparr>) ys"
      using kalloc_Cons k Cons by blast
    have x: "page_aligned x" "x \<noteq> 0" "x \<notin> pt_pages (mem s) pd" "x \<notin> set ys"
      using k dis Cons kpage_nonnull by (auto simp: kfree_pages_def kpage_def)
    define m where "m = store32 (pd + 4 * PDX va) (V2P x OR PTE_P OR PTE_W OR PTE_U) (memset x 0 PGSIZE (mem s))"
    note new = pt_new_table [OF wf none PDX_lt x(1-3) m_def]
    have pd: "page_aligned pd" "pd \<in> pt_pages (mem s) pd"
      using wf by (auto simp: pt_wf_def pt_pages_def)
    have out: "m b = mem s b" if "PGROUNDDOWN b \<noteq> pd" "PGROUNDDOWN b \<noteq> x" for b
    proof -
      have "\<not> b - x < PGSIZE" using that(2) in_page_iff [OF x(1)] by simp
      then show ?thesis
        unfolding m_def using store_entry_outside [OF pd(1) PDX_lt that(1)] by (simp add: memset_eq)
    qed
    have "kfree_pages (s\<lparr>freelist := h, mem := m\<rparr>) ys"
    proof (rule kfree_pages_frame [OF h(2)])
      fix b assume "m b \<noteq> mem (s\<lparr>freelist := h\<rparr>) b"
      then have "PGROUNDDOWN b = pd \<or> PGROUNDDOWN b = x" using out [of b] by auto
      then show "PGROUNDDOWN b \<notin> set ys" using pd(2) dis x(4) Cons by auto
    qed
    then have "vm_ok (s\<lparr>freelist := h, mem := m\<rparr>) pd ys"
      using new(2,3) dis Cons x(4) by (auto simp: vm_ok_def)
    moreover have "pt_frame pd s xs (s\<lparr>freelist := h, mem := m\<rparr>) ys"
    proof (rule pt_frameI [where m = m and h = h])
      fix b assume "PGROUNDDOWN b \<notin> pt_pages (mem s) pd \<union> set xs"
      then have "PGROUNDDOWN b \<noteq> pd" "PGROUNDDOWN b \<noteq> x" using pd(2) Cons by auto
      then show "m b = mem s b" by (rule out)
    qed (use new(3) Cons in auto)
    moreover have "pt_slot m pd va = Some (x + 4 * PTX va)"
      by (simp add: pt_slot_def new(1))
    moreover have "x + 4 * PTX va \<noteq> 0"
      using pt_slot_nonnull [OF new(2)] calculation(3) by blast
    moreover have "pt_entry m pd = pt_entry (mem s) pd"
      by (rule ext) (rule new(4))
    moreover have "walkpgdir pd va True s = Ok (x + 4 * PTX va) (s\<lparr>freelist := h, mem := m\<rparr>)"
      using np x(2) by (simp add: walkpgdir_def h(1) m_def)
    ultimately show ?thesis
      by (intro exI [of _ "x + 4 * PTX va"] exI [of _ "s\<lparr>freelist := h, mem := m\<rparr>"] exI [of _ ys]) simp
  qed
qed

text \<open>What \<open>mappages\<close> writes into an entry.\<close>

definition new_pte :: "uint \<Rightarrow> uint \<Rightarrow> uint" where
  "new_pte pa perm = (pa OR perm OR PTE_P) AND NOT PTE_PG"

lemma new_pte_P: "pte_has (new_pte pa perm) PTE_P"
proof -
  have "bit (new_pte pa perm AND PTE_P) 0"
    by (simp add: bit_simps new_pte_def PTE_P_def PTE_PG_def)
  then show ?thesis unfolding pte_has_def by (metis bit_0_eq bot_apply bot_bool_def)
qed

lemma map_one_page:
  assumes "vm_ok s pd xs" "page_aligned a" "pt_entry (mem s) pd a = None"
  shows "\<exists>s' xs'. vm_ok s' pd xs' \<and> pt_frame pd s xs s' xs' \<and>
    (mappages_loop (Suc n) pd a lst pa perm s = Ok (- 1) s' \<and> xs' = [] \<or>
     mappages_loop (Suc n) pd a lst pa perm s =
       (if a = lst then Ok 0 s' else mappages_loop n pd (a + PGSIZE) lst (pa + PGSIZE) perm s') \<and>
     pt_entry (mem s') pd = (\<lambda>vb. if PGROUNDDOWN vb = a then Some (new_pte pa perm)
       else pt_entry (mem s) pd vb))"
proof -
  obtain p s1 xs1 where w: "walkpgdir pd a True s = Ok p s1" "vm_ok s1 pd xs1" "pt_frame pd s xs s1 xs1"
    "pt_entry (mem s1) pd = pt_entry (mem s) pd"
    "if p = 0 then xs1 = [] else pt_slot (mem s1) pd a = Some p"
    using walkpgdir_alloc [OF assms(1)] by blast
  show ?thesis
  proof (cases "p = 0")
    case True
    with w show ?thesis by auto
  next
    case False
    then have slot: "pt_slot (mem s1) pd a = Some p" using w(5) by simp
    moreover have "pt_entry (mem s1) pd a = None" using assms(3) w(4) by simp
    ultimately have np: "\<not> pte_has (load32 (mem s1) p) PTE_P"
      by (auto simp: pt_entry_def split: if_splits)
    let ?s2 = "s1\<lparr>mem := store32 p (new_pte pa perm) (mem s1)\<rparr>"
    note st = vm_ok_store [OF w(2) slot, of "new_pte pa perm"]
    have wf: "pt_wf (mem s1) pd" using w(2) by (simp add: vm_ok_def)
    have "pt_entry (mem ?s2) pd = (\<lambda>vb. if PGROUNDDOWN vb = a then Some (new_pte pa perm)
        else pt_entry (mem s) pd vb)"
      using assms(2) w(4) by (auto simp: pt_entry_store [OF wf slot] PGROUNDDOWN_id new_pte_P)
    moreover have "mappages_loop (Suc n) pd a lst pa perm s =
        (if a = lst then Ok 0 ?s2 else mappages_loop n pd (a + PGSIZE) lst (pa + PGSIZE) perm ?s2)"
      using w(1) False np by (simp add: new_pte_def Let_def)
    ultimately show ?thesis using st pt_frame_trans [OF w(3) st(2)] by blast
  qed
qed

text \<open>The \<open>i\<close>-th page after \<open>a\<close>.\<close>

lemma page_step_eq:
  assumes "page_aligned a" "i < 2 ^ 20" "j < 2 ^ 20"
  shows "a + of_nat i * PGSIZE = a + of_nat j * PGSIZE \<longleftrightarrow> i = j"
proof -
  have "unat (of_nat k * PGSIZE :: uint) = 4096 * k" if "k < 2 ^ 20" for k
    using that by (simp add: PGSIZE_def unat_word_ariths unat_of_nat)
  then show ?thesis using assms(2,3)
    by (metis add_left_cancel mult_cancel_left zero_neq_numeral)
qed

lemma page_step_aligned: "page_aligned a \<Longrightarrow> page_aligned (a + of_nat i * PGSIZE)"
proof -
  assume "page_aligned a"
  then have "4096 dvd unat a" by (simp add: page_aligned_dvd)
  then have "4096 dvd (unat a + (unat (of_nat i :: uint) * 4096) mod 2 ^ 32) mod 2 ^ 32"
    by (intro dvd_mod dvd_add) auto
  then show ?thesis by (simp add: page_aligned_dvd unat_word_ariths PGSIZE_def)
qed

definition mapped_range :: "(uint \<Rightarrow> uint option) \<Rightarrow> uint \<Rightarrow> nat \<Rightarrow> uint \<Rightarrow> uint \<Rightarrow>
    (uint \<Rightarrow> uint option) \<Rightarrow> bool" where
  "mapped_range e a n pa perm e' \<longleftrightarrow>
     (\<forall>i \<le> n. e' (a + of_nat i * PGSIZE) = Some (new_pte (pa + of_nat i * PGSIZE) perm)) \<and>
     (\<forall>vb. (\<forall>i \<le> n. PGROUNDDOWN vb \<noteq> a + of_nat i * PGSIZE) \<longrightarrow> e' vb = e vb)"

lemma page_step_next:
  "a + PGSIZE + of_nat i * PGSIZE = a + of_nat (Suc i) * PGSIZE"
  by (simp add: algebra_simps)

lemma page_step_other:
  "page_aligned a \<Longrightarrow> Suc i < 2 ^ 20 \<Longrightarrow> a + of_nat (Suc i) * PGSIZE \<noteq> a"
  using page_step_eq [of a "Suc i" 0] by simp

lemma mapped_range_0:
  "page_aligned a \<Longrightarrow>
   mapped_range e a 0 pa perm (\<lambda>vb. if PGROUNDDOWN vb = a then Some (new_pte pa perm) else e vb)"
  by (simp add: mapped_range_def PGROUNDDOWN_id)

lemma mapped_range_Suc:
  assumes a: "page_aligned a" "Suc n < 2 ^ 20"
    and rest: "mapped_range (\<lambda>vb. if PGROUNDDOWN vb = a then Some (new_pte pa perm) else e vb)
      (a + PGSIZE) n (pa + PGSIZE) perm e'"
  shows "mapped_range e a (Suc n) pa perm e'"
proof -
  have e1: "e' (a + of_nat (Suc i) * PGSIZE) = Some (new_pte (pa + of_nat (Suc i) * PGSIZE) perm)"
    if "i \<le> n" for i
    using rest that unfolding mapped_range_def page_step_next by blast
  have e2: "e' vb = (if PGROUNDDOWN vb = a then Some (new_pte pa perm) else e vb)"
    if "\<forall>i \<le> n. PGROUNDDOWN vb \<noteq> a + of_nat (Suc i) * PGSIZE" for vb
    using rest that unfolding mapped_range_def page_step_next by blast
  have "\<forall>i \<le> n. PGROUNDDOWN a \<noteq> a + of_nat (Suc i) * PGSIZE"
    using page_step_other [OF a(1)] a(2) PGROUNDDOWN_id [OF a(1)] by (metis Suc_le_mono le_less_trans)
  from e2 [OF this] have e0: "e' a = Some (new_pte pa perm)" by (simp add: PGROUNDDOWN_id a(1))
  have "e' (a + of_nat i * PGSIZE) = Some (new_pte (pa + of_nat i * PGSIZE) perm)" if "i \<le> Suc n" for i
    using that e0 e1 by (cases i) auto
  moreover have "e' vb = e vb" if "\<forall>i \<le> Suc n. PGROUNDDOWN vb \<noteq> a + of_nat i * PGSIZE" for vb
    using that [rule_format, of 0] e2 [of vb] that by (auto simp del: of_nat_Suc)
  ultimately show ?thesis by (simp add: mapped_range_def del: of_nat_Suc)
qed

lemma mappages_loop_ok:
  assumes "vm_ok s pd xs" "page_aligned a" "n < 2 ^ 20" "lst = a + of_nat n * PGSIZE"
    and "\<And>i. i \<le> n \<Longrightarrow> pt_entry (mem s) pd (a + of_nat i * PGSIZE) = None"
  shows "\<exists>r s' xs'. mappages_loop (Suc n) pd a lst pa perm s = Ok r s' \<and> vm_ok s' pd xs' \<and>
    pt_frame pd s xs s' xs' \<and>
    (if r = 0 then mapped_range (pt_entry (mem s) pd) a n pa perm (pt_entry (mem s') pd)
     else r = - 1 \<and> xs' = [])"
  using assms
proof (induction n arbitrary: s xs a pa)
  case 0
  have "pt_entry (mem s) pd a = None" using 0 by simp
  from map_one_page [OF "0.prems"(1,2) this, of 0 lst pa perm] 0 show ?case
    by (auto simp: mapped_range_0 simp del: mappages_loop.simps)
next
  case (Suc n)
  note prems = Suc.prems
  have last: "a \<noteq> lst" using page_step_other [OF prems(2), of n] prems(3,4) by simp
  have a': "page_aligned (a + PGSIZE)" using page_step_aligned [OF prems(2), of 1] by simp
  have "pt_entry (mem s) pd a = None" using prems(5) [of 0] by simp
  from map_one_page [OF prems(1,2) this, of "Suc n" lst pa perm] obtain s1 xs1 where
    s1: "vm_ok s1 pd xs1" "pt_frame pd s xs s1 xs1" and
    "mappages_loop (Suc (Suc n)) pd a lst pa perm s = Ok (- 1) s1 \<and> xs1 = [] \<or>
     mappages_loop (Suc (Suc n)) pd a lst pa perm s =
       mappages_loop (Suc n) pd (a + PGSIZE) lst (pa + PGSIZE) perm s1 \<and>
     pt_entry (mem s1) pd = (\<lambda>vb. if PGROUNDDOWN vb = a then Some (new_pte pa perm)
       else pt_entry (mem s) pd vb)"
    using last by (simp only: if_False) blast
  then consider "mappages_loop (Suc (Suc n)) pd a lst pa perm s = Ok (- 1) s1" "xs1 = []"
    | "mappages_loop (Suc (Suc n)) pd a lst pa perm s =
       mappages_loop (Suc n) pd (a + PGSIZE) lst (pa + PGSIZE) perm s1"
      "pt_entry (mem s1) pd = (\<lambda>vb. if PGROUNDDOWN vb = a then Some (new_pte pa perm)
       else pt_entry (mem s) pd vb)" by blast
  then show ?case
  proof cases
    case 1
    with s1 show ?thesis
      by (intro exI [of _ "- 1"] exI [of _ s1] exI [of _ xs1]) (simp del: mappages_loop.simps)
  next
    case 2
    have "pt_entry (mem s1) pd (a + PGSIZE + of_nat i * PGSIZE) = None" if "i \<le> n" for i
      unfolding 2(2) page_step_next using page_step_other [OF prems(2), of i] prems(3) that
        prems(5) [of "Suc i"] PGROUNDDOWN_id [OF page_step_aligned [OF prems(2)], of "Suc i"]
      by (simp only: if_False)
    with Suc.IH [OF s1(1) a', of "pa + PGSIZE"] prems(3,4) obtain r s2 xs2 where
      IH: "mappages_loop (Suc n) pd (a + PGSIZE) lst (pa + PGSIZE) perm s1 = Ok r s2"
      "vm_ok s2 pd xs2" "pt_frame pd s1 xs1 s2 xs2"
      "if r = 0 then mapped_range (pt_entry (mem s1) pd) (a + PGSIZE) n (pa + PGSIZE) perm
          (pt_entry (mem s2) pd) else r = - 1 \<and> xs2 = []"
      unfolding page_step_next by (auto simp del: mappages_loop.simps)
    have "mapped_range (pt_entry (mem s) pd) a (Suc n) pa perm (pt_entry (mem s2) pd)" if "r = 0"
      by (rule mapped_range_Suc [OF prems(2,3)]) (use that IH(4) 2(2) in simp)
    then show ?thesis
      using 2(1) IH pt_frame_trans [OF s1(2) IH(3)]
      by (intro exI [of _ r] exI [of _ s2] exI [of _ xs2]) (simp del: mappages_loop.simps)
  qed
qed

section \<open>Properties\<close>

text \<open>
  (C14) \<open>mappages\<close> maps exactly the pages of \<open>[va, va + len)\<close>: when none of them is mapped
  yet, the call never panics, never touches memory outside the page table and the free pages, keeps
  the page table well formed and apart from the free list, and either returns 0, with every
  page of the range mapped to the frame at the same distance from \<open>pa\<close> and every other address
  translated as before, or returns -1, and then the allocator has run out of pages.
\<close>

theorem mappages_correct:
  assumes "vm_ok s pd xs" and "a = PGROUNDDOWN va"
    and "n = unat (PGROUNDDOWN (va + len - 1) - a) div 4096"
    and "\<And>i. i \<le> n \<Longrightarrow> pt_entry (mem s) pd (a + of_nat i * PGSIZE) = None"
  shows "\<exists>r s' xs'. mappages pd va len pa perm s = Ok r s' \<and> vm_ok s' pd xs' \<and>
    pt_frame pd s xs s' xs' \<and>
    (if r = 0 then mapped_range (pt_entry (mem s) pd) a n pa perm (pt_entry (mem s') pd)
     else r = - 1 \<and> xs' = [])"
proof -
  let ?l = "PGROUNDDOWN (va + len - 1)"
  have a: "page_aligned a" "page_aligned ?l" using assms(2) by simp_all
  have "4096 dvd unat (?l - a)"
    using a by (intro dvd_unat_diff) (auto simp: page_aligned_dvd)
  then have "unat (?l - a) = n * 4096" using assms(3) by simp
  then have "of_nat (unat (?l - a)) = (of_nat (n * 4096) :: uint)" by (rule arg_cong)
  then have "?l - a = of_nat n * PGSIZE" by (simp add: PGSIZE_def)
  then have l: "?l = a + of_nat n * PGSIZE" by (simp add: algebra_simps)
  have n: "n < 2 ^ 20"
    unfolding assms(3) using unat_lt32 [of "?l - a"] by (simp add: less_mult_imp_div_less)
  from mappages_loop_ok [OF assms(1) a(1) n l assms(4), of pa perm] show ?thesis
    using assms(2,3) by (simp add: mappages_def Let_def del: mappages_loop.simps)
qed

lemma ex_vm_ok: "vm_ok ex_kmem 0x80403000 [0x80401000, 0x80402000]"
  and ex_vm_none: "pt_entry (mem ex_kmem) 0x80403000 va = None"
proof -
  have z: "load32 (\<lambda>_. 0) a = 0" for a by (simp add: load32_def le32_def)
  have tab: "pt_table (mem ex_kmem) 0x80403000 x = None" if "unat x < 1024" for x
    using that load_store_entry [where t = "0x80401000" and x = 0 and u = "0x80403000" and y = x and
        w = "0x80402000" and m = "\<lambda>_. 0"]
    by (simp add: pt_table_def ex_kmem_def page_aligned_def z pte_has_def)
  then show "vm_ok ex_kmem 0x80403000 [0x80401000, 0x80402000]"
    using ex_kmem_pages by (auto simp: vm_ok_def pt_wf_def pt_pages_def page_aligned_def)
  show "pt_entry (mem ex_kmem) 0x80403000 va = None"
    by (simp add: pt_entry_def pt_slot_def tab)
qed

theorem mappages_correct_witness:
  "\<exists>r s'. mappages 0x80403000 0x1234 1 0x5000 PTE_W ex_kmem = Ok r s' \<and>
     (r = 0 \<longrightarrow> pt_entry (mem s') 0x80403000 0x1000 = Some (new_pte 0x5000 PTE_W))"
  using mappages_correct [OF ex_vm_ok, where a = "0x1000" and va = "0x1234" and n = 0 and len = 1 and
      pa = "0x5000" and perm = PTE_W]
  by (auto simp: ex_vm_none PGROUNDDOWN_def PGSIZE_def mapped_range_def split: if_splits)

end
