(* ===== verification/Sleeplock.thy ===== *)
theory Sleeplock
  imports Proc_Base
begin

text \<open>
  \<open>sleeplock.c\<close>: locks held across calls that sleep. A sleep lock lives inside a buffer or an
  inode; the operations take it as the pair of functions \<open>get\<close>, \<open>put\<close> that read it from the
  kernel state and write it back, and the locale \<open>sleep_lock\<close> says what such a pair must satisfy.
\<close>

section \<open>Operations\<close>

record sleeplock =
  slocked :: bool
  spid :: int

definition initsleeplock :: "sleeplock \<Rightarrow> sleeplock" where
  "initsleeplock lk = lk\<lparr>slocked := False, spid := 0\<rparr>"

text \<open>
  The loop \<open>while(lk->locked) sleep(lk, &lk->lk)\<close>, entered with the inner spin lock held. When
  the lock is taken the caller goes to sleep, and \<open>acquiresleep_resume\<close> is the loop after it was
  woken.
\<close>

definition acquiresleep_loop :: "chan \<Rightarrow> ('a pstate_scheme \<Rightarrow> sleeplock) \<Rightarrow>
    (sleeplock \<Rightarrow> 'a pstate_scheme \<Rightarrow> 'a pstate_scheme) \<Rightarrow> 'a pstate_scheme \<Rightarrow>
    ('a pstate_scheme, unit) res" where
  "acquiresleep_loop ch get put s =
     (if slocked (get s) then sleep ch (Lsleep ch) s
      else bindR (myproc s) (\<lambda>p s.
        release_lk (Lsleep ch) (put ((get s)\<lparr>slocked := True, spid := pid (procs s p)\<rparr>) s)))"

definition acquiresleep :: "chan \<Rightarrow> ('a pstate_scheme \<Rightarrow> sleeplock) \<Rightarrow>
    (sleeplock \<Rightarrow> 'a pstate_scheme \<Rightarrow> 'a pstate_scheme) \<Rightarrow> 'a pstate_scheme \<Rightarrow>
    ('a pstate_scheme, unit) res" where
  "acquiresleep ch get put s =
     bindR (acquire_lk (Lsleep ch) s) (\<lambda>_ s. acquiresleep_loop ch get put s)"

definition acquiresleep_resume :: "chan \<Rightarrow> ('a pstate_scheme \<Rightarrow> sleeplock) \<Rightarrow>
    (sleeplock \<Rightarrow> 'a pstate_scheme \<Rightarrow> 'a pstate_scheme) \<Rightarrow> 'a pstate_scheme \<Rightarrow>
    ('a pstate_scheme, unit) res" where
  "acquiresleep_resume ch get put s =
     bindR (sleep_resume (Lsleep ch) s) (\<lambda>_ s. acquiresleep_loop ch get put s)"

definition releasesleep :: "chan \<Rightarrow> ('a pstate_scheme \<Rightarrow> sleeplock) \<Rightarrow>
    (sleeplock \<Rightarrow> 'a pstate_scheme \<Rightarrow> 'a pstate_scheme) \<Rightarrow> 'a pstate_scheme \<Rightarrow>
    ('a pstate_scheme, unit) res" where
  "releasesleep ch get put s =
     bindR (acquire_lk (Lsleep ch) s) (\<lambda>_ s.
     bindR (wakeup ch (put ((get s)\<lparr>slocked := False, spid := 0\<rparr>) s)) (\<lambda>_ s.
       release_lk (Lsleep ch) s))"

definition holdingsleep :: "chan \<Rightarrow> ('a pstate_scheme \<Rightarrow> sleeplock) \<Rightarrow> 'a pstate_scheme \<Rightarrow>
    ('a pstate_scheme, bool) res" where
  "holdingsleep ch get s =
     bindR (acquire_lk (Lsleep ch) s) (\<lambda>_ s.
     bindR (if slocked (get s)
            then bindR (myproc s) (\<lambda>p s. Ok (spid (get s) = pid (procs s p)) s)
            else Ok False s) (\<lambda>r s.
     bindR (release_lk (Lsleep ch) s) (\<lambda>_ s. Ok r s)))"

section \<open>A sleep lock in the state\<close>

locale sleep_lock =
  fixes ch :: chan
    and get :: "'a pstate_scheme \<Rightarrow> sleeplock"
    and put :: "sleeplock \<Rightarrow> 'a pstate_scheme \<Rightarrow> 'a pstate_scheme"
  assumes get_put [simp]: "get (put l s) = l"
    and put_put [simp]: "put l (put k s) = put l s"
    and put_get [simp]: "put (get s) s = s"
    and get_held [simp]: "get (s\<lparr>held := h\<rparr>) = get s"
    and get_procs [simp]: "get (s\<lparr>procs := f\<rparr>) = get s"
    and get_cur [simp]: "get (s\<lparr>cur := c\<rparr>) = get s"
    and put_held: "put l (s\<lparr>held := h\<rparr>) = (put l s)\<lparr>held := h\<rparr>"
    and held_put [simp]: "held (put l s) = held s"
    and procs_put [simp]: "procs (put l s) = procs s"
    and cur_put [simp]: "cur (put l s) = cur s"
begin

lemma get_wakeup1 [simp]: "get (wakeup1 c s) = get s"
  by (simp add: wakeup1_def)

lemma held_back: "s\<lparr>held := held s\<rparr> = s"
  by simp

lemma acquiresleep_free:
  assumes "\<not> slocked (get s)" "cur s = Some p" "Lsleep ch \<notin> set (held s)"
  shows "acquiresleep ch get put s = Ok () (put ((get s)\<lparr>slocked := True, spid := pid (procs s p)\<rparr>) s)"
  using assms by (simp add: acquiresleep_def acquiresleep_loop_def put_held)

lemma acquiresleep_taken:
  assumes "slocked (get s)" "Lsleep ch \<notin> set (held s)"
  shows "acquiresleep ch get put s = sleep ch (Lsleep ch) (s\<lparr>held := Lsleep ch # held s\<rparr>)"
  using assms by (simp add: acquiresleep_def acquiresleep_loop_def)

lemma holdingsleep_eq:
  assumes "cur s = Some p" "Lsleep ch \<notin> set (held s)"
  shows "holdingsleep ch get s = Ok (slocked (get s) \<and> spid (get s) = pid (procs s p)) s"
  using assms by (simp add: holdingsleep_def)

lemma releasesleep_eq:
  assumes "Lsleep ch \<notin> set (held s)" "Lptable \<notin> set (held s)"
  shows "releasesleep ch get put s =
    Ok () (wakeup1 ch (put ((get s)\<lparr>slocked := False, spid := 0\<rparr>) s))"
  using assms by (simp add: releasesleep_def put_held wakeup1_held)

text \<open>
  Mutual exclusion: while one process holds the lock another one goes to sleep without it, and is
  runnable again once the first has released it.
\<close>

lemma hand_over:
  assumes p: "cur s = Some p" "held s = []" and free: "\<not> slocked (get s)"
    and q: "q < NPROC" "pid (procs s q) \<noteq> pid (procs s p)"
  shows "\<exists>s1 s3 s5. acquiresleep ch get put s = Ok () s1 \<and> holdingsleep ch get s1 = Ok True s1 \<and>
    holdingsleep ch get (s1\<lparr>cur := Some q\<rparr>) = Ok False (s1\<lparr>cur := Some q\<rparr>) \<and>
    acquiresleep ch get put (s1\<lparr>cur := Some q\<rparr>) = (Swtch s3 :: (_, unit) res) \<and> get s3 = get s1 \<and>
    releasesleep ch get put (s3\<lparr>cur := Some p, held := []\<rparr>) = Ok () s5 \<and> \<not> slocked (get s5) \<and>
    state (procs s5 q) = RUNNABLE"
proof -
  let ?s1 = "put ((get s)\<lparr>slocked := True, spid := pid (procs s p)\<rparr>) s"
  let ?s2 = "?s1\<lparr>cur := Some q\<rparr>"
  let ?s3 = "upd_proc q (\<lambda>r. r\<lparr>chan := Some ch, state := SLEEPING, ctx := AfterSched\<rparr>)
      (?s2\<lparr>held := [Lptable]\<rparr>)"
  have "acquiresleep ch get put s = Ok () ?s1"
    using assms by (simp add: acquiresleep_free)
  moreover have "holdingsleep ch get ?s1 = Ok True ?s1"
    using p by (simp add: holdingsleep_eq)
  moreover have "holdingsleep ch get ?s2 = Ok False ?s2"
    using p q by (subst holdingsleep_eq [where p = q]) auto
  moreover have "acquiresleep ch get put ?s2 = (Swtch ?s3 :: (_, unit) res)"
    using p by (subst acquiresleep_taken) (auto simp: sleep_Swtch [where p = q])
  moreover have "get ?s3 = get ?s1" by (simp add: upd_proc_def)
  moreover have "\<exists>s5. releasesleep ch get put (?s3\<lparr>cur := Some p, held := []\<rparr>) = Ok () s5 \<and>
      \<not> slocked (get s5) \<and> state (procs s5 q) = RUNNABLE"
    using q(1) by (subst releasesleep_eq) (auto simp: procs_wakeup1 state_wake)
  ultimately show ?thesis by blast
qed

end

end
