(* ===== verification/Bio.thy ===== *)
theory Bio
  imports Pgtable Sleeplock
begin

text \<open>
  The buffer cache \<open>bio.c\<close> on the in-memory disk of \<open>memide.c\<close>: 30 buffers on a list in the
  order of their last use, each with a sleep lock, and a disk of blocks of 512 bytes. A disk request
  is served at once, as \<open>memide.c\<close> does; \<open>Ide\<close> treats the interrupt-driven driver. The state
  also records every block written to the disk, in order (\<open>dwrites\<close>), which no operation reads.
\<close>

section \<open>State\<close>

definition NBUF :: nat where "NBUF = 30"
definition BSIZE :: nat where "BSIZE = 512"

record buf =
  B_VALID :: bool
  B_DIRTY :: bool
  bdev :: uint
  bblockno :: uint
  blk :: sleeplock
  refcnt :: uint
  data :: "uchar list"

record bstate = vmstate +
  bufs :: "nat \<Rightarrow> buf"
  blist :: "nat list"
  disk :: "uint \<Rightarrow> uchar list"
  disksize :: uint
  dwrites :: "(uint \<times> uchar list) list"

definition upd_buf :: "nat \<Rightarrow> (buf \<Rightarrow> buf) \<Rightarrow> 'a bstate_scheme \<Rightarrow> 'a bstate_scheme" where
  "upd_buf b f s = s\<lparr>bufs := (bufs s)(b := f (bufs s b))\<rparr>"

definition blk_get :: "nat \<Rightarrow> 'a bstate_scheme \<Rightarrow> sleeplock" where
  "blk_get b s = blk (bufs s b)"

definition blk_put :: "nat \<Rightarrow> sleeplock \<Rightarrow> 'a bstate_scheme \<Rightarrow> 'a bstate_scheme" where
  "blk_put b l s = upd_buf b (\<lambda>u. u\<lparr>blk := l\<rparr>) s"

section \<open>The disk (memide.c)\<close>

definition ideinit_mem :: "(uint \<Rightarrow> uchar list) \<Rightarrow> uint \<Rightarrow> 'a bstate_scheme \<Rightarrow> 'a bstate_scheme" where
  "ideinit_mem img img_size s = s\<lparr>disk := img, disksize := img_size div of_nat BSIZE\<rparr>"

definition iderw :: "nat \<Rightarrow> 'a bstate_scheme \<Rightarrow> ('a bstate_scheme, unit) res" where
  "iderw b s =
     bindR (holdingsleep (ChBufLock b) (blk_get b) s) (\<lambda>h s.
       if \<not> h then Panic ''iderw: buf not locked''
       else if B_VALID (bufs s b) \<and> \<not> B_DIRTY (bufs s b) then Panic ''iderw: nothing to do''
       else if bdev (bufs s b) \<noteq> 1 then Panic ''iderw: request not for disk 1''
       else if disksize s \<le> bblockno (bufs s b) then Panic ''iderw: block out of range''
       else let p = bblockno (bufs s b);
                s = (if B_DIRTY (bufs s b)
                     then (upd_buf b (\<lambda>u. u\<lparr>B_DIRTY := False\<rparr>) s)
                            \<lparr>disk := (disk s)(p := data (bufs s b)),
                             dwrites := dwrites s @ [(p, data (bufs s b))]\<rparr>
                     else upd_buf b (\<lambda>u. u\<lparr>data := disk s p\<rparr>) s)
            in Ok () (upd_buf b (\<lambda>u. u\<lparr>B_VALID := True\<rparr>) s))"

section \<open>The cache (bio.c)\<close>

text \<open>\<open>blist\<close> is the list from \<open>head.next\<close>, the most recently used buffer, on.\<close>

definition binit :: "'a bstate_scheme \<Rightarrow> 'a bstate_scheme" where
  "binit s =
     fold (\<lambda>b s. (upd_buf b (\<lambda>u. u\<lparr>blk := initsleeplock (blk u)\<rparr>) s)\<lparr>blist := b # blist s\<rparr>)
       [0..<NBUF] (s\<lparr>blist := []\<rparr>)"

definition bget :: "uint \<Rightarrow> uint \<Rightarrow> 'a bstate_scheme \<Rightarrow> ('a bstate_scheme, nat) res" where
  "bget dev blockno s =
     bindR (acquire_lk Lbcache s) (\<lambda>_ s.
       case find (\<lambda>b. bdev (bufs s b) = dev \<and> bblockno (bufs s b) = blockno) (blist s) of
         Some b \<Rightarrow>
           bindR (release_lk Lbcache (upd_buf b (\<lambda>u. u\<lparr>refcnt := refcnt u + 1\<rparr>) s)) (\<lambda>_ s.
           bindR (acquiresleep (ChBufLock b) (blk_get b) (blk_put b) s) (\<lambda>_ s. Ok b s))
       | None \<Rightarrow>
           (case find (\<lambda>b. refcnt (bufs s b) = 0 \<and> \<not> B_DIRTY (bufs s b)) (rev (blist s)) of
              Some b \<Rightarrow>
                bindR (release_lk Lbcache (upd_buf b (\<lambda>u. u\<lparr>bdev := dev, bblockno := blockno,
                         B_VALID := False, B_DIRTY := False, refcnt := 1\<rparr>) s)) (\<lambda>_ s.
                bindR (acquiresleep (ChBufLock b) (blk_get b) (blk_put b) s) (\<lambda>_ s. Ok b s))
            | None \<Rightarrow> Panic ''bget: no buffers''))"

definition bread :: "uint \<Rightarrow> uint \<Rightarrow> 'a bstate_scheme \<Rightarrow> ('a bstate_scheme, nat) res" where
  "bread dev blockno s =
     bindR (bget dev blockno s) (\<lambda>b s.
       if \<not> B_VALID (bufs s b) then bindR (iderw b s) (\<lambda>_ s. Ok b s) else Ok b s)"

definition bwrite :: "nat \<Rightarrow> 'a bstate_scheme \<Rightarrow> ('a bstate_scheme, unit) res" where
  "bwrite b s =
     bindR (holdingsleep (ChBufLock b) (blk_get b) s) (\<lambda>h s.
       if \<not> h then Panic ''bwrite''
       else iderw b (upd_buf b (\<lambda>u. u\<lparr>B_DIRTY := True\<rparr>) s))"

definition brelse :: "nat \<Rightarrow> 'a bstate_scheme \<Rightarrow> ('a bstate_scheme, unit) res" where
  "brelse b s =
     bindR (holdingsleep (ChBufLock b) (blk_get b) s) (\<lambda>h s.
       if \<not> h then Panic ''brelse''
       else bindR (releasesleep (ChBufLock b) (blk_get b) (blk_put b) s) (\<lambda>_ s.
            bindR (acquire_lk Lbcache s) (\<lambda>_ s.
              let s = upd_buf b (\<lambda>u. u\<lparr>refcnt := refcnt u - 1\<rparr>) s;
                  s = (if refcnt (bufs s b) = 0 then s\<lparr>blist := b # remove1 b (blist s)\<rparr> else s)
              in release_lk Lbcache s)))"

section \<open>The locks of the buffers\<close>

interpretation bl: sleep_lock "ChBufLock b" "blk_get b" "blk_put b"
  by unfold_locales (simp_all add: blk_get_def blk_put_def upd_buf_def)

lemma upd_buf_sel [simp]:
  "bufs (upd_buf b f s) = (bufs s)(b := f (bufs s b))"
  "blist (upd_buf b f s) = blist s" "disk (upd_buf b f s) = disk s"
  "disksize (upd_buf b f s) = disksize s" "dwrites (upd_buf b f s) = dwrites s"
  "held (upd_buf b f s) = held s" "cur (upd_buf b f s) = cur s" "procs (upd_buf b f s) = procs s"
  by (simp_all add: upd_buf_def)

lemma wakeup1_bsel [simp]:
  "bufs (wakeup1 ch s) = bufs s" "blist (wakeup1 ch s) = blist s" "disk (wakeup1 ch s) = disk s"
  "disksize (wakeup1 ch s) = disksize s" "dwrites (wakeup1 ch s) = dwrites s"
  by (simp_all add: wakeup1_def)

section \<open>What the cache stands for\<close>

text \<open>
  The content of a block: that of the buffer that caches it, or else what is on the disk. \<open>bc_ok\<close>
  is the invariant between the operations of one process: only it holds buffers, each once. A
  buffer it has released without marking it dirty agrees with the disk, so it can be recycled.
\<close>

definition cached :: "'a bstate_scheme \<Rightarrow> uint \<Rightarrow> nat option" where
  "cached s bn = find (\<lambda>b. bdev (bufs s b) = 1 \<and> bblockno (bufs s b) = bn) [0..<NBUF]"

definition bview :: "'a bstate_scheme \<Rightarrow> uint \<Rightarrow> uchar list" where
  "bview s bn =
     (case cached s bn of
        Some b \<Rightarrow> data (bufs s b)
      | None \<Rightarrow> disk s bn)"

definition in_use :: "'a bstate_scheme \<Rightarrow> nat \<Rightarrow> bool" where
  "in_use s b \<longleftrightarrow> slocked (blk (bufs s b))"

definition buf_ok :: "'a bstate_scheme \<Rightarrow> nat \<Rightarrow> bool" where
  "buf_ok s b \<longleftrightarrow>
     (let u = bufs s b in
      length (data u) = BSIZE \<and>
      (B_VALID u \<longleftrightarrow> bdev u = 1) \<and> (B_DIRTY u \<longrightarrow> B_VALID u) \<and>
      (if slocked (blk u)
       then refcnt u = 1 \<and> B_VALID u \<and>
         (\<exists>p. cur s = Some p \<and> spid (blk u) = pid (procs s p)) \<and> bblockno u < disksize s
       else refcnt u = 0 \<and> (B_VALID u \<longrightarrow> \<not> B_DIRTY u \<longrightarrow> data u = disk s (bblockno u))))"

definition bc_ok :: "'a bstate_scheme \<Rightarrow> bool" where
  "bc_ok s \<longleftrightarrow>
     distinct (blist s) \<and> set (blist s) = {..<NBUF} \<and>
     (\<forall>i < NBUF. \<forall>j < NBUF. bdev (bufs s i) = 1 \<longrightarrow> bdev (bufs s j) = 1 \<longrightarrow>
        bblockno (bufs s i) = bblockno (bufs s j) \<longrightarrow> i = j) \<and>
     (\<forall>b < NBUF. buf_ok s b) \<and> (\<forall>bn. length (disk s bn) = BSIZE) \<and>
     held s = [] \<and> cur s \<noteq> None"

lemma bc_okD:
  assumes "bc_ok s"
  shows "distinct (blist s)" "set (blist s) = {..<NBUF}" "b < NBUF \<Longrightarrow> buf_ok s b"
    "length (disk s bn) = BSIZE" "held s = []" "\<exists>p. cur s = Some p"
    and "i < NBUF \<Longrightarrow> j < NBUF \<Longrightarrow> bdev (bufs s i) = 1 \<Longrightarrow> bdev (bufs s j) = 1 \<Longrightarrow>
      bblockno (bufs s i) = bblockno (bufs s j) \<Longrightarrow> i = j"
  using assms unfolding bc_ok_def by blast+

lemma cached_iff:
  assumes "bc_ok s"
  shows "cached s bn = Some b \<longleftrightarrow> b < NBUF \<and> bdev (bufs s b) = 1 \<and> bblockno (bufs s b) = bn"
proof
  assume "cached s bn = Some b"
  then show "b < NBUF \<and> bdev (bufs s b) = 1 \<and> bblockno (bufs s b) = bn"
    by (auto simp: cached_def find_Some_iff)
next
  assume b: "b < NBUF \<and> bdev (bufs s b) = 1 \<and> bblockno (bufs s b) = bn"
  then obtain c where c: "cached s bn = Some c"
    by (cases "cached s bn") (auto simp: cached_def find_None_iff)
  then have "c < NBUF \<and> bdev (bufs s c) = 1 \<and> bblockno (bufs s c) = bn"
    by (auto simp: cached_def find_Some_iff)
  with b bc_okD(7) [OF assms] have "c = b" by blast
  with c show "cached s bn = Some b" by simp
qed

lemma cached_None_iff:
  "cached s bn = None \<longleftrightarrow> (\<forall>b < NBUF. \<not> (bdev (bufs s b) = 1 \<and> bblockno (bufs s b) = bn))"
  by (auto simp: cached_def find_None_iff)

lemma find_blist:
  assumes "bc_ok s"
  shows "find (\<lambda>b. bdev (bufs s b) = 1 \<and> bblockno (bufs s b) = bn) (blist s) = cached s bn"
proof (cases "cached s bn")
  case None
  then have "find (\<lambda>b. bdev (bufs s b) = 1 \<and> bblockno (bufs s b) = bn) (blist s) = None"
    using bc_okD(2) [OF assms] by (auto simp: cached_None_iff find_None_iff)
  with None show ?thesis by simp
next
  case (Some b)
  then have b: "b < NBUF" "bdev (bufs s b) = 1" "bblockno (bufs s b) = bn"
    using cached_iff [OF assms] by auto
  have "find (\<lambda>b. bdev (bufs s b) = 1 \<and> bblockno (bufs s b) = bn) (blist s) \<noteq> None"
    using b bc_okD(2) [OF assms] by (auto simp: find_None_iff)
  then obtain c where c: "find (\<lambda>b. bdev (bufs s b) = 1 \<and> bblockno (bufs s b) = bn) (blist s) = Some c"
    by blast
  then have "c \<in> set (blist s) \<and> bdev (bufs s c) = 1 \<and> bblockno (bufs s c) = bn"
    by (rule find_SomeD)
  then have "c = b" using b bc_okD(2) [OF assms] bc_okD(7) [OF assms, of c b] by auto
  with c Some show ?thesis by simp
qed

text \<open>Room for one more block: it is cached already or some buffer can be recycled.\<close>

definition bc_room :: "'a bstate_scheme \<Rightarrow> uint \<Rightarrow> bool" where
  "bc_room s bn \<longleftrightarrow>
     (case cached s bn of Some b \<Rightarrow> \<not> in_use s b
      | None \<Rightarrow> \<exists>b < NBUF. \<not> in_use s b \<and> \<not> B_DIRTY (bufs s b))"

definition lock_buf :: "int \<Rightarrow> buf \<Rightarrow> buf" where
  "lock_buf p u = u\<lparr>refcnt := 1, blk := (blk u)\<lparr>slocked := True, spid := p\<rparr>\<rparr>"

lemma lock_buf_sel [simp]:
  "B_VALID (lock_buf p u) = B_VALID u" "B_DIRTY (lock_buf p u) = B_DIRTY u"
  "bdev (lock_buf p u) = bdev u" "bblockno (lock_buf p u) = bblockno u"
  "refcnt (lock_buf p u) = 1" "data (lock_buf p u) = data u"
  "slocked (blk (lock_buf p u))" "spid (blk (lock_buf p u)) = p"
  by (simp_all add: lock_buf_def)

lemma bget_cached:
  assumes ok: "bc_ok s" and b: "cached s bn = Some b" "\<not> in_use s b" and p: "cur s = Some p"
  shows "bget 1 bn s = Ok b (upd_buf b (lock_buf (pid (procs s p))) s)"
proof -
  have "b < NBUF" using b(1) cached_iff [OF ok] by simp
  then have r: "refcnt (bufs s b) = 0" using bc_okD(3) [OF ok] b(2) by (auto simp: buf_ok_def in_use_def Let_def)
  have h: "held s = []" by (rule bc_okD(5) [OF ok])
  let ?s = "upd_buf b (\<lambda>u. u\<lparr>refcnt := refcnt u + 1\<rparr>) s"
  have "acquiresleep (ChBufLock b) (blk_get b) (blk_put b) ?s =
      Ok () (blk_put b ((blk_get b ?s)\<lparr>slocked := True, spid := pid (procs ?s p)\<rparr>) ?s)"
    using b(2) p h by (intro bl.acquiresleep_free) (auto simp: blk_get_def in_use_def)
  moreover have "blk_put b ((blk_get b ?s)\<lparr>slocked := True, spid := pid (procs ?s p)\<rparr>) ?s =
      upd_buf b (lock_buf (pid (procs s p))) s"
    using r by (simp add: blk_put_def blk_get_def upd_buf_def lock_buf_def)
  moreover have "(upd_buf b (\<lambda>u. u\<lparr>refcnt := refcnt u + 1\<rparr>) (s\<lparr>held := [Lbcache]\<rparr>))\<lparr>held := []\<rparr> = ?s"
    using h by (simp add: upd_buf_def)
  ultimately show ?thesis
    using h b(1) find_blist [OF ok, of bn] by (simp add: bget_def)
qed

lemma bget_new:
  assumes ok: "bc_ok s" and none: "cached s bn = None" and p: "cur s = Some p"
    and free: "b < NBUF" "\<not> in_use s b" "\<not> B_DIRTY (bufs s b)"
  shows "\<exists>b < NBUF. \<not> in_use s b \<and> \<not> B_DIRTY (bufs s b) \<and> bget 1 bn s = Ok b (upd_buf b (\<lambda>u.
    lock_buf (pid (procs s p)) (u\<lparr>bdev := 1, bblockno := bn, B_VALID := False, B_DIRTY := False\<rparr>)) s)"
proof -
  have h: "held s = []" by (rule bc_okD(5) [OF ok])
  have idle: "refcnt (bufs s b) = 0 \<longleftrightarrow> \<not> in_use s b" if "b < NBUF" for b
    using bc_okD(3) [OF ok that] by (auto simp: buf_ok_def in_use_def Let_def split: if_splits)
  have "find (\<lambda>b. refcnt (bufs s b) = 0 \<and> \<not> B_DIRTY (bufs s b)) (rev (blist s)) \<noteq> None"
    using free idle bc_okD(2) [OF ok] by (auto simp: find_None_iff)
  then obtain c where c: "find (\<lambda>b. refcnt (bufs s b) = 0 \<and> \<not> B_DIRTY (bufs s b)) (rev (blist s)) = Some c"
    by blast
  then have cc: "c < NBUF" "\<not> in_use s c" "\<not> B_DIRTY (bufs s c)"
    using find_SomeD [OF c] idle bc_okD(2) [OF ok] by auto
  let ?s = "upd_buf c (\<lambda>u. u\<lparr>bdev := 1, bblockno := bn, B_VALID := False, B_DIRTY := False, refcnt := 1\<rparr>) s"
  have "acquiresleep (ChBufLock c) (blk_get c) (blk_put c) ?s =
      Ok () (blk_put c ((blk_get c ?s)\<lparr>slocked := True, spid := pid (procs ?s p)\<rparr>) ?s)"
    using cc(2) p h by (intro bl.acquiresleep_free) (auto simp: blk_get_def in_use_def)
  moreover have "blk_put c ((blk_get c ?s)\<lparr>slocked := True, spid := pid (procs ?s p)\<rparr>) ?s =
      upd_buf c (\<lambda>u. lock_buf (pid (procs s p))
        (u\<lparr>bdev := 1, bblockno := bn, B_VALID := False, B_DIRTY := False\<rparr>)) s"
    by (simp add: blk_put_def blk_get_def upd_buf_def lock_buf_def)
  moreover have "(upd_buf c (\<lambda>u. u\<lparr>bdev := 1, bblockno := bn, B_VALID := False, B_DIRTY := False,
      refcnt := 1\<rparr>) (s\<lparr>held := [Lbcache]\<rparr>))\<lparr>held := []\<rparr> = ?s"
    using h by (simp add: upd_buf_def)
  ultimately have "bget 1 bn s = Ok c (upd_buf c (\<lambda>u. lock_buf (pid (procs s p))
        (u\<lparr>bdev := 1, bblockno := bn, B_VALID := False, B_DIRTY := False\<rparr>)) s)"
    using h none find_blist [OF ok, of bn] c by (simp add: bget_def)
  with cc show ?thesis by blast
qed

section \<open>Replacing one buffer\<close>

lemma buf_ok_other: "i \<noteq> b \<Longrightarrow> buf_ok (upd_buf b f s) i = buf_ok s i"
  by (simp add: buf_ok_def Let_def)

lemma bc_ok_upd:
  assumes "bc_ok s" "b < NBUF" "buf_ok (upd_buf b f s) b"
    and "\<And>i. i < NBUF \<Longrightarrow> i \<noteq> b \<Longrightarrow> bdev (f (bufs s b)) = 1 \<Longrightarrow> bdev (bufs s i) = 1 \<Longrightarrow>
      bblockno (bufs s i) \<noteq> bblockno (f (bufs s b))"
  shows "bc_ok (upd_buf b f s)"
proof -
  have "i = j" if "i < NBUF" "j < NBUF" "bdev (bufs (upd_buf b f s) i) = 1"
    "bdev (bufs (upd_buf b f s) j) = 1"
    "bblockno (bufs (upd_buf b f s) i) = bblockno (bufs (upd_buf b f s) j)" for i j
    using that assms(4) [of i] assms(4) [of j] bc_okD(7) [OF assms(1), of i j]
    by (cases "i = b"; cases "j = b") auto
  moreover have "buf_ok (upd_buf b f s) i" if "i < NBUF" for i
    using that assms(3) bc_okD(3) [OF assms(1)] buf_ok_other [of i b f s] by (cases "i = b") auto
  ultimately show ?thesis using bc_okD(1,2,4,5,6) [OF assms(1)] unfolding bc_ok_def by simp
qed

lemma cached_upd_same:
  assumes "bdev (f (bufs s b)) = bdev (bufs s b)" "bblockno (f (bufs s b)) = bblockno (bufs s b)"
  shows "cached (upd_buf b f s) bn = cached s bn"
proof -
  have "(\<lambda>i. bdev (bufs (upd_buf b f s) i) = 1 \<and> bblockno (bufs (upd_buf b f s) i) = bn) =
      (\<lambda>i. bdev (bufs s i) = 1 \<and> bblockno (bufs s i) = bn)"
    using assms by auto
  then show ?thesis by (simp only: cached_def)
qed

lemma bview_upd_same:
  assumes "bdev (f (bufs s b)) = bdev (bufs s b)" "bblockno (f (bufs s b)) = bblockno (bufs s b)"
  shows "bview (upd_buf b f s) bn = (if cached s bn = Some b then data (f (bufs s b)) else bview s bn)"
  using cached_upd_same [of f s b bn, OF assms] by (auto simp: bview_def split: option.splits)

lemma bview_cached: "cached s bn = Some b \<Longrightarrow> bview s bn = data (bufs s b)"
  by (simp add: bview_def)

text \<open>A clean buffer not in use can be given to another block: what it cached is on the disk.\<close>

lemma bview_recycle:
  assumes ok: "bc_ok s" and b: "b < NBUF" "\<not> in_use s b" "\<not> B_DIRTY (bufs s b)"
    and none: "cached s bn = None" and f: "bdev (f (bufs s b)) = 1" "bblockno (f (bufs s b)) = bn"
    "data (f (bufs s b)) = disk s bn" and ok': "bc_ok (upd_buf b f s)"
  shows "bview (upd_buf b f s) = bview s" "cached (upd_buf b f s) bn = Some b"
proof -
  show c: "cached (upd_buf b f s) bn = Some b" using f b by (simp add: cached_iff [OF ok'])
  show "bview (upd_buf b f s) = bview s"
  proof
    fix k
    show "bview (upd_buf b f s) k = bview s k"
    proof (cases "k = bn")
      case True
      with c f none show ?thesis by (simp add: bview_def)
    next
      case False
      then have same: "cached (upd_buf b f s) k = Some i \<longleftrightarrow> cached s k = Some i \<and> i \<noteq> b" for i
        using f by (auto simp: cached_iff [OF ok'] cached_iff [OF ok])
      show ?thesis
      proof (cases "cached s k")
        case None
        then have "cached (upd_buf b f s) k \<noteq> Some j" for j using same [of j] by simp
        then have "cached (upd_buf b f s) k = None" by (metis not_Some_eq)
        with None show ?thesis by (simp add: bview_def)
      next
        case (Some i)
        show ?thesis
        proof (cases "i = b")
          case True
          then have "cached (upd_buf b f s) k \<noteq> Some j" for j using same [of j] Some by simp
          then have "cached (upd_buf b f s) k = None" by (metis not_Some_eq)
          moreover have "data (bufs s b) = disk s k"
            using Some True b bc_okD(3) [OF ok, of b] cached_iff [OF ok, of k b]
            by (auto simp: buf_ok_def in_use_def Let_def)
          ultimately show ?thesis using Some True by (simp add: bview_def)
        next
          case False
          then have "cached (upd_buf b f s) k = Some i" using same Some by simp
          with Some False show ?thesis by (simp add: bview_def)
        qed
      qed
    qed
  qed
qed

section \<open>bread\<close>

definition bread_post :: "'a bstate_scheme \<Rightarrow> uint \<Rightarrow> nat \<Rightarrow> 'a bstate_scheme \<Rightarrow> bool" where
  "bread_post s bn b s' \<longleftrightarrow>
     b < NBUF \<and> \<not> in_use s b \<and> in_use s' b \<and> cached s' bn = Some b \<and> bc_ok s' \<and>
     bview s' = bview s \<and> data (bufs s' b) = bview s bn \<and>
     B_DIRTY (bufs s' b) = (cached s bn = Some b \<and> B_DIRTY (bufs s b)) \<and>
     (B_DIRTY (bufs s b) \<longrightarrow> cached s bn = Some b) \<and>
     s' = s\<lparr>bufs := (bufs s)(b := bufs s' b)\<rparr>"

lemma bread_ok:
  assumes ok: "bc_ok s" and room: "bc_room s bn" and bn: "bn < disksize s"
  shows "\<exists>b s'. bread 1 bn s = Ok b s' \<and> bread_post s bn b s'"
proof -
  obtain p where p: "cur s = Some p" using bc_okD(6) [OF ok] by blast
  show ?thesis
  proof (cases "cached s bn")
    case (Some b)
    then have b: "b < NBUF" "\<not> in_use s b" "bdev (bufs s b) = 1" "bblockno (bufs s b) = bn"
      using room cached_iff [OF ok, of bn b] by (simp_all add: bc_room_def)
    have v: "B_VALID (bufs s b)" "length (data (bufs s b)) = BSIZE"
      using bc_okD(3) [OF ok b(1)] b(3) by (simp_all add: buf_ok_def Let_def)
    let ?f = "lock_buf (pid (procs s p))"
    have ok': "bc_ok (upd_buf b ?f s)"
    proof (rule bc_ok_upd [OF ok b(1)])
      show "buf_ok (upd_buf b ?f s) b" using v p bn b by (simp add: buf_ok_def Let_def)
      show "bblockno (bufs s i) \<noteq> bblockno (?f (bufs s b))"
        if "i < NBUF" "i \<noteq> b" "bdev (bufs s i) = 1" for i
        using bc_okD(7) [OF ok that(1) b(1) that(3) b(3)] that(2) by auto
    qed
    have "bview (upd_buf b ?f s) = bview s"
      using Some by (intro ext) (simp add: bview_upd_same bview_cached)
    moreover have "bread 1 bn s = Ok b (upd_buf b ?f s)"
      using bget_cached [OF ok Some b(2) p] v by (simp add: bread_def)
    ultimately have "bread_post s bn b (upd_buf b ?f s)"
      using Some ok' b by (simp add: bread_post_def in_use_def cached_upd_same bview_cached) (simp add: upd_buf_def)
    with \<open>bread 1 bn s = _\<close> show ?thesis by blast
  next
    case None
    then obtain c where "c < NBUF" "\<not> in_use s c" "\<not> B_DIRTY (bufs s c)"
      using room by (auto simp: bc_room_def)
    from bget_new [OF ok None p this] obtain b where b: "b < NBUF" "\<not> in_use s b" "\<not> B_DIRTY (bufs s b)"
      and g: "bget 1 bn s = Ok b (upd_buf b (\<lambda>u.
        lock_buf (pid (procs s p)) (u\<lparr>bdev := 1, bblockno := bn, B_VALID := False, B_DIRTY := False\<rparr>)) s)"
      by blast
    let ?f = "\<lambda>u. lock_buf (pid (procs s p)) (u\<lparr>bdev := 1, bblockno := bn, B_VALID := True,
      B_DIRTY := False, data := disk s bn\<rparr>)"
    have h: "held s = []" by (rule bc_okD(5) [OF ok])
    have "bread 1 bn s = Ok b (upd_buf b (\<lambda>u. (lock_buf (pid (procs s p)) (u\<lparr>bdev := 1, bblockno := bn,
        B_VALID := False, B_DIRTY := False\<rparr>))\<lparr>data := disk s bn, B_VALID := True\<rparr>) s)"
      using p h bn by (simp add: bread_def g iderw_def bl.holdingsleep_eq [where p = p] blk_get_def
          Let_def not_le) (simp add: upd_buf_def)
    moreover have "(lock_buf q (u\<lparr>bdev := 1, bblockno := bn, B_VALID := False, B_DIRTY := False\<rparr>))
        \<lparr>data := disk s bn, B_VALID := True\<rparr> = lock_buf q (u\<lparr>bdev := 1, bblockno := bn,
        B_VALID := True, B_DIRTY := False, data := disk s bn\<rparr>)" for q u
      by (cases u) (simp add: lock_buf_def)
    ultimately have io: "bread 1 bn s = Ok b (upd_buf b ?f s)" by simp
    have ok': "bc_ok (upd_buf b ?f s)"
      using ok b p bn bc_okD(4) [OF ok] None
      by (intro bc_ok_upd) (auto simp: buf_ok_def Let_def cached_None_iff)
    have "bview (upd_buf b ?f s) = bview s" "cached (upd_buf b ?f s) bn = Some b"
      using bview_recycle [OF ok b None _ _ _ ok'] by simp_all
    then have "bread_post s bn b (upd_buf b ?f s)"
      using None ok' b by (simp add: bread_post_def in_use_def) (simp add: upd_buf_def bview_def)
    with io show ?thesis by blast
  qed
qed

section \<open>Changing, writing and releasing a buffer\<close>

lemma in_useD:
  assumes "bc_ok s" "b < NBUF" "in_use s b"
  shows "B_VALID (bufs s b)" "bdev (bufs s b) = 1" "refcnt (bufs s b) = 1"
    "cached s (bblockno (bufs s b)) = Some b" "length (data (bufs s b)) = BSIZE"
    "bblockno (bufs s b) < disksize s"
    "\<exists>p. cur s = Some p \<and> spid (blk (bufs s b)) = pid (procs s p)"
  using bc_okD(3) [OF assms(1,2)] assms cached_iff [OF assms(1)]
  by (auto simp: buf_ok_def in_use_def Let_def)

lemma change_ok:
  assumes ok: "bc_ok s" and b: "b < NBUF" "in_use s b"
    and f: "f (bufs s b) = (bufs s b)\<lparr>data := d, B_DIRTY := c\<rparr>" "length d = BSIZE"
  shows "bc_ok (upd_buf b f s)" and "bview (upd_buf b f s) = (bview s)(bblockno (bufs s b) := d)"
    and "in_use (upd_buf b f s) i = in_use s i" and "cached (upd_buf b f s) bn = cached s bn"
proof -
  note D = in_useD [OF ok b]
  show "bc_ok (upd_buf b f s)"
  proof (rule bc_ok_upd [OF ok b(1)])
    show "buf_ok (upd_buf b f s) b" using D f b by (auto simp: buf_ok_def in_use_def Let_def)
    show "bblockno (bufs s i) \<noteq> bblockno (f (bufs s b))"
      if "i < NBUF" "i \<noteq> b" "bdev (bufs s i) = 1" for i
      using bc_okD(7) [OF ok that(1) b(1) that(3) D(2)] that(2) f by auto
  qed
  show "bview (upd_buf b f s) = (bview s)(bblockno (bufs s b) := d)"
  proof
    fix k
    have "cached s k = Some b \<longleftrightarrow> k = bblockno (bufs s b)" using cached_iff [OF ok] b(1) D(2) by auto
    then show "bview (upd_buf b f s) k = ((bview s)(bblockno (bufs s b) := d)) k"
      using f by (simp add: bview_upd_same)
  qed
  show "in_use (upd_buf b f s) i = in_use s i" using f by (simp add: in_use_def)
  show "cached (upd_buf b f s) bn = cached s bn" using f by (simp add: cached_upd_same)
qed

lemma bwrite_ok:
  assumes ok: "bc_ok s" and b: "b < NBUF" "in_use s b"
    and s': "s' = (upd_buf b (\<lambda>u. u\<lparr>B_DIRTY := False\<rparr>) s)
      \<lparr>disk := (disk s)(bblockno (bufs s b) := data (bufs s b)),
       dwrites := dwrites s @ [(bblockno (bufs s b), data (bufs s b))]\<rparr>"
  shows "bwrite b s = Ok () s'" and "bc_ok s'" and "bview s' = bview s"
    and "in_use s' i = in_use s i" and "cached s' bn = cached s bn"
proof -
  note D = in_useD [OF ok b]
  obtain p where p: "cur s = Some p" "spid (blk (bufs s b)) = pid (procs s p)" using D(7) by blast
  have h: "held s = []" by (rule bc_okD(5) [OF ok])
  have v: "u\<lparr>B_DIRTY := False, B_VALID := True\<rparr> = u\<lparr>B_DIRTY := False\<rparr>" if "B_VALID u" for u :: buf
    using that by (cases u) simp
  show "bwrite b s = Ok () s'"
    using p h b D by (simp add: s' bwrite_def iderw_def bl.holdingsleep_eq [where p = p] blk_get_def
        in_use_def Let_def not_le) (simp add: upd_buf_def v)
  have same: "bdev (bufs s' i) = bdev (bufs s i)" "bblockno (bufs s' i) = bblockno (bufs s i)"
    "data (bufs s' i) = data (bufs s i)" "blk (bufs s' i) = blk (bufs s i)" for i
    by (simp_all add: s')
  show c: "cached s' bn = cached s bn" for bn
    unfolding cached_def same ..
  show use: "in_use s' i = in_use s i" for i by (simp add: in_use_def same)
  have other: "bblockno (bufs s i) \<noteq> bblockno (bufs s b)" if "i < NBUF" "i \<noteq> b" "bdev (bufs s i) = 1" for i
    using bc_okD(7) [OF ok that(1) b(1) that(3) D(2)] that(2) by auto
  have "buf_ok s' i" if i: "i < NBUF" for i
  proof (cases "i = b")
    case True
    then show ?thesis using D b p by (auto simp: s' buf_ok_def in_use_def Let_def)
  next
    case False
    have "buf_ok s i" by (rule bc_okD(3) [OF ok i])
    with False other [OF i False] show ?thesis by (auto simp: s' buf_ok_def Let_def split: if_splits)
  qed
  moreover have "length (disk s' bn) = BSIZE" for bn
    using bc_okD(4) [OF ok] D(5) by (simp add: s')
  moreover have "distinct (blist s')" "set (blist s') = {..<NBUF}" "held s' = []" "cur s' \<noteq> None"
    using bc_okD(1,2,5,6) [OF ok] by (auto simp: s')
  moreover have "i = j" if "i < NBUF" "j < NBUF" "bdev (bufs s' i) = 1" "bdev (bufs s' j) = 1"
    "bblockno (bufs s' i) = bblockno (bufs s' j)" for i j
    using bc_okD(7) [OF ok] that unfolding same by blast
  ultimately show "bc_ok s'" unfolding bc_ok_def by simp
  show "bview s' = bview s"
  proof
    fix k
    show "bview s' k = bview s k"
    proof (cases "cached s k")
      case None
      then have "k \<noteq> bblockno (bufs s b)" using D(4) by auto
      with None c [of k] show ?thesis by (simp add: bview_def s')
    qed (use c [of k] same in \<open>simp add: bview_def\<close>)
  qed
qed

text \<open>Processes that a release may have woken.\<close>

definition only_woken :: "proc \<Rightarrow> proc \<Rightarrow> bool" where
  "only_woken p q \<longleftrightarrow> q = p\<lparr>state := state q\<rparr> \<and>
     (state q = state p \<or> state p = SLEEPING \<and> state q = RUNNABLE)"

lemma only_woken_refl [simp]: "only_woken p p"
  by (simp add: only_woken_def)

lemma only_woken_wake: "only_woken p (wake ch p)"
  by (simp add: only_woken_def wake_def)

lemma only_wokenE:
  assumes "only_woken p q"
  obtains x where "q = p\<lparr>state := x\<rparr>" "x = state p \<or> state p = SLEEPING \<and> x = RUNNABLE"
  using assms unfolding only_woken_def by metis

lemma only_woken_trans:
  assumes "only_woken p q" "only_woken q r"
  shows "only_woken p r"
  using assms by (auto elim!: only_wokenE simp: only_woken_def)

lemma only_woken_pid [simp]: "only_woken p q \<Longrightarrow> pid q = pid p"
  by (auto elim!: only_wokenE)

lemma brelse_ok:
  assumes ok: "bc_ok s" and b: "b < NBUF" "in_use s b"
    and clean: "B_DIRTY (bufs s b) \<or> data (bufs s b) = disk s (bblockno (bufs s b))"
  shows "\<exists>s'. brelse b s = Ok () s' \<and> bc_ok s' \<and> bview s' = bview s \<and>
    in_use s' = (in_use s)(b := False) \<and> (\<forall>i. B_DIRTY (bufs s' i) = B_DIRTY (bufs s i)) \<and>
    cached s' = cached s \<and>
    s' = s\<lparr>bufs := bufs s', blist := blist s', procs := procs s'\<rparr> \<and>
    (\<forall>i. i \<noteq> b \<longrightarrow> bufs s' i = bufs s i) \<and>
    (\<forall>i. only_woken (procs s i) (procs s' i))"
proof -
  note D = in_useD [OF ok b]
  obtain p where p: "cur s = Some p" "spid (blk (bufs s b)) = pid (procs s p)" using D(7) by blast
  have h: "held s = []" by (rule bc_okD(5) [OF ok])
  let ?s1 = "wakeup1 (ChBufLock b) (upd_buf b (\<lambda>u. u\<lparr>blk := (blk u)\<lparr>slocked := False, spid := 0\<rparr>\<rparr>) s)"
  let ?s' = "(upd_buf b (\<lambda>u. u\<lparr>refcnt := 0\<rparr>) ?s1)\<lparr>blist := b # remove1 b (blist s)\<rparr>"
  have "releasesleep (ChBufLock b) (blk_get b) (blk_put b) s = Ok () ?s1"
    using bl.releasesleep_eq [of b s] h by (simp add: blk_get_def blk_put_def upd_buf_def)
  moreover have "refcnt (bufs ?s1 b) = 1" "blist ?s1 = blist s"
    using D(3) by (simp_all add: wakeup1_def)
  moreover have "held ?s1 = []" using h by simp
  ultimately have run: "brelse b s = Ok () ?s'"
    using p h b D(3)
    by (simp add: brelse_def bl.holdingsleep_eq [where p = p] blk_get_def in_use_def Let_def)
       (simp add: upd_buf_def)
  have bufs': "bufs ?s' i = (if i = b then (bufs s b)\<lparr>blk := (blk (bufs s b))\<lparr>slocked := False,
      spid := 0\<rparr>, refcnt := 0\<rparr> else bufs s i)" for i
    by (simp add: wakeup1_def)
  have sel: "disk ?s' = disk s" "disksize ?s' = disksize s" "cur ?s' = cur s" "held ?s' = held s"
    by (simp_all add: wakeup1_def)
  have pids: "pid (procs ?s' i) = pid (procs s i)" for i
    by (simp add: wakeup1_def)
  have same: "bdev (bufs ?s' i) = bdev (bufs s i)" "bblockno (bufs ?s' i) = bblockno (bufs s i)"
    "data (bufs ?s' i) = data (bufs s i)" for i
    unfolding bufs' by simp_all
  have c: "cached ?s' = cached s"
    by (rule ext) (simp only: cached_def same)
  have uniq: "i = j" if "i < NBUF" "j < NBUF" "bdev (bufs ?s' i) = 1" "bdev (bufs ?s' j) = 1"
    "bblockno (bufs ?s' i) = bblockno (bufs ?s' j)" for i j
    using bc_okD(7) [OF ok that(1,2)] that(3-5) unfolding bufs' by (auto split: if_splits)
  have each: "buf_ok ?s' i" if i: "i < NBUF" for i
  proof (cases "i = b")
    case True
    then show ?thesis using D b clean unfolding buf_ok_def bufs' sel by (auto simp: Let_def)
  next
    case False
    then show ?thesis
      using bc_okD(3) [OF ok i] unfolding buf_ok_def bufs' sel pids
      by (auto simp: Let_def split: if_splits)
  qed
  have "set (b # remove1 b (blist s)) = {..<NBUF}" "distinct (b # remove1 b (blist s))"
    using bc_okD(1,2) [OF ok] b(1) by (auto simp: set_remove1_eq)
  then have "bc_ok ?s'"
    unfolding bc_ok_def using each uniq bc_okD(4,6) [OF ok] h sel by (simp add: wakeup1_def)
  moreover have "bview ?s' = bview s"
  proof
    fix k show "bview ?s' k = bview s k"
      by (simp only: bview_def c sel same)
  qed
  moreover have "in_use ?s' = (in_use s)(b := False)"
    by (rule ext) (simp add: in_use_def bufs')
  moreover have "\<forall>i. B_DIRTY (bufs ?s' i) = B_DIRTY (bufs s i)" by (simp add: bufs')
  moreover have "only_woken (procs s i) (procs ?s' i)" for i
    by (simp add: wakeup1_def only_woken_wake)
  moreover have "?s' = s\<lparr>bufs := bufs ?s', blist := blist ?s', procs := procs ?s'\<rparr>"
    by (simp add: wakeup1_def upd_buf_def)
  ultimately show ?thesis using run c bufs' by (intro exI [of _ ?s']) simp
qed

section \<open>The operations on blocks\<close>

text \<open>
  The same facts in terms of block numbers: \<open>hblocks\<close> are the blocks whose buffers the process
  holds, \<open>dblocks\<close> the blocks whose buffers are dirty and so stay in the cache.
\<close>

definition holds :: "'a bstate_scheme \<Rightarrow> nat \<Rightarrow> uint \<Rightarrow> bool" where
  "holds s b bn \<longleftrightarrow> b < NBUF \<and> in_use s b \<and> cached s bn = Some b"

definition hblocks :: "'a bstate_scheme \<Rightarrow> uint set" where
  "hblocks s = {bn. \<exists>b. cached s bn = Some b \<and> in_use s b}"

definition dblocks :: "'a bstate_scheme \<Rightarrow> uint set" where
  "dblocks s = {bn. \<exists>b. cached s bn = Some b \<and> B_DIRTY (bufs s b)}"

definition io_frame :: "'a bstate_scheme \<Rightarrow> 'a bstate_scheme \<Rightarrow> bool" where
  "io_frame s s' \<longleftrightarrow>
     s' = s\<lparr>bufs := bufs s', blist := blist s', disk := disk s', dwrites := dwrites s', procs := procs s'\<rparr> \<and>
     (\<forall>i. only_woken (procs s i) (procs s' i))"

lemma io_frameI:
  assumes "s' = s\<lparr>bufs := b, blist := l, disk := d, dwrites := w, procs := q\<rparr>"
    "\<And>i. only_woken (procs s i) (q i)"
  shows "io_frame s s'"
  using assms by (simp add: io_frame_def)

lemma io_frame_refl [simp]: "io_frame s s"
  by (rule io_frameI [where b = "bufs s" and l = "blist s" and d = "disk s" and w = "dwrites s"
        and q = "procs s"]) simp_all

lemma io_frame_trans [trans]:
  assumes "io_frame s t" "io_frame t u"
  shows "io_frame s u"
proof (rule io_frameI)
  let ?f = "\<lambda>x y. x\<lparr>bufs := bufs y, blist := blist y, disk := disk y, dwrites := dwrites y, procs := procs y\<rparr>"
  have t: "t = ?f s t" and u: "u = ?f t u" using assms by (simp_all only: io_frame_def)
  have "?f t u = ?f s u" by (subst t) simp
  with u show "u = ?f s u" by metis
  show "only_woken (procs s i) (procs u i)" for i
    using assms unfolding io_frame_def by (blast intro: only_woken_trans)
qed

lemma io_frame_sel:
  assumes "io_frame s t"
  shows "disksize t = disksize s" "cur t = cur s" "held t = held s" "mem t = mem s"
    "initproc t = initproc s" "nextpid t = nextpid s" "ticks t = ticks s"
proof -
  have t: "t = s\<lparr>bufs := bufs t, blist := blist t, disk := disk t, dwrites := dwrites t, procs := procs t\<rparr>"
    using assms by (simp only: io_frame_def)
  show "disksize t = disksize s" "cur t = cur s" "held t = held s" "mem t = mem s"
    "initproc t = initproc s" "nextpid t = nextpid s" "ticks t = ticks s"
    by (subst t, simp)+
qed

lemma holds_data: "holds s b bn \<Longrightarrow> data (bufs s b) = bview s bn"
  by (simp add: holds_def bview_cached)

lemma holds_blockno: "bc_ok s \<Longrightarrow> holds s b bn \<Longrightarrow> bblockno (bufs s b) = bn"
  by (simp add: holds_def cached_iff)

lemma holds_unique: "holds s b bn \<Longrightarrow> holds s c bn \<Longrightarrow> b = c"
  by (simp add: holds_def)

lemma bview_length: "bc_ok s \<Longrightarrow> length (bview s bn) = BSIZE"
  using bc_okD(3) [of s] bc_okD(4) [of s]
  by (auto simp: bview_def buf_ok_def Let_def cached_iff split: option.splits)

lemma clean_on_disk:
  assumes "bc_ok s" "bn \<notin> hblocks s" "bn \<notin> dblocks s"
  shows "bview s bn = disk s bn"
proof (cases "cached s bn")
  case (Some b)
  then have b: "b < NBUF" "\<not> in_use s b" "\<not> B_DIRTY (bufs s b)" "bblockno (bufs s b) = bn"
    "bdev (bufs s b) = 1"
    using assms cached_iff [OF assms(1), of bn b] by (auto simp: hblocks_def dblocks_def)
  then show ?thesis
    using Some bc_okD(3) [OF assms(1) b(1)] by (simp add: bview_def buf_ok_def in_use_def Let_def)
qed (simp add: bview_def)

lemma bc_roomI:
  assumes ok: "bc_ok s" and bn: "bn \<notin> hblocks s"
    and card: "bn \<in> dblocks s \<or> card (hblocks s \<union> dblocks s) < NBUF"
  shows "bc_room s bn"
proof (cases "cached s bn")
  case None
  then have card: "card (hblocks s \<union> dblocks s) < NBUF" using card by (auto simp: dblocks_def)
  have "\<exists>b < NBUF. \<not> in_use s b \<and> \<not> B_DIRTY (bufs s b)"
  proof (rule ccontr)
    assume "\<not> ?thesis"
    then have all: "in_use s b \<or> B_DIRTY (bufs s b)" if "b < NBUF" for b using that by blast
    have dev: "bdev (bufs s b) = 1" if "b < NBUF" for b
      using bc_okD(3) [OF ok that] all [OF that] by (auto simp: buf_ok_def in_use_def Let_def split: if_splits)
    have c: "cached s (bblockno (bufs s b)) = Some b" if "b < NBUF" for b
      using that dev by (simp add: cached_iff [OF ok])
    have inj: "inj_on (\<lambda>b. bblockno (bufs s b)) {..<NBUF}"
      using bc_okD(7) [OF ok] dev by (auto simp: inj_on_def)
    have "(\<lambda>b. bblockno (bufs s b)) ` {..<NBUF} \<subseteq> hblocks s \<union> dblocks s"
      using all c by (auto simp: hblocks_def dblocks_def)
    moreover have "finite (hblocks s \<union> dblocks s)"
    proof (rule finite_subset)
      show "hblocks s \<union> dblocks s \<subseteq> (\<lambda>b. bblockno (bufs s b)) ` {..<NBUF}"
        by (auto simp: hblocks_def dblocks_def cached_iff [OF ok])
    qed simp
    ultimately have "card ((\<lambda>b. bblockno (bufs s b)) ` {..<NBUF}) \<le> card (hblocks s \<union> dblocks s)"
      by (intro card_mono)
    with card card_image [OF inj] show False by simp
  qed
  with None show ?thesis by (simp add: bc_room_def)
next
  case (Some b)
  with bn show ?thesis by (auto simp: bc_room_def hblocks_def)
qed

lemma bread_spec:
  assumes ok: "bc_ok s" and bn: "bn \<notin> hblocks s" "bn < disksize s"
    and card: "bn \<in> dblocks s \<or> card (hblocks s \<union> dblocks s) < NBUF"
  shows "\<exists>b s'. bread 1 bn s = Ok b s' \<and> holds s' b bn \<and> bc_ok s' \<and> io_frame s s' \<and>
    bview s' = bview s \<and> hblocks s' = insert bn (hblocks s) \<and> dblocks s' = dblocks s \<and>
    disk s' = disk s \<and> dwrites s' = dwrites s \<and> (\<forall>c k. holds s c k \<longrightarrow> holds s' c k)"
proof -
  obtain b s' where run: "bread 1 bn s = Ok b s'" and post: "bread_post s bn b s'"
    using bread_ok [OF ok bc_roomI [OF ok bn(1) card] bn(2)] by blast
  then have b: "b < NBUF" "\<not> in_use s b" "in_use s' b" "cached s' bn = Some b"
    and ok': "bc_ok s'" and v: "bview s' = bview s"
    and d: "B_DIRTY (bufs s' b) = (cached s bn = Some b \<and> B_DIRTY (bufs s b))"
    and dirty: "B_DIRTY (bufs s b) \<Longrightarrow> cached s bn = Some b"
    and s': "s' = s\<lparr>bufs := (bufs s)(b := bufs s' b)\<rparr>"
    unfolding bread_post_def by blast+
  have other: "bufs s' i = bufs s i" if "i \<noteq> b" for i using that by (subst s') simp
  have c: "cached s' k = Some i \<longleftrightarrow> cached s k = Some i" if "i \<noteq> b" for k i
    by (simp add: cached_iff [OF ok] cached_iff [OF ok'] other [OF that])
  have cb: "cached s' k = Some b \<longleftrightarrow> k = bn" for k
    using b(4) cached_iff [OF ok'] by auto
  have u: "in_use s' i = in_use s i" if "i \<noteq> b" for i by (simp add: in_use_def other [OF that])
  have split: "(\<exists>i. P i) \<longleftrightarrow> P b \<or> (\<exists>i. i \<noteq> b \<and> P i)" for P :: "nat \<Rightarrow> bool" by metis
  have "(\<exists>i. i \<noteq> b \<and> cached s' k = Some i \<and> in_use s' i) \<longleftrightarrow>
      (\<exists>i. i \<noteq> b \<and> cached s k = Some i \<and> in_use s i)" for k
    using c u by blast
  then have "k \<in> hblocks s' \<longleftrightarrow> k \<in> insert bn (hblocks s)" for k
    unfolding hblocks_def mem_Collect_eq insert_iff split [where P = "\<lambda>i. cached _ k = Some i \<and> _ i"]
    using b(2,3) cb by simp
  then have "hblocks s' = insert bn (hblocks s)" by blast
  moreover have "k \<in> dblocks s' \<longleftrightarrow> k \<in> dblocks s" for k
  proof -
    have "(\<exists>i. i \<noteq> b \<and> cached s' k = Some i \<and> B_DIRTY (bufs s' i)) \<longleftrightarrow>
        (\<exists>i. i \<noteq> b \<and> cached s k = Some i \<and> B_DIRTY (bufs s i))"
      using c other by auto
    moreover have "cached s k = Some b \<and> B_DIRTY (bufs s b) \<longleftrightarrow>
        cached s' k = Some b \<and> B_DIRTY (bufs s' b)"
      unfolding d cb using dirty by (auto simp: cached_iff [OF ok])
    ultimately show ?thesis
      unfolding dblocks_def mem_Collect_eq split [where P = "\<lambda>i. cached _ k = Some i \<and> B_DIRTY (bufs _ i)"]
      by blast
  qed
  moreover have "holds s' i k" if "holds s i k" for i k
  proof -
    have "i \<noteq> b" using that b(2) by (auto simp: holds_def)
    with that show ?thesis by (simp add: holds_def c u)
  qed
  moreover have "io_frame s s'"
    by (rule io_frameI [where b = "(bufs s)(b := bufs s' b)" and l = "blist s" and d = "disk s" and
          w = "dwrites s" and q = "procs s"]) (subst s', simp_all)
  moreover have "disk s' = disk s" "dwrites s' = dwrites s" by (subst s', simp)+
  ultimately show ?thesis using run b ok' v by (intro exI [of _ b] exI [of _ s']) (auto simp: holds_def)
qed

lemma holdsD:
  assumes "bc_ok s" "holds s b bn"
  shows "b < NBUF" "in_use s b" "cached s bn = Some b" "bblockno (bufs s b) = bn"
    "bn \<in> hblocks s" "bn < disksize s"
  using assms in_useD(6) [OF assms(1), of b] by (auto simp: holds_def cached_iff hblocks_def)

lemma holds_cached: "bc_ok s \<Longrightarrow> holds s b bn \<Longrightarrow> cached s k = Some b \<longleftrightarrow> k = bn"
  by (auto simp: holds_def cached_iff)

lemma blocks_upd:
  assumes "\<And>k. f k = Some b \<longleftrightarrow> k = bn"
  shows "{k. \<exists>i. f k = Some i \<and> (if i = b then c else P i)} =
    (if c then insert bn {k. \<exists>i. f k = Some i \<and> P i} else {k. \<exists>i. f k = Some i \<and> P i} - {bn})"
proof (rule set_eqI)
  fix k
  show "k \<in> {k. \<exists>i. f k = Some i \<and> (if i = b then c else P i)} \<longleftrightarrow>
    k \<in> (if c then insert bn {k. \<exists>i. f k = Some i \<and> P i} else {k. \<exists>i. f k = Some i \<and> P i} - {bn})"
    using assms [of k] by (cases "f k") auto
qed

lemma brelse_spec:
  assumes ok: "bc_ok s" and b: "holds s b bn" and clean: "bn \<in> dblocks s \<or> bview s bn = disk s bn"
  shows "\<exists>s'. brelse b s = Ok () s' \<and> bc_ok s' \<and> io_frame s s' \<and>
    bview s' = bview s \<and> hblocks s' = hblocks s - {bn} \<and> dblocks s' = dblocks s \<and>
    disk s' = disk s \<and> dwrites s' = dwrites s \<and> (\<forall>c k. k \<noteq> bn \<longrightarrow> holds s c k \<longrightarrow> holds s' c k)"
proof -
  note D = holdsD [OF ok b]
  have "B_DIRTY (bufs s b) \<or> data (bufs s b) = disk s (bblockno (bufs s b))"
    using clean D holds_data [OF b] by (auto simp: dblocks_def)
  from brelse_ok [OF ok D(1,2) this] obtain s' where run: "brelse b s = Ok () s'" "bc_ok s'"
    "bview s' = bview s" and use: "in_use s' = (in_use s)(b := False)"
    and dirty: "\<And>i. B_DIRTY (bufs s' i) = B_DIRTY (bufs s i)" and c: "cached s' = cached s"
    and s': "s' = s\<lparr>bufs := bufs s', blist := blist s', procs := procs s'\<rparr>"
    and woken: "\<And>i. only_woken (procs s i) (procs s' i)"
    by blast
  have sel: "disk s' = disk s" "dwrites s' = dwrites s" by (subst s', simp)+
  have "hblocks s' = hblocks s - {bn}"
    using blocks_upd [of "cached s", OF holds_cached [OF ok b], of False "in_use s"]
    by (simp add: hblocks_def c use fun_upd_def)
  moreover have "dblocks s' = dblocks s" unfolding dblocks_def c dirty ..
  moreover have "holds s' i k" if "holds s i k" "k \<noteq> bn" for i k
    using that D(3) by (auto simp: holds_def c use cached_iff [OF ok])
  moreover have "io_frame s s'"
    by (rule io_frameI [where b = "bufs s'" and l = "blist s'" and d = "disk s" and
          w = "dwrites s" and q = "procs s'"]) (subst s', simp, rule woken)
  ultimately show ?thesis using run sel by blast
qed

text \<open>Storing bytes in a held buffer; \<open>c\<close> is its dirty bit afterwards.\<close>

lemma change_spec:
  assumes ok: "bc_ok s" and b: "holds s b bn"
    and f: "f (bufs s b) = (bufs s b)\<lparr>data := d, B_DIRTY := c\<rparr>" "length d = BSIZE"
  shows "bc_ok (upd_buf b f s)" "io_frame s (upd_buf b f s)"
    "bview (upd_buf b f s) = (bview s)(bn := d)" "hblocks (upd_buf b f s) = hblocks s"
    "dblocks (upd_buf b f s) = (if c then insert bn (dblocks s) else dblocks s - {bn})"
    "holds (upd_buf b f s) i k = holds s i k"
proof -
  note D = holdsD [OF ok b]
  note C = change_ok [where f = f and d = d and c = c, OF ok D(1,2) f]
  show "bc_ok (upd_buf b f s)" by (rule C(1))
  show "bview (upd_buf b f s) = (bview s)(bn := d)" using C(2) D(4) by simp
  show "hblocks (upd_buf b f s) = hblocks s" by (simp add: hblocks_def C)
  show "holds (upd_buf b f s) i k = holds s i k" by (simp add: holds_def C)
  show "io_frame s (upd_buf b f s)"
    by (rule io_frameI [where b = "(bufs s)(b := f (bufs s b))" and l = "blist s" and d = "disk s" and
          w = "dwrites s" and q = "procs s"]) (simp_all add: upd_buf_def)
  have dirty: "B_DIRTY (bufs (upd_buf b f s) i) = (if i = b then c else B_DIRTY (bufs s i))" for i
    using f(1) by simp
  show "dblocks (upd_buf b f s) = (if c then insert bn (dblocks s) else dblocks s - {bn})"
    unfolding dblocks_def C(4) dirty by (rule blocks_upd [OF holds_cached [OF ok b]])
qed

lemma bwrite_spec:
  assumes ok: "bc_ok s" and b: "holds s b bn"
  shows "\<exists>s'. bwrite b s = Ok () s' \<and> bc_ok s' \<and> io_frame s s' \<and> bview s' = bview s \<and>
    hblocks s' = hblocks s \<and> dblocks s' = dblocks s - {bn} \<and>
    disk s' = (disk s)(bn := bview s bn) \<and> dwrites s' = dwrites s @ [(bn, bview s bn)] \<and>
    (\<forall>c k. holds s c k \<longrightarrow> holds s' c k)"
proof -
  note D = holdsD [OF ok b]
  let ?s' = "(upd_buf b (\<lambda>u. u\<lparr>B_DIRTY := False\<rparr>) s)\<lparr>disk := (disk s)(bn := data (bufs s b)),
     dwrites := dwrites s @ [(bn, data (bufs s b))]\<rparr>"
  have eq: "?s' = (upd_buf b (\<lambda>u. u\<lparr>B_DIRTY := False\<rparr>) s)
      \<lparr>disk := (disk s)(bblockno (bufs s b) := data (bufs s b)),
       dwrites := dwrites s @ [(bblockno (bufs s b), data (bufs s b))]\<rparr>"
    using D(4) by simp
  note W = bwrite_ok [OF ok D(1,2) eq]
  have d: "data (bufs s b) = bview s bn" by (rule holds_data [OF b])
  have dirty: "B_DIRTY (bufs ?s' i) = (if i = b then False else B_DIRTY (bufs s i))" for i by simp
  have "dblocks ?s' = dblocks s - {bn}"
    unfolding dblocks_def W(5) dirty by (subst blocks_upd [OF holds_cached [OF ok b]]) simp
  moreover have "hblocks ?s' = hblocks s" by (simp only: hblocks_def W)
  moreover have "io_frame s ?s'"
    by (rule io_frameI [where b = "(bufs s)(b := (bufs s b)\<lparr>B_DIRTY := False\<rparr>)" and l = "blist s" and
          d = "(disk s)(bn := data (bufs s b))" and w = "dwrites s @ [(bn, data (bufs s b))]" and
          q = "procs s"]) (simp_all add: upd_buf_def)
  moreover have "holds ?s' c k" if "holds s c k" for c k
    using that by (simp only: holds_def W)
  ultimately show ?thesis using W(1-3) d by (intro exI [of _ ?s']) simp
qed

text \<open>Reading a block and releasing it at once.\<close>

lemma read_spec:
  assumes ok: "bc_ok s" and bn: "bn \<notin> hblocks s" "bn < disksize s"
    and card: "bn \<in> dblocks s \<or> card (hblocks s \<union> dblocks s) < NBUF"
  shows "\<exists>b s1 s2. bread 1 bn s = Ok b s1 \<and> data (bufs s1 b) = bview s bn \<and> brelse b s1 = Ok () s2 \<and>
    bc_ok s2 \<and> io_frame s s2 \<and> bview s2 = bview s \<and> hblocks s2 = hblocks s \<and> dblocks s2 = dblocks s \<and>
    disk s2 = disk s \<and> dwrites s2 = dwrites s \<and> (\<forall>c k. holds s c k \<longrightarrow> holds s2 c k)"
proof -
  obtain b s1 where 1: "bread 1 bn s = Ok b s1" "holds s1 b bn" "bc_ok s1" "io_frame s s1"
    "bview s1 = bview s" "hblocks s1 = insert bn (hblocks s)" "dblocks s1 = dblocks s"
    "disk s1 = disk s" "dwrites s1 = dwrites s" "\<forall>c k. holds s c k \<longrightarrow> holds s1 c k"
    using bread_spec [OF ok bn card] by blast
  have "bn \<in> dblocks s1 \<or> bview s1 bn = disk s1 bn"
    using clean_on_disk [OF ok bn(1)] 1(5,7,8) by auto
  from brelse_spec [OF 1(3,2) this] obtain s2 where 2: "brelse b s1 = Ok () s2" "bc_ok s2"
    "io_frame s1 s2" "bview s2 = bview s1" "hblocks s2 = hblocks s1 - {bn}" "dblocks s2 = dblocks s1"
    "disk s2 = disk s1" "dwrites s2 = dwrites s1" "\<forall>c k. k \<noteq> bn \<longrightarrow> holds s1 c k \<longrightarrow> holds s2 c k"
    by blast
  have "holds s2 c k" if "holds s c k" for c k
    using that 1(10) 2(9) bn(1) by (metis holdsD(5) ok)
  with 1 2 bn(1) holds_data [OF 1(2)] io_frame_trans [OF 1(4) 2(3)] show ?thesis
    by (intro exI [of _ b] exI [of _ s1] exI [of _ s2]) simp
qed

section \<open>Properties\<close>

text \<open>
  (C15) The buffer cache is coherent: with a buffer free for it, reading a block returns its
  current content and changes no block; after new bytes are stored in the buffer, written and
  the buffer released, exactly that block has the new content, in the cache and on the disk, the
  disk was written once, and the buffer is free again.
\<close>

theorem cache_coherent:
  assumes "bc_ok s" and "bn \<notin> hblocks s" and "bn < disksize s"
    and "card (hblocks s \<union> dblocks s) < NBUF" and "length d = BSIZE"
  shows "\<exists>b s1 s2 s3. bread 1 bn s = Ok b s1 \<and> data (bufs s1 b) = bview s bn \<and> bview s1 = bview s \<and>
    bwrite b (upd_buf b (\<lambda>u. u\<lparr>data := d\<rparr>) s1) = Ok () s2 \<and> brelse b s2 = Ok () s3 \<and> bc_ok s3 \<and>
    bview s3 = (bview s)(bn := d) \<and> disk s3 = (disk s)(bn := d) \<and>
    dwrites s3 = dwrites s @ [(bn, d)] \<and> hblocks s3 = hblocks s"
proof -
  obtain b s1 where 1: "bread 1 bn s = Ok b s1" "holds s1 b bn" "bc_ok s1" "bview s1 = bview s"
    "hblocks s1 = insert bn (hblocks s)" "disk s1 = disk s" "dwrites s1 = dwrites s"
    using bread_spec [OF assms(1-3)] assms(4) by blast
  let ?t = "upd_buf b (\<lambda>u. u\<lparr>data := d\<rparr>) s1"
  have f: "(\<lambda>u. u\<lparr>data := d\<rparr>) (bufs s1 b) = (bufs s1 b)\<lparr>data := d, B_DIRTY := B_DIRTY (bufs s1 b)\<rparr>"
    by simp
  note C = change_spec [where f = "\<lambda>u. u\<lparr>data := d\<rparr>" and d = d and c = "B_DIRTY (bufs s1 b)",
      OF 1(3,2) f assms(5)]
  have "holds ?t b bn" using C(6) 1(2) by simp
  from bwrite_spec [OF C(1) this] obtain s2 where 2: "bwrite b ?t = Ok () s2" "bc_ok s2"
    "bview s2 = bview ?t" "hblocks s2 = hblocks ?t" "disk s2 = (disk ?t)(bn := bview ?t bn)"
    "dwrites s2 = dwrites ?t @ [(bn, bview ?t bn)]" "holds s2 b bn"
    using \<open>holds ?t b bn\<close> by blast
  have "bview s2 bn = disk s2 bn" using 2(3,5) by simp
  with brelse_spec [OF 2(2,7)] obtain s3 where "brelse b s2 = Ok () s3" "bc_ok s3"
    "bview s3 = bview s2" "hblocks s3 = hblocks s2 - {bn}" "disk s3 = disk s2" "dwrites s3 = dwrites s2"
    by blast
  then show ?thesis
    using 1 2 C assms(2) holds_data [OF 1(2)]
    by (intro exI [of _ b] exI [of _ s1] exI [of _ s2] exI [of _ s3]) simp
qed

definition ex_buf :: buf where
  "ex_buf = \<lparr>B_VALID = False, B_DIRTY = False, bdev = 0, bblockno = 0,
     blk = \<lparr>slocked = False, spid = 0\<rparr>, refcnt = 0, data = replicate 512 0\<rparr>"

definition ex_bstate :: bstate where
  "ex_bstate = \<lparr>held = [], procs = \<lambda>_. zero_proc, cur = Some 3, nextpid = 4, initproc = 0, ticks = 0,
     mem = \<lambda>_. 0, freelist = 0, use_lock = True, kend = 0x80400000, kdata = 0x80108000, kpgdir = 0,
     cr3 = 0, ts_esp0 = 0, bufs = \<lambda>_. ex_buf, blist = rev [0..<NBUF],
     disk = \<lambda>_. replicate 512 0, disksize = 1000, dwrites = []\<rparr>"

lemma ex_bstate_ok: "bc_ok ex_bstate" "hblocks ex_bstate = {}" "dblocks ex_bstate = {}"
  by (auto simp: bc_ok_def buf_ok_def ex_bstate_def ex_buf_def BSIZE_def hblocks_def dblocks_def
      in_use_def Let_def)

theorem cache_coherent_witness:
  "\<exists>b s1 s2 s3. bread 1 45 ex_bstate = Ok b s1 \<and>
    bwrite b (upd_buf b (\<lambda>u. u\<lparr>data := replicate 512 7\<rparr>) s1) = Ok () s2 \<and> brelse b s2 = Ok () s3 \<and>
    disk s3 45 = replicate 512 7 \<and> disk s3 46 = replicate 512 0"
proof -
  have "45 < disksize ex_bstate" "disk ex_bstate 46 = replicate 512 0" by (simp_all add: ex_bstate_def)
  with cache_coherent [OF ex_bstate_ok(1), of 45 "replicate 512 7"] show ?thesis
    by (fastforce simp: ex_bstate_ok NBUF_def BSIZE_def)
qed

end
