(* ===== verification/Fslayout.thy ===== *)
theory Fslayout
  imports Prelude
begin

text \<open>
  The on-disk format of \<open>fs.h\<close>, and of the log header of \<open>log.c\<close>: superblock, inodes,
  directory entries, block addresses and the macros that locate an inode or a bitmap bit. Structures
  are decoded from and encoded into the bytes of a block, little-endian and without padding.
\<close>

section \<open>Integers in bytes\<close>

definition enc16 :: "ushort \<Rightarrow> uchar list" where
  "enc16 w = [ucast w, ucast (drop_bit 8 w)]"

definition dec16 :: "uchar list \<Rightarrow> ushort" where
  "dec16 bs = (ucast (bs ! 0) OR push_bit 8 (ucast (bs ! 1)))"

definition enc32 :: "uint \<Rightarrow> uchar list" where
  "enc32 w = [byte_of w 0, byte_of w 1, byte_of w 2, byte_of w 3]"

definition dec32 :: "uchar list \<Rightarrow> uint" where
  "dec32 bs = le32 (bs ! 0) (bs ! 1) (bs ! 2) (bs ! 3)"

text \<open>An array of \<open>n\<close> words.\<close>

fun dec32s :: "nat \<Rightarrow> uchar list \<Rightarrow> uint list" where
  "dec32s 0 bs = []"
| "dec32s (Suc n) bs = dec32 bs # dec32s n (drop 4 bs)"

definition enc32s :: "uint list \<Rightarrow> uchar list" where
  "enc32s ws = concat (map enc32 ws)"

section \<open>Structures\<close>

record superblock =
  sb_size :: uint
  sb_nblocks :: uint
  sb_ninodes :: uint
  sb_nlog :: uint
  sb_logstart :: uint
  sb_inodestart :: uint
  sb_bmapstart :: uint

definition dec_superblock :: "uchar list \<Rightarrow> superblock" where
  "dec_superblock bs =
     (let w = dec32s 7 bs
      in \<lparr>sb_size = w ! 0, sb_nblocks = w ! 1, sb_ninodes = w ! 2, sb_nlog = w ! 3,
          sb_logstart = w ! 4, sb_inodestart = w ! 5, sb_bmapstart = w ! 6\<rparr>)"

definition enc_superblock :: "superblock \<Rightarrow> uchar list" where
  "enc_superblock sb =
     enc32s [sb_size sb, sb_nblocks sb, sb_ninodes sb, sb_nlog sb, sb_logstart sb,
             sb_inodestart sb, sb_bmapstart sb]"

definition NDIRECT :: nat where "NDIRECT = 12"
definition NINDIRECT :: nat where "NINDIRECT = 128"
definition MAXFILE :: nat where "MAXFILE = NDIRECT + NINDIRECT"
definition DIRSIZ :: nat where "DIRSIZ = 14"

record dinode =
  di_type :: ushort
  di_major :: ushort
  di_minor :: ushort
  di_nlink :: ushort
  di_size :: uint
  di_addrs :: "uint list"

definition dec_dinode :: "uchar list \<Rightarrow> dinode" where
  "dec_dinode bs =
     \<lparr>di_type = dec16 bs, di_major = dec16 (drop 2 bs), di_minor = dec16 (drop 4 bs),
      di_nlink = dec16 (drop 6 bs), di_size = dec32 (drop 8 bs), di_addrs = dec32s 13 (drop 12 bs)\<rparr>"

definition enc_dinode :: "dinode \<Rightarrow> uchar list" where
  "enc_dinode d =
     enc16 (di_type d) @ enc16 (di_major d) @ enc16 (di_minor d) @ enc16 (di_nlink d) @
     enc32 (di_size d) @ enc32s (di_addrs d)"

record dirent =
  de_inum :: ushort
  de_name :: "uchar list"

definition dec_dirent :: "uchar list \<Rightarrow> dirent" where
  "dec_dirent bs = \<lparr>de_inum = dec16 bs, de_name = take 14 (drop 2 bs)\<rparr>"

definition enc_dirent :: "dirent \<Rightarrow> uchar list" where
  "enc_dirent d = enc16 (de_inum d) @ de_name d"

section \<open>Where things are\<close>

definition IPB :: nat where "IPB = 8"
definition BPB :: nat where "BPB = 4096"

definition IBLOCK :: "uint \<Rightarrow> superblock \<Rightarrow> uint" where
  "IBLOCK i sb = i div of_nat IPB + sb_inodestart sb"

definition BBLOCK :: "uint \<Rightarrow> superblock \<Rightarrow> uint" where
  "BBLOCK b sb = b div of_nat BPB + sb_bmapstart sb"

definition T_DIR :: ushort where "T_DIR = 1"
definition T_FILE :: ushort where "T_FILE = 2"
definition T_DEV :: ushort where "T_DEV = 3"
definition ROOTINO :: uint where "ROOTINO = 1"
definition ROOTDEV :: uint where "ROOTDEV = 1"

section \<open>Round trips\<close>

lemma length_enc [simp]:
  "length (enc16 w) = 2" "length (enc32 v) = 4" "length (enc32s ws) = 4 * length ws"
  by (simp_all add: enc16_def enc32_def enc32s_def length_concat comp_def sum_list_triv)

lemma dec16_enc16 [simp]: "dec16 (enc16 w @ bs) = w" "dec16 (enc16 w) = w"
  by (auto simp: dec16_def enc16_def bit_simps intro!: bit_word_eqI)

lemma enc16_dec16: "2 \<le> length bs \<Longrightarrow> enc16 (dec16 bs) = take 2 bs"
proof -
  assume "2 \<le> length bs"
  then obtain a b cs where "bs = a # b # cs"
    by (metis One_nat_def Suc_1 Suc_le_length_iff)
  then show ?thesis by (auto simp: dec16_def enc16_def bit_simps intro!: bit_word_eqI)
qed

lemma dec32_enc32 [simp]: "dec32 (enc32 w @ bs) = w" "dec32 (enc32 w) = w"
  by (simp_all add: dec32_def enc32_def)

lemma enc32_dec32: "4 \<le> length bs \<Longrightarrow> enc32 (dec32 bs) = take 4 bs"
proof -
  assume "4 \<le> length bs"
  then have "take 4 bs = [bs ! 0, bs ! 1, bs ! 2, bs ! 3]"
    by (intro nth_equalityI) (auto simp: less_Suc_eq numeral_eq_Suc)
  then show ?thesis by (simp add: enc32_def dec32_def)
qed

lemma enc32s_simps [simp]: "enc32s [] = []" "enc32s (w # ws) = enc32 w @ enc32s ws"
  by (simp_all add: enc32s_def)

lemma length_dec32s [simp]: "length (dec32s n bs) = n"
  by (induction n arbitrary: bs) auto

lemma dec32s_enc32s [simp]: "dec32s (length ws) (enc32s ws @ bs) = ws"
  by (induction ws) auto

lemma dec32s_enc32s' [simp]: "dec32s (length ws) (enc32s ws) = ws"
  using dec32s_enc32s [of ws "[]"] by simp

lemma enc32s_dec32s: "4 * n \<le> length bs \<Longrightarrow> enc32s (dec32s n bs) = take (4 * n) bs"
proof (induction n arbitrary: bs)
  case (Suc n)
  then have "enc32s (dec32s n (drop 4 bs)) = take (4 * n) (drop 4 bs)" by simp
  moreover have "take (4 * Suc n) bs = take 4 bs @ take (4 * n) (drop 4 bs)"
    by (simp add: take_add [of 4 "4 * n" bs, symmetric])
  ultimately show ?case using Suc.prems by (simp add: enc32_dec32)
qed simp

lemma nth_dec32s: "i < n \<Longrightarrow> dec32s n bs ! i = dec32 (drop (4 * i) bs)"
proof (induction n arbitrary: bs i)
  case (Suc n)
  then show ?case by (cases i) (simp_all add: add.commute)
qed simp

lemma dec_enc_dinode: "length (di_addrs d) = 13 \<Longrightarrow> dec_dinode (enc_dinode d @ bs) = d"
proof -
  assume "length (di_addrs d) = 13"
  then have "dec32s 13 (enc32s (di_addrs d) @ bs) = di_addrs d"
    using dec32s_enc32s [of "di_addrs d" bs] by simp
  then show ?thesis by (simp add: dec_dinode_def enc_dinode_def)
qed

lemma enc_dec_dinode: "length bs = 64 \<Longrightarrow> enc_dinode (dec_dinode bs) = bs"
proof -
  assume len: "length bs = 64"
  have chunk: "take n (drop k bs) @ drop (n + k) bs = drop k bs" for n k
    by (metis append_take_drop_id drop_drop)
  from len have "enc_dinode (dec_dinode bs) = take 2 bs @ take 2 (drop 2 bs) @ take 2 (drop 4 bs) @
      take 2 (drop 6 bs) @ take 4 (drop 8 bs) @ drop 12 bs"
    by (simp add: enc_dinode_def dec_dinode_def enc16_dec16 enc32_dec32 enc32s_dec32s)
  also have "\<dots> = bs"
    using chunk [of 2 0] chunk [of 2 2] chunk [of 2 4] chunk [of 2 6] chunk [of 4 8] by simp
  finally show ?thesis .
qed

lemma length_enc_dinode [simp]: "length (di_addrs d) = 13 \<Longrightarrow> length (enc_dinode d) = 64"
  by (simp add: enc_dinode_def)

lemma dec_enc_dirent: "length (de_name d) = 14 \<Longrightarrow> dec_dirent (enc_dirent d @ bs) = d"
  by (simp add: dec_dirent_def enc_dirent_def)

lemma enc_dec_dirent: "length bs = 16 \<Longrightarrow> enc_dirent (dec_dirent bs) = bs"
proof -
  assume "length bs = 16"
  then have "enc_dirent (dec_dirent bs) = take 2 bs @ drop 2 bs"
    by (simp add: enc_dirent_def dec_dirent_def enc16_dec16)
  then show ?thesis by simp
qed

lemma length_enc_dirent [simp]: "length (de_name d) = 14 \<Longrightarrow> length (enc_dirent d) = 16"
  by (simp add: enc_dirent_def)

lemma dec_enc_superblock: "dec_superblock (enc_superblock sb @ bs) = sb"
  using dec32s_enc32s [of "[sb_size sb, sb_nblocks sb, sb_ninodes sb, sb_nlog sb, sb_logstart sb,
    sb_inodestart sb, sb_bmapstart sb]" bs]
  by (simp add: dec_superblock_def enc_superblock_def Let_def eval_nat_numeral
      del: enc32s_simps dec32s.simps)

section \<open>Summary\<close>

text \<open>
  Inodes, directory entries and the superblock survive the disk: decoding what was encoded
  gives the structure back, whatever bytes follow it in the block, and encoding what was decoded
  from 64 (16) bytes gives these bytes back, so rewriting an inode changes nothing else.
\<close>

theorem disk_format_roundtrip:
  assumes "length (di_addrs d) = 13" and "length (de_name e) = 14" and "length bs = 64"
    and "length cs = 16"
  shows "dec_dinode (enc_dinode d @ rest) = d \<and> enc_dinode (dec_dinode bs) = bs \<and>
    dec_dirent (enc_dirent e @ rest) = e \<and> enc_dirent (dec_dirent cs) = cs \<and>
    dec_superblock (enc_superblock sb @ rest) = sb"
  by (simp add: assms dec_enc_dinode enc_dec_dinode dec_enc_dirent enc_dec_dirent dec_enc_superblock)

theorem disk_format_roundtrip_witness:
  "dec_dinode (enc_dinode \<lparr>di_type = T_FILE, di_major = 0, di_minor = 0, di_nlink = 1,
     di_size = 700, di_addrs = 60 # 61 # replicate 11 0\<rparr> @ [9]) =
   \<lparr>di_type = T_FILE, di_major = 0, di_minor = 0, di_nlink = 1, di_size = 700,
     di_addrs = 60 # 61 # replicate 11 0\<rparr>"
  using disk_format_roundtrip [of "\<lparr>di_type = T_FILE, di_major = 0, di_minor = 0, di_nlink = 1,
     di_size = 700, di_addrs = 60 # 61 # replicate 11 0\<rparr>"
     "\<lparr>de_inum = 0, de_name = replicate 14 0\<rparr>" "replicate 64 0" "replicate 16 0" "[9]"]
  by simp

end
