(* ===== verification/Log.thy ===== *)
theory Log
  imports Bio Fslayout
begin

text \<open>
  The write-ahead log \<open>log.c\<close>: file system calls collect the blocks they change in the cache,
  \<open>commit\<close> writes them to the log, then the header, then their home locations, and
  \<open>recover_from_log\<close> replays a committed log at boot. The main result is that a crash after any
  number of the disk writes of a commit leaves, after recovery, the old or the new contents.
\<close>

section \<open>State\<close>

definition LOGSIZE :: nat where "LOGSIZE = 30"
definition MAXOPBLOCKS :: int where "MAXOPBLOCKS = 10"

record lstate = bstate +
  log_start :: uint
  log_size :: int
  outstanding :: int
  committing :: bool
  log_dev :: uint
  lh_n :: int
  lh_block :: "uint list"

section \<open>Operations\<close>

definition readsb :: "uint \<Rightarrow> 'a bstate_scheme \<Rightarrow> ('a bstate_scheme, superblock) res" where
  "readsb dev s =
     bindR (bread dev 1 s) (\<lambda>bp s.
       let sb = dec_superblock (data (bufs s bp))
       in bindR (brelse bp s) (\<lambda>_ s. Ok sb s))"

definition install_trans :: "'a lstate_scheme \<Rightarrow> ('a lstate_scheme, unit) res" where
  "install_trans s =
     forR [0..<nat (lh_n s)] (\<lambda>tail s.
       bindR (bread (log_dev s) (log_start s + of_nat tail + 1) s) (\<lambda>lbuf s.
       bindR (bread (log_dev s) (lh_block s ! tail) s) (\<lambda>dbuf s.
       bindR (bwrite dbuf (upd_buf dbuf (\<lambda>u. u\<lparr>data := data (bufs s lbuf)\<rparr>) s)) (\<lambda>_ s.
       bindR (brelse lbuf s) (\<lambda>_ s. brelse dbuf s))))) s"

definition read_head :: "'a lstate_scheme \<Rightarrow> ('a lstate_scheme, unit) res" where
  "read_head s =
     bindR (bread (log_dev s) (log_start s) s) (\<lambda>b s.
       let lh = data (bufs s b);
           n = sint (dec32 lh)
       in if int LOGSIZE < n then Fault ''log.lh.block''
          else brelse b (s\<lparr>lh_n := n,
                 lh_block := splice 0 (dec32s (nat n) (drop 4 lh)) (lh_block s)\<rparr>))"

definition write_head :: "'a lstate_scheme \<Rightarrow> ('a lstate_scheme, unit) res" where
  "write_head s =
     bindR (bread (log_dev s) (log_start s) s) (\<lambda>b s.
       let hb = splice 0 (enc32 (word_of_int (lh_n s)) @ enc32s (take (nat (lh_n s)) (lh_block s)))
                  (data (bufs s b))
       in bindR (bwrite b (upd_buf b (\<lambda>u. u\<lparr>data := hb\<rparr>) s)) (\<lambda>_ s. brelse b s))"

definition recover_from_log :: "'a lstate_scheme \<Rightarrow> ('a lstate_scheme, unit) res" where
  "recover_from_log s =
     bindR (read_head s) (\<lambda>_ s.
     bindR (install_trans s) (\<lambda>_ s. write_head (s\<lparr>lh_n := 0\<rparr>)))"

definition initlog :: "uint \<Rightarrow> 'a lstate_scheme \<Rightarrow> ('a lstate_scheme, unit) res" where
  "initlog dev s =
     (if BSIZE \<le> 4 + 4 * LOGSIZE then Panic ''initlog: too big logheader''
      else bindR (readsb dev s) (\<lambda>sb s.
        recover_from_log (s\<lparr>log_start := sb_logstart sb, log_size := sint (sb_nlog sb), log_dev := dev\<rparr>)))"

text \<open>
  One turn of the loop of \<open>begin_op\<close>, entered with the log's lock held: it ends with a switch
  where the call sleeps, and \<open>begin_op_resume\<close> goes on from there.
\<close>

definition begin_op_loop :: "'a lstate_scheme \<Rightarrow> ('a lstate_scheme, unit) res" where
  "begin_op_loop s =
     (if committing s then sleep ChLog Llog s
      else if int LOGSIZE < lh_n s + (outstanding s + 1) * MAXOPBLOCKS then sleep ChLog Llog s
      else release_lk Llog (s\<lparr>outstanding := outstanding s + 1\<rparr>))"

definition begin_op :: "'a lstate_scheme \<Rightarrow> ('a lstate_scheme, unit) res" where
  "begin_op s = bindR (acquire_lk Llog s) (\<lambda>_ s. begin_op_loop s)"

definition begin_op_resume :: "'a lstate_scheme \<Rightarrow> ('a lstate_scheme, unit) res" where
  "begin_op_resume s = bindR (sleep_resume Llog s) (\<lambda>_ s. begin_op_loop s)"

definition write_log :: "'a lstate_scheme \<Rightarrow> ('a lstate_scheme, unit) res" where
  "write_log s =
     forR [0..<nat (lh_n s)] (\<lambda>tail s.
       bindR (bread (log_dev s) (log_start s + of_nat tail + 1) s) (\<lambda>to s.
       bindR (bread (log_dev s) (lh_block s ! tail) s) (\<lambda>from s.
       bindR (bwrite to (upd_buf to (\<lambda>u. u\<lparr>data := data (bufs s from)\<rparr>) s)) (\<lambda>_ s.
       bindR (brelse from s) (\<lambda>_ s. brelse to s))))) s"

definition commit :: "'a lstate_scheme \<Rightarrow> ('a lstate_scheme, unit) res" where
  "commit s =
     (if 0 < lh_n s
      then bindR (write_log s) (\<lambda>_ s.
           bindR (write_head s) (\<lambda>_ s.
           bindR (install_trans s) (\<lambda>_ s. write_head (s\<lparr>lh_n := 0\<rparr>))))
      else Ok () s)"

definition end_op :: "'a lstate_scheme \<Rightarrow> ('a lstate_scheme, unit) res" where
  "end_op s =
     bindR (acquire_lk Llog s) (\<lambda>_ s.
       let s = s\<lparr>outstanding := outstanding s - 1\<rparr>
       in if committing s then Panic ''log.committing''
          else if outstanding s = 0
          then bindR (release_lk Llog (s\<lparr>committing := True\<rparr>)) (\<lambda>_ s.
               bindR (commit s) (\<lambda>_ s.
               bindR (acquire_lk Llog s) (\<lambda>_ s.
               bindR (wakeup ChLog (s\<lparr>committing := False\<rparr>)) (\<lambda>_ s. release_lk Llog s))))
          else bindR (wakeup ChLog s) (\<lambda>_ s. release_lk Llog s))"

definition log_write :: "nat \<Rightarrow> 'a lstate_scheme \<Rightarrow> ('a lstate_scheme, unit) res" where
  "log_write b s =
     (if int LOGSIZE \<le> lh_n s \<or> log_size s - 1 \<le> lh_n s then Panic ''too big a transaction''
      else if outstanding s < 1 then Panic ''log_write outside of trans''
      else bindR (acquire_lk Llog s) (\<lambda>_ s.
        let n = nat (lh_n s);
            i = (case find (\<lambda>i. lh_block s ! i = bblockno (bufs s b)) [0..<n] of Some i \<Rightarrow> i | None \<Rightarrow> n);
            s = s\<lparr>lh_block := (lh_block s)[i := bblockno (bufs s b)]\<rparr>;
            s = (if i = n then s\<lparr>lh_n := lh_n s + 1\<rparr> else s)
        in release_lk Llog (upd_buf b (\<lambda>u. u\<lparr>B_DIRTY := True\<rparr>) s)))"

section \<open>The log on the disk\<close>

text \<open>
  The same protocol on a disk alone: the writes of a commit in order, and what recovery makes of
  a disk.
\<close>

definition apply_writes :: "('b \<times> 'c) list \<Rightarrow> ('b \<Rightarrow> 'c) \<Rightarrow> 'b \<Rightarrow> 'c" where
  "apply_writes ws d = foldl (\<lambda>d w. d(fst w := snd w)) d ws"

definition log_slot :: "uint \<Rightarrow> nat \<Rightarrow> uint" where
  "log_slot start i = start + of_nat i + 1"

definition log_area :: "uint \<Rightarrow> uint set" where
  "log_area start = insert start (log_slot start ` {..<LOGSIZE})"

definition log_head :: "uint list \<Rightarrow> uchar list \<Rightarrow> uchar list" where
  "log_head bs old = splice 0 (enc32 (of_nat (length bs)) @ enc32s bs) old"

definition commit_writes :: "uint \<Rightarrow> uint list \<Rightarrow> uchar list list \<Rightarrow> uchar list \<Rightarrow>
    (uint \<times> uchar list) list" where
  "commit_writes start bs vs hd0 =
     zip (map (log_slot start) [0..<length bs]) vs @ [(start, log_head bs hd0)] @
     zip bs vs @ [(start, log_head [] (log_head bs hd0))]"

definition install_disk :: "uint \<Rightarrow> uint list \<Rightarrow> (uint \<Rightarrow> uchar list) \<Rightarrow> uint \<Rightarrow> uchar list" where
  "install_disk start bs d =
     foldl (\<lambda>d i. d(bs ! i := d (log_slot start i))) d [0..<length bs]"

definition recover_disk :: "uint \<Rightarrow> (uint \<Rightarrow> uchar list) \<Rightarrow> uint \<Rightarrow> uchar list" where
  "recover_disk start d =
     (let bs = dec32s (nat (sint (dec32 (d start)))) (drop 4 (d start));
          d = install_disk start bs d
      in d(start := log_head [] (d start)))"

lemma apply_writes_simps [simp]:
  "apply_writes [] d = d" "apply_writes ((b, v) # ws) d = apply_writes ws (d(b := v))"
  "apply_writes (ws @ ws') d = apply_writes ws' (apply_writes ws d)"
  by (simp_all add: apply_writes_def)

lemma apply_writes_other: "b \<notin> fst ` set ws \<Longrightarrow> apply_writes ws d b = d b"
  by (induction ws arbitrary: d) auto

lemma apply_writes_zip:
  "length bs = length vs \<Longrightarrow> distinct bs \<Longrightarrow> i < length bs \<Longrightarrow> apply_writes (zip bs vs) d (bs ! i) = vs ! i"
proof (induction bs vs arbitrary: d i rule: list_induct2)
  case (Cons b bs v vs)
  show ?case
  proof (cases i)
    case 0
    have "b \<notin> fst ` set (zip bs vs)" using Cons.prems by (auto dest: set_zip_leftD)
    with 0 show ?thesis by (simp add: apply_writes_other)
  qed (use Cons in auto)
qed simp

lemma log_slot_eq_iff: "i < LOGSIZE \<Longrightarrow> j < LOGSIZE \<Longrightarrow> log_slot start i = log_slot start j \<longleftrightarrow> i = j"
  by (simp add: log_slot_def LOGSIZE_def of_nat32_eq_iff)

lemma log_slot_start: "i < LOGSIZE \<Longrightarrow> log_slot start i \<noteq> start"
proof
  assume i: "i < LOGSIZE" and "log_slot start i = start"
  then have "of_nat (i + 1) = (0 :: uint)" by (simp add: log_slot_def add.assoc add.commute)
  then have "unat (of_nat (i + 1) :: uint) = 0" by simp
  with i show False by (simp add: unat_of_nat32 LOGSIZE_def del: of_nat_Suc of_nat_add)
qed

lemma length_log_head: "length bs \<le> LOGSIZE \<Longrightarrow> length h = BSIZE \<Longrightarrow> length (log_head bs h) = BSIZE"
  by (simp add: log_head_def LOGSIZE_def BSIZE_def)

lemma log_head_decode:
  assumes "length bs \<le> LOGSIZE"
  shows "nat (sint (dec32 (log_head bs h))) = length bs"
    and "dec32s (length bs) (drop 4 (log_head bs h)) = bs"
proof -
  have "dec32 (log_head bs h) = of_nat (length bs)" by (simp add: log_head_def splice_def)
  moreover have "sint (of_nat (length bs) :: uint) = int (length bs)"
    using assms by (intro sint_of_nat32) (simp add: LOGSIZE_def)
  ultimately show "nat (sint (dec32 (log_head bs h))) = length bs" by simp
  show "dec32s (length bs) (drop 4 (log_head bs h)) = bs"
    by (simp add: log_head_def splice_def)
qed

lemma install_disk_eq:
  assumes "set bs \<inter> log_area start = {}" "length bs \<le> LOGSIZE"
  shows "install_disk start bs d = apply_writes (zip bs (map (\<lambda>i. d (log_slot start i)) [0..<length bs])) d"
proof -
  let ?f = "\<lambda>d i. d(bs ! i := d (log_slot start i))"
  let ?z = "zip bs (map (\<lambda>i. d (log_slot start i)) [0..<length bs])"
  have "foldl ?f d [0..<n] = apply_writes (take n ?z) d" if "n \<le> length bs" for n
    using that
  proof (induction n)
    case (Suc n)
    have "log_slot start n \<in> log_area start"
      using Suc.prems assms(2) by (simp add: log_area_def)
    then have "log_slot start n \<notin> fst ` set (take n ?z)"
      using assms(1) by (auto dest!: in_set_takeD set_zip_leftD)
    moreover have "take (Suc n) ?z = take n ?z @ [(bs ! n, d (log_slot start n))]"
      using Suc.prems by (simp add: take_Suc_conv_app_nth)
    ultimately show ?case using Suc by (simp add: apply_writes_other cong: if_cong)
  qed simp
  from this [of "length bs"] show ?thesis by (simp add: install_disk_def)
qed

text \<open>Recovery finds either an empty log or the committed one.\<close>

lemma recover_empty:
  assumes "nat (sint (dec32 (d start))) = 0" "b \<noteq> start"
  shows "recover_disk start d b = d b"
  using assms by (simp add: recover_disk_def install_disk_def Let_def)

lemma recover_committed:
  assumes bs: "set bs \<inter> log_area start = {}" "length bs \<le> LOGSIZE" "length vs = length bs"
    and d: "d start = log_head bs h" "\<And>i. i < length bs \<Longrightarrow> d (log_slot start i) = vs ! i"
    and b: "b \<noteq> start"
  shows "recover_disk start d b = apply_writes (zip bs vs) d b"
proof -
  have "map (\<lambda>i. d (log_slot start i)) [0..<length bs] = vs"
    using d(2) bs(3) by (intro nth_equalityI) auto
  then show ?thesis
    using b d(1) log_head_decode [OF bs(2), of h] install_disk_eq [OF bs(1,2)]
    by (simp add: recover_disk_def Let_def)
qed

lemma crash_recovery:
  assumes bs: "set bs \<inter> log_area start = {}" "length bs \<le> LOGSIZE" "length vs = length bs" "distinct bs"
    and clean: "nat (sint (dec32 (d start))) = 0" and b: "b \<notin> log_area start"
    and dk: "dk = apply_writes (take k (commit_writes start bs vs (d start))) d"
  shows "if k \<le> length bs then recover_disk start dk b = d b
    else recover_disk start dk b = apply_writes (zip bs vs) d b"
proof -
  let ?n = "length bs"
  let ?A = "zip (map (log_slot start) [0..<?n]) vs"
  let ?I = "zip bs vs"
  have area: "fst ` set (take k ?A) \<subseteq> log_slot start ` {..<LOGSIZE}" for k
    using bs(2) by (auto dest!: in_set_takeD set_zip_leftD)
  have s1: "start \<notin> log_slot start ` {..<LOGSIZE}"
  proof
    assume "start \<in> log_slot start ` {..<LOGSIZE}"
    then obtain i where "i < LOGSIZE" "start = log_slot start i" by auto
    with log_slot_start [of i start] show False by simp
  qed
  have s2: "b \<notin> log_slot start ` {..<LOGSIZE}" using b by (simp add: log_area_def)
  have nstart: "start \<notin> fst ` set (take k ?A)" "b \<notin> fst ` set (take k ?A)" for k
    using area [of k] s1 s2 by blast+
  have bstart: "b \<noteq> start" using b by (simp add: log_area_def)
  have dA: "apply_writes ?A d start = d start" "apply_writes ?A d b = d b"
    using nstart [of "length ?A"] by (simp_all add: apply_writes_other)
  have slots: "apply_writes ?A d (log_slot start i) = vs ! i" if "i < ?n" for i
  proof -
    have "distinct (map (log_slot start) [0..<?n])"
      using bs(2) log_slot_eq_iff by (auto simp: distinct_map inj_on_def)
    then show ?thesis using apply_writes_zip [of "map (log_slot start) [0..<?n]" vs i d] that bs(3) by simp
  qed
  have I: "x \<notin> fst ` set (take j ?I)" if "x \<in> log_area start" for x j
    using that bs(1) by (auto dest!: in_set_takeD set_zip_leftD)
  show ?thesis
  proof (cases "k \<le> ?n")
    case True
    then have "dk = apply_writes (take k ?A) d"
      using bs(3) by (simp add: dk commit_writes_def)
    with nstart [of k] clean bstart True show ?thesis
      by (simp add: recover_empty apply_writes_other)
  next
    case False
    then obtain j where k: "k = Suc (?n + j)" by (metis add.commute add_Suc less_imp_Suc_add not_le)
    let ?h = "log_head bs (d start)"
    let ?c = "(apply_writes ?A d)(start := ?h)"
    have new: "apply_writes ?I x b = apply_writes ?I d b" if "b \<notin> set bs \<Longrightarrow> x b = d b" for x
    proof (cases "b \<in> set bs")
      case True
      then obtain i where "i < ?n" "b = bs ! i" by (auto simp: in_set_conv_nth)
      then show ?thesis using apply_writes_zip [of bs vs i] bs(3,4) by simp
    next
      case False
      then have "b \<notin> fst ` set ?I" by (auto dest: set_zip_leftD)
      with False that show ?thesis by (simp add: apply_writes_other)
    qed
    show ?thesis
    proof (cases "j \<le> ?n")
      case True
      then have dk': "dk = apply_writes (take j ?I) ?c"
        using bs(3) by (simp add: dk commit_writes_def k)
      have "dk start = ?h" using I [of start j] by (simp add: dk' apply_writes_other log_area_def)
      moreover have "dk (log_slot start i) = vs ! i" if "i < ?n" for i
        using I [of "log_slot start i" j] slots [OF that] log_slot_start [of i start] that bs(2)
        by (simp add: dk' apply_writes_other log_area_def)
      ultimately have "recover_disk start dk b = apply_writes ?I dk b"
        by (rule recover_committed [OF bs(1-3) _ _ bstart])
      moreover have "dk b = d b" if "b \<notin> set bs"
      proof -
        have "b \<notin> fst ` set (take j ?I)" using that by (auto dest!: in_set_takeD set_zip_leftD)
        then show ?thesis using dA bstart by (simp add: dk' apply_writes_other)
      qed
      then have "apply_writes ?I dk b = apply_writes ?I d b" by (rule new)
      ultimately show ?thesis using \<open>\<not> k \<le> ?n\<close> by (simp only: if_False)
    next
      case False
      then have dk': "dk = (apply_writes ?I ?c)(start := log_head [] ?h)"
        using bs(3) by (simp add: dk commit_writes_def k)
      have "nat (sint (dec32 (log_head [] ?h))) = 0" using log_head_decode(1) [of "[]" ?h] by simp
      then have "recover_disk start dk b = dk b" using bstart by (intro recover_empty) (simp_all add: dk')
      also have "\<dots> = apply_writes ?I ?c b" using bstart by (simp add: dk')
      also have "\<dots> = apply_writes ?I d b" by (rule new) (use dA bstart in simp)
      finally show ?thesis using \<open>\<not> k \<le> ?n\<close> by (simp only: if_False)
    qed
  qed
qed

section \<open>The code performs these writes\<close>

text \<open>The cache does not depend on the log's fields.\<close>

lemma in_use_trunc: "in_use s b = in_use (bstate.truncate s) b"
  and cached_trunc: "cached s bn = cached (bstate.truncate s) bn"
  and bview_trunc: "bview s bn = bview (bstate.truncate s) bn"
  by (simp_all add: in_use_def cached_def bview_def bstate.truncate_def cong: option.case_cong)

lemma bc_ok_trunc: "bc_ok s = bc_ok (bstate.truncate s)"
  by (simp add: bc_ok_def buf_ok_def bstate.truncate_def)

lemma same_cache:
  assumes "bstate.truncate s = bstate.truncate t"
  shows "bc_ok s = bc_ok t" "bview s = bview t" "hblocks s = hblocks t" "dblocks s = dblocks t"
    "holds s b bn = holds t b bn" "disk s = disk t" "dwrites s = dwrites t" "disksize s = disksize t"
    "bufs s = bufs t"
proof -
  have bufs: "bufs s = bufs t" using assms by (simp add: bstate.truncate_def)
  have c: "cached s = cached t" "in_use s = in_use t"
    by (rule ext, metis assms cached_trunc in_use_trunc)+
  show "bview s = bview t" by (rule ext) (metis assms bview_trunc)
  show "bc_ok s = bc_ok t" by (metis assms bc_ok_trunc)
  show "hblocks s = hblocks t" "dblocks s = dblocks t" "holds s b bn = holds t b bn"
    by (simp_all add: hblocks_def dblocks_def holds_def c bufs)
  show "disk s = disk t" "dwrites s = dwrites t" "disksize s = disksize t" "bufs s = bufs t"
    using assms by (simp_all add: bstate.truncate_def)
qed

lemma log_trunc [simp]:
  "bstate.truncate (s\<lparr>lh_n := n\<rparr>) = bstate.truncate s"
  "bstate.truncate (s\<lparr>lh_block := bs\<rparr>) = bstate.truncate s"
  "bstate.truncate (s\<lparr>log_start := a\<rparr>) = bstate.truncate s"
  "bstate.truncate (s\<lparr>log_size := i\<rparr>) = bstate.truncate s"
  "bstate.truncate (s\<lparr>log_dev := a\<rparr>) = bstate.truncate s"
  "bstate.truncate (s\<lparr>outstanding := i\<rparr>) = bstate.truncate s"
  "bstate.truncate (s\<lparr>committing := c\<rparr>) = bstate.truncate s"
  by (simp_all add: bstate.truncate_def)

lemma log_frame:
  fixes s :: "'a lstate_scheme"
  assumes "io_frame s t"
  shows "log_start t = log_start s" "log_size t = log_size s" "log_dev t = log_dev s"
    "lh_n t = lh_n s" "lh_block t = lh_block s" "outstanding t = outstanding s"
    "committing t = committing s"
proof -
  have t: "t = s\<lparr>bufs := bufs t, blist := blist t, disk := disk t, dwrites := dwrites t, procs := procs t\<rparr>"
    using assms by (simp only: io_frame_def)
  show "log_start t = log_start s" "log_size t = log_size s" "log_dev t = log_dev s"
    "lh_n t = lh_n s" "lh_block t = lh_block s" "outstanding t = outstanding s"
    "committing t = committing s"
    by (subst t, simp)+
qed

text \<open>The common part of the two copy loops: store, write and release the two buffers.\<close>

lemma store_release:
  assumes ok: "bc_ok t" and c: "holds t c w" and e: "holds t e src" and ne: "w \<noteq> src"
    and h: "hblocks t = {w, src}" and clean: "src \<in> dblocks t \<or> bview t src = disk t src"
  shows "\<exists>u. bindR (bwrite c (upd_buf c (\<lambda>u. u\<lparr>data := data (bufs t e)\<rparr>) t)) (\<lambda>_ s.
      bindR (brelse e s) (\<lambda>_ s. brelse c s)) = Ok () u \<and> bc_ok u \<and> io_frame t u \<and> hblocks u = {} \<and>
    dblocks u = dblocks t - {w} \<and> bview u = (bview t)(w := bview t src) \<and>
    disk u = (disk t)(w := bview t src) \<and> dwrites u = dwrites t @ [(w, bview t src)]"
proof -
  let ?d = "data (bufs t e)"
  let ?t = "upd_buf c (\<lambda>u. u\<lparr>data := ?d\<rparr>) t"
  have d: "?d = bview t src" by (rule holds_data [OF e])
  have f: "(\<lambda>u. u\<lparr>data := ?d\<rparr>) (bufs t c) = (bufs t c)\<lparr>data := ?d, B_DIRTY := B_DIRTY (bufs t c)\<rparr>"
    by simp
  have len: "length ?d = BSIZE" using bview_length [OF ok] d by simp
  note C = change_spec [where f = "\<lambda>u. u\<lparr>data := ?d\<rparr>" and c = "B_DIRTY (bufs t c)", OF ok c f len]
  have dirty: "B_DIRTY (bufs t c) \<longleftrightarrow> w \<in> dblocks t"
    using c by (auto simp: dblocks_def holds_def)
  have "holds ?t c w" using C(6) c by simp
  from bwrite_spec [OF C(1) this] obtain u1 where 1: "bwrite c ?t = Ok () u1" "bc_ok u1" "io_frame ?t u1"
    "bview u1 = bview ?t" "hblocks u1 = hblocks ?t" "dblocks u1 = dblocks ?t - {w}"
    "disk u1 = (disk ?t)(w := bview ?t w)" "dwrites u1 = dwrites ?t @ [(w, bview ?t w)]"
    and h1: "\<And>i k. holds ?t i k \<Longrightarrow> holds u1 i k" by blast
  have "holds u1 e src" "holds u1 c w" using h1 C(6) e c by simp_all
  moreover have "src \<in> dblocks u1 \<or> bview u1 src = disk u1 src"
    using clean ne 1(4,6,7) C(3,5) by auto
  ultimately obtain u2 where 2: "brelse e u1 = Ok () u2" "bc_ok u2" "io_frame u1 u2"
    "bview u2 = bview u1" "hblocks u2 = hblocks u1 - {src}" "dblocks u2 = dblocks u1"
    "disk u2 = disk u1" "dwrites u2 = dwrites u1" "holds u2 c w"
    using brelse_spec [OF 1(2), of e src] ne by blast
  have "bview u2 w = disk u2 w" using 2(4,7) 1(4,7) by simp
  with brelse_spec [OF 2(2,9)] obtain u3 where 3: "brelse c u2 = Ok () u3" "bc_ok u3" "io_frame u2 u3"
    "bview u3 = bview u2" "hblocks u3 = hblocks u2 - {w}" "dblocks u3 = dblocks u2"
    "disk u3 = disk u2" "dwrites u3 = dwrites u2" by blast
  have "io_frame t u3"
    using C(2) 1(3) 2(3) 3(3) io_frame_trans by blast
  moreover have "dblocks u3 = dblocks t - {w}"
    using 3(6) 2(6) 1(6) C(5) by auto
  moreover have "hblocks u3 = {}" using 3(5) 2(5) 1(5) C(4) h by auto
  ultimately show ?thesis using 1 2 3 C(3) d by (intro exI [of _ u3]) simp
qed

definition log_geom :: "'a lstate_scheme \<Rightarrow> bool" where
  "log_geom s \<longleftrightarrow> log_dev s = 1 \<and> length (lh_block s) = LOGSIZE \<and>
     (\<forall>b \<in> log_area (log_start s). b < disksize s)"

definition logged :: "'a lstate_scheme \<Rightarrow> uint list" where
  "logged s = take (nat (lh_n s)) (lh_block s)"

text \<open>
  The state in which a commit starts: no buffer is held, the dirty buffers are those of the logged
  blocks, which are distinct and outside the log, and a buffer is left for a log block.
\<close>

definition log_ok :: "'a lstate_scheme \<Rightarrow> bool" where
  "log_ok s \<longleftrightarrow> bc_ok s \<and> hblocks s = {} \<and> log_geom s \<and> 0 \<le> lh_n s \<and> lh_n s \<le> int LOGSIZE \<and>
     distinct (logged s) \<and> set (logged s) \<inter> log_area (log_start s) = {} \<and>
     (\<forall>b \<in> set (logged s). b < disksize s) \<and> dblocks s = set (logged s)"

lemma length_logged: "log_ok s \<Longrightarrow> length (logged s) = nat (lh_n s)"
  by (auto simp: log_ok_def log_geom_def logged_def LOGSIZE_def)

lemma log_geomD:
  assumes "log_geom s"
  shows "log_dev s = 1" "length (lh_block s) = LOGSIZE" "log_start s < disksize s"
    "i < LOGSIZE \<Longrightarrow> log_slot (log_start s) i < disksize s"
  using assms by (auto simp: log_geom_def log_area_def)

lemma log_geom_frame: "io_frame s t \<Longrightarrow> log_geom t = log_geom s"
  for s :: "'a lstate_scheme"
  by (simp add: log_geom_def log_frame io_frame_sel)

text \<open>What a state has after a list of disk writes through the cache.\<close>

definition wrote :: "'a lstate_scheme \<Rightarrow> (uint \<times> uchar list) list \<Rightarrow> uint set \<Rightarrow> 'a lstate_scheme \<Rightarrow> bool" where
  "wrote s ws D t \<longleftrightarrow> bc_ok t \<and> io_frame s t \<and> hblocks t = {} \<and> dblocks t = D \<and>
     bview t = apply_writes ws (bview s) \<and> disk t = apply_writes ws (disk s) \<and>
     dwrites t = dwrites s @ ws"

lemma wrote_trans:
  assumes "wrote s ws D t" "wrote t ws' D' u"
  shows "wrote s (ws @ ws') D' u"
  using assms io_frame_trans [of s t u] by (simp add: wrote_def)

lemma copy_step:
  fixes s :: "'a lstate_scheme"
  assumes w: "wrote s ws D t" and ab: "a \<noteq> b" "a < disksize s" "b < disksize s"
    and room: "card D < NBUF" "b \<in> D \<or> card (insert a D) < NBUF"
  shows "\<exists>c e t2. bread 1 a t = Ok c t2 \<and> io_frame s t2 \<and> (\<exists>t3. bread 1 b t2 = Ok e t3 \<and>
    bc_ok t3 \<and> io_frame s t3 \<and> holds t3 c a \<and> holds t3 e b \<and> hblocks t3 = {a, b} \<and> dblocks t3 = D \<and>
    bview t3 = bview t \<and> disk t3 = disk t \<and> dwrites t3 = dwrites t \<and>
    (\<forall>x \<in> {a, b}. x \<in> D \<or> bview t x = disk t x))"
proof -
  have t: "bc_ok t" "io_frame s t" "hblocks t = {}" "dblocks t = D" using w by (auto simp: wrote_def)
  have ds: "disksize t = disksize s" by (rule io_frame_sel [OF t(2)])
  obtain c t2 where 2: "bread 1 a t = Ok c t2" "holds t2 c a" "bc_ok t2" "io_frame t t2"
    "bview t2 = bview t" "hblocks t2 = {a}" "dblocks t2 = D" "disk t2 = disk t" "dwrites t2 = dwrites t"
    using bread_spec [OF t(1), of a] t ds ab room(1) by auto
  have "disksize t2 = disksize s" using io_frame_sel(1) [OF 2(4)] ds by simp
  then obtain e t3 where 3: "bread 1 b t2 = Ok e t3" "holds t3 e b" "bc_ok t3" "io_frame t2 t3"
    "bview t3 = bview t2" "hblocks t3 = insert b (hblocks t2)" "dblocks t3 = dblocks t2"
    "disk t3 = disk t2" "dwrites t3 = dwrites t2" "holds t3 c a"
    using bread_spec [OF 2(3), of b] 2(2,6,7) ab room(2) by auto
  have "\<forall>x \<in> {a, b}. x \<in> D \<or> bview t x = disk t x"
    using clean_on_disk [OF t(1)] t(3,4) by auto
  moreover have "io_frame s t2" by (rule io_frame_trans [OF t(2) 2(4)])
  moreover from io_frame_trans [OF this 3(4)] have "io_frame s t3" .
  ultimately show ?thesis
    using 2 3 by (intro exI [of _ c] exI [of _ e] exI [of _ t2] conjI exI [of _ t3]) auto
qed

lemma slots_in_area:
  "m \<le> LOGSIZE \<Longrightarrow> fst ` set (take i (zip (map (log_slot st) [0..<m]) vs)) \<subseteq> log_area st"
  by (auto simp: log_area_def dest!: in_set_takeD set_zip_leftD)

lemma write_log_ok:
  assumes ok: "log_ok s" and n: "lh_n s < int LOGSIZE"
  shows "\<exists>t. write_log s = Ok () t \<and>
    wrote s (zip (map (log_slot (log_start s)) [0..<length (logged s)]) (map (bview s) (logged s))) (dblocks s) t"
proof -
  let ?bs = "logged s" and ?st = "log_start s"
  let ?ws = "zip (map (log_slot ?st) [0..<length ?bs]) (map (bview s) ?bs)"
  have len: "length ?bs = nat (lh_n s)" by (rule length_logged [OF ok])
  have D: "bc_ok s" "hblocks s = {}" "log_geom s" "distinct ?bs" "set ?bs \<inter> log_area ?st = {}"
    "\<forall>b \<in> set ?bs. b < disksize s" "dblocks s = set ?bs" using ok by (auto simp: log_ok_def)
  have card: "card (dblocks s) < NBUF"
    using D(4,7) len n by (simp add: distinct_card NBUF_def LOGSIZE_def)
  have "\<exists>t. forR [0..<nat (lh_n s)] (\<lambda>tail s.
       bindR (bread (log_dev s) (log_start s + of_nat tail + 1) s) (\<lambda>to s.
       bindR (bread (log_dev s) (lh_block s ! tail) s) (\<lambda>from s.
       bindR (bwrite to (upd_buf to (\<lambda>u. u\<lparr>data := data (bufs s from)\<rparr>) s)) (\<lambda>_ s.
       bindR (brelse from s) (\<lambda>_ s. brelse to s))))) s = Ok () t \<and>
    wrote s (take (nat (lh_n s)) ?ws) (dblocks s) t"
  proof (rule forR_upt [where P = "\<lambda>i t. wrote s (take i ?ws) (dblocks s) t"])
    show "wrote s (take 0 ?ws) (dblocks s) s" using D by (simp add: wrote_def)
  next
    fix i t assume i: "i < nat (lh_n s)" and w: "wrote s (take i ?ws) (dblocks s) t"
    let ?a = "log_slot ?st i" and ?b = "?bs ! i"
    have ib: "?b \<in> set ?bs" "i < LOGSIZE" using i len n by (auto simp: LOGSIZE_def)
    have a: "?a \<in> log_area ?st" using ib(2) by (auto simp: log_area_def)
    have ab: "?a \<noteq> ?b" "?a < disksize s" "?b < disksize s"
      using a ib D(5,6) log_geomD(4) [OF D(3) ib(2)] by auto
    have "?b \<in> dblocks s" using ib D(7) by simp
    with copy_step [OF w ab card] obtain c e t2 t3 where
      r: "bread 1 ?a t = Ok c t2" "io_frame s t2" "bread 1 ?b t2 = Ok e t3" and
      t3: "bc_ok t3" "io_frame s t3" "holds t3 c ?a" "holds t3 e ?b" "hblocks t3 = {?a, ?b}"
        "dblocks t3 = dblocks s" "bview t3 = bview t" "disk t3 = disk t" "dwrites t3 = dwrites t"
      by blast
    have "?b \<in> dblocks t3 \<or> bview t3 ?b = disk t3 ?b" using t3(6) \<open>?b \<in> dblocks s\<close> by simp
    from store_release [OF t3(1,3,4) ab(1) t3(5) this] obtain u where
      u: "bindR (bwrite c (upd_buf c (\<lambda>u. u\<lparr>data := data (bufs t3 e)\<rparr>) t3)) (\<lambda>_ s.
      bindR (brelse e s) (\<lambda>_ s. brelse c s)) = Ok () u" "bc_ok u" "io_frame t3 u" "hblocks u = {}"
      "dblocks u = dblocks t3 - {?a}" "bview u = (bview t3)(?a := bview t3 ?b)"
      "disk u = (disk t3)(?a := bview t3 ?b)" "dwrites u = dwrites t3 @ [(?a, bview t3 ?b)]" by blast
    have fst: "?b \<notin> fst ` set (take i ?ws)"
    proof -
      have "length ?bs \<le> LOGSIZE" using len n by simp
      from slots_in_area [OF this] D(5) ib(1) show ?thesis by blast
    qed
    have v: "bview t ?b = bview s ?b"
      using w fst by (simp add: wrote_def apply_writes_other)
    have tk: "take (Suc i) ?ws = take i ?ws @ [(?a, bview s ?b)]"
      using i len by (simp add: take_Suc_conv_app_nth)
    have f: "log_dev t = 1" "log_start t = ?st" "lh_block t ! i = ?b" "log_dev t2 = 1" "lh_block t2 ! i = ?b"
      using w r(2) i D(3) by (auto simp: wrote_def log_frame log_geomD logged_def)
    have "wrote s (take (Suc i) ?ws) (dblocks s) u"
      using u(2-8) t3 w v a D(5,7) io_frame_trans [OF t3(2) u(3)] unfolding tk by (auto simp: wrote_def)
    then show "\<exists>u. bindR (bread (log_dev t) (log_start t + of_nat i + 1) t) (\<lambda>to s.
       bindR (bread (log_dev s) (lh_block s ! i) s) (\<lambda>from s.
       bindR (bwrite to (upd_buf to (\<lambda>u. u\<lparr>data := data (bufs s from)\<rparr>) s)) (\<lambda>_ s.
       bindR (brelse from s) (\<lambda>_ s. brelse to s)))) = Ok () u \<and> wrote s (take (Suc i) ?ws) (dblocks s) u"
      using r u(1) f by (intro exI [of _ u]) (simp add: log_slot_def)
  qed
  then show ?thesis using len by (simp add: write_log_def)
qed

lemma install_trans_ok:
  assumes s: "bc_ok s" "hblocks s = {}" "log_geom s"
    and n: "length (logged s) = nat (lh_n s)" "nat (lh_n s) \<le> LOGSIZE"
    and bs: "distinct (logged s)" "set (logged s) \<inter> log_area (log_start s) = {}"
      "\<forall>b \<in> set (logged s). b < disksize s"
    and d: "dblocks s = {} \<or> dblocks s = set (logged s) \<and> length (logged s) < NBUF"
  shows "\<exists>t. install_trans s = Ok () t \<and>
    wrote s (zip (logged s) (map (\<lambda>i. bview s (log_slot (log_start s) i)) [0..<length (logged s)])) {} t"
proof -
  let ?bs = "logged s" and ?st = "log_start s"
  let ?ws = "zip ?bs (map (\<lambda>i. bview s (log_slot ?st i)) [0..<length ?bs])"
  let ?D = "\<lambda>i. dblocks s - set (take i ?bs)"
  have "\<exists>t. forR [0..<nat (lh_n s)] (\<lambda>tail s.
       bindR (bread (log_dev s) (log_start s + of_nat tail + 1) s) (\<lambda>lbuf s.
       bindR (bread (log_dev s) (lh_block s ! tail) s) (\<lambda>dbuf s.
       bindR (bwrite dbuf (upd_buf dbuf (\<lambda>u. u\<lparr>data := data (bufs s lbuf)\<rparr>) s)) (\<lambda>_ s.
       bindR (brelse lbuf s) (\<lambda>_ s. brelse dbuf s))))) s = Ok () t \<and>
    wrote s (take (nat (lh_n s)) ?ws) (?D (nat (lh_n s))) t"
  proof (rule forR_upt [where P = "\<lambda>i t. wrote s (take i ?ws) (?D i) t"])
    show "wrote s (take 0 ?ws) (?D 0) s" using s by (simp add: wrote_def)
  next
    fix i t assume i: "i < nat (lh_n s)" and w: "wrote s (take i ?ws) (?D i) t"
    let ?a = "log_slot ?st i" and ?b = "?bs ! i"
    have ib: "?b \<in> set ?bs" "i < LOGSIZE" using i n by auto
    have a: "?a \<in> log_area ?st" using ib(2) by (auto simp: log_area_def)
    have ab: "?a \<noteq> ?b" "?a < disksize s" "?b < disksize s"
      using a ib bs log_geomD(4) [OF s(3) ib(2)] by auto
    have card: "card (?D i) < NBUF"
    proof -
      have "card (?D i) \<le> card (dblocks s)" using d by (intro card_mono) auto
      also have "\<dots> < NBUF" using d by (auto simp: NBUF_def intro: le_less_trans [OF card_length])
      finally show ?thesis .
    qed
    have bD: "?b \<in> ?D i \<or> card (insert ?a (?D i)) < NBUF"
    proof (cases "dblocks s = {}")
      case False
      have "?b \<notin> set (take i ?bs)"
        using bs(1) i n by (auto simp: in_set_conv_nth nth_eq_iff_index_eq)
      with False d ib show ?thesis by auto
    qed (simp add: NBUF_def)
    from copy_step [OF w ab card bD] obtain c e t2 t3 where
      r: "bread 1 ?a t = Ok c t2" "io_frame s t2" "bread 1 ?b t2 = Ok e t3" and
      t3: "bc_ok t3" "io_frame s t3" "holds t3 c ?a" "holds t3 e ?b" "hblocks t3 = {?a, ?b}"
        "dblocks t3 = ?D i" "bview t3 = bview t" "disk t3 = disk t" "dwrites t3 = dwrites t"
      and cl: "?a \<in> ?D i \<or> bview t ?a = disk t ?a"
      by blast
    have "?a \<in> dblocks t3 \<or> bview t3 ?a = disk t3 ?a" using cl t3(6-8) by simp
    with store_release [OF t3(1,4,3) ab(1) [symmetric]] t3(5) obtain u where
      u: "bindR (bwrite e (upd_buf e (\<lambda>u. u\<lparr>data := data (bufs t3 c)\<rparr>) t3)) (\<lambda>_ s.
      bindR (brelse c s) (\<lambda>_ s. brelse e s)) = Ok () u" "bc_ok u" "io_frame t3 u" "hblocks u = {}"
      "dblocks u = dblocks t3 - {?b}" "bview u = (bview t3)(?b := bview t3 ?a)"
      "disk u = (disk t3)(?b := bview t3 ?a)" "dwrites u = dwrites t3 @ [(?b, bview t3 ?a)]"
      by (auto simp: insert_commute)
    have "?a \<notin> fst ` set (take i ?ws)"
      using bs(2) a by (auto dest!: in_set_takeD set_zip_leftD)
    then have v: "bview t ?a = bview s ?a"
      using w by (simp add: wrote_def apply_writes_other)
    have tk: "take (Suc i) ?ws = take i ?ws @ [(?b, bview s ?a)]"
      and tb: "take (Suc i) ?bs = take i ?bs @ [?b]"
      using i n by (simp_all add: take_Suc_conv_app_nth)
    have f: "log_dev t = 1" "log_start t = ?st" "lh_block t ! i = ?b" "log_dev t2 = 1" "lh_block t2 ! i = ?b"
      using w r(2) i s(3) by (auto simp: wrote_def log_frame log_geomD logged_def)
    have "wrote s (take (Suc i) ?ws) (?D (Suc i)) u"
      using u(2-8) t3 w v io_frame_trans [OF t3(2) u(3)] unfolding tk tb by (auto simp: wrote_def)
    then show "\<exists>u. bindR (bread (log_dev t) (log_start t + of_nat i + 1) t) (\<lambda>lbuf s.
       bindR (bread (log_dev s) (lh_block s ! i) s) (\<lambda>dbuf s.
       bindR (bwrite dbuf (upd_buf dbuf (\<lambda>u. u\<lparr>data := data (bufs s lbuf)\<rparr>) s)) (\<lambda>_ s.
       bindR (brelse lbuf s) (\<lambda>_ s. brelse dbuf s)))) = Ok () u \<and>
       wrote s (take (Suc i) ?ws) (?D (Suc i)) u"
      using r u(1) f by (intro exI [of _ u]) (simp add: log_slot_def)
  qed
  note run = this
  have D: "?D (nat (lh_n s)) = {}" using d n by auto
  show ?thesis using run n unfolding D install_trans_def by simp
qed

lemma write_head_ok:
  assumes s: "bc_ok s" "hblocks s = {}" "log_geom s" and n: "nat (lh_n s) \<le> LOGSIZE" "0 \<le> lh_n s"
    and room: "card (dblocks s) < NBUF" and clean: "log_start s \<notin> dblocks s"
  shows "\<exists>t. write_head s = Ok () t \<and>
    wrote s [(log_start s, log_head (logged s) (bview s (log_start s)))] (dblocks s) t"
proof -
  let ?st = "log_start s"
  let ?h = "log_head (logged s) (bview s ?st)"
  obtain b s1 where 1: "bread 1 ?st s = Ok b s1" "holds s1 b ?st" "bc_ok s1" "io_frame s s1"
    "bview s1 = bview s" "hblocks s1 = {?st}" "dblocks s1 = dblocks s" "disk s1 = disk s"
    "dwrites s1 = dwrites s"
    using bread_spec [OF s(1), of ?st] s(2) room log_geomD(3) [OF s(3)] by auto
  let ?t = "upd_buf b (\<lambda>u. u\<lparr>data := ?h\<rparr>) s1"
  have f: "(\<lambda>u. u\<lparr>data := ?h\<rparr>) (bufs s1 b) = (bufs s1 b)\<lparr>data := ?h, B_DIRTY := B_DIRTY (bufs s1 b)\<rparr>"
    by simp
  have ll: "length (logged s) = nat (lh_n s)"
    using n log_geomD(2) [OF s(3)] by (simp add: logged_def)
  have len: "length ?h = BSIZE" using n ll by (intro length_log_head bview_length s(1)) simp
  note C = change_spec [where f = "\<lambda>u. u\<lparr>data := ?h\<rparr>" and c = "B_DIRTY (bufs s1 b)", OF 1(3,2) f len]
  have "holds ?t b ?st" using C(6) 1(2) by simp
  from bwrite_spec [OF C(1) this] obtain s2 where 2: "bwrite b ?t = Ok () s2" "bc_ok s2" "io_frame ?t s2"
    "bview s2 = bview ?t" "hblocks s2 = hblocks ?t" "dblocks s2 = dblocks ?t - {?st}"
    "disk s2 = (disk ?t)(?st := bview ?t ?st)" "dwrites s2 = dwrites ?t @ [(?st, bview ?t ?st)]"
    "holds s2 b ?st" using \<open>holds ?t b ?st\<close> by blast
  have "bview s2 ?st = disk s2 ?st" using 2(4,7) by simp
  with brelse_spec [OF 2(2,9)] obtain s3 where 3: "brelse b s2 = Ok () s3" "bc_ok s3" "io_frame s2 s3"
    "bview s3 = bview s2" "hblocks s3 = hblocks s2 - {?st}" "dblocks s3 = dblocks s2"
    "disk s3 = disk s2" "dwrites s3 = dwrites s2" by blast
  have fr: "io_frame s s3" using 1(4) C(2) 2(3) 3(3) io_frame_trans by blast
  have d: "dblocks s3 = dblocks s"
    using 3(6) 2(6) C(5) 1(7) clean by auto
  have hd0: "splice 0 (enc32 (word_of_int (lh_n s1)) @ enc32s (take (nat (lh_n s1)) (lh_block s1)))
      (data (bufs s1 b)) = ?h"
  proof -
    have "word_of_int (lh_n s) = (of_nat (nat (lh_n s)) :: uint)"
      using n(2) by (metis int_nat_eq of_int_of_nat_eq)
    then show ?thesis
      using ll holds_data [OF 1(2)] 1(5) log_frame [OF 1(4)] by (simp add: log_head_def logged_def)
  qed
  have "write_head s = Ok () s3"
    using 1(1) 2(1) 3(1) log_geomD(1) [OF s(3)] hd0 by (simp add: write_head_def)
  moreover have "wrote s [(?st, ?h)] (dblocks s) s3"
    using 3 2(4,5,7,8) C(3,4) 1 fr d by (simp add: wrote_def)
  ultimately show ?thesis by blast
qed

section \<open>Commit and recovery\<close>

lemma wrote_lh_n:
  assumes "wrote s ws D t"
  shows "wrote (s\<lparr>lh_n := n\<rparr>) ws D (t\<lparr>lh_n := n\<rparr>)"
proof -
  note T = same_cache [OF log_trunc(1)]
  have "io_frame s t" using assms by (simp add: wrote_def)
  then have t: "t = s\<lparr>bufs := bufs t, blist := blist t, disk := disk t, dwrites := dwrites t, procs := procs t\<rparr>"
    and p: "\<And>i. only_woken (procs s i) (procs t i)" by (simp_all only: io_frame_def)
  have "io_frame (s\<lparr>lh_n := n\<rparr>) (t\<lparr>lh_n := n\<rparr>)"
    by (rule io_frameI [where b = "bufs t" and l = "blist t" and d = "disk t" and w = "dwrites t" and
          q = "procs t"]) (subst t, simp, simp add: p)
  with assms show ?thesis by (simp add: wrote_def T)
qed

lemma commit_ok:
  assumes ok: "log_ok s" and n: "0 < lh_n s" "lh_n s < int LOGSIZE"
    and W: "W = commit_writes (log_start s) (logged s) (map (bview s) (logged s)) (disk s (log_start s))"
  shows "\<exists>t. commit s = Ok () t \<and> wrote (s\<lparr>lh_n := 0\<rparr>) W {} t \<and> lh_n t = 0 \<and> log_geom t"
proof -
  let ?bs = "logged s" and ?st = "log_start s" and ?vs = "map (bview s) (logged s)"
  let ?A = "zip (map (log_slot ?st) [0..<length ?bs]) ?vs"
  let ?h = "log_head ?bs (bview s ?st)"
  have len: "length ?bs = nat (lh_n s)" by (rule length_logged [OF ok])
  have D: "bc_ok s" "hblocks s = {}" "log_geom s" "distinct ?bs" "set ?bs \<inter> log_area ?st = {}"
    "\<forall>b \<in> set ?bs. b < disksize s" "dblocks s = set ?bs" using ok by (auto simp: log_ok_def)
  have card: "card (dblocks s) < NBUF"
    using D(4,7) len n by (simp add: distinct_card NBUF_def LOGSIZE_def)
  have st: "?st \<in> log_area ?st" by (simp add: log_area_def)
  then have std: "?st \<notin> dblocks s" using D(5,7) by auto
  have hd0: "bview s ?st = disk s ?st" using clean_on_disk [OF D(1)] D(2) std by simp
  obtain t1 where 1: "write_log s = Ok () t1" "wrote s ?A (dblocks s) t1"
    using write_log_ok [OF ok n(2)] by blast
  have w1: "bc_ok t1" "io_frame s t1" "hblocks t1 = {}" "dblocks t1 = dblocks s"
    "bview t1 = apply_writes ?A (bview s)" using 1(2) by (simp_all add: wrote_def)
  note f1 = log_frame [OF w1(2)]
  have nslot: "?st \<notin> fst ` set ?A"
  proof
    assume "?st \<in> fst ` set ?A"
    then obtain i where "i < length ?bs" "log_slot ?st i = ?st" by (force dest: set_zip_leftD)
    moreover have "length ?bs < LOGSIZE" using len n by linarith
    ultimately show False using log_slot_start [of i ?st] by simp
  qed
  have l1: "logged t1 = ?bs" by (simp add: logged_def f1)
  have v1: "bview t1 ?st = bview s ?st" using nslot w1(5) by (simp add: apply_writes_other)
  have g1: "log_geom t1" using log_geom_frame [OF w1(2)] D(3) by simp
  have "\<exists>t. write_head t1 = Ok () t \<and> wrote t1 [(log_start t1, log_head (logged t1)
      (bview t1 (log_start t1)))] (dblocks t1) t"
    using w1 f1 card std n by (intro write_head_ok) (simp_all add: g1)
  then obtain t2 where 2: "write_head t1 = Ok () t2" "wrote t1 [(?st, ?h)] (dblocks s) t2"
    using l1 v1 f1 w1(4) by auto
  have w2: "wrote s (?A @ [(?st, ?h)]) (dblocks s) t2" by (rule wrote_trans [OF 1(2) 2(2)])
  then have s2: "bc_ok t2" "io_frame s t2" "hblocks t2 = {}" "dblocks t2 = dblocks s"
    "bview t2 = (apply_writes ?A (bview s))(?st := ?h)" by (simp_all add: wrote_def)
  note f2 = log_frame [OF s2(2)]
  have l2: "logged t2 = ?bs" by (simp add: logged_def f2)
  have vs2: "bview t2 (log_slot ?st i) = ?vs ! i" if "i < length ?bs" for i
  proof -
    have "distinct (map (log_slot ?st) [0..<length ?bs])"
      using len n log_slot_eq_iff by (auto simp: distinct_map inj_on_def)
    from apply_writes_zip [OF _ this, of ?vs i "bview s"] that
    have "apply_writes ?A (bview s) (log_slot ?st i) = ?vs ! i" by simp
    moreover have "log_slot ?st i \<noteq> ?st" using that len n by (intro log_slot_start) simp
    ultimately show ?thesis by (simp add: s2(5))
  qed
  have m2: "map (\<lambda>i. bview t2 (log_slot ?st i)) [0..<length ?bs] = ?vs"
    using vs2 by (intro nth_equalityI) auto
  have "\<exists>t. install_trans t2 = Ok () t \<and> wrote t2 (zip (logged t2)
      (map (\<lambda>i. bview t2 (log_slot (log_start t2) i)) [0..<length (logged t2)])) {} t"
  proof (rule install_trans_ok)
    show "bc_ok t2" "hblocks t2 = {}" by (fact s2)+
    show "log_geom t2" using log_geom_frame [OF s2(2)] D(3) by simp
    show "length (logged t2) = nat (lh_n t2)" "nat (lh_n t2) \<le> LOGSIZE" using l2 f2 len n by simp_all
    show "distinct (logged t2)" "set (logged t2) \<inter> log_area (log_start t2) = {}"
      "\<forall>b \<in> set (logged t2). b < disksize t2"
      using D l2 f2 io_frame_sel(1) [OF s2(2)] by simp_all
    show "dblocks t2 = {} \<or> dblocks t2 = set (logged t2) \<and> length (logged t2) < NBUF"
      using D(7) s2(4) l2 len n by (auto simp: NBUF_def LOGSIZE_def)
  qed
  then obtain t3 where 3: "install_trans t2 = Ok () t3" "wrote t2 (zip ?bs ?vs) {} t3"
    using l2 f2 m2 by auto
  have w3: "wrote (s\<lparr>lh_n := 0\<rparr>) ((?A @ [(?st, ?h)]) @ zip ?bs ?vs) {} (t3\<lparr>lh_n := 0\<rparr>)"
    by (rule wrote_lh_n [OF wrote_trans [OF w2 3(2)]])
  let ?t3 = "t3\<lparr>lh_n := 0\<rparr>"
  have s3: "bc_ok ?t3" "io_frame (s\<lparr>lh_n := 0\<rparr>) ?t3" "hblocks ?t3 = {}" "dblocks ?t3 = {}"
    using w3 by (simp_all add: wrote_def)
  note f3 = log_frame [OF s3(2)]
  have g3: "log_geom ?t3"
    using log_geom_frame [OF s3(2)] D(3) by (simp add: log_geom_def same_cache [OF log_trunc(1)])
  have "?st \<notin> fst ` set (zip ?bs ?vs)" using st D(5) by (auto dest: set_zip_leftD)
  then have v3: "bview ?t3 ?st = ?h"
    using w3 by (simp add: wrote_def apply_writes_other)
  have "\<exists>t. write_head ?t3 = Ok () t \<and> wrote ?t3 [(log_start ?t3, log_head (logged ?t3)
      (bview ?t3 (log_start ?t3)))] (dblocks ?t3) t"
    using s3 g3 by (intro write_head_ok) (simp_all add: NBUF_def)
  then obtain t4 where 4: "write_head ?t3 = Ok () t4" "wrote ?t3 [(?st, log_head [] ?h)] {} t4"
    using f3 v3 s3(4) by (auto simp: logged_def)
  have w4: "wrote (s\<lparr>lh_n := 0\<rparr>) W {} t4"
    using wrote_trans [OF w3 4(2)] hd0 by (simp add: W commit_writes_def)
  have fr: "io_frame ?t3 t4" using 4(2) by (simp add: wrote_def)
  have "lh_n t4 = 0" using log_frame(4) [OF fr] by simp
  moreover have "log_geom t4" using log_geom_frame [OF fr] g3 by simp
  moreover have "commit s = Ok () t4"
    using n 1(1) 2(1) 3(1) 4(1) by (simp add: commit_def)
  ultimately show ?thesis using w4 by blast
qed

lemma recover_from_log_ok:
  assumes s: "bc_ok s" "hblocks s = {}" "dblocks s = {}" "log_geom s"
    and bs: "bs = dec32s (nat (sint (dec32 (disk s (log_start s))))) (drop 4 (disk s (log_start s)))"
    and n: "sint (dec32 (disk s (log_start s))) \<le> int LOGSIZE"
    and B: "distinct bs" "set bs \<inter> log_area (log_start s) = {}" "\<forall>b \<in> set bs. b < disksize s"
  shows "\<exists>t. recover_from_log s = Ok () t \<and> disk t = recover_disk (log_start s) (disk s) \<and>
    bview t = disk t \<and> lh_n t = 0 \<and> bc_ok t \<and> hblocks t = {} \<and> dblocks t = {} \<and> log_geom t"
proof -
  let ?st = "log_start s" and ?n = "sint (dec32 (disk s (log_start s)))"
  have vd: "bview s = disk s" using clean_on_disk [OF s(1)] s(2,3) by auto
  obtain b s1 where 1: "bread 1 ?st s = Ok b s1" "holds s1 b ?st" "bc_ok s1" "io_frame s s1"
    "bview s1 = bview s" "hblocks s1 = {?st}" "dblocks s1 = {}" "disk s1 = disk s"
    using bread_spec [OF s(1), of ?st] s(2,3) log_geomD(3) [OF s(4)] by (auto simp: NBUF_def)
  define s1' where "s1' = s1\<lparr>lh_n := ?n, lh_block := splice 0 bs (lh_block s1)\<rparr>"
  have tr: "bstate.truncate s1' = bstate.truncate s1" by (simp add: s1'_def)
  note T = same_cache [OF tr]
  note f1 = log_frame [OF 1(4)]
  have len: "length bs = nat ?n" "nat ?n \<le> LOGSIZE" using n by (simp_all add: bs)
  have blk: "length (lh_block s1) = LOGSIZE" using f1 log_geomD(2) [OF s(4)] by simp
  have g1: "log_geom s1'"
    using s(4) f1 blk len T(8) io_frame_sel(1) [OF 1(4)] by (simp add: log_geom_def s1'_def)
  have l1: "logged s1' = bs" using len blk by (simp add: logged_def s1'_def splice_def)
  have "bview s1' ?st = disk s1' ?st" using 1(5,8) vd by (simp add: T)
  with brelse_spec [of s1' b ?st] 1(2,3) obtain s2 where 2: "brelse b s1' = Ok () s2" "bc_ok s2"
    "io_frame s1' s2" "bview s2 = bview s" "hblocks s2 = {}" "dblocks s2 = {}" "disk s2 = disk s"
    using 1(5-8) by (auto simp: T)
  note f2 = log_frame [OF 2(3)]
  have st2: "log_start s2 = ?st" using f1 f2 by (simp add: s1'_def)
  have l2: "logged s2 = bs" using f2 l1 by (simp add: logged_def)
  have g2: "log_geom s2" using log_geom_frame [OF 2(3)] g1 by simp
  have rh: "read_head s = Ok () s2"
    using 1(1) 2(1) n log_geomD(1) [OF s(4)] holds_data [OF 1(2)] 1(5) vd
    by (simp add: read_head_def s1'_def bs Let_def)
  have ds2: "disksize s2 = disksize s"
    using io_frame_sel(1) [OF 2(3)] io_frame_sel(1) [OF 1(4)] T(8) by simp
  have ln2: "lh_n s2 = ?n" using f2 by (simp add: s1'_def)
  have "\<exists>t. install_trans s2 = Ok () t \<and> wrote s2 (zip (logged s2)
      (map (\<lambda>i. bview s2 (log_slot (log_start s2) i)) [0..<length (logged s2)])) {} t"
    using 2 g2 B len l2 st2 ds2 ln2 by (intro install_trans_ok) simp_all
  then obtain t3 where 3: "install_trans s2 = Ok () t3"
    "wrote s2 (zip bs (map (\<lambda>i. disk s (log_slot ?st i)) [0..<length bs])) {} t3"
    using l2 st2 2(4) vd by auto
  let ?d = "install_disk ?st bs (disk s)"
  have d3: "disk t3 = ?d" "bview t3 = ?d"
    using 3(2) 2(4,7) vd install_disk_eq [OF B(2)] len by (simp_all add: wrote_def)
  have s3: "bc_ok t3" "io_frame s2 t3" "hblocks t3 = {}" "dblocks t3 = {}"
    using 3(2) by (simp_all add: wrote_def)
  let ?t3 = "t3\<lparr>lh_n := 0\<rparr>"
  note T3 = same_cache [OF log_trunc(1) [where s = t3 and n = 0]]
  have g3: "log_geom ?t3"
    using log_geom_frame [OF s3(2)] g2 by (simp add: log_geom_def T3(8))
  have "\<exists>t. write_head ?t3 = Ok () t \<and> wrote ?t3 [(log_start ?t3, log_head (logged ?t3)
      (bview ?t3 (log_start ?t3)))] (dblocks ?t3) t"
    using s3 g3 by (intro write_head_ok) (simp_all add: T3 NBUF_def)
  then obtain t4 where 4: "write_head ?t3 = Ok () t4" "wrote ?t3 [(?st, log_head [] (?d ?st))] {} t4"
    using log_frame(1) [OF s3(2)] st2 s3(4) d3 by (auto simp: logged_def T3)
  have fr: "io_frame ?t3 t4" using 4(2) by (simp add: wrote_def)
  have "recover_from_log s = Ok () t4" using rh 3(1) 4(1) by (simp add: recover_from_log_def)
  moreover have "disk t4 = recover_disk ?st (disk s)" "bview t4 = disk t4"
    using 4(2) d3 bs by (simp_all add: wrote_def recover_disk_def Let_def T3)
  moreover have "lh_n t4 = 0" using log_frame(4) [OF fr] by simp
  moreover have "log_geom t4" using log_geom_frame [OF fr] g3 by simp
  ultimately show ?thesis using 4(2) by (auto simp: wrote_def)
qed

section \<open>Logging a block\<close>

lemma log_write_ok:
  assumes s: "bc_ok s" "holds s b bn" "length (lh_block s) = LOGSIZE" "0 \<le> lh_n s"
    and room: "lh_n s < int LOGSIZE" "lh_n s < log_size s - 1" and out: "1 \<le> outstanding s"
  shows "\<exists>n bs. log_write b s =
      Ok () ((upd_buf b (\<lambda>u. u\<lparr>B_DIRTY := True\<rparr>) s)\<lparr>lh_n := n, lh_block := bs\<rparr>) \<and>
    take (nat n) bs = (if bn \<in> set (logged s) then logged s else logged s @ [bn]) \<and>
    length bs = LOGSIZE \<and> n = int (length (take (nat n) bs))"
proof -
  have h: "held s = []" by (rule bc_okD(5) [OF s(1)])
  have bn: "bblockno (bufs s b) = bn" by (rule holds_blockno [OF s(1,2)])
  let ?n = "nat (lh_n s)"
  have n: "?n < length (lh_block s)" using s(3,4) room(1) by linarith
  show ?thesis
  proof (cases "find (\<lambda>i. lh_block s ! i = bn) [0..<?n]")
    case None
    then have "bn \<notin> set (logged s)" using n by (auto simp: find_None_iff logged_def in_set_conv_nth)
    moreover have "take (Suc ?n) ((lh_block s)[?n := bn]) = take ?n (lh_block s) @ [bn]"
      using n by (simp add: take_Suc_conv_app_nth)
    moreover have "nat (lh_n s + 1) = Suc ?n" using s(4) by simp
    ultimately show ?thesis
      using None s room out h bn n
      by (intro exI [of _ "lh_n s + 1"] exI [of _ "(lh_block s)[?n := bn]"])
         (simp add: log_write_def Let_def logged_def upd_buf_def)
  next
    case (Some i)
    then have i: "i < ?n" "lh_block s ! i = bn" by (auto simp: find_Some_iff)
    then have "bn \<in> set (logged s)" using n by (auto simp: logged_def in_set_conv_nth)
    moreover have "(lh_block s)[i := bn] = lh_block s" using i(2) by (metis list_update_id)
    moreover have "i \<noteq> ?n" using i by simp
    ultimately show ?thesis
      using Some s room out h bn n
      by (intro exI [of _ "lh_n s"] exI [of _ "lh_block s"])
         (simp add: log_write_def Let_def logged_def upd_buf_def)
  qed
qed

section \<open>Blocks inside a transaction\<close>

text \<open>
  The two ways file system code uses a block: read it and release it, or change it, log it and
  release it.
\<close>

definition read_blk :: "uint \<Rightarrow> uint \<Rightarrow> 'a bstate_scheme \<Rightarrow> ('a bstate_scheme, uchar list) res" where
  "read_blk dev bn s =
     bindR (bread dev bn s) (\<lambda>b s.
       let d = data (bufs s b) in bindR (brelse b s) (\<lambda>_ s. Ok d s))"

definition upd_blk :: "uint \<Rightarrow> uint \<Rightarrow> (uchar list \<Rightarrow> uchar list) \<Rightarrow> 'a lstate_scheme \<Rightarrow>
    ('a lstate_scheme, unit) res" where
  "upd_blk dev bn f s =
     bindR (bread dev bn s) (\<lambda>b s.
     bindR (log_write b (upd_buf b (\<lambda>u. u\<lparr>data := f (data u)\<rparr>) s)) (\<lambda>_ s. brelse b s))"

text \<open>
  What file system code sees: the content of every block, and how many more blocks may be
  changed before the log is full. The laws are stated for the operations with the device fixed.
\<close>

locale block_store =
  fixes read :: "uint \<Rightarrow> 's \<Rightarrow> ('s, uchar list) res"
    and update :: "uint \<Rightarrow> (uchar list \<Rightarrow> uchar list) \<Rightarrow> 's \<Rightarrow> ('s, unit) res"
    and view :: "'s \<Rightarrow> uint \<Rightarrow> uchar list"
    and ok :: "'s \<Rightarrow> bool"
    and valid :: "'s \<Rightarrow> uint \<Rightarrow> bool"
    and room :: "'s \<Rightarrow> nat"
    and keeps :: "'s \<Rightarrow> 's \<Rightarrow> bool"
  assumes view_len: "ok s \<Longrightarrow> length (view s b) = BSIZE"
    and read_ok: "ok s \<Longrightarrow> valid s b \<Longrightarrow> \<exists>s'. read b s = Ok (view s b) s' \<and> ok s' \<and> view s' = view s \<and>
      room s' = room s \<and> valid s' = valid s \<and> keeps s s'"
    and update_ok: "ok s \<Longrightarrow> valid s b \<Longrightarrow> 0 < room s \<Longrightarrow> length (f (view s b)) = BSIZE \<Longrightarrow>
      \<exists>s'. update b f s = Ok () s' \<and> ok s' \<and> view s' = (view s)(b := f (view s b)) \<and>
        room s \<le> Suc (room s') \<and> valid s' = valid s \<and> keeps s s'"
    and keeps_refl: "keeps s s"
    and keeps_trans: "keeps s t \<Longrightarrow> keeps t u \<Longrightarrow> keeps s u"

text \<open>A client that changes several blocks one after another.\<close>

fun update_all :: "(uint \<Rightarrow> (uchar list \<Rightarrow> uchar list) \<Rightarrow> 's \<Rightarrow> ('s, unit) res) \<Rightarrow>
    (uint \<times> (uchar list \<Rightarrow> uchar list)) list \<Rightarrow> 's \<Rightarrow> ('s, unit) res" where
  "update_all update [] s = Ok () s"
| "update_all update ((b, f) # us) s = bindR (update b f s) (\<lambda>_ s. update_all update us s)"

context block_store
begin

lemma update_all_ok:
  assumes "ok s" "\<forall>(b, f) \<in> set us. valid s b \<and> (\<forall>d. length d = BSIZE \<longrightarrow> length (f d) = BSIZE)"
    "length us \<le> room s"
  shows "\<exists>s'. update_all update us s = Ok () s' \<and> ok s' \<and> keeps s s' \<and> valid s' = valid s \<and>
    view s' = foldl (\<lambda>v (b, f). v(b := f (v b))) (view s) us"
  using assms
proof (induction us arbitrary: s)
  case Nil
  then show ?case by (simp add: keeps_refl)
next
  case (Cons u us)
  obtain b f where u: "u = (b, f)" by (cases u)
  obtain s1 where s1: "update b f s = Ok () s1" "ok s1" "view s1 = (view s)(b := f (view s b))"
    "room s \<le> Suc (room s1)" "valid s1 = valid s" "keeps s s1"
    using update_ok [of s b f] Cons.prems u view_len by auto
  from Cons.prems s1 u have "\<forall>(b, f) \<in> set us. valid s1 b \<and> (\<forall>d. length d = BSIZE \<longrightarrow> length (f d) = BSIZE)"
    "length us \<le> room s1" by auto
  from Cons.IH [OF s1(2) this] s1 u keeps_trans show ?case by auto
qed

lemma read_after_update:
  assumes "ok s" "valid s b" "valid s c" "0 < room s" "length (f (view s b)) = BSIZE"
  shows "\<exists>s1 s2. update b f s = Ok () s1 \<and> read c s1 = Ok (if c = b then f (view s b) else view s c) s2 \<and>
    ok s2 \<and> view s2 = (view s)(b := f (view s b)) \<and> keeps s s2"
proof -
  obtain s1 where s1: "update b f s = Ok () s1" "ok s1" "view s1 = (view s)(b := f (view s b))"
    "valid s1 = valid s" "keeps s s1" using update_ok [where f = f, OF assms(1,2,4,5)] by blast
  then obtain s2 where "read c s1 = Ok (view s1 c) s2" "ok s2" "view s2 = view s1" "keeps s1 s2"
    using read_ok [OF s1(2), of c] assms(3) by auto
  with s1 keeps_trans show ?thesis by auto
qed

end

text \<open>The invariant of the file system code, when at most one buffer is held.\<close>

definition fs_ok :: "'a lstate_scheme \<Rightarrow> bool" where
  "fs_ok s \<longleftrightarrow> bc_ok s \<and> log_geom s \<and> lh_n s = int (length (logged s)) \<and>
     distinct (logged s) \<and> set (logged s) \<inter> log_area (log_start s) = {} \<and>
     (\<forall>b \<in> set (logged s). b < disksize s) \<and> dblocks s = set (logged s) \<and>
     finite (hblocks s) \<and> card (hblocks s) \<le> 1 \<and> lh_n s \<le> 28"

definition fs_valid :: "'a lstate_scheme \<Rightarrow> uint \<Rightarrow> bool" where
  "fs_valid s b \<longleftrightarrow> b < disksize s \<and> b \<notin> hblocks s \<and> b \<notin> log_area (log_start s)"

text \<open>How many more blocks may be logged; none when no transaction is open.\<close>

definition fs_room :: "'a lstate_scheme \<Rightarrow> nat" where
  "fs_room s = (if outstanding s < 1 then 0 else nat (min 28 (log_size s - 1) - lh_n s))"

text \<open>Only the cache and the log header change, and processes may be woken.\<close>

definition fs_keeps :: "'a lstate_scheme \<Rightarrow> 'a lstate_scheme \<Rightarrow> bool" where
  "fs_keeps s s' \<longleftrightarrow>
     s' = s\<lparr>bufs := bufs s', blist := blist s', procs := procs s', lh_n := lh_n s', lh_block := lh_block s'\<rparr> \<and>
     (\<forall>i. only_woken (procs s i) (procs s' i)) \<and> hblocks s' = hblocks s \<and>
     (\<forall>c k. holds s c k \<longrightarrow> holds s' c k) \<and> (outstanding s < 1 \<longrightarrow> lh_n s' = lh_n s)"

lemma fs_keepsI:
  assumes "s' = s\<lparr>bufs := b, blist := l, procs := q, lh_n := n, lh_block := bs\<rparr>"
    "\<And>i. only_woken (procs s i) (q i)" "hblocks s' = hblocks s" "\<And>c k. holds s c k \<Longrightarrow> holds s' c k"
    "outstanding s < 1 \<Longrightarrow> n = lh_n s"
  shows "fs_keeps s s'"
  using assms by (simp add: fs_keeps_def)

lemma fs_keeps_refl: "fs_keeps s s"
  by (rule fs_keepsI [where b = "bufs s" and l = "blist s" and q = "procs s" and n = "lh_n s" and
        bs = "lh_block s"]) simp_all

lemma fs_keeps_trans:
  assumes "fs_keeps s t" "fs_keeps t u"
  shows "fs_keeps s u"
proof (rule fs_keepsI)
  let ?f = "\<lambda>x y. x\<lparr>bufs := bufs y, blist := blist y, procs := procs y, lh_n := lh_n y, lh_block := lh_block y\<rparr>"
  have t: "t = ?f s t" and u: "u = ?f t u" using assms by (simp_all only: fs_keeps_def)
  have "?f t u = ?f s u" by (subst t) simp
  with u show "u = ?f s u" by metis
  show "only_woken (procs s i) (procs u i)" for i
    using assms unfolding fs_keeps_def by (blast intro: only_woken_trans)
  show "hblocks u = hblocks s" using assms by (simp add: fs_keeps_def)
  show "holds u c k" if "holds s c k" for c k using assms that by (simp add: fs_keeps_def)
  have "outstanding t = outstanding s" by (subst t) simp
  then show "outstanding s < 1 \<Longrightarrow> lh_n u = lh_n s" using assms by (simp add: fs_keeps_def)
qed

lemma fs_keeps_sel:
  assumes "fs_keeps s t"
  shows "log_start t = log_start s" "log_size t = log_size s" "log_dev t = log_dev s"
    "outstanding t = outstanding s" "committing t = committing s" "disk t = disk s"
    "dwrites t = dwrites s" "disksize t = disksize s" "cur t = cur s" "held t = held s"
    "hblocks t = hblocks s" "mem t = mem s"
proof -
  have t: "t = s\<lparr>bufs := bufs t, blist := blist t, procs := procs t, lh_n := lh_n t, lh_block := lh_block t\<rparr>"
    using assms by (simp only: fs_keeps_def)
  show "log_start t = log_start s" "log_size t = log_size s" "log_dev t = log_dev s"
    "outstanding t = outstanding s" "committing t = committing s" "disk t = disk s"
    "dwrites t = dwrites s" "disksize t = disksize s" "cur t = cur s" "held t = held s" "mem t = mem s"
    by (subst t, simp)+
  show "hblocks t = hblocks s" using assms by (simp only: fs_keeps_def)
qed

lemma fs_okD:
  assumes "fs_ok s"
  shows "bc_ok s" "log_geom s" "lh_n s = int (length (logged s))" "distinct (logged s)"
    "set (logged s) \<inter> log_area (log_start s) = {}" "\<forall>b \<in> set (logged s). b < disksize s"
    "dblocks s = set (logged s)" "0 \<le> lh_n s" "finite (hblocks s)" "card (hblocks s) \<le> 1"
    "lh_n s \<le> 28"
proof -
  show l: "lh_n s = int (length (logged s))" using assms unfolding fs_ok_def by blast
  show "0 \<le> lh_n s" unfolding l by simp
qed (use assms in \<open>unfold fs_ok_def, blast\<close>)+

lemma fs_cache_room: "fs_ok s \<Longrightarrow> card (hblocks s \<union> dblocks s) < NBUF"
proof -
  assume ok: "fs_ok s"
  note D = fs_okD [OF ok]
  have "card (hblocks s \<union> dblocks s) \<le> card (hblocks s) + card (dblocks s)"
    by (rule card_Un_le)
  also have "card (dblocks s) = length (logged s)" using D(4,7) by (simp add: distinct_card)
  finally show ?thesis using D(3,10,11) by (simp add: NBUF_def)
qed

lemma fs_read:
  fixes s :: "'a lstate_scheme"
  assumes ok: "fs_ok s" and b: "fs_valid s bn"
  shows "\<exists>s'. read_blk 1 bn s = Ok (bview s bn) s' \<and> fs_ok s' \<and> bview s' = bview s \<and>
    fs_room s' = fs_room s \<and> fs_valid s' = fs_valid s \<and> fs_keeps s s'"
proof -
  note D = fs_okD [OF ok]
  from b have bn: "bn \<notin> hblocks s" "bn < disksize s" by (auto simp: fs_valid_def)
  obtain b s1 s2 where r: "bread 1 bn s = Ok b s1" "data (bufs s1 b) = bview s bn" "brelse b s1 = Ok () s2"
    and s2: "bc_ok s2" "io_frame s s2" "bview s2 = bview s" "hblocks s2 = hblocks s"
      "dblocks s2 = dblocks s" "disk s2 = disk s" "dwrites s2 = dwrites s" "\<forall>c k. holds s c k \<longrightarrow> holds s2 c k"
    using read_spec [OF D(1) bn disjI2 [OF fs_cache_room [OF ok]]] by blast
  note f = log_frame [OF s2(2)] io_frame_sel [OF s2(2)]
  have l: "logged s2 = logged s" by (simp add: logged_def f)
  have "fs_ok s2" using ok s2 f l log_geom_frame [OF s2(2)] by (simp add: fs_ok_def)
  moreover have "fs_keeps s s2"
  proof (rule fs_keepsI)
    have "s2 = s\<lparr>bufs := bufs s2, blist := blist s2, disk := disk s2, dwrites := dwrites s2, procs := procs s2\<rparr>"
      using s2(2) by (simp only: io_frame_def)
    also have "\<dots> = s\<lparr>bufs := bufs s2, blist := blist s2, procs := procs s2, lh_n := lh_n s, lh_block := lh_block s\<rparr>"
      unfolding s2(6,7) by simp
    finally show "s2 = s\<lparr>bufs := bufs s2, blist := blist s2, procs := procs s2, lh_n := lh_n s, lh_block := lh_block s\<rparr>" .
  qed (use s2 in \<open>auto simp: io_frame_def\<close>)
  moreover have "fs_room s2 = fs_room s" "fs_valid s2 = fs_valid s"
    using f s2(4) by (auto simp: fs_room_def fs_valid_def)
  moreover have "read_blk 1 bn s = Ok (bview s bn) s2" using r by (simp add: read_blk_def)
  ultimately show ?thesis using s2(3) by blast
qed

text \<open>Changing and logging a block whose buffer is held.\<close>

lemma fs_log_write:
  fixes s :: "'a lstate_scheme"
  assumes ok: "bc_ok s" "log_geom s" "lh_n s = int (length (logged s))" "dblocks s = set (logged s)"
    and b: "holds s b bn" and d: "length d = BSIZE" and room: "0 < fs_room s"
  shows "\<exists>t. log_write b (upd_buf b (\<lambda>u. u\<lparr>data := d\<rparr>) s) = Ok () t \<and> bc_ok t \<and> log_geom t \<and>
    logged t = (if bn \<in> set (logged s) then logged s else logged s @ [bn]) \<and>
    lh_n t = int (length (logged t)) \<and> dblocks t = insert bn (dblocks s) \<and> hblocks t = hblocks s \<and>
    bview t = (bview s)(bn := d) \<and> (\<forall>c k. holds t c k = holds s c k) \<and>
    t = s\<lparr>bufs := bufs t, lh_n := lh_n t, lh_block := lh_block t\<rparr>"
proof -
  let ?s1 = "upd_buf b (\<lambda>u. u\<lparr>data := d\<rparr>) s"
  have f1: "(\<lambda>u. u\<lparr>data := d\<rparr>) (bufs s b) = (bufs s b)\<lparr>data := d, B_DIRTY := B_DIRTY (bufs s b)\<rparr>" by simp
  note C1 = change_spec [where f = "\<lambda>u. u\<lparr>data := d\<rparr>" and c = "B_DIRTY (bufs s b)", OF ok(1) b f1 d]
  have h1: "holds ?s1 b bn" using C1(6) b by simp
  note fr1 = log_frame [OF C1(2)]
  have l1: "logged ?s1 = logged s" by (simp add: logged_def fr1)
  have g1: "log_geom ?s1" using log_geom_frame [OF C1(2)] ok(2) by simp
  have r1: "lh_n ?s1 < int LOGSIZE" "lh_n ?s1 < log_size ?s1 - 1" "0 \<le> lh_n ?s1" "1 \<le> outstanding ?s1"
    using room ok(3) fr1 by (auto simp: fs_room_def LOGSIZE_def split: if_splits)
  let ?s2 = "upd_buf b (\<lambda>u. u\<lparr>B_DIRTY := True\<rparr>) ?s1"
  obtain n bs where t: "log_write b ?s1 = Ok () (?s2\<lparr>lh_n := n, lh_block := bs\<rparr>)"
    "take (nat n) bs = (if bn \<in> set (logged s) then logged s else logged s @ [bn])"
    "length bs = LOGSIZE" "n = int (length (take (nat n) bs))"
    using log_write_ok [OF C1(1) h1 log_geomD(2) [OF g1] r1(3,1,2,4)] unfolding l1 by blast
  let ?t = "?s2\<lparr>lh_n := n, lh_block := bs\<rparr>"
  have tr: "bstate.truncate ?t = bstate.truncate ?s2" by simp
  note T = same_cache [OF tr]
  have f2: "(\<lambda>u. u\<lparr>B_DIRTY := True\<rparr>) (bufs ?s1 b) = (bufs ?s1 b)\<lparr>data := d, B_DIRTY := True\<rparr>" by simp
  note C2 = change_spec [where f = "\<lambda>u. u\<lparr>B_DIRTY := True\<rparr>" and c = True, OF C1(1) h1 f2 d]
  have g: "log_geom ?t"
    using g1 t(3) by (simp add: log_geom_def upd_buf_def)
  have ld: "logged ?t = (if bn \<in> set (logged s) then logged s else logged s @ [bn])" "lh_n ?t = int (length (logged ?t))"
    using t(2,4) by (simp_all add: logged_def)
  have "B_DIRTY (bufs s b) \<longleftrightarrow> bn \<in> dblocks s"
    using b by (auto simp: dblocks_def holds_def)
  then have dd: "dblocks ?t = insert bn (dblocks s)" unfolding T(4) C2(5) C1(5) by auto
  have "?t = s\<lparr>bufs := bufs ?t, lh_n := lh_n ?t, lh_block := lh_block ?t\<rparr>"
    by (simp add: upd_buf_def)
  then show ?thesis
    using t(1) C2 C1 g ld dd by (intro exI [of _ ?t]) (simp only: T simp_thms fun_upd_upd)
qed

lemma fs_update:
  fixes s :: "'a lstate_scheme"
  assumes ok: "fs_ok s" and b: "fs_valid s bn" and room: "0 < fs_room s"
    and d: "length (f (bview s bn)) = BSIZE"
  shows "\<exists>s'. upd_blk 1 bn f s = Ok () s' \<and> fs_ok s' \<and> bview s' = (bview s)(bn := f (bview s bn)) \<and>
    fs_room s \<le> Suc (fs_room s') \<and> fs_valid s' = fs_valid s \<and> fs_keeps s s'"
proof -
  note D = fs_okD [OF ok]
  from b have bn: "bn \<notin> hblocks s" "bn < disksize s" "bn \<notin> log_area (log_start s)"
    by (auto simp: fs_valid_def)
  obtain b s1 where 1: "bread 1 bn s = Ok b s1" "holds s1 b bn" "bc_ok s1" "io_frame s s1"
    "bview s1 = bview s" "hblocks s1 = insert bn (hblocks s)" "dblocks s1 = dblocks s" "disk s1 = disk s"
    "dwrites s1 = dwrites s" "\<forall>c k. holds s c k \<longrightarrow> holds s1 c k"
    using bread_spec [OF D(1) bn(1,2) disjI2 [OF fs_cache_room [OF ok]]] by blast
  note f1 = log_frame [OF 1(4)] io_frame_sel [OF 1(4)]
  have l1: "logged s1 = logged s" by (simp add: logged_def f1)
  have g1: "log_geom s1" using log_geom_frame [OF 1(4)] D(2) by simp
  let ?d = "f (bview s bn)"
  have dat: "data (bufs s1 b) = bview s bn" using holds_data [OF 1(2)] 1(5) by simp
  have r1: "0 < fs_room s1" using room f1 by (simp add: fs_room_def split: if_splits)
  have "lh_n s1 = int (length (logged s1))" "dblocks s1 = set (logged s1)"
    using D(3,7) f1 l1 1(7) by simp_all
  from fs_log_write [OF 1(3) g1 this 1(2) d r1] obtain t where
    t: "log_write b (upd_buf b (\<lambda>u. u\<lparr>data := ?d\<rparr>) s1) = Ok () t" "bc_ok t" "log_geom t"
    "logged t = (if bn \<in> set (logged s) then logged s else logged s @ [bn])"
    "lh_n t = int (length (logged t))" "dblocks t = insert bn (dblocks s)"
    "hblocks t = insert bn (hblocks s)" "bview t = (bview s)(bn := ?d)"
    "\<forall>c k. holds t c k = holds s1 c k"
    and tf: "t = s1\<lparr>bufs := bufs t, lh_n := lh_n t, lh_block := lh_block t\<rparr>"
    unfolding l1 1(5,6,7) by blast
  have tb: "holds t b bn" using t(9) 1(2) by simp
  have tsel: "log_start t = log_start s" "log_size t = log_size s" "disksize t = disksize s"
    "outstanding t = outstanding s" "disk t = disk s" "dwrites t = dwrites s"
    using f1 1(8,9) by (subst tf, simp)+
  have "bn \<in> dblocks t \<or> bview t bn = disk t bn" using t(6) by simp
  from brelse_spec [OF t(2) tb this] obtain u where u: "brelse b t = Ok () u" "bc_ok u" "io_frame t u"
    "bview u = bview t" "hblocks u = hblocks t - {bn}" "dblocks u = dblocks t" "disk u = disk t"
    "dwrites u = dwrites t" "\<forall>c k. k \<noteq> bn \<longrightarrow> holds t c k \<longrightarrow> holds u c k" by blast
  note f2 = log_frame [OF u(3)] io_frame_sel [OF u(3)]
  have lu: "logged u = logged t" by (simp add: logged_def f2)
  have hu: "hblocks u = hblocks s" using u(5) t(7) bn(1) by auto
  have lt: "lh_n t \<le> lh_n s + 1" "lh_n t \<le> 28"
    using t(4,5) D(3,11) room by (auto simp: fs_room_def split: if_splits)
  have "fs_ok u"
    unfolding fs_ok_def lu hu f2 tsel u(6) t(6)
    using u(2) log_geom_frame [OF u(3)] t(3,5) D(4-10) bn lt(2) t(4) by auto
  moreover have "fs_keeps s u"
  proof (rule fs_keepsI)
    have u': "u = t\<lparr>bufs := bufs u, blist := blist u, disk := disk u, dwrites := dwrites u, procs := procs u\<rparr>"
      using u(3) by (simp only: io_frame_def)
    have s1': "s1 = s\<lparr>bufs := bufs s1, blist := blist s1, disk := disk s1, dwrites := dwrites s1, procs := procs s1\<rparr>"
      using 1(4) by (simp only: io_frame_def)
    have "u = s1\<lparr>bufs := bufs u, blist := blist u, disk := disk u, dwrites := dwrites u, procs := procs u,
        lh_n := lh_n t, lh_block := lh_block t\<rparr>"
      by (subst u', subst tf) simp
    also have "\<dots> = s\<lparr>bufs := bufs u, blist := blist u, procs := procs u, lh_n := lh_n t, lh_block := lh_block t\<rparr>"
      by (subst s1') (simp add: u(7,8) tsel)
    finally show "u = s\<lparr>bufs := bufs u, blist := blist u, procs := procs u, lh_n := lh_n t, lh_block := lh_block t\<rparr>" .
    have "procs t = procs s1" by (subst tf) simp
    then show "only_woken (procs s i) (procs u i)" for i
      using 1(4) u(3) by (auto simp: io_frame_def intro: only_woken_trans)
    show "hblocks u = hblocks s" by (rule hu)
    show "holds u c k" if "holds s c k" for c k
      using that 1(10) t(9) u(9) bn(1) holdsD(5) [OF D(1) that] by metis
    show "outstanding s < 1 \<Longrightarrow> lh_n t = lh_n s" using room by (simp add: fs_room_def)
  qed
  moreover have "fs_room s \<le> Suc (fs_room u)" "fs_valid u = fs_valid s"
    using lt(1) f2 tsel hu by (auto simp: fs_room_def fs_valid_def)
  moreover have "upd_buf b (\<lambda>u. u\<lparr>data := f (data u)\<rparr>) s1 = upd_buf b (\<lambda>u. u\<lparr>data := ?d\<rparr>) s1"
    by (simp add: upd_buf_def dat)
  then have "upd_blk 1 bn f s = Ok () u" using 1(1) t(1) u(1) by (simp add: upd_blk_def)
  ultimately show ?thesis using u(4) t(8) by (intro exI [of _ u]) simp
qed

interpretation fsb: block_store "read_blk 1" "upd_blk 1" bview fs_ok fs_valid fs_room fs_keeps
proof (unfold_locales, goal_cases)
  case (1 s b)
  then show ?case by (simp add: fs_okD bview_length)
next
  case (2 s b)
  then show ?case by (rule fs_read)
next
  case (3 s b f)
  then show ?case by (rule fs_update)
qed (fact fs_keeps_refl, rule fs_keeps_trans)

section \<open>Commits and crashes\<close>

text \<open>A commit with what it keeps: outside the log the disk holds the logged blocks, and the log is empty.\<close>

lemma commit_atomic:
  assumes "log_ok s" and "0 < lh_n s" and "lh_n s < int LOGSIZE"
    and "nat (sint (dec32 (disk s (log_start s)))) = 0"
  shows "\<exists>t ws. commit s = Ok () t \<and> wrote (s\<lparr>lh_n := 0\<rparr>) ws {} t \<and> lh_n t = 0 \<and> log_geom t \<and>
    (\<forall>k b. b \<notin> log_area (log_start s) \<longrightarrow>
      recover_disk (log_start s) (apply_writes (take k ws) (disk s)) b =
        (if k \<le> nat (lh_n s) then disk s b else bview s b)) \<and>
    (\<forall>b. b \<notin> log_area (log_start s) \<longrightarrow> disk t b = bview s b) \<and>
    nat (sint (dec32 (disk t (log_start s)))) = 0"
proof -
  let ?bs = "logged s" and ?st = "log_start s"
  let ?W = "commit_writes ?st ?bs (map (bview s) ?bs) (disk s ?st)"
  have D: "bc_ok s" "hblocks s = {}" "distinct ?bs" "set ?bs \<inter> log_area ?st = {}" "dblocks s = set ?bs"
    using assms(1) by (auto simp: log_ok_def)
  have len: "length ?bs = nat (lh_n s)" by (rule length_logged [OF assms(1)])
  obtain t where t: "commit s = Ok () t" "wrote (s\<lparr>lh_n := 0\<rparr>) ?W {} t" "lh_n t = 0" "log_geom t"
    using commit_ok [OF assms(1-3) refl] by blast
  have new: "apply_writes (zip ?bs (map (bview s) ?bs)) (disk s) b = bview s b" for b
  proof (cases "b \<in> set ?bs")
    case True
    then obtain i where "i < length ?bs" "b = ?bs ! i" by (auto simp: in_set_conv_nth)
    then show ?thesis using apply_writes_zip [of ?bs "map (bview s) ?bs" i] D(3) by simp
  next
    case False
    then have "b \<notin> fst ` set (zip ?bs (map (bview s) ?bs))" by (auto dest: set_zip_leftD)
    then show ?thesis
      using clean_on_disk [OF D(1), of b] D(2,5) False by (simp add: apply_writes_other)
  qed
  have rec: "recover_disk ?st (apply_writes (take k ?W) (disk s)) b =
      (if k \<le> nat (lh_n s) then disk s b else bview s b)" if "b \<notin> log_area ?st" for k b
    using crash_recovery [where d = "disk s" and start = ?st and bs = ?bs and vs = "map (bview s) ?bs" and
        k = k and b = b, OF D(4) _ _ D(3) assms(4) that refl] assms(2,3) len new
    by simp
  have full: "length ?W = Suc (nat (lh_n s) + Suc (nat (lh_n s)))"
    using len by (simp add: commit_writes_def)
  have dt: "disk t = apply_writes ?W (disk s)" "dwrites t = dwrites s @ ?W" "dblocks t = {}"
    using t(2) by (simp_all add: wrote_def same_cache [OF log_trunc(1)])
  have new_disk: "disk t b = bview s b" if b: "b \<notin> log_area ?st" for b
  proof -
    have ne: "?st \<noteq> b" using b by (auto simp: log_area_def)
    let ?A = "zip (map (log_slot ?st) [0..<length ?bs]) (map (bview s) ?bs)"
    have "fst ` set ?A \<subseteq> log_area ?st"
      using slots_in_area [of "length ?bs" "length ?A" ?st "map (bview s) ?bs"] len assms(3) by simp
    then have a: "apply_writes ?A (disk s) b = disk s b" using b by (intro apply_writes_other) blast
    show ?thesis
    proof (cases "b \<in> set ?bs")
      case True
      then obtain i where "i < length ?bs" "b = ?bs ! i" by (auto simp: in_set_conv_nth)
      then show ?thesis
        using apply_writes_zip [of ?bs "map (bview s) ?bs" i] D(3) ne dt(1)
        by (simp add: commit_writes_def)
    next
      case False
      then have "b \<notin> fst ` set (zip ?bs (map (bview s) ?bs))" by (auto dest: set_zip_leftD)
      then show ?thesis
        using a ne dt(1) False clean_on_disk [OF D(1), of b] D(2,5)
        by (simp add: commit_writes_def apply_writes_other)
    qed
  qed
  have "disk t ?st = log_head [] (log_head ?bs (disk s ?st))"
    unfolding dt(1) commit_writes_def by simp
  then have "nat (sint (dec32 (disk t ?st))) = 0"
    using log_head_decode(1) [of "[]"] by simp
  with t rec new_disk show ?thesis by blast
qed

section \<open>Properties\<close>

text \<open>
  (C3) Committing is atomic under crashes: when a transaction of fewer than 30 blocks commits on
  a disk whose log is empty, cutting the disk writes of \<open>commit\<close> off after any number \<open>k\<close> of them and
  recovering gives, outside the log, the old contents if the header had not been written yet and the
  contents of all logged blocks otherwise; and the commit itself ends with these contents and an
  empty log.
\<close>

theorem commit_crash_safe:
  assumes "log_ok s" and "0 < lh_n s" and "lh_n s < int LOGSIZE"
    and "nat (sint (dec32 (disk s (log_start s)))) = 0"
  shows "\<exists>t ws. commit s = Ok () t \<and> dwrites t = dwrites s @ ws \<and> lh_n t = 0 \<and> dblocks t = {} \<and>
    (\<forall>k b. b \<notin> log_area (log_start s) \<longrightarrow>
      recover_disk (log_start s) (apply_writes (take k ws) (disk s)) b =
        (if k \<le> nat (lh_n s) then disk s b else bview s b)) \<and>
    (\<forall>b. b \<notin> log_area (log_start s) \<longrightarrow> disk t b = bview s b)"
proof -
  obtain t ws where t: "commit s = Ok () t" "wrote (s\<lparr>lh_n := 0\<rparr>) ws {} t" "lh_n t = 0"
    "\<forall>k b. b \<notin> log_area (log_start s) \<longrightarrow>
      recover_disk (log_start s) (apply_writes (take k ws) (disk s)) b =
        (if k \<le> nat (lh_n s) then disk s b else bview s b)"
    "\<forall>b. b \<notin> log_area (log_start s) \<longrightarrow> disk t b = bview s b"
    using commit_atomic [OF assms] by blast
  moreover have "dwrites t = dwrites s @ ws" "dblocks t = {}"
    using t(2) by (simp_all add: wrote_def same_cache [OF log_trunc(1)])
  ultimately show ?thesis by blast
qed

text \<open>A state in which two blocks are logged, for examples: block \<open>n\<close> of the disk is filled with zeros,
  the log starts at block 2, and buffers 0 and 1 hold new contents of blocks 60 and 61.\<close>

definition ex_dirty :: "uint \<Rightarrow> uchar \<Rightarrow> buf" where
  "ex_dirty bn v = ex_buf\<lparr>B_VALID := True, B_DIRTY := True, bdev := 1, bblockno := bn, data := replicate 512 v\<rparr>"

definition ex_log :: lstate where
  "ex_log = bstate.extend (ex_bstate\<lparr>bufs := (\<lambda>_. ex_buf)(0 := ex_dirty 60 7, 1 := ex_dirty 61 8)\<rparr>)
     (lstate.fields 2 30 0 True 1 2 (60 # 61 # replicate 28 0))"

lemma ex_log_sel [simp]:
  "log_start ex_log = 2" "log_size ex_log = 30" "outstanding ex_log = 0" "log_dev ex_log = 1"
  "lh_n ex_log = 2" "lh_block ex_log = 60 # 61 # replicate 28 0" "disk ex_log = (\<lambda>_. replicate 512 0)"
  "disksize ex_log = 1000" "held ex_log = []" "cur ex_log = Some 3" "blist ex_log = rev [0..<NBUF]"
  "bufs ex_log = (\<lambda>_. ex_buf)(0 := ex_dirty 60 7, 1 := ex_dirty 61 8)"
  by (simp_all add: ex_log_def bstate.extend_def lstate.fields_def ex_bstate_def)

lemma ex_log_cached: "cached ex_log bn = (if bn = 60 then Some 0 else if bn = 61 then Some 1 else None)"
proof -
  have "[0..<NBUF] = 0 # 1 # [2..<NBUF]" by (simp add: NBUF_def upt_conv_Cons)
  moreover have "find (\<lambda>b. bdev (bufs ex_log b) = 1 \<and> bblockno (bufs ex_log b) = bn) [2..<NBUF] = None"
    by (auto simp: find_None_iff ex_buf_def)
  ultimately show ?thesis by (simp add: cached_def ex_dirty_def)
qed

lemma ex_log_area: "log_area 2 \<inter> {60, 61} = {}" "b \<in> log_area 2 \<Longrightarrow> b < 1000"
proof -
  have u: "unat (log_slot 2 i) = i + 3" if "i < LOGSIZE" for i
    using that by (simp add: log_slot_def unat_word_ariths unat_of_nat32 LOGSIZE_def)
  show "log_area 2 \<inter> {60, 61} = {}"
    using u by (auto simp: log_area_def LOGSIZE_def word_unat_eq_iff)
  show "b \<in> log_area 2 \<Longrightarrow> b < 1000"
    using u by (auto simp: log_area_def LOGSIZE_def word_less_nat_alt)
qed

lemma ex_log_ok: "log_ok ex_log"
proof -
  have l: "logged ex_log = [60, 61]" by (simp add: logged_def)
  have "hblocks ex_log = {}" "dblocks ex_log = {60, 61}"
    by (auto simp: hblocks_def dblocks_def ex_log_cached in_use_def ex_dirty_def ex_buf_def split: if_splits)
  moreover have "bc_ok ex_log"
    by (auto simp: bc_ok_def buf_ok_def ex_dirty_def ex_buf_def BSIZE_def Let_def)
  ultimately show ?thesis
    using ex_log_area by (auto simp: log_ok_def l log_geom_def LOGSIZE_def)
qed

theorem commit_crash_safe_witness:
  "\<exists>t ws. commit ex_log = Ok () t \<and> disk t 60 = replicate 512 7 \<and>
     recover_disk 2 (apply_writes (take 2 ws) (disk ex_log)) 60 = replicate 512 0 \<and>
     recover_disk 2 (apply_writes (take 3 ws) (disk ex_log)) 60 = replicate 512 7"
proof -
  have z: "nat (sint (dec32 (disk ex_log (log_start ex_log)))) = 0"
    by (simp add: dec32_def le32_def)
  have v: "bview ex_log 60 = replicate 512 7" by (simp add: bview_def ex_log_cached ex_dirty_def)
  have b: "60 \<notin> log_area 2" using ex_log_area(1) by blast
  obtain t ws where t: "commit ex_log = Ok () t"
    "\<And>k b. b \<notin> log_area 2 \<Longrightarrow> recover_disk 2 (apply_writes (take k ws) (disk ex_log)) b =
      (if k \<le> 2 then disk ex_log b else bview ex_log b)"
    "\<And>b. b \<notin> log_area 2 \<Longrightarrow> disk t b = bview ex_log b"
    using commit_crash_safe [OF ex_log_ok _ _ z] by (auto simp: LOGSIZE_def)
  show ?thesis
    using t(1) t(2) [OF b, of 2] t(2) [OF b, of 3] t(3) [OF b] v
    by (intro exI [of _ t] exI [of _ ws]) simp
qed

text \<open>
  (C4) Recovery at boot does on the disk what the protocol asks for: from a clean cache and a log
  header that names at most 30 distinct blocks outside the log, \<open>recover_from_log\<close> returns with the
  disk \<open>recover_disk\<close> describes, every cached block equal to it, and an empty log.
\<close>

theorem recovery_refines_disk:
  assumes "bc_ok s" and "hblocks s = {}" and "dblocks s = {}" and "log_geom s"
    and "bs = dec32s (nat (sint (dec32 (disk s (log_start s))))) (drop 4 (disk s (log_start s)))"
    and "sint (dec32 (disk s (log_start s))) \<le> int LOGSIZE" and "distinct bs"
    and "set bs \<inter> log_area (log_start s) = {}" and "\<forall>b \<in> set bs. b < disksize s"
  shows "\<exists>t. recover_from_log s = Ok () t \<and> disk t = recover_disk (log_start s) (disk s) \<and>
    bview t = disk t \<and> lh_n t = 0 \<and> dblocks t = {}"
  using recover_from_log_ok [OF assms] by blast

definition ex_boot :: lstate where
  "ex_boot = bstate.extend ex_bstate (lstate.fields 2 30 0 False 1 0 (replicate 30 0))"

theorem recovery_refines_disk_witness:
  "\<exists>t. recover_from_log ex_boot = Ok () t \<and> bview t = disk t \<and> lh_n t = 0"
proof -
  have tr: "bstate.truncate ex_boot = bstate.truncate (bstate.extend ex_bstate (lstate.fields 2 30 0 False 1 0 []))"
    by (simp add: ex_boot_def bstate.truncate_def bstate.extend_def)
  have sel: "log_start ex_boot = 2" "log_dev ex_boot = 1" "lh_block ex_boot = replicate 30 0"
    "disk ex_boot = (\<lambda>_. replicate 512 0)" "disksize ex_boot = 1000" "bufs ex_boot = (\<lambda>_. ex_buf)"
    "blist ex_boot = rev [0..<NBUF]" "held ex_boot = []" "cur ex_boot = Some 3"
    by (simp_all add: ex_boot_def bstate.extend_def lstate.fields_def ex_bstate_def)
  have "bc_ok ex_boot" "hblocks ex_boot = {}" "dblocks ex_boot = {}"
    by (auto simp: bc_ok_def buf_ok_def sel ex_buf_def BSIZE_def hblocks_def dblocks_def in_use_def Let_def)
  moreover have "log_geom ex_boot"
    using ex_log_area(2) by (simp add: log_geom_def sel LOGSIZE_def)
  moreover have "dec32 (replicate 512 0) = 0" by (simp add: dec32_def le32_def)
  ultimately show ?thesis
    using recovery_refines_disk [of ex_boot "[]"] by (auto simp: sel LOGSIZE_def)
qed

text \<open>
  \<open>log_write\<close> absorbs repeated writes: inside a transaction with space left, logging a held
  buffer adds its block to the header once, keeps the logged blocks distinct, and pins the buffer;
  with a full log, and outside a transaction, it panics instead.
\<close>

theorem log_write_absorbs:
  assumes "bc_ok s" and "holds s b bn" and "length (lh_block s) = LOGSIZE" and "0 \<le> lh_n s"
    and "distinct (logged s)"
  shows "if int LOGSIZE \<le> lh_n s \<or> log_size s - 1 \<le> lh_n s
    then log_write b s = Panic ''too big a transaction''
    else if outstanding s < 1 then log_write b s = Panic ''log_write outside of trans''
    else (\<exists>s'. log_write b s = Ok () s' \<and> distinct (logged s') \<and>
      set (logged s') = insert bn (set (logged s)) \<and> bn \<in> dblocks s' \<and> bview s' = bview s \<and>
      lh_n s' \<le> int LOGSIZE)"
proof -
  consider "int LOGSIZE \<le> lh_n s \<or> log_size s - 1 \<le> lh_n s" | "lh_n s < int LOGSIZE" "lh_n s < log_size s - 1"
    "outstanding s < 1" | "lh_n s < int LOGSIZE" "lh_n s < log_size s - 1" "1 \<le> outstanding s" by linarith
  then show ?thesis
  proof cases
    case 3
    let ?s = "upd_buf b (\<lambda>u. u\<lparr>B_DIRTY := True\<rparr>) s"
    obtain n bs where r: "log_write b s = Ok () (?s\<lparr>lh_n := n, lh_block := bs\<rparr>)"
      "take (nat n) bs = (if bn \<in> set (logged s) then logged s else logged s @ [bn])"
      "length bs = LOGSIZE" "n = int (length (take (nat n) bs))"
      using log_write_ok [OF assms(1-4) 3] by blast
    let ?t = "?s\<lparr>lh_n := n, lh_block := bs\<rparr>"
    have tr: "bstate.truncate ?t = bstate.truncate ?s" by simp
    note T = same_cache [OF tr]
    have f: "(\<lambda>u. u\<lparr>B_DIRTY := True\<rparr>) (bufs s b) = (bufs s b)\<lparr>data := bview s bn, B_DIRTY := True\<rparr>"
      using holds_data [OF assms(2)] by (metis buf.surjective buf.update_convs(7))
    note C = change_spec [where f = "\<lambda>u. u\<lparr>B_DIRTY := True\<rparr>" and c = True, OF assms(1,2) f
        bview_length [OF assms(1)]]
    have l: "logged ?t = take (nat n) bs" by (simp add: logged_def)
    have "distinct (logged ?t)" "set (logged ?t) = insert bn (set (logged s))"
      unfolding l r(2) using assms(5) by auto
    moreover have "bn \<in> dblocks ?t" "bview ?t = bview s" unfolding T C by simp_all
    moreover have "lh_n ?t \<le> int LOGSIZE" using r(3,4) by simp
    ultimately have "\<exists>s'. log_write b s = Ok () s' \<and> distinct (logged s') \<and>
      set (logged s') = insert bn (set (logged s)) \<and> bn \<in> dblocks s' \<and> bview s' = bview s \<and>
      lh_n s' \<le> int LOGSIZE" using r(1) by blast
    with 3 show ?thesis by (simp add: not_le not_less)
  qed (simp_all add: log_write_def)
qed

theorem log_write_absorbs_witness:
  "log_write 0 (upd_buf 0 (lock_buf 0) ex_log) = Panic ''log_write outside of trans''"
proof -
  let ?s = "upd_buf 0 (lock_buf 0) ex_log"
  have ok: "bc_ok ex_log" using ex_log_ok by (simp add: log_ok_def)
  have "bc_ok ?s"
    by (rule bc_ok_upd [OF ok]) (auto simp: NBUF_def buf_ok_def ex_dirty_def ex_buf_def BSIZE_def Let_def
        zero_proc_def ex_log_def bstate.extend_def ex_bstate_def split: if_splits)
  moreover have "holds ?s 0 60"
    by (simp add: holds_def NBUF_def in_use_def cached_upd_same ex_log_cached)
  moreover have "logged ?s = [60, 61]" "lh_block ?s = lh_block ex_log" "lh_n ?s = 2" "log_size ?s = 30"
    "outstanding ?s = 0"
    by (simp_all add: logged_def upd_buf_def)
  ultimately show ?thesis
    using log_write_absorbs [of ?s 0 60] by (simp add: LOGSIZE_def)
qed

text \<open>
  \<open>begin_op\<close> reserves log space: it never panics; when it returns, no commit is running and
  the blocks logged so far together with 10 blocks for every operation in progress fit into the log,
  and it counted itself; when it does not return, the caller is asleep with the log's lock free and
  nothing was counted.
\<close>

theorem begin_op_reserves:
  assumes "cur s = Some p" and "held s = []"
  shows "(\<exists>s'. begin_op s = Ok () s' \<and> \<not> committing s' \<and> outstanding s' = outstanding s + 1 \<and>
      lh_n s' + outstanding s' * MAXOPBLOCKS \<le> int LOGSIZE \<and> held s' = []) \<or>
    (\<exists>s'. begin_op s = Swtch s' \<and> outstanding s' = outstanding s \<and> held s' = [Lptable] \<and>
      state (procs s' p) = SLEEPING \<and> chan (procs s' p) = Some ChLog \<and>
      (committing s \<or> int LOGSIZE < lh_n s + (outstanding s + 1) * MAXOPBLOCKS))"
proof -
  let ?w = "committing s \<or> int LOGSIZE < lh_n s + (outstanding s + 1) * MAXOPBLOCKS"
  have a: "acquire_lk Llog s = Ok () (s\<lparr>held := [Llog]\<rparr>)" using assms by simp
  show ?thesis
  proof (cases ?w)
    case True
    then have "begin_op s = sleep ChLog Llog (s\<lparr>held := [Llog]\<rparr>)"
      by (auto simp: begin_op_def begin_op_loop_def a)
    also have "\<dots> = Swtch (upd_proc p (\<lambda>q. q\<lparr>chan := Some ChLog, state := SLEEPING, ctx := AfterSched\<rparr>)
        ((s\<lparr>held := [Llog]\<rparr>)\<lparr>held := [Lptable]\<rparr>))"
      using assms(1) by (intro sleep_Swtch) simp_all
    finally show ?thesis using True by (simp add: upd_proc_def)
  next
    case False
    then have "begin_op s = Ok () (s\<lparr>outstanding := outstanding s + 1\<rparr>)"
      using assms(2) by (simp add: begin_op_def begin_op_loop_def a not_less)
    then show ?thesis using False assms(2) by simp
  qed
qed

theorem begin_op_reserves_witness:
  "\<exists>s'. begin_op (ex_log\<lparr>committing := False\<rparr>) = Ok () s' \<and> outstanding s' = 1"
  using begin_op_reserves [of "ex_log\<lparr>committing := False\<rparr>" 3]
  by (auto simp: LOGSIZE_def MAXOPBLOCKS_def)


definition ex_full :: lstate where
  "ex_full = bstate.extend (ex_bstate\<lparr>bufs := \<lambda>b. if b < NBUF then ex_dirty (of_nat (100 + b)) 7 else ex_buf\<rparr>)
     (lstate.fields 2 31 0 True 1 30 (map (\<lambda>i. of_nat (100 + i)) [0..<NBUF]))"


end
