(* ===== verification/Inode.thy ===== *)
theory Inode
  imports Log Cstring
begin

text \<open>
  The inode layer of \<open>fs.c\<close>: the block allocator on the bitmap, inodes on the disk and in the inode
  cache with their reference counts and sleep locks, and the map from a file's blocks to the disk's.
  Where the code reads a block and releases it, or changes it, logs it and releases it, the model uses
  \<open>read_blk\<close> and \<open>upd_blk\<close>.
\<close>

section \<open>State\<close>

definition NINODE :: nat where "NINODE = 50"

record inode =
  i_dev :: uint
  i_inum :: uint
  i_ref :: int
  ilk :: sleeplock
  i_valid :: bool
  i_type :: ushort
  i_major :: ushort
  i_minor :: ushort
  i_nlink :: ushort
  i_size :: uint
  i_addrs :: "uint list"

text \<open>The functions that can be registered in \<open>devsw\<close>.\<close>

datatype device = ConsoleDev

record fstate = lstate +
  sb :: superblock
  icache :: "nat \<Rightarrow> inode"
  devsw :: "uint \<Rightarrow> device option"

definition upd_inode :: "nat \<Rightarrow> (inode \<Rightarrow> inode) \<Rightarrow> 'a fstate_scheme \<Rightarrow> 'a fstate_scheme" where
  "upd_inode i f s = s\<lparr>icache := (icache s)(i := f (icache s i))\<rparr>"

definition ilk_get :: "nat \<Rightarrow> 'a fstate_scheme \<Rightarrow> sleeplock" where
  "ilk_get i s = ilk (icache s i)"

definition ilk_put :: "nat \<Rightarrow> sleeplock \<Rightarrow> 'a fstate_scheme \<Rightarrow> 'a fstate_scheme" where
  "ilk_put i l s = upd_inode i (\<lambda>n. n\<lparr>ilk := l\<rparr>) s"

section \<open>The block bitmap\<close>

definition bit_of :: "nat \<Rightarrow> uchar" where
  "bit_of bi = push_bit (bi mod 8) 1"

definition bit_set :: "uchar list \<Rightarrow> nat \<Rightarrow> bool" where
  "bit_set d bi \<longleftrightarrow> d ! (bi div 8) AND bit_of bi \<noteq> 0"

definition bzero :: "uint \<Rightarrow> uint \<Rightarrow> 'a lstate_scheme \<Rightarrow> ('a lstate_scheme, unit) res" where
  "bzero dev bno s = upd_blk dev bno (\<lambda>_. replicate BSIZE 0) s"

text \<open>One turn of the outer loop of \<open>balloc\<close>: the bitmap block for the blocks from \<open>b\<close> on.\<close>

definition balloc_group :: "uint \<Rightarrow> nat \<Rightarrow> 'a fstate_scheme \<Rightarrow> ('a fstate_scheme, uint option) res" where
  "balloc_group dev b s =
     bindR (bread dev (BBLOCK (of_nat b) (sb s)) s) (\<lambda>bp s.
       case find (\<lambda>bi. \<not> bit_set (data (bufs s bp)) bi) [0..<min BPB (unat (sb_size (sb s)) - b)] of
         Some bi \<Rightarrow>
           bindR (log_write bp (upd_buf bp (\<lambda>u. u\<lparr>data := (data u)[bi div 8 := data u ! (bi div 8) OR bit_of bi]\<rparr>) s)) (\<lambda>_ s.
           bindR (brelse bp s) (\<lambda>_ s.
           bindR (bzero dev (of_nat (b + bi)) s) (\<lambda>_ s. Ok (Some (of_nat (b + bi))) s)))
       | None \<Rightarrow> bindR (brelse bp s) (\<lambda>_ s. Ok None s))"

definition balloc :: "uint \<Rightarrow> 'a fstate_scheme \<Rightarrow> ('a fstate_scheme, uint) res" where
  "balloc dev s =
     bindR (findR (map (\<lambda>k. k * BPB) [0..<(unat (sb_size (sb s)) + BPB - 1) div BPB]) (balloc_group dev) s) (\<lambda>r s.
       case r of Some b \<Rightarrow> Ok b s | None \<Rightarrow> Panic ''balloc: out of blocks'')"

definition bfree :: "uint \<Rightarrow> uint \<Rightarrow> 'a fstate_scheme \<Rightarrow> ('a fstate_scheme, unit) res" where
  "bfree dev b s =
     bindR (bread dev (BBLOCK b (sb s)) s) (\<lambda>bp s.
       let bi = unat b mod BPB
       in if \<not> bit_set (data (bufs s bp)) bi then Panic ''freeing free block''
          else bindR (log_write bp (upd_buf bp
                 (\<lambda>u. u\<lparr>data := (data u)[bi div 8 := data u ! (bi div 8) AND NOT (bit_of bi)]\<rparr>) s)) (\<lambda>_ s.
               brelse bp s))"

section \<open>Inodes\<close>

text \<open>The inode \<open>inum\<close> in the block that holds it.\<close>

definition dinode_off :: "uint \<Rightarrow> nat" where
  "dinode_off inum = 64 * (unat inum mod IPB)"

definition get_dinode :: "uint \<Rightarrow> uchar list \<Rightarrow> dinode" where
  "get_dinode inum d = dec_dinode (slice (dinode_off inum) 64 d)"

definition put_dinode :: "uint \<Rightarrow> dinode \<Rightarrow> uchar list \<Rightarrow> uchar list" where
  "put_dinode inum n d = splice (dinode_off inum) (enc_dinode n) d"

definition iinit :: "uint \<Rightarrow> 'a fstate_scheme \<Rightarrow> ('a fstate_scheme, unit) res" where
  "iinit dev s =
     bindR (readsb dev (fold (\<lambda>i. upd_inode i (\<lambda>n. n\<lparr>ilk := initsleeplock (ilk n)\<rparr>)) [0..<NINODE] s)) (\<lambda>b s.
       Ok () (s\<lparr>sb := b\<rparr>))"

definition iget :: "uint \<Rightarrow> uint \<Rightarrow> 'a fstate_scheme \<Rightarrow> ('a fstate_scheme, nat) res" where
  "iget dev inum s =
     bindR (acquire_lk Licache s) (\<lambda>_ s.
       case find (\<lambda>i. 0 < i_ref (icache s i) \<and> i_dev (icache s i) = dev \<and> i_inum (icache s i) = inum) [0..<NINODE] of
         Some i \<Rightarrow>
           bindR (release_lk Licache (upd_inode i (\<lambda>n. n\<lparr>i_ref := i_ref n + 1\<rparr>) s)) (\<lambda>_ s. Ok i s)
       | None \<Rightarrow>
           (case find (\<lambda>i. i_ref (icache s i) = 0) [0..<NINODE] of
              None \<Rightarrow> Panic ''iget: no inodes''
            | Some i \<Rightarrow>
                bindR (release_lk Licache (upd_inode i
                  (\<lambda>n. n\<lparr>i_dev := dev, i_inum := inum, i_ref := 1, i_valid := False\<rparr>) s)) (\<lambda>_ s. Ok i s)))"

definition ialloc_try :: "uint \<Rightarrow> ushort \<Rightarrow> nat \<Rightarrow> 'a fstate_scheme \<Rightarrow> ('a fstate_scheme, nat option) res" where
  "ialloc_try dev type inum s =
     bindR (bread dev (IBLOCK (of_nat inum) (sb s)) s) (\<lambda>bp s.
       if di_type (get_dinode (of_nat inum) (data (bufs s bp))) = 0
       then bindR (log_write bp (upd_buf bp (\<lambda>u. u\<lparr>data := put_dinode (of_nat inum)
                \<lparr>di_type = type, di_major = 0, di_minor = 0, di_nlink = 0, di_size = 0,
                 di_addrs = replicate (NDIRECT + 1) 0\<rparr> (data u)\<rparr>) s)) (\<lambda>_ s.
            bindR (brelse bp s) (\<lambda>_ s.
            bindR (iget dev (of_nat inum) s) (\<lambda>i s. Ok (Some i) s)))
       else bindR (brelse bp s) (\<lambda>_ s. Ok None s))"

definition ialloc :: "uint \<Rightarrow> ushort \<Rightarrow> 'a fstate_scheme \<Rightarrow> ('a fstate_scheme, nat) res" where
  "ialloc dev type s =
     bindR (findR [1..<unat (sb_ninodes (sb s))] (ialloc_try dev type) s) (\<lambda>r s.
       case r of Some i \<Rightarrow> Ok i s | None \<Rightarrow> Panic ''ialloc: no inodes'')"

definition dinode_of :: "inode \<Rightarrow> dinode" where
  "dinode_of n =
     \<lparr>di_type = i_type n, di_major = i_major n, di_minor = i_minor n, di_nlink = i_nlink n,
      di_size = i_size n, di_addrs = i_addrs n\<rparr>"

definition iupdate :: "nat \<Rightarrow> 'a fstate_scheme \<Rightarrow> ('a fstate_scheme, unit) res" where
  "iupdate i s =
     upd_blk (i_dev (icache s i)) (IBLOCK (i_inum (icache s i)) (sb s))
       (put_dinode (i_inum (icache s i)) (dinode_of (icache s i))) s"

definition idup :: "nat \<Rightarrow> 'a fstate_scheme \<Rightarrow> ('a fstate_scheme, nat) res" where
  "idup i s =
     bindR (acquire_lk Licache s) (\<lambda>_ s.
     bindR (release_lk Licache (upd_inode i (\<lambda>n. n\<lparr>i_ref := i_ref n + 1\<rparr>) s)) (\<lambda>_ s. Ok i s))"

text \<open>The inode argument of \<open>ilock\<close> and \<open>iunlock\<close> may be the null pointer, \<open>None\<close>.\<close>

definition ilock :: "nat option \<Rightarrow> 'a fstate_scheme \<Rightarrow> ('a fstate_scheme, unit) res" where
  "ilock ip s =
     (case ip of
        None \<Rightarrow> Panic ''ilock''
      | Some i \<Rightarrow>
          if i_ref (icache s i) < 1 then Panic ''ilock''
          else bindR (acquiresleep (ChInodeLock i) (ilk_get i) (ilk_put i) s) (\<lambda>_ s.
            if i_valid (icache s i) then Ok () s
            else bindR (read_blk (i_dev (icache s i)) (IBLOCK (i_inum (icache s i)) (sb s)) s) (\<lambda>d s.
              let di = get_dinode (i_inum (icache s i)) d;
                  s = upd_inode i (\<lambda>n. n\<lparr>i_type := di_type di, i_major := di_major di,
                        i_minor := di_minor di, i_nlink := di_nlink di, i_size := di_size di,
                        i_addrs := di_addrs di, i_valid := True\<rparr>) s
              in if i_type (icache s i) = 0 then Panic ''ilock: no type'' else Ok () s)))"

definition iunlock :: "nat option \<Rightarrow> 'a fstate_scheme \<Rightarrow> ('a fstate_scheme, unit) res" where
  "iunlock ip s =
     (case ip of
        None \<Rightarrow> Panic ''iunlock''
      | Some i \<Rightarrow>
          bindR (holdingsleep (ChInodeLock i) (ilk_get i) s) (\<lambda>h s.
            if \<not> h \<or> i_ref (icache s i) < 1 then Panic ''iunlock''
            else releasesleep (ChInodeLock i) (ilk_get i) (ilk_put i) s))"

text \<open>Freeing the blocks of an inode. The indirect block stays held while its entries are freed.\<close>

definition itrunc :: "nat \<Rightarrow> 'a fstate_scheme \<Rightarrow> ('a fstate_scheme, unit) res" where
  "itrunc i s =
     bindR (forR [0..<NDIRECT] (\<lambda>k s.
       if i_addrs (icache s i) ! k \<noteq> 0
       then bindR (bfree (i_dev (icache s i)) (i_addrs (icache s i) ! k) s) (\<lambda>_ s.
            Ok () (upd_inode i (\<lambda>n. n\<lparr>i_addrs := (i_addrs n)[k := 0]\<rparr>) s))
       else Ok () s) s) (\<lambda>_ s.
     bindR (if i_addrs (icache s i) ! NDIRECT \<noteq> 0
       then bindR (bread (i_dev (icache s i)) (i_addrs (icache s i) ! NDIRECT) s) (\<lambda>bp s.
            bindR (forR [0..<NINDIRECT] (\<lambda>j s.
              let a = dec32 (drop (4 * j) (data (bufs s bp)))
              in if a \<noteq> 0 then bfree (i_dev (icache s i)) a s else Ok () s) s) (\<lambda>_ s.
            bindR (brelse bp s) (\<lambda>_ s.
            bindR (bfree (i_dev (icache s i)) (i_addrs (icache s i) ! NDIRECT) s) (\<lambda>_ s.
              Ok () (upd_inode i (\<lambda>n. n\<lparr>i_addrs := (i_addrs n)[NDIRECT := 0]\<rparr>) s)))))
       else Ok () s) (\<lambda>_ s.
     iupdate i (upd_inode i (\<lambda>n. n\<lparr>i_size := 0\<rparr>) s)))"

definition iput :: "nat \<Rightarrow> 'a fstate_scheme \<Rightarrow> ('a fstate_scheme, unit) res" where
  "iput i s =
     bindR (acquiresleep (ChInodeLock i) (ilk_get i) (ilk_put i) s) (\<lambda>_ s.
     bindR (if i_valid (icache s i) \<and> i_nlink (icache s i) = 0
       then bindR (acquire_lk Licache s) (\<lambda>_ s.
            let r = i_ref (icache s i)
            in bindR (release_lk Licache s) (\<lambda>_ s.
              if r = 1
              then bindR (itrunc i s) (\<lambda>_ s.
                   bindR (iupdate i (upd_inode i (\<lambda>n. n\<lparr>i_type := 0\<rparr>) s)) (\<lambda>_ s.
                   Ok () (upd_inode i (\<lambda>n. n\<lparr>i_valid := False\<rparr>) s)))
              else Ok () s))
       else Ok () s) (\<lambda>_ s.
     bindR (releasesleep (ChInodeLock i) (ilk_get i) (ilk_put i) s) (\<lambda>_ s.
     bindR (acquire_lk Licache s) (\<lambda>_ s.
       release_lk Licache (upd_inode i (\<lambda>n. n\<lparr>i_ref := i_ref n - 1\<rparr>) s)))))"

definition iunlockput :: "nat \<Rightarrow> 'a fstate_scheme \<Rightarrow> ('a fstate_scheme, unit) res" where
  "iunlockput i s = bindR (iunlock (Some i) s) (\<lambda>_ s. iput i s)"

section \<open>The blocks of a file\<close>

definition bmap :: "nat \<Rightarrow> uint \<Rightarrow> 'a fstate_scheme \<Rightarrow> ('a fstate_scheme, uint) res" where
  "bmap i bn s =
     (if bn < of_nat NDIRECT
      then let addr = i_addrs (icache s i) ! unat bn
           in if addr = 0
              then bindR (balloc (i_dev (icache s i)) s) (\<lambda>addr s.
                   Ok addr (upd_inode i (\<lambda>n. n\<lparr>i_addrs := (i_addrs n)[unat bn := addr]\<rparr>) s))
              else Ok addr s
      else let bn = bn - of_nat NDIRECT
           in if bn < of_nat NINDIRECT
              then bindR (let addr = i_addrs (icache s i) ! NDIRECT
                     in if addr = 0
                        then bindR (balloc (i_dev (icache s i)) s) (\<lambda>addr s.
                             Ok addr (upd_inode i (\<lambda>n. n\<lparr>i_addrs := (i_addrs n)[NDIRECT := addr]\<rparr>) s))
                        else Ok addr s) (\<lambda>addr s.
                   bindR (bread (i_dev (icache s i)) addr s) (\<lambda>bp s.
                   let addr = dec32 (drop (4 * unat bn) (data (bufs s bp)))
                   in bindR (if addr = 0
                        then bindR (balloc (i_dev (icache s i)) s) (\<lambda>addr s.
                             bindR (log_write bp (upd_buf bp (\<lambda>u. u\<lparr>data := splice (4 * unat bn) (enc32 addr) (data u)\<rparr>) s)) (\<lambda>_ s.
                             Ok addr s))
                        else Ok addr s) (\<lambda>addr s.
                      bindR (brelse bp s) (\<lambda>_ s. Ok addr s))))
              else Panic ''bmap: out of range'')"

record stat =
  st_type :: ushort
  st_dev :: uint
  st_ino :: uint
  st_nlink :: ushort
  st_size :: uint

definition stati :: "nat \<Rightarrow> 'a fstate_scheme \<Rightarrow> stat" where
  "stati i s =
     \<lparr>st_type = i_type (icache s i), st_dev = i_dev (icache s i), st_ino = i_inum (icache s i),
      st_nlink = i_nlink (icache s i), st_size = i_size (icache s i)\<rparr>"

section \<open>The locks of the inodes\<close>

interpretation il: sleep_lock "ChInodeLock i" "ilk_get i" "ilk_put i"
  by unfold_locales (simp_all add: ilk_get_def ilk_put_def upd_inode_def)

section \<open>What changes of inodes leave alone\<close>

lemma upd_inode_sel [simp]:
  "icache (upd_inode i f s) = (icache s)(i := f (icache s i))" "sb (upd_inode i f s) = sb s"
  "devsw (upd_inode i f s) = devsw s" "held (upd_inode i f s) = held s" "cur (upd_inode i f s) = cur s"
  "procs (upd_inode i f s) = procs s" "bufs (upd_inode i f s) = bufs s" "blist (upd_inode i f s) = blist s"
  "disk (upd_inode i f s) = disk s" "disksize (upd_inode i f s) = disksize s" "mem (upd_inode i f s) = mem s"
  "lh_n (upd_inode i f s) = lh_n s" "lh_block (upd_inode i f s) = lh_block s"
  "outstanding (upd_inode i f s) = outstanding s" "log_start (upd_inode i f s) = log_start s"
  "log_size (upd_inode i f s) = log_size s" "log_dev (upd_inode i f s) = log_dev s"
  by (simp_all add: upd_inode_def)

lemma upd_inode_view [simp]:
  "bview (upd_inode i f s) = bview s" "fs_ok (upd_inode i f s) = fs_ok s"
  "fs_valid (upd_inode i f s) = fs_valid s" "fs_room (upd_inode i f s) = fs_room s"
  "hblocks (upd_inode i f s) = hblocks s" "dblocks (upd_inode i f s) = dblocks s"
  "holds (upd_inode i f s) c k = holds s c k"
  by (auto simp: fun_eq_iff bview_def cached_def fs_ok_def bc_ok_def buf_ok_def hblocks_def dblocks_def in_use_def
      holds_def logged_def log_geom_def fs_valid_def fs_room_def Let_def cong: option.case_cong)

lemma fs_keeps_icache:
  fixes s t :: "'a fstate_scheme"
  assumes "fs_keeps s t"
  shows "sb t = sb s" "icache t = icache s" "devsw t = devsw s"
proof -
  have t: "t = s\<lparr>bufs := bufs t, blist := blist t, procs := procs t, lh_n := lh_n t, lh_block := lh_block t\<rparr>"
    using assms by (simp only: fs_keeps_def)
  show "sb t = sb s" "icache t = icache s" "devsw t = devsw s" by (subst t, simp)+
qed

text \<open>Reading a block to look at it: what follows is a \<open>read_blk\<close> or an \<open>upd_blk\<close>.\<close>

lemma fs_bread:
  fixes s :: "'a fstate_scheme"
  assumes "fs_ok s" "fs_valid s bn"
  shows "\<exists>b s1. bread 1 bn s = Ok b s1 \<and> data (bufs s1 b) = bview s bn \<and> sb s1 = sb s \<and> icache s1 = icache s"
proof -
  note D = fs_okD [OF assms(1)]
  from assms(2) have bn: "bn \<notin> hblocks s" "bn < disksize s" by (auto simp: fs_valid_def)
  obtain b s1 where 1: "bread 1 bn s = Ok b s1" "holds s1 b bn" "bview s1 = bview s" "io_frame s s1"
    using bread_spec [OF D(1) bn disjI2 [OF fs_cache_room [OF assms(1)]]] by blast
  have s1: "s1 = s\<lparr>bufs := bufs s1, blist := blist s1, disk := disk s1, dwrites := dwrites s1, procs := procs s1\<rparr>"
    using 1(4) by (simp only: io_frame_def)
  have "sb s1 = sb s" "icache s1 = icache s" by (subst s1, simp)+
  with 1(1) holds_data [OF 1(2)] 1(3) show ?thesis by auto
qed

section \<open>The bitmap\<close>

text \<open>
  Block \<open>b\<close> of the file system is in use. The layout puts the bitmap on blocks of its own, outside the
  log, and every block the bitmap calls free is a block that may be written.
\<close>

definition used :: "'a fstate_scheme \<Rightarrow> nat \<Rightarrow> bool" where
  "used s b = bit_set (bview s (BBLOCK (of_nat b) (sb s))) (b mod BPB)"

definition bitmap_block :: "'a fstate_scheme \<Rightarrow> uint \<Rightarrow> bool" where
  "bitmap_block s bn \<longleftrightarrow> (\<exists>b < unat (sb_size (sb s)). bn = BBLOCK (of_nat b) (sb s))"

definition layout_ok :: "'a fstate_scheme \<Rightarrow> bool" where
  "layout_ok s \<longleftrightarrow>
     unat (sb_bmapstart (sb s)) + unat (sb_size (sb s)) div BPB < 2 ^ 32 \<and>
     (\<forall>b < unat (sb_size (sb s)). fs_valid s (BBLOCK (of_nat b) (sb s))) \<and>
     (\<forall>b < unat (sb_size (sb s)). \<not> used s b \<longrightarrow> fs_valid s (of_nat b) \<and> \<not> bitmap_block s (of_nat b))"

lemma BBLOCK_unat:
  assumes "unat (sb_bmapstart sp) + n div BPB < 2 ^ 32" "b \<le> n" "n < 2 ^ 32"
  shows "unat (BBLOCK (of_nat b) sp) = b div BPB + unat (sb_bmapstart sp)"
proof -
  have "b div BPB \<le> n div BPB" using assms(2) by (rule div_le_mono)
  moreover have "unat (of_nat b div of_nat BPB :: uint) = b div BPB"
    using assms(2,3) by (simp add: unat_div unat_of_nat32 BPB_def)
  ultimately show ?thesis
    using assms(1) by (simp add: BBLOCK_def unat_add_lt)
qed

lemma BBLOCK_eq_iff:
  assumes "unat (sb_bmapstart sp) + n div BPB < 2 ^ 32" "b \<le> n" "c \<le> n" "n < 2 ^ 32"
  shows "BBLOCK (of_nat b) sp = BBLOCK (of_nat c) sp \<longleftrightarrow> b div BPB = c div BPB"
  using BBLOCK_unat [OF assms(1,2,4)] BBLOCK_unat [OF assms(1,3,4)] by (metis add_right_cancel word_unat_eq_iff)

text \<open>Setting and clearing one bit of a block of bytes.\<close>

lemma bit_of_bit: "bit (bit_of bi) k \<longleftrightarrow> k = bi mod 8"
  by (auto simp: bit_of_def bit_simps)

lemma bit_set_bit: "bit_set d bi \<longleftrightarrow> bit (d ! (bi div 8)) (bi mod 8)"
proof -
  have "d ! (bi div 8) AND bit_of bi \<noteq> 0 \<longleftrightarrow> (\<exists>k. bit (d ! (bi div 8) AND bit_of bi) k)"
    by (auto simp: bit_eq_iff) (metis bit_uchar_ge not_le)
  then show ?thesis by (auto simp: bit_set_def bit_and_iff bit_of_bit)
qed

lemma bit_set_or:
  assumes "bi div 8 < length d"
  shows "bit_set (d[bi div 8 := d ! (bi div 8) OR bit_of bi]) c \<longleftrightarrow> c = bi \<or> bit_set d c"
proof (cases "c div 8 = bi div 8")
  case True
  then have "c mod 8 = bi mod 8 \<longleftrightarrow> c = bi" by (metis mult_div_mod_eq)
  with True assms show ?thesis by (auto simp: bit_set_bit bit_or_iff bit_of_bit)
qed (auto simp: bit_set_bit)

lemma bit_set_clear:
  assumes "bi div 8 < length d"
  shows "bit_set (d[bi div 8 := d ! (bi div 8) AND NOT (bit_of bi)]) c \<longleftrightarrow> c \<noteq> bi \<and> bit_set d c"
proof (cases "c div 8 = bi div 8")
  case True
  then have "c mod 8 = bi mod 8 \<longleftrightarrow> c = bi" by (metis mult_div_mod_eq)
  moreover have "c mod 8 < 8" by simp
  ultimately show ?thesis using True assms by (auto simp: bit_set_bit bit_and_iff bit_not_iff bit_of_bit)
qed (auto simp: bit_set_bit)

text \<open>The state after file system code changed blocks: everything but the content is as before.\<close>

definition fs_after :: "'a fstate_scheme \<Rightarrow> 'a fstate_scheme \<Rightarrow> (uint \<Rightarrow> uchar list) \<Rightarrow> nat \<Rightarrow> bool" where
  "fs_after s s' v n \<longleftrightarrow>
     fs_ok s' \<and> bview s' = v \<and> fs_room s \<le> fs_room s' + n \<and> fs_valid s' = fs_valid s \<and> fs_keeps s s'"

lemma fs_afterD:
  assumes "fs_after s s' v n"
  shows "fs_ok s'" "bview s' = v" "fs_room s \<le> fs_room s' + n" "fs_valid s' = fs_valid s" "fs_keeps s s'"
    "sb s' = sb s" "icache s' = icache s" "devsw s' = devsw s" "cur s' = cur s" "held s' = held s"
proof -
  from assms show k: "fs_ok s'" "bview s' = v" "fs_room s \<le> fs_room s' + n" "fs_valid s' = fs_valid s" "fs_keeps s s'"
    by (simp_all add: fs_after_def)
  show "sb s' = sb s" "icache s' = icache s" "devsw s' = devsw s" "cur s' = cur s" "held s' = held s"
    using fs_keeps_icache [OF k(5)] fs_keeps_sel(9,10) [OF k(5)] by simp_all
qed

lemma fs_after_refl: "fs_ok s \<Longrightarrow> fs_after s s (bview s) 0"
  by (simp add: fs_after_def fs_keeps_refl)

lemma fs_after_trans:
  assumes "fs_after s t v m" "fs_after t u w n"
  shows "fs_after s u w (m + n)"
proof -
  have "fs_keeps s u" using assms fs_keeps_trans unfolding fs_after_def by blast
  then show ?thesis using assms unfolding fs_after_def by auto
qed

lemma fs_after_read:
  fixes s :: "'a fstate_scheme"
  assumes "fs_ok s" "fs_valid s bn"
  shows "\<exists>s'. read_blk 1 bn s = Ok (bview s bn) s' \<and> fs_after s s' (bview s) 0"
  using fsb.read_ok [OF assms] by (auto simp: fs_after_def)

lemma fs_after_update:
  fixes s :: "'a fstate_scheme"
  assumes "fs_ok s" "fs_valid s bn" "0 < fs_room s" "length (f (bview s bn)) = BSIZE"
  shows "\<exists>s'. upd_blk 1 bn f s = Ok () s' \<and> fs_after s s' ((bview s)(bn := f (bview s bn))) 1"
  using fsb.update_ok [where f = f, OF assms] by (auto simp: fs_after_def)

definition mark_bit :: "nat \<Rightarrow> uchar list \<Rightarrow> uchar list" where
  "mark_bit bi d = d[bi div 8 := d ! (bi div 8) OR bit_of bi]"

definition clear_bit :: "nat \<Rightarrow> uchar list \<Rightarrow> uchar list" where
  "clear_bit bi d = d[bi div 8 := d ! (bi div 8) AND NOT (bit_of bi)]"

lemma group_used:
  assumes "layout_ok s" "b < unat (sb_size (sb s))" "b mod BPB = 0" "bi < BPB" "b + bi < unat (sb_size (sb s))"
  shows "BBLOCK (of_nat (b + bi)) (sb s) = BBLOCK (of_nat b) (sb s)"
    and "used s (b + bi) = bit_set (bview s (BBLOCK (of_nat b) (sb s))) bi"
proof -
  have B: "0 < BPB" by (simp add: BPB_def)
  have "(b + bi) div BPB = b div BPB" "(b + bi) mod BPB = bi"
    using assms(3,4) by (auto simp: div_add1_eq mod_add_left_eq [symmetric] mod_add_eq [symmetric])
  moreover have "unat (sb_size (sb s)) < 2 ^ 32" using unat_lt32 by simp
  ultimately show 1: "BBLOCK (of_nat (b + bi)) (sb s) = BBLOCK (of_nat b) (sb s)"
    using assms by (subst BBLOCK_eq_iff [where n = "unat (sb_size (sb s))"]) (auto simp: layout_ok_def)
  show "used s (b + bi) = bit_set (bview s (BBLOCK (of_nat b) (sb s))) bi"
    unfolding used_def 1 using \<open>(b + bi) mod BPB = bi\<close> by simp
qed

text \<open>The group of \<open>b\<close> in the loop of \<open>balloc\<close>.\<close>

lemma balloc_group_eq:
  fixes s :: "'a fstate_scheme"
  assumes "fs_ok s" "fs_valid s (BBLOCK (of_nat b) (sb s))"
  shows "balloc_group 1 b s =
    (case find (\<lambda>bi. \<not> bit_set (bview s (BBLOCK (of_nat b) (sb s))) bi) [0..<min BPB (unat (sb_size (sb s)) - b)] of
       Some bi \<Rightarrow> bindR (upd_blk 1 (BBLOCK (of_nat b) (sb s)) (mark_bit bi) s) (\<lambda>_ s.
         bindR (bzero 1 (of_nat (b + bi)) s) (\<lambda>_ s. Ok (Some (of_nat (b + bi))) s))
     | None \<Rightarrow> bindR (read_blk 1 (BBLOCK (of_nat b) (sb s)) s) (\<lambda>_ s. Ok None s))"
proof -
  obtain x s1 where 1: "bread 1 (BBLOCK (of_nat b) (sb s)) s = Ok x s1"
    "data (bufs s1 x) = bview s (BBLOCK (of_nat b) (sb s))" "sb s1 = sb s"
    using fs_bread [OF assms] by blast
  then show ?thesis
    by (auto simp: balloc_group_def upd_blk_def read_blk_def mark_bit_def bindR_assoc Let_def split: option.split)
qed

lemma balloc_group_none:
  fixes s :: "'a fstate_scheme"
  assumes ok: "fs_ok s" and lay: "layout_ok s" and b: "b < unat (sb_size (sb s))" "b mod BPB = 0"
    and all: "\<And>c. b \<le> c \<Longrightarrow> c < b + BPB \<Longrightarrow> c < unat (sb_size (sb s)) \<Longrightarrow> used s c"
  shows "\<exists>s'. balloc_group 1 b s = Ok None s' \<and> fs_after s s' (bview s) 0"
proof -
  have v: "fs_valid s (BBLOCK (of_nat b) (sb s))" using lay b(1) by (simp add: layout_ok_def)
  have "find (\<lambda>bi. \<not> bit_set (bview s (BBLOCK (of_nat b) (sb s))) bi)
      [0..<min BPB (unat (sb_size (sb s)) - b)] = None"
    using group_used(2) [OF lay b] all by (fastforce simp: find_None_iff)
  then show ?thesis using balloc_group_eq [OF ok v] fs_after_read [OF ok v] by auto
qed

lemma length_mark_bit [simp]: "length (mark_bit bi d) = length d" "length (clear_bit bi d) = length d"
  by (simp_all add: mark_bit_def clear_bit_def)

lemma balloc_group_hit:
  fixes s :: "'a fstate_scheme"
  assumes ok: "fs_ok s" and lay: "layout_ok s" and b: "b < unat (sb_size (sb s))" "b mod BPB = 0"
    and c: "b \<le> c" "c < b + BPB" "c < unat (sb_size (sb s))" "\<not> used s c" "\<And>x. b \<le> x \<Longrightarrow> x < c \<Longrightarrow> used s x"
    and room: "2 \<le> fs_room s"
  shows "\<exists>s'. balloc_group 1 b s = Ok (Some (of_nat c)) s' \<and>
    fs_after s s' ((bview s)(BBLOCK (of_nat c) (sb s) := mark_bit (c mod BPB) (bview s (BBLOCK (of_nat c) (sb s))),
      of_nat c := replicate BSIZE 0)) 2"
proof -
  let ?n = "BBLOCK (of_nat b) (sb s)"
  define bi where "bi = c - b"
  have bi: "c = b + bi" "bi < BPB" using c(1,2) by (auto simp: bi_def)
  note G = group_used [OF lay b]
  have cb: "BBLOCK (of_nat c) (sb s) = ?n" using G(1) [of bi] bi c(3) by simp
  have cm: "c mod BPB = bi" using bi b(2) by (metis add_0 mod_add_left_eq mod_less)
  have v: "fs_valid s ?n" using lay b(1) by (simp add: layout_ok_def)
  have "find (\<lambda>i. \<not> bit_set (bview s ?n) i) [0..<min BPB (unat (sb_size (sb s)) - b)] = Some bi"
  proof -
    have "bit_set (bview s ?n) j" if "j < bi" for j
      using G(2) [of j] c(3,5) that bi by auto
    moreover have "\<not> bit_set (bview s ?n) bi" using G(2) [of bi] bi c(3,4) by simp
    ultimately show ?thesis
      using bi c(3) by (auto simp: find_Some_iff intro!: exI [of _ bi])
  qed
  moreover have len: "length (mark_bit bi (bview s ?n)) = BSIZE" using ok by (simp add: fsb.view_len)
  then obtain s1 where s1: "upd_blk 1 ?n (mark_bit bi) s = Ok () s1"
    "fs_after s s1 ((bview s)(?n := mark_bit bi (bview s ?n))) 1"
    using fs_after_update [where f = "mark_bit bi", OF ok v] room by auto
  have vc: "fs_valid s1 (of_nat c)" "of_nat c \<noteq> ?n"
    using lay c(3,4) b(1) fs_afterD(4) [OF s1(2)] by (auto simp: layout_ok_def bitmap_block_def)
  obtain s2 where s2: "bzero 1 (of_nat c) s1 = Ok () s2"
    "fs_after s1 s2 ((bview s1)(of_nat c := replicate BSIZE 0)) 1"
    using fs_after_update [OF fs_afterD(1) [OF s1(2)] vc(1), of "\<lambda>_. replicate BSIZE 0"] room
      fs_afterD(3) [OF s1(2)] by (auto simp: bzero_def)
  have "fs_after s s2 ((bview s)(?n := mark_bit bi (bview s ?n), of_nat c := replicate BSIZE 0)) 2"
    using fs_after_trans [OF s1(2) s2(2)] fs_afterD(2) [OF s1(2)] by (simp add: numeral_2_eq_2)
  ultimately show ?thesis
    using balloc_group_eq [OF ok v] s1(1) s2(1) bi(1) cb cm by auto
qed

lemma groups_below: "b \<in> set (map (\<lambda>k. k * BPB) [0..<(n + BPB - 1) div BPB]) \<Longrightarrow> b < n \<and> b mod BPB = 0"
proof -
  assume "b \<in> set (map (\<lambda>k. k * BPB) [0..<(n + BPB - 1) div BPB])"
  then have "\<exists>k. b = k * BPB \<and> k < (n + BPB - 1) div BPB" by auto
  then obtain k where k: "b = k * BPB" "k < (n + BPB - 1) div BPB" by blast
  then have "Suc k * BPB \<le> (n + BPB - 1) div BPB * BPB" by (intro mult_right_mono) auto
  also have "\<dots> \<le> n + BPB - 1" by simp
  finally show ?thesis using k(1) by (simp add: BPB_def)
qed

lemma groups_split:
  assumes "c < n"
  shows "\<exists>ys. map (\<lambda>k. k * BPB) [0..<(n + BPB - 1) div BPB] =
    map (\<lambda>k. k * BPB) [0..<c div BPB] @ (c div BPB * BPB) # ys"
proof -
  have "c div BPB < (n + BPB - 1) div BPB"
    using assms by (simp add: BPB_def)
  then obtain k where k: "(n + BPB - 1) div BPB = c div BPB + Suc k"
    using less_imp_Suc_add by fastforce
  show ?thesis unfolding k upt_add_eq_append [OF le0] by (simp add: upt_conv_Cons del: upt_Suc)
qed

section \<open>Allocating and freeing blocks\<close>

lemma used_update:
  assumes lay: "layout_ok s" and c: "c < unat (sb_size (sb s))" "d < unat (sb_size (sb s))"
    and t: "sb t = sb s" "\<And>x. bitmap_block s x \<Longrightarrow> bview t x = ((bview s)(BBLOCK (of_nat c) (sb s) := g)) x"
    and g: "\<And>i. i < BPB \<Longrightarrow> bit_set g i = (if i = c mod BPB then v else bit_set (bview s (BBLOCK (of_nat c) (sb s))) i)"
  shows "used t d = (if d = c then v else used s d)"
proof -
  have eq: "BBLOCK (of_nat d) (sb s) = BBLOCK (of_nat c) (sb s) \<longleftrightarrow> d div BPB = c div BPB"
    using lay c unat_lt32 [of "sb_size (sb s)"]
    by (intro BBLOCK_eq_iff [where n = "unat (sb_size (sb s))"]) (auto simp: layout_ok_def)
  have "d = c \<longleftrightarrow> d div BPB = c div BPB \<and> d mod BPB = c mod BPB" by (metis mult_div_mod_eq)
  moreover have "bitmap_block s (BBLOCK (of_nat d) (sb s))" using c by (auto simp: bitmap_block_def)
  moreover have "d mod BPB < BPB" by (simp add: BPB_def)
  ultimately show ?thesis using t eq g by (auto simp: used_def)
qed

lemma bits_in_block: "i < BPB \<Longrightarrow> length d = BSIZE \<Longrightarrow> i div 8 < length d"
  by (simp add: BPB_def BSIZE_def)

lemma layout_ok_after:
  assumes lay: "layout_ok s" and t: "sb t = sb s" "fs_valid t = fs_valid s"
    and u: "\<And>d. d < unat (sb_size (sb s)) \<Longrightarrow> \<not> used t d \<Longrightarrow> \<not> used s d \<or>
      fs_valid s (of_nat d) \<and> \<not> bitmap_block s (of_nat d)"
  shows "layout_ok t"
  using assms unfolding layout_ok_def bitmap_block_def by auto

text \<open>
  \<open>balloc\<close> takes the first free block: it marks it in the bitmap, fills it with zeros and changes
  nothing else.
\<close>

lemma balloc_ok:
  fixes s :: "'a fstate_scheme"
  assumes ok: "fs_ok s" and lay: "layout_ok s" and room: "2 \<le> fs_room s"
    and c: "c < unat (sb_size (sb s))" "\<not> used s c" "\<forall>d < c. used s d"
  shows "\<exists>s'. balloc 1 s = Ok (of_nat c) s' \<and>
    fs_after s s' ((bview s)(BBLOCK (of_nat c) (sb s) := mark_bit (c mod BPB) (bview s (BBLOCK (of_nat c) (sb s))),
      of_nat c := replicate BSIZE 0)) 2 \<and> layout_ok s' \<and>
    (\<forall>d < unat (sb_size (sb s)). used s' d = (d = c \<or> used s d))"
proof -
  let ?gs = "map (\<lambda>k. k * BPB) [0..<(unat (sb_size (sb s)) + BPB - 1) div BPB]"
  let ?b = "c div BPB * BPB"
  let ?P = "\<lambda>t. fs_after s t (bview s) 0"
  have B: "0 < BPB" by (simp add: BPB_def)
  have cb: "?b \<le> c" "c < ?b + BPB" using dividend_less_div_times [OF B, of c] by simp_all
  obtain ys where ys: "?gs = map (\<lambda>k. k * BPB) [0..<c div BPB] @ ?b # ys"
    using groups_split [OF c(1)] by blast
  have before: "\<exists>t'. balloc_group 1 x t = Ok None t' \<and> ?P t'"
    if x: "x \<in> set (map (\<lambda>k. k * BPB) [0..<c div BPB])" and t: "?P t" for x t
  proof -
    note T = fs_afterD [OF t]
    have "\<exists>k. x = k * BPB \<and> k < c div BPB" using x by auto
    then obtain k where k: "x = k * BPB" "k < c div BPB" by blast
    then have "Suc k * BPB \<le> ?b" by (intro mult_right_mono) auto
    then have xc: "x + BPB \<le> c" using k(1) cb(1) by (simp del: div_times_less_eq_dividend)
    have "layout_ok t" using lay T(2,4,6) by (simp add: layout_ok_def used_def bitmap_block_def)
    moreover have "used t d" if "d < x + BPB" for d
      using c(3) that xc T(2,6) by (simp add: used_def)
    ultimately obtain t' where "balloc_group 1 x t = Ok None t'" "fs_after t t' (bview t) 0"
      using balloc_group_none [of t x] T(1,6) k(1) xc c(1) B by auto
    with fs_after_trans [OF t] T(2) show ?thesis by fastforce
  qed
  obtain t where t: "?P t" "findR ?gs (balloc_group 1) s =
      bindR (balloc_group 1 ?b t) (\<lambda>r s. case r of Some b \<Rightarrow> Ok (Some b) s | None \<Rightarrow> findR ys (balloc_group 1) s)"
    using findR_hit [where P = ?P and f = "balloc_group 1" and y = ?b and ys = ys, OF fs_after_refl [OF ok] before]
    unfolding ys by blast
  note T = fs_afterD [OF t(1)]
  have layt: "layout_ok t" using lay T(2,4,6) by (simp add: layout_ok_def used_def bitmap_block_def)
  have ut: "used t d = used s d" for d using T(2,6) by (simp add: used_def)
  obtain s' where s': "balloc_group 1 ?b t = Ok (Some (of_nat c)) s'"
    "fs_after t s' ((bview t)(BBLOCK (of_nat c) (sb t) := mark_bit (c mod BPB) (bview t (BBLOCK (of_nat c) (sb t))),
      of_nat c := replicate BSIZE 0)) 2"
    using balloc_group_hit [OF T(1) layt _ _ cb _ _ _ _] c ut T(3,6) room cb(1) by force
  let ?v = "(bview s)(BBLOCK (of_nat c) (sb s) := mark_bit (c mod BPB) (bview s (BBLOCK (of_nat c) (sb s))),
      of_nat c := replicate BSIZE 0)"
  have s'': "fs_after s s' ?v 2" using fs_after_trans [OF t(1) s'(2)] T(2,6) by (simp add: numeral_2_eq_2)
  note S = fs_afterD [OF s'']
  have nb: "\<not> bitmap_block s (of_nat c)" "fs_valid s (of_nat c)" using lay c by (auto simp: layout_ok_def)
  have idx: "c mod BPB div 8 < length (bview s (BBLOCK (of_nat c) (sb s)))"
    using B by (intro bits_in_block fsb.view_len [OF ok]) simp
  have u: "used s' d = (if d = c then True else used s d)" if d: "d < unat (sb_size (sb s))" for d
  proof (rule used_update [OF lay c(1) d S(6)])
    show "bview s' x = ((bview s)(BBLOCK (of_nat c) (sb s) :=
        mark_bit (c mod BPB) (bview s (BBLOCK (of_nat c) (sb s))))) x" if "bitmap_block s x" for x
      using that nb S(2) by auto
    show "bit_set (mark_bit (c mod BPB) (bview s (BBLOCK (of_nat c) (sb s)))) i =
      (if i = c mod BPB then True else bit_set (bview s (BBLOCK (of_nat c) (sb s))) i)" if "i < BPB" for i
      unfolding mark_bit_def by (subst bit_set_or [OF idx]) auto
  qed
  have "layout_ok s'" using S(4,6) u by (intro layout_ok_after [OF lay]) (auto split: if_splits)
  then show ?thesis using t(2) s'(1) s'' u by (intro exI [of _ s']) (auto simp: balloc_def)
qed

text \<open>With every block in use it panics.\<close>

lemma balloc_full:
  fixes s :: "'a fstate_scheme"
  assumes ok: "fs_ok s" and lay: "layout_ok s" and all: "\<forall>d < unat (sb_size (sb s)). used s d"
  shows "balloc 1 s = Panic ''balloc: out of blocks''"
proof -
  let ?gs = "map (\<lambda>k. k * BPB) [0..<(unat (sb_size (sb s)) + BPB - 1) div BPB]"
  let ?P = "\<lambda>t. fs_after s t (bview s) 0"
  have "\<exists>t'. balloc_group 1 x t = Ok None t' \<and> ?P t'" if x: "x \<in> set ?gs" and t: "?P t" for x t
  proof -
    note T = fs_afterD [OF t]
    have "layout_ok t" using lay T(2,4,6) by (simp add: layout_ok_def used_def bitmap_block_def)
    moreover have "used t d" if "d < unat (sb_size (sb s))" for d
      using all that T(2,6) by (simp add: used_def)
    ultimately obtain t' where "balloc_group 1 x t = Ok None t'" "fs_after t t' (bview t) 0"
      using balloc_group_none [of t x] T(1,6) groups_below [OF x] by auto
    with fs_after_trans [OF t] T(2) show ?thesis by fastforce
  qed
  from findR_none [where P = ?P and f = "balloc_group 1" and xs = ?gs, OF fs_after_refl [OF ok] this]
  obtain t where "findR ?gs (balloc_group 1) s = Ok None t" by blast
  then show ?thesis by (simp add: balloc_def)
qed

lemma bfree_ok:
  fixes s :: "'a fstate_scheme"
  assumes ok: "fs_ok s" and lay: "layout_ok s" and room: "0 < fs_room s"
    and c: "c < unat (sb_size (sb s))" "fs_valid s (of_nat c)" "\<not> bitmap_block s (of_nat c)"
  shows "if used s c
    then \<exists>s'. bfree 1 (of_nat c) s = Ok () s' \<and>
      fs_after s s' ((bview s)(BBLOCK (of_nat c) (sb s) := clear_bit (c mod BPB) (bview s (BBLOCK (of_nat c) (sb s))))) 1 \<and>
      layout_ok s' \<and> (\<forall>d < unat (sb_size (sb s)). used s' d = (d \<noteq> c \<and> used s d))
    else bfree 1 (of_nat c) s = Panic ''freeing free block''"
proof -
  let ?n = "BBLOCK (of_nat c) (sb s)"
  have v: "fs_valid s ?n" using lay c(1) by (simp add: layout_ok_def)
  have un: "unat (of_nat c :: uint) = c" using c(1) unat_lt32 [of "sb_size (sb s)"] by (intro unat_of_nat32) simp
  obtain x s1 where 1: "bread 1 ?n s = Ok x s1" "data (bufs s1 x) = bview s ?n" "sb s1 = sb s"
    using fs_bread [OF ok v] by blast
  have eq: "bfree 1 (of_nat c) s = (if used s c then upd_blk 1 ?n (clear_bit (c mod BPB)) s
      else Panic ''freeing free block'')"
    using 1 un by (auto simp: bfree_def upd_blk_def used_def clear_bit_def bindR_assoc Let_def)
  have len: "length (bview s ?n) = BSIZE" using ok by (simp add: fsb.view_len)
  obtain s' where s': "upd_blk 1 ?n (clear_bit (c mod BPB)) s = Ok () s'"
    "fs_after s s' ((bview s)(?n := clear_bit (c mod BPB) (bview s ?n))) 1"
    using fs_after_update [where f = "clear_bit (c mod BPB)", OF ok v room] len by auto
  note S = fs_afterD [OF s'(2)]
  have idx: "c mod BPB div 8 < length (bview s ?n)"
    using len by (intro bits_in_block) (simp_all add: BPB_def)
  have u: "used s' d = (if d = c then False else used s d)" if d: "d < unat (sb_size (sb s))" for d
  proof (rule used_update [OF lay c(1) d S(6)])
    show "bview s' x = ((bview s)(?n := clear_bit (c mod BPB) (bview s ?n))) x" if "bitmap_block s x" for x
      using S(2) by simp
    show "bit_set (clear_bit (c mod BPB) (bview s ?n)) i =
      (if i = c mod BPB then False else bit_set (bview s ?n) i)" if "i < BPB" for i
      unfolding clear_bit_def by (subst bit_set_clear [OF idx]) auto
  qed
  have "layout_ok s'" using S(4,6) u c by (intro layout_ok_after [OF lay]) (auto split: if_splits)
  then show ?thesis using eq s' u by auto
qed

section \<open>Inodes on the disk\<close>

definition disk_inode :: "'a fstate_scheme \<Rightarrow> uint \<Rightarrow> dinode" where
  "disk_inode s inum = get_dinode inum (bview s (IBLOCK inum (sb s)))"

lemma dinode_off_room: "dinode_off inum + 64 \<le> BSIZE"
proof -
  have "unat inum mod IPB < 8" by (simp add: IPB_def)
  then show ?thesis by (simp add: dinode_off_def BSIZE_def)
qed

lemma length_put_dinode [simp]:
  "length (di_addrs n) = 13 \<Longrightarrow> length d = BSIZE \<Longrightarrow> length (put_dinode inum n d) = BSIZE"
  using dinode_off_room [of inum] by (simp add: put_dinode_def)

lemma get_put_dinode:
  assumes "length (di_addrs n) = 13" "length d = BSIZE"
  shows "get_dinode inum (put_dinode inum n d) = n"
  using assms dinode_off_room [of inum] dec_enc_dinode [OF assms(1), of "[]"]
  by (simp add: get_dinode_def put_dinode_def)

lemma get_put_dinode_other:
  assumes "length (di_addrs n) = 13" "length d = BSIZE" "unat i mod IPB \<noteq> unat j mod IPB"
  shows "get_dinode i (put_dinode j n d) = get_dinode i d"
proof -
  have "unat i mod IPB < unat j mod IPB \<or> unat j mod IPB < unat i mod IPB" using assms(3) by linarith
  then have "dinode_off i + 64 \<le> dinode_off j \<or> dinode_off j + 64 \<le> dinode_off i"
    by (auto simp: dinode_off_def)
  then show ?thesis
    using assms(1,2) dinode_off_room [of i] dinode_off_room [of j]
    by (simp add: get_dinode_def put_dinode_def slice_splice_other)
qed

definition inodes_ok :: "'a fstate_scheme \<Rightarrow> bool" where
  "inodes_ok s \<longleftrightarrow>
     unat (sb_inodestart (sb s)) + unat (sb_ninodes (sb s)) div IPB < 2 ^ 32 \<and>
     (\<forall>i. i < sb_ninodes (sb s) \<longrightarrow> fs_valid s (IBLOCK i (sb s)))"

lemma IBLOCK_eq_iff:
  assumes "inodes_ok s" "i < sb_ninodes (sb s)" "j < sb_ninodes (sb s)"
  shows "IBLOCK i (sb s) = IBLOCK j (sb s) \<longleftrightarrow> unat i div IPB = unat j div IPB"
proof -
  have "unat (IBLOCK x (sb s)) = unat x div IPB + unat (sb_inodestart (sb s))" if "x < sb_ninodes (sb s)" for x
  proof -
    have "unat x div IPB \<le> unat (sb_ninodes (sb s)) div IPB"
      using that by (intro div_le_mono) (simp add: word_less_nat_alt)
    moreover have "unat (x div of_nat IPB) = unat x div IPB" by (simp add: unat_div IPB_def)
    ultimately show ?thesis using assms(1) by (simp add: IBLOCK_def inodes_ok_def unat_add_lt)
  qed
  then show ?thesis using assms(2,3) by (metis add_right_cancel word_unat_eq_iff)
qed

lemma disk_inode_update:
  assumes "inodes_ok s" "i < sb_ninodes (sb s)" "j < sb_ninodes (sb s)" "length (di_addrs n) = 13" "fs_ok s"
    and "sb t = sb s" "bview t = (bview s)(IBLOCK j (sb s) := put_dinode j n (bview s (IBLOCK j (sb s))))"
  shows "disk_inode t i = (if i = j then n else disk_inode s i)"
proof (cases "i = j")
  case True
  then show ?thesis
    using assms(6,7) get_put_dinode [OF assms(4) fsb.view_len [OF assms(5)]] by (simp add: disk_inode_def)
next
  case False
  then have "unat i div IPB \<noteq> unat j div IPB \<or> unat i mod IPB \<noteq> unat j mod IPB"
    by (metis div_mult_mod_eq word_unat_eq_iff)
  then show ?thesis
    using assms(6,7) IBLOCK_eq_iff [OF assms(1-3)] get_put_dinode_other [OF assms(4) fsb.view_len [OF assms(5)]]
    by (auto simp: disk_inode_def)
qed

lemma length_dinode_of: "length (di_addrs (dinode_of n)) = length (i_addrs n)"
  by (simp add: dinode_of_def)

lemma iupdate_ok:
  fixes s :: "'a fstate_scheme"
  assumes ok: "fs_ok s" and ino: "inodes_ok s" and i: "i_dev (icache s i) = 1" "i_inum (icache s i) < sb_ninodes (sb s)"
    "length (i_addrs (icache s i)) = 13" and room: "0 < fs_room s"
  shows "\<exists>s'. iupdate i s = Ok () s' \<and> inodes_ok s' \<and>
    fs_after s s' ((bview s)(IBLOCK (i_inum (icache s i)) (sb s) := put_dinode (i_inum (icache s i))
      (dinode_of (icache s i)) (bview s (IBLOCK (i_inum (icache s i)) (sb s))))) 1 \<and>
    (\<forall>k < sb_ninodes (sb s). disk_inode s' k = (if k = i_inum (icache s i) then dinode_of (icache s i) else disk_inode s k))"
proof -
  let ?k = "i_inum (icache s i)"
  have v: "fs_valid s (IBLOCK ?k (sb s))" using ino i(2) by (simp add: inodes_ok_def)
  have len: "length (put_dinode ?k (dinode_of (icache s i)) (bview s (IBLOCK ?k (sb s)))) = BSIZE"
    using i(3) fsb.view_len [OF ok] by (simp add: length_dinode_of)
  obtain s' where s': "upd_blk 1 (IBLOCK ?k (sb s)) (put_dinode ?k (dinode_of (icache s i))) s = Ok () s'"
    "fs_after s s' ((bview s)(IBLOCK ?k (sb s) := put_dinode ?k (dinode_of (icache s i)) (bview s (IBLOCK ?k (sb s))))) 1"
    using fs_after_update [where f = "put_dinode ?k (dinode_of (icache s i))", OF ok v room len] by blast
  note S = fs_afterD [OF s'(2)]
  have "disk_inode s' j = (if j = ?k then dinode_of (icache s i) else disk_inode s j)" if "j < sb_ninodes (sb s)" for j
    using disk_inode_update [OF ino that i(2) _ ok S(6,2)] i(3) by (simp add: length_dinode_of)
  moreover have "inodes_ok s'" using ino S(4,6) by (simp add: inodes_ok_def)
  ultimately show ?thesis using s' i(1) by (auto simp: iupdate_def)
qed

text \<open>Locking an inode that is not locked: it is read from the disk when the entry is not valid.\<close>

lemma fs_ok_idle: "fs_ok s \<Longrightarrow> held s = []" "fs_ok s \<Longrightarrow> \<exists>p. cur s = Some p"
  using fs_okD(1) bc_okD(5,6) by blast+

definition lock_inode :: "int \<Rightarrow> inode \<Rightarrow> inode" where
  "lock_inode p n = n\<lparr>ilk := (ilk n)\<lparr>slocked := True, spid := p\<rparr>\<rparr>"

definition load_inode :: "dinode \<Rightarrow> inode \<Rightarrow> inode" where
  "load_inode d n = n\<lparr>i_type := di_type d, i_major := di_major d, i_minor := di_minor d, i_nlink := di_nlink d,
     i_size := di_size d, i_addrs := di_addrs d, i_valid := True\<rparr>"

lemma acquire_inode:
  fixes s :: "'a fstate_scheme"
  assumes "fs_ok s" "\<not> slocked (ilk (icache s i))" "cur s = Some p"
  shows "acquiresleep (ChInodeLock i) (ilk_get i) (ilk_put i) s = Ok () (upd_inode i (lock_inode (pid (procs s p))) s)"
proof -
  have "acquiresleep (ChInodeLock i) (ilk_get i) (ilk_put i) s =
      Ok () (ilk_put i ((ilk_get i s)\<lparr>slocked := True, spid := pid (procs s p)\<rparr>) s)"
    using assms fs_ok_idle(1) [OF assms(1)] by (intro il.acquiresleep_free) (auto simp: ilk_get_def)
  then show ?thesis by (simp add: ilk_put_def ilk_get_def lock_inode_def upd_inode_def)
qed

lemma ilock_ok:
  fixes s :: "'a fstate_scheme"
  assumes ok: "fs_ok s" and free: "\<not> slocked (ilk (icache s i))" and p: "cur s = Some p"
    and i: "1 \<le> i_ref (icache s i)"
    and v: "\<not> i_valid (icache s i) \<Longrightarrow> i_dev (icache s i) = 1 \<and> fs_valid s (IBLOCK (i_inum (icache s i)) (sb s))"
  shows "if i_valid (icache s i)
    then ilock (Some i) s = Ok () (upd_inode i (lock_inode (pid (procs s p))) s)
    else if di_type (disk_inode s (i_inum (icache s i))) = 0 then ilock (Some i) s = Panic ''ilock: no type''
    else \<exists>s1. ilock (Some i) s = Ok () (upd_inode i
        (load_inode (disk_inode s (i_inum (icache s i))) \<circ> lock_inode (pid (procs s p))) s1) \<and> fs_after s s1 (bview s) 0"
proof (cases "i_valid (icache s i)")
  case True
  then show ?thesis using acquire_inode [OF ok free p] i by (simp add: ilock_def lock_inode_def)
next
  case False
  let ?s = "upd_inode i (lock_inode (pid (procs s p))) s"
  let ?k = "i_inum (icache s i)"
  have sel: "i_valid (icache ?s i) = False" "i_dev (icache ?s i) = 1" "i_inum (icache ?s i) = ?k"
    using False v by (simp_all add: lock_inode_def)
  obtain t where t: "read_blk 1 (IBLOCK ?k (sb s)) ?s = Ok (bview s (IBLOCK ?k (sb s))) t" "fs_after ?s t (bview s) 0"
    using fs_after_read [of ?s "IBLOCK ?k (sb s)"] ok v [OF False] by auto
  note T = fs_afterD [OF t(2)]
  text \<open>The block is read the same way with the inode not yet locked.\<close>
  have icache_t: "icache t = (icache s)(i := lock_inode (pid (procs s p)) (icache s i))"
    using T(7) by simp
  define s1 where "s1 = upd_inode i (\<lambda>_. icache s i) t"
  have k: "fs_keeps ?s t" by (rule T(5))
  have "fs_keeps s s1"
  proof (rule fs_keepsI)
    have t': "t = ?s\<lparr>bufs := bufs t, blist := blist t, procs := procs t, lh_n := lh_n t, lh_block := lh_block t\<rparr>"
      using k by (simp only: fs_keeps_def)
    show "s1 = s\<lparr>bufs := bufs t, blist := blist t, procs := procs t, lh_n := lh_n t, lh_block := lh_block t\<rparr>"
      unfolding s1_def by (subst t') (simp add: upd_inode_def)
    show "only_woken (procs s j) (procs t j)" for j
      using k by (simp add: fs_keeps_def)
    show "hblocks s1 = hblocks s"
      using k by (simp add: fs_keeps_def s1_def)
    show "holds s1 c b" if "holds s c b" for c b
      using k that by (simp add: fs_keeps_def s1_def)
    show "outstanding s < 1 \<Longrightarrow> lh_n t = lh_n s"
      using k by (simp add: fs_keeps_def)
  qed
  then have after: "fs_after s s1 (bview s) 0"
    using T(1-4) by (simp add: fs_after_def s1_def)
  have t_eq: "upd_inode i (load_inode d) t = upd_inode i (load_inode d \<circ> lock_inode (pid (procs s p))) s1" for d
    by (simp add: s1_def upd_inode_def icache_t)
  have "ilock (Some i) s = (if di_type (disk_inode s ?k) = 0 then Panic ''ilock: no type''
      else Ok () (upd_inode i (load_inode (disk_inode s ?k)) t))"
    using i acquire_inode [OF ok free p] sel t(1) T(6)
    by (simp add: ilock_def Let_def icache_t disk_inode_def load_inode_def [abs_def] lock_inode_def)
  then show ?thesis using False after t_eq by auto
qed

section \<open>The inode cache\<close>

text \<open>
  How many references there are to an inode, read off the cache. \<open>icache_ok\<close>: counts are not
  negative and no inode has two entries in use.
\<close>

definition entry_of :: "'a fstate_scheme \<Rightarrow> uint \<Rightarrow> uint \<Rightarrow> nat option" where
  "entry_of s dev inum =
     find (\<lambda>i. 0 < i_ref (icache s i) \<and> i_dev (icache s i) = dev \<and> i_inum (icache s i) = inum) [0..<NINODE]"

definition inode_refs :: "'a fstate_scheme \<Rightarrow> uint \<Rightarrow> uint \<Rightarrow> int" where
  "inode_refs s dev inum = (case entry_of s dev inum of Some i \<Rightarrow> i_ref (icache s i) | None \<Rightarrow> 0)"

definition icache_ok :: "'a fstate_scheme \<Rightarrow> bool" where
  "icache_ok s \<longleftrightarrow> (\<forall>i < NINODE. 0 \<le> i_ref (icache s i)) \<and>
     (\<forall>i < NINODE. \<forall>j < NINODE. 0 < i_ref (icache s i) \<longrightarrow> 0 < i_ref (icache s j) \<longrightarrow>
        i_dev (icache s i) = i_dev (icache s j) \<longrightarrow> i_inum (icache s i) = i_inum (icache s j) \<longrightarrow> i = j)"

lemma icache_okD:
  assumes "icache_ok s" "i < NINODE" "j < NINODE" "0 < i_ref (icache s i)" "0 < i_ref (icache s j)"
    "i_dev (icache s i) = i_dev (icache s j)" "i_inum (icache s i) = i_inum (icache s j)"
  shows "i = j"
  using assms unfolding icache_ok_def by blast

lemma entry_of_iff:
  assumes "icache_ok s"
  shows "entry_of s dev inum = Some i \<longleftrightarrow>
    i < NINODE \<and> 0 < i_ref (icache s i) \<and> i_dev (icache s i) = dev \<and> i_inum (icache s i) = inum"
proof
  assume "entry_of s dev inum = Some i"
  then show "i < NINODE \<and> 0 < i_ref (icache s i) \<and> i_dev (icache s i) = dev \<and> i_inum (icache s i) = inum"
    unfolding entry_of_def by (auto dest: find_SomeD)
next
  assume i: "i < NINODE \<and> 0 < i_ref (icache s i) \<and> i_dev (icache s i) = dev \<and> i_inum (icache s i) = inum"
  then have "entry_of s dev inum \<noteq> None" unfolding entry_of_def by (auto simp: find_None_iff)
  then obtain j where j: "entry_of s dev inum = Some j" by blast
  then have "j < NINODE \<and> 0 < i_ref (icache s j) \<and> i_dev (icache s j) = dev \<and> i_inum (icache s j) = inum"
    unfolding entry_of_def by (auto dest: find_SomeD)
  with i have "j = i" using icache_okD [OF assms, of j i] by simp
  with j show "entry_of s dev inum = Some i" by simp
qed

lemma entry_of_None:
  "entry_of s dev inum = None \<longleftrightarrow>
    (\<forall>i < NINODE. \<not> (0 < i_ref (icache s i) \<and> i_dev (icache s i) = dev \<and> i_inum (icache s i) = inum))"
  unfolding entry_of_def by (auto simp: find_None_iff)

lemma entry_of_upd_inode:
  assumes "icache_ok s" "icache_ok (upd_inode i f s)" "i < NINODE"
    and "i_dev (f (icache s i)) = d" "i_inum (f (icache s i)) = k" "0 < i_ref (f (icache s i))"
    and "0 < i_ref (icache s i) \<Longrightarrow> i_dev (icache s i) = d \<and> i_inum (icache s i) = k"
  shows "entry_of (upd_inode i f s) dev inum = (if dev = d \<and> inum = k then Some i else entry_of s dev inum)"
proof (cases "dev = d \<and> inum = k")
  case True
  then have "entry_of (upd_inode i f s) dev inum = Some i"
    using assms by (simp add: entry_of_iff)
  with True show ?thesis by simp
next
  case False
  have "entry_of (upd_inode i f s) dev inum = Some j \<longleftrightarrow> entry_of s dev inum = Some j" for j
    using False assms by (auto simp: entry_of_iff)
  then have "entry_of (upd_inode i f s) dev inum = entry_of s dev inum" by (metis option.exhaust)
  then show ?thesis by (subst if_not_P [OF False])
qed

lemma icache_ok_ref:
  assumes "icache_ok s" "0 \<le> n" "0 < i_ref (icache s i) \<or> n = 0"
  shows "icache_ok (upd_inode i (\<lambda>x. x\<lparr>i_ref := n\<rparr>) s)"
  using assms unfolding icache_ok_def by auto

text \<open>Looking an inode up adds one reference to it and to no other, and never duplicates an entry.\<close>

lemma iget_ok:
  assumes ok: "icache_ok s" and h: "Licache \<notin> set (held s)"
  shows "if entry_of s dev inum = None \<and> (\<forall>i < NINODE. i_ref (icache s i) \<noteq> 0)
    then iget dev inum s = Panic ''iget: no inodes''
    else \<exists>i f. iget dev inum s = Ok i (upd_inode i f s) \<and> i < NINODE \<and> icache_ok (upd_inode i f s) \<and>
      i_dev (f (icache s i)) = dev \<and> i_inum (f (icache s i)) = inum \<and>
      i_ref (f (icache s i)) = inode_refs s dev inum + 1 \<and> ilk (f (icache s i)) = ilk (icache s i) \<and>
      (if entry_of s dev inum = None then i_ref (icache s i) = 0 \<and> \<not> i_valid (f (icache s i))
       else entry_of s dev inum = Some i \<and> f (icache s i) = (icache s i)\<lparr>i_ref := i_ref (icache s i) + 1\<rparr>)"
proof (cases "entry_of s dev inum")
  case (Some i)
  then have i: "i < NINODE" "0 < i_ref (icache s i)" "i_dev (icache s i) = dev" "i_inum (icache s i) = inum"
    using entry_of_iff [OF ok] by auto
  let ?f = "\<lambda>n. n\<lparr>i_ref := i_ref n + 1\<rparr>"
  have "iget dev inum s = Ok i (upd_inode i ?f s)"
    using Some h by (simp add: iget_def entry_of_def upd_inode_def)
  moreover have "icache_ok (upd_inode i ?f s)"
    using ok i(2) unfolding icache_ok_def by auto
  ultimately show ?thesis
    using Some i by (auto simp: inode_refs_def intro!: exI [of _ i] exI [of _ ?f])
next
  case None
  show ?thesis
  proof (cases "find (\<lambda>i. i_ref (icache s i) = 0) [0..<NINODE]")
    case (Some i)
    then have i: "i < NINODE" "i_ref (icache s i) = 0" by (auto dest: find_SomeD)
    let ?f = "\<lambda>n. n\<lparr>i_dev := dev, i_inum := inum, i_ref := 1, i_valid := False\<rparr>"
    have "iget dev inum s = Ok i (upd_inode i ?f s)"
      using None Some h by (simp add: iget_def entry_of_def upd_inode_def)
    moreover have "icache_ok (upd_inode i ?f s)"
      using ok i None unfolding icache_ok_def entry_of_None by auto
    ultimately show ?thesis
      using None i by (auto simp: inode_refs_def intro!: exI [of _ i] exI [of _ ?f])
  next
    case none: None
    then have "\<forall>i < NINODE. i_ref (icache s i) \<noteq> 0" by (auto simp: find_None_iff)
    then show ?thesis using None none h by (simp add: iget_def entry_of_def)
  qed
qed

section \<open>The blocks of a file\<close>

text \<open>
  Block \<open>k\<close> of the file of inode \<open>i\<close>: an entry of the inode or of its indirect block. A file is mapped
  up to block \<open>n\<close> when all of these are allocated.
\<close>

definition file_blk :: "'a fstate_scheme \<Rightarrow> nat \<Rightarrow> nat \<Rightarrow> uint" where
  "file_blk s i k =
     (if k < NDIRECT then i_addrs (icache s i) ! k
      else dec32 (drop (4 * (k - NDIRECT)) (bview s (i_addrs (icache s i) ! NDIRECT))))"

definition file_mapped :: "'a fstate_scheme \<Rightarrow> nat \<Rightarrow> nat \<Rightarrow> bool" where
  "file_mapped s i n \<longleftrightarrow> n \<le> MAXFILE \<and> i_dev (icache s i) = 1 \<and>
     (\<forall>k < n. file_blk s i k \<noteq> 0 \<and> fs_valid s (file_blk s i k)) \<and>
     (NDIRECT < n \<longrightarrow> i_addrs (icache s i) ! NDIRECT \<noteq> 0 \<and> fs_valid s (i_addrs (icache s i) ! NDIRECT))"

lemma bmap_mapped:
  fixes s :: "'a fstate_scheme"
  assumes ok: "fs_ok s" and m: "file_mapped s i n" and k: "k < n"
  shows "\<exists>s'. bmap i (of_nat k) s = Ok (file_blk s i k) s' \<and> fs_after s s' (bview s) 0"
proof -
  have n: "k < MAXFILE" "i_dev (icache s i) = 1" "file_blk s i k \<noteq> 0" "fs_valid s (file_blk s i k)"
    using m k by (auto simp: file_mapped_def)
  have u: "unat (of_nat k :: uint) = k" using n(1) by (intro unat_of_nat32) (simp add: MAXFILE_def NDIRECT_def NINDIRECT_def)
  have lt: "(of_nat k :: uint) < of_nat NDIRECT \<longleftrightarrow> k < NDIRECT"
    by (simp add: word_less_nat_alt u) (simp add: NDIRECT_def)
  show ?thesis
  proof (cases "k < NDIRECT")
    case True
    then show ?thesis using n u lt fs_after_refl [OF ok] by (simp add: bmap_def file_blk_def Let_def)
  next
    case False
    let ?a = "i_addrs (icache s i) ! NDIRECT"
    have a: "?a \<noteq> 0" "fs_valid s ?a" using m k False by (auto simp: file_mapped_def)
    have d: "(of_nat k - of_nat NDIRECT :: uint) = of_nat (k - NDIRECT)" using False by (simp add: of_nat_diff)
    have u': "unat (of_nat (k - NDIRECT) :: uint) = k - NDIRECT"
      using n(1) by (intro unat_of_nat32) (simp add: MAXFILE_def NDIRECT_def NINDIRECT_def)
    have lt': "(of_nat (k - NDIRECT) :: uint) < of_nat NINDIRECT"
      using n(1) False by (simp only: word_less_nat_alt u') (simp add: MAXFILE_def NDIRECT_def NINDIRECT_def)
    have c: "dec32 (drop (4 * (k - NDIRECT)) (bview s ?a)) = file_blk s i k"
      using False by (simp add: file_blk_def)
    obtain b s1 where b: "bread 1 ?a s = Ok b s1" "data (bufs s1 b) = bview s ?a"
      using fs_bread [OF ok a(2)] by blast
    obtain s' where s': "read_blk 1 ?a s = Ok (bview s ?a) s'" "fs_after s s' (bview s) 0"
      using fs_after_read [OF ok a(2)] by blast
    from s'(1) b have r: "brelse b s1 = Ok () s'"
      by (cases "brelse b s1") (simp_all add: read_blk_def Let_def)
    have "bmap i (of_nat k) s = bindR (bread 1 ?a s) (\<lambda>bp s.
        let addr = dec32 (drop (4 * (k - NDIRECT)) (data (bufs s bp)))
        in bindR (if addr = 0 then bindR (balloc (i_dev (icache s i)) s) (\<lambda>addr s.
              bindR (log_write bp (upd_buf bp (\<lambda>u. u\<lparr>data := splice (4 * (k - NDIRECT)) (enc32 addr) (data u)\<rparr>) s)) (\<lambda>_ s.
                Ok addr s))
            else Ok addr s) (\<lambda>addr s. bindR (brelse bp s) (\<lambda>_ s. Ok addr s)))"
    proof -
      have nlt: "\<not> (of_nat k :: uint) < of_nat NDIRECT" using lt False by blast
      show ?thesis
        by (simp only: bmap_def Let_def if_not_P [OF nlt] d if_P [OF lt'] u' if_not_P [OF a(1)] bindR.simps n(2))
    qed
    also have "\<dots> = Ok (file_blk s i k) s'"
      using b c n(3) r by (simp add: Let_def)
    finally show ?thesis using s'(2) by blast
  qed
qed

section \<open>Properties\<close>

text \<open>A file system for examples: blocks 0 to 7 are free, their bitmap is block 45.\<close>

definition ex_inode :: inode where
  "ex_inode = \<lparr>i_dev = 1, i_inum = 0, i_ref = 0, ilk = \<lparr>slocked = False, spid = 0\<rparr>, i_valid = False, i_type = 0,
     i_major = 0, i_minor = 0, i_nlink = 0, i_size = 0, i_addrs = replicate 13 0\<rparr>"

definition ex_fs :: fstate where
  "ex_fs = lstate.extend (bstate.extend ex_bstate (lstate.fields 100 30 1 False 1 0 (replicate 30 0)))
     (fstate.fields \<lparr>sb_size = 8, sb_nblocks = 8, sb_ninodes = 8, sb_nlog = 30, sb_logstart = 100,
        sb_inodestart = 50, sb_bmapstart = 45\<rparr> (\<lambda>_. ex_inode) (\<lambda>_. None))"

lemma ex_fs_sel [simp]:
  "log_start ex_fs = 100" "log_size ex_fs = 30" "outstanding ex_fs = 1" "log_dev ex_fs = 1"
  "lh_n ex_fs = 0" "lh_block ex_fs = replicate 30 0" "disk ex_fs = (\<lambda>_. replicate 512 0)"
  "disksize ex_fs = 1000" "held ex_fs = []" "cur ex_fs = Some 3" "blist ex_fs = rev [0..<NBUF]"
  "bufs ex_fs = (\<lambda>_. ex_buf)" "icache ex_fs = (\<lambda>_. ex_inode)" "committing ex_fs = False"
  "sb ex_fs = \<lparr>sb_size = 8, sb_nblocks = 8, sb_ninodes = 8, sb_nlog = 30, sb_logstart = 100,
        sb_inodestart = 50, sb_bmapstart = 45\<rparr>" "procs ex_fs = (\<lambda>_. zero_proc)"
  by (simp_all add: ex_fs_def bstate.extend_def lstate.extend_def lstate.fields_def fstate.fields_def ex_bstate_def)

lemma ex_fs_view: "cached ex_fs bn = None" "bview ex_fs = (\<lambda>_. replicate 512 0)" "hblocks ex_fs = {}" "dblocks ex_fs = {}"
proof -
  show c: "cached ex_fs bn = None" for bn by (simp add: cached_None_iff ex_buf_def)
  then show "bview ex_fs = (\<lambda>_. replicate 512 0)" "hblocks ex_fs = {}" "dblocks ex_fs = {}"
    by (auto simp: bview_def hblocks_def dblocks_def)
qed

lemma ex_fs_area: "b \<in> log_area 100 \<longleftrightarrow> 100 \<le> b \<and> b \<le> 130"
proof -
  have u: "unat (log_slot 100 i) = i + 101" if "i < LOGSIZE" for i
    using that by (simp add: log_slot_def unat_word_ariths unat_of_nat32 LOGSIZE_def)
  have "b \<in> log_slot 100 ` {..<LOGSIZE} \<longleftrightarrow> 101 \<le> unat b \<and> unat b \<le> 130"
  proof
    assume "101 \<le> unat b \<and> unat b \<le> 130"
    then have "unat b - 101 < LOGSIZE" "unat (log_slot 100 (unat b - 101)) = unat b"
      using u [of "unat b - 101"] by (auto simp: LOGSIZE_def)
    then show "b \<in> log_slot 100 ` {..<LOGSIZE}" by (metis imageI lessThan_iff word_unat_eq_iff)
  qed (use u in \<open>auto simp: LOGSIZE_def\<close>)
  then show ?thesis by (auto simp: log_area_def word_le_nat_alt word_unat_eq_iff)
qed

lemma ex_fs_ok: "fs_ok ex_fs" "fs_valid ex_fs b \<longleftrightarrow> b < 1000 \<and> \<not> (100 \<le> b \<and> b \<le> 130)" "fs_room ex_fs = 28"
proof -
  have "bc_ok ex_fs"
    by (auto simp: bc_ok_def buf_ok_def ex_buf_def BSIZE_def Let_def)
  moreover have "b < 1000" if "b \<le> 130" for b :: uint
    using that by (rule le_less_trans) simp
  then have "log_geom ex_fs"
    by (auto simp: log_geom_def ex_fs_area LOGSIZE_def)
  ultimately show "fs_ok ex_fs"
    by (simp add: fs_ok_def ex_fs_view logged_def)
  show "fs_valid ex_fs b \<longleftrightarrow> b < 1000 \<and> \<not> (100 \<le> b \<and> b \<le> 130)"
    by (simp add: fs_valid_def ex_fs_view ex_fs_area)
  show "fs_room ex_fs = 28" by (simp add: fs_room_def)
qed

lemma ex_fs_layout: "layout_ok ex_fs" "\<not> used ex_fs b"
proof -
  have B: "BBLOCK (of_nat b) (sb ex_fs) = 45" if "b < 8" for b
    using that BBLOCK_unat [of "sb ex_fs" 8 b] by (simp add: BPB_def word_unat_eq_iff)
  have s: "bit_set (replicate 512 0) n \<longleftrightarrow> False" if "n < BPB" for n
    using that by (simp add: bit_set_def BPB_def)
  show u: "\<not> used ex_fs b" for b
    using s [of "b mod BPB"] by (simp add: used_def ex_fs_view BPB_def)
  show "layout_ok ex_fs"
    using u B by (auto simp: layout_ok_def ex_fs_ok(2) bitmap_block_def BPB_def word_less_nat_alt word_le_nat_alt
        unat_of_nat32 word_unat_eq_iff)
qed

text \<open>
  (C33) The block allocator: inside a transaction with room for two blocks, \<open>balloc\<close> returns the first
  block that the bitmap calls free, now marked and filled with zeros, and changes no other bit and no
  other block outside the bitmap; when all blocks are in use it panics.
\<close>

theorem balloc_first_free:
  fixes s :: "'a fstate_scheme"
  assumes "fs_ok s" and "layout_ok s" and "2 \<le> fs_room s"
  shows "case find (\<lambda>b. \<not> used s b) [0..<unat (sb_size (sb s))] of
      None \<Rightarrow> balloc 1 s = Panic ''balloc: out of blocks''
    | Some c \<Rightarrow> \<exists>s'. balloc 1 s = Ok (of_nat c) s' \<and> bview s' (of_nat c) = replicate BSIZE 0 \<and>
        (\<forall>d < unat (sb_size (sb s)). used s' d = (d = c \<or> used s d)) \<and>
        (\<forall>x. x \<noteq> of_nat c \<and> \<not> bitmap_block s x \<longrightarrow> bview s' x = bview s x) \<and> fs_ok s' \<and> layout_ok s'"
proof (cases "find (\<lambda>b. \<not> used s b) [0..<unat (sb_size (sb s))]")
  case None
  then have "\<forall>d < unat (sb_size (sb s)). used s d" by (auto simp: find_None_iff)
  then show ?thesis using balloc_full [OF assms(1,2)] None by simp
next
  case (Some c)
  then have c: "c < unat (sb_size (sb s))" "\<not> used s c" "\<forall>d < c. used s d" by (auto simp: find_Some_iff)
  from balloc_ok [OF assms c] obtain s' where s': "balloc 1 s = Ok (of_nat c) s'"
    "fs_after s s' ((bview s)(BBLOCK (of_nat c) (sb s) := mark_bit (c mod BPB) (bview s (BBLOCK (of_nat c) (sb s))),
      of_nat c := replicate BSIZE 0)) 2" "layout_ok s'"
    "\<forall>d < unat (sb_size (sb s)). used s' d = (d = c \<or> used s d)" by blast
  have "bitmap_block s (BBLOCK (of_nat c) (sb s))" using c(1) by (auto simp: bitmap_block_def)
  then show ?thesis using Some s' fs_afterD(1,2) [OF s'(2)] by auto
qed

theorem balloc_first_free_witness:
  "\<exists>s'. balloc 1 ex_fs = Ok 0 s' \<and> bview s' 0 = replicate BSIZE 0 \<and> used s' 0 \<and> \<not> used s' 1"
proof -
  have "find (\<lambda>b. \<not> used ex_fs b) [0..<unat (sb_size (sb ex_fs))] = Some 0"
    using ex_fs_layout(2) by (simp add: upt_conv_Cons)
  then show ?thesis
    using balloc_first_free [of ex_fs] ex_fs_ok ex_fs_layout by auto
qed

text \<open>
  (C34) Freeing undoes allocation: \<open>bfree\<close> of the block \<open>balloc\<close> returned leaves the bitmap as it was
  before, and freeing the block once more panics.
\<close>

theorem bfree_undoes_balloc:
  fixes s :: "'a fstate_scheme"
  assumes "fs_ok s" and "layout_ok s" and "4 \<le> fs_room s" and "c < unat (sb_size (sb s))" and "\<not> used s c"
    and "\<forall>d < c. used s d"
  shows "\<exists>s1 s2. balloc 1 s = Ok (of_nat c) s1 \<and> bfree 1 (of_nat c) s1 = Ok () s2 \<and>
    (\<forall>d < unat (sb_size (sb s)). used s2 d = used s d) \<and>
    bfree 1 (of_nat c) s2 = Panic ''freeing free block''"
proof -
  have c: "fs_valid s (of_nat c)" "\<not> bitmap_block s (of_nat c)"
    using assms by (auto simp: layout_ok_def)
  have "2 \<le> fs_room s" using assms(3) by simp
  from balloc_ok [OF assms(1,2) this assms(4-6)] obtain s1 v where s1: "balloc 1 s = Ok (of_nat c) s1" "fs_after s s1 v 2"
    "layout_ok s1" "\<forall>d < unat (sb_size (sb s)). used s1 d = (d = c \<or> used s d)" by blast
  note S1 = fs_afterD [OF s1(2)]
  have c1: "c < unat (sb_size (sb s1))" "fs_valid s1 (of_nat c)" "\<not> bitmap_block s1 (of_nat c)"
    using c assms(4) S1(4,6) by (auto simp: bitmap_block_def)
  have r1: "0 < fs_room s1" using S1(3) assms(3) by simp
  from bfree_ok [OF S1(1) s1(3) r1 c1] s1(4) assms(4) obtain s2 w where s2: "bfree 1 (of_nat c) s1 = Ok () s2"
    "fs_after s1 s2 w 1" "layout_ok s2" "\<forall>d < unat (sb_size (sb s1)). used s2 d = (d \<noteq> c \<and> used s1 d)" by auto
  note S2 = fs_afterD [OF s2(2)]
  have c2: "c < unat (sb_size (sb s2))" "fs_valid s2 (of_nat c)" "\<not> bitmap_block s2 (of_nat c)"
    using c1 S2(4,6) by (auto simp: bitmap_block_def)
  have r2: "0 < fs_room s2" using S2(3) S1(3) assms(3) by simp
  have u: "\<forall>d < unat (sb_size (sb s)). used s2 d = used s d"
    using s1(4) s2(4) S1(6) assms(5) by auto
  with bfree_ok [OF S2(1) s2(3) r2 c2] assms(4,5) have "bfree 1 (of_nat c) s2 = Panic ''freeing free block''" by auto
  with s1(1) s2(1) u show ?thesis by blast
qed

theorem bfree_undoes_balloc_witness:
  "\<exists>s1 s2. balloc 1 ex_fs = Ok 0 s1 \<and> bfree 1 0 s1 = Ok () s2 \<and> bfree 1 0 s2 = Panic ''freeing free block''"
  using bfree_undoes_balloc [of ex_fs 0] ex_fs_ok ex_fs_layout by auto



text \<open>
  (C36) The inode cache never holds two entries for one inode: \<open>iget\<close> returns the entry in use for the
  inode when there is one, with its contents kept, or a free entry marked not valid; it adds one
  reference to that inode and none to any other, and panics only when all 50 entries are in use for
  other inodes.
\<close>

theorem iget_unique:
  assumes "icache_ok s" and "Licache \<notin> set (held s)"
  shows "(entry_of s dev inum = None \<and> (\<forall>i < NINODE. i_ref (icache s i) \<noteq> 0) \<and>
      iget dev inum s = Panic ''iget: no inodes'') \<or>
    (\<exists>i s'. iget dev inum s = Ok i s' \<and> icache_ok s' \<and> i < NINODE \<and>
      i_dev (icache s' i) = dev \<and> i_inum (icache s' i) = inum \<and>
      (entry_of s dev inum = Some i \<and> i_valid (icache s' i) = i_valid (icache s i) \<or>
       entry_of s dev inum = None \<and> \<not> i_valid (icache s' i)) \<and>
      (\<forall>d k. inode_refs s' d k = inode_refs s d k + (if d = dev \<and> k = inum then 1 else 0)))"
proof (cases "entry_of s dev inum = None \<and> (\<forall>i < NINODE. i_ref (icache s i) \<noteq> 0)")
  case True
  then show ?thesis using iget_ok [OF assms, of dev inum] by simp
next
  case False
  then obtain i f where f: "iget dev inum s = Ok i (upd_inode i f s)" "i < NINODE" "icache_ok (upd_inode i f s)"
    "i_dev (f (icache s i)) = dev" "i_inum (f (icache s i)) = inum" "i_ref (f (icache s i)) = inode_refs s dev inum + 1"
    "if entry_of s dev inum = None then i_ref (icache s i) = 0 \<and> \<not> i_valid (f (icache s i))
       else entry_of s dev inum = Some i \<and> f (icache s i) = (icache s i)\<lparr>i_ref := i_ref (icache s i) + 1\<rparr>"
    using iget_ok [OF assms, of dev inum, unfolded if_not_P [OF False]] by blast
  have nn: "0 \<le> inode_refs s dev inum" using entry_of_iff [OF assms(1)] by (auto simp: inode_refs_def split: option.split)
  have old: "0 < i_ref (icache s i) \<Longrightarrow> i_dev (icache s i) = dev \<and> i_inum (icache s i) = inum"
    using f(7) entry_of_iff [OF assms(1)] by (auto split: if_splits)
  have e: "entry_of (upd_inode i f s) d k = (if d = dev \<and> k = inum then Some i else entry_of s d k)" for d k
    by (rule entry_of_upd_inode [OF assms(1) f(3,2,4,5) _ old]) (use f(6) nn in simp_all)
  have ne: "entry_of s d k \<noteq> Some i" if "\<not> (d = dev \<and> k = inum)" for d k
  proof
    assume "entry_of s d k = Some i"
    then have "0 < i_ref (icache s i)" "i_dev (icache s i) = d" "i_inum (icache s i) = k"
      using entry_of_iff [OF assms(1)] by auto
    with old that show False by blast
  qed
  have refs: "inode_refs (upd_inode i f s) d k = inode_refs s d k + (if d = dev \<and> k = inum then 1 else 0)" for d k
  proof (cases "d = dev \<and> k = inum")
    case True
    then show ?thesis using e [of d k] f(6) by (simp add: inode_refs_def)
  next
    case False
    have "entry_of (upd_inode i f s) d k = entry_of s d k"
      using e [of d k] by (subst (asm) if_not_P [OF False])
    with ne [OF False] have "inode_refs (upd_inode i f s) d k = inode_refs s d k"
      by (auto simp: inode_refs_def split: option.split)
    then show ?thesis by (subst if_not_P [OF False]) simp
  qed
  have "entry_of s dev inum = Some i \<and> i_valid (f (icache s i)) = i_valid (icache s i) \<or>
      entry_of s dev inum = None \<and> \<not> i_valid (f (icache s i))"
    using f(7) by (auto split: if_splits)
  then have "iget dev inum s = Ok i (upd_inode i f s) \<and> icache_ok (upd_inode i f s) \<and> i < NINODE \<and>
      i_dev (icache (upd_inode i f s) i) = dev \<and> i_inum (icache (upd_inode i f s) i) = inum \<and>
      (entry_of s dev inum = Some i \<and> i_valid (icache (upd_inode i f s) i) = i_valid (icache s i) \<or>
       entry_of s dev inum = None \<and> \<not> i_valid (icache (upd_inode i f s) i))"
    using f(1-5) by simp
  with refs show ?thesis by blast
qed

theorem iget_unique_witness:
  "\<exists>i s'. iget 1 5 ex_fs = Ok i s' \<and> inode_refs s' 1 5 = 1"
proof -
  have "icache_ok ex_fs" "Licache \<notin> set (held ex_fs)" by (simp_all add: icache_ok_def ex_inode_def)
  moreover have "entry_of ex_fs 1 5 = None" by (simp add: entry_of_None ex_inode_def)
  moreover have "\<not> (\<forall>i < NINODE. i_ref (icache ex_fs i) \<noteq> 0)" by (auto simp: ex_inode_def NINODE_def intro: exI [of _ 0])
  moreover from \<open>entry_of ex_fs 1 5 = None\<close> have "inode_refs ex_fs 1 5 = 0" by (simp add: inode_refs_def)
  ultimately show ?thesis
    using iget_unique [of ex_fs 1 5] by fastforce
qed

end
