(* ===== verification/Ring.thy ===== *)
theory Ring
  imports Prelude
begin

text \<open>
  Ring buffers with free-running 32-bit indices, as pipes and the console input use them, and the
  interface of a byte queue that the pipe provides.
\<close>

section \<open>The bytes between two indices\<close>

definition ring :: "'b list \<Rightarrow> uint \<Rightarrow> nat \<Rightarrow> 'b list" where
  "ring d i n = map (\<lambda>k. d ! (unat (i + of_nat k) mod length d)) [0..<n]"

lemma ring_0 [simp]: "ring d i 0 = []"
  and length_ring [simp]: "length (ring d i n) = n"
  by (simp_all add: ring_def)

lemma ring_front: "ring d i (Suc n) = d ! (unat i mod length d) # ring d (i + 1) n"
  by (simp add: ring_def upt_conv_Cons map_Suc_upt [symmetric] comp_def add.assoc del: upt_Suc)

lemma ring_back: "ring d i (Suc n) = ring d i n @ [d ! (unat (i + of_nat n) mod length d)]"
  by (simp add: ring_def)

lemma ring_index:
  assumes "m dvd 2 ^ 32"
  shows "unat (i + of_nat k :: uint) mod m = (unat i + k) mod m"
  using assms by (simp add: unat_word_ariths unat_of_nat mod_mod_cancel mod_add_right_eq)

lemma ring_apart:
  assumes "m dvd 2 ^ 32" "k < n" "n < m"
  shows "unat (i + of_nat k :: uint) mod m \<noteq> unat (i + of_nat n :: uint) mod m"
proof
  assume "unat (i + of_nat k :: uint) mod m = unat (i + of_nat n :: uint) mod m"
  then have "(unat i + k) mod m = (unat i + n) mod m" using assms(1) by (simp only: ring_index)
  then have "m dvd (unat i + n) - (unat i + k)"
    using assms(2) mod_eq_dvd_iff_nat [of "unat i + k" "unat i + n" m] by simp
  with assms show False by (simp add: nat_dvd_not_less)
qed

lemma ring_put:
  assumes "length d dvd 2 ^ 32" "n < length d"
  shows "ring (d[unat (i + of_nat n) mod length d := c]) i n = ring d i n"
    and "ring (d[unat (i + of_nat n) mod length d := c]) i (Suc n) = ring d i n @ [c]"
proof -
  show e: "ring (d[unat (i + of_nat n) mod length d := c]) i n = ring d i n"
    unfolding ring_def length_list_update
  proof (intro map_cong refl)
    fix k assume "k \<in> set [0..<n]"
    then have "unat (i + of_nat n) mod length d \<noteq> unat (i + of_nat k) mod length d"
      using ring_apart [OF assms(1) _ assms(2), of k i] by auto
    then show "d[unat (i + of_nat n) mod length d := c] ! (unat (i + of_nat k) mod length d) =
        d ! (unat (i + of_nat k) mod length d)"
      by (rule nth_list_update_neq)
  qed
  have "unat (i + of_nat n) mod length d < length d"
    using assms(2) by (intro mod_less_divisor) linarith
  then show "ring (d[unat (i + of_nat n) mod length d := c]) i (Suc n) = ring d i n @ [c]"
    unfolding ring_back e by simp
qed

text \<open>A distance between indices, and what one step does to it.\<close>

lemma dist_grow:
  assumes "unat (j - i :: uint) < 2 ^ 32 - 1"
  shows "unat (j + 1 - i) = Suc (unat (j - i))"
proof -
  have "unat ((j - i) + 1) = Suc (unat (j - i))"
    using assms by (subst unat_add_lt) simp_all
  then show ?thesis by (simp add: algebra_simps)
qed

lemma dist_shrink:
  assumes "j \<noteq> (i :: uint)"
  shows "unat (j - (i + 1)) = unat (j - i) - 1" "unat (j - 1 - i) = unat (j - i) - 1" "0 < unat (j - i)"
proof -
  have nz: "j - i \<noteq> 0" using assms by simp
  then show "0 < unat (j - i)" by (simp add: unat_gt_0)
  have "unat ((j - i) - 1) = unat (j - i) - 1" using nz by (simp add: unat_minus_one)
  then show "unat (j - (i + 1)) = unat (j - i) - 1" "unat (j - 1 - i) = unat (j - i) - 1"
    by (simp_all add: algebra_simps)
qed

section \<open>Byte queues\<close>

locale byte_queue =
  fixes items :: "'s \<Rightarrow> 'b list"
    and put :: "'b \<Rightarrow> 's \<Rightarrow> 's"
    and first :: "'s \<Rightarrow> 'b"
    and pop :: "'s \<Rightarrow> 's"
    and full :: "'s \<Rightarrow> bool"
    and empty :: "'s \<Rightarrow> bool"
    and ok :: "'s \<Rightarrow> bool"
    and cap :: nat
  assumes len: "ok s \<Longrightarrow> length (items s) \<le> cap"
    and full_iff: "ok s \<Longrightarrow> full s \<longleftrightarrow> length (items s) = cap"
    and empty_iff: "ok s \<Longrightarrow> empty s \<longleftrightarrow> items s = []"
    and put_back: "ok s \<Longrightarrow> length (items s) < cap \<Longrightarrow> items (put c s) = items s @ [c] \<and> ok (put c s)"
    and pop_front: "ok s \<Longrightarrow> items s = c # cs \<Longrightarrow> first s = c \<and> items (pop s) = cs \<and> ok (pop s)"

text \<open>Taking at most \<open>n\<close> items out, and putting items in until the queue is full.\<close>

fun take_out :: "('s \<Rightarrow> 'b) \<Rightarrow> ('s \<Rightarrow> 's) \<Rightarrow> ('s \<Rightarrow> bool) \<Rightarrow> nat \<Rightarrow> 's \<Rightarrow> 'b list \<times> 's" where
  "take_out f p e 0 s = ([], s)"
| "take_out f p e (Suc n) s =
     (if e s then ([], s) else let (bs, t) = take_out f p e n (p s) in (f s # bs, t))"

fun put_in :: "('b \<Rightarrow> 's \<Rightarrow> 's) \<Rightarrow> ('s \<Rightarrow> bool) \<Rightarrow> 'b list \<Rightarrow> 's \<Rightarrow> 'b list \<times> 's" where
  "put_in p f [] s = ([], s)"
| "put_in p f (c # cs) s = (if f s then (c # cs, s) else put_in p f cs (p c s))"

context byte_queue
begin

lemma take_out_ok:
  assumes "ok s"
  shows "\<exists>t. take_out first pop empty n s = (take n (items s), t) \<and> items t = drop n (items s) \<and> ok t"
  using assms
proof (induction n arbitrary: s)
  case (Suc n)
  show ?case
  proof (cases "items s")
    case Nil
    then show ?thesis using Suc.prems empty_iff [OF Suc.prems] by simp
  next
    case (Cons c cs)
    then show ?thesis
      using Suc.IH [of "pop s"] pop_front [OF Suc.prems Cons] empty_iff [OF Suc.prems] by auto
  qed
qed simp

lemma put_in_ok:
  assumes "ok s"
  shows "\<exists>t. put_in put full cs s = (drop (cap - length (items s)) cs, t) \<and>
    items t = items s @ take (cap - length (items s)) cs \<and> ok t"
  using assms
proof (induction cs arbitrary: s)
  case (Cons c cs)
  show ?case
  proof (cases "length (items s) = cap")
    case True
    then show ?thesis using Cons.prems full_iff [OF Cons.prems] by simp
  next
    case False
    then have lt: "length (items s) < cap" using len [OF Cons.prems] by simp
    note P = put_back [OF Cons.prems lt, of c]
    have "cap - length (items s) = Suc (cap - length (items (put c s)))" using P lt by simp
    then show ?thesis
      using Cons.IH [of "put c s"] P False full_iff [OF Cons.prems] by auto
  qed
qed simp

end

end
