(* ===== verification/Console.thy ===== *)
theory Console
  imports Inode Ring
begin

text \<open>
  The console \<open>console.c\<close>: formatted output to the serial port (\<open>uart.c\<close>) and the screen, the line
  editor that interrupts feed, and the read and write functions registered in \<open>devsw\<close>. The screen is
  the CGA memory and the cursor position the controller keeps; \<open>uart_out\<close> lists the bytes sent to the
  serial port. A read that finds no line sleeps; \<open>consoleread_resume\<close> goes on after the wakeup.
\<close>

section \<open>State\<close>

record constate = fstate +
  cons_locking :: bool
  panicked :: bool
  crt :: "nat \<Rightarrow> ushort"
  crt_pos :: int
  uart :: bool
  uart_out :: "uchar list"
  in_buf :: "uchar list"
  in_r :: uint
  in_w :: uint
  in_e :: uint

section \<open>Output\<close>

definition BACKSPACE :: int where "BACKSPACE = 0x100"

definition uartputc :: "int \<Rightarrow> 'a constate_scheme \<Rightarrow> 'a constate_scheme" where
  "uartputc c s = (if \<not> uart s then s else s\<lparr>uart_out := uart_out s @ [word_of_int c]\<rparr>)"

text \<open>The new position and screen contents before the check and the scrolling.\<close>

definition cga_put :: "int \<Rightarrow> 'a constate_scheme \<Rightarrow> int \<times> (nat \<Rightarrow> ushort)" where
  "cga_put c s =
     (let pos = crt_pos s
      in if c = 10 then (pos + (80 - pos mod 80), crt s)
         else if c = BACKSPACE then (if 0 < pos then pos - 1 else pos, crt s)
         else (pos + 1, (crt s)(nat pos := word_of_int (c AND 0xFF) OR 0x0700)))"

definition cgaputc :: "int \<Rightarrow> 'a constate_scheme \<Rightarrow> ('a constate_scheme, unit) res" where
  "cgaputc c s =
     (let (pos, m) = cga_put c s
      in if pos < 0 \<or> 25 * 80 < pos then Panic ''pos under/overflow''
         else let (pos, m) =
                (if 24 \<le> pos div 80
                 then let m = (\<lambda>i. if i < 23 * 80 then m (i + 80) else m i);
                          pos = pos - 80
                      in (pos, \<lambda>i. if nat pos \<le> i \<and> i < 24 * 80 then 0 else m i)
                 else (pos, m))
              in Ok () (s\<lparr>crt_pos := pos, crt := m(nat pos := 0x0720)\<rparr>))"

text \<open>After a panic the caller spins with interrupts off.\<close>

definition consputc :: "int \<Rightarrow> 'a constate_scheme \<Rightarrow> ('a constate_scheme, unit) res" where
  "consputc c s =
     (if panicked s then NoReturn s
      else cgaputc c (if c = BACKSPACE then uartputc 8 (uartputc 32 (uartputc 8 s)) else uartputc c s))"

text \<open>The digits of \<open>x\<close>, least significant first, as the loop of \<open>printint\<close> leaves them in \<open>buf\<close>.\<close>

definition digit_char :: "nat \<Rightarrow> int" where
  "digit_char d = int (if d < 10 then 48 + d else 87 + d)"

function digits_rev :: "nat \<Rightarrow> nat \<Rightarrow> int list" where
  "digits_rev base x =
     digit_char (x mod base) # (if base < 2 \<or> x div base = 0 then [] else digits_rev base (x div base))"
  by pat_completeness auto
termination
  by (relation "measure snd") (auto intro: div_less_dividend simp: Suc_le_eq div_eq_0_iff)

definition printint :: "int \<Rightarrow> nat \<Rightarrow> bool \<Rightarrow> 'a constate_scheme \<Rightarrow> ('a constate_scheme, unit) res" where
  "printint xx base sign s =
     (let neg = sign \<and> xx < 0;
          x = unat (word_of_int (if neg then - xx else xx) :: uint);
          buf = digits_rev base x @ (if neg then [45] else [])
      in if 16 < length buf then Fault ''printint: buf''
         else forR (rev buf) consputc s)"

text \<open>What can follow the format: a word, or a string (\<open>None\<close> is the null pointer).\<close>

datatype cparg = AInt uint | AStr "uchar list option"

definition str :: "string \<Rightarrow> uchar list" where
  "str m = map of_char m"

definition put_str :: "uchar list \<Rightarrow> 'a constate_scheme \<Rightarrow> ('a constate_scheme, unit) res" where
  "put_str bs s = forR (map (\<lambda>b. int (unat b)) bs) consputc s"

fun cprintf_loop :: "uchar list \<Rightarrow> cparg list \<Rightarrow> 'a constate_scheme \<Rightarrow> ('a constate_scheme, unit) res" where
  "cprintf_loop [] as s = Ok () s"
| "cprintf_loop (c # xs) as s =
     (if c \<noteq> 37 then bindR (consputc (int (unat c)) s) (\<lambda>_ s. cprintf_loop xs as s)
      else (case xs of
          [] \<Rightarrow> Ok () s
        | d # ys \<Rightarrow>
            if d = 100 then (case as of
                AInt v # as \<Rightarrow> bindR (printint (sint v) 10 True s) (\<lambda>_ s. cprintf_loop ys as s)
              | _ \<Rightarrow> Fault ''cprintf: argument'')
            else if d = 120 \<or> d = 112 then (case as of
                AInt v # as \<Rightarrow> bindR (printint (sint v) 16 False s) (\<lambda>_ s. cprintf_loop ys as s)
              | _ \<Rightarrow> Fault ''cprintf: argument'')
            else if d = 115 then (case as of
                AStr p # as \<Rightarrow> bindR (put_str (case p of Some m \<Rightarrow> m | None \<Rightarrow> str ''(null)'') s) (\<lambda>_ s.
                  cprintf_loop ys as s)
              | _ \<Rightarrow> Fault ''cprintf: argument'')
            else if d = 37 then bindR (consputc 37 s) (\<lambda>_ s. cprintf_loop ys as s)
            else bindR (consputc 37 s) (\<lambda>_ s. bindR (consputc (int (unat d)) s) (\<lambda>_ s. cprintf_loop ys as s))))"

definition cprintf :: "uchar list option \<Rightarrow> cparg list \<Rightarrow> 'a constate_scheme \<Rightarrow> ('a constate_scheme, unit) res" where
  "cprintf fmt as s =
     (let locking = cons_locking s
      in bindR (if locking then acquire_lk Lcons s else Ok () s) (\<lambda>_ s.
         case fmt of
           None \<Rightarrow> Panic ''null fmt''
         | Some m \<Rightarrow> bindR (cprintf_loop m as s) (\<lambda>_ s. if locking then release_lk Lcons s else Ok () s)))"

abbreviation kprint :: "string \<Rightarrow> cparg list \<Rightarrow> 'a constate_scheme \<Rightarrow> ('a constate_scheme, unit) res" where
  "kprint m as \<equiv> cprintf (Some (str m)) as"

section \<open>Process listing (procdump of proc.c)\<close>

text \<open>
  \<open>pcs i\<close> are the return addresses \<open>getcallerpcs\<close> finds on the kernel stack of process \<open>i\<close>; stacks
  are not part of the model.
\<close>

definition state_name :: "procstate \<Rightarrow> string" where
  "state_name st = (case st of UNUSED \<Rightarrow> ''unused'' | EMBRYO \<Rightarrow> ''embryo'' | SLEEPING \<Rightarrow> ''sleep ''
     | RUNNABLE \<Rightarrow> ''runble'' | RUNNING \<Rightarrow> ''run   '' | ZOMBIE \<Rightarrow> ''zombie'')"

definition nl :: string where "nl = [CHR 0x0A]"
definition tab :: string where "tab = [CHR 0x09]"

definition cname :: "uchar list \<Rightarrow> uchar list" where
  "cname bs = takeWhile (\<lambda>b. b \<noteq> 0) bs"

text \<open>The entries of page table \<open>pgtab\<close> that map user pages, each printed by \<open>show\<close>.\<close>

definition dump_table :: "(nat \<Rightarrow> uint \<Rightarrow> 'a constate_scheme \<Rightarrow> ('a constate_scheme, unit) res) \<Rightarrow> uint \<Rightarrow>
    'a constate_scheme \<Rightarrow> ('a constate_scheme, unit) res" where
  "dump_table out pgtab s =
     forR [0..<1024] (\<lambda>j s.
       let pte = load32 (mem s) (pgtab + 4 * of_nat j)
       in if pte_has pte PTE_P \<and> pte_has pte PTE_U then out j pte s else Ok () s) s"

definition dump_proc :: "(nat \<Rightarrow> uint list) \<Rightarrow> nat \<Rightarrow> 'a constate_scheme \<Rightarrow> ('a constate_scheme, unit) res" where
  "dump_proc pcs i s =
     (let p = procs s i
      in bindR (kprint ''%d %s %s'' [AInt (word_of_int (pid p)), AStr (Some (str (state_name (state p)))),
            AStr (Some (cname (pname p)))] s) (\<lambda>_ s.
         bindR (if state p = SLEEPING
                then forR (takeWhile (\<lambda>a. a \<noteq> 0) (take 10 (pcs i))) (\<lambda>a s. kprint '' %p'' [AInt a] s) s
                else Ok () s) (\<lambda>_ s.
         bindR (kprint (nl @ ''Page tables:'' @ nl) [] s) (\<lambda>_ s.
         bindR (kprint (tab @ ''memory location of page directory = %d'' @ nl) [AInt (load32 (mem s) (pgdir p))] s) (\<lambda>_ s.
         bindR (forR [0..<512] (\<lambda>k s.
           let pde = load32 (mem s) (pgdir p + 4 * of_nat k)
           in if pte_has pde PTE_P
              then bindR (kprint (tab @ ''pdir PTE %d, %d:'' @ nl) [AInt (of_nat k), AInt (PTE_ADDR pde div 4096)] s) (\<lambda>_ s.
                   bindR (kprint (tab @ tab @ ''memory location of page table = %d'' @ nl) [AInt (PTE_ADDR pde)] s) (\<lambda>_ s.
                   dump_table (\<lambda>j pte. kprint (tab @ tab @ ''ptbl PTE %d, %d, %d'' @ nl)
                     [AInt (of_nat j), AInt (PTE_ADDR pte div 4096), AInt (PTE_ADDR pte)]) (P2V (PTE_ADDR pde)) s))
              else Ok () s) s) (\<lambda>_ s.
         bindR (kprint (''Page Mappings:'' @ nl) [] s) (\<lambda>_ s.
         bindR (forR [0..<512] (\<lambda>k s.
           let pde = load32 (mem s) (pgdir p + 4 * of_nat k)
           in if pte_has pde PTE_P
              then dump_table (\<lambda>j pte. kprint (''%d -> %d'' @ nl)
                     [AInt (of_nat (k * 1024 + j)), AInt (PTE_ADDR pte div 4096)]) (P2V (PTE_ADDR pde)) s
              else Ok () s) s) (\<lambda>_ s.
         kprint (nl @ nl) [] s))))))))"

definition procdump :: "(nat \<Rightarrow> uint list) \<Rightarrow> 'a constate_scheme \<Rightarrow> ('a constate_scheme, unit) res" where
  "procdump pcs s =
     forR [0..<NPROC] (\<lambda>i s. if state (procs s i) = UNUSED then Ok () s else dump_proc pcs i s) s"

section \<open>Input\<close>

definition INPUT_BUF :: nat where "INPUT_BUF = 128"

definition ctrl :: "int \<Rightarrow> int" where "ctrl x = x - 64"

text \<open>The byte of \<open>input.buf\<close> with running index \<open>i\<close>.\<close>

definition in_at :: "'a constate_scheme \<Rightarrow> uint \<Rightarrow> uchar" where
  "in_at s i = in_buf s ! (unat i mod INPUT_BUF)"

definition rubout :: "'a constate_scheme \<Rightarrow> ('a constate_scheme, unit) res" where
  "rubout s = consputc BACKSPACE (s\<lparr>in_e := in_e s - 1\<rparr>)"

text \<open>
  Control-U erases back to the last newline. The number of turns is bounded by the distance from
  \<open>input.w\<close> to \<open>input.e\<close>.
\<close>

fun kill_line :: "nat \<Rightarrow> 'a constate_scheme \<Rightarrow> ('a constate_scheme, unit) res" where
  "kill_line 0 s = Ok () s"
| "kill_line (Suc n) s =
     (if in_e s \<noteq> in_w s \<and> in_at s (in_e s - 1) \<noteq> 10
      then bindR (rubout s) (\<lambda>_ s. kill_line n s) else Ok () s)"

definition console_char :: "int \<Rightarrow> 'a constate_scheme \<Rightarrow> ('a constate_scheme, unit) res" where
  "console_char c s =
     (if c = ctrl 85 then kill_line (unat (in_e s - in_w s)) s
      else if c = ctrl 72 \<or> c = 127 then (if in_e s \<noteq> in_w s then rubout s else Ok () s)
      else if c \<noteq> 0 \<and> in_e s - in_r s < of_nat INPUT_BUF
      then let c = (if c = 13 then 10 else c);
               s = s\<lparr>in_buf := (in_buf s)[unat (in_e s) mod INPUT_BUF := word_of_int c], in_e := in_e s + 1\<rparr>
           in bindR (consputc c s) (\<lambda>_ s.
              if c = 10 \<or> c = ctrl 68 \<or> in_e s = in_r s + of_nat INPUT_BUF
              then wakeup ChInput (s\<lparr>in_w := in_e s\<rparr>) else Ok () s)
      else Ok () s)"

text \<open>\<open>xs\<close> are the values that the successive calls of \<open>getc\<close> return before the first negative one.\<close>

fun console_chars :: "int list \<Rightarrow> bool \<Rightarrow> 'a constate_scheme \<Rightarrow> ('a constate_scheme, bool) res" where
  "console_chars [] dump s = Ok dump s"
| "console_chars (c # xs) dump s =
     (if c < 0 then Ok dump s
      else if c = ctrl 80 then console_chars xs True s
      else bindR (console_char c s) (\<lambda>_ s. console_chars xs dump s))"

definition consoleintr :: "(nat \<Rightarrow> uint list) \<Rightarrow> int list \<Rightarrow> 'a constate_scheme \<Rightarrow> ('a constate_scheme, unit) res" where
  "consoleintr pcs xs s =
     bindR (acquire_lk Lcons s) (\<lambda>_ s.
     bindR (console_chars xs False s) (\<lambda>dump s.
     bindR (release_lk Lcons s) (\<lambda>_ s. if dump then procdump pcs s else Ok () s)))"

section \<open>The device functions\<close>

text \<open>
  \<open>consoleread\<close> with \<open>n\<close> bytes still wanted of \<open>target\<close>, of which \<open>acc\<close> have been stored. The result
  is the return value and the bytes stored.
\<close>

definition consoleread_end :: "nat \<Rightarrow> uchar list \<Rightarrow> int \<Rightarrow> 'a constate_scheme \<Rightarrow>
    ('a constate_scheme, int \<times> uchar list) res" where
  "consoleread_end i acc r s =
     bindR (release_lk Lcons s) (\<lambda>_ s. bindR (ilock (Some i) s) (\<lambda>_ s. Ok (r, acc) s))"

fun consoleread_loop :: "nat \<Rightarrow> nat \<Rightarrow> nat \<Rightarrow> uchar list \<Rightarrow> 'a constate_scheme \<Rightarrow>
    ('a constate_scheme, int \<times> uchar list) res" where
  "consoleread_loop i target 0 acc s = consoleread_end i acc (int target) s"
| "consoleread_loop i target (Suc n) acc s =
     (if in_r s = in_w s
      then bindR (myproc s) (\<lambda>p s.
        if killed (procs s p) then consoleread_end i acc (- 1) s
        else sleep ChInput Lcons s)
      else let c = in_at s (in_r s);
               s = s\<lparr>in_r := in_r s + 1\<rparr>
           in if int (unat c) = ctrl 68
              then consoleread_end i acc (int target - int (Suc n))
                     (if Suc n < target then s\<lparr>in_r := in_r s - 1\<rparr> else s)
              else if c = 10 then consoleread_end i (acc @ [c]) (int target - int n) s
              else consoleread_loop i target n (acc @ [c]) s)"

definition consoleread :: "nat \<Rightarrow> int \<Rightarrow> 'a constate_scheme \<Rightarrow> ('a constate_scheme, int \<times> uchar list) res" where
  "consoleread i n s =
     bindR (iunlock (Some i) s) (\<lambda>_ s.
     bindR (acquire_lk Lcons s) (\<lambda>_ s.
       if n \<le> 0 then consoleread_end i [] 0 s
       else consoleread_loop i (nat n) (nat n) [] s))"

definition consoleread_resume :: "nat \<Rightarrow> nat \<Rightarrow> nat \<Rightarrow> uchar list \<Rightarrow> 'a constate_scheme \<Rightarrow>
    ('a constate_scheme, int \<times> uchar list) res" where
  "consoleread_resume i target n acc s =
     bindR (sleep_resume Lcons s) (\<lambda>_ s. consoleread_loop i target n acc s)"

definition consolewrite :: "nat \<Rightarrow> uchar list \<Rightarrow> 'a constate_scheme \<Rightarrow> ('a constate_scheme, int) res" where
  "consolewrite i src s =
     bindR (iunlock (Some i) s) (\<lambda>_ s.
     bindR (acquire_lk Lcons s) (\<lambda>_ s.
     bindR (put_str src s) (\<lambda>_ s.
     bindR (release_lk Lcons s) (\<lambda>_ s.
     bindR (ilock (Some i) s) (\<lambda>_ s. Ok (int (length src)) s)))))"

definition CONSOLE :: uint where "CONSOLE = 1"

definition consoleinit :: "'a constate_scheme \<Rightarrow> 'a constate_scheme" where
  "consoleinit s = s\<lparr>devsw := (devsw s)(CONSOLE := Some ConsoleDev), cons_locking := True\<rparr>"

section \<open>What printing does\<close>

definition cons_ok :: "'a constate_scheme \<Rightarrow> bool" where
  "cons_ok s \<longleftrightarrow> \<not> panicked s \<and> 0 \<le> crt_pos s \<and> crt_pos s < 24 * 80"

text \<open>The bytes for the serial port: a backspace also erases.\<close>

definition serial :: "int list \<Rightarrow> uchar list" where
  "serial ks = concat (map (\<lambda>c. if c = BACKSPACE then [8, 32, 8] else [word_of_int c]) ks)"

lemma serial_simps [simp]: "serial [] = []" "serial (cs1 @ cs2) = serial cs1 @ serial cs2"
  by (simp_all add: serial_def)

text \<open>\<open>printed s ks s'\<close>: \<open>s'\<close> is \<open>s\<close> after the characters \<open>ks\<close> went to the screen and the port.\<close>

definition printed :: "'a constate_scheme \<Rightarrow> int list \<Rightarrow> 'a constate_scheme \<Rightarrow> bool" where
  "printed s ks s' \<longleftrightarrow> cons_ok s' \<and>
     (\<exists>m p. s' = s\<lparr>crt := m, crt_pos := p, uart_out := (if uart s then uart_out s @ serial ks else uart_out s)\<rparr>)"

lemma printed_refl: "cons_ok s \<Longrightarrow> printed s [] s"
  unfolding printed_def by (intro conjI exI [of _ "crt s"] exI [of _ "crt_pos s"]) simp_all

lemma printed_trans: "printed s as t \<Longrightarrow> printed t bs u \<Longrightarrow> printed s (as @ bs) u"
  unfolding printed_def by (auto intro!: exI)

lemma printedD:
  assumes "printed s ks s'"
  shows "cons_ok s'" "uart s' = uart s" "held s' = held s" "procs s' = procs s" "cur s' = cur s" "cons_locking s' = cons_locking s"
    "in_buf s' = in_buf s" "in_r s' = in_r s" "in_w s' = in_w s" "in_e s' = in_e s" "mem s' = mem s"
    "uart_out s' = (if uart s then uart_out s @ serial ks else uart_out s)"
  using assms by (auto simp: printed_def)

lemma cga_put_range:
  assumes "0 \<le> crt_pos s" "crt_pos s < 24 * 80"
  shows "\<exists>q m. cga_put c s = (q, m) \<and> 0 \<le> q \<and> q \<le> 24 * 80"
proof -
  have m: "0 \<le> crt_pos s mod 80" "crt_pos s mod 80 < 80" "crt_pos s = 80 * (crt_pos s div 80) + crt_pos s mod 80" by simp_all
  have "crt_pos s div 80 \<le> 23" using assms by simp
  then have "crt_pos s + (80 - crt_pos s mod 80) \<le> 24 * 80" using m by linarith
  moreover have "0 \<le> crt_pos s + (80 - crt_pos s mod 80)" "crt_pos s - 1 \<le> 24 * 80" "crt_pos s + 1 \<le> 24 * 80"
    using assms m(1,2) by linarith+
  ultimately show ?thesis using assms by (auto simp: cga_put_def Let_def)
qed

lemma cgaputc_ok:
  assumes "0 \<le> crt_pos s" "crt_pos s < 24 * 80"
  shows "\<exists>m p. cgaputc c s = Ok () (s\<lparr>crt_pos := p, crt := m\<rparr>) \<and> 0 \<le> p \<and> p < 24 * 80"
proof -
  obtain q m where q: "cga_put c s = (q, m)" "0 \<le> q" "q \<le> 24 * 80" using cga_put_range [OF assms] by blast
  have no: "\<not> (q < 0 \<or> 25 * 80 < q)" using q by simp
  show ?thesis
  proof (cases "24 \<le> q div 80")
    case True
    then have "q = 24 * 80" using q(3) by simp
    then show ?thesis unfolding cgaputc_def Let_def q(1) prod.case if_not_P [OF no] if_P [OF True]
      by - (intro exI conjI, rule refl, simp_all)
  next
    case False
    then have "q < 24 * 80" by simp
    then show ?thesis using q(2) unfolding cgaputc_def Let_def q(1) prod.case if_not_P [OF no] if_not_P [OF False]
      by - (intro exI conjI, rule refl, simp_all)
  qed
qed

lemma consputc_ok:
  assumes "cons_ok s"
  shows "\<exists>s'. consputc c s = Ok () s' \<and> printed s [c] s'"
proof -
  let ?u = "s\<lparr>uart_out := (if uart s then uart_out s @ serial [c] else uart_out s)\<rparr>"
  have "consputc c s = cgaputc c ?u"
    using assms by (simp add: consputc_def uartputc_def serial_def cons_ok_def)
  moreover obtain m p where "cgaputc c ?u = Ok () (?u\<lparr>crt_pos := p, crt := m\<rparr>)" "0 \<le> p" "p < 24 * 80"
    using cgaputc_ok [of ?u c] assms by (auto simp: cons_ok_def)
  moreover have "printed s [c] (?u\<lparr>crt_pos := p, crt := m\<rparr>)" if "0 \<le> p" "p < 24 * 80" for p m
    using assms that unfolding printed_def cons_ok_def by (intro conjI exI [of _ m] exI [of _ p]) simp_all
  ultimately show ?thesis by auto
qed

lemma put_chars_ok:
  assumes "cons_ok s"
  shows "\<exists>s'. forR ks consputc s = Ok () s' \<and> printed s ks s'"
  using assms
proof (induction ks arbitrary: s)
  case (Cons c ks)
  obtain t where t: "consputc c s = Ok () t" "printed s [c] t" using consputc_ok [OF Cons.prems] by blast
  obtain u where u: "forR ks consputc t = Ok () u" "printed t ks u"
    using Cons.IH [OF printedD(1) [OF t(2)]] by blast
  from printed_trans [OF t(2) u(2)] t(1) u(1) show ?case by simp
qed (simp add: printed_refl)

section \<open>Numerals\<close>

declare digits_rev.simps [simp del]

lemma length_digits_rev: "2 \<le> base \<Longrightarrow> 1 \<le> k \<Longrightarrow> x < base ^ k \<Longrightarrow> length (digits_rev base x) \<le> k"
proof (induction k arbitrary: x)
  case (Suc k)
  show ?case
  proof (cases "x div base = 0")
    case True
    then show ?thesis by (subst digits_rev.simps) simp
  next
    case False
    have "x div base < base ^ k" using Suc.prems by (simp add: div_less_iff_less_mult mult.commute)
    moreover have "1 \<le> k" using False Suc.prems by (cases k) auto
    ultimately show ?thesis using Suc.IH [of "x div base"] Suc.prems False by (subst digits_rev.simps) simp
  qed
qed simp

definition num_chars :: "int \<Rightarrow> nat \<Rightarrow> bool \<Rightarrow> int list" where
  "num_chars xx base sign =
     (if sign \<and> xx < 0 then 45 # rev (digits_rev base (nat (- xx)))
      else rev (digits_rev base (unat (word_of_int xx :: uint))))"

definition digit_val :: "int \<Rightarrow> nat" where
  "digit_val c = nat (if c < 58 then c - 48 else c - 87)"

definition num_val :: "nat \<Rightarrow> int list \<Rightarrow> nat" where
  "num_val base cs1 = foldl (\<lambda>v c. base * v + digit_val c) 0 cs1"

lemma digit_val_char: "d < 16 \<Longrightarrow> digit_val (digit_char d) = d"
  by (auto simp: digit_val_def digit_char_def)

lemma num_val_digits: "2 \<le> base \<Longrightarrow> base \<le> 16 \<Longrightarrow> num_val base (rev (digits_rev base x)) = x"
proof (induction base x rule: digits_rev.induct)
  case (1 base x)
  have d: "digit_val (digit_char (x mod base)) = x mod base"
  proof (rule digit_val_char)
    have "x mod base < base" using 1(2) by (intro mod_less_divisor) simp
    then show "x mod base < 16" using 1(3) by simp
  qed
  show ?case
  proof (cases "x div base = 0")
    case True
    then have "x mod base = x" using div_mult_mod_eq [of x base] by simp
    with True d show ?thesis by (subst digits_rev.simps) (simp add: num_val_def)
  next
    case False
    with 1 have "num_val base (rev (digits_rev base (x div base))) = x div base" by simp
    with False 1(2) d show ?thesis by (subst digits_rev.simps) (simp add: num_val_def)
  qed
qed

lemma printint_ok:
  assumes "cons_ok s" "base = 10 \<or> base = 16" "- 2147483648 \<le> xx" "xx < 4294967296"
  shows "\<exists>s'. printint xx base sign s = Ok () s' \<and> printed s (num_chars xx base sign) s'"
proof -
  let ?neg = "sign \<and> xx < 0"
  let ?x = "unat (word_of_int (if ?neg then - xx else xx) :: uint)"
  let ?buf = "digits_rev base ?x @ (if ?neg then [45] else [])"
  have "?x < 2 ^ 32" using unat_lt32 [of "word_of_int (if ?neg then - xx else xx)"] by simp
  then have "length (digits_rev base ?x) \<le> 10"
    using assms(2) by (intro length_digits_rev) auto
  moreover have "length (if ?neg then [45 :: int] else []) \<le> 1" by (cases ?neg) simp_all
  ultimately have len: "length ?buf \<le> 11" unfolding length_append by linarith
  have nc: "num_chars xx base sign = rev ?buf"
  proof (cases ?neg)
    case True
    then have "uint (word_of_int (- xx) :: uint) = - xx" using assms(3) by (simp only: uint_word_of_int) simp
    then have "unat (word_of_int (- xx) :: uint) = nat (- xx)" by (simp add: unat_eq_nat_uint)
    with True show ?thesis by (simp add: num_chars_def)
  qed (auto simp: num_chars_def)
  have "printint xx base sign s = forR (rev ?buf) consputc s"
    unfolding printint_def Let_def by (rule if_not_P) (use len in linarith)
  then show ?thesis using put_chars_ok [OF assms(1), of "rev ?buf"] by (simp only: nc)
qed

section \<open>Formats\<close>

text \<open>What a format and its arguments stand for; \<open>None\<close> when an argument is missing or of the wrong kind.\<close>

fun fmt_chars :: "uchar list \<Rightarrow> cparg list \<Rightarrow> int list option" where
  "fmt_chars [] as = Some []"
| "fmt_chars (c # xs) as =
     (if c \<noteq> 37 then map_option ((#) (int (unat c))) (fmt_chars xs as)
      else (case xs of
          [] \<Rightarrow> Some []
        | d # ys \<Rightarrow>
            if d = 100 then (case as of AInt v # as \<Rightarrow> map_option ((@) (num_chars (sint v) 10 True)) (fmt_chars ys as) | _ \<Rightarrow> None)
            else if d = 120 \<or> d = 112 then (case as of AInt v # as \<Rightarrow> map_option ((@) (num_chars (sint v) 16 False)) (fmt_chars ys as) | _ \<Rightarrow> None)
            else if d = 115 then (case as of
                AStr p # as \<Rightarrow> map_option ((@) (map (\<lambda>b. int (unat b)) (case p of Some m \<Rightarrow> m | None \<Rightarrow> str ''(null)''))) (fmt_chars ys as)
              | _ \<Rightarrow> None)
            else if d = 37 then map_option ((#) 37) (fmt_chars ys as)
            else map_option (\<lambda>r. 37 # int (unat d) # r) (fmt_chars ys as)))"

lemma sint_range: "- 2147483648 \<le> sint (v :: uint)" "sint v < 4294967296"
  using sint_ge [of v] sint_lt [of v] by simp_all

lemma uint_of_sint: "0 \<le> sint v \<Longrightarrow> uint v = sint (v :: uint)"
  using uint_sint [of v] sint_lt [of v] by (simp add: take_bit_eq_mod)

lemma cprintf_loop_ok:
  assumes "cons_ok s" "fmt_chars fmt args = Some out"
  shows "\<exists>s'. cprintf_loop fmt args s = Ok () s' \<and> printed s out s'"
  using assms
proof (induction "length fmt" arbitrary: fmt args s out rule: less_induct)
  case less
  note put = consputc_ok [OF less.prems(1)] and num = printint_ok [OF less.prems(1) _ sint_range]
    and put_all = put_chars_ok [OF less.prems(1)]
  have go: "\<exists>u. bindR m (\<lambda>_. cprintf_loop ys rest) = Ok () u \<and> printed s out u"
    if m: "\<exists>t. m = Ok () t \<and> printed s a t" and r: "fmt_chars ys rest = Some r" "out = a @ r" "length ys < length fmt"
    for m a ys rest r
  proof -
    obtain t where t: "m = Ok () t" "printed s a t" using m by blast
    obtain u where "cprintf_loop ys rest t = Ok () u" "printed t r u"
      using less.hyps [OF r(3) printedD(1) [OF t(2)] r(1)] by blast
    then show ?thesis using t printed_trans r(2) by auto
  qed
  show ?case
  proof (cases fmt)
    case Nil
    then show ?thesis using less.prems by (simp add: printed_refl)
  next
    case fmt: (Cons c xs)
    show ?thesis
    proof (cases "c = 37")
      case False
      then obtain r where "fmt_chars xs args = Some r" "out = [int (unat c)] @ r" using less.prems(2) fmt by auto
      from go [OF put this] False fmt show ?thesis by simp
    next
      case pct: True
      show ?thesis
      proof (cases xs)
        case Nil
        then show ?thesis using less.prems pct fmt by (simp add: printed_refl)
      next
        case (Cons d ys)
        note E = fmt pct Cons
        consider "d = 100" | "d = 120 \<or> d = 112" | "d = 115" | "d = 37" | "d \<noteq> 100" "d \<noteq> 120" "d \<noteq> 112" "d \<noteq> 115" "d \<noteq> 37"
          by auto
        then show ?thesis
        proof cases
          case 1
          then obtain v rest r where a: "args = AInt v # rest" "fmt_chars ys rest = Some r"
            "out = num_chars (sint v) 10 True @ r" using less.prems(2) E by (auto split: list.splits cparg.splits)
          from go [OF num a(2,3)] E 1 a(1) show ?thesis by simp
        next
          case 2
          then obtain v rest r where a: "args = AInt v # rest" "fmt_chars ys rest = Some r"
            "out = num_chars (sint v) 16 False @ r" using less.prems(2) E by (auto split: list.splits cparg.splits)
          from go [OF num a(2,3)] E 2 a(1) show ?thesis by auto
        next
          case 3
          then obtain m rest r where a: "args = AStr m # rest" "fmt_chars ys rest = Some r"
            "out = map (\<lambda>b. int (unat b)) (case m of Some m \<Rightarrow> m | None \<Rightarrow> str ''(null)'') @ r"
            using less.prems(2) E by (auto split: list.splits cparg.splits)
          from go [OF put_all a(2,3)] E 3 a(1) show ?thesis by (simp add: put_str_def)
        next
          case 4
          then obtain r where "fmt_chars ys args = Some r" "out = [37] @ r" using less.prems(2) E by auto
          from go [OF put this] E 4 show ?thesis by simp
        next
          case 5
          then obtain r where a: "fmt_chars ys args = Some r" "out = [37, int (unat d)] @ r" using less.prems(2) E by auto
          have "\<exists>t. bindR (consputc 37 s) (\<lambda>_. consputc (int (unat d))) = Ok () t \<and> printed s [37, int (unat d)] t"
          proof -
            obtain t1 where t1: "consputc 37 s = Ok () t1" "printed s [37] t1" using put by blast
            obtain t2 where "consputc (int (unat d)) t1 = Ok () t2" "printed t1 [int (unat d)] t2"
              using consputc_ok [OF printedD(1) [OF t1(2)]] by blast
            then show ?thesis using t1(1) printed_trans [OF t1(2)] by fastforce
          qed
          from go [OF this a] E 5 show ?thesis by (simp add: bindR_assoc)
        qed
      qed
    qed
  qed
qed

lemma cprintf_ok:
  fixes s :: "'a constate_scheme"
  assumes "cons_ok s" and "fmt_chars fmt args = Some out" and "Lcons \<notin> set (held s)"
  shows "\<exists>s'. cprintf (Some fmt) args s = Ok () s' \<and> printed s out s'"
proof (cases "cons_locking s")
  case False
  then show ?thesis using cprintf_loop_ok [OF assms(1,2)] by (auto simp: cprintf_def)
next
  case True
  let ?s = "s\<lparr>held := Lcons # held s\<rparr>"
  have "cons_ok ?s" using assms(1) by (simp add: cons_ok_def)
  from cprintf_loop_ok [OF this assms(2)] obtain t where t: "cprintf_loop fmt args ?s = Ok () t" "printed ?s out t" by blast
  have "held t = Lcons # held s" using printedD(3) [OF t(2)] by simp
  moreover have "printed s out (t\<lparr>held := held s\<rparr>)" using t(2) by (auto simp: printed_def cons_ok_def intro!: exI)
  ultimately show ?thesis using True t(1) assms(3) by (simp add: cprintf_def)
qed


definition ex_con :: constate where
  "ex_con = fstate.extend ex_fs (constate.fields True False (\<lambda>_. 0) 1919 True [] (replicate 128 0) 0 0 0)"

lemma ex_con_sel [simp]: "cons_ok ex_con" "held ex_con = []" "uart ex_con" "uart_out ex_con = []" "cur ex_con = Some 3"
  "in_buf ex_con = replicate 128 0" "in_r ex_con = 0" "in_w ex_con = 0" "in_e ex_con = 0"
  by (simp_all add: ex_con_def fstate.extend_def constate.fields_def cons_ok_def)


section \<open>The line editor\<close>

lemma ring_split: "ring d i (m + n) = ring d i m @ ring d (i + of_nat m) n"
  by (induction n) (simp_all add: ring_back add.assoc)

definition committed :: "'a constate_scheme \<Rightarrow> uchar list" where
  "committed s = ring (in_buf s) (in_r s) (unat (in_w s - in_r s))"

definition editing :: "'a constate_scheme \<Rightarrow> uchar list" where
  "editing s = ring (in_buf s) (in_w s) (unat (in_e s - in_w s))"

definition in_ok :: "'a constate_scheme \<Rightarrow> bool" where
  "in_ok s \<longleftrightarrow> length (in_buf s) = INPUT_BUF \<and> unat (in_e s - in_r s) \<le> INPUT_BUF \<and>
     unat (in_w s - in_r s) \<le> unat (in_e s - in_r s) \<and> 10 \<notin> set (editing s)"

lemma in_dists:
  assumes "unat (in_w s - in_r s) \<le> unat (in_e s - in_r s)"
  shows "unat (in_e s - in_r s) = unat (in_w s - in_r s) + unat (in_e s - in_w s)"
proof -
  have "in_e s - in_w s = (in_e s - in_r s) - (in_w s - in_r s)" by simp
  then have "unat (in_e s - in_w s) = unat (in_e s - in_r s) - unat (in_w s - in_r s)"
    using assms by (simp only: unat_sub word_le_nat_alt)
  with assms show ?thesis by simp
qed

lemma in_ring: "in_ok s \<Longrightarrow> ring (in_buf s) (in_r s) (unat (in_e s - in_r s)) = committed s @ editing s"
  using in_dists [of s] by (simp add: in_ok_def committed_def editing_def ring_split)

lemma in_lengths: "in_ok s \<Longrightarrow> unat (in_e s - in_r s) = length (committed s) + length (editing s)"
  using in_dists [of s] by (simp add: in_ok_def committed_def editing_def)

definition same_input :: "'a constate_scheme \<Rightarrow> 'a constate_scheme \<Rightarrow> bool" where
  "same_input s t \<longleftrightarrow> in_buf t = in_buf s \<and> in_r t = in_r s \<and> in_w t = in_w s \<and> in_e t = in_e s"

lemma same_inputD:
  "same_input s t \<Longrightarrow> committed t = committed s" "same_input s t \<Longrightarrow> editing t = editing s" "same_input s t \<Longrightarrow> in_ok t = in_ok s"
  by (simp_all add: same_input_def committed_def editing_def in_ok_def)

lemma printed_same_input: "printed s ks t \<Longrightarrow> same_input s t"
  by (simp add: same_input_def printedD)

text \<open>Removing the last byte of the line.\<close>

lemma rubout_ok:
  assumes "in_ok s" "cons_ok s" "in_e s \<noteq> in_w s"
  shows "\<exists>t. rubout s = Ok () t \<and> in_ok t \<and> cons_ok t \<and> committed t = committed s \<and> editing t = butlast (editing s) \<and>
    held t = held s \<and> length (editing t) < length (editing s)"
proof -
  let ?u = "s\<lparr>in_e := in_e s - 1\<rparr>"
  note D = dist_shrink [OF assms(3)]
  have e: "unat (in_e s - in_w s) = Suc (unat (in_e ?u - in_w s))" using D(2,3) by simp
  have ed: "editing ?u = butlast (editing s)" unfolding editing_def e by (simp add: ring_back)
  have d: "unat (in_e s - in_r s) = unat (in_w s - in_r s) + Suc (unat (in_e ?u - in_w s))"
    using in_dists [of s] assms(1) e by (simp add: in_ok_def)
  then have "in_e s - in_r s \<noteq> 0" by (metis add_is_0 nat.distinct(1) unat_0)
  then have "in_e s \<noteq> in_r s" by simp
  from dist_shrink(2) [OF this] have r: "unat (in_e ?u - in_r s) = unat (in_e s - in_r s) - 1" by simp
  have "in_ok ?u" using assms(1) r d ed by (auto simp: in_ok_def dest: in_set_butlastD)
  moreover have "cons_ok ?u" using assms(2) by (simp add: cons_ok_def)
  then obtain t where t: "consputc BACKSPACE ?u = Ok () t" "printed ?u [BACKSPACE] t" using consputc_ok by blast
  moreover have "committed ?u = committed s" by (simp add: committed_def)
  moreover have "length (editing ?u) < length (editing s)" unfolding editing_def length_ring e by simp
  ultimately show ?thesis
    using printed_same_input [OF t(2)] printedD(1,3) [OF t(2)] ed
    by (simp add: rubout_def same_inputD)
qed

lemma in_at_last:
  assumes "in_ok s" "in_e s \<noteq> in_w s"
  shows "in_at s (in_e s - 1) = last (editing s)" "editing s \<noteq> []"
proof -
  have e: "unat (in_e s - in_w s) = Suc (unat (in_e s - 1 - in_w s))" using dist_shrink(2,3) [OF assms(2)] by simp
  show "in_at s (in_e s - 1) = last (editing s)" "editing s \<noteq> []"
    using assms(1) unfolding editing_def e by (simp_all add: ring_back in_at_def in_ok_def)
qed

lemma editing_Nil: "editing s = [] \<longleftrightarrow> in_e s = in_w s"
proof -
  have "editing s = [] \<longleftrightarrow> unat (in_e s - in_w s) = 0" by (metis editing_def length_0_conv length_ring)
  then show ?thesis by (auto simp: unat_eq_0)
qed

lemma kill_line_ok:
  assumes "in_ok s" "cons_ok s" "length (editing s) \<le> n"
  shows "\<exists>t. kill_line n s = Ok () t \<and> in_ok t \<and> cons_ok t \<and> committed t = committed s \<and> editing t = [] \<and> held t = held s"
  using assms
proof (induction n arbitrary: s)
  case (Suc n)
  show ?case
  proof (cases "in_e s = in_w s")
    case True
    then show ?thesis using Suc.prems by (simp add: editing_Nil)
  next
    case False
    have "in_at s (in_e s - 1) \<noteq> 10"
      using in_at_last [OF Suc.prems(1) False] Suc.prems(1) last_in_set by (metis in_ok_def)
    moreover obtain t where t: "rubout s = Ok () t" "in_ok t" "cons_ok t" "committed t = committed s" "held t = held s"
      "length (editing t) < length (editing s)" using rubout_ok [OF Suc.prems(1,2) False] by blast
    moreover have "length (editing t) \<le> n" using t(6) Suc.prems(3) by simp
    ultimately show ?thesis using False Suc.IH [OF t(2,3)] by simp
  qed
qed simp

text \<open>Storing a byte at the end of the line.\<close>

lemma store_ok:
  fixes s :: "'a constate_scheme" and b :: uchar
  assumes "in_ok s" "unat (in_e s - in_r s) < INPUT_BUF"
  defines "t \<equiv> s\<lparr>in_buf := (in_buf s)[unat (in_e s) mod INPUT_BUF := b], in_e := in_e s + 1\<rparr>"
  shows "committed t = committed s" "editing t = editing s @ [b]" "unat (in_e t - in_r t) = Suc (unat (in_e s - in_r s))"
    "unat (in_w t - in_r t) \<le> unat (in_e t - in_r t)" "length (in_buf t) = INPUT_BUF"
proof -
  let ?n = "unat (in_e s - in_r s)" and ?a = "unat (in_w s - in_r s)" and ?m = "unat (in_e s - in_w s)"
  have L: "length (in_buf s) = INPUT_BUF" using assms(1) by (simp add: in_ok_def)
  have dv: "INPUT_BUF dvd 2 ^ 32" by (simp add: INPUT_BUF_def)
  have n: "?n = ?a + ?m" using assms(1) in_dists [of s] by (simp add: in_ok_def)
  have big: "?n < 2 ^ 32 - 1" "?m < 2 ^ 32 - 1" using assms(2) n by (simp_all add: INPUT_BUF_def)
  show g: "unat (in_e t - in_r t) = Suc ?n" using dist_grow [OF big(1)] by (simp add: t_def)
  have gm: "unat (in_e t - in_w t) = Suc ?m" using dist_grow [OF big(2)] by (simp add: t_def)
  show "unat (in_w t - in_r t) \<le> unat (in_e t - in_r t)" unfolding g using n by (simp add: t_def)
  show "length (in_buf t) = INPUT_BUF" using L by (simp add: t_def)
  have "in_r s + of_nat ?n = in_e s" by simp
  then have R: "ring (in_buf t) (in_r s) (Suc ?n) = ring (in_buf s) (in_r s) ?n @ [b]"
    using ring_put(2) [of "in_buf s" ?n "in_r s" b] L dv assms(2) by (simp add: t_def)
  have "ring (in_buf t) (in_r s) (Suc ?n) = committed t @ editing t"
    using ring_split [of "in_buf t" "in_r s" ?a "Suc ?m"] n gm by (simp add: committed_def editing_def t_def)
  with R in_ring [OF assms(1)] have "committed t @ editing t = committed s @ (editing s @ [b])" by simp
  moreover have "length (committed t) = length (committed s)" by (simp add: committed_def t_def)
  ultimately show "committed t = committed s" "editing t = editing s @ [b]" by simp_all
qed

lemma console_char_step:
  fixes s :: "'a constate_scheme"
  assumes "in_ok s" and "cons_ok s" and "Lptable \<notin> set (held s)" and "0 \<le> c" and "c < 256"
  defines "d \<equiv> if c = 13 then 10 else c"
  shows "\<exists>t. console_char c s = Ok () t \<and> in_ok t \<and> cons_ok t \<and> held t = held s \<and>
    (if c = ctrl 85 then committed t = committed s \<and> editing t = []
     else if c = ctrl 72 \<or> c = 127 then committed t = committed s \<and> editing t = butlast (editing s)
     else if c \<noteq> 0 \<and> length (committed s) + length (editing s) < 128
     then if d = 10 \<or> d = ctrl 68 \<or> length (committed s) + length (editing s) = 127
          then committed t = committed s @ editing s @ [word_of_int d] \<and> editing t = []
          else committed t = committed s \<and> editing t = editing s @ [word_of_int d]
     else t = s)"
proof -
  consider "c = ctrl 85" | "c \<noteq> ctrl 85" "c = ctrl 72 \<or> c = 127"
    | "c \<noteq> ctrl 85" "\<not> (c = ctrl 72 \<or> c = 127)" "c \<noteq> 0 \<and> length (committed s) + length (editing s) < 128"
    | "c \<noteq> ctrl 85" "\<not> (c = ctrl 72 \<or> c = 127)" "\<not> (c \<noteq> 0 \<and> length (committed s) + length (editing s) < 128)" by blast
  then show ?thesis
  proof cases
    case 1
    have "length (editing s) \<le> unat (in_e s - in_w s)" by (simp add: editing_def)
    from kill_line_ok [OF assms(1,2) this] 1 show ?thesis by (auto simp: console_char_def)
  next
    case 2
    show ?thesis
    proof (cases "in_e s = in_w s")
      case True
      then show ?thesis using 2 assms(1,2) by (simp add: console_char_def editing_Nil [THEN iffD2])
    next
      case False
      from rubout_ok [OF assms(1,2) False] 2 False show ?thesis by (auto simp: console_char_def)
    qed
  next
    case 3
    let ?n = "length (committed s) + length (editing s)"
    let ?b = "word_of_int d :: uchar"
    let ?u = "s\<lparr>in_buf := (in_buf s)[unat (in_e s) mod INPUT_BUF := ?b], in_e := in_e s + 1\<rparr>"
    have n: "unat (in_e s - in_r s) = ?n" by (rule in_lengths [OF assms(1)])
    have lt: "unat (in_e s - in_r s) < INPUT_BUF" using 3 n by (simp add: INPUT_BUF_def)
    note S = store_ok [OF assms(1) lt, of ?b]
    have room: "c \<noteq> 0 \<and> in_e s - in_r s < of_nat INPUT_BUF" using 3 lt by (simp add: word_less_nat_alt INPUT_BUF_def)
    have "cons_ok ?u" using assms(2) by (simp add: cons_ok_def)
    then obtain t where t: "consputc d ?u = Ok () t" "printed ?u [d] t" using consputc_ok by blast
    note T = printedD [OF t(2)]
    have full: "in_e t = in_r t + of_nat INPUT_BUF \<longleftrightarrow> ?n = 127"
    proof -
      have "in_e t = in_r t + of_nat INPUT_BUF \<longleftrightarrow> in_e ?u - in_r ?u = of_nat INPUT_BUF"
        using T(8,10) by (auto simp: algebra_simps)
      also have "\<dots> \<longleftrightarrow> ?n = 127" using S(3) n by (simp add: word_unat_eq_iff INPUT_BUF_def)
      finally show ?thesis .
    qed
    have run: "console_char c s = (if d = 10 \<or> d = ctrl 68 \<or> ?n = 127 then wakeup ChInput (t\<lparr>in_w := in_e t\<rparr>) else Ok () t)"
      using 3(1,2) t(1) full unfolding console_char_def if_not_P [OF 3(1)] if_not_P [OF 3(2)] if_P [OF room] Let_def
      by (simp add: d_def)
    have E: "committed t = committed s" "editing t = editing s @ [?b]"
      using same_inputD(1,2) [OF printed_same_input [OF t(2)]] S(1,2) by simp_all
    have D: "unat (in_e t - in_r t) = Suc ?n" "unat (in_w t - in_r t) \<le> unat (in_e t - in_r t)" "length (in_buf t) = INPUT_BUF"
      using S(3,4,5) T(7-10) n by simp_all
    show ?thesis
    proof (cases "d = 10 \<or> d = ctrl 68 \<or> ?n = 127")
      case True
      let ?w = "wakeup1 ChInput (t\<lparr>in_w := in_e t\<rparr>)"
      have w: "console_char c s = Ok () ?w" using run True assms(3) T(3) by simp
      have "in_r ?w = in_r t" "in_e ?w = in_e t" "in_w ?w = in_e t" "in_buf ?w = in_buf t" "held ?w = held s" "cons_ok ?w"
        using T(1,3) by (simp_all add: wakeup1_def cons_ok_def)
      note W = this
      have ed: "editing ?w = []" using W by (simp add: editing_Nil)
      have "committed ?w = committed t @ editing t"
        using W in_dists [OF D(2)] ring_split [of "in_buf t" "in_r t" "unat (in_w t - in_r t)" "unat (in_e t - in_w t)"]
        by (simp add: committed_def editing_def)
      moreover have "in_ok ?w" using W D(1,3) ed lt n by (simp add: in_ok_def)
      ultimately show ?thesis using w W(5,6) ed E True 3 by (intro exI [of _ ?w]) simp
    next
      case False
      have "?b \<noteq> 10"
      proof
        assume "?b = 10"
        then have "uint ?b = 10" by simp
        moreover have "0 \<le> d" "d < 256" using assms(4,5) by (auto simp: d_def)
        ultimately show False using False by (simp add: uint_word_of_int)
      qed
      then have "in_ok t" using assms(1) D E lt n by (auto simp: in_ok_def)
      then show ?thesis using run False T(1,3) E 3 by (intro exI [of _ t]) simp
    qed
  next
    case 4
    then have no: "\<not> (c \<noteq> 0 \<and> in_e s - in_r s < of_nat INPUT_BUF)"
      using in_lengths [OF assms(1)] by (simp add: word_less_nat_alt INPUT_BUF_def)
    have "console_char c s = Ok () s"
      unfolding console_char_def if_not_P [OF 4(1)] if_not_P [OF 4(2)] if_not_P [OF no] ..
    then show ?thesis unfolding if_not_P [OF 4(1)] if_not_P [OF 4(2)] if_not_P [OF 4(3)] using assms(1,2) by blast
  qed
qed

text \<open>
  (C28) The line editor of the console: the bytes between \<open>input.r\<close> and \<open>input.w\<close> are the lines ready to be
  read, those up to \<open>input.e\<close> the line being typed, together never more than 128. Control-U empties the
  line, backspace removes its last byte, any other character is appended (a carriage return as a
  newline) when there is room and dropped otherwise; a newline, Control-D or a full buffer hands the
  line over. The ready lines never change while one is edited.
\<close>

theorem console_char_edits:
  fixes s :: "'a constate_scheme"
  assumes "in_ok s" and "cons_ok s" and "Lptable \<notin> set (held s)" and "0 \<le> c" and "c < 256"
  defines "d \<equiv> if c = 13 then 10 else c"
  shows "\<exists>t. console_char c s = Ok () t \<and> in_ok t \<and> cons_ok t \<and> held t = held s \<and>
    (if c = ctrl 85 then committed t = committed s \<and> editing t = []
     else if c = ctrl 72 \<or> c = 127 then committed t = committed s \<and> editing t = butlast (editing s)
     else if c \<noteq> 0 \<and> length (committed s) + length (editing s) < 128
     then if d = 10 \<or> d = ctrl 68 \<or> length (committed s) + length (editing s) = 127
          then committed t = committed s @ editing s @ [word_of_int d] \<and> editing t = []
          else committed t = committed s \<and> editing t = editing s @ [word_of_int d]
     else t = s)"
  unfolding d_def by (rule console_char_step [OF assms(1-5)])

theorem console_char_edits_witness:
  "\<exists>t. console_char 13 ex_con = Ok () t \<and> committed t = [10] \<and> editing t = []"
proof -
  have "committed ex_con = []" "editing ex_con = []" by (simp_all add: committed_def editing_def)
  moreover have "in_ok ex_con" by (simp add: in_ok_def editing_def INPUT_BUF_def)
  ultimately show ?thesis using console_char_edits [of ex_con 13] by (auto simp: ctrl_def)
qed

end
