(* ===== verification/Fs.thy ===== *)
theory Fs
  imports Console
begin

text \<open>
  File contents, directories and path names: the upper half of \<open>fs.c\<close>. A path is the list of its
  bytes without the final NUL; a buffer for a path element is a list of 14 bytes. \<open>readi\<close> returns its
  result together with the bytes it copied to \<open>dst\<close>, which the caller stores.
\<close>

section \<open>File contents\<close>

definition NDEV :: int where "NDEV = 10"

text \<open>The entry of \<open>devsw\<close> for an inode of type \<open>T_DEV\<close>: the checks on \<open>ip->major\<close>, then the pointer.\<close>

definition dev_of :: "nat \<Rightarrow> 'a constate_scheme \<Rightarrow> device option" where
  "dev_of i s =
     (let mj = sint (i_major (icache s i))
      in if mj < 0 \<or> NDEV \<le> mj then None else devsw s (word_of_int mj))"

lemma chunk_pos: "0 < rem \<Longrightarrow> rem - min rem (BSIZE - off mod BSIZE) < (rem :: nat)"
  using mod_less_divisor [of BSIZE off] by (simp add: BSIZE_def)

function readi_loop :: "nat \<Rightarrow> uint \<Rightarrow> nat \<Rightarrow> 'a constate_scheme \<Rightarrow> ('a constate_scheme, uchar list) res" where
  "readi_loop i off rem s =
     (if rem = 0 then Ok [] s
      else bindR (bmap i (off div of_nat BSIZE) s) (\<lambda>addr s.
           bindR (read_blk (i_dev (icache s i)) addr s) (\<lambda>d s.
           let m = min rem (BSIZE - unat off mod BSIZE)
           in bindR (readi_loop i (off + of_nat m) (rem - m) s) (\<lambda>bs s.
              Ok (slice (unat off mod BSIZE) m d @ bs) s))))"
  by pat_completeness auto
termination
  by (relation "measure (\<lambda>(i, off, rem, s). rem)") (auto intro: chunk_pos)

definition readi :: "nat \<Rightarrow> uint \<Rightarrow> uint \<Rightarrow> 'a constate_scheme \<Rightarrow> ('a constate_scheme, int \<times> uchar list) res" where
  "readi i off n s =
     (if i_type (icache s i) = T_DEV
      then (case dev_of i s of
              None \<Rightarrow> Ok (- 1, []) s
            | Some ConsoleDev \<Rightarrow> consoleread i (sint n) s)
      else if i_size (icache s i) < off \<or> off + n < off then Ok (- 1, []) s
      else let n = (if i_size (icache s i) < off + n then i_size (icache s i) - off else n)
           in bindR (readi_loop i off (unat n) s) (\<lambda>bs s. Ok (sint n, bs) s))"

text \<open>The loop of \<open>writei\<close> returns the offset after the last byte.\<close>

function writei_loop :: "nat \<Rightarrow> uint \<Rightarrow> uchar list \<Rightarrow> 'a constate_scheme \<Rightarrow> ('a constate_scheme, uint) res" where
  "writei_loop i off src s =
     (if src = [] then Ok off s
      else bindR (bmap i (off div of_nat BSIZE) s) (\<lambda>addr s.
           let m = min (length src) (BSIZE - unat off mod BSIZE)
           in bindR (upd_blk (i_dev (icache s i)) addr (splice (unat off mod BSIZE) (take m src)) s) (\<lambda>_ s.
              writei_loop i (off + of_nat m) (drop m src) s)))"
  by pat_completeness auto
termination
  by (relation "measure (\<lambda>(i, off, src, s). length src)") (auto intro: chunk_pos)

definition writei :: "nat \<Rightarrow> uchar list \<Rightarrow> uint \<Rightarrow> 'a constate_scheme \<Rightarrow> ('a constate_scheme, int) res" where
  "writei i src off s =
     (let n = of_nat (length src) :: uint
      in if i_type (icache s i) = T_DEV
         then (case dev_of i s of
                 None \<Rightarrow> Ok (- 1) s
               | Some ConsoleDev \<Rightarrow> consolewrite i src s)
         else if i_size (icache s i) < off \<or> off + n < off then Ok (- 1) s
         else if of_nat (MAXFILE * BSIZE) < off + n then Ok (- 1) s
         else bindR (writei_loop i off src s) (\<lambda>off s.
              bindR (if 0 < n \<and> i_size (icache s i) < off
                     then iupdate i (upd_inode i (\<lambda>x. x\<lparr>i_size := off\<rparr>) s)
                     else Ok () s) (\<lambda>_ s. Ok (sint n) s)))"

declare readi_loop.simps [simp del] writei_loop.simps [simp del]

section \<open>Directories\<close>

definition namecmp :: "uchar list \<Rightarrow> uchar list \<Rightarrow> int" where
  "namecmp p q = strncmp (\<lambda>i. p ! i) (\<lambda>i. q ! i) DIRSIZ"

text \<open>The offsets of the entries below \<open>lim\<close>, from the entry \<open>k\<close> on.\<close>

definition dirent_offs :: "nat \<Rightarrow> uint \<Rightarrow> uint list" where
  "dirent_offs k lim = map (\<lambda>j. of_nat (16 * j)) [k..<(unat lim + 15) div 16]"

definition read_dirent :: "nat \<Rightarrow> string \<Rightarrow> uint \<Rightarrow> 'a constate_scheme \<Rightarrow> ('a constate_scheme, dirent) res" where
  "read_dirent dp msg off s =
     bindR (readi dp off 16 s) (\<lambda>(r, bs) s. if r \<noteq> 16 then Panic msg else Ok (dec_dirent bs) s)"

text \<open>One round of the loop of \<open>dirlookup\<close>: the entry at \<open>off\<close>.\<close>

definition dirlookup_at :: "nat \<Rightarrow> uchar list \<Rightarrow> uint \<Rightarrow> 'a constate_scheme \<Rightarrow>
    ('a constate_scheme, (nat \<times> uint) option) res" where
  "dirlookup_at dp name off s =
     bindR (read_dirent dp ''dirlookup read'' off s) (\<lambda>de s.
       if de_inum de = 0 then Ok None s
       else if namecmp name (de_name de) = 0
       then bindR (iget (i_dev (icache s dp)) (ucast (de_inum de)) s) (\<lambda>i s. Ok (Some (i, off)) s)
       else Ok None s)"

definition dirlookup :: "nat \<Rightarrow> uchar list \<Rightarrow> 'a constate_scheme \<Rightarrow>
    ('a constate_scheme, (nat \<times> uint) option) res" where
  "dirlookup dp name s =
     (if i_type (icache s dp) \<noteq> T_DIR then Panic ''dirlookup not DIR''
      else findR (dirent_offs 0 (i_size (icache s dp))) (dirlookup_at dp name) s)"

definition dirlink :: "nat \<Rightarrow> uchar list \<Rightarrow> uint \<Rightarrow> 'a constate_scheme \<Rightarrow> ('a constate_scheme, int) res" where
  "dirlink dp name inum s =
     bindR (dirlookup dp name s) (\<lambda>r s.
       case r of
         Some (ip, _) \<Rightarrow> bindR (iput ip s) (\<lambda>_ s. Ok (- 1) s)
       | None \<Rightarrow>
           let offs = dirent_offs 0 (i_size (icache s dp))
           in bindR (findR offs (\<lambda>off s.
                bindR (read_dirent dp ''dirlink read'' off s) (\<lambda>de s.
                  Ok (if de_inum de = 0 then Some off else None) s)) s) (\<lambda>r s.
              let off = (case r of Some off \<Rightarrow> off | None \<Rightarrow> of_nat (16 * length offs))
              in bindR (writei dp (enc_dirent \<lparr>de_inum = ucast inum,
                     de_name = strncpy (\<lambda>i. (name @ [0]) ! i) DIRSIZ\<rparr>) off s) (\<lambda>r s.
                 if r \<noteq> 16 then Panic ''dirlink'' else Ok 0 s)))"

section \<open>Paths\<close>

definition SLASH :: uchar where "SLASH = 47"

text \<open>
  \<open>skipelem path name\<close> is the rest of the path and the new content of the buffer \<open>name\<close>, or \<open>None\<close>
  when the path has no element.
\<close>

definition skipelem :: "uchar list \<Rightarrow> uchar list \<Rightarrow> (uchar list \<times> uchar list) option" where
  "skipelem path name =
     (let s = dropWhile (\<lambda>c. c = SLASH) path
      in if s = [] then None
         else let elem = takeWhile (\<lambda>c. c \<noteq> SLASH) s;
                  path = dropWhile (\<lambda>c. c \<noteq> SLASH) s;
                  name = (if DIRSIZ \<le> length elem then splice 0 (take DIRSIZ elem) name
                          else splice 0 (elem @ [0]) name)
              in Some (dropWhile (\<lambda>c. c = SLASH) path, name))"

lemma skipelem_shorter: "skipelem path name = Some (rest, name') \<Longrightarrow> length rest < length path"
proof -
  assume a: "skipelem path name = Some (rest, name')"
  let ?s = "dropWhile (\<lambda>c. c = SLASH) path"
  from a have s: "?s \<noteq> []" and rest: "rest = dropWhile (\<lambda>c. c = SLASH) (dropWhile (\<lambda>c. c \<noteq> SLASH) ?s)"
    by (auto simp: skipelem_def Let_def split: if_splits)
  have len: "length (dropWhile P xs) \<le> length xs" for P and xs :: "uchar list"
    by (induction xs) auto
  from s obtain c x where c: "?s = c # x" by (cases ?s) auto
  then have "c \<noteq> SLASH" using hd_dropWhile [OF s] by simp
  then have "length (dropWhile (\<lambda>c. c \<noteq> SLASH) ?s) < length ?s"
    using len [of "\<lambda>c. c \<noteq> SLASH" x] c by simp
  also have "length ?s \<le> length path" by (rule len)
  finally have "length (dropWhile (\<lambda>c. c \<noteq> SLASH) ?s) < length path" .
  then show ?thesis unfolding rest by (rule le_less_trans [OF len])
qed

text \<open>The loop of \<open>namex\<close>, from the inode \<open>ip\<close> on.\<close>

function namex_loop :: "bool \<Rightarrow> uchar list \<Rightarrow> uchar list \<Rightarrow> nat \<Rightarrow> 'a constate_scheme \<Rightarrow>
    ('a constate_scheme, (nat option \<times> uchar list)) res" where
  "namex_loop par path name ip s =
     (case skipelem path name of
        None \<Rightarrow> if par then bindR (iput ip s) (\<lambda>_ s. Ok (None, name) s) else Ok (Some ip, name) s
      | Some (path, name) \<Rightarrow>
          bindR (ilock (Some ip) s) (\<lambda>_ s.
          if i_type (icache s ip) \<noteq> T_DIR then bindR (iunlockput ip s) (\<lambda>_ s. Ok (None, name) s)
          else if par \<and> path = [] then bindR (iunlock (Some ip) s) (\<lambda>_ s. Ok (Some ip, name) s)
          else bindR (dirlookup ip name s) (\<lambda>r s.
            case r of
              None \<Rightarrow> bindR (iunlockput ip s) (\<lambda>_ s. Ok (None, name) s)
            | Some (nxt, _) \<Rightarrow> bindR (iunlockput ip s) (\<lambda>_ s. namex_loop par path name nxt s))))"
  by pat_completeness auto
termination
  by (relation "measure (\<lambda>(par, path, name, ip, s). length path)") (auto intro: skipelem_shorter)

declare namex_loop.simps [simp del]

definition namex :: "uchar list \<Rightarrow> bool \<Rightarrow> uchar list \<Rightarrow> 'a constate_scheme \<Rightarrow>
    ('a constate_scheme, (nat option \<times> uchar list)) res" where
  "namex path par name s =
     bindR (if path \<noteq> [] \<and> path ! 0 = SLASH then iget ROOTDEV ROOTINO s
            else bindR (myproc s) (\<lambda>p s.
              case cwd (procs s p) of Some i \<Rightarrow> idup i s | None \<Rightarrow> Fault ''idup'')) (\<lambda>ip s.
     namex_loop par path name ip s)"

text \<open>A buffer on the stack starts with arbitrary bytes; zeros stand for them.\<close>

definition namei :: "uchar list \<Rightarrow> 'a constate_scheme \<Rightarrow> ('a constate_scheme, nat option) res" where
  "namei path s = bindR (namex path False (replicate DIRSIZ 0) s) (\<lambda>(ip, _) s. Ok ip s)"

definition nameiparent :: "uchar list \<Rightarrow> uchar list \<Rightarrow> 'a constate_scheme \<Rightarrow>
    ('a constate_scheme, (nat option \<times> uchar list)) res" where
  "nameiparent path name s = namex path True name s"

section \<open>The contents of a file\<close>

definition file_byte :: "'a fstate_scheme \<Rightarrow> nat \<Rightarrow> nat \<Rightarrow> uchar" where
  "file_byte s i x = bview s (file_blk s i (x div BSIZE)) ! (x mod BSIZE)"

text \<open>No two blocks of the file are the same, and none is its indirect block.\<close>

definition file_sep :: "'a fstate_scheme \<Rightarrow> nat \<Rightarrow> nat \<Rightarrow> bool" where
  "file_sep s i n \<longleftrightarrow> inj_on (file_blk s i) {..<n} \<and>
     (NDIRECT < n \<longrightarrow> (\<forall>k < n. file_blk s i k \<noteq> i_addrs (icache s i) ! NDIRECT))"

lemma file_same_view:
  assumes "bview t = bview s" "icache t = icache s" "fs_valid t = fs_valid s"
  shows "file_blk t i = file_blk s i" "file_byte t i = file_byte s i" "file_mapped t i n = file_mapped s i n"
    "file_sep t i n = file_sep s i n"
proof -
  show 1: "file_blk t i = file_blk s i" using assms by (simp add: fun_eq_iff file_blk_def)
  show "file_byte t i = file_byte s i" using 1 assms by (simp add: fun_eq_iff file_byte_def)
  show "file_mapped t i n = file_mapped s i n" "file_sep t i n = file_sep s i n"
    using 1 assms by (simp_all add: file_mapped_def file_sep_def)
qed

lemma file_limit: "n \<le> MAXFILE \<Longrightarrow> n * BSIZE < 2 ^ 31"
  by (simp add: MAXFILE_def NDIRECT_def NINDIRECT_def BSIZE_def)

lemma unat_eqI: "unat a = n \<Longrightarrow> a = of_nat n" for a :: uint
  using unat_lt32 [of a] by (auto simp: word_unat_eq_iff unat_of_nat)

lemma off_block:
  assumes "off < 2 ^ 32"
  shows "(of_nat off :: uint) div of_nat BSIZE = of_nat (off div BSIZE)" "unat (of_nat off :: uint) = off"
proof -
  show u: "unat (of_nat off :: uint) = off" using assms by (intro unat_of_nat32) simp
  have "unat ((of_nat off :: uint) div of_nat BSIZE) = off div BSIZE"
    using u by (simp add: unat_div BSIZE_def)
  then show "(of_nat off :: uint) div of_nat BSIZE = of_nat (off div BSIZE)"
    by (rule unat_eqI)
qed

lemma map_upt_chunk:
  assumes "o1 + m \<le> length d" "\<And>j. j < m \<Longrightarrow> f (off + j) = d ! (o1 + j)"
  shows "slice o1 m d = map f [off..<off + m]"
  using assms by (intro nth_equalityI) (auto simp: nth_slice)

lemma chunk_bounds:
  assumes "m = min rem (BSIZE - off mod BSIZE)"
  shows "off mod BSIZE + m \<le> BSIZE" "m \<le> rem" "0 < rem \<Longrightarrow> 0 < m"
    "j < m \<Longrightarrow> (off + j) div BSIZE = off div BSIZE \<and> (off + j) mod BSIZE = off mod BSIZE + j"
proof -
  have B: "off mod BSIZE < BSIZE" by (simp add: BSIZE_def)
  then show "off mod BSIZE + m \<le> BSIZE" "m \<le> rem" "0 < rem \<Longrightarrow> 0 < m" using assms by auto
  assume "j < m"
  then have j: "off mod BSIZE + j < BSIZE" using assms B by linarith
  have "off + j = (off mod BSIZE + j) + BSIZE * (off div BSIZE)" by (simp add: algebra_simps)
  then show "(off + j) div BSIZE = off div BSIZE \<and> (off + j) mod BSIZE = off mod BSIZE + j"
    using j by (simp only: div_mult_self2 mod_mult_self2) (simp add: BSIZE_def)
qed

lemma readi_loop_ok:
  fixes s :: "'a constate_scheme"
  assumes "fs_ok s" "file_mapped s i n" "off + rem \<le> n * BSIZE"
  shows "\<exists>s'. readi_loop i (of_nat off) rem s = Ok (map (file_byte s i) [off..<off + rem]) s' \<and>
    fs_after s s' (bview s) 0"
  using assms
proof (induction rem arbitrary: off s rule: less_induct)
  case (less rem)
  show ?case
  proof (cases "rem = 0")
    case True
    then show ?thesis using fs_after_refl [OF less.prems(1)] by (subst readi_loop.simps) simp
  next
    case False
    define k where "k = off div BSIZE"
    define m where "m = min rem (BSIZE - off mod BSIZE)"
    note M = chunk_bounds [OF m_def]
    have "n * BSIZE < 2 ^ 31" using less.prems(2) by (intro file_limit) (simp add: file_mapped_def)
    then have o32: "off < 2 ^ 32" using less.prems(3) by simp
    note O = off_block [OF o32]
    have "off < n * BSIZE" using less.prems(3) False by simp
    then have kn: "k < n" by (simp add: k_def less_mult_imp_div_less)
    have v: "fs_valid s (file_blk s i k)" "i_dev (icache s i) = 1" using less.prems(2) kn by (auto simp: file_mapped_def)
    obtain s1 where s1: "bmap i (of_nat k) s = Ok (file_blk s i k) s1" "fs_after s s1 (bview s) 0"
      using bmap_mapped [OF less.prems(1,2) kn] by blast
    note S1 = fs_afterD [OF s1(2)]
    have v1: "fs_valid s1 (file_blk s i k)" using v(1) S1(4) by simp
    obtain s2 where s2: "read_blk 1 (file_blk s i k) s1 = Ok (bview s (file_blk s i k)) s2" "fs_after s1 s2 (bview s) 0"
      using fs_after_read [OF S1(1) v1] S1(2) by auto
    have s02: "fs_after s s2 (bview s) 0" using fs_after_trans [OF s1(2) s2(2)] by simp
    note S2 = fs_afterD [OF s02]
    note F = file_same_view [OF S2(2,7,4)]
    have lt: "rem - m < rem" "off + m + (rem - m) \<le> n * BSIZE" using M(2,3) False less.prems(3) by auto
    obtain s3 where s3: "readi_loop i (of_nat (off + m)) (rem - m) s2 =
        Ok (map (file_byte s i) [off + m..<off + m + (rem - m)]) s3" "fs_after s2 s3 (bview s) 0"
      using less.IH [OF lt(1) S2(1), of "off + m"] less.prems(2) lt(2) F S2(2) by auto
    have "slice (off mod BSIZE) m (bview s (file_blk s i k)) = map (file_byte s i) [off..<off + m]"
      using M(1,4) fsb.view_len [OF less.prems(1)] by (intro map_upt_chunk) (simp_all add: file_byte_def k_def)
    moreover have "[off..<off + rem] = [off..<off + m] @ [off + m..<off + m + (rem - m)]"
      using M(2) by (metis le_add1 le_add_diff_inverse add.assoc upt_add_eq_append)
    ultimately have "readi_loop i (of_nat off) rem s = Ok (map (file_byte s i) [off..<off + rem]) s3"
      using False s1(1) s2(1) s3(1) v(2) S1(7)
      by (subst readi_loop.simps) (simp add: O Let_def k_def [symmetric] m_def [symmetric])
    then show ?thesis using fs_after_trans [OF s02 s3(2)] by auto
  qed
qed

lemma readi_ok:
  fixes s :: "'a constate_scheme"
  assumes ok: "fs_ok s" and ty: "i_type (icache s i) \<noteq> T_DEV" and m: "file_mapped s i n"
    and sz: "unat (i_size (icache s i)) \<le> n * BSIZE" and off: "off \<le> unat (i_size (icache s i))" and len: "off + len < 2 ^ 31"
  defines "r \<equiv> min len (unat (i_size (icache s i)) - off)"
  shows "\<exists>s'. readi i (of_nat off) (of_nat len) s = Ok (int r, map (file_byte s i) [off..<off + r]) s' \<and>
    fs_after s s' (bview s) 0"
proof -
  have u: "unat (of_nat off :: uint) = off" "unat (of_nat len :: uint) = len"
    using len by (simp_all add: unat_of_nat32)
  have us: "unat (of_nat off + of_nat len :: uint) = off + len" using u len by (simp add: unat_add_lt)
  have c: "\<not> (i_size (icache s i) < of_nat off \<or> (of_nat off + of_nat len :: uint) < of_nat off)"
    using off by (simp add: word_less_nat_alt u us)
  have n: "(if i_size (icache s i) < of_nat off + of_nat len then i_size (icache s i) - of_nat off else of_nat len) =
      (of_nat r :: uint)"
  proof (cases "i_size (icache s i) < of_nat off + of_nat len")
    case True
    have "unat (i_size (icache s i) - of_nat off) = unat (i_size (icache s i)) - off"
      using off by (simp add: unat_sub word_le_nat_alt u)
    moreover have "r = unat (i_size (icache s i)) - off"
      using True off by (simp add: r_def word_less_nat_alt us)
    ultimately have "i_size (icache s i) - of_nat off = of_nat r" by (intro unat_eqI) simp
    then show ?thesis using True by simp
  next
    case False
    then show ?thesis using off by (simp add: r_def word_less_nat_alt us)
  qed
  have r: "r < 2 ^ 31" "off + r \<le> n * BSIZE" using len sz off by (auto simp: r_def)
  obtain s' where s': "readi_loop i (of_nat off) r s = Ok (map (file_byte s i) [off..<off + r]) s'"
    "fs_after s s' (bview s) 0" using readi_loop_ok [OF ok m r(2)] by blast
  have "unat (of_nat r :: uint) = r" "sint (of_nat r :: uint) = int r"
    using r(1) by (simp_all add: unat_of_nat32 sint_of_nat32)
  then show ?thesis
    using ty c n s' by (auto simp: readi_def Let_def)
qed

text \<open>Writing to mapped blocks: how many blocks a write touches, and what is there afterwards.\<close>

definition blocks_touched :: "nat \<Rightarrow> nat \<Rightarrow> nat" where
  "blocks_touched off len = (if len = 0 then 0 else (off + len - 1) div BSIZE - off div BSIZE + 1)"

lemma blocks_touched_step:
  assumes "0 < len" "m = min len (BSIZE - off mod BSIZE)"
  shows "Suc (blocks_touched (off + m) (len - m)) \<le> blocks_touched off len"
proof (cases "len - m = 0")
  case False
  then have m: "m = BSIZE - off mod BSIZE" using assms(2) by auto
  have B: "off mod BSIZE < BSIZE" by (simp add: BSIZE_def)
  have "off + m = Suc (off div BSIZE) * BSIZE" using m B div_mult_mod_eq [of off BSIZE] unfolding mult_Suc by linarith
  then have q: "(off + m) div BSIZE = Suc (off div BSIZE)" by (simp add: BSIZE_def)
  have e: "off + m + (len - m) = off + len" using False by simp
  have "(off + m) div BSIZE \<le> (off + len - 1) div BSIZE" using False by (intro div_le_mono) simp
  with q False assms(1) e show ?thesis by (simp add: blocks_touched_def)
qed (use assms in \<open>simp add: blocks_touched_def\<close>)

definition overwritten :: "'a fstate_scheme \<Rightarrow> 'a fstate_scheme \<Rightarrow> nat \<Rightarrow> nat \<Rightarrow> nat \<Rightarrow> uchar list \<Rightarrow> bool" where
  "overwritten s t i n off src \<longleftrightarrow>
     (\<forall>k < n. file_blk t i k = file_blk s i k) \<and>
     (\<forall>x < n * BSIZE. file_byte t i x = (if off \<le> x \<and> x < off + length src then src ! (x - off) else file_byte s i x))"

lemma file_frame:
  assumes "file_mapped s i n" "file_sep s i n" "icache t = icache s" "fs_valid t = fs_valid s"
    and "\<And>k. k < n \<Longrightarrow> file_blk t i k = file_blk s i k"
  shows "file_mapped t i n" "file_sep t i n"
  using assms by (auto simp: file_mapped_def file_sep_def inj_on_def)

lemma write_block:
  assumes m: "file_mapped s i n" "file_sep s i n" and k: "k < n" and t: "icache t = icache s"
    "bview t = (bview s)(file_blk s i k := d)"
  shows "j < n \<Longrightarrow> file_blk t i j = file_blk s i j"
    "x < n * BSIZE \<Longrightarrow> file_byte t i x = (if x div BSIZE = k then d ! (x mod BSIZE) else file_byte s i x)"
proof -
  show b: "file_blk t i j = file_blk s i j" if "j < n" for j
    using that m k t by (auto simp: file_blk_def file_sep_def)
  show "file_byte t i x = (if x div BSIZE = k then d ! (x mod BSIZE) else file_byte s i x)" if "x < n * BSIZE" for x
  proof -
    have x: "x div BSIZE < n" using that by (simp add: less_mult_imp_div_less)
    then have "file_blk s i (x div BSIZE) = file_blk s i k \<longleftrightarrow> x div BSIZE = k"
      using m(2) k by (auto simp: file_sep_def inj_on_def)
    then show ?thesis using b [OF x] t(2) by (simp add: file_byte_def)
  qed
qed

lemma writei_loop_ok:
  fixes s :: "'a constate_scheme"
  assumes "fs_ok s" "file_mapped s i n" "file_sep s i n" "off + length src \<le> n * BSIZE"
    "blocks_touched off (length src) \<le> fs_room s"
  shows "\<exists>s' v. writei_loop i (of_nat off) src s = Ok (of_nat (off + length src)) s' \<and>
    fs_after s s' v (blocks_touched off (length src)) \<and> overwritten s s' i n off src \<and>
    (\<forall>b. b \<notin> file_blk s i ` {..<n} \<longrightarrow> bview s' b = bview s b)"
  using assms
proof (induction "length src" arbitrary: off s src rule: less_induct)
  case less
  show ?case
  proof (cases "src = []")
    case True
    then show ?thesis using fs_after_refl [OF less.prems(1)]
      by (subst writei_loop.simps) (auto simp: overwritten_def blocks_touched_def)
  next
    case False
    let ?len = "length src"
    define k where "k = off div BSIZE"
    define m where "m = min ?len (BSIZE - off mod BSIZE)"
    define o1 where "o1 = off mod BSIZE"
    note M = chunk_bounds [OF m_def]
    have "n * BSIZE < 2 ^ 31" using less.prems(2) by (intro file_limit) (simp add: file_mapped_def)
    then have o32: "off < 2 ^ 32" using less.prems(4) by simp
    note O = off_block [OF o32]
    have "off < n * BSIZE" using less.prems(4) False by (cases src) auto
    then have kn: "k < n" by (simp add: k_def less_mult_imp_div_less)
    have v: "fs_valid s (file_blk s i k)" "i_dev (icache s i) = 1" using less.prems(2) kn by (auto simp: file_mapped_def)
    have pos: "0 < ?len" using False by simp
    note step = blocks_touched_step [OF pos m_def]
    obtain s1 where s1: "bmap i (of_nat k) s = Ok (file_blk s i k) s1" "fs_after s s1 (bview s) 0"
      using bmap_mapped [OF less.prems(1,2) kn] by blast
    note S1 = fs_afterD [OF s1(2)]
    let ?d = "splice o1 (take m src) (bview s (file_blk s i k))"
    have lk: "length (bview s (file_blk s i k)) = BSIZE" by (rule fsb.view_len [OF less.prems(1)])
    have lm: "length (take m src) = m" "o1 + m \<le> BSIZE" using M(1,2) by (simp_all add: o1_def)
    have v1: "fs_valid s1 (file_blk s i k)" "0 < fs_room s1"
      using v(1) S1(3,4) less.prems(5) step by simp_all
    obtain s2 where s2: "upd_blk 1 (file_blk s i k) (splice o1 (take m src)) s1 = Ok () s2"
      "fs_after s1 s2 ((bview s)(file_blk s i k := ?d)) 1"
      using fs_after_update [where f = "splice o1 (take m src)", OF S1(1) v1] S1(2) lk lm by auto
    have s02: "fs_after s s2 ((bview s)(file_blk s i k := ?d)) 1" using fs_after_trans [OF s1(2) s2(2)] by simp
    note S2 = fs_afterD [OF s02]
    note W = write_block [OF less.prems(2,3) kn S2(7,2)]
    note F = file_frame [OF less.prems(2,3) S2(7,4) W(1)]
    have byte2: "file_byte s2 i x = (if off \<le> x \<and> x < off + m then src ! (x - off) else file_byte s i x)"
      if x: "x < n * BSIZE" for x
    proof (cases "x div BSIZE = k")
      case True
      have y: "x = k * BSIZE + x mod BSIZE" "off = k * BSIZE + o1" using True div_mult_mod_eq [of x BSIZE] div_mult_mod_eq [of off BSIZE] by (simp_all add: k_def o1_def)
      have "x mod BSIZE < BSIZE" by (simp add: BSIZE_def)
      then have "?d ! (x mod BSIZE) = (if o1 \<le> x mod BSIZE \<and> x mod BSIZE < o1 + m
          then take m src ! (x mod BSIZE - o1) else bview s (file_blk s i k) ! (x mod BSIZE))"
        using lk lm by (subst nth_splice) auto
      moreover have "off \<le> x \<longleftrightarrow> o1 \<le> x mod BSIZE" "x < off + m \<longleftrightarrow> x mod BSIZE < o1 + m"
        "x - off = x mod BSIZE - o1" using y by linarith+
      ultimately show ?thesis using W(2) [OF x] True lm(1) by (auto simp: file_byte_def)
    next
      case False
      have "\<not> (off \<le> x \<and> x < off + m)"
      proof
        assume "off \<le> x \<and> x < off + m"
        then have "x - off < m" "off + (x - off) = x" by linarith+
        with M(4) [of "x - off"] False show False by (simp add: k_def)
      qed
      then show ?thesis using W(2) [OF x] False by auto
    qed
    have lt: "length (drop m src) < ?len" "off + m + length (drop m src) \<le> n * BSIZE"
      using M(2,3) pos less.prems(4) by auto
    have room2: "blocks_touched (off + m) (length (drop m src)) \<le> fs_room s2"
      using step S2(3) less.prems(5) by simp
    obtain s3 w where s3: "writei_loop i (of_nat (off + m)) (drop m src) s2 = Ok (of_nat (off + m + length (drop m src))) s3"
      "fs_after s2 s3 w (blocks_touched (off + m) (length (drop m src)))" "overwritten s2 s3 i n (off + m) (drop m src)"
      "\<forall>b. b \<notin> file_blk s2 i ` {..<n} \<longrightarrow> bview s3 b = bview s2 b"
      using less.hyps [OF lt(1) S2(1) F lt(2) room2] by blast
    have "fs_after s s3 w (1 + blocks_touched (off + m) (length (drop m src)))"
      by (rule fs_after_trans [OF s02 s3(2)])
    then have after: "fs_after s s3 w (blocks_touched off ?len)"
      using step by (auto simp: fs_after_def)
    have other: "bview s3 b = bview s b" if "b \<notin> file_blk s i ` {..<n}" for b
    proof -
      have "file_blk s2 i ` {..<n} = file_blk s i ` {..<n}" using W(1) by (intro image_cong) auto
      then have "bview s3 b = bview s2 b" using that s3(4) by metis
      moreover have "b \<noteq> file_blk s i k" using that kn by auto
      ultimately show ?thesis using S2(2) by simp
    qed
    have over: "overwritten s s3 i n off src"
      unfolding overwritten_def
    proof (intro conjI allI impI)
      show "file_blk s3 i j = file_blk s i j" if "j < n" for j
        using that s3(3) W(1) by (simp add: overwritten_def)
      show "file_byte s3 i x = (if off \<le> x \<and> x < off + length src then src ! (x - off) else file_byte s i x)"
        if x: "x < n * BSIZE" for x
      proof -
        have "file_byte s3 i x = (if off + m \<le> x \<and> x < off + m + length (drop m src)
            then drop m src ! (x - (off + m)) else file_byte s2 i x)"
          using s3(3) x by (simp add: overwritten_def)
        then show ?thesis using byte2 [OF x] M(2) by auto
      qed
    qed
    have mm: "min ?len (BSIZE - o1) = m" by (simp add: m_def o1_def)
    have "writei_loop i (of_nat off) src s = writei_loop i (of_nat (off + m)) (drop m src) s2"
      using False s1(1) s2(1) v(2) S1(7)
      by (subst writei_loop.simps) (simp add: O Let_def k_def [symmetric] o1_def [symmetric] mm)
    then show ?thesis using s3(1) after over other M(2) by auto
  qed
qed

text \<open>The size is updated last, and on the disk as well.\<close>

definition inode_apart :: "'a fstate_scheme \<Rightarrow> nat \<Rightarrow> nat \<Rightarrow> bool" where
  "inode_apart s i n \<longleftrightarrow>
     inodes_ok s \<and> i_inum (icache s i) < sb_ninodes (sb s) \<and> length (i_addrs (icache s i)) = 13 \<and>
     IBLOCK (i_inum (icache s i)) (sb s) \<notin> file_blk s i ` {..<n} \<and>
     (NDIRECT < n \<longrightarrow> IBLOCK (i_inum (icache s i)) (sb s) \<noteq> i_addrs (icache s i) ! NDIRECT)"

lemma icache_cache:
  "hblocks (s\<lparr>icache := c\<rparr>) = hblocks s" "holds (s\<lparr>icache := c\<rparr>) b bn = holds s b bn"
  by (rule same_cache, simp add: bstate.truncate_def)+

lemma fs_keeps_set_icache:
  fixes s t :: "'a fstate_scheme"
  assumes "fs_keeps s t"
  shows "fs_keeps (s\<lparr>icache := c\<rparr>) (t\<lparr>icache := c\<rparr>)"
proof (rule fs_keepsI)
  have "t = s\<lparr>bufs := bufs t, blist := blist t, procs := procs t, lh_n := lh_n t, lh_block := lh_block t\<rparr>"
    using assms by (simp only: fs_keeps_def)
  from arg_cong [OF this, of "icache_update (\<lambda>_. c)"]
  show "t\<lparr>icache := c\<rparr> = (s\<lparr>icache := c\<rparr>)\<lparr>bufs := bufs t, blist := blist t, procs := procs t,
      lh_n := lh_n t, lh_block := lh_block t\<rparr>" by simp
qed (use assms in \<open>simp_all add: fs_keeps_def icache_cache\<close>)

lemma writei_ok:
  fixes s :: "'a constate_scheme"
  assumes ok: "fs_ok s" and ty: "i_type (icache s i) \<noteq> T_DEV" and m: "file_mapped s i n" "file_sep s i n"
    and ap: "inode_apart s i n" and off: "off \<le> unat (i_size (icache s i))"
    and len: "off + length src \<le> n * BSIZE" and room: "blocks_touched off (length src) < fs_room s"
  shows "\<exists>s'. writei i src (of_nat off) s = Ok (int (length src)) s' \<and> fs_ok s' \<and> overwritten s s' i n off src \<and>
    fs_valid s' = fs_valid s \<and> sb s' = sb s \<and>
    (\<forall>b. b \<notin> file_blk s i ` {..<n} \<and> b \<noteq> IBLOCK (i_inum (icache s i)) (sb s) \<longrightarrow> bview s' b = bview s b) \<and>
    icache s' = (icache s)(i := (icache s i)\<lparr>i_size := of_nat (max (unat (i_size (icache s i))) (off + length src))\<rparr>) \<and>
    disk_inode s' (i_inum (icache s i)) = (if i_size (icache s i) < of_nat (off + length src) then dinode_of (icache s' i)
      else disk_inode s (i_inum (icache s i))) \<and> fs_keeps (s\<lparr>icache := icache s'\<rparr>) s'"
proof (cases "src = []")
  case True
  have "\<not> i_size (icache s i) < of_nat off" "\<not> (of_nat (MAXFILE * BSIZE) :: uint) < of_nat off"
  proof -
    have "off < 2 ^ 32" using off unat_lt32 [of "i_size (icache s i)"] by simp
    note O = off_block(2) [OF this]
    show "\<not> i_size (icache s i) < of_nat off" using off by (simp add: word_less_nat_alt O)
    have "n * BSIZE \<le> MAXFILE * BSIZE" using m(1) by (intro mult_right_mono) (auto simp: file_mapped_def)
    moreover have "unat (of_nat (MAXFILE * BSIZE) :: uint) = MAXFILE * BSIZE"
      using file_limit [of MAXFILE] by (intro unat_of_nat32) simp
    ultimately show "\<not> (of_nat (MAXFILE * BSIZE) :: uint) < of_nat off"
      using len True by (simp only: word_less_nat_alt O)
  qed
  moreover have "(icache s)(i := (icache s i)\<lparr>i_size := of_nat (max (unat (i_size (icache s i))) off)\<rparr>) = icache s"
    using off unat_eqI [of "i_size (icache s i)"] by (simp add: max_def)
  ultimately show ?thesis
    using True ty ok by (intro exI [of _ s]) (auto simp: writei_def overwritten_def writei_loop.simps fs_keeps_refl)
next
  case False
  let ?e = "off + length src"
  have nlim: "n * BSIZE \<le> MAXFILE * BSIZE" using m(1) by (intro mult_right_mono) (auto simp: file_mapped_def)
  have M31: "MAXFILE * BSIZE < 2 ^ 31" by (rule file_limit) simp
  have e31: "?e < 2 ^ 31" using len nlim M31 by linarith
  have u: "unat (of_nat off :: uint) = off"
    using e31 by (intro unat_of_nat32) simp
  have ul: "unat (of_nat (length src) :: uint) = length src"
    using e31 by (intro unat_of_nat32) simp
  have ue: "unat (of_nat ?e :: uint) = ?e"
    by (rule unat_of_nat32) (use e31 in simp)
  have um: "unat (of_nat (MAXFILE * BSIZE) :: uint) = MAXFILE * BSIZE"
    by (rule unat_of_nat32) (use M31 in simp)
  note u = u ul ue um
  have sum: "(of_nat off + of_nat (length src) :: uint) = of_nat ?e" by simp
  have c: "\<not> (i_size (icache s i) < of_nat off \<or> (of_nat ?e :: uint) < of_nat off)"
    "\<not> (of_nat (MAXFILE * BSIZE) :: uint) < of_nat ?e" "(0 :: uint) < of_nat (length src)"
    using off len nlim False by (simp_all only: word_less_nat_alt u) simp_all
  have ret: "sint (of_nat (length src) :: uint) = int (length src)" using e31 by (intro sint_of_nat32) simp
  obtain s1 v where s1: "writei_loop i (of_nat off) src s = Ok (of_nat ?e) s1" "fs_after s s1 v (blocks_touched off (length src))"
    "overwritten s s1 i n off src" "\<forall>b. b \<notin> file_blk s i ` {..<n} \<longrightarrow> bview s1 b = bview s b"
    using writei_loop_ok [OF ok m len] room by auto
  note S1 = fs_afterD [OF s1(2)]
  show ?thesis
  proof (cases "i_size (icache s i) < of_nat ?e")
    case grow: True
    let ?s = "upd_inode i (\<lambda>x. x\<lparr>i_size := of_nat ?e\<rparr>) s1"
    let ?b = "IBLOCK (i_inum (icache s i)) (sb s)"
    have A: "inodes_ok ?s" "i_dev (icache ?s i) = 1" "i_inum (icache ?s i) = i_inum (icache s i)"
      "i_inum (icache s i) < sb_ninodes (sb s)" "length (i_addrs (icache ?s i)) = 13" "0 < fs_room ?s"
      using ap m(1) S1(3,4,6,7) room by (auto simp: inode_apart_def inodes_ok_def file_mapped_def)
    obtain t where t: "iupdate i ?s = Ok () t" "fs_after ?s t ((bview s1)(?b := put_dinode (i_inum (icache s i))
        (dinode_of (icache ?s i)) (bview s1 ?b))) 1"
      "disk_inode t (i_inum (icache s i)) = dinode_of (icache ?s i)"
      using iupdate_ok [of ?s i] A S1(1,6,7) by auto
    note T = fs_afterD [OF t(2)]
    have vt: "bview t x = bview s1 x" if "x \<noteq> ?b" for x using T(2) that by simp
    have apart: "?b \<notin> file_blk s i ` {..<n}" "NDIRECT < n \<Longrightarrow> ?b \<noteq> i_addrs (icache s i) ! NDIRECT"
      using ap by (auto simp: inode_apart_def)
    have blk1: "file_blk s1 i k = file_blk s i k" if "k < n" for k using that s1(3) by (simp add: overwritten_def)
    have blk: "file_blk t i k = file_blk s i k" if k: "k < n" for k
    proof -
      have "file_blk t i k = file_blk s1 i k"
        using apart(2) k T(7) S1(7) vt by (auto simp: file_blk_def)
      with blk1 [OF k] show ?thesis by simp
    qed
    have byte: "file_byte t i x = file_byte s1 i x" if x: "x < n * BSIZE" for x
    proof -
      have "x div BSIZE \<in> {..<n}" using x by (simp add: less_mult_imp_div_less)
      then have "file_blk s i (x div BSIZE) \<in> file_blk s i ` {..<n}" by (rule imageI)
      then have "file_blk s i (x div BSIZE) \<noteq> ?b" using apart(1) by metis
      moreover have "x div BSIZE < n" using x by (simp add: less_mult_imp_div_less)
      moreover from this have "file_blk t i (x div BSIZE) = file_blk s i (x div BSIZE)"
        "file_blk s1 i (x div BSIZE) = file_blk s i (x div BSIZE)"
        by (rule blk, rule blk1)
      ultimately show ?thesis using vt by (simp add: file_byte_def)
    qed
    have mx: "max (unat (i_size (icache s i))) ?e = ?e" using grow by (simp only: word_less_nat_alt u)
    have W: "writei i src (of_nat off) s = Ok (int (length src)) t"
    proof -
      have g: "i_size (icache s1 i) < of_nat ?e" "0 < (of_nat (length src) :: uint)" using grow S1(7) c(3) by simp_all
      show ?thesis unfolding writei_def Let_def if_not_P [OF ty] if_not_P [OF c(1) [folded sum]] if_not_P [OF c(2) [folded sum]]
        s1(1) bindR.simps if_P [OF conjI [OF g(2,1)]] t(1) ret ..
    qed
    have other: "\<forall>b. b \<notin> file_blk s i ` {..<n} \<and> b \<noteq> ?b \<longrightarrow> bview t b = bview s b"
      using s1(4) vt by simp
    have ic: "icache t = (icache s)(i := (icache s i)\<lparr>i_size := of_nat ?e\<rparr>)"
      using T(7) S1(7) by simp
    have "fs_valid t = fs_valid s" "sb t = sb s" using T(4,6) S1(4,6) by simp_all
    moreover have "overwritten s t i n off src"
      using s1(3) blk byte by (simp add: overwritten_def)
    moreover have "disk_inode t (i_inum (icache s i)) = (if i_size (icache s i) < of_nat ?e then dinode_of (icache t i)
        else disk_inode s (i_inum (icache s i)))"
      using t(3) A(3,4) T(7) S1(6) grow by simp
    moreover have "fs_keeps (s\<lparr>icache := icache t\<rparr>) t"
    proof -
      have "s1\<lparr>icache := icache t\<rparr> = ?s" using T(7) by (simp add: upd_inode_def)
      with fs_keeps_set_icache [OF S1(5), of "icache t"] have "fs_keeps (s\<lparr>icache := icache t\<rparr>) ?s" by simp
      then show ?thesis by (rule fs_keeps_trans [OF _ T(5)])
    qed
    ultimately show ?thesis
      unfolding mx by (intro exI [of _ t] conjI W T(1) other ic)
  next
    case keep: False
    then have mx: "max (unat (i_size (icache s i))) ?e = unat (i_size (icache s i))"
      by (simp only: word_less_nat_alt u)
    have ic: "icache s1 = (icache s)(i := (icache s i)\<lparr>i_size := of_nat (unat (i_size (icache s i)))\<rparr>)"
      using unat_eqI [of "i_size (icache s i)"] S1(7) by simp
    have "writei i src (of_nat off) s = Ok (int (length src)) s1"
    proof -
      have g: "\<not> (0 < (of_nat (length src) :: uint) \<and> i_size (icache s1 i) < of_nat ?e)" using keep S1(7) by simp
      show ?thesis unfolding writei_def Let_def if_not_P [OF ty] if_not_P [OF c(1) [folded sum]] if_not_P [OF c(2) [folded sum]]
        s1(1) bindR.simps if_not_P [OF g] ret ..
    qed
    moreover have "\<forall>b. b \<notin> file_blk s i ` {..<n} \<and> b \<noteq> IBLOCK (i_inum (icache s i)) (sb s) \<longrightarrow> bview s1 b = bview s b"
      using s1(4) by simp
    moreover have "disk_inode s1 (i_inum (icache s i)) = (if i_size (icache s i) < of_nat ?e then dinode_of (icache s1 i)
        else disk_inode s (i_inum (icache s i)))"
      using s1(4) S1(6) ap keep by (simp add: disk_inode_def inode_apart_def)
    moreover have "fs_keeps (s\<lparr>icache := icache s1\<rparr>) s1" using S1(5,7) by simp
    ultimately show ?thesis
      unfolding mx using s1(3) S1(1,4,6) ic by (intro exI [of _ s1] conjI)
  qed
qed

section \<open>Directories as lists of entries\<close>

definition dir_entry :: "'a fstate_scheme \<Rightarrow> nat \<Rightarrow> nat \<Rightarrow> dirent" where
  "dir_entry s dp k = dec_dirent (map (file_byte s dp) [16 * k..<16 * k + 16])"

definition dir_ok :: "'a fstate_scheme \<Rightarrow> nat \<Rightarrow> nat \<Rightarrow> bool" where
  "dir_ok s dp n \<longleftrightarrow> i_type (icache s dp) = T_DIR \<and> file_mapped s dp n \<and>
     unat (i_size (icache s dp)) \<le> n * BSIZE \<and> 16 dvd unat (i_size (icache s dp))"

definition dir_count :: "'a fstate_scheme \<Rightarrow> nat \<Rightarrow> nat" where
  "dir_count s dp = unat (i_size (icache s dp)) div 16"

definition entry_named :: "'a fstate_scheme \<Rightarrow> nat \<Rightarrow> uchar list \<Rightarrow> nat \<Rightarrow> bool" where
  "entry_named s dp name k \<longleftrightarrow> de_inum (dir_entry s dp k) \<noteq> 0 \<and>
     cstr (\<lambda>i. name ! i) DIRSIZ = cstr (\<lambda>i. de_name (dir_entry s dp k) ! i) DIRSIZ"

lemma dir_same_view:
  assumes "bview t = bview s" "icache t = icache s" "fs_valid t = fs_valid s"
  shows "dir_entry t dp k = dir_entry s dp k" "dir_ok t dp n = dir_ok s dp n" "dir_count t dp = dir_count s dp"
    "entry_named t dp name k = entry_named s dp name k"
  using file_same_view [OF assms] assms by (simp_all add: dir_entry_def dir_ok_def dir_count_def entry_named_def)

lemma dirent_offs_dir: "dir_ok s dp n \<Longrightarrow> dirent_offs 0 (i_size (icache s dp)) = map (\<lambda>j. of_nat (16 * j)) [0..<dir_count s dp]"
  by (auto simp: dirent_offs_def dir_count_def dir_ok_def elim!: dvdE)

lemma read_dirent_ok:
  fixes s :: "'a constate_scheme"
  assumes "fs_ok s" "dir_ok s dp n" "k < dir_count s dp"
  shows "\<exists>s'. read_dirent dp msg (of_nat (16 * k)) s = Ok (dir_entry s dp k) s' \<and> fs_after s s' (bview s) 0"
proof -
  have d: "file_mapped s dp n" "unat (i_size (icache s dp)) \<le> n * BSIZE" "i_type (icache s dp) \<noteq> T_DEV"
    using assms(2) by (auto simp: dir_ok_def T_DIR_def T_DEV_def)
  have "Suc k * 16 \<le> dir_count s dp * 16" using assms(3) by (intro mult_right_mono) auto
  then have sz: "16 * k + 16 \<le> unat (i_size (icache s dp))" using assms(2) by (simp add: dir_ok_def dir_count_def)
  have "n * BSIZE < 2 ^ 31" using d(1) by (intro file_limit) (simp add: file_mapped_def)
  with sz d(2) have "16 * k + 16 < 2 ^ 31" "16 * k \<le> unat (i_size (icache s dp))" by linarith+
  from readi_ok [OF assms(1) d(3,1,2) this(2,1)] sz show ?thesis
    by (auto simp: read_dirent_def dir_entry_def min_def)
qed

text \<open>The scan stops at the first entry with the name and looks its inode up.\<close>

lemma dirlookup_at_ok:
  fixes s :: "'a constate_scheme"
  assumes t: "fs_after s t (bview s) 0" and dir: "dir_ok s dp n" and k: "k < dir_count s dp"
  shows "\<exists>t'. fs_after s t' (bview s) 0 \<and> dirlookup_at dp name (of_nat (16 * k)) t = (if entry_named s dp name k
    then bindR (iget 1 (ucast (de_inum (dir_entry s dp k))) t') (\<lambda>i s. Ok (Some (i, of_nat (16 * k))) s)
    else Ok None t')"
proof -
  note T = fs_afterD [OF t]
  note D = dir_same_view [OF T(2,7,4)]
  obtain t' where t': "read_dirent dp ''dirlookup read'' (of_nat (16 * k)) t = Ok (dir_entry s dp k) t'"
    "fs_after t t' (bview s) 0"
    using read_dirent_ok [OF T(1), of dp n k "''dirlookup read''"] dir k by (simp only: D T(2)) blast
  have "i_dev (icache t' dp) = 1" using fs_afterD(7) [OF t'(2)] T(7) dir by (simp add: dir_ok_def file_mapped_def)
  then show ?thesis
    using t' fs_after_trans [OF t t'(2)] unfolding dirlookup_at_def
    by (intro exI [of _ t']) (auto simp: entry_named_def namecmp_def strncmp_0_iff)
qed

lemma dirlookup_ok:
  fixes s :: "'a constate_scheme"
  assumes ok: "fs_ok s" and dir: "dir_ok s dp n"
  shows "case find (entry_named s dp name) [0..<dir_count s dp] of
      None \<Rightarrow> \<exists>t. dirlookup dp name s = Ok None t \<and> fs_after s t (bview s) 0
    | Some k \<Rightarrow> \<exists>t. fs_after s t (bview s) 0 \<and> dirlookup dp name s =
        bindR (iget 1 (ucast (de_inum (dir_entry s dp k))) t) (\<lambda>i s. Ok (Some (i, of_nat (16 * k))) s)"
proof -
  let ?P = "\<lambda>t. fs_after s t (bview s) 0"
  let ?g = "\<lambda>j. of_nat (16 * j) :: uint"
  have ty: "i_type (icache s dp) = T_DIR" using dir by (simp add: dir_ok_def)
  have eq: "dirlookup dp name s = findR (map ?g [0..<dir_count s dp]) (dirlookup_at dp name) s"
    using ty by (simp add: dirlookup_def dirent_offs_dir [OF dir])
  note step = dirlookup_at_ok [OF _ dir]
  have skip: "\<exists>t'. dirlookup_at dp name x t = Ok None t' \<and> ?P t'"
    if no: "\<And>j. j < m \<Longrightarrow> j < dir_count s dp \<and> \<not> entry_named s dp name j" and x: "x \<in> set (map ?g [0..<m])" and t: "?P t"
    for m x t
  proof -
    from x obtain j where j: "j < m" "x = ?g j" unfolding set_map by auto
    with step [OF t conjunct1 [OF no [OF j(1)]], of name] no [OF j(1)] show ?thesis by (simp only: if_False simp_thms) blast
  qed
  show ?thesis
  proof (cases "find (entry_named s dp name) [0..<dir_count s dp]")
    case None
    then have no: "j < dir_count s dp \<and> \<not> entry_named s dp name j" if "j < dir_count s dp" for j
      using that by (auto simp: find_None_iff)
    show ?thesis unfolding None option.case eq
      by (rule findR_none [where P = ?P, OF fs_after_refl [OF ok]], rule skip [OF no])
  next
    case (Some k)
    then have k: "k < dir_count s dp" "entry_named s dp name k" "\<And>j. j < k \<Longrightarrow> \<not> entry_named s dp name j"
      by (auto simp: find_Some_iff)
    have split: "map ?g [0..<dir_count s dp] = map ?g [0..<k] @ ?g k # map ?g [Suc k..<dir_count s dp]"
      using k(1) upt_add_eq_append [of 0 k "dir_count s dp - k"] by (simp add: upt_conv_Cons)
    have no: "j < dir_count s dp \<and> \<not> entry_named s dp name j" if "j < k" for j using that k(1,3) by simp
    have "\<exists>t. ?P t \<and> dirlookup dp name s = bindR (dirlookup_at dp name (?g k) t)
        (\<lambda>r u. case r of Some b \<Rightarrow> Ok (Some b) u | None \<Rightarrow> findR (map ?g [Suc k..<dir_count s dp]) (dirlookup_at dp name) u)"
      unfolding eq split by (rule findR_hit [where P = ?P, OF fs_after_refl [OF ok]], rule skip [OF no])
    then obtain t where t: "?P t" "dirlookup dp name s = bindR (dirlookup_at dp name (?g k) t)
        (\<lambda>r u. case r of Some b \<Rightarrow> Ok (Some b) u | None \<Rightarrow> findR (map ?g [Suc k..<dir_count s dp]) (dirlookup_at dp name) u)"
      by (elim exE conjE) (rule that)
    obtain t' where t': "?P t'" "dirlookup_at dp name (?g k) t =
        bindR (iget 1 (ucast (de_inum (dir_entry s dp k))) t') (\<lambda>i s. Ok (Some (i, ?g k)) s)"
      using step [OF t(1) k(1), of name] k(2) by (simp only: if_True) blast
    have "dirlookup dp name s =
        bindR (iget 1 (ucast (de_inum (dir_entry s dp k))) t') (\<lambda>i s. Ok (Some (i, ?g k)) s)"
      unfolding t(2) t'(2) by (simp add: bindR_assoc)
    with t'(1) show ?thesis unfolding Some option.case by blast
  qed
qed

section \<open>Path elements\<close>

fun slash_split :: "uchar list \<Rightarrow> uchar list list" where
  "slash_split [] = [[]]"
| "slash_split (c # p) =
     (if c = SLASH then [] # slash_split p else (c # hd (slash_split p)) # tl (slash_split p))"

definition path_elems :: "uchar list \<Rightarrow> uchar list list" where
  "path_elems p = filter (\<lambda>e. e \<noteq> []) (slash_split p)"

lemma slash_split_ne: "slash_split p \<noteq> []"
  by (induction p) auto

lemma path_elems_Nil [simp]: "path_elems [] = []"
  by (simp add: path_elems_def)

lemma path_elems_slash: "path_elems (SLASH # p) = path_elems p"
  by (simp add: path_elems_def)

lemma path_elems_drop: "path_elems (dropWhile (\<lambda>c. c = SLASH) p) = path_elems p"
  by (induction p) (auto simp: path_elems_slash)

lemma slash_split_word:
  "slash_split p = takeWhile (\<lambda>c. c \<noteq> SLASH) p # (case dropWhile (\<lambda>c. c \<noteq> SLASH) p of [] \<Rightarrow> [] | _ # q \<Rightarrow> slash_split q)"
  by (induction p) auto

lemma path_elems_word:
  assumes "p \<noteq> []" "hd p \<noteq> SLASH"
  shows "path_elems p = takeWhile (\<lambda>c. c \<noteq> SLASH) p # path_elems (dropWhile (\<lambda>c. c \<noteq> SLASH) p)"
proof -
  have ne: "takeWhile (\<lambda>c. c \<noteq> SLASH) p \<noteq> []" using assms by (cases p) auto
  show ?thesis
  proof (cases "dropWhile (\<lambda>c. c \<noteq> SLASH) p")
    case Nil
    then have "slash_split p = [takeWhile (\<lambda>c. c \<noteq> SLASH) p]" by (subst slash_split_word) (simp only: Nil list.case)
    then have "path_elems p = [takeWhile (\<lambda>c. c \<noteq> SLASH) p]" using ne by (simp only: path_elems_def filter.simps simp_thms if_True)
    then show ?thesis by (simp only: Nil path_elems_Nil)
  next
    case (Cons c q)
    then have "c = SLASH" using hd_dropWhile [of "\<lambda>c. c \<noteq> SLASH" p] by auto
    have "slash_split p = takeWhile (\<lambda>c. c \<noteq> SLASH) p # slash_split q" by (subst slash_split_word) (simp only: Cons list.case)
    then have "path_elems p = takeWhile (\<lambda>c. c \<noteq> SLASH) p # path_elems q"
      using ne by (simp only: path_elems_def filter.simps simp_thms if_True)
    then show ?thesis by (simp only: Cons \<open>c = SLASH\<close> path_elems_slash)
  qed
qed

lemma path_elems_empty_iff: "path_elems (dropWhile (\<lambda>c. c = SLASH) p) = [] \<longleftrightarrow> dropWhile (\<lambda>c. c = SLASH) p = []"
proof (cases "dropWhile (\<lambda>c. c = SLASH) p")
  case (Cons c q)
  then have "c \<noteq> SLASH" using hd_dropWhile [of "\<lambda>c. c = SLASH" p] by auto
  then have "path_elems (c # q) \<noteq> []" using path_elems_word [of "c # q"] by simp
  then show ?thesis by (simp only: Cons list.distinct simp_thms)
next
  case Nil
  show ?thesis by (simp only: Nil path_elems_Nil refl)
qed

lemma cstr_bytes: "cstr (\<lambda>i. (xs @ ys) ! i) (length xs) = takeWhile (\<lambda>c. c \<noteq> 0) xs"
proof (induction xs arbitrary: ys)
  case (Cons x xs)
  have "(\<lambda>i. (x # xs @ ys) ! Suc i) = (\<lambda>i. (xs @ ys) ! i)" by simp
  then show ?case using Cons.IH [of ys] by simp
qed simp

lemma cstr_stop: "cstr (\<lambda>i. (xs @ 0 # ys) ! i) (Suc (length xs) + n) = takeWhile (\<lambda>c. c \<noteq> 0) xs"
proof (induction xs arbitrary: ys)
  case (Cons x xs)
  have "(\<lambda>i. (x # xs @ 0 # ys) ! Suc i) = (\<lambda>i. (xs @ 0 # ys) ! i)" by simp
  then show ?case using Cons.IH [of ys] by simp
qed simp


section \<open>Example states\<close>

definition ex_dirent :: "uchar list" where
  "ex_dirent = [5, 0, 97, 0, 0, 0, 0, 0, 0, 0, 0, 0, 0, 0, 0, 0]"

definition ex_cons :: constate where
  "ex_cons = fstate.extend
     (upd_inode 1 (\<lambda>n. n\<lparr>i_type := T_DIR, i_size := 32, i_addrs := 203 # replicate 12 0\<rparr>)
       (upd_inode 0 (\<lambda>n. n\<lparr>i_type := T_FILE, i_size := 600, i_addrs := 201 # 202 # replicate 11 0\<rparr>)
         (ex_fs\<lparr>disk := (\<lambda>_. replicate 512 0)(203 := replicate 16 0 @ ex_dirent @ replicate 480 0)\<rparr>)))
     (constate.fields False False (\<lambda>_. 0) 0 True [] (replicate 128 0) 0 0 0)"

lemma ex_cons_sel [simp]:
  "log_start ex_cons = 100" "log_size ex_cons = 30" "outstanding ex_cons = 1" "log_dev ex_cons = 1"
  "lh_n ex_cons = 0" "lh_block ex_cons = replicate 30 0"
  "disk ex_cons = (\<lambda>_. replicate 512 0)(203 := replicate 16 0 @ ex_dirent @ replicate 480 0)"
  "disksize ex_cons = 1000" "held ex_cons = []" "cur ex_cons = Some 3" "blist ex_cons = rev [0..<NBUF]"
  "bufs ex_cons = (\<lambda>_. ex_buf)" "committing ex_cons = False" "sb ex_cons = sb ex_fs"
  "i_type (icache ex_cons 0) = T_FILE" "i_size (icache ex_cons 0) = 600" "i_inum (icache ex_cons 0) = 0"
  "i_addrs (icache ex_cons 0) = 201 # 202 # replicate 11 0" "i_dev (icache ex_cons 0) = 1"
  "i_type (icache ex_cons (Suc 0)) = T_DIR" "i_size (icache ex_cons (Suc 0)) = 32" "i_dev (icache ex_cons (Suc 0)) = 1"
  "i_addrs (icache ex_cons (Suc 0)) = 203 # replicate 12 0"
  by (simp_all add: ex_cons_def fstate.extend_def constate.fields_def upd_inode_def ex_inode_def)

lemma ex_cons_view: "cached ex_cons bn = None" "bview ex_cons = disk ex_cons" "hblocks ex_cons = {}" "dblocks ex_cons = {}"
proof -
  show c: "cached ex_cons bn = None" for bn by (simp add: cached_None_iff ex_buf_def)
  then show "bview ex_cons = disk ex_cons" "hblocks ex_cons = {}" "dblocks ex_cons = {}"
    by (auto simp: bview_def hblocks_def dblocks_def)
qed

lemma ex_cons_ok: "fs_ok ex_cons" "fs_valid ex_cons b \<longleftrightarrow> b < 1000 \<and> \<not> (100 \<le> b \<and> b \<le> 130)" "fs_room ex_cons = 28"
proof -
  have "bc_ok ex_cons"
    by (auto simp: bc_ok_def buf_ok_def ex_buf_def BSIZE_def Let_def ex_dirent_def)
  moreover have "b < 1000" if "b \<le> 130" for b :: uint
    using that by (rule le_less_trans) simp
  then have "log_geom ex_cons"
    by (auto simp: log_geom_def ex_fs_area LOGSIZE_def)
  ultimately show "fs_ok ex_cons"
    by (simp add: fs_ok_def ex_cons_view logged_def)
  show "fs_valid ex_cons b \<longleftrightarrow> b < 1000 \<and> \<not> (100 \<le> b \<and> b \<le> 130)"
    by (simp add: fs_valid_def ex_cons_view ex_fs_area)
  show "fs_room ex_cons = 28" by (simp add: fs_room_def)
qed

lemma ex_cons_file: "file_mapped ex_cons 0 2" "file_sep ex_cons 0 2" "inode_apart ex_cons 0 2" "dir_ok ex_cons (Suc 0) 1"
proof -
  have k: "k < 2 \<longleftrightarrow> k = 0 \<or> k = Suc 0" for k :: nat by auto
  have img: "file_blk ex_cons 0 ` {..<2} = {201, 202}"
  proof -
    have "{..<2} = {0, Suc 0}" by auto
    then show ?thesis by (simp add: file_blk_def NDIRECT_def)
  qed
  show "file_mapped ex_cons 0 2" "file_sep ex_cons 0 2"
    by (auto simp: file_mapped_def file_sep_def k ex_cons_ok MAXFILE_def NDIRECT_def NINDIRECT_def file_blk_def inj_on_def)
  show "inode_apart ex_cons 0 2"
    by (auto simp: inode_apart_def img inodes_ok_def ex_cons_ok NDIRECT_def IPB_def IBLOCK_def word_less_nat_alt word_le_nat_alt
        unat_div unat_word_ariths)
  show "dir_ok ex_cons (Suc 0) 1"
    by (auto simp: dir_ok_def file_mapped_def ex_cons_ok MAXFILE_def NDIRECT_def NINDIRECT_def BSIZE_def file_blk_def)
qed

lemma ex_cons_dir: "dir_count ex_cons (Suc 0) = 2" "\<not> entry_named ex_cons (Suc 0) (97 # replicate 13 0) 0"
  "entry_named ex_cons (Suc 0) (97 # replicate 13 0) 1" "de_inum (dir_entry ex_cons (Suc 0) 1) = 5"
proof -
  have B: "file_blk ex_cons (Suc 0) 0 = 203" by (simp add: file_blk_def NDIRECT_def)
  have "map (file_byte ex_cons (Suc 0)) [16 * 0..<16 * 0 + 16] = replicate 16 0"
    by (intro nth_equalityI) (auto simp: file_byte_def B ex_cons_view BSIZE_def nth_append)
  then show "\<not> entry_named ex_cons (Suc 0) (97 # replicate 13 0) 0"
    by (simp add: entry_named_def dir_entry_def dec_dirent_def numeral_eq_Suc dec16_def)
  have "map (file_byte ex_cons (Suc 0)) [16 * 1..<16 * 1 + 16] = ex_dirent"
    by (intro nth_equalityI) (auto simp: file_byte_def B ex_cons_view BSIZE_def nth_append ex_dirent_def)
  then have e: "dir_entry ex_cons (Suc 0) 1 = dec_dirent ex_dirent" by (simp only: dir_entry_def)
  show i: "de_inum (dir_entry ex_cons (Suc 0) 1) = 5"
    unfolding e by (simp add: dec_dirent_def ex_dirent_def dec16_def)
  show "entry_named ex_cons (Suc 0) (97 # replicate 13 0) 1"
  proof -
    have "replicate 13 0 = [0, 0, 0, 0, 0, 0, 0, 0, 0, 0, 0, 0, 0 :: uchar]" by (simp add: numeral_eq_Suc)
    then have "de_name (dec_dirent ex_dirent) = 97 # replicate 13 0"
      by (simp add: dec_dirent_def ex_dirent_def)
    then show ?thesis unfolding entry_named_def i unfolding e by simp
  qed
  show "dir_count ex_cons (Suc 0) = 2" by (simp add: dir_count_def)
qed


section \<open>Properties\<close>

text \<open>
  Reading a file: within a file whose blocks are allocated, \<open>readi\<close> at an offset up to the size
  returns the file's bytes from there on, as many as were asked for or as remain, and changes no
  block; at an offset beyond the size, or when the end of the range overflows, it returns -1.
\<close>

theorem readi_correct:
  fixes s :: "'a constate_scheme"
  assumes "fs_ok s" and "i_type (icache s i) \<noteq> T_DEV" and "file_mapped s i n"
    and "unat (i_size (icache s i)) \<le> n * BSIZE" and "unat len < 2 ^ 30"
  shows "if unat (i_size (icache s i)) < unat off then readi i off len s = Ok (- 1, []) s
    else \<exists>s'. readi i off len s =
        Ok (int (min (unat len) (unat (i_size (icache s i)) - unat off)),
            map (file_byte s i) [unat off..<unat off + min (unat len) (unat (i_size (icache s i)) - unat off)]) s' \<and>
      bview s' = bview s \<and> fs_ok s'"
proof (cases "unat (i_size (icache s i)) < unat off")
  case True
  then show ?thesis using assms(2) by (simp add: readi_def word_less_nat_alt)
next
  case False
  have "n * BSIZE < 2 ^ 31" using assms(3) by (intro file_limit) (simp add: file_mapped_def)
  moreover have "n * BSIZE \<le> 140 * 512"
    using assms(3) by (simp add: file_mapped_def MAXFILE_def NDIRECT_def NINDIRECT_def BSIZE_def)
  ultimately have "unat off + unat len < 2 ^ 31" using False assms(4,5) by simp
  with readi_ok [OF assms(1-4), of "unat off" "unat len"] False
  show ?thesis by (auto dest: fs_afterD(1,2))
qed

theorem readi_correct_witness:
  "(\<exists>t. readi 0 512 100 ex_cons = Ok (88, map (file_byte ex_cons 0) [512..<600]) t \<and> bview t = bview ex_cons) \<and>
   readi 0 601 1 ex_cons = Ok (- 1, []) ex_cons"
proof
  show "\<exists>t. readi 0 512 100 ex_cons = Ok (88, map (file_byte ex_cons 0) [512..<600]) t \<and> bview t = bview ex_cons"
    using readi_correct [of ex_cons 0 2 100 512] ex_cons_ok ex_cons_file by (auto simp: T_FILE_def T_DEV_def BSIZE_def)
  show "readi 0 601 1 ex_cons = Ok (- 1, []) ex_cons"
    using readi_correct [of ex_cons 0 2 1 601] ex_cons_ok ex_cons_file by (auto simp: T_FILE_def T_DEV_def BSIZE_def)
qed



text \<open>
  (C32) Directory lookup: in a directory whose entries are all allocated, \<open>dirlookup\<close> goes to the first
  entry in use whose name agrees with the given one in at most 14 characters, reports its offset and
  takes a reference to its inode; without such an entry it returns 0. No block changes.
\<close>

theorem dirlookup_first:
  fixes s :: "'a constate_scheme"
  assumes "fs_ok s" and "dir_ok s dp n"
  shows "case find (entry_named s dp name) [0..<dir_count s dp] of
      None \<Rightarrow> \<exists>t. dirlookup dp name s = Ok None t \<and> bview t = bview s \<and> icache t = icache s
    | Some k \<Rightarrow> \<exists>t. bview t = bview s \<and> icache t = icache s \<and> dirlookup dp name s =
        bindR (iget 1 (ucast (de_inum (dir_entry s dp k))) t) (\<lambda>i s. Ok (Some (i, of_nat (16 * k))) s)"
  using dirlookup_ok [OF assms, of name] by (auto split: option.splits dest: fs_afterD(2,7))

theorem dirlookup_first_witness:
  "\<exists>t. bview t = bview ex_cons \<and> dirlookup (Suc 0) (97 # replicate 13 0) ex_cons =
     bindR (iget 1 5 t) (\<lambda>i s. Ok (Some (i, 16)) s)"
proof -
  have "find (entry_named ex_cons (Suc 0) (97 # replicate 13 0)) [0..<dir_count ex_cons (Suc 0)] = Some 1"
    using ex_cons_dir by (simp add: upt_conv_Cons)
  then show ?thesis
    using dirlookup_first [of ex_cons "Suc 0" 1 "97 # replicate 13 0"] ex_cons_ok(1) ex_cons_file(4) ex_cons_dir(4) by auto
qed

text \<open>
  Path elements: \<open>skipelem\<close> fails exactly on a path without elements; otherwise the buffer holds
  the first element cut to 14 characters, the rest of the path has the remaining elements in order, and
  the rest is empty exactly when the element was the last.
\<close>

theorem skipelem_elems:
  assumes "length name = DIRSIZ" and "0 \<notin> set path"
  shows "case skipelem path name of
      None \<Rightarrow> path_elems path = []
    | Some (rest, name') \<Rightarrow> \<exists>e es. path_elems path = e # es \<and> path_elems rest = es \<and> (rest = [] \<longleftrightarrow> es = []) \<and>
        length name' = DIRSIZ \<and> cstr (\<lambda>i. name' ! i) DIRSIZ = take DIRSIZ e"
proof -
  let ?p = "dropWhile (\<lambda>c. c = SLASH) path"
  let ?e = "takeWhile (\<lambda>c. c \<noteq> SLASH) ?p"
  let ?r = "dropWhile (\<lambda>c. c = SLASH) (dropWhile (\<lambda>c. c \<noteq> SLASH) ?p)"
  show ?thesis
  proof (cases "?p = []")
    case True
    then have "path_elems path = []" using path_elems_drop [of path] by (simp only: path_elems_Nil)
    moreover have "skipelem path name = None" by (simp only: skipelem_def Let_def True simp_thms if_True)
    ultimately show ?thesis by simp
  next
    case False
    have "hd ?p \<noteq> SLASH" using hd_dropWhile [OF False] by simp
    then have es: "path_elems path = ?e # path_elems ?r"
      using path_elems_word [OF False] path_elems_drop by metis
    have nz: "takeWhile (\<lambda>c. c \<noteq> 0) (take m ?e) = take m ?e" for m
      using assms(2) by (intro takeWhile_eq_all_conv [THEN iffD2] ballI)
        (metis in_set_takeD set_dropWhileD set_takeWhileD)
    have buf: "\<exists>name'. skipelem path name = Some (?r, name') \<and> length name' = DIRSIZ \<and>
        cstr (\<lambda>i. name' ! i) DIRSIZ = take DIRSIZ ?e"
    proof (cases "DIRSIZ \<le> length ?e")
      case True
      then have "splice 0 (take DIRSIZ ?e) name = take DIRSIZ ?e @ []" using assms(1) by (simp add: splice_def)
      then show ?thesis using False True nz [of DIRSIZ] cstr_bytes [of "take DIRSIZ ?e" "[]"]
        by (simp add: skipelem_def Let_def)
    next
      case short: False
      have "splice 0 (?e @ [0]) name = ?e @ 0 # drop (Suc (length ?e)) name" by (simp add: splice_def)
      moreover have "DIRSIZ = Suc (length ?e) + (DIRSIZ - Suc (length ?e))" using short by simp
      then have "cstr (\<lambda>i. (?e @ 0 # drop (Suc (length ?e)) name) ! i) DIRSIZ = ?e"
        using cstr_stop [of ?e "drop (Suc (length ?e)) name" "DIRSIZ - Suc (length ?e)"] nz [of "length ?e"] by simp
      ultimately show ?thesis using False short assms(1) by (simp add: skipelem_def Let_def)
    qed
    then show ?thesis using es path_elems_empty_iff by auto
  qed
qed

theorem skipelem_elems_witness:
  "\<exists>e. path_elems [47, 97, 47, 98] = e # path_elems [98] \<and> path_elems [98] \<noteq> [] \<and>
     cstr (\<lambda>i. [97, 0, 0, 0, 0, 0, 0, 0, 0, 0, 0, 0, 0, 0] ! i) DIRSIZ = take DIRSIZ e"
proof -
  have "skipelem [47, 97, 47, 98] [0, 0, 0, 0, 0, 0, 0, 0, 0, 0, 0, 0, 0, 0] =
      Some ([98], [97, 0, 0, 0, 0, 0, 0, 0, 0, 0, 0, 0, 0, 0])"
    by (simp add: skipelem_def SLASH_def DIRSIZ_def splice_def Let_def)
  then show ?thesis
    using skipelem_elems [of "[0, 0, 0, 0, 0, 0, 0, 0, 0, 0, 0, 0, 0, 0]" "[47, 97, 47, 98]"] by (auto simp: DIRSIZ_def)
qed

end
