(* ===== verification/File.thy ===== *)
theory File
  imports Fs Ring
begin

text \<open>
  Open files and pipes: \<open>file.c\<close> and \<open>pipe.c\<close>. The file table counts the references to each open
  file; a pipe is a ring buffer of 512 bytes in a page from \<open>kalloc\<close>, and is named by the address of
  that page. Operations that sleep come with the continuation that runs after the wakeup.
\<close>

section \<open>State\<close>

definition NFILE :: nat where "NFILE = 100"
definition PIPESIZE :: nat where "PIPESIZE = 512"

datatype filetype = FD_NONE | FD_PIPE | FD_INODE

record ofile_t =
  f_type :: filetype
  f_ref :: int
  readable :: uchar
  writable :: uchar
  f_pipe :: uint
  f_ip :: "nat option"
  f_off :: uint

record pipe =
  p_data :: "uchar list"
  nread :: uint
  nwrite :: uint
  readopen :: bool
  writeopen :: bool

record filestate = constate +
  ftable :: "nat \<Rightarrow> ofile_t"
  pipes :: "uint \<Rightarrow> pipe"

definition upd_file :: "nat \<Rightarrow> (ofile_t \<Rightarrow> ofile_t) \<Rightarrow> 'a filestate_scheme \<Rightarrow> 'a filestate_scheme" where
  "upd_file f g s = s\<lparr>ftable := (ftable s)(f := g (ftable s f))\<rparr>"

definition upd_pipe :: "uint \<Rightarrow> (pipe \<Rightarrow> pipe) \<Rightarrow> 'a filestate_scheme \<Rightarrow> 'a filestate_scheme" where
  "upd_pipe p g s = s\<lparr>pipes := (pipes s)(p := g (pipes s p))\<rparr>"

section \<open>References to open files\<close>

definition filealloc :: "'a filestate_scheme \<Rightarrow> ('a filestate_scheme, nat option) res" where
  "filealloc s =
     bindR (acquire_lk Lftable s) (\<lambda>_ s.
       case find (\<lambda>f. f_ref (ftable s f) = 0) [0..<NFILE] of
         Some f \<Rightarrow> bindR (release_lk Lftable (upd_file f (\<lambda>x. x\<lparr>f_ref := 1\<rparr>) s)) (\<lambda>_ s. Ok (Some f) s)
       | None \<Rightarrow> bindR (release_lk Lftable s) (\<lambda>_ s. Ok None s))"

definition filedup :: "nat \<Rightarrow> 'a filestate_scheme \<Rightarrow> ('a filestate_scheme, nat) res" where
  "filedup f s =
     bindR (acquire_lk Lftable s) (\<lambda>_ s.
       if f_ref (ftable s f) < 1 then Panic ''filedup''
       else bindR (release_lk Lftable (upd_file f (\<lambda>x. x\<lparr>f_ref := f_ref x + 1\<rparr>) s)) (\<lambda>_ s. Ok f s))"

definition pipeclose :: "uint \<Rightarrow> uchar \<Rightarrow> 'a filestate_scheme \<Rightarrow> ('a filestate_scheme, unit) res" where
  "pipeclose p wr s =
     bindR (acquire_lk (Lpipe p) s) (\<lambda>_ s.
     bindR (if wr \<noteq> 0
            then wakeup (ChPipeRead p) (upd_pipe p (\<lambda>x. x\<lparr>writeopen := False\<rparr>) s)
            else wakeup (ChPipeWrite p) (upd_pipe p (\<lambda>x. x\<lparr>readopen := False\<rparr>) s)) (\<lambda>_ s.
       if \<not> readopen (pipes s p) \<and> \<not> writeopen (pipes s p)
       then bindR (release_lk (Lpipe p) s) (\<lambda>_ s. kfree p s)
       else release_lk (Lpipe p) s))"

text \<open>Dropping the last reference frees the slot first and releases what the file named afterwards.\<close>

definition fileclose :: "nat \<Rightarrow> 'a filestate_scheme \<Rightarrow> ('a filestate_scheme, unit) res" where
  "fileclose f s =
     bindR (acquire_lk Lftable s) (\<lambda>_ s.
       if f_ref (ftable s f) < 1 then Panic ''fileclose''
       else let s = upd_file f (\<lambda>x. x\<lparr>f_ref := f_ref x - 1\<rparr>) s
            in if 0 < f_ref (ftable s f) then release_lk Lftable s
               else let ff = ftable s f;
                        s = upd_file f (\<lambda>x. x\<lparr>f_ref := 0, f_type := FD_NONE\<rparr>) s
                    in bindR (release_lk Lftable s) (\<lambda>_ s.
                       if f_type ff = FD_PIPE then pipeclose (f_pipe ff) (writable ff) s
                       else if f_type ff = FD_INODE
                       then bindR (begin_op s) (\<lambda>_ s.
                            bindR (case f_ip ff of Some i \<Rightarrow> iput i s | None \<Rightarrow> Fault ''iput'') (\<lambda>_ s.
                            end_op s))
                       else Ok () s))"

definition filestat :: "nat \<Rightarrow> 'a filestate_scheme \<Rightarrow> ('a filestate_scheme, stat option) res" where
  "filestat f s =
     (if f_type (ftable s f) = FD_INODE
      then bindR (ilock (f_ip (ftable s f)) s) (\<lambda>_ s.
           let st = stati (the (f_ip (ftable s f))) s
           in bindR (iunlock (f_ip (ftable s f)) s) (\<lambda>_ s. Ok (Some st) s))
      else Ok None s)"

section \<open>Pipes\<close>

text \<open>The pipe's ends are the two files; an error gives back what was taken.\<close>

definition pipealloc_bad :: "uint \<Rightarrow> nat option \<Rightarrow> nat option \<Rightarrow> 'a filestate_scheme \<Rightarrow>
    ('a filestate_scheme, (nat \<times> nat) option) res" where
  "pipealloc_bad p f0 f1 s =
     bindR (if p \<noteq> 0 then kfree p s else Ok () s) (\<lambda>_ s.
     bindR (case f0 of Some f \<Rightarrow> fileclose f s | None \<Rightarrow> Ok () s) (\<lambda>_ s.
     bindR (case f1 of Some f \<Rightarrow> fileclose f s | None \<Rightarrow> Ok () s) (\<lambda>_ s. Ok None s)))"

definition pipealloc :: "'a filestate_scheme \<Rightarrow> ('a filestate_scheme, (nat \<times> nat) option) res" where
  "pipealloc s =
     bindR (filealloc s) (\<lambda>f0 s.
       case f0 of
         None \<Rightarrow> pipealloc_bad 0 None None s
       | Some a \<Rightarrow>
           bindR (filealloc s) (\<lambda>f1 s.
             case f1 of
               None \<Rightarrow> pipealloc_bad 0 (Some a) None s
             | Some b \<Rightarrow>
                 bindR (kalloc s) (\<lambda>p s.
                   if p = 0 then pipealloc_bad 0 (Some a) (Some b) s
                   else let s = upd_pipe p (\<lambda>x. x\<lparr>readopen := True, writeopen := True, nwrite := 0, nread := 0\<rparr>) s;
                            s = upd_file a (\<lambda>x. x\<lparr>f_type := FD_PIPE, readable := 1, writable := 0, f_pipe := p\<rparr>) s;
                            s = upd_file b (\<lambda>x. x\<lparr>f_type := FD_PIPE, readable := 0, writable := 1, f_pipe := p\<rparr>) s
                        in Ok (Some (a, b)) s)))"

definition pipe_full :: "pipe \<Rightarrow> bool" where
  "pipe_full x \<longleftrightarrow> nwrite x = nread x + of_nat PIPESIZE"

definition pipe_put :: "uchar \<Rightarrow> pipe \<Rightarrow> pipe" where
  "pipe_put c x = x\<lparr>p_data := (p_data x)[unat (nwrite x) mod PIPESIZE := c], nwrite := nwrite x + 1\<rparr>"

text \<open>The loop of \<open>pipewrite\<close> for the bytes still to write, of \<open>n\<close> in all.\<close>

fun pipewrite_loop :: "uint \<Rightarrow> int \<Rightarrow> uchar list \<Rightarrow> 'a filestate_scheme \<Rightarrow> ('a filestate_scheme, int) res" where
  "pipewrite_loop p n [] s =
     bindR (wakeup (ChPipeRead p) s) (\<lambda>_ s. bindR (release_lk (Lpipe p) s) (\<lambda>_ s. Ok n s))"
| "pipewrite_loop p n (c # bs) s =
     (if pipe_full (pipes s p)
      then bindR (if \<not> readopen (pipes s p) then Ok True s
                  else bindR (myproc s) (\<lambda>q s. Ok (killed (procs s q)) s)) (\<lambda>stop s.
           if stop then bindR (release_lk (Lpipe p) s) (\<lambda>_ s. Ok (- 1) s)
           else bindR (wakeup (ChPipeRead p) s) (\<lambda>_ s. sleep (ChPipeWrite p) (Lpipe p) s))
      else pipewrite_loop p n bs (upd_pipe p (pipe_put c) s))"

definition pipewrite :: "uint \<Rightarrow> uchar list \<Rightarrow> int \<Rightarrow> 'a filestate_scheme \<Rightarrow> ('a filestate_scheme, int) res" where
  "pipewrite p src n s =
     bindR (acquire_lk (Lpipe p) s) (\<lambda>_ s. pipewrite_loop p n (take (nat n) src) s)"

definition pipewrite_resume :: "uint \<Rightarrow> int \<Rightarrow> uchar list \<Rightarrow> 'a filestate_scheme \<Rightarrow> ('a filestate_scheme, int) res" where
  "pipewrite_resume p n rest s =
     bindR (sleep_resume (Lpipe p) s) (\<lambda>_ s. pipewrite_loop p n rest s)"

fun piperead_copy :: "uint \<Rightarrow> nat \<Rightarrow> 'a filestate_scheme \<Rightarrow> uchar list \<times> 'a filestate_scheme" where
  "piperead_copy p 0 s = ([], s)"
| "piperead_copy p (Suc n) s =
     (if nread (pipes s p) = nwrite (pipes s p) then ([], s)
      else let c = p_data (pipes s p) ! (unat (nread (pipes s p)) mod PIPESIZE);
               (bs, s) = piperead_copy p n (upd_pipe p (\<lambda>x. x\<lparr>nread := nread x + 1\<rparr>) s)
           in (c # bs, s))"

definition piperead_loop :: "uint \<Rightarrow> int \<Rightarrow> 'a filestate_scheme \<Rightarrow> ('a filestate_scheme, int \<times> uchar list) res" where
  "piperead_loop p n s =
     (if nread (pipes s p) = nwrite (pipes s p) \<and> writeopen (pipes s p)
      then bindR (myproc s) (\<lambda>q s.
           if killed (procs s q) then bindR (release_lk (Lpipe p) s) (\<lambda>_ s. Ok (- 1, []) s)
           else sleep (ChPipeRead p) (Lpipe p) s)
      else let (bs, s) = piperead_copy p (nat n) s
           in bindR (wakeup (ChPipeWrite p) s) (\<lambda>_ s.
              bindR (release_lk (Lpipe p) s) (\<lambda>_ s. Ok (int (length bs), bs) s)))"

definition piperead :: "uint \<Rightarrow> int \<Rightarrow> 'a filestate_scheme \<Rightarrow> ('a filestate_scheme, int \<times> uchar list) res" where
  "piperead p n s = bindR (acquire_lk (Lpipe p) s) (\<lambda>_ s. piperead_loop p n s)"

definition piperead_resume :: "uint \<Rightarrow> int \<Rightarrow> 'a filestate_scheme \<Rightarrow> ('a filestate_scheme, int \<times> uchar list) res" where
  "piperead_resume p n s = bindR (sleep_resume (Lpipe p) s) (\<lambda>_ s. piperead_loop p n s)"

section \<open>Reading and writing open files\<close>

definition fileread :: "nat \<Rightarrow> int \<Rightarrow> 'a filestate_scheme \<Rightarrow> ('a filestate_scheme, int \<times> uchar list) res" where
  "fileread f n s =
     (if readable (ftable s f) = 0 then Ok (- 1, []) s
      else if f_type (ftable s f) = FD_PIPE then piperead (f_pipe (ftable s f)) n s
      else if f_type (ftable s f) = FD_INODE
      then bindR (ilock (f_ip (ftable s f)) s) (\<lambda>_ s.
           bindR (readi (the (f_ip (ftable s f))) (f_off (ftable s f)) (word_of_int n) s) (\<lambda>(r, bs) s.
           let s = (if 0 < r then upd_file f (\<lambda>x. x\<lparr>f_off := f_off x + word_of_int r\<rparr>) s else s)
           in bindR (iunlock (f_ip (ftable s f)) s) (\<lambda>_ s. Ok (r, bs) s)))
      else Panic ''fileread'')"

text \<open>
  \<open>filewrite\<close> splits a write into transactions of at most 1536 bytes. The loop returns whether all
  bytes were written.
\<close>

definition write_max :: nat where
  "write_max = nat ((MAXOPBLOCKS - 1 - 1 - 2) div 2 * 512)"

definition filewrite_chunk :: "nat \<Rightarrow> uchar list \<Rightarrow> 'a filestate_scheme \<Rightarrow> ('a filestate_scheme, int) res" where
  "filewrite_chunk f src s =
     bindR (begin_op s) (\<lambda>_ s.
     bindR (ilock (f_ip (ftable s f)) s) (\<lambda>_ s.
     bindR (writei (the (f_ip (ftable s f))) src (f_off (ftable s f)) s) (\<lambda>r s.
     let s = (if 0 < r then upd_file f (\<lambda>x. x\<lparr>f_off := f_off x + word_of_int r\<rparr>) s else s)
     in bindR (iunlock (f_ip (ftable s f)) s) (\<lambda>_ s.
        bindR (end_op s) (\<lambda>_ s. Ok r s)))))"

lemma write_max: "write_max = 1536"
  by (simp add: write_max_def MAXOPBLOCKS_def)

function filewrite_loop :: "nat \<Rightarrow> uchar list \<Rightarrow> 'a filestate_scheme \<Rightarrow> ('a filestate_scheme, bool) res" where
  "filewrite_loop f src s =
     (if src = [] then Ok True s
      else let n1 = min (length src) write_max
           in bindR (filewrite_chunk f (take n1 src) s) (\<lambda>r s.
              if r < 0 then Ok False s
              else if r \<noteq> int n1 then Panic ''short filewrite''
              else filewrite_loop f (drop n1 src) s))"
  by pat_completeness auto
termination
  by (relation "measure (\<lambda>(f, src, s). length src)") (auto simp: write_max)

definition filewrite :: "nat \<Rightarrow> uchar list \<Rightarrow> int \<Rightarrow> 'a filestate_scheme \<Rightarrow> ('a filestate_scheme, int) res" where
  "filewrite f src n s =
     (if writable (ftable s f) = 0 then Ok (- 1) s
      else if f_type (ftable s f) = FD_PIPE then pipewrite (f_pipe (ftable s f)) src n s
      else if f_type (ftable s f) = FD_INODE
      then bindR (filewrite_loop f (take (nat n) src) s) (\<lambda>all s.
           Ok (if all \<and> 0 \<le> n then n else - 1) s)
      else Panic ''filewrite'')"

section \<open>A pipe is a byte queue\<close>

definition pipe_bytes :: "pipe \<Rightarrow> uchar list" where
  "pipe_bytes x = ring (p_data x) (nread x) (unat (nwrite x - nread x))"

definition pipe_ok :: "pipe \<Rightarrow> bool" where
  "pipe_ok x \<longleftrightarrow> length (p_data x) = PIPESIZE \<and> unat (nwrite x - nread x) \<le> PIPESIZE"

definition pipe_get :: "pipe \<Rightarrow> uchar" where
  "pipe_get x = p_data x ! (unat (nread x) mod PIPESIZE)"

definition pipe_pop :: "pipe \<Rightarrow> pipe" where
  "pipe_pop x = x\<lparr>nread := nread x + 1\<rparr>"

lemma PIPESIZE_dvd: "PIPESIZE dvd 2 ^ 32"
  by (simp add: PIPESIZE_def)

lemma pipe_full_dist: "pipe_full x \<longleftrightarrow> unat (nwrite x - nread x) = PIPESIZE"
proof -
  have "pipe_full x \<longleftrightarrow> nwrite x - nread x = of_nat PIPESIZE"
    by (auto simp: pipe_full_def algebra_simps)
  also have "\<dots> \<longleftrightarrow> unat (nwrite x - nread x) = PIPESIZE"
    by (simp add: word_unat_eq_iff PIPESIZE_def)
  finally show ?thesis .
qed

interpretation pipeq: byte_queue pipe_bytes pipe_put pipe_get pipe_pop pipe_full "\<lambda>x. nread x = nwrite x" pipe_ok PIPESIZE
proof (unfold_locales, goal_cases)
  case (1 x)
  then show ?case by (simp add: pipe_ok_def pipe_bytes_def)
next
  case (2 x)
  then show ?case by (simp add: pipe_full_dist pipe_bytes_def)
next
  case (3 x)
  have "pipe_bytes x = [] \<longleftrightarrow> unat (nwrite x - nread x) = 0"
    by (metis length_0_conv length_ring pipe_bytes_def)
  then show ?case by (auto simp: unat_eq_0)
next
  case (4 x c)
  let ?n = "unat (nwrite x - nread x)"
  have n: "?n < PIPESIZE" "length (p_data x) = PIPESIZE" using 4 by (auto simp: pipe_bytes_def pipe_ok_def)
  have w: "nread x + of_nat ?n = nwrite x" by simp
  have "?n < 2 ^ 32 - 1" using n(1) by (simp add: PIPESIZE_def)
  then have g: "unat (nwrite x + 1 - nread x) = Suc ?n" by (rule dist_grow)
  have "ring ((p_data x)[unat (nwrite x) mod PIPESIZE := c]) (nread x) (Suc ?n) = ring (p_data x) (nread x) ?n @ [c]"
    using ring_put(2) [of "p_data x" ?n "nread x" c] PIPESIZE_dvd n w by simp
  then show ?case using g n by (simp add: pipe_bytes_def pipe_put_def pipe_ok_def)
next
  case (5 x c cs)
  then have ne: "nwrite x \<noteq> nread x" by (auto simp: pipe_bytes_def)
  note D = dist_shrink [OF ne]
  have "unat (nwrite x - nread x) = Suc (unat (nwrite x - (nread x + 1)))" using D(1,3) by simp
  then have "pipe_bytes x = pipe_get x # pipe_bytes (pipe_pop x)"
    using ring_front [of "p_data x" "nread x"] 5(1) by (simp add: pipe_bytes_def pipe_get_def pipe_pop_def pipe_ok_def)
  then show ?case using 5 D(1) by (auto simp: pipe_ok_def pipe_pop_def)
qed

lemma upd_pipe_twice [simp]: "upd_pipe p f (upd_pipe p g s) = upd_pipe p (f \<circ> g) s"
  by (simp add: upd_pipe_def)

lemma upd_pipe_sel [simp]: "pipes (upd_pipe p f s) p = f (pipes s p)" "held (upd_pipe p f s) = held s"
  "cur (upd_pipe p f s) = cur s" "procs (upd_pipe p f s) = procs s" "q \<noteq> p \<Longrightarrow> pipes (upd_pipe p f s) q = pipes s q"
  "ftable (upd_pipe p f s) = ftable s"
  by (simp_all add: upd_pipe_def)

lemma piperead_copy_take:
  "piperead_copy p n s =
     (let (bs, x) = take_out pipe_get pipe_pop (\<lambda>x. nread x = nwrite x) n (pipes s p)
      in (bs, upd_pipe p (\<lambda>_. x) s))"
proof (induction n arbitrary: s)
  case (Suc n)
  have "upd_pipe p (\<lambda>x. x\<lparr>nread := nread x + 1\<rparr>) s = upd_pipe p pipe_pop s" by (simp add: pipe_pop_def [abs_def])
  then show ?case
    by (auto simp: Suc.IH pipe_get_def Let_def upd_pipe_def split: prod.splits)
qed (simp add: upd_pipe_def)

lemma pipewrite_loop_put:
  "pipewrite_loop p n bs s =
     (let (rest, x) = put_in pipe_put pipe_full bs (pipes s p)
      in pipewrite_loop p n rest (upd_pipe p (\<lambda>_. x) s))"
proof (induction bs arbitrary: s)
  case (Cons c bs)
  show ?case
  proof (cases "pipe_full (pipes s p)")
    case True
    then show ?thesis by (simp add: upd_pipe_def)
  next
    case False
    then have "pipewrite_loop p n (c # bs) s = pipewrite_loop p n bs (upd_pipe p (pipe_put c) s)" by simp
    also have "\<dots> = (let (rest, x) = put_in pipe_put pipe_full bs (pipe_put c (pipes s p))
      in pipewrite_loop p n rest (upd_pipe p (\<lambda>_. x) s))"
      unfolding Cons.IH by (auto simp: comp_def split: prod.splits)
    finally show ?thesis using False by simp
  qed
qed (simp add: upd_pipe_def)

lemma wakeup1_pipes [simp]: "pipes (wakeup1 ch s) = pipes s" "pipes (s\<lparr>held := h\<rparr>) = pipes s"
  by (simp_all add: wakeup1_def)

lemma pipewrite_fits:
  assumes "pipe_ok (pipes s p)" "Lpipe p \<notin> set (held s)" "Lptable \<notin> set (held s)"
    "length src \<le> PIPESIZE - length (pipe_bytes (pipes s p))"
  shows "\<exists>s'. pipewrite p src (int (length src)) s = Ok (int (length src)) s' \<and> pipe_ok (pipes s' p) \<and>
    pipe_bytes (pipes s' p) = pipe_bytes (pipes s p) @ src \<and> held s' = held s"
proof -
  obtain x where x: "put_in pipe_put pipe_full src (pipes s p) = ([], x)"
    "pipe_bytes x = pipe_bytes (pipes s p) @ src" "pipe_ok x"
    using pipeq.put_in_ok [OF assms(1), of src] assms(4) by auto
  show ?thesis
    using assms(2,3) x by (simp add: pipewrite_def pipewrite_loop_put [of p _ src])
qed

lemma pipewrite_blocks:
  fixes s :: "'a filestate_scheme"
  assumes "pipe_ok (pipes s p)" "held s = []" "cur s = Some q"
    "PIPESIZE - length (pipe_bytes (pipes s p)) < length src"
  shows "\<exists>s'. pipe_ok (pipes s' p) \<and>
    pipe_bytes (pipes s' p) = pipe_bytes (pipes s p) @ take (PIPESIZE - length (pipe_bytes (pipes s p))) src \<and>
    (if \<not> readopen (pipes s' p) \<or> killed (procs s q)
     then pipewrite p src (int (length src)) s = Ok (- 1) s' \<and> held s' = []
     else pipewrite p src (int (length src)) s = Swtch s' \<and> held s' = [Lptable] \<and>
       state (procs s' q) = SLEEPING \<and> chan (procs s' q) = Some (ChPipeWrite p))"
proof -
  let ?s = "s\<lparr>held := [Lpipe p]\<rparr>"
  obtain c cs x where x: "put_in pipe_put pipe_full src (pipes s p) = (c # cs, x)"
    "pipe_bytes x = pipe_bytes (pipes s p) @ take (PIPESIZE - length (pipe_bytes (pipes s p))) src" "pipe_ok x"
    using pipeq.put_in_ok [OF assms(1), of src] assms(4)
    by (cases "drop (PIPESIZE - length (pipe_bytes (pipes s p))) src") auto
  have "length (pipe_bytes x) = PIPESIZE"
    using x(2) assms(4) pipeq.len [OF assms(1)] by simp
  then have full: "pipe_full x" using pipeq.full_iff [OF x(3)] by simp
  let ?t = "upd_pipe p (\<lambda>_. x) ?s"
  have "pipewrite p src (int (length src)) s = pipewrite_loop p (int (length src)) (c # cs) ?t"
    using assms(2) x(1) by (simp add: pipewrite_def pipewrite_loop_put [of p _ src])
  also have "\<dots> = (if \<not> readopen x \<or> killed (procs s q) then Ok (- 1) (?t\<lparr>held := []\<rparr>)
      else sleep (ChPipeWrite p) (Lpipe p) (wakeup1 (ChPipeRead p) ?t))"
    using full assms(3) by simp
  finally have w: "pipewrite p src (int (length src)) s = \<dots>" .
  show ?thesis
  proof (cases "\<not> readopen x \<or> killed (procs s q)")
    case True
    then show ?thesis using w x by (intro exI [of _ "?t\<lparr>held := []\<rparr>"]) simp
  next
    case False
    have "sleep (ChPipeWrite p) (Lpipe p) (wakeup1 (ChPipeRead p) ?t) = Swtch (upd_proc q (\<lambda>r. r\<lparr>chan :=
        Some (ChPipeWrite p), state := SLEEPING, ctx := AfterSched\<rparr>) ((wakeup1 (ChPipeRead p) ?t)\<lparr>held := [Lptable]\<rparr>))"
      using assms(3) by (intro sleep_Swtch) simp_all
    then show ?thesis using w x False
      by (intro exI [of _ "upd_proc q (\<lambda>r. r\<lparr>chan := Some (ChPipeWrite p), state := SLEEPING, ctx := AfterSched\<rparr>)
        ((wakeup1 (ChPipeRead p) ?t)\<lparr>held := [Lptable]\<rparr>)"]) (simp add: upd_proc_def)
  qed
qed

lemma piperead_returns:
  assumes "pipe_ok (pipes s p)" "Lpipe p \<notin> set (held s)" "Lptable \<notin> set (held s)"
    "pipe_bytes (pipes s p) \<noteq> [] \<or> \<not> writeopen (pipes s p)"
  shows "\<exists>s'. piperead p (int n) s =
      Ok (int (length (take n (pipe_bytes (pipes s p)))), take n (pipe_bytes (pipes s p))) s' \<and>
    pipe_ok (pipes s' p) \<and> pipe_bytes (pipes s' p) = drop n (pipe_bytes (pipes s p)) \<and> held s' = held s"
proof -
  obtain x where x: "take_out pipe_get pipe_pop (\<lambda>x. nread x = nwrite x) n (pipes s p) = (take n (pipe_bytes (pipes s p)), x)"
    "pipe_bytes x = drop n (pipe_bytes (pipes s p))" "pipe_ok x"
    using pipeq.take_out_ok [OF assms(1), of n] by blast
  have "\<not> (nread (pipes s p) = nwrite (pipes s p) \<and> writeopen (pipes s p))"
    using assms(4) pipeq.empty_iff [OF assms(1)] by blast
  then show ?thesis
    using assms(2,3) x unfolding piperead_def
    by (cases "nread (pipes s p) = nwrite (pipes s p)") (simp_all add: piperead_loop_def piperead_copy_take)
qed

lemma piperead_blocks:
  fixes s :: "'a filestate_scheme"
  assumes "pipe_ok (pipes s p)" "held s = []" "cur s = Some q"
    "pipe_bytes (pipes s p) = []" "writeopen (pipes s p)"
  shows "\<exists>s'. pipes s' = pipes s \<and>
    (if killed (procs s q) then piperead p n s = Ok (- 1, []) s' \<and> held s' = []
     else piperead p n s = Swtch s' \<and> held s' = [Lptable] \<and>
       state (procs s' q) = SLEEPING \<and> chan (procs s' q) = Some (ChPipeRead p))"
proof -
  let ?s = "s\<lparr>held := [Lpipe p]\<rparr>"
  have e: "nread (pipes s p) = nwrite (pipes s p)" using assms(4) pipeq.empty_iff [OF assms(1)] by simp
  have "piperead p n s = (if killed (procs s q) then Ok (- 1, []) s else sleep (ChPipeRead p) (Lpipe p) ?s)"
    using assms(2,3,5) e by (simp add: piperead_def piperead_loop_def)
  moreover have "sleep (ChPipeRead p) (Lpipe p) ?s = (Swtch (upd_proc q (\<lambda>r. r\<lparr>chan :=
        Some (ChPipeRead p), state := SLEEPING, ctx := AfterSched\<rparr>) (?s\<lparr>held := [Lptable]\<rparr>)) ::
      ('a filestate_scheme, int \<times> uchar list) res)"
    using assms(3) by (intro sleep_Swtch) simp_all
  ultimately show ?thesis using assms(2)
    by (intro exI [of _ "if killed (procs s q) then s else upd_proc q (\<lambda>r. r\<lparr>chan := Some (ChPipeRead p),
      state := SLEEPING, ctx := AfterSched\<rparr>) (?s\<lparr>held := [Lptable]\<rparr>)"]) (simp add: upd_proc_def)
qed

section \<open>Properties\<close>

text \<open>
  (C25) A pipe is a queue of at most 512 bytes: \<open>pipewrite\<close> of bytes that fit appends them and returns
  their number; of more it appends what fits and then gives up with -1 (no reader, or killed) or sleeps
  until a reader made room. \<open>piperead\<close> returns the oldest bytes in order, as many as were asked for or as
  there are; of an empty pipe with a writer it gives up with -1 (killed) or sleeps.
\<close>

theorem pipe_is_queue:
  fixes s :: "'a filestate_scheme"
  assumes "pipe_ok (pipes s p)" and "held s = []" and "cur s = Some q"
  shows "(if length src \<le> PIPESIZE - length (pipe_bytes (pipes s p))
      then \<exists>s'. pipewrite p src (int (length src)) s = Ok (int (length src)) s' \<and> pipe_ok (pipes s' p) \<and>
        pipe_bytes (pipes s' p) = pipe_bytes (pipes s p) @ src \<and> held s' = []
      else \<exists>s'. pipe_ok (pipes s' p) \<and>
        pipe_bytes (pipes s' p) = pipe_bytes (pipes s p) @ take (PIPESIZE - length (pipe_bytes (pipes s p))) src \<and>
        (if \<not> readopen (pipes s' p) \<or> killed (procs s q)
         then pipewrite p src (int (length src)) s = Ok (- 1) s' \<and> held s' = []
         else pipewrite p src (int (length src)) s = Swtch s' \<and> held s' = [Lptable] \<and>
           state (procs s' q) = SLEEPING \<and> chan (procs s' q) = Some (ChPipeWrite p))) \<and>
    (if pipe_bytes (pipes s p) \<noteq> [] \<or> \<not> writeopen (pipes s p)
      then \<exists>s'. piperead p (int n) s =
          Ok (int (length (take n (pipe_bytes (pipes s p)))), take n (pipe_bytes (pipes s p))) s' \<and>
        pipe_ok (pipes s' p) \<and> pipe_bytes (pipes s' p) = drop n (pipe_bytes (pipes s p)) \<and> held s' = []
      else \<exists>s'. pipes s' = pipes s \<and>
        (if killed (procs s q) then piperead p (int n) s = Ok (- 1, []) s' \<and> held s' = []
         else piperead p (int n) s = Swtch s' \<and> held s' = [Lptable] \<and>
           state (procs s' q) = SLEEPING \<and> chan (procs s' q) = Some (ChPipeRead p)))"
  using pipewrite_fits [of s p src] pipewrite_blocks [OF assms, of src]
    piperead_returns [of s p n] piperead_blocks [OF assms, of "int n"] assms
  by (cases "length src \<le> PIPESIZE - length (pipe_bytes (pipes s p))") (simp_all add: not_le)

definition ex_file :: filestate where
  "ex_file = constate.extend ex_cons (filestate.fields
     (\<lambda>_. \<lparr>f_type = FD_NONE, f_ref = 0, readable = 0, writable = 0, f_pipe = 0, f_ip = None, f_off = 0\<rparr>)
     (\<lambda>_. \<lparr>p_data = replicate 512 0, nread = - 1, nwrite = - 1, readopen = True, writeopen = True\<rparr>))"

lemma ex_file_sel [simp]: "held ex_file = []" "cur ex_file = Some 3" "procs ex_file = procs ex_cons"
  "f_ref (ftable ex_file f) = 0" "f_type (ftable ex_file f) = FD_NONE"
  "pipes ex_file = (\<lambda>_. \<lparr>p_data = replicate 512 0, nread = - 1, nwrite = - 1, readopen = True, writeopen = True\<rparr>)"
  by (simp_all add: ex_file_def constate.extend_def filestate.fields_def ex_cons_def fstate.extend_def upd_inode_def)

theorem pipe_is_queue_witness:
  "\<exists>s'. pipewrite 4096 [1, 2] 2 ex_file = Ok 2 s' \<and> pipe_bytes (pipes s' 4096) = [1, 2]"
  using pipe_is_queue [of ex_file 4096 3 "[1, 2]" 1]
  by (simp add: pipe_ok_def pipe_bytes_def PIPESIZE_def) blast



end
