(* ===== verification/Swapfile.thy ===== *)
theory Swapfile
  imports File
begin

text \<open>
  Creating and removing names, and the swap file of a process: \<open>create\<close>, \<open>isdirempty\<close> and the body of
  \<open>sys_unlink\<close> from \<open>sysfile.c\<close>, and the paging additions at the end of \<open>fs.c\<close>. A process with pid
  \<open>n\<close> swaps to the file \<open>/.swapn\<close>.
\<close>

section \<open>Decimal numerals\<close>

fun itoa_len :: "nat \<Rightarrow> nat" where
  "itoa_len n = (if n < 10 then 1 else Suc (itoa_len (n div 10)))"

fun itoa_fill :: "nat \<Rightarrow> nat \<Rightarrow> uchar list \<Rightarrow> uchar list" where
  "itoa_fill p n b =
     (let b = b[p - 1 := of_nat (48 + n mod 10)]
      in if n < 10 then b else itoa_fill (p - 1) (n div 10) b)"

declare itoa_len.simps [simp del] itoa_fill.simps [simp del]

text \<open>
  \<open>itoa i b\<close> is the content of the buffer \<open>b\<close> afterwards; \<open>None\<close> is what C leaves undefined, a write
  past the end of \<open>b\<close> or the negation of the least \<open>int\<close>.
\<close>

definition itoa :: "int \<Rightarrow> uchar list \<Rightarrow> uchar list option" where
  "itoa i b =
     (let st = (if i < 0 then 1 else 0);
          n = nat \<bar>i\<bar>;
          e = st + itoa_len n
      in if length b \<le> e \<or> i = - 2147483648 then None
         else let b = (if i < 0 then b[0 := 45] else b) in Some (itoa_fill e n (b[e := 0])))"

definition DIGITS :: nat where "DIGITS = 14"

definition swap_path :: "int \<Rightarrow> uchar list option" where
  "swap_path n =
     (case itoa n (replicate (DIGITS - 6) 0) of
        None \<Rightarrow> None
      | Some b \<Rightarrow> Some (str ''/.swap'' @ takeWhile (\<lambda>c. c \<noteq> 0) b))"

section \<open>Names\<close>

definition DOT :: "uchar list" where "DOT = [46, 0]"
definition DOTDOT :: "uchar list" where "DOTDOT = [46, 46, 0]"

definition isdirempty :: "nat \<Rightarrow> 'a constate_scheme \<Rightarrow> ('a constate_scheme, bool) res" where
  "isdirempty dp s =
     bindR (findR (dirent_offs 2 (i_size (icache s dp))) (\<lambda>off s.
       bindR (read_dirent dp ''isdirempty: readi'' off s) (\<lambda>de s.
         Ok (if de_inum de \<noteq> 0 then Some () else None) s)) s) (\<lambda>r s.
     Ok (r = None) s)"

definition create :: "uchar list \<Rightarrow> ushort \<Rightarrow> ushort \<Rightarrow> ushort \<Rightarrow> 'a constate_scheme \<Rightarrow>
    ('a constate_scheme, nat option) res" where
  "create path type major minor s =
     bindR (nameiparent path (replicate DIRSIZ 0) s) (\<lambda>(dp, name) s.
     case dp of
       None \<Rightarrow> Ok None s
     | Some dp \<Rightarrow>
         bindR (ilock (Some dp) s) (\<lambda>_ s.
         bindR (dirlookup dp name s) (\<lambda>r s.
         case r of
           Some (ip, _) \<Rightarrow>
             bindR (iunlockput dp s) (\<lambda>_ s.
             bindR (ilock (Some ip) s) (\<lambda>_ s.
               if type = T_FILE \<and> i_type (icache s ip) = T_FILE then Ok (Some ip) s
               else bindR (iunlockput ip s) (\<lambda>_ s. Ok None s)))
         | None \<Rightarrow>
             bindR (ialloc (i_dev (icache s dp)) type s) (\<lambda>ip s.
             bindR (ilock (Some ip) s) (\<lambda>_ s.
             bindR (iupdate ip (upd_inode ip (\<lambda>n. n\<lparr>i_major := major, i_minor := minor, i_nlink := 1\<rparr>) s)) (\<lambda>_ s.
             bindR (if type = T_DIR
               then bindR (iupdate dp (upd_inode dp (\<lambda>n. n\<lparr>i_nlink := i_nlink n + 1\<rparr>) s)) (\<lambda>_ s.
                    bindR (dirlink ip DOT (i_inum (icache s ip)) s) (\<lambda>r s.
                    if r < 0 then Panic ''create dots''
                    else bindR (dirlink ip DOTDOT (i_inum (icache s dp)) s) (\<lambda>r s.
                    if r < 0 then Panic ''create dots'' else Ok () s)))
               else Ok () s) (\<lambda>_ s.
             bindR (dirlink dp name (i_inum (icache s ip)) s) (\<lambda>r s.
             if r < 0 then Panic ''create: dirlink''
             else bindR (iunlockput dp s) (\<lambda>_ s. Ok (Some ip) s)))))))))"

text \<open>The body of \<open>sys_unlink\<close> after the argument was fetched; \<open>removeSwapFile\<close> repeats it.\<close>

definition unlink_bad :: "nat \<Rightarrow> 'a constate_scheme \<Rightarrow> ('a constate_scheme, int) res" where
  "unlink_bad dp s =
     bindR (iunlockput dp s) (\<lambda>_ s. bindR (end_op s) (\<lambda>_ s. Ok (- 1) s))"

definition unlink_path :: "uchar list \<Rightarrow> 'a constate_scheme \<Rightarrow> ('a constate_scheme, int) res" where
  "unlink_path path s =
     bindR (begin_op s) (\<lambda>_ s.
     bindR (nameiparent path (replicate DIRSIZ 0) s) (\<lambda>(dp, name) s.
     case dp of
       None \<Rightarrow> bindR (end_op s) (\<lambda>_ s. Ok (- 1) s)
     | Some dp \<Rightarrow>
         bindR (ilock (Some dp) s) (\<lambda>_ s.
         if namecmp name DOT = 0 \<or> namecmp name DOTDOT = 0 then unlink_bad dp s
         else bindR (dirlookup dp name s) (\<lambda>r s.
         case r of
           None \<Rightarrow> unlink_bad dp s
         | Some (ip, off) \<Rightarrow>
             bindR (ilock (Some ip) s) (\<lambda>_ s.
             if sint (i_nlink (icache s ip)) < 1 then Panic ''unlink: nlink < 1''
             else bindR (if i_type (icache s ip) = T_DIR then isdirempty ip s else Ok True s) (\<lambda>e s.
             if \<not> e then bindR (iunlockput ip s) (\<lambda>_ s. unlink_bad dp s)
             else bindR (writei dp (replicate 16 0) off s) (\<lambda>r s.
             if r \<noteq> 16 then Panic ''unlink: writei''
             else bindR (if i_type (icache s ip) = T_DIR
                  then iupdate dp (upd_inode dp (\<lambda>n. n\<lparr>i_nlink := i_nlink n - 1\<rparr>) s)
                  else Ok () s) (\<lambda>_ s.
             bindR (iunlockput dp s) (\<lambda>_ s.
             bindR (iupdate ip (upd_inode ip (\<lambda>n. n\<lparr>i_nlink := i_nlink n - 1\<rparr>) s)) (\<lambda>_ s.
             bindR (iunlockput ip s) (\<lambda>_ s.
             bindR (end_op s) (\<lambda>_ s. Ok 0 s))))))))))))"

section \<open>Swap files\<close>

definition O_RDONLY :: uint where "O_RDONLY = 0x000"
definition O_WRONLY :: uint where "O_WRONLY = 0x001"
definition O_RDWR :: uint where "O_RDWR = 0x002"
definition O_CREATE :: uint where "O_CREATE = 0x200"

definition removeSwapFile :: "nat \<Rightarrow> 'a filestate_scheme \<Rightarrow> ('a filestate_scheme, int) res" where
  "removeSwapFile p s =
     (case swap_path (pid (procs s p)) of
        None \<Rightarrow> Fault ''itoa''
      | Some path \<Rightarrow>
          (case swapFile (procs s p) of
             None \<Rightarrow> Ok (- 1) s
           | Some f \<Rightarrow> bindR (fileclose f s) (\<lambda>_ s. unlink_path path s)))"

definition createSwapFile :: "nat \<Rightarrow> 'a filestate_scheme \<Rightarrow> ('a filestate_scheme, int) res" where
  "createSwapFile p s =
     (case swap_path (pid (procs s p)) of
        None \<Rightarrow> Fault ''itoa''
      | Some path \<Rightarrow>
          bindR (begin_op s) (\<lambda>_ s.
          bindR (create path T_FILE 0 0 s) (\<lambda>ip s.
          bindR (iunlock ip s) (\<lambda>_ s.
          bindR (filealloc s) (\<lambda>f s.
          let s = upd_proc p (\<lambda>q. q\<lparr>swapFile := f\<rparr>) s
          in case f of
               None \<Rightarrow> Panic ''no slot for files on /store''
             | Some f \<Rightarrow>
                 bindR (end_op (upd_file f (\<lambda>x. x\<lparr>f_ip := ip, f_type := FD_INODE, f_off := 0,
                   readable := ucast O_WRONLY, writable := ucast O_RDWR\<rparr>) s)) (\<lambda>_ s. Ok 0 s))))))"

text \<open>The kernel buffer is given by the bytes read from or written to it.\<close>

definition writeToSwapFile :: "nat \<Rightarrow> uchar list \<Rightarrow> uint \<Rightarrow> 'a filestate_scheme \<Rightarrow> ('a filestate_scheme, int) res" where
  "writeToSwapFile p src place s =
     (case swapFile (procs s p) of
        None \<Rightarrow> Fault ''swapFile''
      | Some f \<Rightarrow> filewrite f src (int (length src)) (upd_file f (\<lambda>x. x\<lparr>f_off := place\<rparr>) s))"

definition readFromSwapFile :: "nat \<Rightarrow> uint \<Rightarrow> uint \<Rightarrow> 'a filestate_scheme \<Rightarrow>
    ('a filestate_scheme, int \<times> uchar list) res" where
  "readFromSwapFile p place n s =
     (case swapFile (procs s p) of
        None \<Rightarrow> Fault ''swapFile''
      | Some f \<Rightarrow> fileread f (sint n) (upd_file f (\<lambda>x. x\<lparr>f_off := place\<rparr>) s))"

section \<open>Names of swap files\<close>

fun numeral_of :: "nat \<Rightarrow> uchar list" where
  "numeral_of n = (if n < 10 then [of_nat (48 + n)] else numeral_of (n div 10) @ [of_nat (48 + n mod 10)])"

declare numeral_of.simps [simp del]

definition numeral_val :: "uchar list \<Rightarrow> nat" where
  "numeral_val xs = foldl (\<lambda>v c. 10 * v + (unat c - 48)) 0 xs"

lemma unat_digit: "d < 10 \<Longrightarrow> unat (of_nat (48 + d) :: uchar) = 48 + d"
  by (simp add: unat_of_nat del: of_nat_add)

lemma numeral_of_props:
  "length (numeral_of n) = itoa_len n" "numeral_val (numeral_of n) = n" "c \<in> set (numeral_of n) \<Longrightarrow> c \<noteq> 0"
proof (induction n rule: numeral_of.induct)
  case (1 n)
  have d: "(of_nat (48 + d) :: uchar) \<noteq> 0" if "d < 10" for d
    using unat_digit [OF that] by (metis add_is_0 unat_0 zero_neq_numeral)
  {
    case 1
    then show ?case using "1.IH" by (subst numeral_of.simps, subst itoa_len.simps) simp
  next
    case 2
    show ?case
    proof (cases "n < 10")
      case True
      then show ?thesis using unat_digit [OF True] by (subst numeral_of.simps) (simp add: numeral_val_def del: of_nat_add)
    next
      case False
      have "unat (of_nat (48 + n mod 10) :: uchar) = 48 + n mod 10" by (rule unat_digit) simp
      then show ?thesis using "1.IH"(2) [OF False] False
        by (subst numeral_of.simps) (simp add: numeral_val_def del: of_nat_add)
    qed
  next
    case 3
    then show ?case using "1.IH"(3) d [of n] d [of "n mod 10"]
      by (subst (asm) numeral_of.simps) (auto split: if_splits simp del: of_nat_add)
  }
qed

lemma itoa_fill_eq:
  "itoa_len n \<le> p \<Longrightarrow> p \<le> length b \<Longrightarrow> itoa_fill p n b = take (p - itoa_len n) b @ numeral_of n @ drop p b"
proof (induction p n b rule: itoa_fill.induct)
  case (1 p n b)
  let ?c = "of_nat (48 + n mod 10) :: uchar"
  have p: "1 \<le> p" using 1(2) by (subst (asm) itoa_len.simps) (simp split: if_splits)
  have b: "b[p - 1 := ?c] = take (p - 1) b @ ?c # drop p b"
    using p 1(3) by (simp add: upd_conv_take_nth_drop)
  show ?case
  proof (cases "n < 10")
    case True
    then show ?thesis using b p by (simp add: itoa_fill.simps [of p] itoa_len.simps [of n] numeral_of.simps [of n])
  next
    case False
    have len: "itoa_len n = Suc (itoa_len (n div 10))" using False by (simp add: itoa_len.simps [of n])
    have "itoa_fill p n b = itoa_fill (p - 1) (n div 10) (b[p - 1 := ?c])"
      using False by (subst itoa_fill.simps) (simp add: Let_def)
    also have "\<dots> = take (p - 1 - itoa_len (n div 10)) (b[p - 1 := ?c]) @ numeral_of (n div 10) @ drop (p - 1) (b[p - 1 := ?c])"
      using False 1(2,3) p len by (intro "1.IH") auto
    also have "\<dots> = take (p - itoa_len n) b @ numeral_of n @ drop p b"
    proof -
      have "length (take (p - 1) b) = p - 1" "p - Suc (itoa_len (n div 10)) \<le> p - 1" using 1(3) p by auto
      then show ?thesis using False len p
        unfolding b numeral_of.simps [of n] by (simp add: min_def take_Cons')
    qed
    finally show ?thesis .
  qed
qed

lemma itoa_len_le: "1 \<le> k \<Longrightarrow> itoa_len n \<le> k \<longleftrightarrow> n < 10 ^ k"
proof (induction k arbitrary: n)
  case (Suc k)
  have p: "1 \<le> itoa_len m" for m by (subst itoa_len.simps) simp
  show ?case
  proof (cases "k = 0")
    case True
    then show ?thesis using p [of "n div 10"] by (subst itoa_len.simps) auto
  next
    case False
    then have "itoa_len (n div 10) \<le> k \<longleftrightarrow> n div 10 < 10 ^ k" by (intro Suc.IH) simp
    moreover have "n div 10 < 10 ^ k \<longleftrightarrow> n < 10 ^ Suc k" by (simp add: div_less_iff_less_mult mult.commute)
    moreover have "n < 10 ^ Suc k" if "n < 10"
    proof -
      have "(1 :: nat) \<le> 10 ^ k" by simp
      then show ?thesis using that unfolding power_Suc by linarith
    qed
    ultimately show ?thesis by (subst itoa_len.simps) auto
  qed
qed simp

section \<open>Properties\<close>

text \<open>
  (C39) Names of swap files: for a pid of at most seven digits the path is \<open>/.swap\<close> followed by the
  decimal numeral of the pid, from which the pid can be read back, so different processes swap to
  different files; for a larger pid the numeral does not fit in the buffer of 14 bytes.
\<close>

theorem swap_path_decodes:
  assumes "0 \<le> n"
  shows "case swap_path n of
      None \<Rightarrow> 10 ^ 7 \<le> n
    | Some path \<Rightarrow> n < 10 ^ 7 \<and> path = str ''/.swap'' @ drop 6 path \<and> int (numeral_val (drop 6 path)) = n"
proof -
  let ?n = "nat n"
  have w: "itoa_len ?n \<le> 7 \<longleftrightarrow> n < 10 ^ 7" using itoa_len_le [of 7 ?n] assms by auto
  show ?thesis
  proof (cases "itoa_len ?n \<le> 7")
    case False
    then have "itoa n (replicate (DIGITS - 6) 0) = None" using assms by (simp add: itoa_def DIGITS_def Let_def)
    then show ?thesis using False w by (simp add: swap_path_def)
  next
    case True
    let ?b = "replicate 8 0 :: uchar list"
    have up: "?b[itoa_len ?n := 0] = ?b" by (rule list_update_same_conv [THEN iffD2]) (use True in auto)
    have "n < 10 ^ 7" using True w by blast
    then have "itoa n (replicate (DIGITS - 6) 0) = Some (itoa_fill (itoa_len ?n) ?n ?b)"
      using True assms up by (simp add: itoa_def DIGITS_def Let_def)
    also have "itoa_fill (itoa_len ?n) ?n ?b = numeral_of ?n @ replicate (8 - itoa_len ?n) 0"
      using True by (subst itoa_fill_eq) auto
    finally have "itoa n (replicate (DIGITS - 6) 0) = Some (numeral_of ?n @ replicate (8 - itoa_len ?n) 0)" .
    moreover have "takeWhile (\<lambda>c. c \<noteq> 0) (numeral_of ?n @ replicate (8 - itoa_len ?n) 0) = numeral_of ?n"
      using True numeral_of_props(3) [of _ ?n] by (subst takeWhile_append2) auto
    ultimately have "swap_path n = Some (str ''/.swap'' @ numeral_of ?n)" by (simp add: swap_path_def)
    moreover have "length (str ''/.swap'') = 6" by (simp add: str_def)
    ultimately show ?thesis using \<open>n < 10 ^ 7\<close> numeral_of_props(2) [of ?n] assms by simp
  qed
qed

theorem swap_path_decodes_witness:
  "(case swap_path 1234567 of None \<Rightarrow> False | Some path \<Rightarrow> numeral_val (drop 6 path) = 1234567) \<and>
   swap_path 10000000 = None"
  using swap_path_decodes [of 1234567] swap_path_decodes [of 10000000] by (auto split: option.splits)

end
