(* ===== verification/Vm.thy ===== *)
theory Vm
  imports Swapfile
begin

text \<open>
  The part of \<open>vm.c\<close> that uses the file system: loading a program segment and growing a process,
  which for a process with pid above 2 keeps at most 15 pages in memory and writes the oldest one to
  the swap file to make room.
\<close>

section \<open>Loading\<close>

text \<open>\<open>for(i = 0; i < len; i += PGSIZE)\<close>.\<close>

definition page_offs :: "uint \<Rightarrow> uint list" where
  "page_offs len = map (\<lambda>k. of_nat k * PGSIZE) [0..<(unat len + 4095) div 4096]"

definition loaduvm :: "uint \<Rightarrow> uint \<Rightarrow> nat \<Rightarrow> uint \<Rightarrow> uint \<Rightarrow> 'a filestate_scheme \<Rightarrow>
    ('a filestate_scheme, int) res" where
  "loaduvm pd addr ip offset nsz s =
     (if addr mod PGSIZE \<noteq> 0 then Panic ''loaduvm: addr must be page aligned''
      else bindR (findR (page_offs nsz) (\<lambda>i s.
        bindR (walkpgdir pd (addr + i) False s) (\<lambda>pte s.
          if pte = 0 then Panic ''loaduvm: address should exist''
          else let pa = PTE_ADDR (load32 (mem s) pte);
                   n = (if nsz - i < PGSIZE then nsz - i else PGSIZE)
               in bindR (readi ip (offset + i) n s) (\<lambda>(r, bs) s.
                  let s = s\<lparr>mem := put_bytes (P2V pa) bs (mem s)\<rparr>
                  in Ok (if word_of_int r \<noteq> n then Some () else None) s))) s) (\<lambda>r s.
        Ok (if r = None then 0 else - 1) s))"

section \<open>Making room\<close>

text \<open>An operation on the paging data of one process.\<close>

definition on_proc :: "nat \<Rightarrow> (proc \<Rightarrow> (proc, 'b) res) \<Rightarrow> 'a pstate_scheme \<Rightarrow> ('a pstate_scheme, 'b) res" where
  "on_proc p f s =
     (case f (procs s p) of
        Ok a q \<Rightarrow> Ok a (upd_proc p (\<lambda>_. q) s)
      | Panic m \<Rightarrow> Panic m
      | Fault m \<Rightarrow> Fault m
      | Swtch q \<Rightarrow> Swtch (upd_proc p (\<lambda>_. q) s)
      | NoReturn q \<Rightarrow> NoReturn (upd_proc p (\<lambda>_. q) s))"

text \<open>\<open>meta_list_last++\<close> and the entry for a page that went to the swap file.\<close>

definition append_meta :: "uint \<Rightarrow> uint \<Rightarrow> proc \<Rightarrow> (proc, unit) res" where
  "append_meta va off p =
     (let i = meta_list_last p + 1
      in if in_page_list i
         then Ok () (p\<lparr>meta_list_last := i,
                meta_list := (meta_list p)[nat i := \<lparr>meta_va = va, file_start_idx = off\<rparr>]\<rparr>)
         else Fault ''meta_list'')"

text \<open>
  Writing the page mapped by the entry at \<open>pte\<close> to the swap file; then noting where it is, marking the
  entry as paged out and freeing the page. \<open>bump\<close> is what the end of the swap file moves by.
\<close>

definition swap_entry :: "uint \<Rightarrow> uint" where
  "swap_entry e = e AND NOT PTE_P OR PTE_PG"

definition evict_write :: "nat \<Rightarrow> uint \<Rightarrow> uint \<Rightarrow> 'a filestate_scheme \<Rightarrow> ('a filestate_scheme, uint) res" where
  "evict_write p pte off s =
     (if pte = 0 then Fault ''pte''
      else let pa = PTE_ADDR (load32 (mem s) pte)
           in bindR (writeToSwapFile p (get_bytes (mem s) (P2V pa) 4096) off s) (\<lambda>_ s. Ok pa s))"

definition evict_mark :: "nat \<Rightarrow> uint \<Rightarrow> uint \<Rightarrow> uint \<Rightarrow> uint \<Rightarrow> uint \<Rightarrow> 'a kmem_scheme \<Rightarrow> ('a kmem_scheme, unit) res" where
  "evict_mark p va pte pa off bump s =
     bindR (on_proc p (append_meta va off) s) (\<lambda>_ s.
       let s = upd_proc p (\<lambda>q. q\<lparr>file_offset := file_offset q + bump\<rparr>) s
       in kfree (P2V pa) (s\<lparr>mem := store32 pte (swap_entry (load32 (mem s) pte)) (mem s)\<rparr>))"

text \<open>Accounting for a page just mapped at \<open>a\<close> by the running process.\<close>

definition track_page :: "uint \<Rightarrow> uint \<Rightarrow> 'a filestate_scheme \<Rightarrow> ('a filestate_scheme, unit) res" where
  "track_page pd a s =
     bindR (myproc s) (\<lambda>p s.
       if \<not> 2 < pid (procs s p) then Ok () s
       else if \<not> page_list_full (procs s p) then on_proc p (append_page (PGROUNDDOWN a)) s
       else bindR (on_proc p get_va_to_replaced s) (\<lambda>va s.
            bindR (walkpgdir pd (PGROUNDDOWN va) False s) (\<lambda>pte s.
            let off = file_offset (procs s p)
            in bindR (evict_write p pte off s) (\<lambda>pa s.
               bindR (evict_mark p va pte pa off PGSIZE s) (\<lambda>_ s.
               on_proc p (append_page (PGROUNDDOWN a)) s)))))"

definition allocuvm_page :: "uint \<Rightarrow> uint \<Rightarrow> uint \<Rightarrow> uint \<Rightarrow> 'a filestate_scheme \<Rightarrow>
    ('a filestate_scheme, uint option) res" where
  "allocuvm_page pd oldsz newsz a s =
     bindR (kalloc s) (\<lambda>m s.
       if m = 0
       then bindR (kprint (''allocuvm out of memory'' @ nl) [] s) (\<lambda>_ s.
            bindR (deallocuvm pd newsz oldsz s) (\<lambda>_ s. Ok (Some 0) s))
       else bindR (mappages pd a PGSIZE (V2P m) (PTE_W OR PTE_U) (s\<lparr>mem := memset m 0 PGSIZE (mem s)\<rparr>)) (\<lambda>r s.
            if r < 0
            then bindR (kprint (''allocuvm out of memory (2)'' @ nl) [] s) (\<lambda>_ s.
                 bindR (deallocuvm pd newsz oldsz s) (\<lambda>_ s.
                 bindR (kfree m s) (\<lambda>_ s. Ok (Some 0) s)))
            else bindR (track_page pd a s) (\<lambda>_ s. Ok None s)))"

definition allocuvm :: "uint \<Rightarrow> uint \<Rightarrow> uint \<Rightarrow> 'a filestate_scheme \<Rightarrow> ('a filestate_scheme, uint) res" where
  "allocuvm pd oldsz newsz s =
     (if KERNBASE \<le> newsz then Ok 0 s
      else if newsz < oldsz then Ok oldsz s
      else let a = PGROUNDUP oldsz
           in bindR (findR (if a < newsz then map (\<lambda>i. a + i) (page_offs (newsz - a)) else [])
                      (allocuvm_page pd oldsz newsz) s) (\<lambda>r s.
              Ok (case r of Some v \<Rightarrow> v | None \<Rightarrow> newsz) s))"

end
