(* ===== verification/Proc.thy ===== *)
theory Proc
  imports Vm
begin

text \<open>
  Processes: creation, growth, \<open>fork\<close>, \<open>exit\<close>, \<open>wait\<close>, \<open>kill\<close>, the scheduler, and the page-fault
  handler that swaps a page in (\<open>proc.c\<close>). \<open>allocproc\<close> leaves the trap frame as the stack page
  happens to hold it; the model keeps the old one, and both callers overwrite it.
\<close>

section \<open>State\<close>

record kstate = filestate +
  forkret_first :: bool

definition V_PID :: int where "V_PID = 2"

definition not_shellint :: "int \<Rightarrow> int \<Rightarrow> bool" where
  "not_shellint n lim \<longleftrightarrow> lim < n"

section \<open>Swapping in\<close>

definition FifoAlgo_TRAP :: "proc \<Rightarrow> (proc, uint) res" where
  "FifoAlgo_TRAP p =
     (let va = page_list p ! 0
      in if 0 < page_list_last p \<and> \<not> in_page_list (page_list_last p) then Fault ''page_list''
         else Ok va (p\<lparr>page_list := shift_left 0 (nat (page_list_last p)) (page_list p),
                       page_list_last := page_list_last p - 1\<rparr>))"

definition get_va_to_replace_trap :: "proc \<Rightarrow> (proc, uint) res" where
  "get_va_to_replace_trap p = FifoAlgo_TRAP p"

definition remove_meta :: "nat \<Rightarrow> proc \<Rightarrow> (proc, unit) res" where
  "remove_meta idx p =
     (if int idx < meta_list_last p \<and> \<not> in_page_list (meta_list_last p) then Fault ''meta_list''
      else Ok () (p\<lparr>meta_list := shift_left idx (nat (meta_list_last p)) (meta_list p),
                    meta_list_last := meta_list_last p - 1\<rparr>))"

definition printCurrentPageList :: "nat \<Rightarrow> 'a constate_scheme \<Rightarrow> ('a constate_scheme, unit) res" where
  "printCurrentPageList p s =
     bindR (kprint (nl @ ''============Page List(%d)=============='' @ nl) [AInt (word_of_int (pid (procs s p)))] s) (\<lambda>_ s.
     bindR (forR [0..<nat (page_list_last (procs s p) + 1)] (\<lambda>i s.
       kprint (''index: %d, va: %d'' @ nl) [AInt (of_nat i), AInt (page_list (procs s p) ! i)] s) s) (\<lambda>_ s.
     kprint (nl @ ''==================================='' @ nl) [] s))"

definition printCurrentFileList :: "nat \<Rightarrow> 'a constate_scheme \<Rightarrow> ('a constate_scheme, unit) res" where
  "printCurrentFileList p s =
     bindR (kprint (nl @ ''============File/Meta List(%d)=============='' @ nl) [AInt (word_of_int (pid (procs s p)))] s) (\<lambda>_ s.
     bindR (forR [0..<nat (meta_list_last (procs s p) + 1)] (\<lambda>i s.
       kprint (''file offset: %d, va: %d'' @ nl)
         [AInt (file_start_idx (meta_list (procs s p) ! i)), AInt (meta_va (meta_list (procs s p) ! i))] s) s) (\<lambda>_ s.
     kprint (nl @ ''==================================='' @ nl) [] s))"

text \<open>The page at \<open>va\<close> comes back from its place in the swap file, and the victim takes that place.\<close>

definition fetch_page :: "nat \<Rightarrow> uint \<Rightarrow> nat \<Rightarrow> uint \<Rightarrow> 'a filestate_scheme \<Rightarrow> ('a filestate_scheme, unit) res" where
  "fetch_page p va i off s =
     (let n = pid (procs s p)
      in bindR (kprint (''[%d] va: %d found in file with offset: %d'' @ nl)
             [AInt (word_of_int n), AInt va, AInt off] s) (\<lambda>_ s.
         bindR (kalloc s) (\<lambda>m s.
         if m = 0 then Fault ''memset''
         else bindR (readFromSwapFile p off PGSIZE (s\<lparr>mem := memset m 0 PGSIZE (mem s)\<rparr>)) (\<lambda>(_, bs) s.
         bindR (on_proc p (remove_meta i) (s\<lparr>mem := put_bytes m bs (mem s)\<rparr>)) (\<lambda>_ s.
         bindR (mappages (pgdir (procs s p)) va PGSIZE (V2P m) (PTE_W OR PTE_U) s) (\<lambda>_ s.
         kprint (''[%d] va: %d read and mapped to pa: %d'' @ nl)
             [AInt (word_of_int n), AInt va, AInt (V2P m)] s))))))"

definition evict_victim :: "nat \<Rightarrow> uint \<Rightarrow> uint \<Rightarrow> 'a filestate_scheme \<Rightarrow> ('a filestate_scheme, unit) res" where
  "evict_victim p va off s =
     (let n = pid (procs s p)
      in bindR (on_proc p get_va_to_replace_trap s) (\<lambda>victim s.
         bindR (walkpgdir (pgdir (procs s p)) victim True s) (\<lambda>pte s.
         bindR (evict_write p pte off s) (\<lambda>pa s.
         bindR (kprint (''[%d] va_to_be_swapped: %d is written to file_offset: %d'' @ nl)
             [AInt (word_of_int n), AInt victim, AInt off] s) (\<lambda>_ s.
         bindR (evict_mark p victim pte pa off 0 s) (\<lambda>_ s.
         bindR (kprint (''[%d] va_to_be_swapped: %d kfree using address: %d'' @ nl)
             [AInt (word_of_int n), AInt victim, AInt (P2V pa)] s) (\<lambda>_ s.
         bindR (on_proc p (append_page va) s) (\<lambda>_ s.
         kprint (''[%d] va: %d stored in page_list at index: %d'' @ nl @ nl)
             [AInt (word_of_int n), AInt va, AInt (word_of_int (page_list_last (procs s p)))] s))))))))"

definition swap_in :: "nat \<Rightarrow> uint \<Rightarrow> nat \<Rightarrow> 'a filestate_scheme \<Rightarrow> ('a filestate_scheme, unit) res" where
  "swap_in p va i s =
     (let off = file_start_idx (meta_list (procs s p) ! i)
      in bindR (fetch_page p va i off s) (\<lambda>_ s. evict_victim p va off s))"

definition do_the_swap :: "nat \<Rightarrow> uint \<Rightarrow> 'a filestate_scheme \<Rightarrow> ('a filestate_scheme, int) res" where
  "do_the_swap p va s =
     (let va = PTE_ADDR va
      in bindR (kprint (nl @ ''FAULT!!! PID->%d'' @ tab @ ''wants va->%d'' @ nl)
             [AInt (word_of_int (pid (procs s p))), AInt va] s) (\<lambda>_ s.
         bindR (printCurrentPageList p s) (\<lambda>_ s.
         bindR (printCurrentFileList p s) (\<lambda>_ s.
         case find (\<lambda>i. meta_va (meta_list (procs s p) ! i) = va) [0..<nat (meta_list_last (procs s p) + 1)] of
           None \<Rightarrow> Ok 0 s
         | Some i \<Rightarrow> bindR (swap_in p va i s) (\<lambda>_ s. Ok 1 s)))))"

section \<open>Creation\<close>

definition allocproc :: "'a filestate_scheme \<Rightarrow> ('a filestate_scheme, nat option) res" where
  "allocproc s =
     bindR (acquire_lk Lptable s) (\<lambda>_ s.
       case find (\<lambda>p. state (procs s p) = UNUSED) [0..<NPROC] of
         None \<Rightarrow> bindR (release_lk Lptable s) (\<lambda>_ s. Ok None s)
       | Some p \<Rightarrow>
           let s = upd_proc p (\<lambda>q. q\<lparr>state := EMBRYO, pid := nextpid s\<rparr>) s;
               s = s\<lparr>nextpid := nextpid s + 1\<rparr>
           in bindR (release_lk Lptable s) (\<lambda>_ s.
              bindR (kalloc s) (\<lambda>k s.
              let s = upd_proc p (\<lambda>q. q\<lparr>kstack := k\<rparr>) s
              in if k = 0 then Ok None (upd_proc p (\<lambda>q. q\<lparr>state := UNUSED\<rparr>) s)
                 else let s = upd_proc p (\<lambda>q. q\<lparr>ctx := AtForkret\<rparr>) s
                      in if not_shellint (pid (procs s p)) V_PID
                         then bindR (createSwapFile p s) (\<lambda>_ s.
                              Ok (Some p) (upd_proc p (\<lambda>q. q\<lparr>page_list_last := - 1, meta_list_last := - 1,
                                file_offset := 0\<rparr>) s))
                         else Ok (Some p) s)))"

definition SEG_UCODE :: ushort where "SEG_UCODE = 3"
definition SEG_UDATA :: ushort where "SEG_UDATA = 4"
definition DPL_USER :: ushort where "DPL_USER = 3"
definition FL_IF :: uint where "FL_IF = 0x200"

text \<open>\<open>initcode\<close> is the program linked into the kernel.\<close>

definition userinit :: "uchar list \<Rightarrow> 'a filestate_scheme \<Rightarrow> ('a filestate_scheme, unit) res" where
  "userinit initcode s =
     bindR (allocproc s) (\<lambda>r s.
     case r of
       None \<Rightarrow> Fault ''userinit''
     | Some p \<Rightarrow>
         bindR (setupkvm (s\<lparr>initproc := p\<rparr>)) (\<lambda>pd s.
         let s = upd_proc p (\<lambda>q. q\<lparr>pgdir := pd\<rparr>) s
         in if pd = 0 then Panic ''userinit: out of memory?''
            else bindR (inituvm pd initcode s) (\<lambda>_ s.
              let ud = push_bit 3 SEG_UDATA OR DPL_USER;
                  s = upd_proc p (\<lambda>q. q\<lparr>sz := PGSIZE, tf := zero_tf\<lparr>cs := push_bit 3 SEG_UCODE OR DPL_USER,
                        ds := ud, es := ud, ss := ud, eflags := FL_IF, esp := PGSIZE, eip := 0\<rparr>,
                        pname := splice 0 (safestrcpy (\<lambda>i. (str ''initcode'' @ [0]) ! i) 16) (pname q)\<rparr>) s
              in bindR (namei [SLASH] s) (\<lambda>i s.
                 bindR (acquire_lk Lptable (upd_proc p (\<lambda>q. q\<lparr>cwd := i\<rparr>) s)) (\<lambda>_ s.
                 release_lk Lptable (upd_proc p (\<lambda>q. q\<lparr>state := RUNNABLE\<rparr>) s))))))"

definition growproc :: "int \<Rightarrow> 'a filestate_scheme \<Rightarrow> ('a filestate_scheme, int) res" where
  "growproc n s =
     bindR (myproc s) (\<lambda>p s.
     let nsz = sz (procs s p); pd = pgdir (procs s p)
     in bindR (if 0 < n then allocuvm pd nsz (nsz + word_of_int n) s
               else if n < 0 then deallocuvm pd nsz (nsz + word_of_int n) s
               else Ok nsz s) (\<lambda>r s.
        if n \<noteq> 0 \<and> r = 0 then Ok (- 1) s
        else bindR (switchuvm (Some p) (upd_proc p (\<lambda>q. q\<lparr>sz := r\<rparr>) s)) (\<lambda>_ s. Ok 0 s)))"

section \<open>Fork\<close>

text \<open>
  The paging data of the parent, and the contents of its swapped pages by way of one buffer page
  each. The buffer pages are not freed.
\<close>

definition copy_page_data :: "nat \<Rightarrow> nat \<Rightarrow> 'a filestate_scheme \<Rightarrow> ('a filestate_scheme, unit) res" where
  "copy_page_data op np s =
     (let o1 = procs s op
      in if int MAX_PSYCH_PAGES \<le> page_list_last o1 \<or> int MAX_PSYCH_PAGES \<le> meta_list_last o1 then Fault ''page_list''
         else let s = upd_proc np (\<lambda>q. q\<lparr>page_list_last := page_list_last o1,
                        page_list := splice 0 (take (nat (page_list_last o1 + 1)) (page_list o1)) (page_list q),
                        meta_list_last := meta_list_last o1, file_offset := file_offset o1\<rparr>) s
              in forR [0..<nat (meta_list_last o1 + 1)] (\<lambda>i s.
                   let e = meta_list (procs s op) ! i;
                       s = upd_proc np (\<lambda>q. q\<lparr>meta_list := (meta_list q)[i := e]\<rparr>) s
                   in bindR (kalloc s) (\<lambda>m s.
                      if m = 0 then Fault ''memset''
                      else bindR (readFromSwapFile op (file_start_idx e) PGSIZE
                             (s\<lparr>mem := memset m 0 PGSIZE (mem s)\<rparr>)) (\<lambda>(_, bs) s.
                           let s = s\<lparr>mem := put_bytes m bs (mem s)\<rparr>
                           in bindR (writeToSwapFile np (get_bytes (mem s) m 4096) (file_start_idx e) s) (\<lambda>_ s.
                              Ok () s)))) s)"

definition fork :: "'a filestate_scheme \<Rightarrow> ('a filestate_scheme, int) res" where
  "fork s =
     bindR (myproc s) (\<lambda>c s.
     bindR (allocproc s) (\<lambda>r s.
     case r of
       None \<Rightarrow> Ok (- 1) s
     | Some np \<Rightarrow>
         bindR (copyuvm (pgdir (procs s c)) (sz (procs s c)) s) (\<lambda>pd s.
         let s = upd_proc np (\<lambda>q. q\<lparr>pgdir := pd\<rparr>) s
         in if pd = 0
            then bindR (kfree (kstack (procs s np)) s) (\<lambda>_ s.
                 Ok (- 1) (upd_proc np (\<lambda>q. q\<lparr>kstack := 0, state := UNUSED\<rparr>) s))
            else let s = upd_proc np (\<lambda>q. q\<lparr>sz := sz (procs s c), parent := Some c,
                           tf := (tf (procs s c))\<lparr>eax := 0\<rparr>\<rparr>) s
                 in bindR (forR [0..<NOFILE] (\<lambda>i s.
                      case ofile (procs s c) ! i of
                        None \<Rightarrow> Ok () s
                      | Some f \<Rightarrow> bindR (filedup f s) (\<lambda>f s.
                          Ok () (upd_proc np (\<lambda>q. q\<lparr>ofile := (ofile q)[i := Some f]\<rparr>) s))) s) (\<lambda>_ s.
                    bindR (case cwd (procs s c) of None \<Rightarrow> Fault ''idup'' | Some i \<Rightarrow> idup i s) (\<lambda>i s.
                    let s = upd_proc np (\<lambda>q. q\<lparr>cwd := Some i,
                              pname := splice 0 (safestrcpy (\<lambda>j. pname (procs s c) ! j) 16) (pname q)\<rparr>) s;
                        n = pid (procs s np)
                    in bindR (if 2 < pid (procs s c)
                         then bindR (kprint (''fork:'' @ tab @ ''copying page data init!'' @ nl) [] s) (\<lambda>_ s.
                              copy_page_data c np s)
                         else Ok () s) (\<lambda>_ s.
                       bindR (acquire_lk Lptable s) (\<lambda>_ s.
                       bindR (release_lk Lptable (upd_proc np (\<lambda>q. q\<lparr>state := RUNNABLE\<rparr>) s)) (\<lambda>_ s.
                       Ok n s))))))))"

section \<open>Exit and wait\<close>

definition close_all :: "nat \<Rightarrow> 'a filestate_scheme \<Rightarrow> ('a filestate_scheme, unit) res" where
  "close_all c s =
     forR [0..<NOFILE] (\<lambda>fd s.
       case ofile (procs s c) ! fd of
         None \<Rightarrow> Ok () s
       | Some f \<Rightarrow> bindR (fileclose f s) (\<lambda>_ s. Ok () (upd_proc c (\<lambda>q. q\<lparr>ofile := (ofile q)[fd := None]\<rparr>) s))) s"

text \<open>Abandoned children go to \<open>init\<close>, which is woken for those that are zombies.\<close>

definition reparent :: "nat \<Rightarrow> nat \<Rightarrow> 'a pstate_scheme \<Rightarrow> 'a pstate_scheme" where
  "reparent c i s =
     (if parent (procs s i) = Some c
      then let s = upd_proc i (\<lambda>q. q\<lparr>parent := Some (initproc s)\<rparr>) s
           in if state (procs s i) = ZOMBIE then wakeup1 (ChProc (initproc s)) s else s
      else s)"

definition exit :: "'a filestate_scheme \<Rightarrow> ('a filestate_scheme, 'b) res" where
  "exit s =
     bindR (myproc s) (\<lambda>c s.
     if c = initproc s then Panic ''init exiting''
     else bindR (close_all c s) (\<lambda>_ s.
     bindR (if not_shellint (pid (procs s c)) V_PID then removeSwapFile c s else Ok 0 s) (\<lambda>_ s.
     bindR (begin_op s) (\<lambda>_ s.
     bindR (case cwd (procs s c) of None \<Rightarrow> Fault ''iput'' | Some i \<Rightarrow> iput i s) (\<lambda>_ s.
     bindR (end_op s) (\<lambda>_ s.
     bindR (acquire_lk Lptable (upd_proc c (\<lambda>q. q\<lparr>cwd := None\<rparr>) s)) (\<lambda>_ s.
     let s = (case parent (procs s c) of Some p \<Rightarrow> wakeup1 (ChProc p) s | None \<Rightarrow> s);
         s = fold (reparent c) [0..<NPROC] s
     in sched (upd_proc c (\<lambda>q. q\<lparr>state := ZOMBIE\<rparr>) s))))))))"

text \<open>
  One scan of \<open>wait\<close>, with \<open>ptable.lock\<close> held: it frees the first zombie child, fails when there is
  nothing to wait for, or sleeps; \<open>wait_resume\<close> scans again after the wakeup.
\<close>

definition wait_scan :: "'a kmem_scheme \<Rightarrow> ('a kmem_scheme, int) res" where
  "wait_scan s =
     bindR (myproc s) (\<lambda>c s.
     case find (\<lambda>i. parent (procs s i) = Some c \<and> state (procs s i) = ZOMBIE) [0..<NPROC] of
       Some i \<Rightarrow>
         let n = pid (procs s i)
         in bindR (kfree (kstack (procs s i)) s) (\<lambda>_ s.
            bindR (freevm (pgdir (procs s i)) (upd_proc i (\<lambda>q. q\<lparr>kstack := 0\<rparr>) s)) (\<lambda>_ s.
            bindR (release_lk Lptable (upd_proc i (\<lambda>q. q\<lparr>pid := 0, parent := None,
              pname := (pname q)[0 := 0], killed := False, state := UNUSED\<rparr>) s)) (\<lambda>_ s. Ok n s)))
     | None \<Rightarrow>
         if (\<forall>i \<in> set [0..<NPROC]. parent (procs s i) \<noteq> Some c) \<or> killed (procs s c)
         then bindR (release_lk Lptable s) (\<lambda>_ s. Ok (- 1) s)
         else sleep (ChProc c) Lptable s)"

definition wait :: "'a kmem_scheme \<Rightarrow> ('a kmem_scheme, int) res" where
  "wait s = bindR (acquire_lk Lptable s) (\<lambda>_ s. wait_scan s)"

definition wait_resume :: "'a kmem_scheme \<Rightarrow> ('a kmem_scheme, int) res" where
  "wait_resume s = bindR (sleep_resume Lptable s) (\<lambda>_ s. wait_scan s)"

definition kill :: "int \<Rightarrow> 'a pstate_scheme \<Rightarrow> ('a pstate_scheme, int) res" where
  "kill n s =
     bindR (acquire_lk Lptable s) (\<lambda>_ s.
       case find (\<lambda>i. pid (procs s i) = n) [0..<NPROC] of
         Some i \<Rightarrow>
           bindR (release_lk Lptable (upd_proc i (\<lambda>q. q\<lparr>killed := True,
             state := (if state q = SLEEPING then RUNNABLE else state q)\<rparr>) s)) (\<lambda>_ s. Ok 0 s)
       | None \<Rightarrow> bindR (release_lk Lptable s) (\<lambda>_ s. Ok (- 1) s))"

section \<open>The scheduler\<close>

text \<open>
  \<open>scheduler_from k\<close> is the inner loop from index \<open>k\<close> on, up to the switch to a process (the
  result) or the end of the round (\<open>None\<close>). The process comes back through \<open>scheduler_back\<close>.
\<close>

definition scheduler_from :: "nat \<Rightarrow> 'a vmstate_scheme \<Rightarrow> ('a vmstate_scheme, nat option) res" where
  "scheduler_from k s =
     (case find (\<lambda>i. state (procs s i) = RUNNABLE) [k..<NPROC] of
        Some p \<Rightarrow>
          bindR (switchuvm (Some p) (s\<lparr>cur := Some p\<rparr>)) (\<lambda>_ s.
            Ok (Some p) (upd_proc p (\<lambda>q. q\<lparr>state := RUNNING\<rparr>) s))
      | None \<Rightarrow> bindR (release_lk Lptable s) (\<lambda>_ s. Ok None s))"

definition scheduler_round :: "'a vmstate_scheme \<Rightarrow> ('a vmstate_scheme, nat option) res" where
  "scheduler_round s = bindR (acquire_lk Lptable s) (\<lambda>_ s. scheduler_from 0 s)"

definition scheduler_back :: "nat \<Rightarrow> 'a vmstate_scheme \<Rightarrow> ('a vmstate_scheme, nat option) res" where
  "scheduler_back p s = scheduler_from (Suc p) ((switchkvm s)\<lparr>cur := None\<rparr>)"

definition forkret :: "'a kstate_scheme \<Rightarrow> ('a kstate_scheme, unit) res" where
  "forkret s =
     bindR (release_lk Lptable s) (\<lambda>_ s.
       if forkret_first s
       then bindR (iinit ROOTDEV (s\<lparr>forkret_first := False\<rparr>)) (\<lambda>_ s. initlog ROOTDEV s)
       else Ok () s)"

section \<open>Rounds of the scheduler\<close>

text \<open>
  A round as the scheduler of one CPU lives it: it starts with \<open>scheduler_round\<close> and goes on
  with \<open>scheduler_back p\<close> each time process \<open>p\<close> gives the CPU back, in whatever state the
  process and the other CPUs left behind. \<open>ps\<close> are the processes it switches to and \<open>us\<close> the
  states in which it looks at the table.
\<close>

definition sched_scan :: "nat option \<Rightarrow> 'a vmstate_scheme \<Rightarrow> ('a vmstate_scheme, nat option) res" where
  "sched_scan o' u = (case o' of None \<Rightarrow> scheduler_round u | Some p \<Rightarrow> scheduler_back p u)"

inductive round_runs :: "nat option \<Rightarrow> 'a vmstate_scheme \<Rightarrow> nat list \<Rightarrow> 'a vmstate_scheme list \<Rightarrow> bool" where
  ends: "sched_scan o' u = Ok None t \<Longrightarrow> round_runs o' u [] [u]"
| turn: "sched_scan o' u = Ok (Some p) t \<Longrightarrow> round_runs (Some p) v ps us \<Longrightarrow>
     round_runs o' u (p # ps) (u # us)"

definition scan_start :: "nat option \<Rightarrow> nat" where
  "scan_start o' = (case o' of None \<Rightarrow> 0 | Some p \<Rightarrow> Suc p)"

lemma find_upt_None: "find P [k..<n] = None \<longleftrightarrow> (\<forall>i. k \<le> i \<and> i < n \<longrightarrow> \<not> P i)"
  by (auto simp: find_None_iff)

lemma find_upt_Some:
  "find P [k..<n] = Some i \<longleftrightarrow> k \<le> i \<and> i < n \<and> P i \<and> (\<forall>j. k \<le> j \<and> j < i \<longrightarrow> \<not> P j)"
proof -
  have "(\<exists>d < n - k. P (k + d) \<and> i = k + d \<and> (\<forall>j < d. \<not> P (k + j))) \<longleftrightarrow>
    k \<le> i \<and> i < n \<and> P i \<and> (\<forall>j. k \<le> j \<and> j < i \<longrightarrow> \<not> P j)" (is "?l \<longleftrightarrow> ?r")
  proof
    assume ?r
    then have "\<forall>j < i - k. \<not> P (k + j)" by auto
    with \<open>?r\<close> show ?l by (intro exI [of _ "i - k"]) auto
  next
    assume ?l
    then obtain d where d: "d < n - k" "P (k + d)" "i = k + d" "\<forall>j < d. \<not> P (k + j)" by blast
    have "\<not> P j" if "k \<le> j" "j < i" for j
      using d(4) [rule_format, of "j - k"] that d(3) by auto
    with d show ?r by auto
  qed
  then show ?thesis by (auto simp: find_Some_iff)
qed

text \<open>What a scan finds: the first runnable process from where it starts.\<close>

lemma scheduler_from_None:
  "scheduler_from k s = Ok None t \<Longrightarrow> k \<le> q \<Longrightarrow> q < NPROC \<Longrightarrow> state (procs s q) \<noteq> RUNNABLE"
  by (auto simp: scheduler_from_def bindR_eq_Ok find_upt_None split: option.splits)

lemma scheduler_from_Some:
  assumes "scheduler_from k s = Ok (Some p) t"
  shows "k \<le> p \<and> p < NPROC \<and> state (procs s p) = RUNNABLE \<and>
    (\<forall>q. k \<le> q \<and> q < p \<longrightarrow> state (procs s q) \<noteq> RUNNABLE)"
  using assms by (auto simp: scheduler_from_def bindR_eq_Ok find_upt_Some split: option.splits)

lemma sched_scan_None:
  "sched_scan o' u = Ok None t \<Longrightarrow> scan_start o' \<le> q \<Longrightarrow> q < NPROC \<Longrightarrow> state (procs u q) \<noteq> RUNNABLE"
  by (auto simp: sched_scan_def scan_start_def scheduler_round_def scheduler_back_def switchkvm_def
      acquire_lk_def bindR_eq_Ok dest!: scheduler_from_None split: option.splits if_splits)

lemma sched_scan_Some:
  "sched_scan o' u = Ok (Some p) t \<Longrightarrow> scan_start o' \<le> p \<and> p < NPROC \<and> state (procs u p) = RUNNABLE \<and>
     (\<forall>q. scan_start o' \<le> q \<and> q < p \<longrightarrow> state (procs u q) \<noteq> RUNNABLE)"
  by (auto simp: sched_scan_def scan_start_def scheduler_round_def scheduler_back_def switchkvm_def
      acquire_lk_def bindR_eq_Ok dest!: scheduler_from_Some split: option.splits if_splits)

text \<open>A scan never fails, as long as the runnable processes have a stack and a page table.\<close>

lemma sched_scan_ok:
  assumes "\<And>i. state (procs u i) = RUNNABLE \<Longrightarrow> kstack (procs u i) \<noteq> 0 \<and> pgdir (procs u i) \<noteq> 0"
    and "Lptable \<in> set (held u) \<longleftrightarrow> o' \<noteq> None"
  shows "\<exists>t. sched_scan o' u = Ok (find (\<lambda>i. state (procs u i) = RUNNABLE) [scan_start o'..<NPROC]) t"
  using assms find_SomeD [of "\<lambda>i. state (procs u i) = RUNNABLE"]
  by (auto simp: sched_scan_def scan_start_def scheduler_round_def scheduler_back_def scheduler_from_def
      switchkvm_def switchuvm_def release_lk_def Let_def split: option.splits)

lemma round_runs_fair:
  assumes "round_runs o' u ps us"
  shows "sorted_wrt (<) ps \<and> set ps \<subseteq> {scan_start o'..<NPROC} \<and> length us = Suc (length ps) \<and>
    (\<forall>i < length ps. state (procs (us ! i) (ps ! i)) = RUNNABLE) \<and>
    (\<forall>q. scan_start o' \<le> q \<and> q < NPROC \<and> q \<notin> set ps \<longrightarrow>
       (\<exists>v \<in> set us. state (procs v q) \<noteq> RUNNABLE))"
  using assms
proof (induction rule: round_runs.induct)
  case (ends o' u t)
  then show ?case by (auto dest: sched_scan_None)
next
  case (turn o' u p t v ps us)
  have p: "scan_start o' \<le> p" "p < NPROC" "state (procs u p) = RUNNABLE"
    "\<And>q. scan_start o' \<le> q \<Longrightarrow> q < p \<Longrightarrow> state (procs u q) \<noteq> RUNNABLE"
    using sched_scan_Some [OF turn(1)] by auto
  have st: "scan_start (Some p) = Suc p" by (simp add: scan_start_def)
  note ih = turn(3) [unfolded st]
  have "\<exists>v \<in> set (u # us). state (procs v q) \<noteq> RUNNABLE"
    if "scan_start o' \<le> q" "q < NPROC" "q \<notin> set (p # ps)" for q
  proof (cases "q < p")
    case True
    then show ?thesis using p(4) that by auto
  next
    case False
    then show ?thesis using ih that by (auto simp: Suc_le_eq)
  qed
  moreover have "\<forall>i < length (p # ps). state (procs ((u # us) ! i) ((p # ps) ! i)) = RUNNABLE"
    using ih p(3) by (auto simp: nth_Cons split: nat.split)
  ultimately show ?case using ih p(1,2) by auto
qed

text \<open>
  (C13) The scheduler starves nobody: in one round it switches only to processes that are
  runnable when it looks, to each at most once and in the order of the table, so at most \<open>NPROC\<close>
  times; and every process that is runnable each time it looks is switched to before the round ends.
\<close>

theorem scheduler_fair:
  assumes "round_runs None u ps us"
  shows "sorted_wrt (<) ps \<and> length ps \<le> NPROC \<and>
    (\<forall>i < length ps. state (procs (us ! i) (ps ! i)) = RUNNABLE) \<and>
    (\<forall>q < NPROC. (\<forall>v \<in> set us. state (procs v q) = RUNNABLE) \<longrightarrow> q \<in> set ps)"
proof -
  note r = round_runs_fair [OF assms]
  from r have "distinct ps" by (simp add: strict_sorted_iff)
  then have "length ps = card (set ps)" by (simp add: distinct_card)
  also have "\<dots> \<le> card {0..<NPROC}" using r by (intro card_mono) auto
  finally show ?thesis using r by (auto simp: scan_start_def)
qed

definition ex_sched :: filestate where
  "ex_sched = ex_file\<lparr>cur := None, procs := (\<lambda>i. zero_proc\<lparr>kstack := 0x80001000, pgdir := 0x80002000,
     state := (if i = 1 \<or> i = 5 then RUNNABLE else SLEEPING)\<rparr>)\<rparr>"

theorem scheduler_fair_witness:
  "\<exists>us. round_runs None ex_sched [1, 5] us \<and> sorted_wrt (<) [1, 5 :: nat]"
proof -
  let ?v = "ex_sched\<lparr>held := [Lptable]\<rparr>"
  have st: "state (procs ex_sched i) = RUNNABLE \<longleftrightarrow> i = 1 \<or> i = 5" for i
    by (auto simp: ex_sched_def)
  have pr: "kstack (procs ex_sched i) \<noteq> 0" "pgdir (procs ex_sched i) \<noteq> 0" for i
    by (simp_all add: ex_sched_def)
  have "find (\<lambda>i. i = 1 \<or> i = (5 :: nat)) [0..<NPROC] = Some 1"
    by (simp add: find_upt_Some NPROC_def)
  then obtain t1 where t1: "sched_scan None ex_sched = Ok (Some 1) t1"
    using sched_scan_ok [of ex_sched None] by (auto simp: pr st scan_start_def ex_sched_def)
  have "find (\<lambda>i. i = 1 \<or> i = (5 :: nat)) [2..<NPROC] = Some 5"
    by (auto simp: find_upt_Some NPROC_def)
  then obtain t2 where t2: "sched_scan (Some 1) ?v = Ok (Some 5) t2"
    using sched_scan_ok [of ?v "Some 1"] by (auto simp: pr st scan_start_def numeral_2_eq_2)
  have "find (\<lambda>i. i = 1 \<or> i = (5 :: nat)) [6..<NPROC] = None"
    by (auto simp: find_upt_None)
  then obtain t3 where t3: "sched_scan (Some 5) ?v = Ok None t3"
    using sched_scan_ok [of ?v "Some 5"] by (auto simp: pr st scan_start_def)
  have "round_runs None ex_sched [1, 5] [ex_sched, ?v, ?v]"
    by (rule turn [OF t1 turn [OF t2 ends [OF t3]]])
  with scheduler_fair [OF this] show ?thesis by blast
qed

end
