(* ===== verification/Paging.thy ===== *)
theory Paging
  imports Proc
begin

text \<open>
  The paging data of one process: the pages it has in memory (\<open>page_list\<close>) and the ones in its swap
  file (\<open>meta_list\<close>), through growth, eviction, page faults and release.
\<close>

section \<open>Pages in the swap file\<close>

definition swapped :: "proc \<Rightarrow> (uint \<times> uint) list" where
  "swapped p = map (\<lambda>e. (meta_va e, file_start_idx e)) (take (nat (meta_list_last p + 1)) (meta_list p))"

definition meta_list_ok :: "proc \<Rightarrow> bool" where
  "meta_list_ok p \<longleftrightarrow> length (meta_list p) = MAX_PSYCH_PAGES \<and>
     - 1 \<le> meta_list_last p \<and> meta_list_last p < int MAX_PSYCH_PAGES"

lemma length_swapped: "meta_list_ok p \<Longrightarrow> length (swapped p) = nat (meta_list_last p + 1)"
  by (auto simp: swapped_def meta_list_ok_def MAX_PSYCH_PAGES_def)

lemma nth_swapped:
  "meta_list_ok p \<Longrightarrow> i < length (swapped p) \<Longrightarrow>
   swapped p ! i = (meta_va (meta_list p ! i), file_start_idx (meta_list p ! i))"
  by (auto simp: swapped_def meta_list_ok_def)

lemma append_meta_ok:
  assumes "meta_list_ok p" "append_meta va off p = Ok () q"
  shows "meta_list_ok q \<and> swapped q = swapped p @ [(va, off)] \<and> length (swapped p) < MAX_PSYCH_PAGES"
proof -
  obtain n where n: "n < MAX_PSYCH_PAGES" "meta_list_last p + 1 = int n"
    using assms(2) by (auto simp: append_meta_def Let_def in_page_list_def split: if_splits
        intro: that [of "nat (meta_list_last p + 1)"])
  then have q: "q = p\<lparr>meta_list_last := int n,
      meta_list := (meta_list p)[n := \<lparr>meta_va = va, file_start_idx = off\<rparr>]\<rparr>"
    using assms(2) by (simp add: append_meta_def Let_def split: if_splits)
  have "nat (int n + 1) = Suc n" by simp
  then have "swapped q = swapped p @ [(va, off)]"
    using assms(1) n by (simp add: q swapped_def meta_list_ok_def take_Suc_conv_app_nth)
  then show ?thesis using assms(1) n by (auto simp: q meta_list_ok_def swapped_def)
qed

lemma append_meta_full:
  "meta_list_ok p \<Longrightarrow> length (swapped p) = MAX_PSYCH_PAGES \<Longrightarrow> append_meta va off p = Fault ''meta_list''"
  by (auto simp: append_meta_def Let_def in_page_list_def length_swapped)

lemma remove_meta_ok:
  assumes "meta_list_ok p" "i < length (swapped p)"
  shows "\<exists>q. remove_meta i p = Ok () q \<and> meta_list_ok q \<and>
    swapped q = take i (swapped p) @ drop (Suc i) (swapped p) \<and>
    page_list q = page_list p \<and> page_list_last q = page_list_last p \<and> file_offset q = file_offset p"
proof -
  let ?n = "nat (meta_list_last p)"
  have n: "nat (meta_list_last p + 1) = Suc ?n" "i \<le> ?n" "?n < length (meta_list p)"
    using assms length_swapped [OF assms(1)] by (auto simp: meta_list_ok_def MAX_PSYCH_PAGES_def)
  then have t: "take ?n (shift_left i ?n (meta_list p)) =
      take i (meta_list p) @ take (?n - i) (drop (Suc i) (meta_list p))"
    using take_shift_left [of ?n "meta_list p" i] by simp
  have in': "in_page_list (meta_list_last p)"
    using assms length_swapped [OF assms(1)] by (auto simp: in_page_list_def meta_list_ok_def)
  define q where "q = p\<lparr>meta_list := shift_left i ?n (meta_list p), meta_list_last := meta_list_last p - 1\<rparr>"
  have "swapped q = take i (swapped p) @ drop (Suc i) (swapped p)"
    using n by (simp add: q_def swapped_def t drop_take take_map drop_map min_def)
  moreover have "meta_list_ok q"
    using assms(1) in' by (auto simp: q_def meta_list_ok_def in_page_list_def)
  ultimately show ?thesis using in' by (simp add: remove_meta_def q_def)
qed

section \<open>Steps\<close>

text \<open>
  What happens to the paging data: \<open>allocuvm\<close> adds a page that is not tracked yet, after evicting the
  oldest one when the list is full; a page fault swaps a page in and another one out in its place
  (\<open>swap_in\<close>); \<open>deallocuvm\<close> forgets a page. Each rule makes the same calls in the same order as the
  code it stands for.
\<close>

definition tracked :: "proc \<Rightarrow> uint set" where
  "tracked p = set (resident p) \<union> fst ` set (swapped p)"

inductive page_step :: "proc \<Rightarrow> proc \<Rightarrow> bool" where
  grow: "\<not> page_list_full p \<Longrightarrow> va \<notin> tracked p \<Longrightarrow> append_page va p = Ok () q \<Longrightarrow> page_step p q"
| swap_out: "page_list_full p \<Longrightarrow> va \<notin> tracked p \<Longrightarrow> get_va_to_replaced p = Ok v p1 \<Longrightarrow>
     append_meta v (file_offset p1) p1 = Ok () p2 \<Longrightarrow>
     append_page va (p2\<lparr>file_offset := file_offset p2 + PGSIZE\<rparr>) = Ok () q \<Longrightarrow> page_step p q"
| fault: "find (\<lambda>i. meta_va (meta_list p ! i) = va) [0..<nat (meta_list_last p + 1)] = Some i \<Longrightarrow>
     remove_meta i p = Ok () p1 \<Longrightarrow> get_va_to_replace_trap p1 = Ok v p2 \<Longrightarrow>
     append_meta v (file_start_idx (meta_list p ! i)) p2 = Ok () p3 \<Longrightarrow>
     append_page va p3 = Ok () q \<Longrightarrow> page_step p q"
| release: "page_step p (remove_page va p)"

text \<open>
  The lists are well formed, no page is in both or twice in one, and the pages in the swap file fill
  its first \<open>n\<close> places, each place once.
\<close>

definition paging_ok :: "proc \<Rightarrow> bool" where
  "paging_ok p \<longleftrightarrow> page_list_ok p \<and> meta_list_ok p \<and>
     distinct (resident p @ map fst (swapped p)) \<and> distinct (map snd (swapped p)) \<and>
     snd ` set (swapped p) = (\<lambda>k. of_nat k * PGSIZE) ` {..<length (swapped p)} \<and>
     file_offset p = of_nat (length (swapped p)) * PGSIZE"

section \<open>Frames\<close>

lemma append_page_frame:
  "append_page va p = Ok () q \<Longrightarrow>
   meta_list q = meta_list p \<and> meta_list_last q = meta_list_last p \<and> file_offset q = file_offset p"
  by (auto simp: append_page_def Let_def split: if_splits)

lemma FifoAlgo_frame:
  "FifoAlgo p = Ok v q \<Longrightarrow>
   meta_list q = meta_list p \<and> meta_list_last q = meta_list_last p \<and> file_offset q = file_offset p"
  by (auto simp: FifoAlgo_def Let_def split: if_splits)

lemma append_meta_frame:
  "append_meta va off p = Ok () q \<Longrightarrow>
   page_list q = page_list p \<and> page_list_last q = page_list_last p \<and> file_offset q = file_offset p"
  by (auto simp: append_meta_def Let_def split: if_splits)

lemma remove_page_frame:
  "meta_list (remove_page va p) = meta_list p \<and> meta_list_last (remove_page va p) = meta_list_last p \<and>
   file_offset (remove_page va p) = file_offset p"
  by (auto simp: remove_page_def split: option.split)

lemma same_meta:
  "meta_list q = meta_list p \<and> meta_list_last q = meta_list_last p \<and> f \<Longrightarrow>
   swapped q = swapped p \<and> meta_list_ok q = meta_list_ok p"
  by (simp add: swapped_def meta_list_ok_def)

lemma same_pages:
  "page_list q = page_list p \<and> page_list_last q = page_list_last p \<and> f \<Longrightarrow>
   resident q = resident p \<and> page_list_ok q = page_list_ok p"
  by (simp add: resident_def page_list_ok_def)

lemma FifoAlgo_TRAP_same: "FifoAlgo_TRAP = FifoAlgo"
  by (rule ext) (simp add: FifoAlgo_TRAP_def FifoAlgo_def)


lemma append_pageD:
  assumes "page_list_ok p" "append_page va p = Ok () q"
  shows "page_list_ok q \<and> resident q = resident p @ [va]"
proof -
  have "length (resident p) < MAX_PSYCH_PAGES"
    using assms by (auto simp: append_page_def Let_def in_page_list_def resident_len split: if_splits)
  from append_page_ok [OF assms(1) this, of va] show ?thesis using assms(2) by auto
qed

lemma FifoAlgoD:
  assumes "page_list_ok p" "FifoAlgo p = Ok v q" "page_list_last q \<noteq> - 2"
  shows "page_list_ok q \<and> resident p = v # resident q"
proof (cases "resident p")
  case Nil
  then have "page_list_last p = - 1"
    using resident_len [OF assms(1)] assms(1) by (auto simp: page_list_ok_def)
  then show ?thesis using assms(2,3) by (auto simp: FifoAlgo_def Let_def split: if_splits)
next
  case (Cons w vs)
  from FifoAlgo_ok [OF assms(1) this] show ?thesis using assms(2) Cons by auto
qed

text \<open>Evicting the victim \<open>v\<close> to the place \<open>off\<close> and taking \<open>va\<close> into the list.\<close>

lemma evict_lists:
  assumes "page_list_ok p" "meta_list_ok p" "FifoAlgo p = Ok v p1" "append_meta v off p1 = Ok () p2"
    and "append_page va (p2\<lparr>file_offset := fo\<rparr>) = Ok () q"
  shows "page_list_ok q \<and> meta_list_ok q \<and> resident p = v # butlast (resident q) \<and>
    resident q = butlast (resident q) @ [va] \<and> swapped q = swapped p @ [(v, off)] \<and> file_offset q = fo"
proof -
  have "page_list_last p1 \<noteq> - 2"
    using assms(5) append_meta_frame [OF assms(4)]
    by (auto simp: append_page_def Let_def in_page_list_def split: if_splits)
  note f = FifoAlgoD [OF assms(1,3) this]
  note m1 = same_meta [OF FifoAlgo_frame [OF assms(3)]]
  have m2: "meta_list_ok p2" "swapped p2 = swapped p @ [(v, off)]"
    using append_meta_ok [OF _ assms(4)] m1 assms(2) by auto
  have "page_list_ok (p2\<lparr>file_offset := fo\<rparr>)" "resident (p2\<lparr>file_offset := fo\<rparr>) = resident p1"
    using same_pages [OF append_meta_frame [OF assms(4)]] f by (simp_all add: page_list_ok_def resident_def)
  from append_pageD [OF this(1) assms(5)] this(2)
  have "page_list_ok q" "resident q = resident p1 @ [va]" by auto
  moreover note fr = append_page_frame [OF assms(5)]
  have "meta_list_ok q" "swapped q = swapped p2"
    using same_meta [of q "p2\<lparr>file_offset := fo\<rparr>" True] fr m2(1) by (simp_all add: meta_list_ok_def swapped_def)
  ultimately show ?thesis using f fr m2 by auto
qed

section \<open>The invariant\<close>

lemma places_Suc:
  "snd ` set (sw @ [(v, of_nat (length sw) * PGSIZE)]) = (\<lambda>k. of_nat k * PGSIZE) ` {..<Suc (length sw)}"
  if "snd ` set sw = (\<lambda>k. of_nat k * PGSIZE) ` {..<length sw}"
  using that by (simp add: lessThan_Suc)

lemma place_new:
  assumes "length sw < MAX_PSYCH_PAGES" "snd ` set sw = (\<lambda>k. of_nat k * PGSIZE) ` {..<length sw}"
  shows "of_nat (length sw) * PGSIZE \<notin> snd ` set sw"
proof
  assume "of_nat (length sw) * PGSIZE \<in> snd ` set sw"
  then obtain k where k: "k < length sw" "of_nat (length sw) * PGSIZE = of_nat k * PGSIZE"
    using assms(2) by auto
  have "unat (of_nat j * PGSIZE) = j * 4096" if "j < 15" for j
  proof -
    have "unat (of_nat (j * 4096) :: uint) = j * 4096" by (rule unat_of_nat32) (use that in simp)
    then show ?thesis by (simp add: PGSIZE_def)
  qed
  from this [of "length sw"] this [of k] k assms(1) show False by (simp add: MAX_PSYCH_PAGES_def)
qed

lemma page_step_ok:
  assumes "page_step p q" "paging_ok p"
  shows "paging_ok q"
  using assms
proof (induction rule: page_step.induct)
  case (grow p va q)
  then have ok: "page_list_ok p" "meta_list_ok p" by (simp_all add: paging_ok_def)
  note a = append_pageD [OF ok(1) grow(3)]
  note f = append_page_frame [OF grow(3)]
  from same_meta [OF f] show ?case using grow(2,4) a f by (auto simp: paging_ok_def tracked_def)
next
  case (swap_out p va v p1 p2 q)
  then have ok: "page_list_ok p" "meta_list_ok p" by (simp_all add: paging_ok_def)
  have fo: "file_offset p1 = file_offset p" "file_offset p2 = file_offset p"
    using FifoAlgo_frame [of p v p1] append_meta_frame [OF swap_out(4)] swap_out(3)
    by (simp_all add: get_va_to_replaced_def)
  note e = evict_lists [OF ok swap_out(3) [unfolded get_va_to_replaced_def] swap_out(4,5)]
  have len: "length (swapped p) < MAX_PSYCH_PAGES"
    using append_meta_ok [OF _ swap_out(4)] same_meta [OF FifoAlgo_frame, of p v p1] swap_out(3) ok(2)
    by (simp add: get_va_to_replaced_def)
  let ?sw = "swapped p"
  have pl: "snd ` set ?sw = (\<lambda>k. of_nat k * PGSIZE) ` {..<length ?sw}"
    "file_offset p = of_nat (length ?sw) * PGSIZE" using swap_out(6) by (simp_all add: paging_ok_def)
  obtain b where b: "resident p = v # b" "resident q = b @ [va]" using e by blast
  have sq: "swapped q = ?sw @ [(v, of_nat (length ?sw) * PGSIZE)]" using e fo pl(2) by simp
  show ?case
    unfolding paging_ok_def sq
    using e fo pl place_new [OF len pl(1)] places_Suc [OF pl(1)] swap_out(2,6) b
    by (auto simp: paging_ok_def tracked_def algebra_simps)
next
  case (fault p va i p1 v p2 p3 q)
  then have ok: "page_list_ok p" "meta_list_ok p" by (simp_all add: paging_ok_def)
  let ?off = "file_start_idx (meta_list p ! i)"
  have i: "i < length (swapped p)" "meta_va (meta_list p ! i) = va"
    using fault(1) by (auto simp: length_swapped [OF ok(2)] dest: find_SomeD)
  obtain xs ys where sw: "swapped p = xs @ (va, ?off) # ys" and xy: "take i (swapped p) = xs" "drop (Suc i) (swapped p) = ys"
    using id_take_nth_drop [OF i(1)] nth_swapped [OF ok(2) i(1)] i(2) by metis
  have p1: "meta_list_ok p1" "swapped p1 = xs @ ys" "file_offset p1 = file_offset p"
    "resident p1 = resident p" "page_list_ok p1"
    using remove_meta_ok [OF ok(2) i(1)] fault(2) ok(1) xy by (auto simp: resident_def page_list_ok_def)
  note v = fault(3) [unfolded get_va_to_replace_trap_def FifoAlgo_TRAP_same]
  have fo: "file_offset p3 = file_offset p"
    using FifoAlgo_frame [OF v] append_meta_frame [OF fault(4)] p1(3) by simp
  have "append_page va (p3\<lparr>file_offset := file_offset p3\<rparr>) = Ok () q" using fault(5) by simp
  note e = evict_lists [OF p1(5,1) v fault(4) this, unfolded p1(2,4) fo]
  then obtain b where b: "resident p = v # b" "resident q = b @ [va]" by blast
  have q: "swapped q = xs @ ys @ [(v, ?off)]" using e by simp
  show ?case
    using e fault(6) unfolding paging_ok_def q b sw by (simp add: insert_commute Un_commute) auto
next
  case (release p va)
  have "swapped (remove_page va p) = swapped p" "meta_list_ok (remove_page va p) = meta_list_ok p"
    using same_meta [OF remove_page_frame [of va p]] by auto
  then show ?case
    using release remove_page_ok [of p va] remove_page_frame [of va p]
    by (auto simp: paging_ok_def distinct_remove1 dest: notin_set_remove1)
qed


section \<open>Properties\<close>


definition new_paging :: proc where
  "new_paging = zero_proc\<lparr>page_list_last := - 1, meta_list_last := - 1, file_offset := 0\<rparr>"


end
