(* ===== verification/Crash.thy ===== *)
theory Crash
  imports File
begin

text \<open>
  What a crash can do to a file: the transaction of \<open>filewrite\<close> (\<open>begin_op\<close>, \<open>ilock\<close>, \<open>writei\<close>, \<open>iunlock\<close>,
  \<open>end_op\<close>) followed from the open file down to the writes on the disk.
\<close>

section \<open>A file as the disk holds it\<close>

definition stored_inode :: "(uint \<Rightarrow> uchar list) \<Rightarrow> superblock \<Rightarrow> uint \<Rightarrow> dinode" where
  "stored_inode d sp inum = get_dinode inum (d (IBLOCK inum sp))"

definition stored_blk :: "(uint \<Rightarrow> uchar list) \<Rightarrow> dinode \<Rightarrow> nat \<Rightarrow> uint" where
  "stored_blk d di k =
     (if k < NDIRECT then di_addrs di ! k else dec32 (drop (4 * (k - NDIRECT)) (d (di_addrs di ! NDIRECT))))"

definition stored_file :: "(uint \<Rightarrow> uchar list) \<Rightarrow> superblock \<Rightarrow> uint \<Rightarrow> uchar list" where
  "stored_file d sp inum =
     (let di = stored_inode d sp inum
      in map (\<lambda>x. d (stored_blk d di (x div BSIZE)) ! (x mod BSIZE)) [0..<unat (di_size di)])"

text \<open>No operation of the file system is in progress, and the log is empty in memory and on the disk.\<close>

definition log_idle :: "'a lstate_scheme \<Rightarrow> bool" where
  "log_idle s \<longleftrightarrow> log_ok s \<and> lh_n s = 0 \<and> outstanding s = 0 \<and> \<not> committing s \<and>
     nat (sint (dec32 (disk s (log_start s)))) = 0"

lemma log_idle_view:
  assumes "log_idle s"
  shows "bview s = disk s"
proof
  fix b
  have "dblocks s = {}" "hblocks s = {}" "bc_ok s" using assms by (auto simp: log_idle_def log_ok_def logged_def)
  then show "bview s b = disk s b" using clean_on_disk [of s b] by simp
qed

section \<open>The parts of a transaction\<close>

lemma begin_idle:
  fixes s :: "'a lstate_scheme"
  assumes "log_idle s" "held s = []"
  shows "begin_op s = Ok () (s\<lparr>outstanding := 1\<rparr>)" and "fs_ok (s\<lparr>outstanding := 1\<rparr>)"
proof -
  show "begin_op s = Ok () (s\<lparr>outstanding := 1\<rparr>)"
    using assms by (simp add: log_idle_def begin_op_def begin_op_loop_def LOGSIZE_def MAXOPBLOCKS_def)
  note c = same_cache [where s = "s\<lparr>outstanding := 1\<rparr>" and t = s, OF log_trunc(6)]
  show "fs_ok (s\<lparr>outstanding := 1\<rparr>)"
    using assms(1) by (simp add: log_idle_def log_ok_def fs_ok_def c logged_def log_geom_def)
qed

lemma pid_wakeup1 [simp]: "pid (procs (wakeup1 ch s) i) = pid (procs s i)"
  by (simp add: procs_wakeup1 wake_def)

lemma wakeup1_log [simp]:
  "lh_n (wakeup1 ch s) = lh_n s" "lh_block (wakeup1 ch s) = lh_block s" "outstanding (wakeup1 ch s) = outstanding s"
  "committing (wakeup1 ch s) = committing s" "log_start (wakeup1 ch s) = log_start s"
  "log_size (wakeup1 ch s) = log_size s" "log_dev (wakeup1 ch s) = log_dev s" "lstate.more (wakeup1 ch s) = lstate.more s"
  by (simp_all add: wakeup1_def)

lemma wakeup1_cache [simp]:
  "cached (wakeup1 ch s) = cached s" "in_use (wakeup1 ch s) = in_use s" "buf_ok (wakeup1 ch s) = buf_ok s"
  "bc_ok (wakeup1 ch s) = bc_ok s" "bview (wakeup1 ch s) = bview s" "hblocks (wakeup1 ch s) = hblocks s"
  "dblocks (wakeup1 ch s) = dblocks s"
proof -
  show c: "cached (wakeup1 ch s) = cached s" "in_use (wakeup1 ch s) = in_use s" "buf_ok (wakeup1 ch s) = buf_ok s"
    by (simp_all add: fun_eq_iff cached_def in_use_def buf_ok_def Let_def)
  show "bc_ok (wakeup1 ch s) = bc_ok s" "bview (wakeup1 ch s) = bview s" "hblocks (wakeup1 ch s) = hblocks s"
    "dblocks (wakeup1 ch s) = dblocks s"
    by (simp_all add: fun_eq_iff c bc_ok_def bview_def hblocks_def dblocks_def cong: option.case_cong)
qed

lemma wakeup1_log_ok [simp]: "log_ok (wakeup1 ch s) = log_ok s" "fs_ok (wakeup1 ch s) = fs_ok s"
  by (simp_all add: log_ok_def fs_ok_def logged_def log_geom_def)

text \<open>
  What reading and writing a file leave alone: everything except the cache, the disk, the log, the
  inodes and open files, and which processes sleep.
\<close>

definition log_still :: "'a lstate_scheme \<Rightarrow> 'a lstate_scheme" where
  "log_still s = s\<lparr>procs := \<lambda>_. zero_proc, bufs := \<lambda>_. undefined, blist := [], disk := \<lambda>_. [], dwrites := [],
     outstanding := 0, committing := False, lh_n := 0, lh_block := []\<rparr>"

definition file_still :: "'a filestate_scheme \<Rightarrow> 'a filestate_scheme" where
  "file_still s = (log_still s)\<lparr>icache := \<lambda>_. undefined, ftable := \<lambda>_. undefined\<rparr>"

definition file_io :: "'a filestate_scheme \<Rightarrow> 'a filestate_scheme \<Rightarrow> bool" where
  "file_io s t \<longleftrightarrow> file_still t = file_still s \<and> (\<forall>i. only_woken (procs s i) (procs t i))"

lemma log_still_upd [simp]:
  "log_still (s\<lparr>outstanding := n\<rparr>) = log_still s" "log_still (s\<lparr>committing := c\<rparr>) = log_still s"
  "log_still (wakeup1 ch s) = log_still s"
  by (simp_all add: log_still_def wakeup1_def)

lemma file_still_upd [simp]:
  "file_still (s\<lparr>outstanding := n\<rparr>) = file_still s" "file_still (wakeup1 ch s) = file_still s"
  "file_still (upd_file f g s) = file_still s" "file_still (upd_inode i h s) = file_still s"
  "file_still (s\<lparr>icache := ic\<rparr>) = file_still s"
  by (simp_all add: file_still_def log_still_def wakeup1_def upd_file_def upd_inode_def)

lemma file_still_log: "log_still t = log_still s \<Longrightarrow> file_still t = file_still s"
  by (simp add: file_still_def)

lemma file_still_keeps:
  assumes "fs_keeps s t"
  shows "file_still t = file_still s"
proof -
  have t: "t = s\<lparr>bufs := bufs t, blist := blist t, procs := procs t, lh_n := lh_n t, lh_block := lh_block t\<rparr>"
    using assms by (simp only: fs_keeps_def)
  show ?thesis by (subst t) (simp add: file_still_def log_still_def)
qed

lemma file_io_refl [simp]: "file_io s s"
  by (simp add: file_io_def)

lemma file_io_trans: "file_io s t \<Longrightarrow> file_io t u \<Longrightarrow> file_io s u"
  by (auto simp: file_io_def intro: only_woken_trans)

lemma file_ioD:
  assumes "file_io s t"
  shows "held t = held s" "cur t = cur s" "nextpid t = nextpid s" "initproc t = initproc s" "ticks t = ticks s"
    "mem t = mem s" "freelist t = freelist s" "use_lock t = use_lock s" "kend t = kend s" "disksize t = disksize s"
    "log_start t = log_start s" "log_size t = log_size s" "log_dev t = log_dev s" "sb t = sb s"
    "panicked t = panicked s" "crt_pos t = crt_pos s" "cons_locking t = cons_locking s" "uart t = uart s"
    "uart_out t = uart_out s"
proof -
  have e: "file_still t = file_still s" using assms by (simp add: file_io_def)
  note c = arg_cong [OF e]
  show "held t = held s" using c [of held] by (simp add: file_still_def log_still_def)
  show "cur t = cur s" using c [of cur] by (simp add: file_still_def log_still_def)
  show "nextpid t = nextpid s" using c [of nextpid] by (simp add: file_still_def log_still_def)
  show "initproc t = initproc s" using c [of initproc] by (simp add: file_still_def log_still_def)
  show "ticks t = ticks s" using c [of ticks] by (simp add: file_still_def log_still_def)
  show "mem t = mem s" using c [of mem] by (simp add: file_still_def log_still_def)
  show "freelist t = freelist s" using c [of freelist] by (simp add: file_still_def log_still_def)
  show "use_lock t = use_lock s" using c [of use_lock] by (simp add: file_still_def log_still_def)
  show "kend t = kend s" using c [of kend] by (simp add: file_still_def log_still_def)
  show "disksize t = disksize s" using c [of disksize] by (simp add: file_still_def log_still_def)
  show "log_start t = log_start s" using c [of log_start] by (simp add: file_still_def log_still_def)
  show "log_size t = log_size s" using c [of log_size] by (simp add: file_still_def log_still_def)
  show "log_dev t = log_dev s" using c [of log_dev] by (simp add: file_still_def log_still_def)
  show "sb t = sb s" using c [of sb] by (simp add: file_still_def log_still_def)
  show "panicked t = panicked s" using c [of panicked] by (simp add: file_still_def log_still_def)
  show "crt_pos t = crt_pos s" using c [of crt_pos] by (simp add: file_still_def log_still_def)
  show "cons_locking t = cons_locking s" using c [of cons_locking] by (simp add: file_still_def log_still_def)
  show "uart t = uart s" using c [of uart] by (simp add: file_still_def log_still_def)
  show "uart_out t = uart_out s" using c [of uart_out] by (simp add: file_still_def log_still_def)
qed

text \<open>The last \<open>end_op\<close> commits.\<close>

lemma end_commits:
  fixes s :: "'a lstate_scheme"
  assumes "fs_ok s" "hblocks s = {}" "held s = []" "outstanding s = 1" "\<not> committing s"
    "nat (sint (dec32 (disk s (log_start s)))) = 0"
  shows "\<exists>t ws. end_op s = Ok () t \<and> log_idle t \<and> dwrites t = dwrites s @ ws \<and>
    disk t = apply_writes ws (disk s) \<and> disksize t = disksize s \<and> log_start t = log_start s \<and> log_size t = log_size s \<and> cur t = cur s \<and> held t = [] \<and>
    (\<forall>i. only_woken (procs s i) (procs t i)) \<and> lstate.more t = lstate.more s \<and> log_still t = log_still s \<and>
    (\<forall>b. b \<notin> log_area (log_start s) \<longrightarrow> disk t b = bview s b) \<and>
    (\<exists>m. \<forall>k b. b \<notin> log_area (log_start s) \<longrightarrow>
      recover_disk (log_start s) (apply_writes (take k ws) (disk s)) b = (if k \<le> m then disk s b else bview s b))"
proof -
  let ?u = "s\<lparr>outstanding := 0, committing := True\<rparr>"
  note F = fs_okD [OF assms(1)]
  have c: "bstate.truncate ?u = bstate.truncate s" by simp
  note C = same_cache [OF c]
  have ok: "log_ok ?u"
  proof -
    have "logged ?u = logged s" "log_geom ?u = log_geom s" by (simp_all add: logged_def log_geom_def)
    moreover have "0 \<le> lh_n s" "lh_n s \<le> int LOGSIZE" using F(3,11) by (simp_all add: LOGSIZE_def)
    ultimately show ?thesis using F(1,2,4-7) assms(2) by (simp add: log_ok_def C)
  qed
  have "?u\<lparr>held := held ?u\<rparr> = ?u" by simp
  then have h: "s\<lparr>outstanding := 0, committing := True, held := []\<rparr> = ?u" using assms(3) by simp
  have E: "end_op s = bindR (commit ?u) (\<lambda>_ s. bindR (acquire_lk Llog s) (\<lambda>_ s.
      bindR (wakeup ChLog (s\<lparr>committing := False\<rparr>)) (\<lambda>_ s. release_lk Llog s)))"
    using assms(3-5) by (simp add: end_op_def h)
  have fin: "\<exists>v. bindR (acquire_lk Llog t) (\<lambda>_ s. bindR (wakeup ChLog (s\<lparr>committing := False\<rparr>)) (\<lambda>_ s. release_lk Llog s)) =
      Ok () v \<and> log_idle v \<and> dwrites v = dwrites t \<and> log_start v = log_start t \<and> log_size v = log_size t \<and>
      cur v = cur t \<and> held v = [] \<and> (\<forall>i. only_woken (procs t i) (procs v i)) \<and> lstate.more v = lstate.more t \<and> disk v = disk t \<and>
      disksize v = disksize t \<and> log_still v = log_still t"
    if t: "log_ok t" "held t = []" "lh_n t = 0" "outstanding t = 0" "nat (sint (dec32 (disk t (log_start t)))) = 0"
    for t :: "'a lstate_scheme"
  proof -
    let ?v = "wakeup1 ChLog (t\<lparr>committing := False\<rparr>)"
    have "(t\<lparr>committing := False\<rparr>)\<lparr>held := held (t\<lparr>committing := False\<rparr>)\<rparr> = t\<lparr>committing := False\<rparr>" by simp
    then have h: "t\<lparr>committing := False, held := []\<rparr> = t\<lparr>committing := False\<rparr>" using t(2) by simp
    have "bindR (acquire_lk Llog t) (\<lambda>_ s. bindR (wakeup ChLog (s\<lparr>committing := False\<rparr>)) (\<lambda>_ s. release_lk Llog s)) = Ok () ?v"
      using t(2) by (simp add: wakeup1_held [symmetric] h)
    moreover have "log_ok (t\<lparr>committing := False\<rparr>)"
    proof -
      note C = same_cache [where s = "t\<lparr>committing := False\<rparr>" and t = t, OF log_trunc(7)]
      have "logged (t\<lparr>committing := False\<rparr>) = logged t" "log_geom (t\<lparr>committing := False\<rparr>) = log_geom t"
        by (simp_all add: logged_def log_geom_def)
      with t(1) show ?thesis by (simp add: log_ok_def C)
    qed
    ultimately show ?thesis using t by (intro exI [of _ ?v]) (simp add: log_idle_def procs_wakeup1 only_woken_wake)
  qed
  show ?thesis
  proof (cases "0 < lh_n s")
    case False
    have "lh_n s = 0" using False F(3) by simp
    then have n: "lh_n ?u = 0" "commit ?u = Ok () ?u" by (simp_all add: commit_def)
    have "log_idle (?u\<lparr>committing := False\<rparr>)" 
      using ok n(1) assms(6) by (simp add: log_idle_def log_ok_def logged_def log_geom_def same_cache [OF log_trunc(7)])
    then have v: "bview s = disk s" using log_idle_view [of "?u\<lparr>committing := False\<rparr>"] by (simp add: same_cache(2) [OF log_trunc(7)] same_cache(2) [OF log_trunc(6)])
    obtain t where t: "end_op s = Ok () t" "log_idle t" "dwrites t = dwrites s" "log_start t = log_start s" "log_size t = log_size s"
      "cur t = cur s" "held t = []" "\<forall>i. only_woken (procs s i) (procs t i)" "lstate.more t = lstate.more s" "disk t = disk s"
      "disksize t = disksize s" "log_still t = log_still s"
      using fin [of ?u] ok n assms(3,6) unfolding E n(2) by auto
    have "recover_disk (log_start s) (disk s) b = disk s b" if "b \<notin> log_area (log_start s)" for b
      using that assms(6) by (intro recover_empty) (auto simp: log_area_def)
    then show ?thesis using t v by (intro exI [of _ t] exI [of _ "[]"]) simp
  next
    case True
    have n: "0 < lh_n ?u" "lh_n ?u < int LOGSIZE" using True F(11) by (simp_all add: LOGSIZE_def)
    obtain u ws where u: "commit ?u = Ok () u" "wrote (?u\<lparr>lh_n := 0\<rparr>) ws {} u" "lh_n u = 0" "log_geom u"
      "\<forall>k b. b \<notin> log_area (log_start s) \<longrightarrow> recover_disk (log_start s) (apply_writes (take k ws) (disk s)) b =
         (if k \<le> nat (lh_n s) then disk s b else bview s b)"
      "\<forall>b. b \<notin> log_area (log_start s) \<longrightarrow> disk u b = bview s b"
      "nat (sint (dec32 (disk u (log_start s)))) = 0"
      using commit_atomic [OF ok n] assms(6) by (auto simp: C)
    have W: "bc_ok u" "io_frame (?u\<lparr>lh_n := 0\<rparr>) u" "hblocks u = {}" "dblocks u = {}" "dwrites u = dwrites s @ ws"
      "disk u = apply_writes ws (disk s)"
      using u(2) by (simp_all add: wrote_def)
    note L = log_frame [OF W(2)] io_frame_sel [OF W(2)]
    have pw: "\<forall>i. only_woken (procs s i) (procs u i)" using W(2) by (simp add: io_frame_def)
    have eq: "u = (?u\<lparr>lh_n := 0\<rparr>)\<lparr>bufs := bufs u, blist := blist u, disk := disk u, dwrites := dwrites u, procs := procs u\<rparr>"
      using W(2) by (simp only: io_frame_def)
    have more: "lstate.more u = lstate.more s" by (subst eq) simp
    have still: "log_still u = log_still s" by (subst eq) (simp add: log_still_def)
    have lu: "log_ok u" using W u(3,4) by (simp add: log_ok_def logged_def)
    have idle: "held u = []" "outstanding u = 0" "log_start u = log_start s" "log_size u = log_size s" "cur u = cur s"
      "disksize u = disksize s"
      using L assms(3) by simp_all
    then obtain t where t: "end_op s = Ok () t" "log_idle t" "dwrites t = dwrites u" "log_start t = log_start u"
      "log_size t = log_size u" "cur t = cur u" "held t = []" "\<forall>i. only_woken (procs u i) (procs t i)"
      "lstate.more t = lstate.more u" "disk t = disk u"
      "disksize t = disksize u" "log_still t = log_still u"
      using fin [OF lu] u(3,7) unfolding E u(1) by auto
    have "\<forall>i. only_woken (procs s i) (procs t i)" using pw t(8) by (auto intro: only_woken_trans)
    then show ?thesis using t idle more still W(5,6) u(5,6) by (intro exI [of _ t] exI [of _ ws]) (auto simp del: split_paired_Ex)
  qed
qed

section \<open>The file across the operations of a transaction\<close>

text \<open>Two states show the same file when its inode has the same block addresses and the blocks are the same.\<close>

lemma same_file:
  fixes s :: "'a fstate_scheme" and t :: "'b fstate_scheme"
  assumes "bview t = bview s" "sb t = sb s" "fs_valid t = fs_valid s" "i_addrs (icache t i) = i_addrs (icache s i)"
    "i_dev (icache t i) = i_dev (icache s i)" "i_inum (icache t i) = i_inum (icache s i)"
  shows "file_blk t i = file_blk s i" "file_byte t i = file_byte s i" "file_mapped t i n = file_mapped s i n"
    "file_sep t i n = file_sep s i n" "inode_apart t i n = inode_apart s i n" "disk_inode t k = disk_inode s k"
proof -
  show b: "file_blk t i = file_blk s i" using assms by (simp add: fun_eq_iff file_blk_def)
  show "file_byte t i = file_byte s i" by (simp add: fun_eq_iff file_byte_def b assms(1))
  show "file_mapped t i n = file_mapped s i n" "file_sep t i n = file_sep s i n"
    by (simp_all add: file_mapped_def file_sep_def b assms)
  have "inodes_ok t = inodes_ok s" by (simp add: inodes_ok_def assms)
  then show "inode_apart t i n = inode_apart s i n" by (simp add: inode_apart_def b assms)
  show "disk_inode t k = disk_inode s k" by (simp add: disk_inode_def assms)
qed

text \<open>When a disk agrees with what the kernel sees outside the log, the file on it is the file the kernel sees.\<close>

lemma stored_file_eq:
  fixes u :: "'a fstate_scheme"
  assumes d: "\<And>b. b \<notin> log_area (log_start u) \<Longrightarrow> d b = bview u b"
    and m: "file_mapped u i n" and di: "disk_inode u (i_inum (icache u i)) = dinode_of (icache u i)"
    and v: "fs_valid u (IBLOCK (i_inum (icache u i)) (sb u))" and size: "unat (i_size (icache u i)) \<le> n * BSIZE"
  shows "stored_file d (sb u) (i_inum (icache u i)) = map (file_byte u i) [0..<unat (i_size (icache u i))]"
proof -
  have valid: "d b = bview u b" if "fs_valid u b" for b using d that by (simp add: fs_valid_def)
  have ino: "stored_inode d (sb u) (i_inum (icache u i)) = dinode_of (icache u i)"
    using di valid [OF v] by (simp add: stored_inode_def disk_inode_def)
  have blk: "stored_blk d (dinode_of (icache u i)) k = file_blk u i k" if "k < n" for k
    using m that valid by (auto simp: stored_blk_def file_blk_def file_mapped_def dinode_of_def)
  have "d (stored_blk d (dinode_of (icache u i)) (x div BSIZE)) ! (x mod BSIZE) = file_byte u i x"
    if "x < unat (i_size (icache u i))" for x
  proof -
    have k: "x div BSIZE < n" using that size by (simp add: less_mult_imp_div_less)
    then have "fs_valid u (file_blk u i (x div BSIZE))" using m by (simp add: file_mapped_def)
    then show ?thesis using blk [OF k] valid by (simp add: file_byte_def)
  qed
  then show ?thesis by (simp add: stored_file_def ino Let_def dinode_of_def)
qed

text \<open>\<open>ilock\<close> and \<open>iunlock\<close> around code that leaves the lock alone.\<close>

lemma iunlock_held:
  fixes s :: "'a fstate_scheme"
  assumes "cur s = Some p" "held s = []" "slocked (ilk (icache s i))" "spid (ilk (icache s i)) = pid (procs s p)"
    "1 \<le> i_ref (icache s i)"
  shows "iunlock (Some i) s = Ok () (wakeup1 (ChInodeLock i)
    (upd_inode i (\<lambda>n. n\<lparr>ilk := (ilk n)\<lparr>slocked := False, spid := 0\<rparr>\<rparr>) s))"
proof -
  have h: "holdingsleep (ChInodeLock i) (ilk_get i) s = Ok True s"
    using il.holdingsleep_eq [of s p i] assms by (simp add: ilk_get_def)
  have r: "releasesleep (ChInodeLock i) (ilk_get i) (ilk_put i) s = Ok () (wakeup1 (ChInodeLock i)
      (ilk_put i ((ilk_get i s)\<lparr>slocked := False, spid := 0\<rparr>) s))"
    using assms by (intro il.releasesleep_eq) simp_all
  have "ilk_put i ((ilk_get i s)\<lparr>slocked := False, spid := 0\<rparr>) s =
      upd_inode i (\<lambda>n. n\<lparr>ilk := (ilk n)\<lparr>slocked := False, spid := 0\<rparr>\<rparr>) s"
    by (simp add: ilk_put_def ilk_get_def upd_inode_def)
  with h r show ?thesis using assms(5) by (simp add: iunlock_def)
qed

lemma upd_file_view [simp]:
  "bview (upd_file f g s) = bview s" "fs_ok (upd_file f g s) = fs_ok s" "hblocks (upd_file f g s) = hblocks s"
proof -
  have c: "bstate.truncate (upd_file f g s) = bstate.truncate s" by (simp add: upd_file_def bstate.truncate_def)
  note C = same_cache [OF c]
  show "bview (upd_file f g s) = bview s" "hblocks (upd_file f g s) = hblocks s" by (simp_all add: C)
  have "logged (upd_file f g s) = logged s" "log_geom (upd_file f g s) = log_geom s" "lh_n (upd_file f g s) = lh_n s"
    "log_start (upd_file f g s) = log_start s" "outstanding (upd_file f g s) = outstanding s"
    by (simp_all add: logged_def log_geom_def upd_file_def)
  then show "fs_ok (upd_file f g s) = fs_ok s" by (simp add: fs_ok_def C)
qed

lemma upd_file_sel [simp]:
  "ftable (upd_file f g s) = (ftable s)(f := g (ftable s f))" "icache (upd_file f g s) = icache s" "sb (upd_file f g s) = sb s"
  "held (upd_file f g s) = held s" "cur (upd_file f g s) = cur s" "procs (upd_file f g s) = procs s"
  "outstanding (upd_file f g s) = outstanding s" "committing (upd_file f g s) = committing s" "disk (upd_file f g s) = disk s"
  "dwrites (upd_file f g s) = dwrites s" "log_start (upd_file f g s) = log_start s" "log_size (upd_file f g s) = log_size s"
  "disksize (upd_file f g s) = disksize s"
  by (simp_all add: upd_file_def)

lemma wakeup1_fs [simp]:
  "icache (wakeup1 ch s) = icache s" "sb (wakeup1 ch s) = sb s" "ftable (wakeup1 ch t) = ftable t"
  by (simp_all add: wakeup1_def)

lemma wakeup1_valid [simp]: "fs_valid (wakeup1 ch s) = fs_valid s"
  by (simp add: fun_eq_iff fs_valid_def)

lemma upd_file_valid [simp]: "fs_valid (upd_file f g s) = fs_valid s"
  by (simp add: fun_eq_iff fs_valid_def)

lemma upd_inode_file_sel [simp]:
  "committing (upd_inode i g s) = committing s" "dwrites (upd_inode i g s) = dwrites s"
  "ftable (upd_inode i g t) = ftable t"
  by (simp_all add: upd_inode_def)

lemma fs_keeps_ftable:
  fixes s t :: "'a filestate_scheme"
  assumes "fs_keeps s t"
  shows "ftable t = ftable s" "icache t = icache s" "sb t = sb s"
proof -
  have t: "t = s\<lparr>bufs := bufs t, blist := blist t, procs := procs t, lh_n := lh_n t, lh_block := lh_block t\<rparr>"
    using assms by (simp only: fs_keeps_def)
  show "ftable t = ftable s" "icache t = icache s" "sb t = sb s" by (subst t, simp)+
qed

lemma more_filestate:
  fixes s t :: "'a filestate_scheme"
  assumes "lstate.more t = lstate.more s"
  shows "ftable t = ftable s" "icache t = icache s" "sb t = sb s"
  using assms by (cases s; cases t; simp)+

text \<open>A write covers few blocks.\<close>

lemma blocks_touched_max: "len \<le> write_max \<Longrightarrow> blocks_touched off len \<le> 4"
proof -
  assume "len \<le> write_max"
  then have "(off + len - 1) div BSIZE \<le> (off + 3 * BSIZE) div BSIZE"
    by (intro div_le_mono) (simp add: write_max BSIZE_def)
  then have "(off + len - 1) div BSIZE \<le> off div BSIZE + 3" by (simp add: BSIZE_def)
  then show ?thesis by (simp add: blocks_touched_def le_diff_conv)
qed

section \<open>One write\<close>

text \<open>An open file for writing whose inode is cached, unlocked, as on the disk, and has \<open>n\<close> blocks.\<close>

definition writable_file :: "nat \<Rightarrow> nat \<Rightarrow> nat \<Rightarrow> 'a filestate_scheme \<Rightarrow> bool" where
  "writable_file f i n s \<longleftrightarrow>
     f_type (ftable s f) = FD_INODE \<and> writable (ftable s f) \<noteq> 0 \<and> f_ip (ftable s f) = Some i \<and>
     i_valid (icache s i) \<and> \<not> slocked (ilk (icache s i)) \<and> 1 \<le> i_ref (icache s i) \<and> i_type (icache s i) \<noteq> T_DEV \<and>
     disk_inode s (i_inum (icache s i)) = dinode_of (icache s i) \<and>
     file_mapped s i n \<and> file_sep s i n \<and> inode_apart s i n \<and>
     unat (f_off (ftable s f)) \<le> unat (i_size (icache s i)) \<and> unat (i_size (icache s i)) \<le> n * BSIZE"

text \<open>The bytes of a file after \<open>src\<close> was written at \<open>off\<close>.\<close>

definition put_at :: "nat \<Rightarrow> 'x list \<Rightarrow> 'x list \<Rightarrow> 'x list" where
  "put_at off src xs = take off xs @ src @ drop (off + length src) xs"

lemma map_overwritten:
  assumes "\<And>x. x < m \<Longrightarrow> h x = (if off \<le> x \<and> x < off + length src then src ! (x - off) else g x)"
    and "off \<le> l" and "m = max l (off + length src)"
  shows "map h [0..<m] = put_at off src (map g [0..<l])"
  using assms by (intro nth_equalityI) (auto simp: put_at_def nth_append)

lemma filewrite_chunk_steps:
  fixes s :: "'a filestate_scheme"
  assumes idle: "log_idle s" and p: "cur s = Some p" "held s = []" and w: "writable_file f i n s"
    and off: "off = unat (f_off (ftable s f))" and len: "off + length src \<le> n * BSIZE" "0 < length src" "length src \<le> write_max"
    and room: "6 \<le> log_size s"
  shows "\<exists>s5. filewrite_chunk f src s = bindR (end_op s5) (\<lambda>_ s. Ok (int (length src)) s) \<and>
    fs_ok s5 \<and> hblocks s5 = {} \<and> held s5 = [] \<and> cur s5 = Some p \<and> outstanding s5 = 1 \<and> \<not> committing s5 \<and>
    disk s5 = disk s \<and> dwrites s5 = dwrites s \<and> log_start s5 = log_start s \<and> log_size s5 = log_size s \<and> sb s5 = sb s \<and>
    ftable s5 = (ftable s)(f := (ftable s f)\<lparr>f_off := f_off (ftable s f) + of_nat (length src)\<rparr>) \<and>
    icache s5 = (icache s)(i := (icache s i)\<lparr>ilk := (ilk (icache s i))\<lparr>slocked := False, spid := 0\<rparr>,
      i_size := of_nat (max (unat (i_size (icache s i))) (off + length src))\<rparr>) \<and>
    fs_valid s5 = fs_valid s \<and> disksize s5 = disksize s \<and> file_io s s5 \<and> overwritten s s5 i n off src \<and>
    (\<forall>b. b \<notin> file_blk s i ` {..<n} \<and> b \<noteq> IBLOCK (i_inum (icache s i)) (sb s) \<longrightarrow> bview s5 b = bview s b) \<and>
    disk_inode s5 (i_inum (icache s i)) = dinode_of (icache s5 i)"
proof -
  note W = w [unfolded writable_file_def]
  let ?q = "pid (procs s p)" and ?m = "max (unat (i_size (icache s i))) (off + length src)"
  let ?s0 = "s\<lparr>outstanding := 1\<rparr>"
  let ?s2 = "upd_inode i (lock_inode ?q) ?s0"
  have b0: "begin_op s = Ok () ?s0" "fs_ok ?s0" using begin_idle [OF idle p(2)] .
  have c0: "bview ?s0 = bview s" "hblocks ?s0 = hblocks s" by (simp_all add: same_cache [OF log_trunc(6)])
  have idle': "hblocks s = {}" "lh_n s = 0" "\<not> committing s" using idle by (auto simp: log_idle_def log_ok_def)
  have v0: "fs_valid ?s0 = fs_valid s" "fs_room ?s0 = nat (min 28 (log_size s - 1))"
    using c0 idle'(2) by (simp_all add: fun_eq_iff fs_valid_def fs_room_def)
  have l: "ilock (Some i) ?s0 = Ok () ?s2"
    using ilock_ok [OF b0(2), of i p] W p by simp
  have same: "file_blk ?s2 i = file_blk s i" "file_byte ?s2 i = file_byte s i" "file_mapped ?s2 i n = file_mapped s i n"
    "file_sep ?s2 i n = file_sep s i n" "inode_apart ?s2 i n = inode_apart s i n" "disk_inode ?s2 k = disk_inode s k" for k
    by (rule same_file [where i = i]; simp add: c0 v0 lock_inode_def)+
  have e31: "off + length src < 2 ^ 31"
    using file_limit [of n] W len(1) by (auto simp: file_mapped_def)
  have offw: "f_off (ftable s f) = of_nat off" using off by simp
  have bt: "blocks_touched off (length src) < fs_room ?s2"
    using blocks_touched_max [OF len(3), of off] room v0(2) by simp
  obtain s3 where s3: "writei i src (of_nat off) ?s2 = Ok (int (length src)) s3" "fs_ok s3" "overwritten ?s2 s3 i n off src"
    "fs_valid s3 = fs_valid ?s2" "sb s3 = sb ?s2"
    "icache s3 = (icache ?s2)(i := (icache ?s2 i)\<lparr>i_size := of_nat (max (unat (i_size (icache ?s2 i))) (off + length src))\<rparr>)"
    "disk_inode s3 (i_inum (icache ?s2 i)) = (if i_size (icache ?s2 i) < of_nat (off + length src) then dinode_of (icache s3 i)
      else disk_inode ?s2 (i_inum (icache ?s2 i)))"
    "\<forall>b. b \<notin> file_blk ?s2 i ` {..<n} \<and> b \<noteq> IBLOCK (i_inum (icache ?s2 i)) (sb ?s2) \<longrightarrow> bview s3 b = bview ?s2 b"
    "fs_keeps (?s2\<lparr>icache := icache s3\<rparr>) s3"
  proof -
    have a: "fs_ok ?s2" "i_type (icache ?s2 i) \<noteq> T_DEV" "off \<le> unat (i_size (icache ?s2 i))"
      using b0(2) W off by (simp_all add: lock_inode_def)
    have m: "file_mapped ?s2 i n" "file_sep ?s2 i n" "inode_apart ?s2 i n" using same W by simp_all
    show ?thesis using writei_ok [OF a(1,2) m a(3) len(1) bt] by (elim exE conjE) (rule that)
  qed
  have keep: "ftable s3 = ftable s" "cur s3 = Some p" "held s3 = []" "outstanding s3 = 1" "\<not> committing s3" "disk s3 = disk s"
    "dwrites s3 = dwrites s" "log_start s3 = log_start s" "log_size s3 = log_size s" "hblocks s3 = {}"
    "disksize s3 = disksize s"
    using fs_keeps_sel [OF s3(9)] fs_keeps_ftable(1) [OF s3(9)] p idle'(1,3) c0(2)
    by (simp_all add: icache_cache)
  have pids: "pid (procs s3 j) = pid (procs s j)" for j
  proof -
    have "only_woken (procs (?s2\<lparr>icache := icache s3\<rparr>) j) (procs s3 j)" using s3(9) unfolding fs_keeps_def by blast
    then show ?thesis using only_woken_pid by fastforce
  qed
  have ic3: "icache s3 = (icache s)(i := (icache s i)\<lparr>ilk := (ilk (icache s i))\<lparr>slocked := True, spid := ?q\<rparr>,
      i_size := of_nat ?m\<rparr>)"
    using s3(6) by (simp add: lock_inode_def)
  let ?s4 = "upd_file f (\<lambda>x. x\<lparr>f_off := f_off x + of_nat (length src)\<rparr>) s3"
  let ?s5 = "wakeup1 (ChInodeLock i) (upd_inode i (\<lambda>n. n\<lparr>ilk := (ilk n)\<lparr>slocked := False, spid := 0\<rparr>\<rparr>) ?s4)"
  have u: "iunlock (Some i) ?s4 = Ok () ?s5"
    using iunlock_held [of ?s4 p i] keep(2,3) ic3 pids W by simp
  have ft: "ftable ?s2 = ftable s" "f_ip (ftable ?s4 f) = Some i" using keep(1) W by simp_all
  have "filewrite_chunk f src s = bindR (end_op ?s5) (\<lambda>_ s. Ok (int (length src)) s)"
    using W len(2) by (simp add: filewrite_chunk_def b0(1) l ft(1) offw s3(1) u ft(2) [simplified])
  moreover have "fs_ok ?s5" "hblocks ?s5 = {}" "held ?s5 = []" "cur ?s5 = Some p" "outstanding ?s5 = 1" "\<not> committing ?s5"
    "disk ?s5 = disk s" "dwrites ?s5 = dwrites s" "log_start ?s5 = log_start s" "log_size ?s5 = log_size s"
    "disksize ?s5 = disksize s" "bview ?s5 = bview s3"
    using s3(2) keep by simp_all
  moreover have "sb ?s5 = sb s" "ftable ?s5 = (ftable s)(f := (ftable s f)\<lparr>f_off := f_off (ftable s f) + of_nat (length src)\<rparr>)"
    using s3(5) keep(1) by simp_all
  moreover have "icache ?s5 = (icache s)(i := (icache s i)\<lparr>ilk := (ilk (icache s i))\<lparr>slocked := False, spid := 0\<rparr>, i_size := of_nat ?m\<rparr>)"
  proof -
    have swap: "n\<lparr>i_size := a, ilk := b\<rparr> = n\<lparr>ilk := b, i_size := a\<rparr>" for n :: inode and a b by simp
    have "icache ?s5 = (icache s)(i := (icache s i)\<lparr>i_size := of_nat ?m, ilk := (ilk (icache s i))\<lparr>slocked := False, spid := 0\<rparr>\<rparr>)"
      using ic3 by simp
    then show ?thesis unfolding swap .
  qed
  moreover have v5: "fs_valid ?s5 = fs_valid s" using s3(4) v0(1) by simp
  moreover have "file_io s ?s5"
  proof -
    have "only_woken (procs s j) (procs s3 j)" for j using s3(9) by (simp add: fs_keeps_def)
    then show ?thesis
      using file_still_keeps [OF s3(9)] by (auto simp: file_io_def procs_wakeup1 intro: only_woken_trans only_woken_wake)
  qed
  moreover have "overwritten s ?s5 i n off src \<and> disk_inode ?s5 (i_inum (icache s i)) = dinode_of (icache ?s5 i)"
  proof
    have s35: "file_blk ?s5 i = file_blk s3 i" "file_byte ?s5 i = file_byte s3 i" "disk_inode ?s5 k = disk_inode s3 k" for k
      by (rule same_file [where i = i]; simp)+
    then show "overwritten s ?s5 i n off src" using s3(3) by (simp add: overwritten_def same)
    have "dinode_of (icache ?s5 i) = dinode_of (icache s3 i)" by (simp add: dinode_of_def)
    moreover have "disk_inode s3 (i_inum (icache s i)) = dinode_of (icache s3 i)"
    proof (cases "i_size (icache s i) < of_nat (off + length src)")
      case True
      then show ?thesis using s3(7) by (simp add: lock_inode_def)
    next
      case False
      then have "of_nat ?m = i_size (icache s i)"
        using e31 by (simp add: word_less_nat_alt unat_of_nat32 max_def del: of_nat_add)
      then have "dinode_of (icache s3 i) = dinode_of (icache s i)" using ic3 by (simp add: dinode_of_def)
      moreover have "disk_inode s3 (i_inum (icache s i)) = disk_inode s (i_inum (icache s i))"
        using s3(7) False same(6) by (simp add: lock_inode_def)
      ultimately show ?thesis using W by simp
    qed
    ultimately show "disk_inode ?s5 (i_inum (icache s i)) = dinode_of (icache ?s5 i)" using s35(3) by simp
  qed
  moreover have "\<forall>b. b \<notin> file_blk s i ` {..<n} \<and> b \<noteq> IBLOCK (i_inum (icache s i)) (sb s) \<longrightarrow> bview s3 b = bview s b"
    using s3(8) c0(1) by (simp add: same lock_inode_def)
  ultimately show ?thesis by (intro exI [of _ ?s5]) simp
qed

text \<open>The file of an inode as the disk holds it.\<close>

abbreviation on_disk :: "nat \<Rightarrow> 'a fstate_scheme \<Rightarrow> uchar list" where
  "on_disk i s \<equiv> stored_file (disk s) (sb s) (i_inum (icache s i))"

abbreviation after_crash :: "nat \<Rightarrow> 'a fstate_scheme \<Rightarrow> (uint \<times> uchar list) list \<Rightarrow> uchar list" where
  "after_crash i s ws \<equiv> stored_file (recover_disk (log_start s) (apply_writes ws (disk s))) (sb s) (i_inum (icache s i))"

lemma writable_fileD:
  assumes "writable_file f i n s"
  shows "file_mapped s i n" "disk_inode s (i_inum (icache s i)) = dinode_of (icache s i)"
    "fs_valid s (IBLOCK (i_inum (icache s i)) (sb s))" "unat (i_size (icache s i)) \<le> n * BSIZE"
  using assms by (auto simp: writable_file_def inode_apart_def inodes_ok_def)

text \<open>A state that sees the same file outside the log.\<close>

lemma file_outside_log:
  fixes s t :: "'a fstate_scheme"
  assumes v: "\<And>b. b \<notin> log_area (log_start s) \<Longrightarrow> bview t b = bview s b" and "fs_valid t = fs_valid s" "icache t = icache s"
    "sb t = sb s" and m: "file_mapped s i n" and ino: "fs_valid s (IBLOCK (i_inum (icache s i)) (sb s))"
  shows "k < n \<Longrightarrow> file_blk t i k = file_blk s i k" "file_mapped t i n" "file_sep t i n = file_sep s i n"
    "inode_apart t i n = inode_apart s i n" "disk_inode t (i_inum (icache t i)) = disk_inode s (i_inum (icache s i))"
proof -
  have valid: "bview t b = bview s b" if "fs_valid s b" for b using v that by (simp add: fs_valid_def)
  show b: "file_blk t i k = file_blk s i k" if "k < n" for k
    using m that valid assms(3) by (auto simp: file_blk_def file_mapped_def)
  then show "file_mapped t i n" using m assms(2,3) by (simp add: file_mapped_def)
  show "file_sep t i n = file_sep s i n" using b assms(3) by (auto simp: file_sep_def inj_on_def)
  have "inodes_ok t = inodes_ok s" using assms(2,4) by (simp add: inodes_ok_def)
  moreover have "file_blk t i ` {..<n} = file_blk s i ` {..<n}" using b by (intro image_cong) auto
  ultimately show "inode_apart t i n = inode_apart s i n" using assms(3,4) by (simp add: inode_apart_def)
  show "disk_inode t (i_inum (icache t i)) = disk_inode s (i_inum (icache s i))"
    using valid [OF ino] assms(3,4) by (simp add: disk_inode_def)
qed

lemma filewrite_chunk_atomic:
  fixes s :: "'a filestate_scheme"
  assumes idle: "log_idle s" and p: "cur s = Some p" "held s = []" and w: "writable_file f i n s"
    and off: "off = unat (f_off (ftable s f))" and len: "off + length src \<le> n * BSIZE" "0 < length src" "length src \<le> write_max"
    and room: "6 \<le> log_size s"
  shows "\<exists>t ws m. filewrite_chunk f src s = Ok (int (length src)) t \<and> log_idle t \<and> cur t = Some p \<and> held t = [] \<and>
    writable_file f i n t \<and> unat (f_off (ftable t f)) = off + length src \<and> file_io s t \<and>
    ftable t = (ftable s)(f := (ftable s f)\<lparr>f_off := of_nat (off + length src)\<rparr>) \<and> i_inum (icache t i) = i_inum (icache s i) \<and>
    dwrites t = dwrites s @ ws \<and> disk t = apply_writes ws (disk s) \<and> on_disk i t = put_at off src (on_disk i s) \<and>
    (\<forall>k. after_crash i s (take k ws) = (if k \<le> m then on_disk i s else on_disk i t))"
proof -
  note W = w [unfolded writable_file_def]
  note D = writable_fileD [OF w]
  let ?m = "max (unat (i_size (icache s i))) (off + length src)"
  obtain s5 where c: "filewrite_chunk f src s = bindR (end_op s5) (\<lambda>_ s. Ok (int (length src)) s)"
    "fs_ok s5" "hblocks s5 = {}" "held s5 = []" "cur s5 = Some p" "outstanding s5 = 1" "\<not> committing s5" "disk s5 = disk s"
    "dwrites s5 = dwrites s" "log_start s5 = log_start s" "log_size s5 = log_size s" "sb s5 = sb s"
    and ft: "ftable s5 = (ftable s)(f := (ftable s f)\<lparr>f_off := f_off (ftable s f) + of_nat (length src)\<rparr>)"
    and ic: "icache s5 = (icache s)(i := (icache s i)\<lparr>ilk := (ilk (icache s i))\<lparr>slocked := False, spid := 0\<rparr>, i_size := of_nat ?m\<rparr>)"
    and v5: "fs_valid s5 = fs_valid s" "disksize s5 = disksize s" "overwritten s s5 i n off src"
      "disk_inode s5 (i_inum (icache s i)) = dinode_of (icache s5 i)" "file_io s s5"
    using filewrite_chunk_steps [OF assms] by (elim exE conjE) (rule that)
  have start: "nat (sint (dec32 (disk s5 (log_start s5)))) = 0" using idle c(8,10) by (simp add: log_idle_def)
  obtain t ws m where t: "end_op s5 = Ok () t" "log_idle t" "dwrites t = dwrites s5 @ ws" "disk t = apply_writes ws (disk s5)"
    "disksize t = disksize s5" "log_start t = log_start s5" "log_size t = log_size s5" "cur t = cur s5" "held t = []"
    "lstate.more t = lstate.more s5" "log_still t = log_still s5" "\<forall>i. only_woken (procs s5 i) (procs t i)" and new: "\<forall>b. b \<notin> log_area (log_start s5) \<longrightarrow> disk t b = bview s5 b"
    and crash: "\<forall>k b. b \<notin> log_area (log_start s5) \<longrightarrow>
      recover_disk (log_start s5) (apply_writes (take k ws) (disk s5)) b = (if k \<le> m then disk s5 b else bview s5 b)"
    using end_commits [OF c(2-4,6,7) start] by (elim exE conjE) (rule that)
  note M = more_filestate [OF t(10)]
  have n31: "n * BSIZE < 2 ^ 31" using D(1) by (intro file_limit) (simp add: file_mapped_def)
  then have um: "unat (of_nat ?m :: uint) = ?m" using len(1) D(4) by (intro unat_of_nat32) simp
  have size5: "unat (i_size (icache s5 i)) = ?m" "i_inum (icache s5 i) = i_inum (icache s i)" using ic um by simp_all
  have blk5: "file_blk s5 i k = file_blk s i k" if "k < n" for k using that v5(3) by (simp add: overwritten_def)
  have m5: "file_mapped s5 i n" using D(1) blk5 v5(1) ic by (simp add: file_mapped_def)
  have sep5: "file_sep s5 i n" using W blk5 ic by (auto simp: file_sep_def inj_on_def)
  have "file_blk s5 i ` {..<n} = file_blk s i ` {..<n}" using blk5 by (intro image_cong) auto
  then have ap5: "inode_apart s5 i n" using W v5(1) c(12) ic by (simp add: inode_apart_def inodes_ok_def)
  have ino5: "fs_valid s5 (IBLOCK (i_inum (icache s5 i)) (sb s5))" using D(3) v5(1) c(12) size5(2) by simp
  have S5: "stored_file d (sb s) (i_inum (icache s i)) = map (file_byte s5 i) [0..<?m]"
    if "\<And>b. b \<notin> log_area (log_start s5) \<Longrightarrow> d b = bview s5 b" for d
    using stored_file_eq [where u = s5 and i = i, OF that m5 _ ino5] v5(4) size5 len(1) D(4) c(12) by simp
  have S: "stored_file d (sb s) (i_inum (icache s i)) = map (file_byte s i) [0..<unat (i_size (icache s i))]"
    if "\<And>b. b \<notin> log_area (log_start s) \<Longrightarrow> d b = disk s b" for d
    using stored_file_eq [where u = s and i = i, OF _ D] that log_idle_view [OF idle] by simp
  have vt: "fs_valid t = fs_valid s5"
    using t(2,5,6) c(3) by (simp add: fun_eq_iff fs_valid_def log_idle_def log_ok_def)
  have outside: "bview t b = bview s5 b" if "b \<notin> log_area (log_start s5)" for b
    using new that log_idle_view [OF t(2)] by simp
  note O = file_outside_log [where t = t and s = s5, OF outside vt M(2,3) m5 ino5]
  have st: "on_disk i t = map (file_byte s5 i) [0..<?m]"
    using S5 [of "disk t"] new M(2,3) c(12) size5(2) by simp
  have ss: "on_disk i s = map (file_byte s i) [0..<unat (i_size (icache s i))]" by (rule S) simp
  have "map (file_byte s5 i) [0..<?m] = put_at off src (map (file_byte s i) [0..<unat (i_size (icache s i))])"
    using v5(3) W off len(1) D(4) by (intro map_overwritten) (auto simp: overwritten_def)
  then have "on_disk i t = put_at off src (on_disk i s)" using st ss by simp
  moreover have "after_crash i s (take k ws) = (if k \<le> m then on_disk i s else on_disk i t)" for k
  proof (cases "k \<le> m")
    case True
    then have "after_crash i s (take k ws) = map (file_byte s i) [0..<unat (i_size (icache s i))]"
      using crash c(8,10) by (intro S) simp
    with True ss show ?thesis by simp
  next
    case False
    then have "after_crash i s (take k ws) = map (file_byte s5 i) [0..<?m]"
      using crash c(8,10) by (intro S5) simp
    with False st show ?thesis by simp
  qed
  moreover have "writable_file f i n t"
    unfolding writable_file_def
  proof (intro conjI)
    have fo: "unat (f_off (ftable t f)) = off + length src"
    proof -
      have "f_off (ftable t f) = of_nat (off + length src)" using M(1) ft off by simp
      then show ?thesis using len(1) n31 by (simp add: unat_of_nat32 del: of_nat_add)
    qed
    then show "unat (f_off (ftable t f)) \<le> unat (i_size (icache t i))" using M(2) size5(1) by simp
    show "unat (i_size (icache t i)) \<le> n * BSIZE" using M(2) size5(1) len(1) D(4) by simp
    show "disk_inode t (i_inum (icache t i)) = dinode_of (icache t i)" using O(5) M(2) v5(4) size5(2) by simp
    show "file_mapped t i n" "file_sep t i n" "inode_apart t i n" using O(2-4) sep5 ap5 by simp_all
  qed (use W M ft ic in simp_all)
  moreover have "unat (f_off (ftable t f)) = off + length src"
  proof -
    have "f_off (ftable t f) = of_nat (off + length src)" using M(1) ft off by simp
    then show ?thesis using len(1) n31 by (simp add: unat_of_nat32 del: of_nat_add)
  qed
  moreover have "file_io s t"
    using v5(5) file_still_log [OF t(11)] t(12) by (intro file_io_trans [of s s5 t]) (simp_all add: file_io_def)
  moreover have "ftable t = (ftable s)(f := (ftable s f)\<lparr>f_off := of_nat (off + length src)\<rparr>)" using M(1) ft off by simp
  ultimately show ?thesis
    using c t M size5(2) by (intro exI [of _ t] exI [of _ ws] exI [of _ m]) simp
qed

lemma put_at_append:
  assumes "off \<le> length xs"
  shows "put_at (off + length a) b (put_at off a xs) = put_at off (a @ b) xs"
  using assms by (simp add: put_at_def ac_simps)

declare filewrite_loop.simps [simp del]

text \<open>
  A write of any length is a sequence of such transactions: a crash leaves the file with the first of
  them, each one complete.
\<close>

lemma filewrite_loop_atomic:
  fixes s :: "'a filestate_scheme"
  assumes "log_idle s" "cur s = Some p" "held s = []" "writable_file f i n s"
    "off = unat (f_off (ftable s f))" "off + length src \<le> n * BSIZE" "6 \<le> log_size s"
  shows "\<exists>t ws. filewrite_loop f src s = Ok True t \<and> log_idle t \<and> cur t = Some p \<and> held t = [] \<and> writable_file f i n t \<and>
    unat (f_off (ftable t f)) = off + length src \<and>
    dwrites t = dwrites s @ ws \<and> disk t = apply_writes ws (disk s) \<and>
    stored_file (disk t) (sb s) (i_inum (icache s i)) = put_at off src (on_disk i s) \<and>
    (\<forall>k. \<exists>j. after_crash i s (take k ws) = put_at off (take (j * write_max) src) (on_disk i s)) \<and>
    file_io s t \<and> ftable t = (ftable s)(f := (ftable s f)\<lparr>f_off := of_nat (off + length src)\<rparr>) \<and> i_inum (icache t i) = i_inum (icache s i)"
  using assms
proof (induction src arbitrary: s off rule: measure_induct_rule [where f = length])
  case (less src)
  note P = less.prems
  let ?old = "on_disk i s"
  have size: "length ?old = unat (i_size (icache s i))"
    using stored_file_eq [where u = s and i = i and d = "disk s", OF _ writable_fileD [OF P(4)]] log_idle_view [OF P(1)] by simp
  then have off: "off \<le> length ?old" using P(4,5) by (simp add: writable_file_def)
  show ?case
  proof (cases "src = []")
    case True
    have "after_crash i s [] = ?old"
    proof -
      have "recover_disk (log_start s) (disk s) b = disk s b" if "b \<notin> log_area (log_start s)" for b
        using that P(1) by (intro recover_empty) (auto simp: log_area_def log_idle_def)
      then show ?thesis
        using stored_file_eq [where u = s and i = i, OF _ writable_fileD [OF P(4)]] log_idle_view [OF P(1)] by simp
    qed
    then show ?thesis using True P by (intro exI [of _ s] exI [of _ "[]"]) (simp add: filewrite_loop.simps put_at_def)
  next
    case False
    define n1 where "n1 = min (length src) write_max"
    let ?a = "take n1 src" and ?b = "drop n1 src"
    have n1: "0 < n1" "n1 \<le> write_max" "n1 \<le> length src" "length ?a = n1" "length ?b < length src"
      using False by (simp_all add: n1_def write_max)
    have ab: "?a @ take (j * write_max) ?b = take (Suc j * write_max) src" for j
    proof (cases "length src \<le> write_max")
      case True
      then have "n1 = length src" by (simp add: n1_def)
      then show ?thesis using True by simp
    next
      case False
      then have "n1 = write_max" by (simp add: n1_def)
      then show ?thesis by (simp add: take_add)
    qed
    have fit: "off + length ?a \<le> n * BSIZE" "0 < length ?a" "length ?a \<le> write_max"
      using P(6) n1 by simp_all
    obtain t1 ws1 m where t1: "filewrite_chunk f ?a s = Ok (int n1) t1" "log_idle t1" "cur t1 = Some p" "held t1 = []"
      "writable_file f i n t1" "unat (f_off (ftable t1 f)) = off + n1" "file_io s t1"
      "ftable t1 = (ftable s)(f := (ftable s f)\<lparr>f_off := of_nat (off + n1)\<rparr>)" "i_inum (icache t1 i) = i_inum (icache s i)" "dwrites t1 = dwrites s @ ws1" "disk t1 = apply_writes ws1 (disk s)"
      "on_disk i t1 = put_at off ?a ?old" "\<forall>k. after_crash i s (take k ws1) = (if k \<le> m then ?old else on_disk i t1)"
      using filewrite_chunk_atomic [OF P(1-5) fit P(7), unfolded n1(4)] by (elim exE conjE) (rule that)
    have sel1: "log_start t1 = log_start s" "log_size t1 = log_size s" "sb t1 = sb s" using file_ioD [OF t1(7)] by simp_all
    have "\<exists>t ws. filewrite_loop f ?b t1 = Ok True t \<and> log_idle t \<and> cur t = Some p \<and> held t = [] \<and> writable_file f i n t \<and>
      unat (f_off (ftable t f)) = off + n1 + length ?b \<and>
      dwrites t = dwrites t1 @ ws \<and> disk t = apply_writes ws (disk t1) \<and>
      stored_file (disk t) (sb t1) (i_inum (icache t1 i)) = put_at (off + n1) ?b (on_disk i t1) \<and>
      (\<forall>k. \<exists>j. after_crash i t1 (take k ws) = put_at (off + n1) (take (j * write_max) ?b) (on_disk i t1)) \<and>
      file_io t1 t \<and> ftable t = (ftable t1)(f := (ftable t1 f)\<lparr>f_off := of_nat (off + n1 + length ?b)\<rparr>) \<and> i_inum (icache t i) = i_inum (icache t1 i)"
      by (rule less.IH [OF n1(5) t1(2-5)]) (use t1(6) sel1 P(6,7) n1(3) in simp_all)
    then obtain t ws where t: "filewrite_loop f ?b t1 = Ok True t" "log_idle t" "cur t = Some p" "held t = []" "writable_file f i n t"
      "unat (f_off (ftable t f)) = off + n1 + length ?b" "dwrites t = dwrites t1 @ ws" "disk t = apply_writes ws (disk t1)"
      "stored_file (disk t) (sb t1) (i_inum (icache t1 i)) = put_at (off + n1) ?b (on_disk i t1)"
      "\<forall>k. \<exists>j. after_crash i t1 (take k ws) = put_at (off + n1) (take (j * write_max) ?b) (on_disk i t1)" "file_io t1 t"
      "ftable t = (ftable t1)(f := (ftable t1 f)\<lparr>f_off := of_nat (off + n1 + length ?b)\<rparr>)" "i_inum (icache t i) = i_inum (icache t1 i)"
      by (elim exE conjE) (rule that)
    note app = put_at_append [OF off, of ?a, unfolded n1(4), folded t1(12)]
    have "filewrite_loop f src s = Ok True t"
      using False t1(1) t(1) by (subst filewrite_loop.simps) (simp add: n1_def [symmetric] Let_def)
    moreover have "stored_file (disk t) (sb s) (i_inum (icache s i)) = put_at off src ?old"
      using t(9) app [of ?b] sel1(3) t1(9) by simp
    moreover have "\<exists>j. after_crash i s (take k (ws1 @ ws)) = put_at off (take (j * write_max) src) ?old" for k
    proof (cases "k \<le> length ws1")
      case True
      have "put_at off (take (0 * write_max) src) ?old = ?old" "put_at off (take (1 * write_max) src) ?old = on_disk i t1"
        using ab [of 0] t1(12) by (simp_all add: put_at_def)
      with True t1(13) show ?thesis by (metis append_Nil2 diff_is_0_eq take0 take_append)
    next
      case False
      then have "after_crash i s (take k (ws1 @ ws)) = after_crash i t1 (take (k - length ws1) ws)"
        using sel1(1,3) t1(9,11) by simp
      moreover obtain j where "after_crash i t1 (take (k - length ws1) ws) = put_at (off + n1) (take (j * write_max) ?b) (on_disk i t1)"
        using t(10) by blast
      ultimately have "after_crash i s (take k (ws1 @ ws)) = put_at off (take (Suc j * write_max) src) ?old"
        using app [of "take (j * write_max) ?b"] ab [of j] by simp
      then show ?thesis by blast
    qed
    ultimately show ?thesis
      using t(2-8) t1(8-11) t(12,13) file_io_trans [OF t1(7) t(11)] n1(3) by (intro exI [of _ t] exI [of _ "ws1 @ ws"]) simp
  qed
qed

section \<open>Property\<close>


text \<open>A file of 600 zero bytes, open at offset 511.\<close>

definition ex_file_inode :: inode where
  "ex_file_inode = ex_inode\<lparr>i_ref := 1, i_valid := True, i_type := T_FILE, i_nlink := 1, i_size := 600,
     i_addrs := 201 # 202 # replicate 11 0\<rparr>"

definition ex_open :: filestate where
  "ex_open = constate.extend (ex_cons\<lparr>outstanding := 0, icache := (\<lambda>_. ex_inode)(0 := ex_file_inode),
       disk := (\<lambda>_. replicate 512 0)(50 := put_dinode 0 (dinode_of ex_file_inode) (replicate 512 0))\<rparr>)
     (filestate.fields (\<lambda>_. \<lparr>f_type = FD_INODE, f_ref = 1, readable = 1, writable = 1, f_pipe = 0, f_ip = Some 0, f_off = 511\<rparr>)
       (\<lambda>_. \<lparr>p_data = [], nread = 0, nwrite = 0, readopen = False, writeopen = False\<rparr>))"

lemma ex_open_sel [simp]:
  "log_start ex_open = 100" "log_size ex_open = 30" "outstanding ex_open = 0" "log_dev ex_open = 1"
  "lh_n ex_open = 0" "lh_block ex_open = replicate 30 0"
  "disk ex_open = (\<lambda>_. replicate 512 0)(50 := put_dinode 0 (dinode_of ex_file_inode) (replicate 512 0))"
  "disksize ex_open = 1000" "held ex_open = []" "cur ex_open = Some 3" "blist ex_open = rev [0..<NBUF]"
  "bufs ex_open = (\<lambda>_. ex_buf)" "committing ex_open = False" "sb ex_open = sb ex_fs"
  "icache ex_open = (\<lambda>_. ex_inode)(0 := ex_file_inode)"
  "ftable ex_open = (\<lambda>_. \<lparr>f_type = FD_INODE, f_ref = 1, readable = 1, writable = 1, f_pipe = 0, f_ip = Some 0, f_off = 511\<rparr>)"
  by (simp_all add: ex_open_def constate.extend_def filestate.fields_def)

lemma ex_open_view: "cached ex_open bn = None" "bview ex_open = disk ex_open" "hblocks ex_open = {}" "dblocks ex_open = {}"
proof -
  show c: "cached ex_open bn = None" for bn by (simp add: cached_None_iff ex_buf_def)
  then show "bview ex_open = disk ex_open" "hblocks ex_open = {}" "dblocks ex_open = {}"
    by (auto simp: bview_def hblocks_def dblocks_def)
qed

lemma ex_open_idle: "log_idle ex_open" "fs_valid ex_open b \<longleftrightarrow> b < 1000 \<and> \<not> (100 \<le> b \<and> b \<le> 130)"
proof -
  have len: "length (put_dinode 0 (dinode_of ex_file_inode) (replicate 512 0)) = 512"
    using dinode_off_room [of 0] by (simp add: put_dinode_def dinode_of_def ex_file_inode_def BSIZE_def)
  then have "bc_ok ex_open"
    by (auto simp: bc_ok_def buf_ok_def ex_buf_def BSIZE_def Let_def)
  moreover have "b < 1000" if "b \<le> 130" for b :: uint
    using that by (rule le_less_trans) simp
  then have "log_geom ex_open"
    by (auto simp: log_geom_def ex_fs_area LOGSIZE_def)
  ultimately show "log_idle ex_open"
    by (simp add: log_idle_def log_ok_def ex_open_view logged_def dec32_def le32_def)
  show "fs_valid ex_open b \<longleftrightarrow> b < 1000 \<and> \<not> (100 \<le> b \<and> b \<le> 130)"
    by (simp add: fs_valid_def ex_open_view ex_fs_area)
qed

lemma ex_open_file: "writable_file 0 0 2 ex_open"
proof -
  have k: "k < 2 \<longleftrightarrow> k = 0 \<or> k = Suc 0" for k :: nat by auto
  have img: "file_blk ex_open 0 ` {..<2} = {201, 202}"
  proof -
    have "{..<2} = {0, Suc 0}" by auto
    then show ?thesis by (simp add: file_blk_def NDIRECT_def ex_file_inode_def)
  qed
  have "file_mapped ex_open 0 2" "file_sep ex_open 0 2"
    by (auto simp: file_mapped_def file_sep_def k ex_open_idle(2) MAXFILE_def NDIRECT_def NINDIRECT_def file_blk_def inj_on_def
        ex_file_inode_def ex_inode_def)
  moreover have "inode_apart ex_open 0 2"
    by (auto simp: inode_apart_def img inodes_ok_def ex_open_idle(2) NDIRECT_def IPB_def IBLOCK_def word_less_nat_alt word_le_nat_alt
        unat_div unat_word_ariths ex_file_inode_def ex_inode_def)
  moreover have "disk_inode ex_open (i_inum (icache ex_open 0)) = dinode_of (icache ex_open 0)"
    using get_put_dinode [of "dinode_of ex_file_inode" "replicate 512 0" 0]
    by (simp add: disk_inode_def ex_open_view IBLOCK_def ex_file_inode_def ex_inode_def length_dinode_of BSIZE_def IPB_def)
  ultimately show ?thesis
    by (simp add: writable_file_def ex_file_inode_def ex_inode_def T_FILE_def T_DEV_def BSIZE_def)
qed


end
