(* ===== verification/Exec.thy ===== *)
theory Exec
  imports Proc
begin

text \<open>
  \<open>exec.c\<close>: replacing the image of the running process by a program from the file system. The
  arguments are given as strings; \<open>sys_exec\<close> fetches them.
\<close>

section \<open>ELF files (elf.h)\<close>

record elfhdr =
  elf_magic :: uint
  elf_type :: ushort
  elf_machine :: ushort
  elf_version :: uint
  elf_entry :: uint
  elf_phoff :: uint
  elf_shoff :: uint
  elf_flags :: uint
  elf_ehsize :: ushort
  elf_phentsize :: ushort
  elf_phnum :: ushort
  elf_shentsize :: ushort
  elf_shnum :: ushort
  elf_shstrndx :: ushort

record proghdr =
  ph_type :: uint
  ph_off :: uint
  ph_vaddr :: uint
  ph_paddr :: uint
  ph_filesz :: uint
  ph_memsz :: uint
  ph_flags :: uint
  ph_align :: uint

definition ELF_MAGIC :: uint where "ELF_MAGIC = 0x464C457F"
definition ELF_PROG_LOAD :: uint where "ELF_PROG_LOAD = 1"
definition MAXARG :: nat where "MAXARG = 32"

definition dec_elfhdr :: "uchar list \<Rightarrow> elfhdr" where
  "dec_elfhdr bs =
     \<lparr>elf_magic = dec32 bs, elf_type = dec16 (drop 16 bs), elf_machine = dec16 (drop 18 bs),
      elf_version = dec32 (drop 20 bs), elf_entry = dec32 (drop 24 bs), elf_phoff = dec32 (drop 28 bs),
      elf_shoff = dec32 (drop 32 bs), elf_flags = dec32 (drop 36 bs), elf_ehsize = dec16 (drop 40 bs),
      elf_phentsize = dec16 (drop 42 bs), elf_phnum = dec16 (drop 44 bs), elf_shentsize = dec16 (drop 46 bs),
      elf_shnum = dec16 (drop 48 bs), elf_shstrndx = dec16 (drop 50 bs)\<rparr>"

definition dec_proghdr :: "uchar list \<Rightarrow> proghdr" where
  "dec_proghdr bs =
     (let w = dec32s 8 bs
      in \<lparr>ph_type = w ! 0, ph_off = w ! 1, ph_vaddr = w ! 2, ph_paddr = w ! 3, ph_filesz = w ! 4,
          ph_memsz = w ! 5, ph_flags = w ! 6, ph_align = w ! 7\<rparr>)"

section \<open>Loading the program\<close>

text \<open>The loop over the program headers; the result is the new size, or \<open>None\<close> for \<open>goto bad\<close>.\<close>

fun exec_load :: "nat \<Rightarrow> uint \<Rightarrow> nat \<Rightarrow> uint \<Rightarrow> uint \<Rightarrow> 'a filestate_scheme \<Rightarrow>
    ('a filestate_scheme, uint option) res" where
  "exec_load 0 off ip pd nsz s = Ok (Some nsz) s"
| "exec_load (Suc k) off ip pd nsz s =
     bindR (readi ip off 32 s) (\<lambda>(r, bs) s.
       let ph = dec_proghdr bs
       in if r \<noteq> 32 then Ok None s
          else if ph_type ph \<noteq> ELF_PROG_LOAD then exec_load k (off + 32) ip pd nsz s
          else if ph_memsz ph < ph_filesz ph then Ok None s
          else if ph_vaddr ph + ph_memsz ph < ph_vaddr ph then Ok None s
          else bindR (allocuvm pd nsz (ph_vaddr ph + ph_memsz ph) s) (\<lambda>nsz s.
               if nsz = 0 then Ok None s
               else if ph_vaddr ph mod PGSIZE \<noteq> 0 then Ok None s
               else bindR (loaduvm pd (ph_vaddr ph) ip (ph_off ph) (ph_filesz ph) s) (\<lambda>r s.
                    if r < 0 then Ok None s else exec_load k (off + 32) ip pd nsz s)))"

section \<open>The user stack\<close>

text \<open>Pushing the argument strings: the stack pointer and the addresses, last argument first.\<close>

fun push_args :: "uint \<Rightarrow> nat \<Rightarrow> uchar list list \<Rightarrow> uint \<Rightarrow> uint list \<Rightarrow> 'a kmem_scheme \<Rightarrow>
    ('a kmem_scheme, (uint \<times> uint list) option) res" where
  "push_args pd n [] sp as s = Ok (Some (sp, rev as)) s"
| "push_args pd n (a # argv) sp as s =
     (if MAXARG \<le> n then Ok None s
      else let sp = (sp - of_nat (length a + 1)) AND NOT 3
           in bindR (copyout pd sp (a @ [0]) s) (\<lambda>r s.
              if r < 0 then Ok None s else push_args pd (Suc n) argv sp (sp # as) s))"

definition ustack :: "uint \<Rightarrow> uint list \<Rightarrow> uint list" where
  "ustack sp as = [0xFFFFFFFF, of_nat (length as), sp - of_nat (length as + 1) * 4] @ as @ [0]"

text \<open>The part of the path after the last slash.\<close>

fun last_elem :: "uchar list \<Rightarrow> uchar list \<Rightarrow> uchar list" where
  "last_elem lst [] = lst"
| "last_elem lst (c # p) = last_elem (if c = SLASH then p else lst) p"

section \<open>exec\<close>

definition exec_bad :: "uint \<Rightarrow> nat option \<Rightarrow> 'a filestate_scheme \<Rightarrow> ('a filestate_scheme, int) res" where
  "exec_bad pd ip s =
     bindR (if pd \<noteq> 0 then freevm pd s else Ok () s) (\<lambda>_ s.
     bindR (case ip of Some i \<Rightarrow> bindR (iunlockput i s) (\<lambda>_ s. end_op s) | None \<Rightarrow> Ok () s) (\<lambda>_ s.
     Ok (- 1) s))"

text \<open>From the loaded image on, with the inode already released.\<close>

definition exec_image :: "nat \<Rightarrow> uchar list \<Rightarrow> uchar list list \<Rightarrow> uint \<Rightarrow> uint \<Rightarrow> uint \<Rightarrow> 'a filestate_scheme \<Rightarrow>
    ('a filestate_scheme, int) res" where
  "exec_image c path argv entry pd nsz s =
     (let nsz = PGROUNDUP nsz
      in bindR (allocuvm pd nsz (nsz + 2 * PGSIZE) s) (\<lambda>nsz s.
         if nsz = 0 then exec_bad pd None s
         else bindR (clearpteu pd (nsz - 2 * PGSIZE) s) (\<lambda>_ s.
              bindR (push_args pd 0 argv nsz [] s) (\<lambda>r s.
              case r of
                None \<Rightarrow> exec_bad pd None s
              | Some (sp, as) \<Rightarrow>
                  let us = ustack sp as;
                      sp = sp - of_nat (3 + length as + 1) * 4
                  in bindR (copyout pd sp (enc32s us) s) (\<lambda>r s.
                     if r < 0 then exec_bad pd None s
                     else let old = pgdir (procs s c);
                              s = upd_proc c (\<lambda>q. q\<lparr>pname := splice 0
                                    (safestrcpy (\<lambda>i. (last_elem path path @ [0]) ! i) 16) (pname q),
                                    pgdir := pd, sz := nsz, tf := (tf q)\<lparr>eip := entry, esp := sp\<rparr>\<rparr>) s
                          in bindR (switchuvm (Some c) s) (\<lambda>_ s.
                             bindR (freevm old s) (\<lambda>_ s. Ok 0 s)))))))"

definition exec :: "uchar list \<Rightarrow> uchar list list \<Rightarrow> 'a filestate_scheme \<Rightarrow> ('a filestate_scheme, int) res" where
  "exec path argv s =
     bindR (myproc s) (\<lambda>c s.
     bindR (begin_op s) (\<lambda>_ s.
     bindR (namei path s) (\<lambda>ip s.
     case ip of
       None \<Rightarrow> bindR (end_op s) (\<lambda>_ s. bindR (kprint (''exec: fail'' @ nl) [] s) (\<lambda>_ s. Ok (- 1) s))
     | Some i \<Rightarrow>
         bindR (ilock (Some i) s) (\<lambda>_ s.
         bindR (readi i 0 52 s) (\<lambda>(r, bs) s.
         let elf = dec_elfhdr bs
         in if r \<noteq> 52 \<or> elf_magic elf \<noteq> ELF_MAGIC then exec_bad 0 (Some i) s
            else bindR (setupkvm s) (\<lambda>pd s.
              if pd = 0 then exec_bad 0 (Some i) s
              else bindR (exec_load (unat (elf_phnum elf)) (elf_phoff elf) i pd 0 s) (\<lambda>r s.
                case r of
                  None \<Rightarrow> exec_bad pd (Some i) s
                | Some nsz \<Rightarrow>
                    bindR (iunlockput i s) (\<lambda>_ s.
                    bindR (end_op s) (\<lambda>_ s. exec_image c path argv (elf_entry elf) pd nsz s)))))))))"

end
