(* ===== verification/Usermem.thy ===== *)
theory Usermem
  imports Exec
begin

text \<open>
  What kernel code writes into a user address space through its page table (\<open>copyout\<close> of \<open>vm.c\<close>, and
  the argument strings that \<open>exec\<close> pushes), and what a reader of those addresses finds there.
\<close>

section \<open>Where user addresses are\<close>

definition frame :: "memory \<Rightarrow> uint \<Rightarrow> uint \<Rightarrow> uint" where
  "frame m pd va = P2V (PTE_ADDR (the (pt_entry m pd va)))"

definition phys :: "memory \<Rightarrow> uint \<Rightarrow> uint \<Rightarrow> uint" where
  "phys m pd va = frame m pd va + (va - PGROUNDDOWN va)"

text \<open>Present, open to the user, and not mapped onto the page table itself.\<close>

definition user_page_ok :: "memory \<Rightarrow> uint \<Rightarrow> uint \<Rightarrow> bool" where
  "user_page_ok m pd va \<longleftrightarrow>
     (\<exists>e. pt_entry m pd va = Some e \<and> pte_has e PTE_U) \<and> frame m pd va \<noteq> 0 \<and> frame m pd va \<notin> pt_pages m pd"

text \<open>The addresses from \<open>lo\<close> up to \<open>hi\<close>; no two of their pages share a frame.\<close>

definition user_region :: "memory \<Rightarrow> uint \<Rightarrow> nat \<Rightarrow> nat \<Rightarrow> bool" where
  "user_region m pd lo hi \<longleftrightarrow> hi \<le> 2 ^ 32 \<and>
     (\<forall>a. lo \<le> unat a \<and> unat a < hi \<longrightarrow> user_page_ok m pd a) \<and>
     (\<forall>a b. lo \<le> unat a \<and> unat a < hi \<and> lo \<le> unat b \<and> unat b < hi \<and> frame m pd a = frame m pd b \<longrightarrow>
        PGROUNDDOWN a = PGROUNDDOWN b)"

definition bytes_at :: "memory \<Rightarrow> uint \<Rightarrow> uint \<Rightarrow> uchar list \<Rightarrow> bool" where
  "bytes_at m pd va bs \<longleftrightarrow> (\<forall>k < length bs. m (phys m pd (va + of_nat k)) = bs ! k)"

definition untouched :: "memory \<Rightarrow> uint \<Rightarrow> nat \<Rightarrow> nat \<Rightarrow> memory \<Rightarrow> bool" where
  "untouched m pd lo hi m' \<longleftrightarrow>
     (\<forall>x. (\<forall>a. lo \<le> unat a \<and> unat a < hi \<longrightarrow> x \<noteq> phys m pd a) \<longrightarrow> m' x = m x)"

lemma same_page_entry: "PGROUNDDOWN a = PGROUNDDOWN b \<Longrightarrow> pt_entry m pd a = pt_entry m pd b"
  using PDX_PTX_eq_iff [of a b] by (simp add: pt_entry_def pt_slot_def)

lemma frame_aligned: "page_aligned (frame m pd va)"
  by (simp add: frame_def PTE_ADDR_PGROUNDDOWN P2V_aligned)

lemma off_lt: "va - PGROUNDDOWN va < PGSIZE"
  by (simp add: in_page_iff)

lemma phys_page: "PGROUNDDOWN (phys m pd va) = frame m pd va"
  using in_page_iff [OF frame_aligned [of m pd va], of "phys m pd va"] off_lt [of va] by (simp add: phys_def)

lemma phys_same_page:
  "PGROUNDDOWN b = PGROUNDDOWN a \<Longrightarrow> phys m pd b = phys m pd a + (b - a)"
  using same_page_entry [of b a m pd] by (simp add: phys_def frame_def)

lemma phys_inj:
  assumes "user_region m pd lo hi" "lo \<le> unat a" "unat a < hi" "lo \<le> unat b" "unat b < hi"
    and "phys m pd a = phys m pd b"
  shows "a = b"
proof -
  have "frame m pd a = frame m pd b" using assms(6) phys_page by metis
  moreover from this assms(1-5) have "PGROUNDDOWN a = PGROUNDDOWN b"
    unfolding user_region_def by blast
  ultimately show ?thesis using assms(6) by (simp add: phys_def)
qed

section \<open>Writes that leave the page table alone\<close>

definition pt_same :: "uint \<Rightarrow> memory \<Rightarrow> memory \<Rightarrow> bool" where
  "pt_same pd m m' \<longleftrightarrow> (\<forall>x. PGROUNDDOWN x \<in> pt_pages m pd \<longrightarrow> m' x = m x)"

lemma pt_same_load:
  assumes "pt_same pd m m'" "t \<in> pt_pages m pd" "page_aligned t" "unat x < 1024"
  shows "load32 m' (t + 4 * x) = load32 m (t + 4 * x)"
  using assms entry_in_page [OF assms(3,4)] by (intro load32_cong) (simp add: pt_same_def)

lemma pt_same_table:
  assumes "pt_wf m pd" "pt_same pd m m'" "unat x < 1024"
  shows "pt_table m' pd x = pt_table m pd x"
  using pt_same_load [OF assms(2) _ pt_wfD(1) [OF assms(1)] assms(3)] by (simp add: pt_table_def pt_pages_def)

lemma pt_same_entry:
  assumes "pt_wf m pd" "pt_same pd m m'"
  shows "pt_entry m' pd va = pt_entry m pd va"
proof (cases "pt_table m pd (PDX va)")
  case (Some t)
  have "t \<in> pt_pages m pd" using Some PDX_lt by (auto simp: pt_pages_def)
  from pt_same_load [OF assms(2) this pt_table_aligned [OF Some] PTX_lt]
  show ?thesis using pt_same_table [OF assms PDX_lt [of va]] Some by (simp add: pt_entry_def pt_slot_def)
qed (simp add: pt_entry_def pt_slot_def pt_same_table [OF assms PDX_lt])

lemma pt_same_all:
  assumes "pt_wf m pd" "pt_same pd m m'"
  shows "pt_wf m' pd" "frame m' pd = frame m pd" "phys m' pd = phys m pd"
    "user_region m' pd lo hi = user_region m pd lo hi" "pt_pages m' pd = pt_pages m pd"
proof -
  note c = pt_wf_cong [OF pt_same_table [OF assms]]
  show "pt_wf m' pd" "pt_pages m' pd = pt_pages m pd" using c assms(1) by auto
  show f: "frame m' pd = frame m pd" by (rule ext) (simp add: frame_def pt_same_entry [OF assms])
  then show "phys m' pd = phys m pd" by (intro ext) (simp add: phys_def)
  show "user_region m' pd lo hi = user_region m pd lo hi"
    by (simp add: user_region_def user_page_ok_def f c pt_same_entry [OF assms])
qed

lemma pt_same_refl: "pt_same pd m m"
  by (simp add: pt_same_def)

lemma pt_same_trans:
  "pt_wf m pd \<Longrightarrow> pt_same pd m m1 \<Longrightarrow> pt_same pd m1 m2 \<Longrightarrow> pt_same pd m m2"
  using pt_same_all(5) [of m pd m1] by (simp add: pt_same_def)

lemma untouched_same:
  assumes "user_region m pd lo hi" "untouched m pd l h m'" "lo \<le> l" "h \<le> hi"
  shows "pt_same pd m m'"
  unfolding pt_same_def
proof (intro allI impI)
  fix x assume x: "PGROUNDDOWN x \<in> pt_pages m pd"
  have "x \<noteq> phys m pd a" if "l \<le> unat a" "unat a < h" for a
  proof -
    have "user_page_ok m pd a" using assms(1,3,4) that by (simp add: user_region_def)
    then show ?thesis using x phys_page [of m pd a] by (auto simp: user_page_ok_def)
  qed
  then show "m' x = m x" using assms(2) by (auto simp: untouched_def)
qed

lemma untouched_trans:
  "untouched m pd l h m1 \<Longrightarrow> untouched m1 pd l' h' m2 \<Longrightarrow> phys m1 pd = phys m pd \<Longrightarrow>
   L \<le> l \<Longrightarrow> L \<le> l' \<Longrightarrow> h \<le> H \<Longrightarrow> h' \<le> H \<Longrightarrow> untouched m pd L H m2"
  by (auto simp: untouched_def)

lemma bytes_at_append:
  assumes "bytes_at m pd va b1" "bytes_at m pd (va + of_nat (length b1)) b2"
  shows "bytes_at m pd va (b1 @ b2)"
  unfolding bytes_at_def
proof (intro allI impI)
  fix k assume k: "k < length (b1 @ b2)"
  show "m (phys m pd (va + of_nat k)) = (b1 @ b2) ! k"
  proof (cases "k < length b1")
    case True
    then show ?thesis using assms(1) by (simp add: bytes_at_def nth_append)
  next
    case False
    then have "of_nat (length b1) + of_nat (k - length b1) = (of_nat k :: uint)"
      by (metis le_add_diff_inverse linorder_not_less of_nat_add)
    then have e: "va + of_nat (length b1) + of_nat (k - length b1) = va + of_nat k" by (simp only: add.assoc)
    have "k - length b1 < length b2" using False k by simp
    from assms(2) [unfolded bytes_at_def, rule_format, OF this, unfolded e]
    show ?thesis using False by (simp add: nth_append)
  qed
qed

text \<open>Bytes outside the part written stay.\<close>

lemma bytes_at_kept:
  assumes "bytes_at m pd va bs" "user_region m pd lo hi" "untouched m pd l h m'" "pt_wf m pd"
    and "lo \<le> l" "h \<le> hi" "lo \<le> unat va" "unat va + length bs \<le> hi"
    and "h \<le> unat va \<or> unat va + length bs \<le> l"
  shows "bytes_at m' pd va bs"
proof -
  note p = pt_same_all(3) [OF assms(4) untouched_same [OF assms(2,3,5,6)]]
  have hi: "hi \<le> 2 ^ 32" using assms(2) by (simp add: user_region_def)
  have "m' (phys m pd (va + of_nat k)) = m (phys m pd (va + of_nat k))" if k: "k < length bs" for k
  proof -
    have u: "unat (va + of_nat k) = unat va + k"
      using k assms(8) hi by (subst unat_add_lt) (simp_all add: unat_of_nat32)
    have "phys m pd (va + of_nat k) \<noteq> phys m pd a" if "l \<le> unat a" "unat a < h" for a
    proof
      assume "phys m pd (va + of_nat k) = phys m pd a"
      then have "va + of_nat k = a"
        by (rule phys_inj [OF assms(2), rotated 4]) (use that u k assms(5-8) in linarith)+
      then have "unat a = unat va + k" using u by metis
      with that k assms(9) show False by auto
    qed
    then show ?thesis using assms(3) by (auto simp: untouched_def)
  qed
  then show ?thesis using assms(1) by (simp add: bytes_at_def p)
qed

section \<open>copyout\<close>

lemma uva2ka_ok:
  assumes "pt_wf (mem s) pd" "user_page_ok (mem s) pd va"
  shows "uva2ka pd (PGROUNDDOWN va) s = Ok (frame (mem s) pd va) s"
proof -
  obtain e where e: "pt_entry (mem s) pd va = Some e" "pte_has e PTE_U"
    using assms(2) by (auto simp: user_page_ok_def)
  then have e': "pt_entry (mem s) pd (PGROUNDDOWN va) = Some e"
    using same_page_entry [of "PGROUNDDOWN va" va] by simp
  then obtain a where a: "pt_slot (mem s) pd (PGROUNDDOWN va) = Some a" "load32 (mem s) a = e" "pte_has e PTE_P"
    by (auto simp: pt_entry_def split: option.splits if_splits)
  then show ?thesis
    using pt_slot_nonnull [OF assms(1) a(1)] e by (simp add: uva2ka_def walkpgdir_no_alloc frame_def)
qed

text \<open>The part of the buffer that goes to one page.\<close>

lemma copyout_chunk:
  assumes "length bs \<le> unat (PGSIZE - (va - PGROUNDDOWN va))" "bs \<noteq> []"
    and "m' = put_bytes (frame m pd va + (va - PGROUNDDOWN va)) bs m"
    and "unat va + length bs \<le> 2 ^ 32"
  shows "(\<forall>k < length bs. m' (phys m pd (va + of_nat k)) = bs ! k) \<and>
    untouched m pd (unat va) (unat va + length bs) m'"
proof -
  have "unat (PGSIZE - (va - PGROUNDDOWN va)) = unat PGSIZE - unat (va - PGROUNDDOWN va)"
    by (rule unat_sub) (use off_lt [of va] in simp)
  then have room: "unat (PGSIZE - (va - PGROUNDDOWN va)) = 4096 - unat (va - PGROUNDDOWN va)"
    by (simp add: PGSIZE_def)
  with assms(1) have len: "length bs \<le> 4096" by simp
  have ph: "phys m pd (va + of_nat k) = phys m pd va + of_nat k" if "k < length bs" for k
  proof -
    have "unat (va - PGROUNDDOWN va + of_nat k) < 4096"
    proof -
      have "unat (va - PGROUNDDOWN va) + k < 4096"
        using assms(1) that unfolding room by linarith
      then show ?thesis using that len by (subst unat_add_lt) (simp_all add: unat_of_nat32)
    qed
    moreover have "va - PGROUNDDOWN va + of_nat k = va + of_nat k - PGROUNDDOWN va" by simp
    moreover have "unat PGSIZE = 4096" by (simp add: PGSIZE_def)
    ultimately have "unat (va + of_nat k - PGROUNDDOWN va) < unat PGSIZE" by metis
    then have "va + of_nat k - PGROUNDDOWN va < PGSIZE" by (simp only: word_less_nat_alt)
    then have "PGROUNDDOWN (va + of_nat k) = PGROUNDDOWN va"
      using in_page_iff [OF PGROUNDDOWN_aligned, of "va + of_nat k" va] by simp
    then show ?thesis using phys_same_page [of "va + of_nat k" va m pd] by simp
  qed
  have m': "m' x = (if unat (x - phys m pd va) < length bs then bs ! unat (x - phys m pd va) else m x)" for x
    by (simp add: assms(3) put_bytes_def phys_def)
  have un: "unat (of_nat k :: uint) = k" if "k < length bs" for k
    by (rule unat_of_nat32) (use that len in simp)
  have "untouched m pd (unat va) (unat va + length bs) m'"
    unfolding untouched_def
  proof (intro allI impI)
    fix x assume x: "\<forall>a. unat va \<le> unat a \<and> unat a < unat va + length bs \<longrightarrow> x \<noteq> phys m pd a"
    have "\<not> unat (x - phys m pd va) < length bs"
    proof
      let ?k = "unat (x - phys m pd va)"
      assume k: "?k < length bs"
      have "unat (va + of_nat ?k) = unat va + ?k"
        using k un [OF k] assms(4) by (subst unat_add_lt) auto
      with k x have "x \<noteq> phys m pd (va + of_nat ?k)" by simp
      with ph [OF k] show False by simp
    qed
    then show "m' x = m x" by (simp add: m')
  qed
  moreover have "m' (phys m pd (va + of_nat k)) = bs ! k" if "k < length bs" for k
    using that un [OF that] by (simp add: m' ph [OF that])
  ultimately show ?thesis by blast
qed

lemma copyout_ok:
  assumes "pt_wf (mem s) pd" "user_region (mem s) pd lo hi" "lo \<le> unat va" "unat va + length buf \<le> hi"
  shows "\<exists>m'. copyout pd va buf s = Ok 0 (s\<lparr>mem := m'\<rparr>) \<and> bytes_at m' pd va buf \<and>
    untouched (mem s) pd (unat va) (unat va + length buf) m' \<and> pt_same pd (mem s) m'"
  using assms
proof (induction "length buf" arbitrary: va buf s rule: less_induct)
  case less
  show ?case
  proof (cases "buf = []")
    case True
    then show ?thesis
      by (intro exI [of _ "mem s"]) (simp add: copyout.simps bytes_at_def untouched_def pt_same_refl)
  next
    case False
    let ?m = "mem s"
    have hi: "hi \<le> 2 ^ 32" using less.prems(2) by (simp add: user_region_def)
    define n where "n = min (unat (PGSIZE - (va - PGROUNDDOWN va))) (length buf)"
    define b1 where "b1 = take n buf"
    define b2 where "b2 = drop n buf"
    define m1 where "m1 = put_bytes (frame ?m pd va + (va - PGROUNDDOWN va)) b1 ?m"
    have n: "0 < n" "n \<le> length buf" using page_room [of va] False by (simp_all add: n_def)
    have b: "buf = b1 @ b2" "length b1 = n" "length b2 < length buf" "b1 \<noteq> []"
      using n by (simp_all add: b1_def b2_def) auto
    have "0 < length buf" using False by simp
    then have "unat va < hi" using less.prems(4) by linarith
    then have up: "user_page_ok ?m pd va"
      using less.prems(2,3) by (simp add: user_region_def)
    have f0: "frame ?m pd va \<noteq> 0" using up by (simp add: user_page_ok_def)
    have step: "copyout pd va buf s = copyout pd (PGROUNDDOWN va + PGSIZE) b2 (s\<lparr>mem := m1\<rparr>)"
      using False f0 by (subst copyout.simps)
        (simp add: uva2ka_ok [OF less.prems(1) up] Let_def n_def [symmetric] b1_def [symmetric] b2_def [symmetric] m1_def)
    have c: "\<And>k. k < length b1 \<Longrightarrow> m1 (phys ?m pd (va + of_nat k)) = b1 ! k"
      "untouched ?m pd (unat va) (unat va + length b1) m1"
      using copyout_chunk [OF _ b(4) m1_def] less.prems(4) hi b(2) n(2) n_def by auto
    have le1: "unat va + length b1 \<le> hi" using less.prems(4) b by simp
    have same: "pt_same pd ?m m1" by (rule untouched_same [OF less.prems(2) c(2) less.prems(3) le1])
    note all = pt_same_all [OF less.prems(1) same]
    have at1: "bytes_at m1 pd va b1" using c(1) by (simp add: bytes_at_def all(3))
    show ?thesis
    proof (cases "b2 = []")
      case True
      then have "copyout pd (PGROUNDDOWN va + PGSIZE) b2 (s\<lparr>mem := m1\<rparr>) = Ok 0 (s\<lparr>mem := m1\<rparr>)"
        by (simp add: copyout.simps)
      with True step at1 c(2) same b(1) show ?thesis by auto
    next
      case False
      then have nroom: "n = unat (PGSIZE - (va - PGROUNDDOWN va))" using b2_def n_def by auto
      have "of_nat n = PGSIZE - (va - PGROUNDDOWN va)" by (simp add: nroom)
      then have va': "PGROUNDDOWN va + PGSIZE = va + of_nat n" by simp
      have "0 < length b2" using False by simp
      moreover have "length buf = n + length b2" using b(1,2) by simp
      ultimately have lt: "unat va + n < 2 ^ 32" using less.prems(4) hi by linarith
      then have "unat (of_nat n :: uint) = n" by (intro unat_of_nat32) simp
      with lt have u: "unat (va + of_nat n) = unat va + n" by (subst unat_add_lt) simp_all
      have "\<exists>m'. copyout pd (va + of_nat n) b2 (s\<lparr>mem := m1\<rparr>) = Ok 0 (s\<lparr>mem := m1\<rparr>\<lparr>mem := m'\<rparr>) \<and>
        bytes_at m' pd (va + of_nat n) b2 \<and>
        untouched m1 pd (unat (va + of_nat n)) (unat (va + of_nat n) + length b2) m' \<and> pt_same pd m1 m'"
        using less.hyps [OF b(3), of "s\<lparr>mem := m1\<rparr>" "va + of_nat n"] all(1,4) less.prems(2-4) b u by simp
      then obtain m2 where m2: "copyout pd (va + of_nat n) b2 (s\<lparr>mem := m1\<rparr>) = Ok 0 (s\<lparr>mem := m2\<rparr>)"
        "bytes_at m2 pd (va + of_nat n) b2" "untouched m1 pd (unat va + n) (unat va + n + length b2) m2"
        "pt_same pd m1 m2"
        unfolding u by auto
      have "bytes_at m2 pd va b1"
        by (rule bytes_at_kept [OF at1 _ m2(3) all(1)]) (use all(4) less.prems b in auto)
      then have "bytes_at m2 pd va (b1 @ b2)" using m2(2) b(2) by (simp add: bytes_at_append)
      moreover have "untouched ?m pd (unat va) (unat va + length buf) m2"
        by (rule untouched_trans [OF c(2) m2(3) all(3)]) (use b in simp_all)
      ultimately show ?thesis
        using step va' m2(1) pt_same_trans [OF less.prems(1) same m2(4)] b(1) by auto
    qed
  qed
qed

section \<open>The arguments of exec\<close>

text \<open>Each string takes its bytes, the NUL and up to three bytes of alignment.\<close>

definition stack_need :: "uchar list list \<Rightarrow> nat" where
  "stack_need argv = sum_list (map (\<lambda>a. length a + 4) argv)"

definition strings_at :: "memory \<Rightarrow> uint \<Rightarrow> uint list \<Rightarrow> uchar list list \<Rightarrow> bool" where
  "strings_at m pd = list_all2 (\<lambda>b a. bytes_at m pd b (a @ [0]))"

lemma next_sp:
  fixes sp :: uint
  assumes "n + 4 \<le> unat sp" "sp' = (sp - of_nat (n + 1)) AND NOT 3"
  shows "unat sp' + n + 1 \<le> unat sp" "unat sp \<le> unat sp' + n + 4" "4 dvd unat sp'"
proof -
  have "n + 1 < 4294967296" using assms(1) unat_lt32 [of sp] by linarith
  then have n: "unat (of_nat (n + 1) :: uint) = n + 1" by (rule unat_of_nat32)
  have "of_nat (n + 1) \<le> sp" unfolding word_le_nat_alt n using assms(1) by linarith
  then have d: "unat (sp - of_nat (n + 1)) = unat sp - (n + 1)" by (simp only: unat_sub n)
  have m: "(3 :: uint) = mask 2" by (simp add: mask_eq_exp_minus_1)
  have "unat sp' = unat sp - (n + 1) - (unat sp - (n + 1)) mod 4"
    unfolding assms(2) m unat_and_not_mask d by simp
  moreover have "(unat sp - (n + 1)) mod 4 < 4" "(unat sp - (n + 1)) mod 4 \<le> unat sp - (n + 1)" by simp_all
  ultimately show "unat sp' + n + 1 \<le> unat sp" "unat sp \<le> unat sp' + n + 4"
    using assms(1) by linarith+
  show "4 dvd unat sp'"
    using \<open>unat sp' = _\<close> by (simp add: minus_mod_eq_mult_div)
qed

lemma strings_at_kept:
  assumes "strings_at m pd bs argv" "user_region m pd lo hi" "untouched m pd l h m'" "pt_wf m pd"
    and "lo \<le> l" "h \<le> hi"
    and "list_all2 (\<lambda>b a. h \<le> unat b \<and> unat b + length a + 1 \<le> hi \<and> lo \<le> unat b) bs argv"
  shows "strings_at m' pd bs argv"
  using assms(1,7) unfolding strings_at_def list_all2_conv_all_nth
  by (auto intro!: bytes_at_kept [OF _ assms(2-6)])

text \<open>The addresses lie between the new stack pointer and the old one.\<close>

definition strings_in :: "nat \<Rightarrow> nat \<Rightarrow> uint list \<Rightarrow> uchar list list \<Rightarrow> bool" where
  "strings_in l h = list_all2 (\<lambda>b a. l \<le> unat b \<and> unat b + length a + 1 \<le> h)"

lemma push_args_ok:
  assumes "pt_wf (mem s) pd" "user_region (mem s) pd lo hi" "lo + stack_need argv \<le> unat sp" "unat sp \<le> hi"
    and "n + length argv \<le> MAXARG"
  shows "\<exists>sp' bs m'. push_args pd n argv sp as s = Ok (Some (sp', rev as @ bs)) (s\<lparr>mem := m'\<rparr>) \<and>
    strings_at m' pd bs argv \<and> strings_in (unat sp') (unat sp) bs argv \<and>
    unat sp \<le> unat sp' + stack_need argv \<and> unat sp' \<le> unat sp \<and> (4 dvd unat sp \<longrightarrow> 4 dvd unat sp') \<and>
    untouched (mem s) pd (unat sp') (unat sp) m' \<and> pt_same pd (mem s) m'"
  using assms
proof (induction argv arbitrary: n sp as s)
  case Nil
  show ?case
    by (intro exI [of _ sp] exI [of _ "[]"] exI [of _ "mem s"])
      (simp add: strings_at_def strings_in_def untouched_def pt_same_refl)
next
  case (Cons a argv)
  let ?m = "mem s"
  define sp1 where "sp1 = (sp - of_nat (length a + 1)) AND NOT 3"
  have need: "stack_need (a # argv) = length a + 4 + stack_need argv" by (simp add: stack_need_def)
  have "length a + 4 \<le> unat sp" using Cons.prems(3) need by linarith
  note sp1 = next_sp [OF this sp1_def]
  have lo: "lo + stack_need argv \<le> unat sp1" using Cons.prems(3) need sp1(2) by linarith
  have le: "unat sp1 + length (a @ [0 :: uchar]) \<le> hi" using sp1(1) Cons.prems(4) by simp
  obtain m1 where m1: "copyout pd sp1 (a @ [0]) s = Ok 0 (s\<lparr>mem := m1\<rparr>)" "bytes_at m1 pd sp1 (a @ [0])"
    "untouched ?m pd (unat sp1) (unat sp1 + length (a @ [0 :: uchar])) m1" "pt_same pd ?m m1"
    using copyout_ok [OF Cons.prems(1,2) _ le] lo by auto
  note all = pt_same_all [OF Cons.prems(1) m1(4)]
  have "\<exists>sp' bs m'. push_args pd (Suc n) argv sp1 (sp1 # as) (s\<lparr>mem := m1\<rparr>) =
      Ok (Some (sp', rev (sp1 # as) @ bs)) (s\<lparr>mem := m1\<rparr>\<lparr>mem := m'\<rparr>) \<and>
    strings_at m' pd bs argv \<and> strings_in (unat sp') (unat sp1) bs argv \<and>
    unat sp1 \<le> unat sp' + stack_need argv \<and> unat sp' \<le> unat sp1 \<and> (4 dvd unat sp1 \<longrightarrow> 4 dvd unat sp') \<and>
    untouched (mem (s\<lparr>mem := m1\<rparr>)) pd (unat sp') (unat sp1) m' \<and> pt_same pd (mem (s\<lparr>mem := m1\<rparr>)) m'"
    by (rule Cons.IH) (use Cons.prems all lo sp1(1) in simp_all)
  then obtain sp' bs m' where ih: "push_args pd (Suc n) argv sp1 (sp1 # as) (s\<lparr>mem := m1\<rparr>) =
      Ok (Some (sp', rev as @ sp1 # bs)) (s\<lparr>mem := m'\<rparr>)"
    "strings_at m' pd bs argv" "strings_in (unat sp') (unat sp1) bs argv"
    "unat sp1 \<le> unat sp' + stack_need argv" "unat sp' \<le> unat sp1" "4 dvd unat sp'"
    "untouched m1 pd (unat sp') (unat sp1) m'" "pt_same pd m1 m'"
    using sp1(3) by auto
  have "bytes_at m' pd sp1 (a @ [0])"
    by (rule bytes_at_kept [OF m1(2) _ ih(7) all(1), where lo = lo and hi = hi])
      (use all(4) Cons.prems le lo ih(4) in auto)
  then have "strings_at m' pd (sp1 # bs) (a # argv)" using ih(2) by (simp add: strings_at_def)
  moreover have "strings_in (unat sp') (unat sp) (sp1 # bs) (a # argv)"
    using ih(3,5) sp1(1) unfolding strings_in_def by (auto elim!: list_all2_mono)
  moreover have "untouched ?m pd (unat sp') (unat sp) m'"
    by (rule untouched_trans [OF m1(3) ih(7) all(3)]) (use ih(5) sp1(1) in simp_all)
  moreover have "push_args pd n (a # argv) sp as s = Ok (Some (sp', rev as @ sp1 # bs)) (s\<lparr>mem := m'\<rparr>)"
    unfolding push_args.simps Let_def sp1_def [symmetric] using m1(1) ih(1) Cons.prems(5) by simp
  ultimately show ?case
    using ih(4-6) sp1 need pt_same_trans [OF Cons.prems(1) m1(4) ih(8)]
    by (intro exI [of _ sp'] exI [of _ "sp1 # bs"] exI [of _ m']) auto
qed

section \<open>Properties\<close>

text \<open>
  (C9) \<open>exec\<close> hands its arguments to the new program: after the steps that build the user stack, each
  argument string lies NUL-terminated at its address; the stack pointer, aligned to a word, points at
  the words that \<open>main\<close> expects, a return address that is never used, the number of arguments and the
  address of the vector, which follows with its final null; and nothing outside the part of the stack
  used was written.
\<close>

theorem exec_args_delivered:
  assumes "pt_wf (mem s) pd" and "user_region (mem s) pd lo (unat sp0)" and "4 dvd unat sp0"
    and "lo + stack_need argv + 4 * (4 + length argv) \<le> unat sp0" and "length argv \<le> MAXARG"
  shows "\<exists>sp as m1 m2. push_args pd 0 argv sp0 [] s = Ok (Some (sp, as)) (s\<lparr>mem := m1\<rparr>) \<and>
    copyout pd (sp - of_nat (3 + length as + 1) * 4) (enc32s (ustack sp as)) (s\<lparr>mem := m1\<rparr>) =
      Ok 0 (s\<lparr>mem := m2\<rparr>) \<and>
    strings_at m2 pd as argv \<and> length as = length argv \<and>
    (\<exists>esp. esp = sp - of_nat (3 + length as + 1) * 4 \<and> 4 dvd unat esp \<and> lo \<le> unat esp \<and>
      bytes_at m2 pd esp (enc32s ([0xFFFFFFFF, of_nat (length argv), esp + 12] @ as @ [0])) \<and>
      untouched (mem s) pd (unat esp) (unat sp0) m2)"
proof -
  let ?n = "length argv"
  obtain sp as m1 where p: "push_args pd 0 argv sp0 [] s = Ok (Some (sp, as)) (s\<lparr>mem := m1\<rparr>)"
    "strings_at m1 pd as argv" "strings_in (unat sp) (unat sp0) as argv"
    "unat sp0 \<le> unat sp + stack_need argv" "unat sp \<le> unat sp0" "4 dvd unat sp0 \<longrightarrow> 4 dvd unat sp"
    "untouched (mem s) pd (unat sp) (unat sp0) m1" "pt_same pd (mem s) m1"
  proof -
    have "lo + stack_need argv \<le> unat sp0" "0 + ?n \<le> MAXARG" using add_leD1 [OF assms(4)] assms(5) by simp_all
    from push_args_ok [OF assms(1,2) this(1) order_refl this(2), of "[]"] that show ?thesis by auto
  qed
  note all = pt_same_all [OF assms(1) p(8)]
  have len: "length as = ?n" using p(2) by (auto simp: strings_at_def dest: list_all2_lengthD)
  define esp where "esp = sp - of_nat (3 + length as + 1) * 4"
  have n: "?n \<le> 32" using assms(5) by (simp add: MAXARG_def)
  have sz: "unat (of_nat (4 * (4 + ?n)) :: uint) = 4 * (4 + ?n)" by (rule unat_of_nat32) (use n in simp)
  have e: "esp = sp - of_nat (4 * (4 + ?n))" by (simp add: esp_def len algebra_simps)
  have le: "4 * (4 + ?n) \<le> unat sp" using p(4) assms(4) by linarith
  then have ue: "unat esp = unat sp - 4 * (4 + ?n)"
    unfolding e by (subst unat_sub) (simp_all only: word_le_nat_alt sz)
  have us: "ustack sp as = [0xFFFFFFFF, of_nat ?n, esp + 12] @ as @ [0]"
    by (simp add: ustack_def e len algebra_simps)
  have ul: "length (enc32s (ustack sp as)) = 4 * (4 + ?n)" by (simp add: us len)
  have hi: "unat esp + length (enc32s (ustack sp as)) \<le> unat sp0" using ul ue le p(5) by linarith
  have lo: "lo \<le> unat esp" using ue p(4) assms(4) by linarith
  obtain m2 where m2: "copyout pd esp (enc32s (ustack sp as)) (s\<lparr>mem := m1\<rparr>) = Ok 0 (s\<lparr>mem := m2\<rparr>)"
    "bytes_at m2 pd esp (enc32s (ustack sp as))"
    "untouched m1 pd (unat esp) (unat sp) m2" "pt_same pd m1 m2"
    using copyout_ok [of "s\<lparr>mem := m1\<rparr>" pd lo "unat sp0" esp "enc32s (ustack sp as)"] all(1,4) assms(2) lo hi ue le ul
    by auto
  have "strings_at m2 pd as argv"
    by (rule strings_at_kept [OF p(2) _ m2(3) all(1) lo p(5)])
      (use p(3,4) all(4) assms(2,4) in \<open>auto simp: strings_in_def elim!: list_all2_mono\<close>)
  moreover have "untouched (mem s) pd (unat esp) (unat sp0) m2"
    by (rule untouched_trans [OF p(7) m2(3) all(3)]) (use ue p(5) in simp_all)
  moreover have "4 dvd unat esp" using p(6) assms(3) ue le by (simp add: dvd_diff_nat)
  ultimately have "strings_at m2 pd as argv \<and> length as = ?n \<and> esp = sp - of_nat (3 + length as + 1) * 4 \<and>
      4 dvd unat esp \<and> lo \<le> unat esp \<and>
      bytes_at m2 pd esp (enc32s ([0xFFFFFFFF, of_nat ?n, esp + 12] @ as @ [0])) \<and>
      untouched (mem s) pd (unat esp) (unat sp0) m2"
    using m2(2) len lo esp_def unfolding us by blast
  with p(1) m2(1) show ?thesis unfolding esp_def by blast
qed

text \<open>One page of stack at address 0, in the frame at \<open>0x80402000\<close>.\<close>

definition ex_stack :: memory where
  "ex_stack = store32 (0x80403000 + 4 * 0) 0x401007 (store32 (0x80401000 + 4 * 0) 0x402007 (\<lambda>_. 0))"

lemma ex_stack_table: "unat x < 1024 \<Longrightarrow> pt_table ex_stack 0x80403000 x = (if x = 0 then Some 0x80401000 else None)"
proof -
  assume x: "unat x < 1024"
  have al: "page_aligned 0x80403000" "page_aligned 0x80401000" by (simp_all add: page_aligned_def)
  have "load32 (\<lambda>_. 0) a = 0" for a by (simp add: load32_def le32_def)
  then have "load32 ex_stack (0x80403000 + 4 * x) = (if x = 0 then 0x401007 else 0)"
    using load_store_entry [OF al(1) _ al(1) x, of 0] load_store_entry [OF al(2) _ al(1) x, of 0]
    by (auto simp: ex_stack_def)
  then show ?thesis
    by (simp add: pt_table_def pte_has_def PTE_P_def PTE_ADDR_def P2V_def KERNBASE_def)
qed

lemma ex_stack_ok: "pt_wf ex_stack 0x80403000" "user_region ex_stack 0x80403000 0 4096"
proof -
  show "pt_wf ex_stack 0x80403000"
    unfolding pt_wf_def by (auto simp: ex_stack_table page_aligned_def split: if_splits)
  have al: "page_aligned 0x80403000" "page_aligned 0x80401000" by (simp_all add: page_aligned_def)
  have "load32 ex_stack (0x80401000 + 4 * 0) = 0x402007"
    using load_store_entry [OF al(1) _ al(2), of 0 0] load_store_entry [OF al(2) _ al(2), of 0 0]
    by (simp add: ex_stack_def)
  moreover have z: "PGROUNDDOWN a = 0" if "unat a < 4096" for a
    using that by (simp add: word_unat_eq_iff unat_PGROUNDDOWN)
  moreover have "PDX 0 = 0" "PTX 0 = 0" by (simp_all add: PDX_def PTX_def)
  ultimately have e: "pt_entry ex_stack 0x80403000 a = Some 0x402007" if "unat a < 4096" for a
    using that same_page_entry [of a 0 ex_stack "0x80403000"] ex_stack_table [of 0]
    by (simp add: pt_entry_def pt_slot_def pte_has_def PTE_P_def)
  then have "frame ex_stack 0x80403000 a = 0x80402000" if "unat a < 4096" for a
    using that by (simp add: frame_def PTE_ADDR_def P2V_def KERNBASE_def)
  then show "user_region ex_stack 0x80403000 0 4096"
    using e z by (auto simp: user_region_def user_page_ok_def pt_pages_def ex_stack_table pte_has_def PTE_U_def split: if_splits)
qed

theorem exec_args_delivered_witness:
  "\<exists>sp as m1. push_args 0x80403000 0 [[99, 97, 116], [120]] 4096 [] (ex_kmem\<lparr>mem := ex_stack\<rparr>) =
     Ok (Some (sp, as)) (ex_kmem\<lparr>mem := m1\<rparr>) \<and> length as = 2"
proof -
  have "unat (4096 :: uint) = 4096" by simp
  with exec_args_delivered [of "ex_kmem\<lparr>mem := ex_stack\<rparr>" "0x80403000" 0 4096 "[[99, 97, 116], [120]]"] ex_stack_ok
  show ?thesis by (fastforce simp: stack_need_def MAXARG_def simp del: push_args.simps)
qed

end
