(* ===== verification/Pagefault.thy ===== *)
theory Pagefault
  imports Paging Crash Usermem
begin

text \<open>
  Demand paging end to end: \<open>do_the_swap\<close> on a page fault, through the page table, the allocator, the
  swap file and the paging lists, down to the disk. What a process sees of its memory is \<open>page_of\<close>:
  the frame of a page in memory, the place in the swap file of a page that is out.
\<close>

section \<open>Reading a file between transactions\<close>

lemma idle_fs_ok: "log_idle s \<Longrightarrow> fs_ok s"
  by (auto simp: log_idle_def log_ok_def fs_ok_def logged_def)

lemma idle_keeps:
  fixes s t :: "'a lstate_scheme"
  assumes "log_idle s" "fs_ok t" "fs_keeps s t"
  shows "log_idle t"
proof -
  note K = fs_keeps_sel [OF assms(3)]
  have "lh_n t = 0" using assms(1,3) by (simp add: fs_keeps_def log_idle_def)
  then show ?thesis
    using assms(1) fs_okD [OF assms(2)] K by (simp add: log_idle_def log_ok_def)
qed

lemma idle_upd [simp]:
  "log_idle (upd_inode i g s) = log_idle s" "log_idle (upd_file f h u) = log_idle u" "log_idle (wakeup1 ch v) = log_idle v"
proof -
  have v: "bc_ok (upd_inode i g s) = bc_ok s" "hblocks (upd_inode i g s) = hblocks s" "dblocks (upd_inode i g s) = dblocks s"
    "lh_n (upd_inode i g s) = lh_n s" "lh_block (upd_inode i g s) = lh_block s" "disk (upd_inode i g s) = disk s"
    "log_dev (upd_inode i g s) = log_dev s" "disksize (upd_inode i g s) = disksize s"
    by (rule same_cache, simp add: upd_inode_def bstate.truncate_def)+ (simp_all add: upd_inode_def)
  have w: "bc_ok (upd_file f h u) = bc_ok u" "hblocks (upd_file f h u) = hblocks u" "dblocks (upd_file f h u) = dblocks u"
    "lh_n (upd_file f h u) = lh_n u" "lh_block (upd_file f h u) = lh_block u" "disk (upd_file f h u) = disk u"
    "log_dev (upd_file f h u) = log_dev u" "disksize (upd_file f h u) = disksize u"
    by (rule same_cache, simp add: upd_file_def bstate.truncate_def)+ (simp_all add: upd_file_def)
  show "log_idle (upd_inode i g s) = log_idle s"
    by (simp add: log_idle_def log_ok_def logged_def log_geom_def v)
  show "log_idle (upd_file f h u) = log_idle u"
    by (simp add: log_idle_def log_ok_def logged_def log_geom_def w)
  show "log_idle (wakeup1 ch v) = log_idle v" by (simp add: log_idle_def)
qed

lemma fileread_ok:
  fixes s :: "'a filestate_scheme"
  assumes idle: "log_idle s" and p: "cur s = Some p" "held s = []" and w: "writable_file f i n s" and r: "readable (ftable s f) \<noteq> 0"
    and off: "off = unat (f_off (ftable s f))" "off + len \<le> unat (i_size (icache s i))" "0 < len"
  shows "\<exists>t. fileread f (int len) s = Ok (int len, map (file_byte s i) [off..<off + len]) t \<and> log_idle t \<and> file_io s t \<and>
    bview t = bview s \<and> disk t = disk s \<and> fs_valid t = fs_valid s \<and>
    ftable t = (ftable s)(f := (ftable s f)\<lparr>f_off := of_nat (off + len)\<rparr>) \<and>
    icache t = (icache s)(i := (icache s i)\<lparr>ilk := (ilk (icache s i))\<lparr>slocked := False, spid := 0\<rparr>\<rparr>)"
proof -
  note W = w [unfolded writable_file_def]
  let ?q = "pid (procs s p)"
  let ?s2 = "upd_inode i (lock_inode ?q) s"
  note ok = idle_fs_ok [OF idle]
  have l: "ilock (Some i) s = Ok () ?s2" using ilock_ok [OF ok, of i p] W p by simp
  have same: "file_byte ?s2 i = file_byte s i" "file_mapped ?s2 i n = file_mapped s i n"
    by (rule same_file [where i = i]; simp add: lock_inode_def)+
  have n31: "n * BSIZE < 2 ^ 31" using W by (intro file_limit) (simp add: file_mapped_def)
  have a: "fs_ok ?s2" "i_type (icache ?s2 i) \<noteq> T_DEV" "file_mapped ?s2 i n" "unat (i_size (icache ?s2 i)) \<le> n * BSIZE"
    "off \<le> unat (i_size (icache ?s2 i))" "off + len < 2 ^ 31"
    using ok W same off n31 by (simp_all add: lock_inode_def)
  have m: "min len (unat (i_size (icache ?s2 i)) - off) = len" using off by (simp add: lock_inode_def)
  obtain s3 where s3: "readi i (of_nat off) (of_nat len) ?s2 = Ok (int len, map (file_byte s i) [off..<off + len]) s3"
    "fs_after ?s2 s3 (bview s) 0"
    using readi_ok [OF a] unfolding m same by auto
  note A = fs_afterD [OF s3(2)]
  note K = fs_keeps_sel [OF A(5)]
  have ft3: "ftable s3 = ftable s" using fs_keeps_ftable(1) [OF A(5)] by simp
  have ic3: "icache s3 = (icache s)(i := lock_inode ?q (icache s i))" using A(7) by simp
  have woken: "only_woken (procs s j) (procs s3 j)" for j using A(5) by (simp add: fs_keeps_def)
  let ?s4 = "upd_file f (\<lambda>x. x\<lparr>f_off := f_off x + word_of_int (int len)\<rparr>) s3"
  let ?t = "wakeup1 (ChInodeLock i) (upd_inode i (\<lambda>n. n\<lparr>ilk := (ilk n)\<lparr>slocked := False, spid := 0\<rparr>\<rparr>) ?s4)"
  have "pid (procs s3 p) = ?q" using woken [of p] only_woken_pid by blast
  then have u: "iunlock (Some i) ?s4 = Ok () ?t"
    using iunlock_held [of ?s4 p i] K p W ic3 by (simp add: lock_inode_def)
  have offw: "f_off (ftable s f) = of_nat off" using off by simp
  have "fileread f (int len) s = Ok (int len, map (file_byte s i) [off..<off + len]) ?t"
    using r W l s3(1) u off(3) ft3 by (simp add: fileread_def offw)
  moreover have "log_idle ?t" using idle_keeps [OF _ A(1,5)] idle by simp
  moreover have "file_io s ?t"
    using file_still_keeps [OF A(5)] woken by (auto simp: file_io_def procs_wakeup1 intro: only_woken_trans only_woken_wake)
  moreover have "bview ?t = bview s" "disk ?t = disk s" "fs_valid ?t = fs_valid s" using A(2,4) K by simp_all
  moreover have "ftable ?t = (ftable s)(f := (ftable s f)\<lparr>f_off := of_nat (off + len)\<rparr>)" using ft3 offw by simp
  moreover have "icache ?t = (icache s)(i := (icache s i)\<lparr>ilk := (ilk (icache s i))\<lparr>slocked := False, spid := 0\<rparr>\<rparr>)"
    using ic3 by (simp add: lock_inode_def)
  ultimately show ?thesis by (intro exI [of _ ?t]) simp
qed

section \<open>The swap file of the running process\<close>

text \<open>
  Process \<open>p\<close> runs, no lock is held, no transaction is open, printing works, and its swap file is
  the file \<open>f\<close>, open for reading and writing on inode \<open>i\<close> with \<open>n\<close> blocks.
\<close>

definition swap_ready :: "nat \<Rightarrow> nat \<Rightarrow> nat \<Rightarrow> nat \<Rightarrow> 'a filestate_scheme \<Rightarrow> bool" where
  "swap_ready p f i n s \<longleftrightarrow> log_idle s \<and> cur s = Some p \<and> held s = [] \<and> cons_ok s \<and> 6 \<le> log_size s \<and>
     state (procs s p) = RUNNING \<and> swapFile (procs s p) = Some f \<and> readable (ftable s f) \<noteq> 0 \<and>
     writable_file f i n (upd_file f (\<lambda>x. x\<lparr>f_off := 0\<rparr>) s)"

text \<open>Memory is as it was, and processes are at most woken.\<close>

definition quiet :: "'a kmem_scheme \<Rightarrow> 'a kmem_scheme \<Rightarrow> bool" where
  "quiet s t \<longleftrightarrow> mem t = mem s \<and> freelist t = freelist s \<and> use_lock t = use_lock s \<and> kend t = kend s \<and> held t = held s \<and>
     (\<forall>k. only_woken (procs s k) (procs t k))"

lemma quiet_refl [simp]: "quiet s s"
  by (simp add: quiet_def)

lemma quiet_trans [trans]: "quiet s t \<Longrightarrow> quiet t u \<Longrightarrow> quiet s u"
  by (auto simp: quiet_def intro: only_woken_trans)

lemma quiet_running: "quiet s t \<Longrightarrow> state (procs s p) = RUNNING \<Longrightarrow> procs t p = procs s p"
proof -
  assume q: "quiet s t" "state (procs s p) = RUNNING"
  then have "only_woken (procs s p) (procs t p)" by (simp add: quiet_def)
  then obtain x where "procs t p = (procs s p)\<lparr>state := x\<rparr>" "x = state (procs s p) \<or> state (procs s p) = SLEEPING \<and> x = RUNNABLE"
    by (rule only_wokenE)
  with q(2) show "procs t p = procs s p" by simp
qed

lemma quiet_file_io: "file_io s t \<Longrightarrow> quiet s t"
  for s t :: "'a filestate_scheme"
  using file_ioD [of s t] by (simp add: quiet_def file_io_def)

lemma writable_seek:
  fixes s :: "'a filestate_scheme"
  assumes "writable_file f i n s" "unat off \<le> unat (i_size (icache s i))"
  shows "writable_file f i n (upd_file f (\<lambda>x. x\<lparr>f_off := off\<rparr>) s)"
proof -
  let ?t = "upd_file f (\<lambda>x. x\<lparr>f_off := off\<rparr>) s"
  have "file_mapped ?t i n = file_mapped s i n" "file_sep ?t i n = file_sep s i n" "inode_apart ?t i n = inode_apart s i n"
    "disk_inode ?t k = disk_inode s k" for k
    by (rule same_file [where i = i]; simp)+
  then show ?thesis using assms by (simp add: writable_file_def)
qed

lemma upd_file_upd_file: "upd_file f g (upd_file f h s) = upd_file f (g \<circ> h) s"
  by (simp add: upd_file_def)

lemma ready_seek:
  fixes s :: "'a filestate_scheme"
  assumes "swap_ready p f i n s" "unat off \<le> unat (i_size (icache s i))"
  shows "writable_file f i n (upd_file f (\<lambda>x. x\<lparr>f_off := off\<rparr>) s)"
  using writable_seek [of f i n "upd_file f (\<lambda>x. x\<lparr>f_off := 0\<rparr>) s" off] assms
  by (simp add: swap_ready_def upd_file_upd_file comp_def)

lemma ready_bytes:
  fixes s :: "'a filestate_scheme"
  assumes "swap_ready p f i n s"
  shows "on_disk i s = map (file_byte s i) [0..<unat (i_size (icache s i))]" "length (on_disk i s) = unat (i_size (icache s i))"
proof -
  let ?t = "upd_file f (\<lambda>x. x\<lparr>f_off := 0\<rparr>) s"
  have w: "writable_file f i n ?t" and idle: "log_idle s" using assms by (simp_all add: swap_ready_def)
  have "on_disk i ?t = map (file_byte ?t i) [0..<unat (i_size (icache ?t i))]"
    using stored_file_eq [where u = ?t and i = i, OF _ writable_fileD [OF w]] log_idle_view [OF idle] by simp
  moreover have "file_byte ?t i = file_byte s i" by (rule same_file [where i = i]; simp)
  ultimately show "on_disk i s = map (file_byte s i) [0..<unat (i_size (icache s i))]" by simp
  then show "length (on_disk i s) = unat (i_size (icache s i))" by simp
qed

lemma ready_read:
  fixes s :: "'a filestate_scheme"
  assumes r: "swap_ready p f i n s" and off: "unat off + 4096 \<le> length (on_disk i s)"
  shows "\<exists>t. readFromSwapFile p off PGSIZE s = Ok (4096, take 4096 (drop (unat off) (on_disk i s))) t \<and>
    swap_ready p f i n t \<and> quiet s t \<and> on_disk i t = on_disk i s"
proof -
  note R = r [unfolded swap_ready_def]
  note B = ready_bytes [OF r]
  let ?s = "upd_file f (\<lambda>x. x\<lparr>f_off := off\<rparr>) s"
  have w: "writable_file f i n ?s" using ready_seek [OF r] off B(2) by simp
  have fb: "file_byte ?s i = file_byte s i" by (rule same_file [where i = i]; simp)
  have a: "log_idle ?s" "cur ?s = Some p" "held ?s = []" "readable (ftable ?s f) \<noteq> 0" "unat off = unat (f_off (ftable ?s f))"
    "unat off + 4096 \<le> unat (i_size (icache ?s i))"
    using R off B(2) by simp_all
  obtain t where t: "fileread f (int 4096) ?s = Ok (int 4096, map (file_byte s i) [unat off..<unat off + 4096]) t" "log_idle t"
    "file_io ?s t" "bview t = bview ?s" "disk t = disk ?s" "fs_valid t = fs_valid ?s"
    "ftable t = (ftable ?s)(f := (ftable ?s f)\<lparr>f_off := of_nat (unat off + 4096)\<rparr>)"
    "icache t = (icache ?s)(i := (icache ?s i)\<lparr>ilk := (ilk (icache ?s i))\<lparr>slocked := False, spid := 0\<rparr>\<rparr>)"
    using fileread_ok [OF a(1-3) w a(4-6)] unfolding fb by auto
  have io: "file_io s t" using t(3) by (simp add: file_io_def)
  note D = file_ioD [OF io]
  have "take 4096 (drop (unat off) (on_disk i s)) = map (file_byte s i) [unat off..<unat off + 4096]"
    using off B(2) unfolding B(1) by (simp add: drop_map take_map)
  then have "readFromSwapFile p off PGSIZE s = Ok (4096, take 4096 (drop (unat off) (on_disk i s))) t"
    using t(1) R by (simp add: readFromSwapFile_def PGSIZE_def)
  moreover have "swap_ready p f i n t"
  proof -
    let ?u = "upd_file f (\<lambda>x. x\<lparr>f_off := 0\<rparr>) s" and ?v = "upd_file f (\<lambda>x. x\<lparr>f_off := 0\<rparr>) t"
    have "file_mapped ?v i n = file_mapped ?u i n" "file_sep ?v i n = file_sep ?u i n" "inode_apart ?v i n = inode_apart ?u i n"
      "disk_inode ?v k = disk_inode ?u k" for k
      using t(4,6,8) D by - (rule same_file [where i = i]; simp)+
    then have "writable_file f i n ?v"
      using R t(7,8) by (simp add: writable_file_def dinode_of_def)
    then show ?thesis
      using R t(2,7) D quiet_running [OF quiet_file_io [OF io]] by (simp add: swap_ready_def cons_ok_def)
  qed
  moreover have "on_disk i t = on_disk i s" using t(5,8) D by simp
  ultimately show ?thesis using quiet_file_io [OF io] by blast
qed

lemma ready_write:
  fixes s :: "'a filestate_scheme"
  assumes r: "swap_ready p f i n s" and off: "unat off + length src \<le> length (on_disk i s)"
  shows "\<exists>t. writeToSwapFile p src off s = Ok (int (length src)) t \<and>
    swap_ready p f i n t \<and> quiet s t \<and> on_disk i t = put_at (unat off) src (on_disk i s)"
proof -
  note R = r [unfolded swap_ready_def]
  note B = ready_bytes [OF r]
  let ?s = "upd_file f (\<lambda>x. x\<lparr>f_off := off\<rparr>) s"
  have w: "writable_file f i n ?s" using ready_seek [OF r] off B(2) by simp
  have size: "unat (i_size (icache s i)) \<le> n * BSIZE" using writable_fileD(4) [OF w] by simp
  have a: "log_idle ?s" "cur ?s = Some p" "held ?s = []" "unat off = unat (f_off (ftable ?s f))"
    "unat off + length src \<le> n * BSIZE" "6 \<le> log_size ?s"
    using R off B(2) size by simp_all
  obtain t where t: "filewrite_loop f src ?s = Ok True t" "log_idle t" "writable_file f i n t" "file_io ?s t"
    "stored_file (disk t) (sb ?s) (i_inum (icache ?s i)) = put_at (unat off) src (on_disk i ?s)"
    "ftable t = (ftable ?s)(f := (ftable ?s f)\<lparr>f_off := of_nat (unat off + length src)\<rparr>)" "i_inum (icache t i) = i_inum (icache ?s i)"
    using filewrite_loop_atomic [OF a(1-3) w a(4-6)] by (elim exE conjE) (rule that)
  have io: "file_io s t" using t(4) by (simp add: file_io_def)
  note D = file_ioD [OF io]
  have "filewrite f src (int (length src)) ?s = Ok (int (length src)) t"
    using w t(1) by (simp add: filewrite_def writable_file_def)
  then have "writeToSwapFile p src off s = Ok (int (length src)) t" using R by (simp add: writeToSwapFile_def)
  moreover have "swap_ready p f i n t"
    using R t(2,6) D quiet_running [OF quiet_file_io [OF io]] writable_seek [OF t(3), of 0] by (simp add: swap_ready_def cons_ok_def)
  moreover have "on_disk i t = put_at (unat off) src (on_disk i s)" using t(5,7) D by simp
  ultimately show ?thesis using quiet_file_io [OF io] by blast
qed

section \<open>What else happens during a fault\<close>

text \<open>Memory, the free list, the paging data of a process and the console do not matter to the file.\<close>

lemma kernel_view:
  fixes s t :: "'a filestate_scheme"
  assumes t_def: "t = s\<lparr>procs := a, mem := b, freelist := c, crt := d, crt_pos := e, uart_out := g\<rparr>"
    and pids: "\<And>k. pid (a k) = pid (procs s k)"
  shows "log_idle t = log_idle s" "bview t = bview s" "fs_valid t = fs_valid s"
proof -
  have c: "cached t = cached s" "in_use t = in_use s" "buf_ok t = buf_ok s"
    by (simp_all add: t_def pids fun_eq_iff cached_def in_use_def buf_ok_def Let_def)
  then have v: "bc_ok t = bc_ok s" "bview t = bview s" "hblocks t = hblocks s" "dblocks t = dblocks s"
    by (simp_all add: t_def fun_eq_iff bc_ok_def bview_def hblocks_def dblocks_def cong: option.case_cong)
  then show "bview t = bview s" by simp
  show "log_idle t = log_idle s" "fs_valid t = fs_valid s"
    unfolding fun_eq_iff by (simp_all add: log_idle_def log_ok_def logged_def log_geom_def fs_valid_def v) (simp_all add: t_def)
qed

lemma ready_kernel:
  fixes s :: "'a filestate_scheme"
  assumes "swap_ready p f i n s" "\<And>k. pid (a k) = pid (procs s k)" "swapFile (a p) = Some f" "state (a p) = RUNNING" "0 \<le> e" "e < 24 * 80"
  shows "swap_ready p f i n (s\<lparr>procs := a, mem := b, freelist := c, crt := d, crt_pos := e, uart_out := g\<rparr>)"
proof -
  let ?t = "s\<lparr>procs := a, mem := b, freelist := c, crt := d, crt_pos := e, uart_out := g\<rparr>"
  let ?u = "upd_file f (\<lambda>x. x\<lparr>f_off := 0\<rparr>) s" and ?v = "upd_file f (\<lambda>x. x\<lparr>f_off := 0\<rparr>) ?t"
  note V = kernel_view [OF refl assms(2), where b = b and c = c and d = d and e = e and g = g]
  have "file_mapped ?v i n = file_mapped ?u i n" "file_sep ?v i n = file_sep ?u i n" "inode_apart ?v i n = inode_apart ?u i n"
    "disk_inode ?v k = disk_inode ?u k" for k
    by (rule same_file [where i = i]; simp add: V)+
  then have "writable_file f i n ?v = writable_file f i n ?u" by (simp add: writable_file_def)
  then show ?thesis using assms by (simp add: swap_ready_def V cons_ok_def)
qed

lemma ready_mem:
  fixes s :: "'a filestate_scheme"
  assumes "swap_ready p f i n s"
  shows "swap_ready p f i n (s\<lparr>mem := m\<rparr>)" "swap_ready p f i n (s\<lparr>freelist := h\<rparr>)"
    "swapFile q = Some f \<Longrightarrow> pid q = pid (procs s p) \<Longrightarrow> state q = RUNNING \<Longrightarrow> swap_ready p f i n (upd_proc p (\<lambda>_. q) s)"
proof -
  have sf: "swapFile (procs s p) = Some f" "0 \<le> crt_pos s" "crt_pos s < 24 * 80" "state (procs s p) = RUNNING"
    using assms by (simp_all add: swap_ready_def cons_ok_def)
  note K = ready_kernel [OF assms _ _ _ sf(2,3), where d = "crt s" and g = "uart_out s"]
  show "swap_ready p f i n (s\<lparr>mem := m\<rparr>)"
    using K [where a = "procs s" and b = m and c = "freelist s"] sf(1,4) by simp
  show "swap_ready p f i n (s\<lparr>freelist := h\<rparr>)"
    using K [where a = "procs s" and b = "mem s" and c = h] sf(1,4) by simp
  show "swapFile q = Some f \<Longrightarrow> pid q = pid (procs s p) \<Longrightarrow> state q = RUNNING \<Longrightarrow> swap_ready p f i n (upd_proc p (\<lambda>_. q) s)"
    using K [where a = "(procs s)(p := q)" and b = "mem s" and c = "freelist s"] by (simp add: upd_proc_def)
qed

lemma ready_print:
  fixes s :: "'a filestate_scheme"
  assumes r: "swap_ready p f i n s" and m: "fmt_chars (str m) as \<noteq> None"
  shows "\<exists>t. kprint m as s = Ok () t \<and> swap_ready p f i n t \<and> quiet s t \<and> on_disk i t = on_disk i s"
proof -
  obtain out where out: "fmt_chars (str m) as = Some out" using m by blast
  have c: "cons_ok s" "Lcons \<notin> set (held s)" "swapFile (procs s p) = Some f" "state (procs s p) = RUNNING" using r by (simp_all add: swap_ready_def)
  obtain t where t: "kprint m as s = Ok () t" "printed s out t" using cprintf_ok [OF c(1) out c(2)] by blast
  obtain d e where d: "t = s\<lparr>crt := d, crt_pos := e, uart_out := (if uart s then uart_out s @ serial out else uart_out s)\<rparr>"
    "0 \<le> e" "e < 24 * 80"
    using t(2) by (auto simp: printed_def cons_ok_def)
  have "swap_ready p f i n t"
    using ready_kernel [OF r, where a = "procs s" and b = "mem s" and c = "freelist s" and d = d and e = e
        and g = "if uart s then uart_out s @ serial out else uart_out s"] d c(3,4) by simp
  moreover have "quiet s t" "on_disk i t = on_disk i s" using d(1) by (simp_all add: quiet_def)
  ultimately show ?thesis using t(1) by blast
qed

section \<open>Memory during a fault\<close>

lemma quiet_vm:
  assumes "quiet s t"
  shows "kfree_pages t xs = kfree_pages s xs" "vm_ok t pd xs = vm_ok s pd xs" "kpage t = kpage s"
proof -
  show k: "kpage t = kpage s" using assms by (intro ext) (simp add: quiet_def kpage_def)
  show "kfree_pages t xs = kfree_pages s xs" "vm_ok t pd xs = vm_ok s pd xs"
    using assms k by (simp_all add: quiet_def kfree_pages_def vm_ok_def)
qed

lemma vm_outside:
  assumes "vm_ok s pd xs" "\<And>a. m a \<noteq> mem s a \<Longrightarrow> PGROUNDDOWN a \<notin> set xs \<union> pt_pages (mem s) pd"
  shows "vm_ok (s\<lparr>mem := m\<rparr>) pd xs" "pt_same pd (mem s) m"
proof -
  show p: "pt_same pd (mem s) m" using assms(2) by (auto simp: pt_same_def)
  have "kfree_pages (s\<lparr>mem := m\<rparr>) xs"
    using assms by (intro kfree_pages_frame) (auto simp: vm_ok_def)
  then show "vm_ok (s\<lparr>mem := m\<rparr>) pd xs"
    using assms(1) pt_same_all [of "mem s" pd m] p by (simp add: vm_ok_def)
qed

lemma pt_same_slot: "pt_wf m pd \<Longrightarrow> pt_same pd m m' \<Longrightarrow> pt_slot m' pd va = pt_slot m pd va"
  by (simp add: pt_slot_def pt_same_table)

lemma get_bytes_page:
  assumes "page_aligned g" "\<And>a. PGROUNDDOWN a = g \<Longrightarrow> m1 a = m2 a"
  shows "get_bytes m1 g 4096 = get_bytes m2 g 4096"
proof -
  have "PGROUNDDOWN (g + of_nat k) = g" if "k < 4096" for k
    using that in_page_iff [OF assms(1), of "g + of_nat k"] by (simp add: PGSIZE_def word_less_nat_alt unat_of_nat32)
  then show ?thesis using assms(2) by (simp add: get_bytes_def)
qed

lemma put_page:
  assumes "page_aligned g" "length bs = 4096" "PGROUNDDOWN a \<noteq> g"
  shows "put_bytes g bs m a = m a"
  using in_page_iff [OF assms(1), of a] assms by (auto simp: put_bytes_def PGSIZE_def word_less_nat_alt)

lemma pte_bits: "bit PTE_P n \<longleftrightarrow> n = 0" "bit PTE_W n \<longleftrightarrow> n = 1" "bit PTE_U n \<longleftrightarrow> n = 2" "bit PTE_PG n \<longleftrightarrow> n = 9"
proof -
  have c: "PTE_P = 2 ^ 0" "PTE_W = 2 ^ 1" "PTE_U = 2 ^ 2" "PTE_PG = 2 ^ 9"
    by (simp_all add: PTE_P_def PTE_W_def PTE_U_def PTE_PG_def)
  show "bit PTE_P n \<longleftrightarrow> n = 0" "bit PTE_W n \<longleftrightarrow> n = 1" "bit PTE_U n \<longleftrightarrow> n = 2" "bit PTE_PG n \<longleftrightarrow> n = 9"
    unfolding c bit_exp_iff by auto
qed

lemma swap_entry_flags: "\<not> pte_has (swap_entry e) PTE_P" "pte_has (swap_entry e) PTE_PG" "PTE_ADDR (swap_entry e) = PTE_ADDR e"
proof -
  have "swap_entry e AND PTE_P = 0"
    unfolding swap_entry_def by (rule bit_word_eqI) (auto simp: bit_simps pte_bits)
  then show "\<not> pte_has (swap_entry e) PTE_P" by (simp add: pte_has_def)
  have "bit (swap_entry e AND PTE_PG) 9"
    unfolding swap_entry_def by (simp add: bit_simps pte_bits)
  then show "pte_has (swap_entry e) PTE_PG" unfolding pte_has_def by (metis bit_0_eq bot_apply bot_bool_def)
  show "PTE_ADDR (swap_entry e) = PTE_ADDR e"
    unfolding PTE_ADDR_def page_mask swap_entry_def by (rule bit_word_eqI) (auto simp: bit_simps pte_bits)
qed

lemma new_pte_addr: "page_aligned m \<Longrightarrow> P2V (PTE_ADDR (new_pte (V2P m) (PTE_W OR PTE_U))) = m"
proof -
  assume m: "page_aligned m"
  have "PTE_ADDR (new_pte (V2P m) (PTE_W OR PTE_U)) = V2P m"
  proof (rule bit_word_eqI)
    fix k assume "k < LENGTH(32)"
    then show "bit (PTE_ADDR (new_pte (V2P m) (PTE_W OR PTE_U))) k = bit (V2P m) k"
      using aligned_low_bits [OF V2P_aligned [OF m], of k]
      unfolding new_pte_def PTE_ADDR_def page_mask by (cases "k < 12") (auto simp: bit_simps pte_bits)
  qed
  then show ?thesis by (simp add: P2V_def V2P_def)
qed

lemma store_slot_outside:
  assumes "pt_slot m pd va = Some a" "PGROUNDDOWN x \<notin> pt_pages m pd"
  shows "store32 a e m x = m x"
proof -
  obtain t where t: "pt_table m pd (PDX va) = Some t" "a = t + 4 * PTX va" using assms(1) by (auto simp: pt_slot_def)
  then have "t \<in> pt_pages m pd" by (auto simp: pt_pages_def intro: exI [of _ "PDX va"])
  then show ?thesis using assms(2) store_entry_outside [OF pt_table_aligned [OF t(1)] PTX_lt] t(2) by metis
qed

lemma store_slot_pages: "pt_wf m pd \<Longrightarrow> pt_slot m pd va = Some a \<Longrightarrow> pt_pages (store32 a e m) pd = pt_pages m pd"
  by (rule pt_wf_cong(2)) (rule pt_table_store)

section \<open>The lists during a fault\<close>

lemma paging_op_frame:
  "remove_meta k q = Ok () q' \<Longrightarrow> state q' = state q \<and> pid q' = pid q \<and> pgdir q' = pgdir q \<and> swapFile q' = swapFile q"
  "FifoAlgo q = Ok v q' \<Longrightarrow> state q' = state q \<and> pid q' = pid q \<and> pgdir q' = pgdir q \<and> swapFile q' = swapFile q"
  "append_meta v off q = Ok () q' \<Longrightarrow> state q' = state q \<and> pid q' = pid q \<and> pgdir q' = pgdir q \<and> swapFile q' = swapFile q"
  "append_page v q = Ok () q' \<Longrightarrow> state q' = state q \<and> pid q' = pid q \<and> pgdir q' = pgdir q \<and> swapFile q' = swapFile q"
  by (auto simp: remove_meta_def FifoAlgo_def append_meta_def append_page_def Let_def split: if_splits)

lemma fault_lists:
  assumes ok: "page_list_ok q" "meta_list_ok q" and l: "resident q = v # vs" "k < length (swapped q)"
  shows "\<exists>q1 q2 q3 q4. remove_meta k q = Ok () q1 \<and> get_va_to_replace_trap q1 = Ok v q2 \<and>
    append_meta v off q2 = Ok () q3 \<and> append_page va q3 = Ok () q4 \<and> resident q4 = vs @ [va] \<and>
    swapped q4 = take k (swapped q) @ drop (Suc k) (swapped q) @ [(v, off)]"
proof -
  obtain q1 where q1: "remove_meta k q = Ok () q1" "meta_list_ok q1" "swapped q1 = take k (swapped q) @ drop (Suc k) (swapped q)"
    "page_list q1 = page_list q" "page_list_last q1 = page_list_last q"
    using remove_meta_ok [OF ok(2) l(2)] by blast
  have p1: "page_list_ok q1" "resident q1 = v # vs" using ok(1) l(1) q1(4,5) by (simp_all add: page_list_ok_def resident_def)
  obtain q2 where q2: "FifoAlgo q1 = Ok v q2" "page_list_ok q2" "resident q2 = vs" using FifoAlgo_ok [OF p1] by blast
  have m2: "meta_list_ok q2" "swapped q2 = swapped q1" using same_meta [OF FifoAlgo_frame [OF q2(1)]] q1(2) by simp_all
  have "length (swapped q) \<le> MAX_PSYCH_PAGES" using length_swapped [OF ok(2)] ok(2) by (auto simp: meta_list_ok_def)
  then have "length (swapped q2) < MAX_PSYCH_PAGES" using m2(2) q1(3) l(2) by simp
  then have "in_page_list (meta_list_last q2 + 1)"
    using m2(1) length_swapped [OF m2(1)] by (auto simp: in_page_list_def meta_list_ok_def)
  then obtain q3 where q3: "append_meta v off q2 = Ok () q3" by (simp add: append_meta_def Let_def)
  have s3: "swapped q3 = swapped q2 @ [(v, off)]" using append_meta_ok [OF m2(1) q3] by simp
  have p3: "page_list_ok q3" "resident q3 = vs" using same_pages [OF append_meta_frame [OF q3]] q2(2,3) by simp_all
  have "length (resident q) \<le> MAX_PSYCH_PAGES" using resident_len [OF ok(1)] ok(1) by (auto simp: page_list_ok_def)
  then obtain q4 where q4: "append_page va q3 = Ok () q4" "resident q4 = vs @ [va]"
    using append_page_ok [OF p3(1), of va] p3(2) l(1) by auto
  have "swapped q4 = swapped q3" using same_meta [OF append_page_frame [OF q4(1)]] by simp
  then show ?thesis
    using q1(1,3) q2(1) q3 q4 s3 m2(2) by (auto simp: get_va_to_replace_trap_def FifoAlgo_TRAP_same)
qed

section \<open>The fault\<close>

lemma on_proc_Ok: "f (procs s p) = Ok a q \<Longrightarrow> on_proc p f s = Ok a (upd_proc p (\<lambda>_. q) s)"
  by (simp add: on_proc_def)

lemma upd_proc_same_sel [simp]:
  "mem (upd_proc p g k) = mem k" "freelist (upd_proc p g k) = freelist k" "kend (upd_proc p g k) = kend k"
  "procs (upd_proc p (\<lambda>_. q) k) p = q" "disk (upd_proc p g u) = disk u" "sb (upd_proc p g w) = sb w" "icache (upd_proc p g w) = icache w"
  by (simp_all add: upd_proc_def)

lemma vm_ok_upd_proc [simp]: "vm_ok (upd_proc p g s) pd xs = vm_ok s pd xs" "kpage (upd_proc p g s) = kpage s"
  by (simp_all add: vm_ok_def kfree_pages_def kpage_def fun_eq_iff upd_proc_def)

lemma evict_mark_ok:
  fixes s :: "'a kmem_scheme"
  assumes vm: "vm_ok s pd xs" and b: "pt_slot (mem s) pd v = Some b" and q: "append_meta v off (procs s p) = Ok () q"
    and fr: "kpage s (P2V pa)" "P2V pa \<notin> set xs" "P2V pa \<notin> pt_pages (mem s) pd"
  defines "m0 \<equiv> store32 b (swap_entry (load32 (mem s) b)) (mem s)"
  shows "\<exists>m. evict_mark p v b pa off 0 s = Ok () ((upd_proc p (\<lambda>_. q) s)\<lparr>mem := m, freelist := P2V pa\<rparr>) \<and>
    vm_ok ((upd_proc p (\<lambda>_. q) s)\<lparr>mem := m, freelist := P2V pa\<rparr>) pd (P2V pa # xs) \<and> pt_same pd m0 m \<and>
    (\<forall>a. PGROUNDDOWN a \<noteq> P2V pa \<longrightarrow> m a = m0 a)"
proof -
  let ?s = "upd_proc p (\<lambda>_. q) s"
  let ?u = "?s\<lparr>mem := m0\<rparr>"
  have vm': "vm_ok ?s pd xs" "pt_slot (mem ?s) pd v = Some b" using vm b by simp_all
  have u: "vm_ok ?u pd xs" "pt_frame pd ?s xs ?u xs" using vm_ok_store [OF vm', of "swap_entry (load32 (mem s) b)"] by (simp_all add: m0_def)
  have wf: "pt_wf (mem s) pd" using vm by (simp add: vm_ok_def)
  have pp: "pt_pages m0 pd = pt_pages (mem s) pd"
    unfolding m0_def by (rule pt_wf_cong(2)) (rule pt_table_store [OF wf b])
  have k: "kfree_pages ?u xs" "kpage ?u (P2V pa)" using u(1) fr(1) by (simp_all add: vm_ok_def kpage_def)
  obtain m where m: "kfree (P2V pa) ?u = Ok () (?u\<lparr>mem := m, freelist := P2V pa\<rparr>)"
    "kfree_pages (?u\<lparr>mem := m, freelist := P2V pa\<rparr>) (P2V pa # xs)" "\<forall>a. PGROUNDDOWN a \<noteq> P2V pa \<longrightarrow> m a = m0 a"
    using kfree_ok [OF k fr(2)] by auto
  have same: "pt_same pd m0 m" using m(3) fr(3) pp unfolding pt_same_def by metis
  have wf0: "pt_wf m0 pd" using u(1) by (simp add: vm_ok_def)
  have "on_proc p (append_meta v off) s = Ok () ?s" by (rule on_proc_Ok [where f = "append_meta v off", OF q])
  moreover have "upd_proc p (\<lambda>q. q\<lparr>file_offset := file_offset q + 0\<rparr>) ?s = ?s" by (simp add: upd_proc_def)
  ultimately have "evict_mark p v b pa off 0 s = Ok () (?s\<lparr>mem := m, freelist := P2V pa\<rparr>)"
    using m(1) by (simp add: evict_mark_def Let_def m0_def del: add_0_right)
  moreover have "vm_ok (?s\<lparr>mem := m, freelist := P2V pa\<rparr>) pd (P2V pa # xs)"
    using m(2) u(1) fr(3) pt_same_all(1,5) [OF wf0 same] pp by (simp add: vm_ok_def)
  ultimately show ?thesis using same m(3) by blast
qed

text \<open>The formats match.\<close>

lemma swap_fmts [simp]:
  "fmt_chars (str (''[%d] va: %d found in file with offset: %d'' @ nl)) [AInt a, AInt b, AInt c] \<noteq> None"
  "fmt_chars (str (''[%d] va: %d read and mapped to pa: %d'' @ nl)) [AInt a, AInt b, AInt c] \<noteq> None"
  "fmt_chars (str (''[%d] va_to_be_swapped: %d is written to file_offset: %d'' @ nl)) [AInt a, AInt b, AInt c] \<noteq> None"
  "fmt_chars (str (''[%d] va_to_be_swapped: %d kfree using address: %d'' @ nl)) [AInt a, AInt b, AInt c] \<noteq> None"
  "fmt_chars (str (''[%d] va: %d stored in page_list at index: %d'' @ nl @ nl)) [AInt a, AInt b, AInt c] \<noteq> None"
  by (simp_all add: str_def nl_def)

text \<open>The first half: the page comes into the free frame \<open>m\<close> and is mapped.\<close>

lemma map_slot:
  assumes "pt_slot (mem s) pd va = Some a" "pt_entry (mem s) pd va = None" "page_aligned va" "pt_wf (mem s) pd"
  shows "mappages pd va PGSIZE pa perm s = Ok 0 (s\<lparr>mem := store32 a (new_pte pa perm) (mem s)\<rparr>)"
proof -
  have a: "a \<noteq> 0" by (rule pt_slot_nonnull [OF assms(4,1)])
  have np: "\<not> pte_has (load32 (mem s) a) PTE_P" using assms(1,2) by (auto simp: pt_entry_def split: if_splits)
  have w: "walkpgdir pd va True s = Ok a s" by (rule walkpgdir_found [OF assms(1)])
  have r: "PGROUNDDOWN va = va" by (rule PGROUNDDOWN_id [OF assms(3)])
  have l: "PGROUNDDOWN (va + PGSIZE - 1) = va"
    using in_page_iff [OF assms(3), of "va + PGSIZE - 1"] by (simp add: PGSIZE_def)
  show ?thesis
    using w a np r l by (simp add: mappages_def Let_def new_pte_def)
qed

lemma fetch_page_ok:
  fixes s :: "'a filestate_scheme"
  assumes r: "swap_ready p f i n s" and pd: "pd = pgdir (procs s p)" and vm: "vm_ok s pd (m # xs)"
    and q: "remove_meta k (procs s p) = Ok () q"
    and va: "page_aligned va" "pt_slot (mem s) pd va = Some a" "pt_entry (mem s) pd va = None"
    and off: "unat off + 4096 \<le> length (on_disk i s)"
  shows "\<exists>t. fetch_page p va k off s = Ok () t \<and> swap_ready p f i n t \<and> vm_ok t pd xs \<and> procs t p = q \<and>
    kend t = kend s \<and> on_disk i t = on_disk i s \<and> pt_slot (mem t) pd = pt_slot (mem s) pd \<and>
    pt_pages (mem t) pd = pt_pages (mem s) pd \<and>
    pt_entry (mem t) pd = (\<lambda>x. if PGROUNDDOWN x = va then Some (new_pte (V2P m) (PTE_W OR PTE_U)) else pt_entry (mem s) pd x) \<and>
    get_bytes (mem t) m 4096 = take 4096 (drop (unat off) (on_disk i s)) \<and>
    (\<forall>x. PGROUNDDOWN x \<notin> insert m (pt_pages (mem s) pd) \<longrightarrow> mem t x = mem s x)"
proof -
  note R = r [unfolded swap_ready_def]
  let ?q = "procs s p" and ?D = "on_disk i s"
  define bs where "bs = take 4096 (drop (unat off) ?D)"
  define pte where "pte = new_pte (V2P m) (PTE_W OR PTE_U)"
  have bs: "length bs = 4096" using off by (simp add: bs_def)
  have same: "state q = RUNNING \<and> pid q = pid ?q \<and> pgdir q = pd \<and> swapFile q = Some f"
    using paging_op_frame(1) [OF q] R pd by simp
  have wf: "pt_wf (mem s) pd" and m: "page_aligned m" "m \<notin> pt_pages (mem s) pd" "m \<notin> set xs"
    using vm by (auto simp: vm_ok_def kfree_pages_def kpage_def)
  obtain s1 where s1: "kprint (''[%d] va: %d found in file with offset: %d'' @ nl)
      [AInt (word_of_int (pid ?q)), AInt va, AInt off] s = Ok () s1" "swap_ready p f i n s1" "quiet s s1" "on_disk i s1 = ?D"
    using ready_print [OF r] swap_fmts(1) by blast
  have p1: "procs s1 p = ?q" using quiet_running [OF s1(3)] R by simp
  have kf: "kfree_pages s1 (m # xs)" using vm quiet_vm(1) [OF s1(3)] by (simp add: vm_ok_def)
  obtain h where h: "kalloc s1 = Ok m (s1\<lparr>freelist := h\<rparr>)" "kfree_pages (s1\<lparr>freelist := h\<rparr>) xs"
    using kalloc_Cons [OF kf] by blast
  have m0: "m \<noteq> 0" using kf kpage_nonnull by (auto simp: kfree_pages_def)
  let ?s2 = "s1\<lparr>freelist := h, mem := memset m 0 PGSIZE (mem s1)\<rparr>"
  have r2: "swap_ready p f i n ?s2" using ready_mem(1,2) s1(2) by blast
  obtain s3 where s3: "readFromSwapFile p off PGSIZE ?s2 = Ok (4096, bs) s3" "swap_ready p f i n s3" "quiet ?s2 s3" "on_disk i s3 = ?D"
    using ready_read [OF r2, of off] off s1(4) by (auto simp: bs_def)
  have ms: "mem s1 = mem s" "mem s3 = memset m 0 PGSIZE (mem s)" using s1(3) s3(3) by (simp_all add: quiet_def)
  define M1 where "M1 = put_bytes m bs (mem s3)"
  have M1: "M1 x = mem s x" if "PGROUNDDOWN x \<noteq> m" for x
    using that in_page_iff [OF m(1), of x] put_page [OF m(1) bs that] by (simp add: M1_def ms memset_eq)
  let ?s4 = "s3\<lparr>mem := M1\<rparr>"
  have p3: "procs s3 p = ?q" using quiet_running [OF s3(3)] p1 R by simp
  have vm4: "vm_ok ?s4 pd xs" "pt_same pd (mem s) M1"
  proof -
    have k2: "vm_ok (s1\<lparr>freelist := h\<rparr>) pd xs" using h(2) vm ms by (simp add: vm_ok_def)
    have o: "M1 a \<noteq> mem (s1\<lparr>freelist := h\<rparr>) a \<Longrightarrow> PGROUNDDOWN a \<notin> set xs \<union> pt_pages (mem (s1\<lparr>freelist := h\<rparr>)) pd" for a
      using M1 [of a] m ms by auto
    note V = vm_outside [OF k2 o]
    show "pt_same pd (mem s) M1" using V(2) ms by simp
    have "quiet (s1\<lparr>freelist := h, mem := M1\<rparr>) ?s4" using s3(3) by (simp add: quiet_def)
    then show "vm_ok ?s4 pd xs" using V(1) quiet_vm(2) by blast
  qed
  have r4: "swap_ready p f i n ?s4" by (rule ready_mem(1) [OF s3(2)])
  let ?s5 = "upd_proc p (\<lambda>_. q) ?s4"
  have o5: "on_proc p (remove_meta k) ?s4 = Ok () ?s5" using q p3 by (intro on_proc_Ok) simp
  have r5: "swap_ready p f i n ?s5" using same p3 by (intro ready_mem(3) [OF r4]) simp_all
  have sl: "pt_slot M1 pd = pt_slot (mem s) pd" "pt_entry M1 pd = pt_entry (mem s) pd"
    using pt_same_slot [OF wf vm4(2)] pt_same_entry [OF wf vm4(2)] by auto
  have wf1: "pt_wf M1 pd" using vm4(1) by (simp add: vm_ok_def)
  have a1: "pt_slot M1 pd va = Some a" using va(2) sl by simp
  define M2 where "M2 = store32 a pte M1"
  let ?s6 = "?s5\<lparr>mem := M2\<rparr>"
  have o6: "mappages pd va PGSIZE (V2P m) (PTE_W OR PTE_U) ?s5 = Ok 0 ?s6"
    using map_slot [of ?s5 pd va a] va sl wf1 by (simp add: M2_def pte_def)
  have vm6: "vm_ok ?s6 pd xs" using vm_ok_store(1) [of ?s5 pd xs va a pte] vm4(1) a1 by (simp add: M2_def)
  have r6: "swap_ready p f i n ?s6" by (rule ready_mem(1) [OF r5])
  have d5: "on_disk i ?s6 = ?D" using s3(4) by simp
  obtain t where t: "kprint (''[%d] va: %d read and mapped to pa: %d'' @ nl)
      [AInt (word_of_int (pid ?q)), AInt va, AInt (V2P m)] ?s6 = Ok () t" "swap_ready p f i n t" "quiet ?s6 t" "on_disk i t = ?D"
    using ready_print [OF r6] swap_fmts(2) d5 by metis
  have run: "fetch_page p va k off s = Ok () t"
    using s1(1) h(1) m0 s3(1) o5 o6 t(1) same by (simp add: fetch_page_def Let_def M1_def)
  have pt: "procs t p = q" using quiet_running [OF t(3), of p] same by simp
  have mt: "mem t = M2" "kend t = kend s" using t(3) s3(3) s1(3) by (simp_all add: quiet_def)
  have pp: "pt_pages M1 pd = pt_pages (mem s) pd" by (rule pt_same_all(5) [OF wf vm4(2)])
  have M2: "M2 x = M1 x" if "PGROUNDDOWN x \<notin> pt_pages (mem s) pd" for x
    using store_slot_outside [OF a1] that pp by (simp add: M2_def)
  have "pt_entry M2 pd = (\<lambda>x. if PGROUNDDOWN x = va then Some pte else pt_entry (mem s) pd x)"
    using pt_entry_store [OF wf1 a1, of pte] va(1) sl(2) by (auto simp: M2_def fun_eq_iff pte_def new_pte_P PGROUNDDOWN_id)
  moreover have "pt_slot M2 pd = pt_slot (mem s) pd" using pt_slot_store [OF wf1 a1] sl(1) by (simp add: M2_def fun_eq_iff)
  moreover have "pt_pages M2 pd = pt_pages (mem s) pd" using store_slot_pages [OF wf1 a1] pp by (simp add: M2_def)
  moreover have "get_bytes M2 m 4096 = bs"
  proof -
    have "get_bytes M2 m 4096 = get_bytes M1 m 4096" using M2 m(2) by (intro get_bytes_page [OF m(1)]) simp
    then show ?thesis using get_put_bytes [of bs m "mem s3"] bs by (simp add: M1_def)
  qed
  moreover have "M2 x = mem s x" if "PGROUNDDOWN x \<notin> insert m (pt_pages (mem s) pd)" for x
    using M1 [of x] M2 [of x] that by simp
  moreover have "vm_ok t pd xs" using vm6 quiet_vm(2) [OF t(3)] by simp
  ultimately show ?thesis unfolding pte_def [symmetric] bs_def [symmetric] using run t(2,4) pt mt by (intro exI [of _ t]) simp
qed

lemma evict_victim_ok:
  fixes s :: "'a filestate_scheme"
  assumes r: "swap_ready p f i n s" and pd: "pd = pgdir (procs s p)" and vm: "vm_ok s pd xs"
    and q: "get_va_to_replace_trap (procs s p) = Ok v q2" "append_meta v off q2 = Ok () q3" "append_page va q3 = Ok () q4"
    and v: "page_aligned v" "pt_entry (mem s) pd v = Some e" "P2V (PTE_ADDR e) = fr"
    and fr: "kpage s fr" "fr \<notin> set xs" "fr \<notin> pt_pages (mem s) pd"
    and off: "unat off + 4096 \<le> length (on_disk i s)"
  shows "\<exists>t. evict_victim p va off s = Ok () t \<and> swap_ready p f i n t \<and> vm_ok t pd (fr # xs) \<and> procs t p = q4 \<and>
    kend t = kend s \<and> on_disk i t = put_at (unat off) (get_bytes (mem s) fr 4096) (on_disk i s) \<and>
    pt_slot (mem t) pd = pt_slot (mem s) pd \<and> pt_pages (mem t) pd = pt_pages (mem s) pd \<and>
    pt_entry (mem t) pd = (\<lambda>x. if PGROUNDDOWN x = v then None else pt_entry (mem s) pd x) \<and>
    (\<forall>x. PGROUNDDOWN x \<notin> insert fr (pt_pages (mem s) pd) \<longrightarrow> mem t x = mem s x)"
proof -
  note R = r [unfolded swap_ready_def]
  let ?q = "procs s p" and ?D = "on_disk i s" and ?src = "get_bytes (mem s) fr 4096"
  have same: "state q2 = RUNNING \<and> pid q2 = pid ?q \<and> pgdir q2 = pd \<and> swapFile q2 = Some f"
    "state q3 = RUNNING \<and> pid q3 = pid ?q \<and> pgdir q3 = pd \<and> swapFile q3 = Some f"
    "state q4 = RUNNING \<and> pid q4 = pid ?q \<and> pgdir q4 = pd \<and> swapFile q4 = Some f"
    using paging_op_frame(2) [of ?q v q2] paging_op_frame(3) [OF q(2)] paging_op_frame(4) [OF q(3)]
      q(1) R pd by (simp_all add: get_va_to_replace_trap_def FifoAlgo_TRAP_same)
  obtain b where b: "pt_slot (mem s) pd v = Some b" "load32 (mem s) b = e"
    using v(2) by (auto simp: pt_entry_def split: option.splits if_splits)
  have wf: "pt_wf (mem s) pd" using vm by (simp add: vm_ok_def)
  let ?s8 = "upd_proc p (\<lambda>_. q2) s"
  have o8: "on_proc p get_va_to_replace_trap s = Ok v ?s8" using q(1) by (intro on_proc_Ok)
  have r8: "swap_ready p f i n ?s8" using same(1) by (intro ready_mem(3) [OF r]) simp_all
  have w8: "walkpgdir pd v True ?s8 = Ok b ?s8" using walkpgdir_found [of ?s8 pd v b] b(1) by simp
  have b0: "b \<noteq> 0" by (rule pt_slot_nonnull [OF wf b(1)])
  have "unat off + length ?src \<le> length (on_disk i ?s8)" using off by simp
  from ready_write [OF r8 this] obtain s9 where s9: "writeToSwapFile p ?src off ?s8 = Ok 4096 s9" "swap_ready p f i n s9" "quiet ?s8 s9"
    "on_disk i s9 = put_at (unat off) ?src ?D" by auto
  have o9: "evict_write p b off ?s8 = Ok (PTE_ADDR e) s9"
    using s9(1) b0 b(2) v(3) by (simp add: evict_write_def Let_def)
  obtain s10 where s10: "kprint (''[%d] va_to_be_swapped: %d is written to file_offset: %d'' @ nl)
      [AInt (word_of_int (pid ?q)), AInt v, AInt off] s9 = Ok () s10" "swap_ready p f i n s10" "quiet s9 s10" "on_disk i s10 = on_disk i s9"
    using ready_print [OF s9(2)] swap_fmts(3) by blast
  have q810: "quiet ?s8 s10" using quiet_trans [OF s9(3) s10(3)] .
  have p10: "procs s10 p = q2" using quiet_running [OF q810, of p] same(1) by simp
  have m10: "mem s10 = mem s" "kend s10 = kend s" using q810 by (simp_all add: quiet_def)
  have vm10: "vm_ok s10 pd xs" using vm quiet_vm(2) [OF q810] by simp
  have fr10: "kpage s10 (P2V (PTE_ADDR e))" "P2V (PTE_ADDR e) \<notin> set xs" "P2V (PTE_ADDR e) \<notin> pt_pages (mem s10) pd"
    using fr v(3) m10 by (simp_all add: kpage_def)
  have b10: "pt_slot (mem s10) pd v = Some b" using b(1) m10 by simp
  have q3': "append_meta v off (procs s10 p) = Ok () q3" using q(2) p10 by simp
  define M3 where "M3 = store32 b (swap_entry e) (mem s)"
  obtain M4 where M4: "evict_mark p v b (PTE_ADDR e) off 0 s10 = Ok () ((upd_proc p (\<lambda>_. q3) s10)\<lparr>mem := M4, freelist := fr\<rparr>)"
    "vm_ok ((upd_proc p (\<lambda>_. q3) s10)\<lparr>mem := M4, freelist := fr\<rparr>) pd (fr # xs)" "pt_same pd M3 M4"
    "\<forall>a. PGROUNDDOWN a \<noteq> fr \<longrightarrow> M4 a = M3 a"
    using evict_mark_ok [OF vm10 b10 q3' fr10] unfolding M3_def m10 b(2) v(3) by blast
  let ?s11 = "(upd_proc p (\<lambda>_. q3) s10)\<lparr>mem := M4, freelist := fr\<rparr>"
  have r11: "swap_ready p f i n ?s11"
    using same(1,2) p10 by (intro ready_mem(1) ready_mem(2) ready_mem(3) [OF s10(2)]) simp_all
  obtain s12 where s12: "kprint (''[%d] va_to_be_swapped: %d kfree using address: %d'' @ nl)
      [AInt (word_of_int (pid ?q)), AInt v, AInt fr] ?s11 = Ok () s12" "swap_ready p f i n s12" "quiet ?s11 s12" "on_disk i s12 = on_disk i s10"
    using ready_print [OF r11] swap_fmts(4) by fastforce
  have p12: "procs s12 p = q3" using quiet_running [OF s12(3), of p] same(2) by simp
  let ?s13 = "upd_proc p (\<lambda>_. q4) s12"
  have o13: "on_proc p (append_page va) s12 = Ok () ?s13" using q(3) p12 by (intro on_proc_Ok) simp
  have r13: "swap_ready p f i n ?s13" using same(2,3) p12 by (intro ready_mem(3) [OF s12(2)]) simp_all
  obtain t where t: "kprint (''[%d] va: %d stored in page_list at index: %d'' @ nl @ nl)
      [AInt (word_of_int (pid ?q)), AInt va, AInt (word_of_int (page_list_last q4))] ?s13 = Ok () t" "swap_ready p f i n t" "quiet ?s13 t"
    "on_disk i t = on_disk i ?s13"
    using ready_print [OF r13] swap_fmts(5) by blast
  have run: "evict_victim p va off s = Ok () t"
    using o8 w8 o9 s10(1) M4(1) s12(1) o13 t(1) v(3) same(1) by (simp add: evict_victim_def Let_def)
  have pt: "procs t p = q4" using quiet_running [OF t(3), of p] same(3) by simp
  have mt: "mem t = M4" "kend t = kend s" using s12(3) t(3) m10(2) by (simp_all add: quiet_def)
  have vmt: "vm_ok t pd (fr # xs)" using M4(2) quiet_vm(2) [OF s12(3)] quiet_vm(2) [OF t(3)] by simp
  have wf3: "pt_wf M3 pd" using vm_ok_store(1) [OF vm b(1), of "swap_entry e"] by (simp add: M3_def vm_ok_def)
  have "pt_slot M4 pd = pt_slot (mem s) pd"
    using pt_same_slot [OF wf3 M4(3)] pt_slot_store [OF wf b(1)] by (simp add: M3_def fun_eq_iff)
  moreover have "pt_pages M4 pd = pt_pages (mem s) pd"
    using pt_same_all(5) [OF wf3 M4(3)] store_slot_pages [OF wf b(1)] by (simp add: M3_def)
  moreover have "pt_entry M4 pd = (\<lambda>x. if PGROUNDDOWN x = v then None else pt_entry (mem s) pd x)"
    using pt_same_entry [OF wf3 M4(3)] pt_entry_store [OF wf b(1), of "swap_entry e"] swap_entry_flags(1) v(1)
    by (simp add: M3_def fun_eq_iff PGROUNDDOWN_id)
  moreover have "M4 x = mem s x" if "PGROUNDDOWN x \<notin> insert fr (pt_pages (mem s) pd)" for x
    using M4(4) store_slot_outside [OF b(1)] that by (simp add: M3_def)
  moreover have "on_disk i t = put_at (unat off) ?src ?D" using t(4) s12(4) s10(4) s9(4) by simp
  ultimately show ?thesis using run t(2) pt mt vmt by (intro exI [of _ t]) simp
qed

section \<open>What a process sees\<close>

text \<open>
  The bytes of the page at \<open>va\<close>: those of its frame when the page is in memory, those at its place in the
  swap file otherwise.
\<close>

definition page_of :: "nat \<Rightarrow> nat \<Rightarrow> 'a filestate_scheme \<Rightarrow> uint \<Rightarrow> uchar list" where
  "page_of p i s va =
     (if va \<in> set (resident (procs s p)) then get_bytes (mem s) (frame (mem s) (pgdir (procs s p)) va) 4096
      else case map_of (swapped (procs s p)) va of
        Some off \<Rightarrow> take 4096 (drop (unat off) (on_disk i s))
      | None \<Rightarrow> [])"

text \<open>
  The address space is in order: the free list is \<open>xs\<close>, the paging lists are well formed, every page in
  memory is mapped to a frame of its own that is neither free nor part of the page table, and every page
  in the swap file has an entry that is not present and a place inside the file.
\<close>

definition space_ok :: "nat \<Rightarrow> nat \<Rightarrow> uint list \<Rightarrow> 'a filestate_scheme \<Rightarrow> bool" where
  "space_ok p i xs s \<longleftrightarrow> (let q = procs s p; pd = pgdir q in
     vm_ok s pd xs \<and> paging_ok q \<and> inj_on (frame (mem s) pd) (set (resident q)) \<and>
     (\<forall>w \<in> set (resident q). page_aligned w \<and> pt_entry (mem s) pd w \<noteq> None \<and>
        kpage s (frame (mem s) pd w) \<and> frame (mem s) pd w \<notin> set xs \<union> pt_pages (mem s) pd) \<and>
     (\<forall>(w, off) \<in> set (swapped q). page_aligned w \<and> pt_slot (mem s) pd w \<noteq> None \<and> pt_entry (mem s) pd w = None \<and>
        unat off + 4096 \<le> length (on_disk i s)))"

text \<open>Printing the lists changes nothing of interest.\<close>

lemma ready_prints:
  fixes s :: "'a filestate_scheme"
  assumes "swap_ready p f i n s"
    and "\<And>k u. fmt_chars (str m) (as k u) \<noteq> None"
  shows "\<exists>t. forR ks (\<lambda>k u. kprint m (as k u) u) s = Ok () t \<and> swap_ready p f i n t \<and> quiet s t \<and> on_disk i t = on_disk i s"
  using assms(1)
proof (induction ks arbitrary: s)
  case (Cons k ks)
  obtain u where u: "kprint m (as k s) s = Ok () u" "swap_ready p f i n u" "quiet s u" "on_disk i u = on_disk i s"
    using ready_print [OF Cons.prems assms(2)] by blast
  obtain t where "forR ks (\<lambda>k u. kprint m (as k u) u) u = Ok () t" "swap_ready p f i n t" "quiet u t" "on_disk i t = on_disk i u" using Cons.IH [OF u(2)] by blast
  with u show ?case using quiet_trans [OF u(3)] by auto
qed simp

lemma print_lists_ok:
  fixes s :: "'a filestate_scheme"
  assumes "swap_ready p f i n s"
  shows "\<exists>t. printCurrentPageList p s = Ok () t \<and> swap_ready p f i n t \<and> quiet s t \<and> on_disk i t = on_disk i s"
    "\<exists>t. printCurrentFileList p s = Ok () t \<and> swap_ready p f i n t \<and> quiet s t \<and> on_disk i t = on_disk i s"
proof -
  have fm: "fmt_chars (str (nl @ ''============Page List(%d)=============='' @ nl)) [AInt a] \<noteq> None"
    "fmt_chars (str (''index: %d, va: %d'' @ nl)) [AInt a, AInt b] \<noteq> None"
    "fmt_chars (str (nl @ ''==================================='' @ nl)) [] \<noteq> None"
    "fmt_chars (str (nl @ ''============File/Meta List(%d)=============='' @ nl)) [AInt a] \<noteq> None"
    "fmt_chars (str (''file offset: %d, va: %d'' @ nl)) [AInt a, AInt b] \<noteq> None" for a b
    by (simp_all add: str_def nl_def)
  obtain s1 where s1: "kprint (nl @ ''============Page List(%d)=============='' @ nl) [AInt (word_of_int (pid (procs s p)))] s = Ok () s1"
    "swap_ready p f i n s1" "quiet s s1" "on_disk i s1 = on_disk i s" using ready_print [OF assms fm(1)] by blast
  obtain s2 where s2: "forR [0..<nat (page_list_last (procs s1 p) + 1)] (\<lambda>k u. kprint (''index: %d, va: %d'' @ nl)
      [AInt (of_nat k), AInt (page_list (procs u p) ! k)] u) s1 = Ok () s2"
    "swap_ready p f i n s2" "quiet s1 s2" "on_disk i s2 = on_disk i s1"
    using ready_prints [where ks = "[0..<nat (page_list_last (procs s1 p) + 1)]" and
        as = "\<lambda>k u. [AInt (of_nat k), AInt (page_list (procs u p) ! k)]", OF s1(2) fm(2)] by blast
  obtain s3 where s3: "kprint (nl @ ''==================================='' @ nl) [] s2 = Ok () s3"
    "swap_ready p f i n s3" "quiet s2 s3" "on_disk i s3 = on_disk i s2" using ready_print [OF s2(2) fm(3)] by blast
  show "\<exists>t. printCurrentPageList p s = Ok () t \<and> swap_ready p f i n t \<and> quiet s t \<and> on_disk i t = on_disk i s"
    using s1 s2 s3 quiet_trans [OF quiet_trans [OF s1(3) s2(3)] s3(3)] by (auto simp: printCurrentPageList_def)
  obtain t1 where t1: "kprint (nl @ ''============File/Meta List(%d)=============='' @ nl) [AInt (word_of_int (pid (procs s p)))] s = Ok () t1"
    "swap_ready p f i n t1" "quiet s t1" "on_disk i t1 = on_disk i s" using ready_print [OF assms fm(4)] by blast
  obtain t2 where t2: "forR [0..<nat (meta_list_last (procs t1 p) + 1)] (\<lambda>k u. kprint (''file offset: %d, va: %d'' @ nl)
      [AInt (file_start_idx (meta_list (procs u p) ! k)), AInt (meta_va (meta_list (procs u p) ! k))] u) t1 = Ok () t2"
    "swap_ready p f i n t2" "quiet t1 t2" "on_disk i t2 = on_disk i t1"
    using ready_prints [where ks = "[0..<nat (meta_list_last (procs t1 p) + 1)]" and
        as = "\<lambda>k u. [AInt (file_start_idx (meta_list (procs u p) ! k)), AInt (meta_va (meta_list (procs u p) ! k))]",
        OF t1(2) fm(5)] by blast
  obtain t3 where t3: "kprint (nl @ ''==================================='' @ nl) [] t2 = Ok () t3"
    "swap_ready p f i n t3" "quiet t2 t3" "on_disk i t3 = on_disk i t2" using ready_print [OF t2(2) fm(3)] by blast
  show "\<exists>t. printCurrentFileList p s = Ok () t \<and> swap_ready p f i n t \<and> quiet s t \<and> on_disk i t = on_disk i s"
    using t1 t2 t3 quiet_trans [OF quiet_trans [OF t1(3) t2(3)] t3(3)] by (auto simp: printCurrentFileList_def)
qed

text \<open>Reading the definitions.\<close>

lemma space_okD:
  assumes "space_ok p i xs s" "pd = pgdir (procs s p)"
  shows "vm_ok s pd xs" "paging_ok (procs s p)" "inj_on (frame (mem s) pd) (set (resident (procs s p)))"
    and "w \<in> set (resident (procs s p)) \<Longrightarrow> page_aligned w \<and> pt_entry (mem s) pd w \<noteq> None \<and>
      kpage s (frame (mem s) pd w) \<and> frame (mem s) pd w \<notin> set xs \<and> frame (mem s) pd w \<notin> pt_pages (mem s) pd"
    and "(w, off) \<in> set (swapped (procs s p)) \<Longrightarrow> page_aligned w \<and> pt_slot (mem s) pd w \<noteq> None \<and> pt_entry (mem s) pd w = None \<and>
      unat off + 4096 \<le> length (on_disk i s)"
  using assms by (auto simp: space_ok_def Let_def)

lemma paging_okD:
  assumes "paging_ok q"
  shows "page_list_ok q" "meta_list_ok q" "distinct (resident q)" "distinct (map fst (swapped q))"
    "set (resident q) \<inter> fst ` set (swapped q) = {}" "distinct (map snd (swapped q))"
  using assms by (auto simp: paging_ok_def)

lemma page_of_in: "w \<in> set (resident (procs s p)) \<Longrightarrow>
    page_of p i s w = get_bytes (mem s) (frame (mem s) (pgdir (procs s p)) w) 4096"
  by (simp add: page_of_def)

lemma page_of_out: "paging_ok (procs s p) \<Longrightarrow> (w, off) \<in> set (swapped (procs s p)) \<Longrightarrow>
    page_of p i s w = take 4096 (drop (unat off) (on_disk i s))"
proof -
  assume ok: "paging_ok (procs s p)" and w: "(w, off) \<in> set (swapped (procs s p))"
  then have "w \<in> fst ` set (swapped (procs s p))" by force
  with paging_okD(5) [OF ok] have "w \<notin> set (resident (procs s p))" by blast
  moreover have "map_of (swapped (procs s p)) w = Some off" using paging_okD(4) [OF ok] w by simp
  ultimately show ?thesis by (simp add: page_of_def)
qed

lemma page_of_none: "w \<notin> tracked (procs s p) \<Longrightarrow> page_of p i s w = []"
  by (auto simp: page_of_def tracked_def map_of_eq_None_iff [symmetric])

text \<open>The places of the swap file do not overlap.\<close>

lemma places_apart:
  assumes "paging_ok q" "(w, o1) \<in> set (swapped q)" "(x, o2) \<in> set (swapped q)" "w \<noteq> x"
  shows "unat o1 + 4096 \<le> unat o2 \<or> unat o2 + 4096 \<le> unat o1"
proof -
  have len: "length (swapped q) \<le> 15"
    using length_swapped [OF paging_okD(2) [OF assms(1)]] paging_okD(2) [OF assms(1)] by (auto simp: meta_list_ok_def MAX_PSYCH_PAGES_def)
  have place: "\<exists>k. unat o' = k * 4096" if "(y, o') \<in> set (swapped q)" for y o'
  proof -
    have "o' \<in> snd ` set (swapped q)" using that by force
    then have "o' \<in> (\<lambda>k. of_nat k * PGSIZE) ` {..<length (swapped q)}" using assms(1) by (simp add: paging_ok_def)
    then obtain k where "k < length (swapped q)" "o' = of_nat k * PGSIZE" by blast
    with len have k: "k < 15" "o' = of_nat k * PGSIZE" by auto
    have "unat (of_nat (k * 4096) :: uint) = k * 4096" by (rule unat_of_nat32) (use k(1) in simp)
    then show ?thesis using k(2) by (auto simp: PGSIZE_def)
  qed
  obtain j k where jk: "unat o1 = j * 4096" "unat o2 = k * 4096" using place [OF assms(2)] place [OF assms(3)] by blast
  have "inj_on snd (set (swapped q))" using paging_okD(6) [OF assms(1)] by (simp add: distinct_map)
  then have "o1 \<noteq> o2" using inj_onD [of snd "set (swapped q)" "(w, o1)" "(x, o2)"] assms(2-4) by auto
  then have "j \<noteq> k" using jk by (auto simp: word_unat_eq_iff)
  then show ?thesis using jk by (auto simp: nat_neq_iff)
qed

lemma put_at_places:
  assumes "o1 + length src \<le> length d"
  shows "length (put_at o1 src d) = length d" "take (length src) (drop o1 (put_at o1 src d)) = src"
    "o2 + n \<le> o1 \<or> o1 + length src \<le> o2 \<Longrightarrow> take n (drop o2 (put_at o1 src d)) = take n (drop o2 d)"
proof -
  show l: "length (put_at o1 src d) = length d" using assms by (simp add: put_at_def)
  show "take (length src) (drop o1 (put_at o1 src d)) = src" using assms by (simp add: put_at_def)
  show "take n (drop o2 (put_at o1 src d)) = take n (drop o2 d)" if "o2 + n \<le> o1 \<or> o1 + length src \<le> o2"
    using that assms l by (intro nth_equalityI) (auto simp: put_at_def nth_append)
qed

text \<open>After a fault.\<close>

lemma swap_in_space:
  fixes s :: "'a filestate_scheme"
  assumes r: "swap_ready p f i n s" and sp: "space_ok p i (m # xs) s" and res: "resident (procs s p) = v # vs"
    and k: "find (\<lambda>k. meta_va (meta_list (procs s p) ! k) = va) [0..<nat (meta_list_last (procs s p) + 1)] = Some k"
  defines "pd \<equiv> pgdir (procs s p)"
  shows "\<exists>t. swap_in p va k s = Ok () t \<and> swap_ready p f i n t \<and> space_ok p i (frame (mem s) pd v # xs) t \<and>
    page_of p i t = page_of p i s \<and> resident (procs t p) = vs @ [va] \<and> pgdir (procs t p) = pd \<and>
    pt_entry (mem t) pd va = Some (new_pte (V2P m) (PTE_W OR PTE_U)) \<and> frame (mem t) pd va = m \<and>
    (\<forall>x. PGROUNDDOWN x \<notin> insert m (insert (frame (mem s) pd v) (pt_pages (mem s) pd)) \<longrightarrow> mem t x = mem s x)"
proof -
  let ?q = "procs s p" and ?D = "on_disk i s" and ?fr = "frame (mem s) pd v"
  note S = space_okD [OF sp pd_def [THEN meta_eq_to_obj_eq]]
  note P = paging_okD [OF S(2)]
  define off where "off = file_start_idx (meta_list ?q ! k)"
  have kl: "k < length (swapped ?q)" "meta_va (meta_list ?q ! k) = va"
    using k by (auto simp: length_swapped [OF P(2)] dest: find_SomeD)
  have nth: "swapped ?q ! k = (va, off)" using nth_swapped [OF P(2) kl(1)] kl(2) by (simp add: off_def)
  then have in_s: "(va, off) \<in> set (swapped ?q)" using kl(1) nth_mem by fastforce
  note VA = S(5) [OF in_s]
  obtain a where a: "pt_slot (mem s) pd va = Some a" using VA by blast
  have v: "v \<in> set (resident ?q)" using res by simp
  note V = S(4) [OF v]
  obtain e where e: "pt_entry (mem s) pd v = Some e" "P2V (PTE_ADDR e) = ?fr" using V by (auto simp: frame_def)
  obtain q1 q2 q3 q4 where q: "remove_meta k ?q = Ok () q1" "get_va_to_replace_trap q1 = Ok v q2" "append_meta v off q2 = Ok () q3"
    "append_page va q3 = Ok () q4" "resident q4 = vs @ [va]"
    "swapped q4 = take k (swapped ?q) @ drop (Suc k) (swapped ?q) @ [(v, off)]"
    using fault_lists [OF P(1,2) res kl(1)] by blast
  have step: "page_step ?q q4" by (rule page_step.fault [OF k q(1,2) q(3) [unfolded off_def] q(4)])
  have ok4: "paging_ok q4" by (rule page_step_ok [OF step S(2)])
  have pd1: "pgdir q1 = pd" "pgdir q4 = pd"
    using paging_op_frame(1) [OF q(1)] paging_op_frame(2) [of q1 v q2] paging_op_frame(3) [OF q(3)] paging_op_frame(4) [OF q(4)] q(2)
    by (simp_all add: pd_def get_va_to_replace_trap_def FifoAlgo_TRAP_same)
  have off: "unat off + 4096 \<le> length ?D" and va: "page_aligned va" "pt_entry (mem s) pd va = None" using VA by simp_all
  obtain s1 where s1: "fetch_page p va k off s = Ok () s1" "swap_ready p f i n s1" "vm_ok s1 pd xs" "procs s1 p = q1"
    "kend s1 = kend s" "on_disk i s1 = ?D" "pt_slot (mem s1) pd = pt_slot (mem s) pd" "pt_pages (mem s1) pd = pt_pages (mem s) pd"
    "pt_entry (mem s1) pd = (\<lambda>x. if PGROUNDDOWN x = va then Some (new_pte (V2P m) (PTE_W OR PTE_U)) else pt_entry (mem s) pd x)"
    "get_bytes (mem s1) m 4096 = take 4096 (drop (unat off) ?D)"
    "\<forall>x. PGROUNDDOWN x \<notin> insert m (pt_pages (mem s) pd) \<longrightarrow> mem s1 x = mem s x"
    using fetch_page_ok [OF r pd_def [THEN meta_eq_to_obj_eq] S(1) q(1) va(1) a va(2) off] by (elim exE conjE) (rule that)
  have ne: "v \<noteq> va" using e(1) va(2) by auto
  have e1: "pt_entry (mem s1) pd v = Some e" using e(1) ne V s1(9) by (simp add: PGROUNDDOWN_id)
  have fr1: "kpage s1 ?fr" "?fr \<notin> set xs" "?fr \<notin> pt_pages (mem s1) pd" "?fr \<noteq> m" "page_aligned ?fr"
    using V s1(5,8) by (simp_all add: kpage_def frame_aligned)
  have src: "get_bytes (mem s1) ?fr 4096 = get_bytes (mem s) ?fr 4096"
    using s1(11) V fr1(4) by (intro get_bytes_page [OF fr1(5)]) simp
  have q2: "get_va_to_replace_trap (procs s1 p) = Ok v q2" and pds: "pd = pgdir (procs s1 p)"
    and off1: "unat off + 4096 \<le> length (on_disk i s1)" and V1: "page_aligned v"
    using q(2) s1(4,6) pd1(1) off V by simp_all
  obtain t where t: "evict_victim p va off s1 = Ok () t" "swap_ready p f i n t" "vm_ok t pd (?fr # xs)" "procs t p = q4"
    "kend t = kend s1" "on_disk i t = put_at (unat off) (get_bytes (mem s1) ?fr 4096) (on_disk i s1)"
    "pt_slot (mem t) pd = pt_slot (mem s1) pd" "pt_pages (mem t) pd = pt_pages (mem s1) pd"
    "pt_entry (mem t) pd = (\<lambda>x. if PGROUNDDOWN x = v then None else pt_entry (mem s1) pd x)"
    "\<forall>x. PGROUNDDOWN x \<notin> insert ?fr (pt_pages (mem s1) pd) \<longrightarrow> mem t x = mem s1 x"
    using evict_victim_ok [OF s1(2) pds s1(3) q2 q(3,4) V1 e1 e(2) fr1(1-3) off1] by (elim exE conjE) (rule that)
  have D: "on_disk i t = put_at (unat off) (get_bytes (mem s) ?fr 4096) ?D" using t(6) src s1(6) by simp
  have fit: "unat off + length (get_bytes (mem s) ?fr 4096) \<le> length ?D" using off by simp
  note PA = put_at_places [OF fit, folded D]
  have E: "pt_entry (mem t) pd = (\<lambda>x. if PGROUNDDOWN x = v then None
      else if PGROUNDDOWN x = va then Some (new_pte (V2P m) (PTE_W OR PTE_U)) else pt_entry (mem s) pd x)"
    unfolding t(9) s1(9) by (rule refl)
  have M: "mem t x = mem s x" if "PGROUNDDOWN x \<notin> insert m (insert ?fr (pt_pages (mem s) pd))" for x
    using t(10) s1(8,11) that by simp
  have m: "page_aligned m" "m \<notin> set xs" "m \<notin> pt_pages (mem s) pd" "kpage s m"
    using S(1) by (auto simp: vm_ok_def kfree_pages_def kpage_def)
  have eva: "pt_entry (mem t) pd va = Some (new_pte (V2P m) (PTE_W OR PTE_U))" using E ne va(1) by (simp add: PGROUNDDOWN_id)
  have fva: "frame (mem t) pd va = m" using eva new_pte_addr [OF m(1)] by (simp add: frame_def)
  have old: "page_aligned w \<and> w \<noteq> v \<and> w \<noteq> va \<and> pt_entry (mem t) pd w = pt_entry (mem s) pd w \<and> frame (mem t) pd w = frame (mem s) pd w \<and>
      frame (mem s) pd w \<noteq> ?fr \<and> frame (mem s) pd w \<noteq> m" if "w \<in> set vs" for w
  proof -
    have w: "w \<in> set (resident ?q)" "w \<noteq> v" using that res P(3) by auto
    note W = S(4) [OF w(1)]
    have "w \<noteq> va" using W va(2) by auto
    moreover have "frame (mem s) pd w \<noteq> ?fr" using inj_onD [OF S(3) _ w(1) v] w(2) by blast
    moreover have "pt_entry (mem t) pd w = pt_entry (mem s) pd w" using E W w(2) \<open>w \<noteq> va\<close> by (simp add: PGROUNDDOWN_id)
    ultimately show ?thesis using W w(2) by (simp add: frame_def)
  qed
  have sw4: "set (swapped q4) = insert (v, off) (set (swapped ?q) - {(va, off)})"
  proof -
    have "swapped ?q = take k (swapped ?q) @ (va, off) # drop (Suc k) (swapped ?q)"
      using id_take_nth_drop [OF kl(1)] nth by simp
    moreover have "distinct (swapped ?q)" using P(4) by (simp add: distinct_map)
    moreover have "distinct (ys @ x # zs) \<Longrightarrow> set (ys @ zs @ [y]) = insert y (set (ys @ x # zs) - {x})" for x y :: "uint \<times> uint" and ys zs by auto
    ultimately show ?thesis unfolding q(6) by metis
  qed
  have others: "(w, o') \<in> set (swapped ?q) \<and> w \<noteq> va \<and> w \<noteq> v" if "(w, o') \<in> set (swapped q4)" "w \<noteq> v" for w o'
  proof -
    have w: "(w, o') \<in> set (swapped ?q)" "(w, o') \<noteq> (va, off)" using that sw4 by auto
    have "inj_on fst (set (swapped ?q))" using P(4) by (simp add: distinct_map)
    then have "w \<noteq> va" using inj_onD [of fst "set (swapped ?q)" "(w, o')" "(va, off)"] w in_s by auto
    with w(1) that(2) show ?thesis by blast
  qed
  have vout: "(v, off) \<in> set (swapped q4)" using sw4 by blast
  have space: "space_ok p i (?fr # xs) t"
    unfolding space_ok_def Let_def t(4) pd1(2)
  proof (intro conjI ballI)
    show "vm_ok t pd (?fr # xs)" "paging_ok q4" by (rule t(3), rule ok4)
    show "inj_on (frame (mem t) pd) (set (resident q4))"
    proof -
      have "inj_on (frame (mem t) pd) (set vs)"
        using old inj_onD [OF S(3)] res by (intro inj_onI) simp
      moreover have "m \<noteq> frame (mem t) pd w" if "w \<in> set vs" for w using old [OF that] by metis
      ultimately show ?thesis unfolding q(5) using fva by (auto simp: inj_on_insert)
    qed
    fix w assume "w \<in> set (resident q4)"
    then have w: "w \<in> set vs \<or> w = va" using q(5) by auto
    then show "page_aligned w" using old va(1) by blast
    show "pt_entry (mem t) pd w \<noteq> None" using w old eva S(4) [of w] res by auto
    show "kpage t (frame (mem t) pd w)" using w old fva m(4) S(4) [of w] res t(5) s1(5) by (auto simp: kpage_def)
    show "frame (mem t) pd w \<notin> set (?fr # xs) \<union> pt_pages (mem t) pd"
      using w old fva m fr1(4) S(4) [of w] res t(8) s1(8) by auto
  next
    fix x assume "x \<in> set (swapped q4)"
    moreover obtain w o' where x: "x = (w, o')" by (cases x)
    ultimately have x4: "(w, o') \<in> set (swapped q4)" by simp
    have sl: "pt_slot (mem t) pd = pt_slot (mem s) pd" using t(7) s1(7) by simp
    show "case x of (w, off) \<Rightarrow> page_aligned w \<and> pt_slot (mem t) pd w \<noteq> None \<and> pt_entry (mem t) pd w = None \<and>
        unat off + 4096 \<le> length (on_disk i t)"
    proof (cases "w = v")
      case True
      have "o' = off" using x4 vout True paging_okD(4) [OF ok4] eq_key_imp_eq_value by fastforce
      moreover have "pt_slot (mem s) pd v \<noteq> None" using e(1) by (auto simp: pt_entry_def split: option.splits)
      ultimately show ?thesis using True x V1 sl E off PA(1) by (simp add: PGROUNDDOWN_id)
    next
      case False
      have w: "(w, o') \<in> set (swapped ?q)" "w \<noteq> va" using others [OF x4 False] by auto
      show ?thesis using S(5) [OF w(1)] False w(2) x sl E PA(1) by (simp add: PGROUNDDOWN_id)
    qed
  qed
  have pages: "page_of p i t x = page_of p i s x" for x
  proof -
    consider "x = va" | "x = v" | "x \<in> set vs" | o' where "(x, o') \<in> set (swapped q4)" "x \<noteq> v" | "x \<notin> set vs" "\<forall>o'. (x, o') \<notin> set (swapped q4)" "x \<noteq> va" "x \<noteq> v"
      by blast
    then show ?thesis
    proof cases
      case 1
      have "page_of p i t va = get_bytes (mem t) m 4096" using page_of_in [of va t p i] t(4) q(5) pd1(2) fva by simp
      also have "\<dots> = get_bytes (mem s1) m 4096" using t(10) s1(8) m fr1(4) by (intro get_bytes_page [OF m(1)]) simp
      also have "\<dots> = page_of p i s va" using s1(10) page_of_out [OF S(2) in_s] by simp
      finally show ?thesis using 1 by simp
    next
      case 2
      have "page_of p i t v = take 4096 (drop (unat off) (on_disk i t))" using page_of_out [of t p v off i] t(4) ok4 vout by simp
      then show ?thesis using 2 PA(2) page_of_in [OF v] by (simp add: pd_def)
    next
      case 3
      note w = old [OF 3]
      have "get_bytes (mem t) (frame (mem s) pd x) 4096 = get_bytes (mem s) (frame (mem s) pd x) 4096"
        using M w S(4) [of x] res 3 by (intro get_bytes_page [OF frame_aligned]) simp
      then show ?thesis using w page_of_in [of x t p i] page_of_in [of x s p i] t(4) q(5) pd1(2) res 3 by (simp add: pd_def)
    next
      case (4 o')
      have w: "(x, o') \<in> set (swapped ?q)" "x \<noteq> va" using others [OF 4] by auto
      have "unat o' + 4096 \<le> unat off \<or> unat off + 4096 \<le> unat o'" using places_apart [OF S(2) w(1) in_s w(2)] .
      then have "take 4096 (drop (unat o') (on_disk i t)) = take 4096 (drop (unat o') ?D)" by (intro PA(3)) simp
      then show ?thesis using page_of_out [of t p x o' i] page_of_out [OF S(2) w(1)] t(4) ok4 4(1) by simp
    next
      case 5
      have "x \<notin> tracked ?q" using 5 res sw4 by (auto simp: tracked_def)
      moreover have "x \<notin> tracked q4" using 5 q(5) by (auto simp: tracked_def)
      ultimately show ?thesis using page_of_none [of x t p i] page_of_none [of x s p i] t(4) by simp
    qed
  qed
  have "swap_in p va k s = Ok () t" using s1(1) t(1) by (simp add: swap_in_def off_def Let_def)
  then show ?thesis
    using t(2) space pages t(4) q(5) pd1(2) eva fva M by (intro exI [of _ t]) (simp add: fun_eq_iff)
qed

lemma quiet_space:
  fixes s t :: "'a filestate_scheme"
  assumes "swap_ready p f i n s" "quiet s t" "on_disk i t = on_disk i s"
  shows "space_ok p i xs t = space_ok p i xs s" "page_of p i t = page_of p i s" "procs t p = procs s p"
proof -
  show q: "procs t p = procs s p" using quiet_running [OF assms(2)] assms(1) by (simp add: swap_ready_def)
  have m: "mem t = mem s" using assms(2) by (simp add: quiet_def)
  show "space_ok p i xs t = space_ok p i xs s"
    by (simp add: space_ok_def q m assms(3) quiet_vm [OF assms(2)])
  show "page_of p i t = page_of p i s"
    unfolding page_of_def [abs_def] q m assms(3) by (rule refl)
qed

section \<open>Property\<close>


text \<open>
  A process with the page \<open>0x1000\<close> in the frame at \<open>0x80402000\<close>, the page \<open>0x2000\<close> in a swap file of
  4096 bytes, and one free frame.
\<close>

definition ex_swap_inode :: inode where
  "ex_swap_inode = ex_inode\<lparr>i_ref := 1, i_valid := True, i_type := T_FILE, i_nlink := 1, i_size := 4096,
     i_addrs := [201, 202, 203, 204, 205, 206, 207, 208, 0, 0, 0, 0, 0]\<rparr>"

definition ex_swap_proc :: proc where
  "ex_swap_proc = zero_proc\<lparr>pgdir := 0x80403000, state := RUNNING, pid := 7, swapFile := Some 0,
     page_list_last := 0, page_list := 0x1000 # replicate 14 0, meta_list_last := 0,
     meta_list := \<lparr>meta_va = 0x2000, file_start_idx = 0\<rparr> # replicate 14 \<lparr>meta_va = 0, file_start_idx = 0\<rparr>, file_offset := 4096\<rparr>"

definition ex_swap_mem :: memory where
  "ex_swap_mem = store32 (0x80403000 + 4 * 0) 0x404007 (store32 (0x80404000 + 4 * 1) 0x402007 (store32 (0x80404000 + 4 * 2) 0x200 (\<lambda>_. 0)))"

definition ex_fault :: filestate where
  "ex_fault = ex_open\<lparr>procs := (\<lambda>_. zero_proc)(3 := ex_swap_proc), mem := ex_swap_mem, freelist := 0x80401000, use_lock := True,
     kend := 0x80400000, disk := (\<lambda>_. replicate 512 0)(50 := put_dinode 0 (dinode_of ex_swap_inode) (replicate 512 0)),
     icache := (\<lambda>_. ex_inode)(0 := ex_swap_inode), panicked := False, crt_pos := 0\<rparr>"

lemma ex_fault_sel [simp]:
  "log_start ex_fault = 100" "log_size ex_fault = 30" "outstanding ex_fault = 0" "log_dev ex_fault = 1"
  "lh_n ex_fault = 0" "lh_block ex_fault = replicate 30 0"
  "disk ex_fault = (\<lambda>_. replicate 512 0)(50 := put_dinode 0 (dinode_of ex_swap_inode) (replicate 512 0))"
  "disksize ex_fault = 1000" "held ex_fault = []" "cur ex_fault = Some 3" "blist ex_fault = rev [0..<NBUF]"
  "bufs ex_fault = (\<lambda>_. ex_buf)" "committing ex_fault = False" "sb ex_fault = sb ex_fs"
  "icache ex_fault = (\<lambda>_. ex_inode)(0 := ex_swap_inode)" "procs ex_fault = (\<lambda>_. zero_proc)(3 := ex_swap_proc)"
  "ftable ex_fault = (\<lambda>_. \<lparr>f_type = FD_INODE, f_ref = 1, readable = 1, writable = 1, f_pipe = 0, f_ip = Some 0, f_off = 511\<rparr>)"
  "mem ex_fault = ex_swap_mem" "freelist ex_fault = 0x80401000" "kend ex_fault = 0x80400000" "panicked ex_fault = False" "crt_pos ex_fault = 0"
  by (simp_all add: ex_fault_def)

lemma ex_fault_view: "cached ex_fault bn = None" "bview ex_fault = disk ex_fault" "hblocks ex_fault = {}" "dblocks ex_fault = {}"
proof -
  show c: "cached ex_fault bn = None" for bn by (simp add: cached_None_iff ex_buf_def)
  then show "bview ex_fault = disk ex_fault" "hblocks ex_fault = {}" "dblocks ex_fault = {}"
    by (auto simp: bview_def hblocks_def dblocks_def)
qed

lemma ex_fault_idle: "log_idle ex_fault" "fs_valid ex_fault b \<longleftrightarrow> b < 1000 \<and> \<not> (100 \<le> b \<and> b \<le> 130)"
proof -
  have len: "length (put_dinode 0 (dinode_of ex_swap_inode) (replicate 512 0)) = 512"
    using dinode_off_room [of 0] by (simp add: put_dinode_def dinode_of_def ex_swap_inode_def BSIZE_def)
  then have "bc_ok ex_fault"
    by (auto simp: bc_ok_def buf_ok_def ex_buf_def BSIZE_def Let_def)
  moreover have "b < 1000" if "b \<le> 130" for b :: uint
    using that by (rule le_less_trans) simp
  then have "log_geom ex_fault"
    by (auto simp: log_geom_def ex_fs_area LOGSIZE_def)
  ultimately show "log_idle ex_fault"
    by (simp add: log_idle_def log_ok_def ex_fault_view logged_def dec32_def le32_def)
  show "fs_valid ex_fault b \<longleftrightarrow> b < 1000 \<and> \<not> (100 \<le> b \<and> b \<le> 130)"
    by (simp add: fs_valid_def ex_fault_view ex_fs_area)
qed

lemma ex_fault_blk: "k < 8 \<Longrightarrow> file_blk u 0 k = of_nat (201 + k)" if "icache u = icache ex_fault"
  using that by (auto simp: file_blk_def NDIRECT_def ex_swap_inode_def less_Suc_eq numeral_eq_Suc)

lemma ex_fault_ready: "swap_ready 3 0 0 8 ex_fault"
proof -
  let ?u = "upd_file 0 (\<lambda>x. x\<lparr>f_off := 0\<rparr>) ex_fault"
  have ub: "unat (of_nat (201 + k) :: uint) = 201 + k" if "k < 8" for k by (rule unat_of_nat32) (use that in simp)
  have blk: "file_blk ?u 0 k = of_nat (201 + k)" if "k < 8" for k using that by (intro ex_fault_blk) simp_all
  have val: "fs_valid ?u (of_nat (201 + k))" if "k < 8" for k
    using ub [OF that] that by (simp add: ex_fault_idle(2) word_less_nat_alt word_le_nat_alt)
  have inj: "inj_on (file_blk ?u 0) {..<8}"
  proof (rule inj_onI)
    fix j k :: nat assume "j \<in> {..<8}" "k \<in> {..<8}" "file_blk ?u 0 j = file_blk ?u 0 k"
    then show "j = k" using ub [of j] ub [of k] blk [of j] blk [of k] by (metis add_left_cancel lessThan_iff)
  qed
  have F: "file_blk ?u 0 k \<noteq> 0" "fs_valid ?u (file_blk ?u 0 k)" "file_blk ?u 0 k \<noteq> 50" if "k < 8" for k
    using ub [OF that] val [OF that] unfolding blk [OF that] by (auto simp: word_unat_eq_iff simp del: upd_file_valid)
  have "file_mapped ?u 0 8" "file_sep ?u 0 8"
    using F(1,2) inj by (simp_all add: file_mapped_def file_sep_def MAXFILE_def NDIRECT_def NINDIRECT_def ex_swap_inode_def ex_inode_def)
  moreover have "inode_apart ?u 0 8"
  proof -
    have "50 \<notin> file_blk ?u 0 ` {..<8}" using F(3) by fastforce
    then show ?thesis
      by (auto simp: inode_apart_def inodes_ok_def ex_fault_idle(2) NDIRECT_def IPB_def IBLOCK_def word_less_nat_alt word_le_nat_alt
          unat_div unat_word_ariths ex_swap_inode_def ex_inode_def)
  qed
  moreover have "disk_inode ?u (i_inum (icache ?u 0)) = dinode_of (icache ?u 0)"
    using get_put_dinode [of "dinode_of ex_swap_inode" "replicate 512 0" 0]
    by (simp add: disk_inode_def ex_fault_view IBLOCK_def ex_swap_inode_def ex_inode_def length_dinode_of BSIZE_def IPB_def)
  ultimately have "writable_file 0 0 8 ?u"
    by (simp add: writable_file_def ex_swap_inode_def ex_inode_def T_FILE_def T_DEV_def BSIZE_def)
  then show ?thesis
    using ex_fault_idle(1) by (simp add: swap_ready_def cons_ok_def ex_swap_proc_def)
qed

lemma ex_swap_load:
  assumes "unat x < 1024"
  shows "load32 ex_swap_mem (0x80403000 + 4 * x) = (if x = 0 then 0x404007 else 0)"
    "load32 ex_swap_mem (0x80404000 + 4 * x) = (if x = 1 then 0x402007 else if x = 2 then 0x200 else 0)"
    "load32 ex_swap_mem (0x80401000 + 4 * x) = 0"
proof -
  have al: "page_aligned 0x80403000" "page_aligned 0x80404000" "page_aligned 0x80401000" by (simp_all add: page_aligned_def)
  have z: "load32 (\<lambda>_. 0) a = 0" for a by (simp add: load32_def le32_def)
  have c: "unat (0 :: uint) < 1024" "unat (1 :: uint) < 1024" "unat (2 :: uint) < 1024" by simp_all
  note L = load_store_entry [OF al(1) c(1)] load_store_entry [OF al(2) c(2)] load_store_entry [OF al(2) c(3)]
  show "load32 ex_swap_mem (0x80403000 + 4 * x) = (if x = 0 then 0x404007 else 0)"
    unfolding ex_swap_mem_def L(1) [OF al(1) assms] L(2) [OF al(1) assms] L(3) [OF al(1) assms] z by auto
  show "load32 ex_swap_mem (0x80404000 + 4 * x) = (if x = 1 then 0x402007 else if x = 2 then 0x200 else 0)"
    unfolding ex_swap_mem_def L(1) [OF al(2) assms] L(2) [OF al(2) assms] L(3) [OF al(2) assms] z by auto
  show "load32 ex_swap_mem (0x80401000 + 4 * x) = 0"
    unfolding ex_swap_mem_def L(1) [OF al(3) assms] L(2) [OF al(3) assms] L(3) [OF al(3) assms] z by auto
qed

lemma ex_swap_table: "unat x < 1024 \<Longrightarrow> pt_table ex_swap_mem 0x80403000 x = (if x = 0 then Some 0x80404000 else None)"
  using ex_swap_load(1) [of x] by (simp add: pt_table_def pte_has_def PTE_P_def PTE_ADDR_def P2V_def KERNBASE_def)

lemma ex_swap_pt:
  "pt_wf ex_swap_mem 0x80403000" "pt_pages ex_swap_mem 0x80403000 = {0x80403000, 0x80404000}"
  "pt_slot ex_swap_mem 0x80403000 0x2000 = Some 0x80404008" "pt_entry ex_swap_mem 0x80403000 0x2000 = None"
  "pt_entry ex_swap_mem 0x80403000 0x1000 = Some 0x402007" "frame ex_swap_mem 0x80403000 0x1000 = 0x80402000"
proof -
  show "pt_wf ex_swap_mem 0x80403000"
    unfolding pt_wf_def by (auto simp: ex_swap_table page_aligned_def split: if_splits)
  show "pt_pages ex_swap_mem 0x80403000 = {0x80403000, 0x80404000}"
    by (auto simp: pt_pages_def ex_swap_table split: if_splits intro!: exI [of _ 0])
  have x: "PDX 0x1000 = 0" "PTX 0x1000 = 1" "PDX 0x2000 = 0" "PTX 0x2000 = 2" by (simp_all add: PDX_def PTX_def PDXSHIFT_def PTXSHIFT_def)
  have t0: "pt_table ex_swap_mem 0x80403000 0 = Some 0x80404000" using ex_swap_table [of 0] by simp
  show s: "pt_slot ex_swap_mem 0x80403000 0x2000 = Some 0x80404008" by (simp add: pt_slot_def x t0)
  have s1: "pt_slot ex_swap_mem 0x80403000 0x1000 = Some 0x80404004" by (simp add: pt_slot_def x t0)
  have "load32 ex_swap_mem 0x80404008 = 0x200" "load32 ex_swap_mem 0x80404004 = 0x402007"
    using ex_swap_load(2) [of 2] ex_swap_load(2) [of 1] by simp_all
  then show "pt_entry ex_swap_mem 0x80403000 0x2000 = None" "pt_entry ex_swap_mem 0x80403000 0x1000 = Some 0x402007"
    by (simp_all add: pt_entry_def s s1 pte_has_def PTE_P_def)
  then show "frame ex_swap_mem 0x80403000 0x1000 = 0x80402000" by (simp add: frame_def PTE_ADDR_def P2V_def KERNBASE_def)
qed

lemma ex_fault_space: "space_ok 3 0 [0x80401000] ex_fault" and ex_fault_lists: "resident (procs ex_fault 3) = [0x1000]"
  "swapped (procs ex_fault 3) = [(0x2000, 0)]"
proof -
  show l: "resident (procs ex_fault 3) = [0x1000]" "swapped (procs ex_fault 3) = [(0x2000, 0)]"
    by (simp_all add: resident_def swapped_def ex_swap_proc_def)
  have d: "length (on_disk 0 ex_fault) = 4096"
    using ready_bytes(2) [OF ex_fault_ready] by (simp add: ex_swap_inode_def)
  have free: "load32 ex_swap_mem 0x80401000 = 0" using ex_swap_load(3) [of 0] by simp
  have "kfree_pages ex_fault [0x80401000]"
    by (simp add: kfree_pages_def kpage_def free page_aligned_def V2P_def mmu_consts)
  then have "vm_ok ex_fault 0x80403000 [0x80401000]" using ex_swap_pt(1,2) by (simp add: vm_ok_def)
  moreover have "paging_ok (procs ex_fault 3)"
    unfolding paging_ok_def l by (simp add: page_list_ok_def meta_list_ok_def ex_swap_proc_def MAX_PSYCH_PAGES_def PGSIZE_def lessThan_Suc)
  moreover have "pgdir (procs ex_fault 3) = 0x80403000" by (simp add: ex_swap_proc_def)
  ultimately show "space_ok 3 0 [0x80401000] ex_fault"
    unfolding space_ok_def Let_def l d by (simp add: ex_swap_pt kpage_def page_aligned_def V2P_def mmu_consts)
qed


end
