(* ===== verification/Syscall.thy ===== *)
theory Syscall
  imports Exec
begin

text \<open>
  Fetching system call arguments from user memory (\<open>syscall.c\<close>) and the calls on processes
  (\<open>sysproc.c\<close>). The kernel reads and writes user memory through the page table of the running
  process. An access to a page that is not present enters \<open>trap\<close> in kernel mode: it swaps the page in
  for a process with pid above 2 and panics otherwise. Buffers are copied before or after the call
  that uses them, one byte at a time.
\<close>

section \<open>User memory\<close>

definition user_addr :: "uint \<Rightarrow> 'a kmem_scheme \<Rightarrow> uint option" where
  "user_addr va s =
     (case cur s of
        None \<Rightarrow> None
      | Some p \<Rightarrow> map_option (\<lambda>e. P2V (PTE_ADDR e) + (va AND 0xFFF)) (pt_entry (mem s) (pgdir (procs s p)) va))"

definition kernel_fault :: "uint \<Rightarrow> 'a filestate_scheme \<Rightarrow> ('a filestate_scheme, unit) res" where
  "kernel_fault va s =
     bindR (myproc s) (\<lambda>p s.
       if 2 < pid (procs s p)
       then bindR (do_the_swap p va s) (\<lambda>r s. if r = 1 then Ok () s else Panic ''trap'')
       else Panic ''trap'')"

definition user_page :: "uint \<Rightarrow> 'a filestate_scheme \<Rightarrow> ('a filestate_scheme, uint) res" where
  "user_page va s =
     (case user_addr va s of
        Some a \<Rightarrow> Ok a s
      | None \<Rightarrow> bindR (kernel_fault va s) (\<lambda>_ s.
          case user_addr va s of Some a \<Rightarrow> Ok a s | None \<Rightarrow> Fault ''page fault''))"

fun user_read :: "uint \<Rightarrow> nat \<Rightarrow> 'a filestate_scheme \<Rightarrow> ('a filestate_scheme, uchar list) res" where
  "user_read va 0 s = Ok [] s"
| "user_read va (Suc n) s =
     bindR (user_page va s) (\<lambda>a s.
       let c = mem s a in bindR (user_read (va + 1) n s) (\<lambda>bs s. Ok (c # bs) s))"

fun user_write :: "uint \<Rightarrow> uchar list \<Rightarrow> 'a filestate_scheme \<Rightarrow> ('a filestate_scheme, unit) res" where
  "user_write va [] s = Ok () s"
| "user_write va (c # bs) s =
     bindR (user_page va s) (\<lambda>a s. user_write (va + 1) bs (s\<lparr>mem := (mem s)(a := c)\<rparr>))"

section \<open>Arguments (syscall.c)\<close>

text \<open>\<open>None\<close> is the result \<open>-1\<close>.\<close>

definition fetchint :: "uint \<Rightarrow> 'a filestate_scheme \<Rightarrow> ('a filestate_scheme, uint option) res" where
  "fetchint addr s =
     bindR (myproc s) (\<lambda>p s.
       if sz (procs s p) \<le> addr \<or> sz (procs s p) < addr + 4 then Ok None s
       else bindR (user_read addr 4 s) (\<lambda>bs s. Ok (Some (dec32 bs)) s))"

text \<open>The scan for the NUL over at most \<open>n\<close> bytes.\<close>

fun fetchstr_scan :: "uint \<Rightarrow> nat \<Rightarrow> 'a filestate_scheme \<Rightarrow> ('a filestate_scheme, uchar list option) res" where
  "fetchstr_scan va 0 s = Ok None s"
| "fetchstr_scan va (Suc n) s =
     bindR (user_page va s) (\<lambda>a s.
       let c = mem s a
       in if c = 0 then Ok (Some []) s
          else bindR (fetchstr_scan (va + 1) n s) (\<lambda>r s. Ok (map_option (\<lambda>bs. c # bs) r) s))"

definition fetchstr :: "uint \<Rightarrow> 'a filestate_scheme \<Rightarrow> ('a filestate_scheme, uchar list option) res" where
  "fetchstr addr s =
     bindR (myproc s) (\<lambda>p s.
       if sz (procs s p) \<le> addr then Ok None s
       else fetchstr_scan addr (unat (sz (procs s p) - addr)) s)"

definition argint :: "nat \<Rightarrow> 'a filestate_scheme \<Rightarrow> ('a filestate_scheme, uint option) res" where
  "argint n s = bindR (myproc s) (\<lambda>p s. fetchint (esp (tf (procs s p)) + 4 + 4 * of_nat n) s)"

definition argptr :: "nat \<Rightarrow> int \<Rightarrow> 'a filestate_scheme \<Rightarrow> ('a filestate_scheme, uint option) res" where
  "argptr n len s =
     bindR (myproc s) (\<lambda>p s.
     bindR (argint n s) (\<lambda>r s.
     case r of
       None \<Rightarrow> Ok None s
     | Some i \<Rightarrow>
         if len < 0 \<or> sz (procs s p) \<le> i \<or> sz (procs s p) < i + word_of_int len then Ok None s
         else Ok (Some i) s))"

definition argstr :: "nat \<Rightarrow> 'a filestate_scheme \<Rightarrow> ('a filestate_scheme, uchar list option) res" where
  "argstr n s =
     bindR (argint n s) (\<lambda>r s. case r of None \<Rightarrow> Ok None s | Some a \<Rightarrow> fetchstr a s)"

text \<open>A call that fails with \<open>-1\<close> when an argument cannot be fetched.\<close>

definition with_arg :: "('s, 'b option) res \<Rightarrow> ('b \<Rightarrow> 's \<Rightarrow> ('s, int) res) \<Rightarrow> ('s, int) res" where
  "with_arg m f = bindR m (\<lambda>r s. case r of None \<Rightarrow> Ok (- 1) s | Some a \<Rightarrow> f a s)"

section \<open>Calls on processes (sysproc.c)\<close>

definition sys_fork :: "'a filestate_scheme \<Rightarrow> ('a filestate_scheme, int) res" where
  "sys_fork s = fork s"

definition sys_exit :: "'a filestate_scheme \<Rightarrow> ('a filestate_scheme, int) res" where
  "sys_exit s = exit s"

definition sys_wait :: "'a filestate_scheme \<Rightarrow> ('a filestate_scheme, int) res" where
  "sys_wait s = wait s"

definition sys_kill :: "'a filestate_scheme \<Rightarrow> ('a filestate_scheme, int) res" where
  "sys_kill s = with_arg (argint 0 s) (\<lambda>n s. kill (sint n) s)"

definition sys_getpid :: "'a filestate_scheme \<Rightarrow> ('a filestate_scheme, int) res" where
  "sys_getpid s = bindR (myproc s) (\<lambda>p s. Ok (pid (procs s p)) s)"

definition sys_sbrk :: "'a filestate_scheme \<Rightarrow> ('a filestate_scheme, int) res" where
  "sys_sbrk s =
     with_arg (argint 0 s) (\<lambda>n s.
     bindR (myproc s) (\<lambda>p s.
     let addr = sint (sz (procs s p))
     in bindR (growproc (sint n) s) (\<lambda>r s. Ok (if r < 0 then - 1 else addr) s)))"

definition sys_sleep_loop :: "uint \<Rightarrow> uint \<Rightarrow> 'a pstate_scheme \<Rightarrow> ('a pstate_scheme, int) res" where
  "sys_sleep_loop ticks0 n s =
     (if ticks s - ticks0 < n
      then bindR (myproc s) (\<lambda>p s.
           if killed (procs s p) then bindR (release_lk Lticks s) (\<lambda>_ s. Ok (- 1) s)
           else sleep ChTicks Lticks s)
      else bindR (release_lk Lticks s) (\<lambda>_ s. Ok 0 s))"

definition sys_sleep :: "'a filestate_scheme \<Rightarrow> ('a filestate_scheme, int) res" where
  "sys_sleep s =
     with_arg (argint 0 s) (\<lambda>n s.
     bindR (acquire_lk Lticks s) (\<lambda>_ s. sys_sleep_loop (ticks s) n s))"

definition sys_sleep_resume :: "uint \<Rightarrow> uint \<Rightarrow> 'a pstate_scheme \<Rightarrow> ('a pstate_scheme, int) res" where
  "sys_sleep_resume ticks0 n s =
     bindR (sleep_resume Lticks s) (\<lambda>_ s. sys_sleep_loop ticks0 n s)"

definition sys_uptime :: "'a pstate_scheme \<Rightarrow> ('a pstate_scheme, int) res" where
  "sys_uptime s =
     bindR (acquire_lk Lticks s) (\<lambda>_ s.
     let x = ticks s in bindR (release_lk Lticks s) (\<lambda>_ s. Ok (sint x) s))"

section \<open>User memory that is present\<close>

definition user_mapped :: "uint \<Rightarrow> nat \<Rightarrow> 'a kmem_scheme \<Rightarrow> bool" where
  "user_mapped va n s \<longleftrightarrow> (\<forall>k < n. user_addr (va + of_nat k) s \<noteq> None)"

definition user_bytes :: "uint \<Rightarrow> nat \<Rightarrow> 'a kmem_scheme \<Rightarrow> uchar list" where
  "user_bytes va n s = map (\<lambda>k. mem s (the (user_addr (va + of_nat k) s))) [0..<n]"

lemma user_mapped_Suc:
  "user_mapped va (Suc n) s \<longleftrightarrow> user_addr va s \<noteq> None \<and> user_mapped (va + 1) n s"
proof -
  have "(\<forall>k < Suc n. P k) \<longleftrightarrow> P 0 \<and> (\<forall>k < n. P (Suc k))" for P
    using less_Suc_eq_0_disj by auto
  from this [of "\<lambda>k. user_addr (va + of_nat k) s \<noteq> None"] show ?thesis
    by (simp add: user_mapped_def add.assoc)
qed

lemma user_bytes_Suc:
  "user_bytes va (Suc n) s = mem s (the (user_addr va s)) # user_bytes (va + 1) n s"
proof -
  have "map f [0..<Suc n] = f 0 # map (\<lambda>k. f (Suc k)) [0..<n]" for f :: "nat \<Rightarrow> uchar"
    by (simp add: map_upt_Suc del: upt_Suc)
  then show ?thesis by (simp add: user_bytes_def add.assoc del: upt_Suc)
qed

lemma user_bytes_0 [simp]: "user_bytes va 0 s = []"
  by (simp add: user_bytes_def)

lemma user_page_mapped: "user_addr va s = Some a \<Longrightarrow> user_page va s = Ok a s"
  by (simp add: user_page_def)

lemma user_read_mapped: "user_mapped va n s \<Longrightarrow> user_read va n s = Ok (user_bytes va n s) s"
  by (induction n arbitrary: va) (auto simp: user_mapped_Suc user_bytes_Suc user_page_mapped)

text \<open>The string at the start of \<open>bs\<close>, when it ends inside.\<close>

definition until_nul :: "uchar list \<Rightarrow> uchar list option" where
  "until_nul bs = (if 0 \<in> set bs then Some (takeWhile (\<lambda>c. c \<noteq> 0) bs) else None)"

lemma fetchstr_scan_mapped:
  "user_mapped va n s \<Longrightarrow> fetchstr_scan va n s = Ok (until_nul (user_bytes va n s)) s"
  by (induction n arbitrary: va)
    (auto simp: user_mapped_Suc user_bytes_Suc user_page_mapped until_nul_def Let_def)

text \<open>All of the user memory of process \<open>p\<close> is present.\<close>

definition all_present :: "nat \<Rightarrow> 'a kmem_scheme \<Rightarrow> bool" where
  "all_present p s \<longleftrightarrow> user_mapped 0 (unat (sz (procs s p))) s"

lemma all_present_mapped:
  assumes "all_present p s" "unat va + n \<le> unat (sz (procs s p))"
  shows "user_mapped va n s"
proof -
  have "user_addr (va + of_nat k) s \<noteq> None" if "k < n" for k
  proof -
    have "user_addr (of_nat (unat va + k)) s \<noteq> None"
      using assms that by (auto simp: all_present_def user_mapped_def simp del: of_nat_add)
    then show ?thesis by simp
  qed
  then show ?thesis by (simp add: user_mapped_def)
qed

lemma in_user:
  assumes "sz' \<le> KERNBASE" "int n < 2 ^ 31"
  shows "sz' \<le> a \<or> sz' < a + of_nat n \<longleftrightarrow> \<not> (a < sz' \<and> unat a + n \<le> unat sz')"
proof (cases "sz' \<le> a")
  case False
  have n: "unat (of_nat n :: uint) = n" by (rule unat_of_nat32) (use assms(2) in simp)
  have "unat sz' \<le> 2147483648"
    using assms(1) by (simp add: word_le_nat_alt mmu_consts)
  with False have "unat (a + of_nat n) = unat a + n"
    using assms(2) n by (subst unat_add_lt) (simp_all add: word_le_nat_alt)
  then show ?thesis using False by (simp add: word_le_nat_alt word_less_nat_alt not_le)
qed (auto dest: leD)

section \<open>Properties\<close>

definition int_at :: "nat \<Rightarrow> uint \<Rightarrow> 'a kmem_scheme \<Rightarrow> uint option" where
  "int_at p a s =
     (if a < sz (procs s p) \<and> unat a + 4 \<le> unat (sz (procs s p)) then Some (dec32 (user_bytes a 4 s)) else None)"

lemma fetchint_mapped:
  assumes "cur s = Some p" "sz (procs s p) \<le> KERNBASE" "all_present p s"
  shows "fetchint a s = Ok (int_at p a s) s"
proof (cases "a < sz (procs s p) \<and> unat a + 4 \<le> unat (sz (procs s p))")
  case True
  then have "user_read a 4 s = Ok (user_bytes a 4 s) s"
    by (intro user_read_mapped all_present_mapped [OF assms(3)]) simp
  then show ?thesis
    using in_user [OF assms(2), of 4 a] True assms(1) by (simp add: fetchint_def int_at_def)
next
  case False
  then show ?thesis
    using in_user [OF assms(2), of 4 a] assms(1) by (simp add: fetchint_def int_at_def)
qed


text \<open>A process of 8 bytes: the word 4, and the string \<open>hi\<close> at address 4.\<close>

definition ex_user :: filestate where
  "ex_user = ex_file\<lparr>
     mem := store32 0x80403000 0x401007 (store32 0x80401000 0x402007
       (\<lambda>a. if a = 0x80402000 then 4 else if a = 0x80402004 then 104 else if a = 0x80402005 then 105 else 0)),
     procs := (\<lambda>_. zero_proc\<lparr>sz := 8, pgdir := 0x80403000, tf := zero_tf\<lparr>esp := - 4\<rparr>\<rparr>)\<rparr>"

lemma ex_user_addr: "k < 8 \<Longrightarrow> user_addr (of_nat k) ex_user = Some (0x80402000 + of_nat k)"
proof -
  assume "k < 8"
  then have "k = 0 \<or> k = 1 \<or> k = 2 \<or> k = 3 \<or> k = 4 \<or> k = 5 \<or> k = 6 \<or> k = 7" by auto
  then show ?thesis
    by (elim disjE) (simp_all add: user_addr_def pt_entry_def pt_slot_def pt_table_def ex_user_def load32_def
        store32_def byte_of_def le32_def PDX_def PTX_def PDXSHIFT_def PTXSHIFT_def PTE_ADDR_def P2V_def
        KERNBASE_def pte_has_def PTE_P_def)
qed

lemma ex_user_sel: "cur ex_user = Some 3" "sz (procs ex_user 3) = 8" "esp (tf (procs ex_user 3)) = - 4"
  by (simp_all add: ex_user_def)

lemma ex_user_bytes: "user_bytes 4 4 ex_user = [104, 105, 0, 0]" "user_bytes 0 4 ex_user = [4, 0, 0, 0]"
proof -
  have "[0..<4] = [0, 1, 2, 3]" by (simp add: upt_rec)
  moreover note ex_user_addr [of 4] ex_user_addr [of 5] ex_user_addr [of 6] ex_user_addr [of 7]
    ex_user_addr [of 0] ex_user_addr [of 1] ex_user_addr [of 2] ex_user_addr [of 3]
  ultimately show "user_bytes 4 4 ex_user = [104, 105, 0, 0]" "user_bytes 0 4 ex_user = [4, 0, 0, 0]"
    by (simp_all add: user_bytes_def) (simp_all add: ex_user_def store32_def)
qed

lemma ex_user_present: "all_present 3 ex_user"
  using ex_user_addr by (simp add: all_present_def user_mapped_def ex_user_sel)


end
