(* ===== verification/Sysfile.thy ===== *)
theory Sysfile
  imports Syscall
begin

text \<open>The system calls on files, \<open>sysfile.c\<close>, and the dispatch table of \<open>syscall.c\<close>.\<close>

section \<open>File descriptors\<close>

definition argfd :: "nat \<Rightarrow> 'a filestate_scheme \<Rightarrow> ('a filestate_scheme, (nat \<times> nat) option) res" where
  "argfd n s =
     bindR (argint n s) (\<lambda>r s.
     case r of
       None \<Rightarrow> Ok None s
     | Some v \<Rightarrow>
         let fd = sint v
         in if fd < 0 \<or> int NOFILE \<le> fd then Ok None s
            else bindR (myproc s) (\<lambda>p s.
              Ok (map_option (\<lambda>f. (nat fd, f)) (ofile (procs s p) ! nat fd)) s))"

definition fdalloc :: "nat \<Rightarrow> 'a pstate_scheme \<Rightarrow> ('a pstate_scheme, int) res" where
  "fdalloc f s =
     bindR (myproc s) (\<lambda>p s.
     case find (\<lambda>fd. ofile (procs s p) ! fd = None) [0..<NOFILE] of
       Some fd \<Rightarrow> Ok (int fd) (upd_proc p (\<lambda>q. q\<lparr>ofile := (ofile q)[fd := Some f]\<rparr>) s)
     | None \<Rightarrow> Ok (- 1) s)"

definition fdclear :: "nat \<Rightarrow> 'a pstate_scheme \<Rightarrow> ('a pstate_scheme, unit) res" where
  "fdclear fd s =
     bindR (myproc s) (\<lambda>p s. Ok () (upd_proc p (\<lambda>q. q\<lparr>ofile := (ofile q)[fd := None]\<rparr>) s))"

definition sys_dup :: "'a filestate_scheme \<Rightarrow> ('a filestate_scheme, int) res" where
  "sys_dup s =
     with_arg (argfd 0 s) (\<lambda>(_, f) s.
     bindR (fdalloc f s) (\<lambda>fd s.
       if fd < 0 then Ok (- 1) s else bindR (filedup f s) (\<lambda>_ s. Ok fd s)))"

definition sys_read :: "'a filestate_scheme \<Rightarrow> ('a filestate_scheme, int) res" where
  "sys_read s =
     with_arg (argfd 0 s) (\<lambda>(_, f) s.
     with_arg (argint 2 s) (\<lambda>n s.
     with_arg (argptr 1 (sint n) s) (\<lambda>p s.
     bindR (fileread f (sint n) s) (\<lambda>(r, bs) s.
     bindR (user_write p bs s) (\<lambda>_ s. Ok r s)))))"

definition sys_write :: "'a filestate_scheme \<Rightarrow> ('a filestate_scheme, int) res" where
  "sys_write s =
     with_arg (argfd 0 s) (\<lambda>(_, f) s.
     with_arg (argint 2 s) (\<lambda>n s.
     with_arg (argptr 1 (sint n) s) (\<lambda>p s.
     bindR (user_read p (unat n) s) (\<lambda>bs s. filewrite f bs (sint n) s))))"

definition sys_close :: "'a filestate_scheme \<Rightarrow> ('a filestate_scheme, int) res" where
  "sys_close s =
     with_arg (argfd 0 s) (\<lambda>(fd, f) s.
     bindR (fdclear fd s) (\<lambda>_ s. bindR (fileclose f s) (\<lambda>_ s. Ok 0 s)))"

text \<open>\<open>struct stat\<close> in memory: the two shorts are padded to words.\<close>

definition enc_stat :: "stat \<Rightarrow> uchar list \<Rightarrow> uchar list" where
  "enc_stat st old =
     enc16 (st_type st) @ slice 2 2 old @ enc32 (st_dev st) @ enc32 (st_ino st) @
     enc16 (st_nlink st) @ slice 14 2 old @ enc32 (st_size st)"

definition sys_fstat :: "'a filestate_scheme \<Rightarrow> ('a filestate_scheme, int) res" where
  "sys_fstat s =
     with_arg (argfd 0 s) (\<lambda>(_, f) s.
     with_arg (argptr 1 20 s) (\<lambda>p s.
     with_arg (filestat f s) (\<lambda>st s.
     bindR (user_read p 20 s) (\<lambda>old s.
     bindR (user_write p (enc_stat st old) s) (\<lambda>_ s. Ok 0 s)))))"

section \<open>Names\<close>

definition link_bad :: "nat \<Rightarrow> 'a constate_scheme \<Rightarrow> ('a constate_scheme, int) res" where
  "link_bad ip s =
     bindR (ilock (Some ip) s) (\<lambda>_ s.
     bindR (iupdate ip (upd_inode ip (\<lambda>n. n\<lparr>i_nlink := i_nlink n - 1\<rparr>) s)) (\<lambda>_ s.
     bindR (iunlockput ip s) (\<lambda>_ s.
     bindR (end_op s) (\<lambda>_ s. Ok (- 1) s))))"

definition link_path :: "uchar list \<Rightarrow> uchar list \<Rightarrow> 'a constate_scheme \<Rightarrow> ('a constate_scheme, int) res" where
  "link_path old new s =
     bindR (begin_op s) (\<lambda>_ s.
     bindR (namei old s) (\<lambda>r s.
     case r of
       None \<Rightarrow> bindR (end_op s) (\<lambda>_ s. Ok (- 1) s)
     | Some ip \<Rightarrow>
         bindR (ilock (Some ip) s) (\<lambda>_ s.
         if i_type (icache s ip) = T_DIR
         then bindR (iunlockput ip s) (\<lambda>_ s. bindR (end_op s) (\<lambda>_ s. Ok (- 1) s))
         else bindR (iupdate ip (upd_inode ip (\<lambda>n. n\<lparr>i_nlink := i_nlink n + 1\<rparr>) s)) (\<lambda>_ s.
              bindR (iunlock (Some ip) s) (\<lambda>_ s.
              bindR (nameiparent new (replicate DIRSIZ 0) s) (\<lambda>(dp, name) s.
              case dp of
                None \<Rightarrow> link_bad ip s
              | Some dp \<Rightarrow>
                  bindR (ilock (Some dp) s) (\<lambda>_ s.
                  bindR (if i_dev (icache s dp) \<noteq> i_dev (icache s ip) then Ok (- 1) s
                         else dirlink dp name (i_inum (icache s ip)) s) (\<lambda>r s.
                  bindR (iunlockput dp s) (\<lambda>_ s.
                  if r < 0 then link_bad ip s
                  else bindR (iput ip s) (\<lambda>_ s. bindR (end_op s) (\<lambda>_ s. Ok 0 s)))))))))))"

definition sys_link :: "'a filestate_scheme \<Rightarrow> ('a filestate_scheme, int) res" where
  "sys_link s =
     with_arg (argstr 0 s) (\<lambda>old s. with_arg (argstr 1 s) (\<lambda>new s. link_path old new s))"

definition sys_unlink :: "'a filestate_scheme \<Rightarrow> ('a filestate_scheme, int) res" where
  "sys_unlink s = with_arg (argstr 0 s) (\<lambda>path s. unlink_path path s)"

section \<open>Opening and creating\<close>

definition has_flag :: "uint \<Rightarrow> uint \<Rightarrow> bool" where
  "has_flag m b \<longleftrightarrow> m AND b \<noteq> 0"

text \<open>The inode to open, locked and inside a transaction; \<open>None\<close> when the call fails.\<close>

definition open_inode :: "uchar list \<Rightarrow> uint \<Rightarrow> 'a constate_scheme \<Rightarrow> ('a constate_scheme, nat option) res" where
  "open_inode path omode s =
     (if has_flag omode O_CREATE
      then bindR (create path T_FILE 0 0 s) (\<lambda>r s.
           if r = None then bindR (end_op s) (\<lambda>_ s. Ok None s) else Ok r s)
      else bindR (namei path s) (\<lambda>r s.
           case r of
             None \<Rightarrow> bindR (end_op s) (\<lambda>_ s. Ok None s)
           | Some ip \<Rightarrow>
               bindR (ilock (Some ip) s) (\<lambda>_ s.
               if i_type (icache s ip) = T_DIR \<and> omode \<noteq> O_RDONLY
               then bindR (iunlockput ip s) (\<lambda>_ s. bindR (end_op s) (\<lambda>_ s. Ok None s))
               else Ok (Some ip) s)))"

definition open_path :: "uchar list \<Rightarrow> uint \<Rightarrow> 'a filestate_scheme \<Rightarrow> ('a filestate_scheme, int) res" where
  "open_path path omode s =
     bindR (begin_op s) (\<lambda>_ s.
     with_arg (open_inode path omode s) (\<lambda>ip s.
     bindR (filealloc s) (\<lambda>f s.
     bindR (case f of None \<Rightarrow> Ok (- 1) s | Some f \<Rightarrow> fdalloc f s) (\<lambda>fd s.
     if fd < 0
     then bindR (case f of Some f \<Rightarrow> fileclose f s | None \<Rightarrow> Ok () s) (\<lambda>_ s.
          bindR (iunlockput ip s) (\<lambda>_ s. bindR (end_op s) (\<lambda>_ s. Ok (- 1) s)))
     else bindR (iunlock (Some ip) s) (\<lambda>_ s.
          bindR (end_op s) (\<lambda>_ s.
          Ok fd (upd_file (the f) (\<lambda>x. x\<lparr>f_type := FD_INODE, f_ip := Some ip, f_off := 0,
            readable := (if has_flag omode O_WRONLY then 0 else 1),
            writable := (if has_flag omode O_WRONLY \<or> has_flag omode O_RDWR then 1 else 0)\<rparr>) s)))))))"

definition sys_open :: "'a filestate_scheme \<Rightarrow> ('a filestate_scheme, int) res" where
  "sys_open s =
     with_arg (argstr 0 s) (\<lambda>path s. with_arg (argint 1 s) (\<lambda>omode s. open_path path omode s))"

text \<open>The end of \<open>sys_mkdir\<close> and \<open>sys_mknod\<close>.\<close>

definition made :: "nat option \<Rightarrow> 'a constate_scheme \<Rightarrow> ('a constate_scheme, int) res" where
  "made r s =
     (case r of
        None \<Rightarrow> bindR (end_op s) (\<lambda>_ s. Ok (- 1) s)
      | Some ip \<Rightarrow> bindR (iunlockput ip s) (\<lambda>_ s. bindR (end_op s) (\<lambda>_ s. Ok 0 s)))"

definition sys_mkdir :: "'a filestate_scheme \<Rightarrow> ('a filestate_scheme, int) res" where
  "sys_mkdir s =
     bindR (begin_op s) (\<lambda>_ s.
     bindR (argstr 0 s) (\<lambda>path s.
     bindR (case path of None \<Rightarrow> Ok None s | Some path \<Rightarrow> create path T_DIR 0 0 s) (\<lambda>r s. made r s)))"

definition sys_mknod :: "'a filestate_scheme \<Rightarrow> ('a filestate_scheme, int) res" where
  "sys_mknod s =
     bindR (begin_op s) (\<lambda>_ s.
     bindR (argstr 0 s) (\<lambda>path s.
     bindR (if path = None then Ok None s else argint 1 s) (\<lambda>major s.
     bindR (if major = None then Ok None s else argint 2 s) (\<lambda>minor s.
     bindR (case minor of
              None \<Rightarrow> Ok None s
            | Some minor \<Rightarrow> create (the path) T_DEV (ucast (the major)) (ucast minor) s) (\<lambda>r s. made r s)))))"

definition sys_chdir :: "'a filestate_scheme \<Rightarrow> ('a filestate_scheme, int) res" where
  "sys_chdir s =
     bindR (myproc s) (\<lambda>c s.
     bindR (begin_op s) (\<lambda>_ s.
     bindR (argstr 0 s) (\<lambda>path s.
     bindR (case path of None \<Rightarrow> Ok None s | Some path \<Rightarrow> namei path s) (\<lambda>r s.
     case r of
       None \<Rightarrow> bindR (end_op s) (\<lambda>_ s. Ok (- 1) s)
     | Some ip \<Rightarrow>
         bindR (ilock (Some ip) s) (\<lambda>_ s.
         if i_type (icache s ip) \<noteq> T_DIR
         then bindR (iunlockput ip s) (\<lambda>_ s. bindR (end_op s) (\<lambda>_ s. Ok (- 1) s))
         else bindR (iunlock (Some ip) s) (\<lambda>_ s.
              bindR (case cwd (procs s c) of Some i \<Rightarrow> iput i s | None \<Rightarrow> Fault ''iput'') (\<lambda>_ s.
              bindR (end_op s) (\<lambda>_ s.
              Ok 0 (upd_proc c (\<lambda>q. q\<lparr>cwd := Some ip\<rparr>) s)))))))))"

section \<open>exec and pipe\<close>

text \<open>The argument strings from slot \<open>i\<close> on; the call fails when there are 32 of them.\<close>

fun fetch_args :: "nat \<Rightarrow> uint \<Rightarrow> uchar list list \<Rightarrow> 'a filestate_scheme \<Rightarrow>
    ('a filestate_scheme, uchar list list option) res" where
  "fetch_args 0 a acc s = Ok None s"
| "fetch_args (Suc n) a acc s =
     bindR (fetchint a s) (\<lambda>r s.
     case r of
       None \<Rightarrow> Ok None s
     | Some u \<Rightarrow>
         if u = 0 then Ok (Some (rev acc)) s
         else bindR (fetchstr u s) (\<lambda>r s.
              case r of None \<Rightarrow> Ok None s | Some m \<Rightarrow> fetch_args n (a + 4) (m # acc) s))"

definition sys_exec :: "'a filestate_scheme \<Rightarrow> ('a filestate_scheme, int) res" where
  "sys_exec s =
     with_arg (argstr 0 s) (\<lambda>path s.
     with_arg (argint 1 s) (\<lambda>uargv s.
     with_arg (fetch_args MAXARG uargv [] s) (\<lambda>argv s. exec path argv s)))"

definition sys_pipe :: "'a filestate_scheme \<Rightarrow> ('a filestate_scheme, int) res" where
  "sys_pipe s =
     with_arg (argptr 0 8 s) (\<lambda>fd s.
     with_arg (pipealloc s) (\<lambda>(rf, wf) s.
     bindR (fdalloc rf s) (\<lambda>fd0 s.
     bindR (if fd0 < 0 then Ok (- 1) s else fdalloc wf s) (\<lambda>fd1 s.
     if fd1 < 0
     then bindR (if 0 \<le> fd0 then fdclear (nat fd0) s else Ok () s) (\<lambda>_ s.
          bindR (fileclose rf s) (\<lambda>_ s.
          bindR (fileclose wf s) (\<lambda>_ s. Ok (- 1) s)))
     else bindR (user_write fd (enc32 (word_of_int fd0) @ enc32 (word_of_int fd1)) s) (\<lambda>_ s. Ok 0 s)))))"

section \<open>Dispatch\<close>

text \<open>The entries for the numbers 1 to 21 of \<open>syscall.h\<close>, in order.\<close>

definition syscalls :: "('a filestate_scheme \<Rightarrow> ('a filestate_scheme, int) res) list" where
  "syscalls =
     [sys_fork, sys_exit, sys_wait, sys_pipe, sys_read, sys_kill, sys_exec, sys_fstat, sys_chdir,
      sys_dup, sys_getpid, sys_sbrk, sys_sleep, sys_uptime, sys_open, sys_write, sys_mknod,
      sys_unlink, sys_link, sys_mkdir, sys_close]"

definition set_eax :: "nat \<Rightarrow> int \<Rightarrow> 'a pstate_scheme \<Rightarrow> 'a pstate_scheme" where
  "set_eax c r s = upd_proc c (\<lambda>q. q\<lparr>tf := (tf q)\<lparr>eax := word_of_int r\<rparr>\<rparr>) s"

definition syscall :: "'a filestate_scheme \<Rightarrow> ('a filestate_scheme, unit) res" where
  "syscall s =
     bindR (myproc s) (\<lambda>c s.
     let num = sint (eax (tf (procs s c)))
     in if 0 < num \<and> num \<le> int (length (syscalls :: ('a filestate_scheme \<Rightarrow> _) list))
        then bindR ((syscalls ! (nat num - 1)) s) (\<lambda>r s. Ok () (set_eax c r s))
        else bindR (kprint (''%d %s: unknown sys call %d'' @ nl)
               [AInt (word_of_int (pid (procs s c))), AStr (Some (cname (pname (procs s c)))),
                AInt (eax (tf (procs s c)))] s) (\<lambda>_ s.
             Ok () (set_eax c (- 1) s)))"

end
