(* ===== verification/Trap.thy ===== *)
theory Trap
  imports Sysfile
begin

text \<open>
  \<open>trap.c\<close>: system calls, device interrupts, page faults and the end of a time slice. The trap frame
  and the register \<open>cr2\<close> are arguments, as are the CPU's number and what the devices deliver: the
  characters that the keyboard's or the serial port's \<open>getc\<close> returns, and the return addresses
  \<open>procdump\<close> would print.
\<close>

definition T_SYSCALL :: uint where "T_SYSCALL = 64"
definition T_PGFLT :: uint where "T_PGFLT = 14"
definition T_IRQ0 :: uint where "T_IRQ0 = 32"
definition IRQ_TIMER :: uint where "IRQ_TIMER = 0"
definition IRQ_KBD :: uint where "IRQ_KBD = 1"
definition IRQ_COM1 :: uint where "IRQ_COM1 = 4"
definition IRQ_IDE :: uint where "IRQ_IDE = 14"
definition IRQ_SPURIOUS :: uint where "IRQ_SPURIOUS = 31"

record trap_in =
  cr2 :: uint
  cpu_num :: nat
  dev_chars :: "int list"
  dev_pcs :: "nat \<Rightarrow> uint list"

definition from_user :: "trapframe \<Rightarrow> bool" where
  "from_user t \<longleftrightarrow> cs t AND 3 = DPL_USER"

text \<open>\<open>exit()\<close> when the running process was killed and the trap came from user mode.\<close>

definition exit_if_killed :: "trapframe \<Rightarrow> 'a filestate_scheme \<Rightarrow> ('a filestate_scheme, unit) res" where
  "exit_if_killed t s =
     (case cur s of
        Some p \<Rightarrow> if killed (procs s p) \<and> from_user t then exit s else Ok () s
      | None \<Rightarrow> Ok () s)"

definition trap_syscall :: "trapframe \<Rightarrow> 'a filestate_scheme \<Rightarrow> ('a filestate_scheme, unit) res" where
  "trap_syscall t s =
     bindR (myproc s) (\<lambda>p s.
     if killed (procs s p) then exit s
     else bindR (syscall (upd_proc p (\<lambda>q. q\<lparr>tf := t\<rparr>) s)) (\<lambda>_ s.
          bindR (myproc s) (\<lambda>p s. if killed (procs s p) then exit s else Ok () s)))"

definition timer_tick :: "nat \<Rightarrow> 'a pstate_scheme \<Rightarrow> ('a pstate_scheme, unit) res" where
  "timer_tick cpu s =
     (if cpu = 0
      then bindR (acquire_lk Lticks s) (\<lambda>_ s.
           bindR (wakeup ChTicks (s\<lparr>ticks := ticks s + 1\<rparr>)) (\<lambda>_ s. release_lk Lticks s))
      else Ok () s)"

text \<open>The \<open>default\<close> case, also reached from a page fault that is not served.\<close>

definition trap_bad :: "trapframe \<Rightarrow> trap_in \<Rightarrow> 'a filestate_scheme \<Rightarrow> ('a filestate_scheme, unit) res" where
  "trap_bad t i s =
     (case cur s of
        Some p \<Rightarrow>
          if cs t AND 3 = 0
          then bindR (kprint (''unexpected trap %d from cpu %d eip %x (cr2=0x%x)'' @ nl)
                 [AInt (trapno t), AInt (of_nat (cpu_num i)), AInt (eip t), AInt (cr2 i)] s) (\<lambda>_ s. Panic ''trap'')
          else bindR (kprint (''pid %d %s: trap %d err %d on cpu %d eip 0x%x addr 0x%x--kill proc'' @ nl)
                 [AInt (word_of_int (pid (procs s p))), AStr (Some (cname (pname (procs s p)))), AInt (trapno t),
                  AInt (err t), AInt (of_nat (cpu_num i)), AInt (eip t), AInt (cr2 i)] s) (\<lambda>_ s.
               Ok () (upd_proc p (\<lambda>q. q\<lparr>killed := True\<rparr>) s))
      | None \<Rightarrow>
          bindR (kprint (''unexpected trap %d from cpu %d eip %x (cr2=0x%x)'' @ nl)
            [AInt (trapno t), AInt (of_nat (cpu_num i)), AInt (eip t), AInt (cr2 i)] s) (\<lambda>_ s. Panic ''trap''))"

definition page_fault :: "trapframe \<Rightarrow> trap_in \<Rightarrow> 'a filestate_scheme \<Rightarrow> ('a filestate_scheme, unit) res" where
  "page_fault t i s =
     bindR (myproc s) (\<lambda>p s.
     bindR (if 2 < pid (procs s p) then do_the_swap p (cr2 i) s else Ok 0 s) (\<lambda>r s.
       if r = 1 then Ok () s else trap_bad t i s))"

definition trap_dispatch :: "trapframe \<Rightarrow> trap_in \<Rightarrow> 'a filestate_scheme \<Rightarrow> ('a filestate_scheme, unit) res" where
  "trap_dispatch t i s =
     (if trapno t = T_IRQ0 + IRQ_TIMER then timer_tick (cpu_num i) s
      else if trapno t = T_IRQ0 + IRQ_IDE then Ok () s
      else if trapno t = T_IRQ0 + IRQ_IDE + 1 then Ok () s
      else if trapno t = T_IRQ0 + IRQ_KBD \<or> trapno t = T_IRQ0 + IRQ_COM1
      then consoleintr (dev_pcs i) (dev_chars i) s
      else if trapno t = T_IRQ0 + 7 \<or> trapno t = T_IRQ0 + IRQ_SPURIOUS
      then kprint (''cpu%d: spurious interrupt at %x:%x'' @ nl)
             [AInt (of_nat (cpu_num i)), AInt (ucast (cs t)), AInt (eip t)] s
      else if trapno t = T_PGFLT then page_fault t i s
      else trap_bad t i s)"

definition trap :: "trapframe \<Rightarrow> trap_in \<Rightarrow> 'a filestate_scheme \<Rightarrow> ('a filestate_scheme, unit) res" where
  "trap t i s =
     (if trapno t = T_SYSCALL then trap_syscall t s
      else bindR (trap_dispatch t i s) (\<lambda>_ s.
           bindR (exit_if_killed t s) (\<lambda>_ s.
           bindR (case cur s of
                    Some p \<Rightarrow> if state (procs s p) = RUNNING \<and> trapno t = T_IRQ0 + IRQ_TIMER then yield s else Ok () s
                  | None \<Rightarrow> Ok () s) (\<lambda>_ s.
           exit_if_killed t s))))"

text \<open>After \<open>yield\<close> came back.\<close>

definition trap_resume :: "trapframe \<Rightarrow> 'a filestate_scheme \<Rightarrow> ('a filestate_scheme, unit) res" where
  "trap_resume t s = bindR (yield_resume s) (\<lambda>_ s. exit_if_killed t s)"

end
