(* ===== verification/Lottery.thy ===== *)
theory Lottery
  imports Syscall
begin

text \<open>
  The lottery scheduler of \<open>offline3_xv6_lottery_scheduler\<close> (\<open>proc.c\<close>, \<open>sysproc.c\<close>, and the parts of
  its \<open>vm.c\<close> and \<open>syscall.c\<close> that differ because that kernel does not page). Each process has tickets
  and counts the clock ticks it ran for; a MurmurHash2 of the clock draws the winner. The two fields
  that the assignment adds to \<open>struct proc\<close> are kept beside the process table. Functions whose name
  also exists in the paging kernel end in \<open>3\<close>.
\<close>

section \<open>State\<close>

record lottstate = filestate +
  tickets_of :: "nat \<Rightarrow> int"
  ticks_of :: "nat \<Rightarrow> int"

section \<open>Drawing: MurmurHash2\<close>

definition murmur_m :: uint where "murmur_m = 0x5bd1e995"
definition murmur_r :: nat where "murmur_r = 24"

definition murmur_mix :: "uint \<Rightarrow> uint \<Rightarrow> uint" where
  "murmur_mix h k =
     (let k = k * murmur_m;
          k = k XOR drop_bit murmur_r k;
          k = k * murmur_m
      in (h * murmur_m) XOR k)"

text \<open>The loop over whole words; the bytes left over are the cases of the \<open>switch\<close>.\<close>

fun murmur_body :: "uint \<Rightarrow> uchar list \<Rightarrow> uint" where
  "murmur_body h (a # b # c # d # rest) = murmur_body (murmur_mix h (dec32 [a, b, c, d])) rest"
| "murmur_body h [a, b, c] =
     ((h XOR push_bit 16 (ucast c)) XOR push_bit 8 (ucast b) XOR ucast a) * murmur_m"
| "murmur_body h [a, b] = (h XOR push_bit 8 (ucast b) XOR ucast a) * murmur_m"
| "murmur_body h [a] = (h XOR ucast a) * murmur_m"
| "murmur_body h [] = h"

definition murmur_hash :: "uint \<Rightarrow> uchar list \<Rightarrow> uint" where
  "murmur_hash seed key =
     (let h = murmur_body (seed XOR of_nat (length key)) key;
          h = h XOR drop_bit 13 h;
          h = h * murmur_m
      in h XOR drop_bit 15 h)"

definition murmur :: "uchar list \<Rightarrow> 'a pstate_scheme \<Rightarrow> ('a pstate_scheme, uint) res" where
  "murmur key s =
     bindR (acquire_lk Lticks s) (\<lambda>_ s.
     let seed = ticks s
     in bindR (release_lk Lticks s) (\<lambda>_ s. Ok (murmur_hash seed key) s))"

definition draw_key :: "uchar list" where "draw_key = [49, 50, 51, 52]"

section \<open>The scheduler\<close>

definition total_tickets :: "'a lottstate_scheme \<Rightarrow> uint" where
  "total_tickets s =
     fold (\<lambda>p t. if state (procs s p) \<noteq> RUNNABLE then t else t + word_of_int (tickets_of s p)) [0..<NPROC] 0"

text \<open>The walk over the table: \<open>cum\<close> is \<open>cummulative_tickets\<close>, and the result the chosen process.\<close>

fun lottery_scan :: "uint \<Rightarrow> 'a lottstate_scheme \<Rightarrow> nat list \<Rightarrow> uint \<Rightarrow> nat option" where
  "lottery_scan lottery s [] cum = None"
| "lottery_scan lottery s (p # ps) cum =
     (if state (procs s p) \<noteq> RUNNABLE then lottery_scan lottery s ps cum
      else let cum = cum + word_of_int (tickets_of s p)
           in if cum < lottery then lottery_scan lottery s ps cum else Some p)"

text \<open>
  One round of \<open>scheduler\<close>. Between the two scans of the table the lock is free, so the draw
  \<open>scheduler_draw\<close> and the choice \<open>scheduler_choose\<close> are separate steps. The choice ends with the
  switch to the process, with \<open>init_ticks\<close> for \<open>scheduler_return\<close>, or with no process.
\<close>

definition scheduler_draw :: "'a lottstate_scheme \<Rightarrow> ('a lottstate_scheme, uint) res" where
  "scheduler_draw s =
     bindR (acquire_lk Lptable s) (\<lambda>_ s.
     let total = total_tickets s
     in bindR (release_lk Lptable s) (\<lambda>_ s.
        if total \<noteq> 0 then bindR (murmur draw_key s) (\<lambda>h s. Ok (h mod total) s)
        else Ok 0 s))"

definition run_proc :: "nat \<Rightarrow> 'a vmstate_scheme \<Rightarrow> ('a vmstate_scheme, uint) res" where
  "run_proc p s =
     bindR (switchuvm (Some p) (s\<lparr>cur := Some p\<rparr>)) (\<lambda>_ s.
     bindR (acquire_lk Lticks (upd_proc p (\<lambda>q. q\<lparr>state := RUNNING\<rparr>) s)) (\<lambda>_ s.
     let init_ticks = ticks s
     in bindR (release_lk Lticks s) (\<lambda>_ s. Ok init_ticks s)))"

definition scheduler_choose :: "uint \<Rightarrow> 'a lottstate_scheme \<Rightarrow> ('a lottstate_scheme, (nat \<times> uint) option) res" where
  "scheduler_choose lottery s =
     bindR (acquire_lk Lptable s) (\<lambda>_ s.
       case lottery_scan lottery s [0..<NPROC] 0 of
         Some p \<Rightarrow> bindR (run_proc p s) (\<lambda>t s. Ok (Some (p, t)) s)
       | None \<Rightarrow> bindR (release_lk Lptable s) (\<lambda>_ s. Ok None s))"

definition charge_ticks :: "nat \<Rightarrow> uint \<Rightarrow> 'a lottstate_scheme \<Rightarrow> ('a lottstate_scheme, unit) res" where
  "charge_ticks p init_ticks s =
     bindR (acquire_lk Lticks (switchkvm s)) (\<lambda>_ s.
     bindR (release_lk Lticks (s\<lparr>ticks_of := (ticks_of s)(p :=
         sint (word_of_int (ticks_of s p) + (ticks s - init_ticks)))\<rparr>)) (\<lambda>_ s.
     Ok () (s\<lparr>cur := None\<rparr>)))"

definition scheduler_return :: "nat \<Rightarrow> uint \<Rightarrow> 'a lottstate_scheme \<Rightarrow> ('a lottstate_scheme, unit) res" where
  "scheduler_return p init_ticks s =
     bindR (charge_ticks p init_ticks s) (\<lambda>_ s. release_lk Lptable s)"

definition scheduler3 :: "'a lottstate_scheme \<Rightarrow> ('a lottstate_scheme, (nat \<times> uint) option) res" where
  "scheduler3 s = bindR (scheduler_draw (s\<lparr>cur := None\<rparr>)) (\<lambda>lottery s. scheduler_choose lottery s)"

text \<open>The round-robin scheduler that it replaces, kept in the source as \<open>scheduler_og\<close>.\<close>

definition scheduler_og_from :: "nat \<Rightarrow> 'a lottstate_scheme \<Rightarrow> ('a lottstate_scheme, (nat \<times> uint) option) res" where
  "scheduler_og_from k s =
     (case find (\<lambda>i. state (procs s i) = RUNNABLE) [k..<NPROC] of
        Some p \<Rightarrow> bindR (run_proc p s) (\<lambda>t s. Ok (Some (p, t)) s)
      | None \<Rightarrow> bindR (release_lk Lptable s) (\<lambda>_ s. Ok None s))"

definition scheduler_og :: "'a lottstate_scheme \<Rightarrow> ('a lottstate_scheme, (nat \<times> uint) option) res" where
  "scheduler_og s = bindR (acquire_lk Lptable s) (\<lambda>_ s. scheduler_og_from 0 s)"

definition scheduler_og_return :: "nat \<Rightarrow> uint \<Rightarrow> 'a lottstate_scheme \<Rightarrow> ('a lottstate_scheme, (nat \<times> uint) option) res" where
  "scheduler_og_return p init_ticks s =
     bindR (charge_ticks p init_ticks s) (\<lambda>_ s. scheduler_og_from (Suc p) s)"

section \<open>Processes\<close>

definition allocproc3 :: "'a lottstate_scheme \<Rightarrow> ('a lottstate_scheme, nat option) res" where
  "allocproc3 s =
     bindR (acquire_lk Lptable s) (\<lambda>_ s.
       case find (\<lambda>p. state (procs s p) = UNUSED) [0..<NPROC] of
         None \<Rightarrow> bindR (release_lk Lptable s) (\<lambda>_ s. Ok None s)
       | Some p \<Rightarrow>
           let s = upd_proc p (\<lambda>q. q\<lparr>state := EMBRYO, pid := nextpid s\<rparr>) s;
               s = s\<lparr>nextpid := nextpid s + 1, tickets_of := (tickets_of s)(p := 1), ticks_of := (ticks_of s)(p := 0)\<rparr>
           in bindR (release_lk Lptable s) (\<lambda>_ s.
              bindR (kalloc s) (\<lambda>k s.
              let s = upd_proc p (\<lambda>q. q\<lparr>kstack := k\<rparr>) s
              in if k = 0 then Ok None (upd_proc p (\<lambda>q. q\<lparr>state := UNUSED\<rparr>) s)
                 else Ok (Some p) (upd_proc p (\<lambda>q. q\<lparr>ctx := AtForkret\<rparr>) s))))"

fun deallocuvm3_loop :: "nat \<Rightarrow> uint \<Rightarrow> uint \<Rightarrow> uint \<Rightarrow> 'a kmem_scheme \<Rightarrow> ('a kmem_scheme, unit) res" where
  "deallocuvm3_loop 0 pd a oldsz s = Fault ''fuel''"
| "deallocuvm3_loop (Suc n) pd a oldsz s =
     (if \<not> a < oldsz then Ok () s
      else bindR (walkpgdir pd a False s) (\<lambda>pte s.
        if pte = 0
        then deallocuvm3_loop n pd (PGADDR (PDX a + 1) 0 0 - PGSIZE + PGSIZE) oldsz s
        else if pte_has (load32 (mem s) pte) PTE_P
        then let pa = PTE_ADDR (load32 (mem s) pte)
             in if pa = 0 then Panic ''kfree''
                else bindR (kfree (P2V pa) s) (\<lambda>_ s.
                       deallocuvm3_loop n pd (a + PGSIZE) oldsz (s\<lparr>mem := store32 pte 0 (mem s)\<rparr>))
        else deallocuvm3_loop n pd (a + PGSIZE) oldsz s))"

definition deallocuvm3 :: "uint \<Rightarrow> uint \<Rightarrow> uint \<Rightarrow> 'a kmem_scheme \<Rightarrow> ('a kmem_scheme, uint) res" where
  "deallocuvm3 pd oldsz newsz s =
     (if oldsz \<le> newsz then Ok oldsz s
      else bindR (deallocuvm3_loop (unat oldsz div 4096 + 2) pd (PGROUNDUP newsz) oldsz s)
             (\<lambda>_ s. Ok newsz s))"

definition freevm3 :: "uint \<Rightarrow> 'a kmem_scheme \<Rightarrow> ('a kmem_scheme, unit) res" where
  "freevm3 pd s =
     (if pd = 0 then Panic ''freevm: no pgdir''
      else bindR (deallocuvm3 pd KERNBASE 0 s) (\<lambda>_ s.
           bindR (forR [0..<NPDENTRIES] (\<lambda>i s.
             let e = load32 (mem s) (pd + 4 * of_nat i)
             in if pte_has e PTE_P then kfree (P2V (PTE_ADDR e)) s else Ok () s) s) (\<lambda>_ s.
           kfree pd s)))"

fun copyuvm3_loop :: "nat \<Rightarrow> uint \<Rightarrow> uint \<Rightarrow> uint \<Rightarrow> uint \<Rightarrow> 'a kmem_scheme \<Rightarrow> ('a kmem_scheme, uint) res" where
  "copyuvm3_loop 0 pd d i nsz s = Fault ''fuel''"
| "copyuvm3_loop (Suc n) pd d i nsz s =
     (if \<not> i < nsz then Ok d s
      else bindR (walkpgdir pd i False s) (\<lambda>pte s.
        if pte = 0 then Panic ''copyuvm: pte should exist''
        else let e = load32 (mem s) pte
        in if \<not> pte_has e PTE_P then Panic ''copyuvm: page not present''
           else bindR (kalloc s) (\<lambda>v s.
             if v = 0 then bindR (freevm3 d s) (\<lambda>_ s. Ok 0 s)
             else bindR (mappages d i PGSIZE (V2P v) (PTE_FLAGS e)
                           (s\<lparr>mem := memmove v (P2V (PTE_ADDR e)) PGSIZE (mem s)\<rparr>)) (\<lambda>r s.
               if r < 0 then bindR (kfree v s) (\<lambda>_ s. bindR (freevm3 d s) (\<lambda>_ s. Ok 0 s))
               else copyuvm3_loop n pd d (i + PGSIZE) nsz s))))"

definition copyuvm3 :: "uint \<Rightarrow> uint \<Rightarrow> 'a vmstate_scheme \<Rightarrow> ('a vmstate_scheme, uint) res" where
  "copyuvm3 pd nsz s =
     bindR (setupkvm s) (\<lambda>d s.
       if d = 0 then Ok 0 s else copyuvm3_loop (unat nsz div 4096 + 2) pd d 0 nsz s)"

definition fork3 :: "'a lottstate_scheme \<Rightarrow> ('a lottstate_scheme, int) res" where
  "fork3 s =
     bindR (myproc s) (\<lambda>c s.
     bindR (allocproc3 s) (\<lambda>r s.
     case r of
       None \<Rightarrow> Ok (- 1) s
     | Some np \<Rightarrow>
         bindR (copyuvm3 (pgdir (procs s c)) (sz (procs s c)) s) (\<lambda>pd s.
         let s = upd_proc np (\<lambda>q. q\<lparr>pgdir := pd\<rparr>) s
         in if pd = 0
            then bindR (kfree (kstack (procs s np)) s) (\<lambda>_ s.
                 Ok (- 1) (upd_proc np (\<lambda>q. q\<lparr>kstack := 0, state := UNUSED\<rparr>) s))
            else let s = upd_proc np (\<lambda>q. q\<lparr>sz := sz (procs s c), parent := Some c,
                           tf := (tf (procs s c))\<lparr>eax := 0\<rparr>\<rparr>) s;
                     s = s\<lparr>tickets_of := (tickets_of s)(np := tickets_of s c)\<rparr>
                 in bindR (forR [0..<NOFILE] (\<lambda>i s.
                      case ofile (procs s c) ! i of
                        None \<Rightarrow> Ok () s
                      | Some f \<Rightarrow> bindR (filedup f s) (\<lambda>f s.
                          Ok () (upd_proc np (\<lambda>q. q\<lparr>ofile := (ofile q)[i := Some f]\<rparr>) s))) s) (\<lambda>_ s.
                    bindR (case cwd (procs s c) of None \<Rightarrow> Fault ''idup'' | Some i \<Rightarrow> idup i s) (\<lambda>i s.
                    let s = upd_proc np (\<lambda>q. q\<lparr>cwd := Some i,
                              pname := splice 0 (safestrcpy (\<lambda>j. pname (procs s c) ! j) 16) (pname q)\<rparr>) s;
                        n = pid (procs s np)
                    in bindR (acquire_lk Lptable s) (\<lambda>_ s.
                       bindR (release_lk Lptable (upd_proc np (\<lambda>q. q\<lparr>state := RUNNABLE\<rparr>) s)) (\<lambda>_ s.
                       Ok n s)))))))"

section \<open>The new system calls\<close>

definition settickets :: "int \<Rightarrow> 'a lottstate_scheme \<Rightarrow> ('a lottstate_scheme, int) res" where
  "settickets n s =
     bindR (myproc s) (\<lambda>c s.
     let proc_id = pid (procs s c)
     in bindR (acquire_lk Lptable s) (\<lambda>_ s.
        case find (\<lambda>p. pid (procs s p) = proc_id) [0..<NPROC] of
          Some p \<Rightarrow> bindR (release_lk Lptable (s\<lparr>tickets_of := (tickets_of s)(p := n)\<rparr>)) (\<lambda>_ s. Ok 0 s)
        | None \<Rightarrow> bindR (release_lk Lptable s) (\<lambda>_ s. Ok (- 1) s)))"

text \<open>User memory in a kernel that does not page: a page that is not present is fatal.\<close>

fun user_read3 :: "uint \<Rightarrow> nat \<Rightarrow> 'a kmem_scheme \<Rightarrow> ('a kmem_scheme, uchar list) res" where
  "user_read3 va 0 s = Ok [] s"
| "user_read3 va (Suc n) s =
     (case user_addr va s of
        None \<Rightarrow> Panic ''trap''
      | Some a \<Rightarrow> bindR (user_read3 (va + 1) n s) (\<lambda>bs s. Ok (mem s a # bs) s))"

fun user_write3 :: "uint \<Rightarrow> uchar list \<Rightarrow> 'a kmem_scheme \<Rightarrow> ('a kmem_scheme, unit) res" where
  "user_write3 va [] s = Ok () s"
| "user_write3 va (c # bs) s =
     (case user_addr va s of
        None \<Rightarrow> Panic ''trap''
      | Some a \<Rightarrow> user_write3 (va + 1) bs (s\<lparr>mem := (mem s)(a := c)\<rparr>))"

definition fetchint3 :: "uint \<Rightarrow> 'a kmem_scheme \<Rightarrow> ('a kmem_scheme, uint option) res" where
  "fetchint3 addr s =
     bindR (myproc s) (\<lambda>p s.
       if sz (procs s p) \<le> addr \<or> sz (procs s p) < addr + 4 then Ok None s
       else bindR (user_read3 addr 4 s) (\<lambda>bs s. Ok (Some (dec32 bs)) s))"

definition argint3 :: "nat \<Rightarrow> 'a kmem_scheme \<Rightarrow> ('a kmem_scheme, uint option) res" where
  "argint3 n s = bindR (myproc s) (\<lambda>p s. fetchint3 (esp (tf (procs s p)) + 4 + 4 * of_nat n) s)"

definition argptr3 :: "nat \<Rightarrow> int \<Rightarrow> 'a kmem_scheme \<Rightarrow> ('a kmem_scheme, uint option) res" where
  "argptr3 n len s =
     bindR (myproc s) (\<lambda>p s.
     bindR (argint3 n s) (\<lambda>r s.
     case r of
       None \<Rightarrow> Ok None s
     | Some i \<Rightarrow>
         if len < 0 \<or> sz (procs s p) \<le> i \<or> sz (procs s p) < i + word_of_int len then Ok None s
         else Ok (Some i) s))"

text \<open>\<open>struct pstat\<close>: four arrays of \<open>int\<close>, in the order of the declaration.\<close>

record pstat =
  ps_inuse :: "int list"
  ps_tickets :: "int list"
  ps_pid :: "int list"
  ps_ticks :: "int list"

definition pstat_of :: "'a lottstate_scheme \<Rightarrow> pstat" where
  "pstat_of s =
     \<lparr>ps_inuse = map (\<lambda>i. if state (procs s i) = UNUSED then 0 else 1) [0..<NPROC],
      ps_tickets = map (\<lambda>i. tickets_of s i) [0..<NPROC],
      ps_pid = map (\<lambda>i. pid (procs s i)) [0..<NPROC],
      ps_ticks = map (\<lambda>i. ticks_of s i) [0..<NPROC]\<rparr>"

definition enc_pstat :: "pstat \<Rightarrow> uchar list" where
  "enc_pstat x = concat (map (\<lambda>n. enc32 (word_of_int n)) (ps_inuse x @ ps_tickets x @ ps_pid x @ ps_ticks x))"

text \<open>Only the four bytes of a pointer are checked before the whole structure is written.\<close>

definition getpinfo :: "'a lottstate_scheme \<Rightarrow> ('a lottstate_scheme, int) res" where
  "getpinfo s =
     bindR (argptr3 0 4 s) (\<lambda>r s.
     case r of
       None \<Rightarrow> Ok (- 1) s
     | Some a \<Rightarrow>
         bindR (acquire_lk Lptable s) (\<lambda>_ s.
         bindR (user_write3 a (enc_pstat (pstat_of s)) s) (\<lambda>_ s.
         bindR (release_lk Lptable s) (\<lambda>_ s. Ok 0 s))))"

definition sys_settickets :: "'a lottstate_scheme \<Rightarrow> ('a lottstate_scheme, int) res" where
  "sys_settickets s =
     bindR (argint3 0 s) (\<lambda>r s.
     case r of None \<Rightarrow> Fault ''tickets'' | Some n \<Rightarrow> settickets (sint n) s)"

definition sys_getpinfo :: "'a lottstate_scheme \<Rightarrow> ('a lottstate_scheme, int) res" where
  "sys_getpinfo s = bindR (argptr3 0 4 s) (\<lambda>_ s. getpinfo s)"

definition sys_murmur :: "'a pstate_scheme \<Rightarrow> ('a pstate_scheme, int) res" where
  "sys_murmur s = bindR (murmur draw_key s) (\<lambda>h s. Ok (sint h) s)"

section \<open>Who wins\<close>

definition runnables :: "'a lottstate_scheme \<Rightarrow> nat list \<Rightarrow> nat list" where
  "runnables s ps = filter (\<lambda>p. state (procs s p) = RUNNABLE) ps"

definition stake :: "'a lottstate_scheme \<Rightarrow> nat list \<Rightarrow> nat" where
  "stake s ps = sum_list (map (\<lambda>p. nat (tickets_of s p)) ps)"

lemma stake_simps [simp]: "stake s [] = 0" "stake s (p # ps) = nat (tickets_of s p) + stake s ps"
  "stake s (ps @ qs) = stake s ps + stake s qs"
  by (simp_all add: stake_def)

lemma stake_take: "stake s (take i ps) \<le> stake s ps"
  using append_take_drop_id [of i ps] stake_simps(3) [of s "take i ps" "drop i ps"] by simp

lemma total_fold:
  assumes "\<forall>p \<in> set (runnables s ps). 1 \<le> tickets_of s p"
  shows "fold (\<lambda>p t. if state (procs s p) \<noteq> RUNNABLE then t else t + word_of_int (tickets_of s p)) ps t =
    (t + of_nat (stake s (runnables s ps)) :: uint)"
  using assms
proof (induction ps arbitrary: t)
  case (Cons p ps)
  have "(word_of_int (tickets_of s p) :: uint) = of_nat (nat (tickets_of s p))" if "1 \<le> tickets_of s p"
    using that by (simp add: of_nat_nat)
  with Cons show ?case by (auto simp: runnables_def algebra_simps)
qed (simp add: runnables_def)

text \<open>The process at position \<open>i\<close> among the runnable ones wins the draws above the stakes before it.\<close>

lemma lottery_scan_wins:
  assumes "\<forall>p \<in> set (runnables s ps). 1 \<le> tickets_of s p" "c + stake s (runnables s ps) < 2 ^ 32" "l < 2 ^ 32"
  shows "lottery_scan (of_nat l) s ps (of_nat c) = Some p \<longleftrightarrow>
    (\<exists>i < length (runnables s ps). p = runnables s ps ! i \<and>
      (i = 0 \<or> c + stake s (take i (runnables s ps)) < l) \<and> l \<le> c + stake s (take (Suc i) (runnables s ps)))"
  using assms(1,2)
proof (induction ps arbitrary: c)
  case (Cons q ps)
  show ?case
  proof (cases "state (procs s q) = RUNNABLE")
    case False
    with Cons show ?thesis by (simp add: runnables_def)
  next
    case True
    let ?rs = "runnables s ps" and ?t = "nat (tickets_of s q)"
    have rs: "runnables s (q # ps) = q # ?rs" using True by (simp add: runnables_def)
    have t: "1 \<le> tickets_of s q" "c + ?t + stake s ?rs < 2 ^ 32" using Cons.prems by (auto simp: rs)
    have w: "(of_nat c + word_of_int (tickets_of s q) :: uint) = of_nat (c + ?t)" using t(1) by (simp add: of_nat_nat)
    have "unat (of_nat (c + ?t) :: uint) = c + ?t" "unat (of_nat l :: uint) = l"
      using t(2) assms(3) by (intro unat_of_nat32; simp)+
    then have lt: "(of_nat (c + ?t) :: uint) < of_nat l \<longleftrightarrow> c + ?t < l" by (simp only: word_less_nat_alt)
    have IH: "lottery_scan (of_nat l) s ps (of_nat (c + ?t)) = Some p \<longleftrightarrow>
      (\<exists>i < length ?rs. p = ?rs ! i \<and> (i = 0 \<or> c + ?t + stake s (take i ?rs) < l) \<and> l \<le> c + ?t + stake s (take (Suc i) ?rs))"
      using Cons.prems(1) t(2) by (intro Cons.IH) (auto simp: rs)
    show ?thesis
    proof (cases "c + ?t < l")
      case less: True
      have "lottery_scan (of_nat l) s (q # ps) (of_nat c) = lottery_scan (of_nat l) s ps (of_nat (c + ?t))"
        using True less by (simp only: lottery_scan.simps Let_def w lt simp_thms if_True if_False)
      moreover have "(\<exists>i < length (q # ?rs). p = (q # ?rs) ! i \<and> (i = 0 \<or> c + stake s (take i (q # ?rs)) < l) \<and>
          l \<le> c + stake s (take (Suc i) (q # ?rs))) \<longleftrightarrow>
        (\<exists>i < length ?rs. p = ?rs ! i \<and> (i = 0 \<or> c + ?t + stake s (take i ?rs) < l) \<and> l \<le> c + ?t + stake s (take (Suc i) ?rs))"
        (is "?L \<longleftrightarrow> ?R")
      proof
        assume ?L
        then obtain i where i: "i < Suc (length ?rs)" "p = (q # ?rs) ! i" "i = 0 \<or> c + stake s (take i (q # ?rs)) < l"
          "l \<le> c + stake s (take (Suc i) (q # ?rs))" by auto
        from i(4) less have "i \<noteq> 0" by (cases i) auto
        then obtain j where "i = Suc j" by (cases i) auto
        moreover from this i(4) less have "j = 0 \<or> c + ?t + stake s (take j ?rs) < l"
          using i(3) by (cases "j = 0") (simp_all add: add.assoc)
        ultimately show ?R using i by (intro exI [of _ j]) (simp add: add.assoc)
      next
        assume ?R
        then obtain i where "i < length ?rs" "p = ?rs ! i" "i = 0 \<or> c + ?t + stake s (take i ?rs) < l"
          "l \<le> c + ?t + stake s (take (Suc i) ?rs)" by auto
        moreover from this(3) less have "c + ?t + stake s (take i ?rs) < l" by (cases i) auto
        ultimately show ?L by (intro exI [of _ "Suc i"]) (simp add: add.assoc)
      qed
      ultimately show ?thesis unfolding rs using IH by simp
    next
      case False
      have L: "lottery_scan (of_nat l) s (q # ps) (of_nat c) = Some q"
        using True False by (simp only: lottery_scan.simps Let_def w lt simp_thms if_True if_False)
      have only: "p = q" if i: "i < length (q # ?rs)" "p = (q # ?rs) ! i" "i = 0 \<or> c + stake s (take i (q # ?rs)) < l" for i
      proof -
        have "i = 0" using i(3) False by (cases i) auto
        with i(2) show ?thesis by simp
      qed
      show ?thesis unfolding rs L
      proof
        assume "Some q = Some p"
        then show "\<exists>i < length (q # ?rs). p = (q # ?rs) ! i \<and> (i = 0 \<or> c + stake s (take i (q # ?rs)) < l) \<and>
            l \<le> c + stake s (take (Suc i) (q # ?rs))"
          using False by (intro exI [of _ 0]) simp
      next
        assume "\<exists>i < length (q # ?rs). p = (q # ?rs) ! i \<and> (i = 0 \<or> c + stake s (take i (q # ?rs)) < l) \<and>
            l \<le> c + stake s (take (Suc i) (q # ?rs))"
        then have "p = q" by (elim exE conjE) (rule only)
        then show "Some q = Some p" by simp
      qed
    qed
  qed
qed (simp add: runnables_def)

section \<open>Properties\<close>

text \<open>
  (C24) Shares of the lottery: when every runnable process has at least one ticket, the draws below the
  total of the tickets pick the process at position \<open>i\<close> of the runnable ones as often as it has
  tickets, except that the first one wins once more and the last one once less than that. So the last of
  several runnable processes that hold one ticket each never runs.
\<close>

theorem lottery_shares:
  fixes s :: "'a lottstate_scheme"
  defines "rs \<equiv> runnables s [0..<NPROC]"
  assumes "\<forall>p \<in> set rs. 1 \<le> tickets_of s p" and "stake s rs < 2 ^ 32" and "i < length rs"
  shows "total_tickets s = of_nat (stake s rs) \<and>
    card {l. l < stake s rs \<and> lottery_scan (of_nat l) s [0..<NPROC] 0 = Some (rs ! i)} =
      nat (tickets_of s (rs ! i)) + (if i = 0 then 1 else 0) - (if Suc i = length rs then 1 else 0)"
proof
  show "total_tickets s = of_nat (stake s rs)"
    using total_fold [of s "[0..<NPROC]" 0] assms(2) by (simp add: total_tickets_def rs_def)
  let ?a = "stake s (take i rs)" and ?t = "nat (tickets_of s (rs ! i))"
  have d: "distinct rs" by (simp add: rs_def runnables_def)
  have suc: "stake s (take (Suc i) rs) = ?a + ?t" using assms(4) by (simp add: take_Suc_conv_app_nth)
  have le: "?a + ?t \<le> stake s rs" using stake_take [of s "Suc i" rs] suc by simp
  have "1 \<le> tickets_of s (rs ! i)" using assms(2,4) by simp
  then have t1: "1 \<le> ?t" by simp
  have win: "lottery_scan (of_nat l) s [0..<NPROC] 0 = Some (rs ! i) \<longleftrightarrow> (i = 0 \<or> ?a < l) \<and> l \<le> ?a + ?t"
    if "l < stake s rs" for l
  proof -
    have "lottery_scan (of_nat l) s [0..<NPROC] (of_nat 0) = Some (rs ! i) \<longleftrightarrow>
      (\<exists>j < length rs. rs ! i = rs ! j \<and> (j = 0 \<or> 0 + stake s (take j rs) < l) \<and> l \<le> 0 + stake s (take (Suc j) rs))"
      using that assms(2,3) unfolding rs_def by (intro lottery_scan_wins) auto
    then show ?thesis using d assms(4) suc by (auto simp: nth_eq_iff_index_eq)
  qed
  have set: "{l. l < stake s rs \<and> lottery_scan (of_nat l) s [0..<NPROC] 0 = Some (rs ! i)} =
      {(if i = 0 then 0 else Suc ?a)..<min (stake s rs) (Suc (?a + ?t))}"
    using win by auto
  have last: "?a + ?t = stake s rs \<longleftrightarrow> Suc i = length rs"
  proof -
    have "stake s rs = ?a + ?t + stake s (drop (Suc i) rs)"
      using stake_simps(3) [of s "take (Suc i) rs" "drop (Suc i) rs"] suc by simp
    moreover have "stake s (drop (Suc i) rs) = 0 \<longleftrightarrow> drop (Suc i) rs = []"
    proof (cases "drop (Suc i) rs")
      case (Cons p ps)
      then have "p \<in> set rs" by (metis in_set_dropD list.set_intros(1))
      then show ?thesis using Cons assms(2) by auto
    qed simp
    ultimately show ?thesis using assms(4) by auto
  qed
  have a0: "i = 0 \<Longrightarrow> ?a = 0" by simp
  show "card {l. l < stake s rs \<and> lottery_scan (of_nat l) s [0..<NPROC] 0 = Some (rs ! i)} =
      ?t + (if i = 0 then 1 else 0) - (if Suc i = length rs then 1 else 0)"
    unfolding set using last le t1 a0 by (auto simp: min_def)
qed

definition ex_proc3 :: "nat \<Rightarrow> proc" where
  "ex_proc3 p = zero_proc\<lparr>state := (if p = 2 \<or> p = 5 then RUNNABLE else UNUSED)\<rparr>"

definition ex_lott :: lottstate where
  "ex_lott = filestate.extend (ex_file\<lparr>procs := ex_proc3\<rparr>) (lottstate.fields (\<lambda>_. 1) (\<lambda>_. 0))"

lemma ex_lott_sel [simp]: "procs ex_lott = ex_proc3" "tickets_of ex_lott = (\<lambda>_. 1)" "ticks_of ex_lott = (\<lambda>_. 0)"
  by (simp_all add: ex_lott_def filestate.extend_def lottstate.fields_def)

theorem lottery_shares_witness:
  "total_tickets ex_lott = 2 \<and>
   card {l. l < 2 \<and> lottery_scan (of_nat l) ex_lott [0..<NPROC] 0 = Some 2} = 2 \<and>
   card {l. l < 2 \<and> lottery_scan (of_nat l) ex_lott [0..<NPROC] 0 = Some 5} = 0"
proof -
  have r: "runnables ex_lott [0..<NPROC] = [2, 5]"
    by (simp add: runnables_def ex_proc3_def NPROC_def upt_conv_Cons zero_proc_def)
  have k: "stake ex_lott [2, 5] = 2" "tickets_of ex_lott p = 1" for p
    by simp_all
  have "card {l. l < 2 \<and> lottery_scan (of_nat l) ex_lott [0..<NPROC] 0 = Some 2} = 2"
    "total_tickets ex_lott = 2"
    using lottery_shares [of ex_lott 0] unfolding r k by (auto simp del: card.empty)
  moreover have "card {l. l < 2 \<and> lottery_scan (of_nat l) ex_lott [0..<NPROC] 0 = Some 5} = 0"
    using lottery_shares [of ex_lott 1] unfolding r k by (auto simp del: card.empty)
  ultimately show ?thesis by blast
qed

end
