(* ===== verification/Shell.thy ===== *)
theory Shell
  imports Prelude
begin

text \<open>
  The command parser of the shell \<open>sh.c\<close>. The text still to be parsed is the list of its bytes; the
  pointers \<open>q\<close>, \<open>eq\<close> around a word are the word itself, so \<open>nulterminate\<close>, which turns each such pair
  into a string, has nothing left to do. A parse error is \<open>Panic\<close>. The functions that call each other
  count down fuel; the property on termination shows that \<open>parsecmd\<close> starts with enough.
\<close>

section \<open>Commands\<close>

definition MAXARGS :: nat where "MAXARGS = 10"

datatype cmd =
    EXEC "uchar list list"
  | REDIR cmd "uchar list" uint int
  | PIPE cmd cmd
  | LIST cmd cmd
  | BACK cmd

definition O_WRONLY :: uint where "O_WRONLY = 0x001"
definition O_RDONLY :: uint where "O_RDONLY = 0x000"
definition O_CREATE :: uint where "O_CREATE = 0x200"

section \<open>Tokens\<close>

definition is_space :: "uchar \<Rightarrow> bool" where
  "is_space c \<longleftrightarrow> c = 32 \<or> c = 9 \<or> c = 13 \<or> c = 10 \<or> c = 11"

definition is_symbol :: "uchar \<Rightarrow> bool" where
  "is_symbol c \<longleftrightarrow> c = 60 \<or> c = 124 \<or> c = 62 \<or> c = 38 \<or> c = 59 \<or> c = 40 \<or> c = 41"

definition skip :: "uchar list \<Rightarrow> uchar list" where
  "skip s = dropWhile is_space s"

text \<open>The token (\<open>0\<close> at the end, \<open>97\<close> for a word, \<open>43\<close> for \<open>>>\<close>), its text and the rest.\<close>

definition gettoken :: "uchar list \<Rightarrow> uchar \<times> uchar list \<times> uchar list" where
  "gettoken s =
     (case skip s of
        [] \<Rightarrow> (0, [], [])
      | c # r \<Rightarrow>
          if c = 0 then (0, [], skip (c # r))
          else if c = 124 \<or> c = 40 \<or> c = 41 \<or> c = 59 \<or> c = 38 \<or> c = 60 then (c, [c], skip r)
          else if c = 62
          then (if r \<noteq> [] \<and> hd r = 62 then (43, [c, c], skip (tl r)) else (c, [c], skip r))
          else (97, takeWhile (\<lambda>x. \<not> is_space x \<and> \<not> is_symbol x) (c # r),
                skip (dropWhile (\<lambda>x. \<not> is_space x \<and> \<not> is_symbol x) (c # r))))"

definition peek :: "uchar list \<Rightarrow> uchar list \<Rightarrow> bool \<times> uchar list" where
  "peek toks s = (let s = skip s in (s \<noteq> [] \<and> hd s \<noteq> 0 \<and> hd s \<in> set toks, s))"

section \<open>Parsing\<close>

lemma length_skip: "length (skip s) \<le> length s"
  by (simp add: skip_def length_dropWhile_le)

lemma peek_length: "peek toks s = (b, t) \<Longrightarrow> length t \<le> length s"
  using length_skip [of s] by (auto simp: peek_def Let_def)

lemma gettoken_length: "gettoken s = (tok, w, t) \<Longrightarrow> length t \<le> length s"
proof -
  assume a: "gettoken s = (tok, w, t)"
  note L = length_skip [of s] length_skip
  show ?thesis
  proof (cases "skip s")
    case (Cons c r)
    have "length (skip (dropWhile (\<lambda>x. \<not> is_space x \<and> \<not> is_symbol x) (c # r))) \<le> length (c # r)"
      by (rule order_trans [OF length_skip length_dropWhile_le])
    moreover have "length (skip r) \<le> length r" "length (skip (tl r)) \<le> length (tl r)" "length (skip (c # r)) \<le> length (c # r)"
      by (rule length_skip)+
    ultimately show ?thesis using a L(1) Cons by (auto simp: gettoken_def split: if_splits)
  qed (use a in \<open>simp add: gettoken_def\<close>)
qed

lemma gettoken_rest: "length (snd (snd (gettoken s))) \<le> length s"
  by (rule gettoken_length [of s "fst (gettoken s)" "fst (snd (gettoken s))"]) simp

lemma gettoken_shorter:
  assumes "gettoken s = (tok, w, t)" "tok \<noteq> 0"
  shows "length t < length s"
proof -
  obtain c r where c: "skip s = c # r" "c \<noteq> 0" using assms by (cases "skip s") (auto simp: gettoken_def split: if_splits)
  have r: "length (skip r) < length (skip s)" "length (skip (tl r)) < length (skip s)"
    using length_skip [of r] length_skip [of "tl r"] c by auto
  have "length (skip (dropWhile (\<lambda>x. \<not> is_space x \<and> \<not> is_symbol x) (c # r))) < length (c # r)"
    if "\<not> is_space c" "\<not> is_symbol c"
    using that length_skip [of "dropWhile (\<lambda>x. \<not> is_space x \<and> \<not> is_symbol x) r"]
      length_dropWhile_le [of "\<lambda>x. \<not> is_space x \<and> \<not> is_symbol x" r] by simp
  moreover have "\<not> is_space c"
    using hd_dropWhile [of is_space s] c(1) unfolding skip_def by (metis list.distinct(1) list.sel(1))
  ultimately have "length t < length (skip s)"
    using assms(1) c r by (auto simp: gettoken_def is_symbol_def split: if_splits)
  then show ?thesis using length_skip [of s] by simp
qed

lemma peek_token:
  assumes "peek toks s = (True, t)"
  shows "length (snd (snd (gettoken t))) < length s"
proof -
  have t: "t = skip s" "t \<noteq> []" "hd t \<noteq> 0" using assms by (auto simp: peek_def Let_def)
  have "skip t = t" using t(1) by (simp add: skip_def)
  then have "fst (gettoken t) \<noteq> 0" using t(2,3) by (cases t) (auto simp: gettoken_def)
  then have "length (snd (snd (gettoken t))) < length t"
    using gettoken_shorter [of t "fst (gettoken t)" "fst (snd (gettoken t))" "snd (snd (gettoken t))"] by simp
  then show ?thesis using length_skip [of s] t(1) by simp
qed

function parseredirs :: "cmd \<Rightarrow> uchar list \<Rightarrow> (uchar list, cmd) res" where
  "parseredirs c s =
     (case peek [60, 62] s of
        (False, s) \<Rightarrow> Ok c s
      | (True, s) \<Rightarrow>
          let tok = fst (gettoken s); g = gettoken (snd (snd (gettoken s)))
          in if fst g \<noteq> 97 then Panic ''missing file for redirection''
             else parseredirs
               (if tok = 60 then REDIR c (fst (snd g)) O_RDONLY 0
                else if tok = 62 \<or> tok = 43 then REDIR c (fst (snd g)) (O_WRONLY OR O_CREATE) 1
                else c) (snd (snd g)))"
  by pat_completeness auto
termination
  by (relation "measure (\<lambda>(c, s). length s)") (auto intro: le_less_trans [OF gettoken_rest peek_token])

text \<open>A word goes to the \<open>execcmd\<close> below the redirections put around it.\<close>

fun add_arg :: "uchar list \<Rightarrow> cmd \<Rightarrow> cmd" where
  "add_arg w (EXEC ws) = EXEC (ws @ [w])"
| "add_arg w (REDIR c f m fd) = REDIR (add_arg w c) f m fd"
| "add_arg w c = c"

function parseargs :: "nat \<Rightarrow> cmd \<Rightarrow> uchar list \<Rightarrow> (uchar list, cmd) res" where
  "parseargs argc ret s =
     (case peek [124, 41, 38, 59] s of
        (True, s) \<Rightarrow> Ok ret s
      | (False, s) \<Rightarrow>
          (case gettoken s of
             (tok, w, s) \<Rightarrow>
               if tok = 0 then Ok ret s
               else if tok \<noteq> 97 then Panic ''syntax''
               else if MAXARGS \<le> argc + 1 then Panic ''too many args''
               else bindR (parseredirs (add_arg w ret) s) (\<lambda>ret s. parseargs (argc + 1) ret s)))"
  by pat_completeness auto
termination
  by (relation "measure (\<lambda>(argc, ret, s). MAXARGS - argc)") auto

function parsebacks :: "cmd \<Rightarrow> uchar list \<Rightarrow> cmd \<times> uchar list" where
  "parsebacks c s =
     (case peek [38] s of
        (False, s) \<Rightarrow> (c, s)
      | (True, s) \<Rightarrow> parsebacks (BACK c) (snd (snd (gettoken s))))"
  by pat_completeness auto
termination
  by (relation "measure (\<lambda>(c, s). length s)") (auto intro: peek_token)

declare parseredirs.simps [simp del] parseargs.simps [simp del] parsebacks.simps [simp del]

fun parseline :: "nat \<Rightarrow> uchar list \<Rightarrow> (uchar list, cmd) res"
  and parsepipe :: "nat \<Rightarrow> uchar list \<Rightarrow> (uchar list, cmd) res"
  and parseexec :: "nat \<Rightarrow> uchar list \<Rightarrow> (uchar list, cmd) res"
  and parseblock :: "nat \<Rightarrow> uchar list \<Rightarrow> (uchar list, cmd) res" where
  "parseline 0 s = Fault ''fuel''"
| "parseline (Suc n) s =
     bindR (parsepipe n s) (\<lambda>c s.
       case parsebacks c s of
         (c, s) \<Rightarrow>
           (case peek [59] s of
              (True, s) \<Rightarrow> bindR (parseline n (snd (snd (gettoken s)))) (\<lambda>d s. Ok (LIST c d) s)
            | (False, s) \<Rightarrow> Ok c s))"
| "parsepipe 0 s = Fault ''fuel''"
| "parsepipe (Suc n) s =
     bindR (parseexec n s) (\<lambda>c s.
       case peek [124] s of
         (True, s) \<Rightarrow> bindR (parsepipe n (snd (snd (gettoken s)))) (\<lambda>d s. Ok (PIPE c d) s)
       | (False, s) \<Rightarrow> Ok c s)"
| "parseexec 0 s = Fault ''fuel''"
| "parseexec (Suc n) s =
     (case peek [40] s of
        (True, s) \<Rightarrow> parseblock n s
      | (False, s) \<Rightarrow> bindR (parseredirs (EXEC []) s) (\<lambda>ret s. parseargs 0 ret s))"
| "parseblock 0 s = Fault ''fuel''"
| "parseblock (Suc n) s =
     (case peek [40] s of
        (False, s) \<Rightarrow> Panic ''parseblock''
      | (True, s) \<Rightarrow>
          bindR (parseline n (snd (snd (gettoken s)))) (\<lambda>c s.
          case peek [41] s of
            (False, s) \<Rightarrow> Panic ''syntax - missing )''
          | (True, s) \<Rightarrow> parseredirs c (snd (snd (gettoken s)))))"

definition parse_fuel :: "uchar list \<Rightarrow> nat" where
  "parse_fuel s = 16 * length s + 16"

definition parsecmd :: "uchar list \<Rightarrow> (uchar list, cmd) res" where
  "parsecmd s =
     bindR (parseline (parse_fuel s) s) (\<lambda>c s.
       case peek [] s of (_, s) \<Rightarrow> if s \<noteq> [] then Panic ''syntax'' else Ok c s)"

section \<open>Termination\<close>

text \<open>A parser that returns leaves no more text than it was given, and never runs out of fuel.\<close>

definition parses :: "nat \<Rightarrow> (uchar list, cmd) res \<Rightarrow> bool" where
  "parses n r = (case r of Ok c t \<Rightarrow> length t \<le> n | Panic m \<Rightarrow> True | _ \<Rightarrow> False)"

lemma parses_bind:
  assumes "parses m r" "\<And>c t. r = Ok c t \<Longrightarrow> length t \<le> m \<Longrightarrow> parses n (f c t)"
  shows "parses n (bindR r f)"
  using assms by (cases r) (auto simp: parses_def)

lemma parses_mono: "parses m r \<Longrightarrow> m \<le> n \<Longrightarrow> parses n r"
  by (auto simp: parses_def split: res.splits)

lemma parses_Ok [simp]: "parses n (Ok c t) \<longleftrightarrow> length t \<le> n" "parses n (Panic m)"
  by (simp_all add: parses_def)

lemma parses_redirs: "parses (length s) (parseredirs c s)"
proof (induction "length s" arbitrary: c s rule: less_induct)
  case less
  obtain b t where p: "peek [60, 62] s = (b, t)" by (cases "peek [60, 62] s")
  show ?case
  proof (cases b)
    case False
    then show ?thesis using p peek_length [OF p] by (subst parseredirs.simps) simp
  next
    case True
    let ?u = "snd (snd (gettoken t))" and ?x = "snd (snd (gettoken (snd (snd (gettoken t)))))"
    have lt: "length ?x < length s" using peek_token [of "[60, 62]" s t] p True gettoken_rest [of ?u] by simp
    show ?thesis using p True parses_mono [OF less [OF lt] less_imp_le [OF lt]]
      by (subst parseredirs.simps) (simp add: Let_def)
  qed
qed

lemma parses_args: "parses (length s) (parseargs argc c s)"
proof (induction "MAXARGS - argc" arbitrary: argc c s rule: less_induct)
  case less
  obtain b t where p: "peek [124, 41, 38, 59] s = (b, t)" by (cases "peek [124, 41, 38, 59] s")
  obtain tok w u where g: "gettoken t = (tok, w, u)" by (cases "gettoken t") auto
  have l: "length t \<le> length s" "length u \<le> length s" using peek_length [OF p] gettoken_length [OF g] by auto
  have "parses (length s) (bindR (parseredirs (add_arg w c) u) (\<lambda>ret s. parseargs (argc + 1) ret s))"
    if "\<not> MAXARGS \<le> argc + 1"
  proof (rule parses_bind [OF parses_redirs])
    fix d and x :: "uchar list" assume "length x \<le> length u"
    then show "parses (length s) (parseargs (argc + 1) d x)"
      using that l \<open>length x \<le> length u\<close> by (intro parses_mono [OF less]) auto
  qed
  then show ?case using p g l by (subst parseargs.simps) (cases b; simp)
qed

lemma parsebacks_length: "parsebacks c s = (d, t) \<Longrightarrow> length t \<le> length s"
proof (induction "length s" arbitrary: c s rule: less_induct)
  case less
  obtain b u where p: "peek [38] s = (b, u)" by (cases "peek [38] s")
  show ?case
  proof (cases b)
    case False
    then show ?thesis using less.prems p peek_length [OF p] by (subst (asm) parsebacks.simps) simp
  next
    case True
    have lt: "length (snd (snd (gettoken u))) < length s" using peek_token [of "[38]" s u] p True by simp
    have "parsebacks (BACK c) (snd (snd (gettoken u))) = (d, t)" using less.prems p True by (subst (asm) parsebacks.simps) simp
    from less.hyps [OF lt this] lt show ?thesis by simp
  qed
qed

lemma parses_all:
  "(4 * length s + 4 \<le> n \<longrightarrow> parses (length s) (parseline n s)) \<and>
   (4 * length s + 3 \<le> n \<longrightarrow> parses (length s) (parsepipe n s)) \<and>
   (4 * length s + 2 \<le> n \<longrightarrow> parses (length s) (parseexec n s)) \<and>
   (4 * length s + 1 \<le> n \<longrightarrow> parses (length s) (parseblock n s))"
proof (induction n arbitrary: s)
  case (Suc n)
  have line: "parses (length t) (parseline n t)" if "4 * length t + 4 \<le> n" for t using Suc.IH [of t] that by blast
  have pipe: "parses (length t) (parsepipe n t)" if "4 * length t + 3 \<le> n" for t using Suc.IH [of t] that by blast
  have exec: "parses (length t) (parseexec n t)" if "4 * length t + 2 \<le> n" for t using Suc.IH [of t] that by blast
  have block: "parses (length t) (parseblock n t)" if "4 * length t + 1 \<le> n" for t using Suc.IH [of t] that by blast
  have 1: "parses (length s) (parseline (Suc n) s)" if f: "4 * length s + 4 \<le> Suc n"
    unfolding parseline.simps
  proof (rule parses_bind [OF pipe])
    show "4 * length s + 3 \<le> n" using f by simp
    fix c and t :: "uchar list" assume t: "length t \<le> length s"
    obtain d u where b: "parsebacks c t = (d, u)" by (cases "parsebacks c t")
    obtain q v where p: "peek [59] u = (q, v)" by (cases "peek [59] u")
    have l: "length u \<le> length s" "length v \<le> length s" using parsebacks_length [OF b] peek_length [OF p] t by auto
    have "parses (length s) (bindR (parseline n (snd (snd (gettoken v)))) (\<lambda>e s. Ok (LIST d e) s))" if q
    proof -
      have "length (snd (snd (gettoken v))) < length s" using peek_token [of "[59]" u v] p that l by simp
      then show ?thesis using f by (intro parses_bind [OF line]) auto
    qed
    then show "parses (length s) (case parsebacks c t of (c, s) \<Rightarrow> (case peek [59] s of
          (True, s) \<Rightarrow> bindR (parseline n (snd (snd (gettoken s)))) (\<lambda>d s. Ok (LIST c d) s) | (False, s) \<Rightarrow> Ok c s))"
      using b p l by (cases q) auto
  qed
  have 2: "parses (length s) (parsepipe (Suc n) s)" if f: "4 * length s + 3 \<le> Suc n"
    unfolding parsepipe.simps
  proof (rule parses_bind [OF exec])
    show "4 * length s + 2 \<le> n" using f by simp
    fix c and u :: "uchar list" assume t: "length u \<le> length s"
    obtain q v where p: "peek [124] u = (q, v)" by (cases "peek [124] u")
    have l: "length v \<le> length s" using peek_length [OF p] t by auto
    have "parses (length s) (bindR (parsepipe n (snd (snd (gettoken v)))) (\<lambda>e s. Ok (PIPE c e) s))" if q
    proof -
      have "length (snd (snd (gettoken v))) < length s" using peek_token [of "[124]" u v] p that t by simp
      then show ?thesis using f by (intro parses_bind [OF pipe]) auto
    qed
    then show "parses (length s) (case peek [124] u of
          (True, s) \<Rightarrow> bindR (parsepipe n (snd (snd (gettoken s)))) (\<lambda>d s. Ok (PIPE c d) s) | (False, s) \<Rightarrow> Ok c s)"
      using p l by (cases q) auto
  qed
  have 3: "parses (length s) (parseexec (Suc n) s)" if f: "4 * length s + 2 \<le> Suc n"
  proof -
    obtain q v where p: "peek [40] s = (q, v)" by (cases "peek [40] s")
    have l: "length v \<le> length s" using peek_length [OF p] .
    have "parses (length s) (parseblock n v)" using f l by (intro parses_mono [OF block]) auto
    moreover have "parses (length s) (bindR (parseredirs (EXEC []) v) (\<lambda>ret s. parseargs 0 ret s))"
      by (rule parses_bind [OF parses_redirs]) (rule parses_mono [OF parses_args], use l in linarith)
    ultimately show ?thesis using p by (cases q) auto
  qed
  have 4: "parses (length s) (parseblock (Suc n) s)" if f: "4 * length s + 1 \<le> Suc n"
  proof -
    obtain q v where p: "peek [40] s = (q, v)" by (cases "peek [40] s")
    let ?t = "snd (snd (gettoken v))"
    have "parses (length s) (bindR (parseline n ?t) (\<lambda>c s. case peek [41] s of
        (False, s) \<Rightarrow> Panic ''syntax - missing )'' | (True, s) \<Rightarrow> parseredirs c (snd (snd (gettoken s)))))" if q
    proof -
      have lt: "length ?t < length s" using peek_token [of "[40]" s v] p that by simp
      show ?thesis
      proof (rule parses_bind [OF line])
        show "4 * length ?t + 4 \<le> n" using f lt by simp
        fix c and u :: "uchar list" assume u: "length u \<le> length ?t"
        obtain r x where p2: "peek [41] u = (r, x)" by (cases "peek [41] u")
        have "length (snd (snd (gettoken x))) \<le> length s"
          using gettoken_rest [of x] peek_length [OF p2] u lt by simp
        then have "parses (length s) (parseredirs c (snd (snd (gettoken x))))" by (rule parses_mono [OF parses_redirs])
        then show "parses (length s) (case peek [41] u of
            (False, s) \<Rightarrow> Panic ''syntax - missing )'' | (True, s) \<Rightarrow> parseredirs c (snd (snd (gettoken s))))"
          using p2 by (cases r) auto
      qed
    qed
    then show ?thesis using p by (cases q) auto
  qed
  from 1 2 3 4 show ?case by blast
qed simp

section \<open>Printing commands\<close>

definition paren :: "bool \<Rightarrow> uchar list \<Rightarrow> uchar list" where
  "paren b t = (if b then 40 # t @ [41] else t)"

definition redir_text :: "uchar list \<times> uint \<times> int \<Rightarrow> uchar list" where
  "redir_text = (\<lambda>(f, m, fd). (if fd = 0 then 60 else 62) # f @ [32])"

text \<open>Levels: 0 a line, 1 a command that may end in \<open>&\<close>, 2 a pipeline, 3 one stage of it.\<close>

fun show_cmd :: "nat \<Rightarrow> cmd \<Rightarrow> uchar list" where
  "show_cmd p (EXEC ws) = concat (map (\<lambda>w. w @ [32]) ws)"
| "show_cmd p (REDIR c f m fd) = show_cmd 3 c @ redir_text (f, m, fd)"
| "show_cmd p (PIPE l r) = paren (2 < p) (show_cmd 3 l @ 124 # show_cmd 2 r)"
| "show_cmd p (LIST l r) = paren (0 < p) (show_cmd 1 l @ 59 # show_cmd 0 r)"
| "show_cmd p (BACK c) = paren (1 < p) (show_cmd 1 c @ [38])"

definition is_word :: "uchar list \<Rightarrow> bool" where
  "is_word w \<longleftrightarrow> w \<noteq> [] \<and> (\<forall>c \<in> set w. \<not> is_space c \<and> \<not> is_symbol c \<and> c \<noteq> 0)"

definition wf_redir :: "uchar list \<times> uint \<times> int \<Rightarrow> bool" where
  "wf_redir = (\<lambda>(f, m, fd). is_word f \<and> (m = O_RDONLY \<and> fd = 0 \<or> m = O_WRONLY OR O_CREATE \<and> fd = 1))"

fun wf_cmd :: "cmd \<Rightarrow> bool" where
  "wf_cmd (EXEC ws) = (length ws < MAXARGS \<and> (\<forall>w \<in> set ws. is_word w))"
| "wf_cmd (REDIR c f m fd) = (wf_cmd c \<and> wf_redir (f, m, fd))"
| "wf_cmd (PIPE l r) = (wf_cmd l \<and> wf_cmd r)"
| "wf_cmd (LIST l r) = (wf_cmd l \<and> wf_cmd r)"
| "wf_cmd (BACK c) = wf_cmd c"

fun csize :: "cmd \<Rightarrow> nat" where
  "csize (EXEC ws) = 1"
| "csize (REDIR c f m fd) = Suc (csize c)"
| "csize (PIPE l r) = Suc (csize l + csize r)"
| "csize (LIST l r) = Suc (csize l + csize r)"
| "csize (BACK c) = Suc (csize c)"

lemma csize_text: "csize c \<le> 2 * length (show_cmd p c) + 1"
proof (induction c arbitrary: p)
  case (LIST l r)
  from LIST.IH(1) [of 1] LIST.IH(2) [of 0] show ?case by (simp add: paren_def)
next
  case (PIPE l r)
  from PIPE.IH(1) [of 3] PIPE.IH(2) [of 2] show ?case by (simp add: paren_def)
next
  case (BACK c)
  from BACK.IH [of 1] show ?case by (simp add: paren_def)
next
  case (REDIR c f m fd)
  from REDIR.IH [of 3] show ?case by (simp add: redir_text_def)
qed simp

section \<open>Tokens of printed commands\<close>

definition starts :: "uchar set \<Rightarrow> uchar list \<Rightarrow> bool" where
  "starts A r \<longleftrightarrow> r = [] \<or> hd r \<in> A"

lemma starts_simps [simp]: "starts A []" "starts A (c # r) \<longleftrightarrow> c \<in> A"
  by (simp_all add: starts_def)

lemma starts_mono: "starts A r \<Longrightarrow> A \<subseteq> B \<Longrightarrow> starts B r"
  by (auto simp: starts_def)

lemma starts_append: "starts A s \<Longrightarrow> starts A r \<Longrightarrow> starts A (s @ r)"
  by (cases s) auto

abbreviation tight :: "uchar list \<Rightarrow> bool" where
  "tight \<equiv> starts {c. \<not> is_space c}"

abbreviation word_chars :: "uchar set" where
  "word_chars \<equiv> {c. \<not> is_space c \<and> \<not> is_symbol c \<and> c \<noteq> 0}"

lemma skip_tight: "tight r \<Longrightarrow> skip r = r"
  by (cases r) (auto simp: skip_def)

lemma peek_no: "tight r \<Longrightarrow> starts (- set toks) r \<Longrightarrow> peek toks r = (False, r)"
  by (cases r) (auto simp: peek_def skip_tight)

lemma peek_yes: "\<not> is_space c \<Longrightarrow> c \<noteq> 0 \<Longrightarrow> c \<in> set toks \<Longrightarrow> peek toks (c # r) = (True, c # r)"
  by (simp add: peek_def skip_tight)

lemma gettoken_sym:
  "c \<in> {124, 40, 41, 59, 38, 60} \<Longrightarrow> tight r \<Longrightarrow> gettoken (c # r) = (c, [c], r)"
  by (auto simp: gettoken_def skip_tight is_space_def)

lemma gettoken_gt: "tight r \<Longrightarrow> starts (- {62}) r \<Longrightarrow> gettoken (62 # r) = (62, [62], r)"
  by (cases r) (auto simp: gettoken_def skip_tight is_space_def)

lemma gettoken_word:
  assumes "is_word w" "tight r"
  shows "gettoken (w @ 32 # r) = (97, w, r)"
proof -
  obtain c v where w: "w = c # v" using assms(1) by (cases w) (auto simp: is_word_def)
  have c: "\<not> is_space c" "\<not> is_symbol c" "c \<noteq> 0" using assms(1) w by (auto simp: is_word_def)
  let ?P = "\<lambda>x. \<not> is_space x \<and> \<not> is_symbol x"
  have all: "\<forall>x \<in> set w. ?P x" using assms(1) by (auto simp: is_word_def)
  have sp: "is_space 32" by (simp add: is_space_def)
  have "takeWhile ?P (w @ 32 # r) = w" "dropWhile ?P (w @ 32 # r) = 32 # r"
    using all sp by (subst takeWhile_append2 dropWhile_append2; auto)+
  moreover have "skip (32 # r) = r" using sp skip_tight [OF assms(2)] by (simp add: skip_def)
  moreover have "skip (w @ 32 # r) = w @ 32 # r" using c(1) by (intro skip_tight) (simp add: w)
  ultimately show ?thesis using c by (auto simp: gettoken_def w is_symbol_def)
qed

lemma word_starts: "is_word w \<Longrightarrow> starts word_chars (w @ r)"
  by (cases w) (auto simp: is_word_def)

lemma word_chars_sub: "word_chars \<subseteq> {c. \<not> is_space c}" "c \<in> {40, 41, 38, 59, 60, 62, 124} \<Longrightarrow> c \<notin> word_chars"
  by (auto simp: is_symbol_def)

lemma redirs_starts:
  "starts ({60, 62} \<union> A) r \<Longrightarrow> starts ({60, 62} \<union> A) (concat (map redir_text rs) @ r)"
  by (cases rs) (auto simp: redir_text_def split: prod.splits)

lemma words_starts:
  "\<forall>w \<in> set ws. is_word w \<Longrightarrow> starts A r \<Longrightarrow> starts (word_chars \<union> A) (concat (map (\<lambda>w. w @ [32]) ws) @ r)"
proof (cases ws)
  case (Cons w ws1)
  assume "\<forall>w \<in> set ws. is_word w" "starts A r"
  then have "starts word_chars (w @ [32] @ concat (map (\<lambda>w. w @ [32]) ws1) @ r)" using Cons by (intro word_starts) simp
  then show ?thesis using Cons by (auto simp: starts_def)
qed (auto intro: starts_mono)

section \<open>Redirections and arguments\<close>

fun wrap :: "cmd \<Rightarrow> (uchar list \<times> uint \<times> int) list \<Rightarrow> cmd" where
  "wrap c [] = c"
| "wrap c ((f, m, fd) # rs) = wrap (REDIR c f m fd) rs"

abbreviation ends :: "uchar set" where
  "ends \<equiv> {124, 41, 38, 59}"

lemma ends_tight: "starts ends r \<Longrightarrow> tight r" "starts ends r \<Longrightarrow> starts (- {60, 62}) r" "starts ends r \<Longrightarrow> starts (- {40}) r"
  by (auto simp: starts_def is_space_def)

lemma parseredirs_none: "tight r \<Longrightarrow> starts (- {60, 62}) r \<Longrightarrow> parseredirs c r = Ok c r"
  by (subst parseredirs.simps) (simp add: peek_no)

lemma parseredirs_all:
  assumes "\<forall>x \<in> set rs. wf_redir x" "tight r" "starts (- {60, 62}) r"
  shows "parseredirs c (concat (map redir_text rs) @ r) = Ok (wrap c rs) r"
  using assms(1)
proof (induction rs arbitrary: c)
  case Nil
  then show ?case using assms by (simp add: parseredirs_none)
next
  case (Cons x rs)
  obtain f m fd where x: "x = (f, m, fd)" by (cases x) auto
  let ?u = "concat (map redir_text rs) @ r"
  have "starts ({60, 62} \<union> {c. \<not> is_space c}) ?u" using assms(2) by (intro redirs_starts) (auto intro: starts_mono)
  then have tu: "tight ?u" by (rule starts_mono) (auto simp: is_space_def)
  have f: "is_word f" "m = O_RDONLY \<and> fd = 0 \<or> m = O_WRONLY OR O_CREATE \<and> fd = 1"
    using Cons.prems x by (auto simp: wf_redir_def)
  have sf: "starts word_chars (f @ 32 # ?u)" using f(1) by (rule word_starts)
  have tf: "tight (f @ 32 # ?u)" "starts (- {62}) (f @ 32 # ?u)"
    using sf by (auto intro: starts_mono [OF sf] simp: is_symbol_def)
  note w = gettoken_word [OF f(1) tu]
  have IH: "parseredirs d ?u = Ok (wrap d rs) r" for d using Cons by simp
  have printed: "concat (map redir_text (x # rs)) @ r = (if fd = 0 then 60 else 62) # f @ 32 # ?u"
    by (simp add: x redir_text_def)
  show ?case
  proof (cases "fd = 0")
    case True
    then show ?thesis using f(2) w IH gettoken_sym [OF _ tf(1), of 60] unfolding printed
      by (subst parseredirs.simps) (simp add: peek_yes is_space_def x)
  next
    case False
    then show ?thesis using f(2) w IH gettoken_gt [OF tf] unfolding printed
      by (subst parseredirs.simps) (simp add: peek_yes is_space_def x)
  qed
qed

lemma parseargs_end: "starts ends r \<Longrightarrow> parseargs argc c r = Ok c r"
proof (cases r)
  case (Cons d t)
  assume "starts ends r"
  then show ?thesis using Cons by (subst parseargs.simps) (auto simp: peek_yes is_space_def)
qed (subst parseargs.simps, simp add: peek_def skip_def gettoken_def)

lemma parseargs_words:
  assumes "ws \<noteq> []" "\<forall>w \<in> set ws. is_word w" "\<forall>x \<in> set rs. wf_redir x" "starts ends r" "argc + length ws < MAXARGS"
  shows "parseargs argc (EXEC vs) (concat (map (\<lambda>w. w @ [32]) ws) @ concat (map redir_text rs) @ r) = Ok (wrap (EXEC (vs @ ws)) rs) r"
  using assms(1,2,5)
proof (induction ws arbitrary: argc vs)
  case (Cons w ws)
  let ?v = "concat (map redir_text rs) @ r"
  let ?u = "concat (map (\<lambda>w. w @ [32]) ws) @ ?v"
  have sv: "starts ({60, 62} \<union> ends) ?v" using assms(4) by (intro redirs_starts) (auto intro: starts_mono)
  then have "starts (word_chars \<union> ({60, 62} \<union> ends)) ?u" using Cons.prems by (intro words_starts) auto
  then have tu: "tight ?u" by (rule starts_mono) (auto simp: is_space_def)
  have w: "is_word w" using Cons.prems by simp
  have g: "gettoken (w @ 32 # ?u) = (97, w, ?u)" by (rule gettoken_word [OF w tu])
  have sw: "starts word_chars (w @ 32 # ?u)" using w by (rule word_starts)
  have p: "peek [124, 41, 38, 59] (w @ 32 # ?u) = (False, w @ 32 # ?u)"
    by (rule peek_no; rule starts_mono [OF sw]) (auto simp: is_symbol_def)
  have "parseargs argc (EXEC vs) (w @ 32 # ?u) =
      bindR (parseredirs (EXEC (vs @ [w])) ?u) (\<lambda>ret s. parseargs (argc + 1) ret s)"
    using Cons.prems by (subst parseargs.simps) (simp add: p g)
  also have "\<dots> = Ok (wrap (EXEC (vs @ w # ws)) rs) r"
  proof (cases "ws = []")
    case True
    then show ?thesis using parseredirs_all [OF assms(3) ends_tight(1,2) [OF assms(4)]] parseargs_end [OF assms(4)] by simp
  next
    case False
    then obtain x xs where "ws = x # xs" by (cases ws) auto
    then have "starts word_chars ?u" using Cons.prems word_starts [of x] by simp
    then have "starts (- {60, 62}) ?u" by (rule starts_mono) (auto simp: is_symbol_def)
    with tu have "parseredirs (EXEC (vs @ [w])) ?u = Ok (EXEC (vs @ [w])) ?u" by (rule parseredirs_none)
    then show ?thesis using Cons.IH [OF False, of "argc + 1" "vs @ [w]"] Cons.prems by simp
  qed
  finally show ?case by simp
qed simp

lemma parseexec_words:
  assumes "wf_cmd (EXEC ws)" "\<forall>x \<in> set rs. wf_redir x" "starts ends r"
  shows "parseexec (Suc n) (show_cmd 3 (EXEC ws) @ concat (map redir_text rs) @ r) = Ok (wrap (EXEC ws) rs) r"
proof -
  let ?v = "concat (map redir_text rs) @ r"
  let ?u = "concat (map (\<lambda>w. w @ [32]) ws) @ ?v"
  have sv: "starts ({60, 62} \<union> ends) ?v" using assms(3) by (intro redirs_starts) (auto intro: starts_mono)
  then have su: "starts (word_chars \<union> ({60, 62} \<union> ends)) ?u" using assms(1) by (intro words_starts) auto
  have tu: "tight ?u" "starts (- set [40]) ?u"
    by (rule starts_mono [OF su]; auto simp: is_space_def is_symbol_def)+
  have "bindR (parseredirs (EXEC []) ?u) (\<lambda>ret s. parseargs 0 ret s) = Ok (wrap (EXEC ws) rs) r"
  proof (cases "ws = []")
    case True
    then show ?thesis using parseredirs_all [OF assms(2) ends_tight(1,2) [OF assms(3)]] parseargs_end [OF assms(3)] by simp
  next
    case False
    then obtain x xs where "ws = x # xs" by (cases ws) auto
    then have "starts word_chars ?u" using assms(1) word_starts [of x] by simp
    then have "starts (- {60, 62}) ?u" by (rule starts_mono) (auto simp: is_symbol_def)
    with tu(1) have "parseredirs (EXEC []) ?u = Ok (EXEC []) ?u" by (rule parseredirs_none)
    then show ?thesis using parseargs_words [OF False _ assms(2,3), of 0 "[]"] assms(1) by simp
  qed
  then show ?thesis using peek_no [OF tu] by simp
qed

section \<open>Parsing printed commands, level by level\<close>

text \<open>\<open>L0\<close> to \<open>L3\<close>: with \<open>b\<close> fuel or more, the parser of the level reads back what was printed at it.\<close>

definition backs :: "cmd \<Rightarrow> uchar list \<Rightarrow> (uchar list, cmd) res" where
  "backs c s = (case parsebacks c s of (d, t) \<Rightarrow> Ok d t)"

definition L0 :: "nat \<Rightarrow> cmd \<Rightarrow> bool" where
  "L0 b c \<longleftrightarrow> (\<forall>n r. b \<le> n \<longrightarrow> starts {41} r \<longrightarrow> parseline n (show_cmd 0 c @ r) = Ok c r)"

definition L1 :: "nat \<Rightarrow> cmd \<Rightarrow> bool" where
  "L1 b c \<longleftrightarrow> (\<forall>n r. b \<le> n \<longrightarrow> starts {41, 59, 38} r \<longrightarrow> bindR (parsepipe n (show_cmd 1 c @ r)) backs = backs c r)"

definition L2 :: "nat \<Rightarrow> cmd \<Rightarrow> bool" where
  "L2 b c \<longleftrightarrow> (\<forall>n r. b \<le> n \<longrightarrow> starts {41, 59, 38} r \<longrightarrow> parsepipe n (show_cmd 2 c @ r) = Ok c r)"

definition L3 :: "nat \<Rightarrow> cmd \<Rightarrow> bool" where
  "L3 b c \<longleftrightarrow> (\<forall>n r. b \<le> n \<longrightarrow> starts ends r \<longrightarrow> parseexec n (show_cmd 3 c @ r) = Ok c r)"

lemma L_mono: "L0 b c \<Longrightarrow> b \<le> d \<Longrightarrow> L0 d c" "L1 b c \<Longrightarrow> b \<le> d \<Longrightarrow> L1 d c" "L2 b c \<Longrightarrow> b \<le> d \<Longrightarrow> L2 d c" "L3 b c \<Longrightarrow> b \<le> d \<Longrightarrow> L3 d c"
  by (auto simp: L0_def L1_def L2_def L3_def)

lemma sub_ends: "starts {41, 59, 38} r \<Longrightarrow> starts ends r" "starts {41, 59} r \<Longrightarrow> starts {41, 59, 38} r" "starts {41} r \<Longrightarrow> starts {41, 59, 38} r"
  by (auto intro: starts_mono)

lemma peek_none: "starts ends r \<Longrightarrow> starts (- set toks) r \<Longrightarrow> peek toks r = (False, r)"
  using ends_tight(1) by (rule peek_no)

text \<open>The operators between the levels.\<close>

lemma peek_op: "c \<in> ends \<union> {40} \<Longrightarrow> c \<in> set toks \<Longrightarrow> peek toks (c # r) = (True, c # r)"
  by (rule peek_yes) (auto simp: is_space_def)

lemma backs_amp: "tight r \<Longrightarrow> backs c (38 # r) = backs (BACK c) r"
  unfolding backs_def by (subst parsebacks.simps) (simp add: peek_op gettoken_sym)

lemma backs_end: "starts {41, 59} r \<Longrightarrow> backs c r = Ok c r"
  unfolding backs_def
  by (subst parsebacks.simps) (use peek_none [of r "[38]"] in \<open>auto simp: starts_def\<close>)

definition line_tail :: "nat \<Rightarrow> cmd \<Rightarrow> uchar list \<Rightarrow> (uchar list, cmd) res" where
  "line_tail n c s =
     (case peek [59] s of
        (True, s) \<Rightarrow> bindR (parseline n (snd (snd (gettoken s)))) (\<lambda>d s. Ok (LIST c d) s)
      | (False, s) \<Rightarrow> Ok c s)"

lemma parseline_tail: "parseline (Suc n) s = bindR (bindR (parsepipe n s) backs) (line_tail n)"
  unfolding bindR_assoc parseline.simps by (intro bindR_cong) (auto simp: backs_def line_tail_def split: prod.splits)

lemma show_tight: "wf_cmd c \<Longrightarrow> tight r \<Longrightarrow> tight (show_cmd p c @ r)"
proof (induction c arbitrary: p r)
  case (EXEC ws)
  then have "starts (word_chars \<union> {c. \<not> is_space c}) (concat (map (\<lambda>w. w @ [32]) ws) @ r)" by (intro words_starts) auto
  then show ?case by (auto intro: starts_mono)
next
  case (REDIR c f m fd)
  have "tight (redir_text (f, m, fd) @ r)" by (simp add: redir_text_def is_space_def)
  then show ?case using REDIR by simp
qed (auto simp: paren_def is_space_def)

lemma L1_to_L0:
  assumes "L1 b c" "show_cmd 0 c = show_cmd 1 c"
  shows "L0 (Suc b) c"
  unfolding L0_def
proof (intro allI impI)
  fix n :: nat and r :: "uchar list" assume n: "Suc b \<le> n" and r: "starts {41 :: uchar} r"
  then obtain m where m: "n = Suc m" "b \<le> m" by (cases n) auto
  have "bindR (parsepipe m (show_cmd 1 c @ r)) backs = backs c r"
    using assms(1) m(2) sub_ends(3) [OF r] unfolding L1_def by blast
  moreover have "backs c r = Ok c r" by (rule backs_end [OF starts_mono [OF r]]) simp
  moreover have "peek [59] r = (False, r)"
    by (rule peek_none [OF starts_mono [OF r] starts_mono [OF r]]) auto
  ultimately show "parseline n (show_cmd 0 c @ r) = Ok c r"
    unfolding m(1) assms(2) parseline_tail by (simp add: line_tail_def del: parseline.simps)
qed

lemma L2_to_L1: "L2 b c \<Longrightarrow> show_cmd 1 c = show_cmd 2 c \<Longrightarrow> L1 b c"
  unfolding L1_def L2_def by simp

lemma L3_to_L2:
  assumes "L3 b c" "show_cmd 2 c = show_cmd 3 c"
  shows "L2 (Suc b) c"
  unfolding L2_def
proof (intro allI impI)
  fix n :: nat and r :: "uchar list" assume n: "Suc b \<le> n" and r: "starts {41, 59, 38 :: uchar} r"
  then obtain m where m: "n = Suc m" "b \<le> m" by (cases n) auto
  have "parseexec m (show_cmd 3 c @ r) = Ok c r" using assms(1) m(2) sub_ends(1) [OF r] unfolding L3_def by blast
  moreover have "peek [124] r = (False, r)" by (rule peek_none [OF sub_ends(1) [OF r] starts_mono [OF r]]) auto
  ultimately show "parsepipe n (show_cmd 2 c @ r) = Ok c r" unfolding m(1) assms(2) by simp
qed

text \<open>A command split into what the redirections are put around, and the redirections.\<close>

fun core :: "cmd \<Rightarrow> cmd" where
  "core (REDIR c f m fd) = core c"
| "core c = c"

fun redirs :: "cmd \<Rightarrow> (uchar list \<times> uint \<times> int) list" where
  "redirs (REDIR c f m fd) = redirs c @ [(f, m, fd)]"
| "redirs c = []"

lemma wrap_append: "wrap c (rs @ qs) = wrap (wrap c rs) qs"
  by (induction rs arbitrary: c) auto

lemma core_redirs:
  "wrap (core c) (redirs c) = c" "show_cmd 3 c = show_cmd 3 (core c) @ concat (map redir_text (redirs c))"
  "csize (core c) \<le> csize c" "wf_cmd c \<Longrightarrow> wf_cmd (core c) \<and> (\<forall>x \<in> set (redirs c). wf_redir x)"
  by (induction c) (auto simp: wrap_append)

lemma core_core: "core c \<noteq> REDIR d f m fd"
  by (induction c) auto

lemma L3_exec:
  assumes "wf_cmd c" "core c = EXEC ws"
  shows "L3 1 c"
  unfolding L3_def
proof (intro allI impI)
  fix n :: nat and r :: "uchar list" assume n: "1 \<le> n" and r: "starts ends r"
  then obtain m where m: "n = Suc m" by (cases n) auto
  note C = core_redirs [of c]
  show "parseexec n (show_cmd 3 c @ r) = Ok c r"
    using parseexec_words [of ws "redirs c" r m] C(1,2,4) assms r by (simp add: m)
qed

lemma L3_block:
  assumes "wf_cmd c" "L0 b (core c)" "show_cmd 3 (core c) = 40 # show_cmd 0 (core c) @ [41]"
  shows "L3 (Suc (Suc b)) c"
  unfolding L3_def
proof (intro allI impI)
  fix n :: nat and r :: "uchar list" assume n: "Suc (Suc b) \<le> n" and r: "starts ends r"
  then obtain m where m: "n = Suc (Suc m)" "b \<le> m" by (metis Suc_le_D Suc_le_mono)
  note C = core_redirs [of c]
  let ?v = "concat (map redir_text (redirs c)) @ r"
  let ?u = "show_cmd 0 (core c) @ 41 # ?v"
  have tv: "tight ?v" "tight ?u"
  proof -
    have "starts ({60, 62} \<union> ends) ?v" using r by (intro redirs_starts) (auto intro: starts_mono)
    then show "tight ?v" by (rule starts_mono) (auto simp: is_space_def)
    have "tight (41 # ?v)" by (simp add: is_space_def)
    then show "tight ?u" using C(4) assms(1) by (intro show_tight) auto
  qed
  have "parseline m ?u = Ok (core c) (41 # ?v)" using assms(2) m(2) unfolding L0_def by simp
  moreover have "parseredirs (core c) ?v = Ok c r"
    using parseredirs_all [OF _ ends_tight(1,2) [OF r], of "redirs c" "core c"] C(1,4) assms(1) by simp
  moreover have "gettoken (40 # ?u) = (40, [40], ?u)" "gettoken (41 # ?v) = (41, [41], ?v)"
    using tv by (auto intro: gettoken_sym)
  ultimately have "parseexec n (40 # ?u) = Ok c r" by (simp add: m(1) peek_op)
  then show "parseexec n (show_cmd 3 c @ r) = Ok c r" using C(2) assms(3) by simp
qed

lemma L2_pipe:
  assumes "wf_cmd r" "L3 b l" "L2 b r"
  shows "L2 (Suc b) (PIPE l r)"
  unfolding L2_def
proof (intro allI impI)
  fix n :: nat and t :: "uchar list" assume n: "Suc b \<le> n" and t: "starts {41, 59, 38 :: uchar} t"
  then obtain m where m: "n = Suc m" "b \<le> m" by (cases n) auto
  let ?u = "show_cmd 2 r @ t"
  have tu: "tight ?u" by (rule show_tight [OF assms(1) ends_tight(1) [OF sub_ends(1) [OF t]]])
  have "parseexec m (show_cmd 3 l @ 124 # ?u) = Ok l (124 # ?u)" using assms(2) m(2) unfolding L3_def by simp
  moreover have "parsepipe m ?u = Ok r t" using assms(3) m(2) t unfolding L2_def by blast
  ultimately show "parsepipe n (show_cmd 2 (PIPE l r) @ t) = Ok (PIPE l r) t"
    using gettoken_sym [OF _ tu, of 124] by (simp add: m(1) paren_def peek_op)
qed

lemma L0_list:
  assumes "wf_cmd r" "L1 b l" "L0 b r"
  shows "L0 (Suc b) (LIST l r)"
  unfolding L0_def
proof (intro allI impI)
  fix n :: nat and t :: "uchar list" assume n: "Suc b \<le> n" and t: "starts {41 :: uchar} t"
  then obtain m where m: "n = Suc m" "b \<le> m" by (cases n) auto
  let ?u = "show_cmd 0 r @ t"
  have tu: "tight ?u" by (rule show_tight [OF assms(1) ends_tight(1) [OF sub_ends(1) [OF sub_ends(3) [OF t]]]])
  have "bindR (parsepipe m (show_cmd 1 l @ 59 # ?u)) backs = backs l (59 # ?u)" using assms(2) m(2) unfolding L1_def by simp
  moreover have "backs l (59 # ?u) = Ok l (59 # ?u)" by (rule backs_end) simp
  moreover have "parseline m ?u = Ok r t" using assms(3) m(2) t unfolding L0_def by blast
  ultimately show "parseline n (show_cmd 0 (LIST l r) @ t) = Ok (LIST l r) t"
    using gettoken_sym [OF _ tu, of 59]
    by (simp add: m(1) parseline_tail paren_def line_tail_def peek_op del: parseline.simps)
qed

lemma L1_back:
  assumes "L1 b c"
  shows "L1 b (BACK c)"
  unfolding L1_def
proof (intro allI impI)
  fix n :: nat and r :: "uchar list" assume n: "b \<le> n" and r: "starts {41, 59, 38 :: uchar} r"
  have "bindR (parsepipe n (show_cmd 1 c @ 38 # r)) backs = backs c (38 # r)" using assms n unfolding L1_def by simp
  also have "\<dots> = backs (BACK c) r" by (rule backs_amp [OF ends_tight(1) [OF sub_ends(1) [OF r]]])
  finally show "bindR (parsepipe n (show_cmd 1 (BACK c) @ r)) backs = backs (BACK c) r" by (simp add: paren_def)
qed

lemma parse_printed:
  assumes "wf_cmd c"
  shows "L0 (8 * csize c) c \<and> L1 (8 * csize c) c \<and> L2 (8 * csize c) c \<and> L3 (8 * csize c) c"
  using assms
proof (induction "csize c" arbitrary: c rule: less_induct)
  case less
  have IH: "L0 (8 * csize d) d" "L1 (8 * csize d) d" "L2 (8 * csize d) d" "L3 (8 * csize d) d" if "csize d < csize c" "wf_cmd d" for d
    using less.hyps [OF that] by blast+
  have down: "L2 (Suc b) c \<and> L1 (Suc b) c \<and> L0 (Suc (Suc b)) c"
    if "L3 b c" "show_cmd 0 c = show_cmd 3 c" "show_cmd 1 c = show_cmd 3 c" "show_cmd 2 c = show_cmd 3 c" for b
  proof -
    have 2: "L2 (Suc b) c" using that by (intro L3_to_L2) auto
    then have 1: "L1 (Suc b) c" using that by (intro L2_to_L1) auto
    then show ?thesis using 2 that by (auto intro!: L1_to_L0)
  qed
  show ?case
  proof (cases c)
    case (EXEC ws)
    have "L3 1 c" by (rule L3_exec [OF less.prems]) (simp add: EXEC)
    with down [OF this] show ?thesis using EXEC by (auto intro: L_mono)
  next
    case (REDIR d f m fd)
    let ?b = "8 * csize d"
    have same: "show_cmd 0 c = show_cmd 3 c" "show_cmd 1 c = show_cmd 3 c" "show_cmd 2 c = show_cmd 3 c" by (simp_all add: REDIR)
    have e: "core c = core d" "csize c = Suc (csize d)" by (simp_all add: REDIR)
    have "L3 (Suc (Suc ?b)) c"
    proof (cases "\<exists>ws. core c = EXEC ws")
      case True
      then show ?thesis using L3_exec [OF less.prems] by (auto intro: L_mono)
    next
      case False
      have k: "csize (core c) \<le> csize d" "wf_cmd (core c)" using core_redirs(3) [of d] core_redirs(4) [OF less.prems] e by auto
      then have "L0 (8 * csize (core c)) (core c)" using e by (intro IH) auto
      then have "L0 ?b (core c)" by (rule L_mono) (use k in simp)
      moreover have "show_cmd 3 (core c) = 40 # show_cmd 0 (core c) @ [41]"
        using False core_core [of c] by (cases "core c") (auto simp: paren_def)
      ultimately show ?thesis by (rule L3_block [OF less.prems])
    qed
    with down [OF this same] show ?thesis using e by (auto intro: L_mono)
  next
    case (PIPE l r)
    let ?b = "8 * (csize l + csize r)"
    have "L3 ?b l" "L2 ?b r" using PIPE less.prems by (auto intro!: L_mono(4) [OF IH(4)] L_mono(3) [OF IH(3)])
    then have 2: "L2 (Suc ?b) c" using PIPE less.prems by (auto intro!: L2_pipe)
    then have 1: "L1 (Suc ?b) c" by (rule L2_to_L1) (simp add: PIPE paren_def)
    then have 0: "L0 (Suc (Suc ?b)) c" by (rule L1_to_L0) (simp add: PIPE paren_def)
    then have "L3 (Suc (Suc (Suc (Suc ?b)))) c" by (intro L3_block [OF less.prems]) (simp_all add: PIPE paren_def)
    with 0 1 2 show ?thesis using PIPE by (auto intro: L_mono)
  next
    case (LIST l r)
    let ?b = "8 * (csize l + csize r)"
    have "L1 ?b l" "L0 ?b r" using LIST less.prems by (auto intro!: L_mono(2) [OF IH(2)] L_mono(1) [OF IH(1)])
    then have 0: "L0 (Suc ?b) c" using LIST less.prems by (auto intro!: L0_list)
    then have 3: "L3 (Suc (Suc (Suc ?b))) c" by (intro L3_block [OF less.prems]) (simp_all add: LIST paren_def)
    then have 2: "L2 (Suc (Suc (Suc (Suc ?b)))) c" by (rule L3_to_L2) (simp add: LIST paren_def)
    then have "L1 (Suc (Suc (Suc (Suc ?b)))) c" by (rule L2_to_L1) (simp add: LIST paren_def)
    with 0 2 3 show ?thesis using LIST by (auto intro: L_mono)
  next
    case (BACK d)
    let ?b = "8 * csize d"
    have 1: "L1 ?b c" unfolding BACK using BACK less.prems by (intro L1_back IH) auto
    then have 0: "L0 (Suc ?b) c" by (rule L1_to_L0) (simp add: BACK paren_def)
    then have 3: "L3 (Suc (Suc (Suc ?b))) c" by (intro L3_block [OF less.prems]) (simp_all add: BACK paren_def)
    then have "L2 (Suc (Suc (Suc (Suc ?b)))) c" by (rule L3_to_L2) (simp add: BACK paren_def)
    with 0 1 3 show ?thesis using BACK by (auto intro: L_mono)
  qed
qed

section \<open>Properties\<close>

text \<open>
  The parser always returns: for every command line it ends with a command and nothing left over,
  or with one of its error messages; 16 levels of calls per byte are enough.
\<close>

theorem parsecmd_terminates:
  "(\<exists>c. parsecmd s = Ok c []) \<or> (\<exists>m. parsecmd s = Panic m)"
proof -
  have "parses (length s) (parseline (parse_fuel s) s)" using parses_all [of s "parse_fuel s"] by (simp add: parse_fuel_def)
  then show ?thesis
    by (cases "parseline (parse_fuel s) s") (auto simp: parses_def parsecmd_def split: prod.splits)
qed

text \<open>
  (C22) Parsing undoes printing: every command of words without blanks or operators, at most nine per
  program, is what \<open>parsecmd\<close> returns for its text, in which \<open>;\<close> binds weaker than \<open>&\<close>, \<open>&\<close> weaker than
  \<open>|\<close>, parentheses group, and redirections follow what they apply to.
\<close>

theorem parsecmd_printed:
  assumes "wf_cmd c"
  shows "parsecmd (show_cmd 0 c) = Ok c []"
proof -
  have "8 * csize c \<le> parse_fuel (show_cmd 0 c)" using csize_text [of c 0] by (simp add: parse_fuel_def)
  then have "L0 (parse_fuel (show_cmd 0 c)) c" using parse_printed [OF assms] by (blast intro: L_mono)
  then have "parseline (parse_fuel (show_cmd 0 c)) (show_cmd 0 c @ []) = Ok c []"
    unfolding L0_def by (elim allE [of _ "parse_fuel (show_cmd 0 c)"] allE [of _ "[]"]) simp
  then show ?thesis by (simp add: parsecmd_def peek_def skip_def)
qed

theorem parsecmd_printed_witness:
  "parsecmd [40, 97, 32, 38, 41, 62, 102, 32, 124, 98, 32, 59, 99, 32] =
     Ok (LIST (PIPE (REDIR (BACK (EXEC [[97]])) [102] (O_WRONLY OR O_CREATE) 1) (EXEC [[98]])) (EXEC [[99]])) []"
  using parsecmd_printed [of "LIST (PIPE (REDIR (BACK (EXEC [[97]])) [102] (O_WRONLY OR O_CREATE) 1) (EXEC [[98]])) (EXEC [[99]])"]
  by (simp add: paren_def redir_text_def MAXARGS_def is_word_def wf_redir_def is_space_def is_symbol_def)

end
