(* ===== verification/Grep.thy ===== *)
theory Grep
  imports Prelude
begin

text \<open>
  The user program \<open>grep.c\<close>: the matcher for patterns with \<open>^ . * $\<close>, compared with the language the
  pattern denotes, and the loop that splits what it reads into lines. A string is the list of its bytes
  without the final NUL; the offsets into the buffer are the lists left over.
\<close>

section \<open>The matcher\<close>

definition STAR :: uchar where "STAR = 42"
definition DOT_CH :: uchar where "DOT_CH = 46"
definition CARET :: uchar where "CARET = 94"
definition DOLLAR :: uchar where "DOLLAR = 36"
definition NEWLINE :: uchar where "NEWLINE = 10"

function matchhere :: "uchar list \<Rightarrow> uchar list \<Rightarrow> bool"
  and matchstar :: "uchar \<Rightarrow> uchar list \<Rightarrow> uchar list \<Rightarrow> bool" where
  "matchhere re tx =
     (case re of
        [] \<Rightarrow> True
      | c # re1 \<Rightarrow>
          if re1 \<noteq> [] \<and> hd re1 = STAR then matchstar c (tl re1) tx
          else if c = DOLLAR \<and> re1 = [] then tx = []
          else if tx \<noteq> [] \<and> (c = DOT_CH \<or> c = hd tx) then matchhere re1 (tl tx)
          else False)"
| "matchstar c re tx =
     (if matchhere re tx then True
      else if tx \<noteq> [] \<and> (hd tx = c \<or> c = DOT_CH) then matchstar c re (tl tx)
      else False)"
  by pat_completeness auto
termination
  by (relation "measures [\<lambda>x. case x of Inl (re, tx) \<Rightarrow> length re | Inr (c, re, tx) \<Rightarrow> length re,
    \<lambda>x. case x of Inl (re, tx) \<Rightarrow> length tx | Inr (c, re, tx) \<Rightarrow> length tx,
    \<lambda>x. case x of Inl _ \<Rightarrow> 0 | Inr _ \<Rightarrow> 1]") (auto simp: neq_Nil_conv)

declare matchhere.simps [simp del] matchstar.simps [simp del]

fun match_from :: "uchar list \<Rightarrow> uchar list \<Rightarrow> bool" where
  "match_from re [] = matchhere re []"
| "match_from re (c # tx) = (matchhere re (c # tx) \<or> match_from re tx)"

definition match :: "uchar list \<Rightarrow> uchar list \<Rightarrow> bool" where
  "match re tx =
     (if re \<noteq> [] \<and> hd re = CARET then matchhere (tl re) tx else match_from re tx)"

section \<open>The loop over the input\<close>

text \<open>The lines complete in the buffer: what is written for them, and what is left from \<open>p\<close> on.\<close>

function grep_scan :: "uchar list \<Rightarrow> uchar list \<Rightarrow> uchar list \<times> uchar list" where
  "grep_scan pattern p =
     (let line = takeWhile (\<lambda>c. c \<noteq> NEWLINE \<and> c \<noteq> 0) p; q = dropWhile (\<lambda>c. c \<noteq> NEWLINE \<and> c \<noteq> 0) p
      in if q \<noteq> [] \<and> hd q = NEWLINE
         then let (out, rest) = grep_scan pattern (tl q)
              in ((if match pattern line then line @ [NEWLINE] else []) @ out, rest)
         else ([], p))"
  by pat_completeness auto
termination
proof (relation "measure (\<lambda>(pattern, p). length p)", goal_cases)
  case (2 pattern p line q)
  then have "length q \<le> length p" "q \<noteq> []" by (auto simp: length_dropWhile_le)
  then show ?case by (cases q) auto
qed simp

declare grep_scan.simps [simp del]

definition BUFSZ :: nat where "BUFSZ = 1024"

text \<open>
  \<open>grep pattern b pieces\<close>: \<open>b\<close> are the \<open>m\<close> bytes kept in \<open>buf\<close>, and \<open>pieces\<close> what the file offers to
  the successive reads; a read takes at most what fits, and nothing read ends the loop. When no line
  was complete the buffer is emptied.
\<close>

function grep :: "uchar list \<Rightarrow> uchar list \<Rightarrow> uchar list list \<Rightarrow> uchar list" where
  "grep pattern b [] = []"
| "grep pattern b (x # xs) =
     (let got = take (BUFSZ - length b - 1) x
      in if got = [] then []
         else let (out, rest) = grep_scan pattern (b @ got);
                  b1 = (if length rest = length (b @ got) then [] else rest)
              in out @ grep pattern b1 (if length got = length x then xs else drop (length got) x # xs))"
  by pat_completeness auto
termination
proof (relation "measure (\<lambda>(pattern, b, ps). length ps + sum_list (map length ps))", goal_cases)
  case (2 pattern b x xs got y out rest b1)
  then have "0 < length got" "length got \<le> length x" by auto
  then show ?case by (auto simp del: length_greater_0_conv)
qed simp

declare grep.simps(2) [simp del]

section \<open>What a pattern denotes\<close>

datatype rx_item = One uchar | Many uchar

definition item_char :: "uchar \<Rightarrow> uchar \<Rightarrow> bool" where
  "item_char c x \<longleftrightarrow> c = DOT_CH \<or> x = c"

fun parse_rx :: "uchar list \<Rightarrow> rx_item list \<times> bool" where
  "parse_rx [] = ([], False)"
| "parse_rx [c] = (if c = DOLLAR then ([], True) else ([One c], False))"
| "parse_rx (c # d # re) =
     (if d = STAR then let (is, e) = parse_rx re in (Many c # is, e)
      else let (is, e) = parse_rx (d # re) in (One c # is, e))"

inductive rx_lang :: "rx_item list \<Rightarrow> uchar list \<Rightarrow> bool" where
  Empty: "rx_lang [] []"
| One: "item_char c x \<Longrightarrow> rx_lang is w \<Longrightarrow> rx_lang (One c # is) (x # w)"
| Many_none: "rx_lang is w \<Longrightarrow> rx_lang (Many c # is) w"
| Many_more: "item_char c x \<Longrightarrow> rx_lang (Many c # is) w \<Longrightarrow> rx_lang (Many c # is) (x # w)"

inductive_simps rx_lang_Nil [simp]: "rx_lang [] w"
inductive_simps rx_lang_One: "rx_lang (One c # is) w"
inductive_cases rx_lang_ManyE: "rx_lang (Many c # is) w"

text \<open>A match at the start of the text, and at the end of it when the pattern ends in \<open>$\<close>.\<close>

definition rx_prefix :: "rx_item list \<times> bool \<Rightarrow> uchar list \<Rightarrow> bool" where
  "rx_prefix r tx \<longleftrightarrow> (\<exists>w v. tx = w @ v \<and> rx_lang (fst r) w \<and> (snd r \<longrightarrow> v = []))"

lemma rx_prefix_Nil: "rx_prefix ([], e) tx \<longleftrightarrow> (e \<longrightarrow> tx = [])"
  by (auto simp: rx_prefix_def)

lemma rx_prefix_One: "rx_prefix (One c # is, e) tx \<longleftrightarrow> (\<exists>x t. tx = x # t \<and> item_char c x \<and> rx_prefix (is, e) t)"
proof
  assume "rx_prefix (One c # is, e) tx"
  then obtain w v where "tx = w @ v" "rx_lang (One c # is) w" "e \<longrightarrow> v = []" by (auto simp: rx_prefix_def)
  then obtain x w1 where "tx = x # w1 @ v" "item_char c x" "rx_lang is w1" "e \<longrightarrow> v = []" by (auto simp: rx_lang_One)
  then show "\<exists>x t. tx = x # t \<and> item_char c x \<and> rx_prefix (is, e) t"
    unfolding rx_prefix_def by (intro exI [of _ x] exI [of _ "w1 @ v"]) auto
next
  assume "\<exists>x t. tx = x # t \<and> item_char c x \<and> rx_prefix (is, e) t"
  then obtain x w v where "tx = x # w @ v" "item_char c x" "rx_lang is w" "e \<longrightarrow> v = []" by (auto simp: rx_prefix_def)
  then show "rx_prefix (One c # is, e) tx"
    unfolding rx_prefix_def by (intro exI [of _ "x # w"] exI [of _ v]) (simp add: rx_lang_One)
qed

lemma rx_prefix_Many:
  "rx_prefix (Many c # is, e) tx \<longleftrightarrow>
     rx_prefix (is, e) tx \<or> (\<exists>x t. tx = x # t \<and> item_char c x \<and> rx_prefix (Many c # is, e) t)"
proof
  assume "rx_prefix (Many c # is, e) tx"
  then obtain w v where w: "tx = w @ v" "rx_lang (Many c # is) w" "e \<longrightarrow> v = []" by (auto simp: rx_prefix_def)
  from w(2) show "rx_prefix (is, e) tx \<or> (\<exists>x t. tx = x # t \<and> item_char c x \<and> rx_prefix (Many c # is, e) t)"
    by (rule rx_lang_ManyE) (use w in \<open>auto simp: rx_prefix_def\<close>)
next
  assume "rx_prefix (is, e) tx \<or> (\<exists>x t. tx = x # t \<and> item_char c x \<and> rx_prefix (Many c # is, e) t)"
  then show "rx_prefix (Many c # is, e) tx"
    unfolding rx_prefix_def fst_conv snd_conv by (metis Many_more Many_none append_Cons)
qed

lemma matchhere_rx: "matchhere re tx = rx_prefix (parse_rx re) tx"
  and matchstar_rx: "matchstar c re tx = rx_prefix (Many c # fst (parse_rx re), snd (parse_rx re)) tx"
proof (induction re tx and c re tx rule: matchhere_matchstar.induct)
  case (1 re tx)
  show ?case
  proof (cases re rule: parse_rx.cases)
    case 1
    then show ?thesis by (simp add: matchhere.simps rx_prefix_Nil)
  next
    case (2 c)
    then show ?thesis
      by (cases tx) (auto simp: matchhere.simps [of "[c]"] matchhere.simps [of "[]"] rx_prefix_Nil rx_prefix_One item_char_def)
  next
    case (3 c d re1)
    show ?thesis
    proof (cases "d = STAR")
      case True
      then have "matchstar c re1 tx = rx_prefix (Many c # fst (parse_rx re1), snd (parse_rx re1)) tx" using 1(1) [OF 3] by simp
      moreover have "matchhere re tx = matchstar c re1 tx" unfolding 3 by (subst matchhere.simps) (simp add: True)
      ultimately show ?thesis by (simp add: 3 True split_beta)
    next
      case False
      have "matchhere re tx \<longleftrightarrow> tx \<noteq> [] \<and> (c = DOT_CH \<or> c = hd tx) \<and> matchhere (d # re1) (tl tx)"
        unfolding 3 by (subst matchhere.simps) (simp add: False)
      also have "\<dots> \<longleftrightarrow> (\<exists>x t. tx = x # t \<and> item_char c x \<and> rx_prefix (parse_rx (d # re1)) t)"
        using 1(2) [OF 3] False by (cases tx) (auto simp: item_char_def)
      finally show ?thesis using 3 False by (simp add: split_beta rx_prefix_One)
    qed
  qed
next
  case (2 c re tx)
  have "matchstar c re tx \<longleftrightarrow> matchhere re tx \<or> (tx \<noteq> [] \<and> (hd tx = c \<or> c = DOT_CH) \<and> matchstar c re (tl tx))"
    by (subst matchstar.simps) simp
  also have "\<dots> \<longleftrightarrow> rx_prefix (parse_rx re) tx \<or>
      (\<exists>x t. tx = x # t \<and> item_char c x \<and> rx_prefix (Many c # fst (parse_rx re), snd (parse_rx re)) t)"
    using 2 by (cases tx) (auto simp: item_char_def)
  finally show ?case by (subst rx_prefix_Many) simp
qed

lemma match_from_rx: "match_from re tx \<longleftrightarrow> (\<exists>u t. tx = u @ t \<and> rx_prefix (parse_rx re) t)"
proof (induction tx)
  case (Cons c tx)
  have "(\<exists>u t. c # tx = u @ t \<and> rx_prefix (parse_rx re) t) \<longleftrightarrow>
      rx_prefix (parse_rx re) (c # tx) \<or> (\<exists>u t. tx = u @ t \<and> rx_prefix (parse_rx re) t)"
    by (auto simp: Cons_eq_append_conv)
  with Cons.IH show ?case by (simp add: matchhere_rx)
qed (simp add: matchhere_rx)

section \<open>Lines\<close>

fun complete_lines :: "uchar list \<Rightarrow> uchar list list" where
  "complete_lines [] = []"
| "complete_lines (c # tx) =
     (if c = NEWLINE then [] # complete_lines tx
      else case complete_lines tx of [] \<Rightarrow> [] | l # ls \<Rightarrow> (c # l) # ls)"

fun last_line :: "uchar list \<Rightarrow> uchar list" where
  "last_line [] = []"
| "last_line (c # tx) = (if NEWLINE \<in> set (c # tx) then last_line tx else c # tx)"

definition matching_lines :: "uchar list \<Rightarrow> uchar list \<Rightarrow> uchar list" where
  "matching_lines pattern tx =
     concat (map (\<lambda>l. l @ [NEWLINE]) (filter (match pattern) (complete_lines tx)))"

lemma complete_lines_line: "NEWLINE \<notin> set l \<Longrightarrow> complete_lines (l @ NEWLINE # tx) = l # complete_lines tx"
  by (induction l) auto

lemma complete_lines_none: "NEWLINE \<notin> set tx \<Longrightarrow> complete_lines tx = []"
  by (induction tx) auto

lemma last_line_line: "last_line (l @ NEWLINE # tx) = last_line tx"
  by (induction l) auto

lemma last_line_none: "NEWLINE \<notin> set tx \<Longrightarrow> last_line tx = tx"
  by (cases tx) auto

lemma last_line_split: "\<exists>u. tx = u @ last_line tx \<and> (u = [] \<or> last u = NEWLINE) \<and> NEWLINE \<notin> set (last_line tx)"
proof (induction tx)
  case (Cons c tx)
  then obtain u where u: "tx = u @ last_line tx" "u = [] \<or> last u = NEWLINE" "NEWLINE \<notin> set (last_line tx)" by blast
  show ?case
  proof (cases "NEWLINE \<in> set (c # tx)")
    case True
    have "c = NEWLINE" if "u = []"
    proof -
      from that u(1) have "last_line tx = tx" by simp
      with u(3) have "NEWLINE \<notin> set tx" by metis
      with True show ?thesis by auto
    qed
    with True u show ?thesis by (intro exI [of _ "c # u"]) auto
  qed auto
qed simp

lemma complete_lines_append:
  "u = [] \<or> last u = NEWLINE \<Longrightarrow> complete_lines (u @ v) = complete_lines u @ complete_lines v"
proof (induction u)
  case (Cons c u)
  show ?case
  proof (cases "u = []")
    case True
    with Cons.prems show ?thesis by simp
  next
    case False
    with Cons.prems have l: "last u = NEWLINE" by simp
    then have "complete_lines (u @ v) = complete_lines u @ complete_lines v" using Cons.IH by blast
    moreover have "complete_lines u \<noteq> []"
    proof -
      have "u = butlast u @ [NEWLINE]" using False l append_butlast_last_id [of u] by simp
      then have "NEWLINE \<in> set u" by (metis in_set_conv_decomp)
      then show ?thesis by (induction u) (auto split: list.splits)
    qed
    ultimately show ?thesis by (auto split: list.splits)
  qed
qed simp

lemma grep_scan_ok:
  "0 \<notin> set p \<Longrightarrow> grep_scan pattern p = (matching_lines pattern p, last_line p)"
proof (induction "length p" arbitrary: p rule: less_induct)
  case less
  let ?C = "\<lambda>c. c \<noteq> NEWLINE \<and> c \<noteq> (0 :: uchar)"
  show ?case
  proof (cases "NEWLINE \<in> set p")
    case False
    then have all: "\<forall>c \<in> set p. ?C c" using less.prems by metis
    then have "dropWhile ?C p = []" by (simp add: dropWhile_eq_Nil_conv)
    then have "grep_scan pattern p = ([], p)" by (subst grep_scan.simps) (simp only: Let_def simp_thms if_False)
    then show ?thesis using False by (simp add: matching_lines_def complete_lines_none last_line_none)
  next
    case True
    then obtain l q where p: "p = l @ NEWLINE # q" and nl: "NEWLINE \<notin> set l" by (meson split_list_first)
    have all: "\<forall>c \<in> set l. ?C c" using less.prems p nl by auto
    have l: "takeWhile ?C p = l" using all unfolding p by (subst takeWhile_append2) auto
    have q: "dropWhile ?C p = NEWLINE # q" using all unfolding p by (subst dropWhile_append2) auto
    have "length q < length p" "0 \<notin> set q" using less.prems p by auto
    then have IH: "grep_scan pattern q = (matching_lines pattern q, last_line q)" by (rule less.hyps)
    have "grep_scan pattern p = ((if match pattern l then l @ [NEWLINE] else []) @ matching_lines pattern q, last_line q)"
      by (subst grep_scan.simps) (simp only: Let_def l q IH list.distinct list.sel simp_thms if_True prod.case)
    then show ?thesis unfolding p by (simp add: matching_lines_def complete_lines_line [OF nl] last_line_line)
  qed
qed

text \<open>Every read completes a line and fits in the buffer.\<close>

fun reads_ok :: "uchar list \<Rightarrow> uchar list list \<Rightarrow> bool" where
  "reads_ok b [] = True"
| "reads_ok b (x # xs) \<longleftrightarrow>
     length b + length x < BUFSZ \<and> NEWLINE \<in> set x \<and> 0 \<notin> set x \<and> reads_ok (last_line (b @ x)) xs"

section \<open>Properties\<close>

text \<open>
  (C23) The matcher decides the language of its pattern: with \<open>^\<close> a prefix of the text, without it a
  substring, must be in the language in which \<open>.\<close> stands for any byte, \<open>c*\<close> for any number of \<open>c\<close> and
  other bytes for themselves; a final \<open>$\<close> ties the match to the end of the text.
\<close>

theorem match_denotes:
  "match re tx \<longleftrightarrow>
     (if re \<noteq> [] \<and> hd re = CARET then rx_prefix (parse_rx (tl re)) tx
      else \<exists>u t. tx = u @ t \<and> rx_prefix (parse_rx re) t)"
  by (simp add: match_def matchhere_rx match_from_rx)

text \<open>
  (C37) \<open>grep\<close> writes exactly the complete lines of its input that match, in order: provided that every
  read fits in the buffer of 1023 bytes and completes at least one line.
\<close>

theorem grep_prints_matching_lines:
  assumes "reads_ok b pieces" and "0 \<notin> set b" and "NEWLINE \<notin> set b"
  shows "grep pattern b pieces = matching_lines pattern (b @ concat pieces)"
  using assms
proof (induction pieces arbitrary: b)
  case Nil
  then show ?case by (simp add: matching_lines_def complete_lines_none)
next
  case (Cons x xs)
  then have x: "length b + length x < BUFSZ" "NEWLINE \<in> set x" "0 \<notin> set x" "reads_ok (last_line (b @ x)) xs" by auto
  have got: "take (BUFSZ - length b - 1) x = x" using x(1) by simp
  have ne: "x \<noteq> []" using x(2) by auto
  obtain u where u: "b @ x = u @ last_line (b @ x)" "u = [] \<or> last u = NEWLINE" "NEWLINE \<notin> set (last_line (b @ x))"
    using last_line_split [of "b @ x"] by blast
  have "u \<noteq> []" using u x(2) by (metis Un_iff append_Nil set_append)
  then have len: "length (last_line (b @ x)) \<noteq> length (b @ x)" using arg_cong [OF u(1), of length] by auto
  have z: "0 \<notin> set (b @ x)" using Cons.prems(2) x(3) by simp
  then have zl: "0 \<notin> set (last_line (b @ x))" using u(1) by (metis Un_iff set_append)
  have "grep pattern b (x # xs) = matching_lines pattern (b @ x) @ grep pattern (last_line (b @ x)) xs"
    unfolding grep.simps(2) got Let_def grep_scan_ok [OF z] prod.case if_not_P [OF ne] if_not_P [OF len] by simp
  also have "\<dots> = matching_lines pattern (b @ x) @ matching_lines pattern (last_line (b @ x) @ concat xs)"
    using Cons.IH [OF x(4) zl u(3)] by simp
  also have "\<dots> = matching_lines pattern (b @ concat (x # xs))"
  proof -
    have c: "complete_lines (b @ x) = complete_lines u"
      using complete_lines_append [OF u(2), of "last_line (b @ x)"] complete_lines_none [OF u(3)] u(1) by simp
    have "b @ concat (x # xs) = u @ (last_line (b @ x) @ concat xs)" using u(1) by (metis append.assoc concat.simps(2))
    then have "complete_lines (b @ concat (x # xs)) = complete_lines u @ complete_lines (last_line (b @ x) @ concat xs)"
      by (simp only: complete_lines_append [OF u(2)])
    with c show ?thesis by (simp add: matching_lines_def)
  qed
  finally show ?case .
qed

theorem grep_prints_matching_lines_witness:
  "grep [97] [] [[97, 10, 98, 10, 99], [97, 10, 99]] = [97, 10, 99, 97, 10]"
  using grep_prints_matching_lines [of "[]" "[[97, 10, 98, 10, 99], [97, 10, 99]]" "[97]"]
  by (simp add: BUFSZ_def NEWLINE_def matching_lines_def match_def CARET_def matchhere.simps STAR_def DOLLAR_def DOT_CH_def)

text \<open>
  A line that arrives in two reads of which the first completes no line is lost: \<open>grep\<close> then
  empties its buffer, and the end of the line is taken for a whole line.
\<close>

lemma grep_loses_split_line:
  "grep [104, 105] [] [[104], [105, 10]] = [] \<and> grep [104, 105] [] [[104, 105, 10]] = [104, 105, 10]"
  by (simp add: grep.simps grep_scan.simps BUFSZ_def NEWLINE_def match_def CARET_def matchhere.simps STAR_def DOLLAR_def DOT_CH_def)

end
