(* ===== verification/Airport.thy ===== *)
theory Airport
  imports Prelude
begin

text \<open>
  The airport of \<open>ipc_offline_complete_passengers_are_threads.cpp\<close>: every passenger is a thread that
  passes the kiosks, a security belt or the VIP channel, and boarding, synchronised by semaphores and
  mutexes. A function of the program is the list of its atomic statements; the statements a thread
  still has to execute are its program counter. Sleeping and the clock have no effect here, and
  \<open>rand()\<close> is an argument of each step. A mutex has no owner: the program unlocks \<open>channel_lock\<close> and
  \<open>left_side_empty\<close> in another thread than the one that locked them, which a mutex of the default
  kind allows in practice.
\<close>

section \<open>Statements\<close>

datatype sem =
    KioskEmpty | KioskFull | KioskLock | IoLock | BeltEmp nat | BeltFull nat | BeltLock
  | BoardingEmpty | BoardingFull | BoardLock | SkioskEmpty | SkioskFull | SkioskLock

datatype mutex = LrCountLock | RlCountLock | ChannelLock | LeftSideEmpty

text \<open>The queues of waiting passengers.\<close>

datatype line = Kiosks | Belt nat | BoardOfficer | Skiosk

datatype event =
    Arrived | KioskStart | KioskEnd | BeltWait nat | CheckStart | CheckEnd | BoardWait | BoardStart
  | Boarded | NoPass | PassedLR | PassedRL | SkioskStart | SkioskEnd

text \<open>
  \<open>Say e own\<close> prints a line on the thread's own passenger or on the one it took from a queue;
  \<open>UnlessLr k n\<close> skips the \<open>n\<close> statements of \<open>if(lr_count == k)\<close> when the test fails; \<open>UseBelt\<close>
  chooses a belt, and \<open>Boarding\<close> and \<open>Again\<close> are the head of the boarding loop and its exit test.
\<close>

datatype stmt =
    Wait sem | Post sem | Lock mutex | Unlock mutex
  | Push line | Front line | Pop line | NextKiosk | Say event bool | SayBoarded | MaybeLose | NewPass
  | LrInc | LrDec | UnlessLr int nat | RlInc | RlDec | UnlessRl int nat
  | UseBelt | Boarding | Again

definition say :: "event \<Rightarrow> bool \<Rightarrow> stmt list" where
  "say e own = [Wait IoLock, Say e own, Post IoLock]"

definition sendToKiosk :: "stmt list" where
  "sendToKiosk = [Wait KioskEmpty, Wait KioskLock, Push Kiosks, Post KioskLock, Post KioskFull]"

definition startKioskOp :: "stmt list" where
  "startKioskOp =
     [Wait KioskFull, Wait KioskLock, NextKiosk, Front Kiosks] @ say KioskStart False @ [Pop Kiosks] @
     say KioskEnd False @ [Post KioskLock, Post KioskEmpty]"

definition sendToSecurity :: "nat \<Rightarrow> stmt list" where
  "sendToSecurity b =
     [Wait (BeltEmp b), Wait BeltLock, Push (Belt b)] @ say (BeltWait b) True @
     [Post BeltLock, Post (BeltFull b)]"

definition startSecurityCheck :: "nat \<Rightarrow> stmt list" where
  "startSecurityCheck b =
     [Wait (BeltFull b), Wait BeltLock, Front (Belt b)] @ say CheckStart False @ [Pop (Belt b)] @
     say CheckEnd False @ [Post BeltLock, Post (BeltEmp b)]"

definition sendToBoarding :: "stmt list" where
  "sendToBoarding =
     [Wait IoLock, Say BoardWait True, MaybeLose, Post IoLock,
      Wait BoardingEmpty, Wait BoardLock, Push BoardOfficer, Post BoardLock, Post BoardingFull]"

definition check_and_board :: "stmt list" where
  "check_and_board =
     [Wait BoardingFull, Wait BoardLock, Front BoardOfficer] @ say BoardStart False @ [Pop BoardOfficer] @
     [Wait IoLock, SayBoarded, Post IoLock, Post BoardLock, Post BoardingEmpty]"

definition LeftToRightVIP :: "stmt list" where
  "LeftToRightVIP =
     [Lock LrCountLock, LrInc, UnlessLr 1 2, Lock LeftSideEmpty, Lock ChannelLock, Unlock LrCountLock] @
     say PassedLR True @
     [Lock LrCountLock, LrDec, UnlessLr 0 2, Unlock ChannelLock, Unlock LeftSideEmpty, Unlock LrCountLock]"

definition RightToLeftVIP :: "stmt list" where
  "RightToLeftVIP =
     [Lock LeftSideEmpty, Unlock LeftSideEmpty,
      Lock RlCountLock, RlInc, UnlessRl 1 1, Lock ChannelLock, Unlock RlCountLock] @
     say PassedRL True @
     [Lock RlCountLock, RlDec, UnlessRl 0 1, Unlock ChannelLock, Unlock RlCountLock]"

definition sendToSpecialKiosk :: "stmt list" where
  "sendToSpecialKiosk = [Wait SkioskEmpty, Wait SkioskLock, Push Skiosk, Post SkioskLock, Post SkioskFull]"

definition startSpecialKioskOp :: "stmt list" where
  "startSpecialKioskOp =
     [Wait SkioskFull, Wait SkioskLock, Front Skiosk] @ say SkioskStart False @ [Pop Skiosk] @
     [Wait IoLock, NewPass, Say SkioskEnd False, Post IoLock, Post SkioskLock, Post SkioskEmpty]"

text \<open>\<open>PassengerLifeCycle\<close> up to the boarding loop, one turn of the loop, and the way back to it.\<close>

definition PassengerLifeCycle :: "bool \<Rightarrow> stmt list" where
  "PassengerLifeCycle v =
     say Arrived True @ sendToKiosk @ startKioskOp @ (if v then LeftToRightVIP else [UseBelt]) @ [Boarding]"

definition belt_op :: "nat \<Rightarrow> stmt list" where
  "belt_op b = sendToSecurity b @ startSecurityCheck b"

definition boarding_turn :: "stmt list" where
  "boarding_turn = sendToBoarding @ check_and_board @ [Again]"

definition boarding_retry :: "stmt list" where
  "boarding_retry = RightToLeftVIP @ sendToSpecialKiosk @ startSpecialKioskOp @ LeftToRightVIP @ [Boarding]"

section \<open>Execution\<close>

record passenger =
  vip :: bool
  board_pass :: bool

record airport =
  sems :: "sem \<Rightarrow> nat"
  mutexes :: "mutex \<Rightarrow> bool"
  lines :: "line \<Rightarrow> nat list"
  kiosk_id :: int
  lr_count :: int
  rl_count :: int
  gid_count :: nat
  passengers :: "nat \<Rightarrow> passenger"
  served :: "nat \<Rightarrow> nat"
  code :: "nat \<Rightarrow> stmt list"
  out :: "(event \<times> nat \<times> bool) list"

text \<open>
  A statement blocks, does what is undefined (front or pop of an empty queue, unlocking a mutex that
  is not locked), or goes on with the statements left. \<open>M\<close> and \<open>N\<close> are the numbers of kiosks and belts, \<open>r\<close> the value of \<open>rand()\<close>.
\<close>

datatype outcome = Blocked | Undefined | Next "stmt list" airport

definition print :: "nat \<Rightarrow> event \<Rightarrow> nat \<Rightarrow> airport \<Rightarrow> airport" where
  "print t e i s = s\<lparr>out := out s @ [(e, i, vip (passengers s t))]\<rparr>"

fun exec_stmt :: "int \<Rightarrow> nat \<Rightarrow> nat \<Rightarrow> nat \<Rightarrow> stmt \<Rightarrow> stmt list \<Rightarrow> airport \<Rightarrow> outcome" where
  "exec_stmt M N t r (Wait x) c s =
     (if sems s x = 0 then Blocked else Next c (s\<lparr>sems := (sems s)(x := sems s x - 1)\<rparr>))"
| "exec_stmt M N t r (Post x) c s = Next c (s\<lparr>sems := (sems s)(x := sems s x + 1)\<rparr>)"
| "exec_stmt M N t r (Lock m) c s =
     (if mutexes s m then Blocked else Next c (s\<lparr>mutexes := (mutexes s)(m := True)\<rparr>))"
| "exec_stmt M N t r (Unlock m) c s =
     (if mutexes s m then Next c (s\<lparr>mutexes := (mutexes s)(m := False)\<rparr>) else Undefined)"
| "exec_stmt M N t r (Push q) c s = Next c (s\<lparr>lines := (lines s)(q := lines s q @ [t])\<rparr>)"
| "exec_stmt M N t r (Front q) c s =
     (case lines s q of [] \<Rightarrow> Undefined | p # ps \<Rightarrow> Next c (s\<lparr>served := (served s)(t := p)\<rparr>))"
| "exec_stmt M N t r (Pop q) c s =
     (case lines s q of [] \<Rightarrow> Undefined | p # ps \<Rightarrow> Next c (s\<lparr>lines := (lines s)(q := ps)\<rparr>))"
| "exec_stmt M N t r NextKiosk c s =
     Next c (s\<lparr>kiosk_id := (if M < kiosk_id s + 1 then 1 else kiosk_id s + 1)\<rparr>)"
| "exec_stmt M N t r (Say e own) c s = Next c (print t e (if own then t else served s t) s)"
| "exec_stmt M N t r SayBoarded c s =
     Next c (print t (if board_pass (passengers s (served s t)) then Boarded else NoPass) (served s t) s)"
| "exec_stmt M N t r MaybeLose c s =
     Next c (if r mod 2 = 0 then s\<lparr>passengers := (passengers s)(t := (passengers s t)\<lparr>board_pass := False\<rparr>)\<rparr> else s)"
| "exec_stmt M N t r NewPass c s =
     Next c (s\<lparr>passengers := (passengers s)(served s t := (passengers s (served s t))\<lparr>board_pass := True\<rparr>)\<rparr>)"
| "exec_stmt M N t r LrInc c s = Next c (s\<lparr>lr_count := lr_count s + 1\<rparr>)"
| "exec_stmt M N t r LrDec c s = Next c (s\<lparr>lr_count := lr_count s - 1\<rparr>)"
| "exec_stmt M N t r (UnlessLr k n) c s = Next (if lr_count s = k then c else drop n c) s"
| "exec_stmt M N t r RlInc c s = Next c (s\<lparr>rl_count := rl_count s + 1\<rparr>)"
| "exec_stmt M N t r RlDec c s = Next c (s\<lparr>rl_count := rl_count s - 1\<rparr>)"
| "exec_stmt M N t r (UnlessRl k n) c s = Next (if rl_count s = k then c else drop n c) s"
| "exec_stmt M N t r UseBelt c s = Next (belt_op (r mod N) @ c) s"
| "exec_stmt M N t r Boarding c s = Next boarding_turn s"
| "exec_stmt M N t r Again c s = Next (if board_pass (passengers s t) then [] else boarding_retry) s"

text \<open>\<open>PassengerProducer\<close> adds a passenger; any thread with statements left may run the next one.\<close>

definition new_passenger :: "bool \<Rightarrow> airport \<Rightarrow> airport" where
  "new_passenger v s =
     (let i = gid_count s + 1
      in s\<lparr>gid_count := i, passengers := (passengers s)(i := \<lparr>vip = v, board_pass = True\<rparr>),
           code := (code s)(i := PassengerLifeCycle v)\<rparr>)"

inductive airport_step :: "int \<Rightarrow> nat \<Rightarrow> airport \<Rightarrow> airport \<Rightarrow> bool" for M N where
  produce: "airport_step M N s (new_passenger v s)"
| run: "t \<in> {1..gid_count s} \<Longrightarrow> code s t = x # c \<Longrightarrow> exec_stmt M N t r x c s = Next c' s' \<Longrightarrow>
     airport_step M N s (s'\<lparr>code := (code s')(t := c')\<rparr>)"

text \<open>\<open>init_sem\<close>; \<open>P\<close> is the capacity of a belt.\<close>

fun init_sem :: "nat \<Rightarrow> nat \<Rightarrow> sem \<Rightarrow> nat" where
  "init_sem M P KioskEmpty = M"
| "init_sem M P KioskFull = 0"
| "init_sem M P (BeltEmp b) = P"
| "init_sem M P (BeltFull b) = 0"
| "init_sem M P BoardingFull = 0"
| "init_sem M P SkioskFull = 0"
| "init_sem M P x = 1"

definition airport_init :: "nat \<Rightarrow> nat \<Rightarrow> airport" where
  "airport_init M P = \<lparr>sems = init_sem M P, mutexes = \<lambda>_. False, lines = \<lambda>_. [], kiosk_id = 0,
     lr_count = 0, rl_count = 0, gid_count = 0, passengers = \<lambda>_. \<lparr>vip = False, board_pass = True\<rparr>,
     served = \<lambda>_. 0, code = \<lambda>_. [], out = []\<rparr>"

inductive airport_reachable :: "nat \<Rightarrow> nat \<Rightarrow> nat \<Rightarrow> airport \<Rightarrow> bool" for M N P where
  start: "airport_reachable M N P (airport_init M P)"
| step: "airport_reachable M N P s \<Longrightarrow> airport_step (int M) N s s' \<Longrightarrow> airport_reachable M N P s'"

section \<open>Where a thread can be\<close>

definition programs :: "nat \<Rightarrow> stmt list set" where
  "programs N = {PassengerLifeCycle True, PassengerLifeCycle False, boarding_turn, boarding_retry} \<union>
     {belt_op b @ [Boarding] | b. b < N}"

definition at_code :: "nat \<Rightarrow> stmt list \<Rightarrow> bool" where
  "at_code N c \<longleftrightarrow> (\<exists>p \<in> programs N. \<exists>u. p = u @ c)"

lemmas program_defs = PassengerLifeCycle_def boarding_turn_def boarding_retry_def belt_op_def say_def
  sendToKiosk_def startKioskOp_def sendToSecurity_def startSecurityCheck_def sendToBoarding_def
  check_and_board_def LeftToRightVIP_def RightToLeftVIP_def sendToSpecialKiosk_def startSpecialKioskOp_def

text \<open>A condition on every suffix of a program is checked one statement at a time.\<close>

fun on_suffixes :: "('a list \<Rightarrow> bool) \<Rightarrow> 'a list \<Rightarrow> bool" where
  "on_suffixes P [] = P []"
| "on_suffixes P (x # c) = (P (x # c) \<and> on_suffixes P c)"

lemma on_suffixes_iff: "on_suffixes P p \<longleftrightarrow> (\<forall>u c. p = u @ c \<longrightarrow> P c)"
  by (induction p) (auto simp: Cons_eq_append_conv)

lemma at_code_all:
  assumes "at_code N c" "\<And>v. on_suffixes P (PassengerLifeCycle v)" "on_suffixes P boarding_turn"
    "on_suffixes P boarding_retry" "\<And>b. b < N \<Longrightarrow> on_suffixes P (belt_op b @ [Boarding])"
  shows "P c"
proof -
  obtain p u where p: "p \<in> programs N" "p = u @ c" using assms(1) by (auto simp: at_code_def)
  then have "on_suffixes P p" using assms(2-5) by (auto simp: programs_def)
  with p(2) show ?thesis by (simp add: on_suffixes_iff)
qed

lemma at_code_suffix: "at_code N (u @ c) \<Longrightarrow> at_code N c"
  by (auto simp: at_code_def) (metis append.assoc)+

lemma at_code_tl: "at_code N (x # c) \<Longrightarrow> at_code N c"
  using at_code_suffix [of N "[x]" c] by simp

lemma at_code_drop: "at_code N c \<Longrightarrow> at_code N (drop n c)"
  using at_code_suffix [of N "take n c" "drop n c"] by simp

lemma at_code_program: "p \<in> programs N \<Longrightarrow> at_code N p"
  by (auto simp: at_code_def intro: exI [of _ "[]"])

text \<open>What the conditional statements skip.\<close>

lemma at_code_skips:
  assumes "at_code N (x # c)"
  shows "(x = UseBelt \<longrightarrow> c = [Boarding]) \<and> (x = Boarding \<or> x = Again \<longrightarrow> c = []) \<and>
    (\<forall>k n. x = UnlessLr k n \<longrightarrow>
      k = 1 \<and> n = 2 \<and> take 3 c = [Lock LeftSideEmpty, Lock ChannelLock, Unlock LrCountLock] \<or>
      k = 0 \<and> n = 2 \<and> take 3 c = [Unlock ChannelLock, Unlock LeftSideEmpty, Unlock LrCountLock]) \<and>
    (\<forall>k n. x = UnlessRl k n \<longrightarrow>
      k = 1 \<and> n = 1 \<and> take 2 c = [Lock ChannelLock, Unlock RlCountLock] \<or>
      k = 0 \<and> n = 1 \<and> take 2 c = [Unlock ChannelLock, Unlock RlCountLock])"
    (is "?P (x # c)")
proof -
  let ?Q = "\<lambda>c. c \<noteq> [] \<longrightarrow> (hd c = UseBelt \<longrightarrow> tl c = [Boarding]) \<and> (hd c = Boarding \<or> hd c = Again \<longrightarrow> tl c = []) \<and>
    (\<forall>k n. hd c = UnlessLr k n \<longrightarrow>
      k = 1 \<and> n = 2 \<and> take 3 (tl c) = [Lock LeftSideEmpty, Lock ChannelLock, Unlock LrCountLock] \<or>
      k = 0 \<and> n = 2 \<and> take 3 (tl c) = [Unlock ChannelLock, Unlock LeftSideEmpty, Unlock LrCountLock]) \<and>
    (\<forall>k n. hd c = UnlessRl k n \<longrightarrow>
      k = 1 \<and> n = 1 \<and> take 2 (tl c) = [Lock ChannelLock, Unlock RlCountLock] \<or>
      k = 0 \<and> n = 1 \<and> take 2 (tl c) = [Unlock ChannelLock, Unlock RlCountLock])"
  have "?Q (x # c)" by (rule at_code_all [OF assms]) (simp_all add: program_defs)
  then show ?thesis by simp
qed

lemma exec_code:
  assumes "at_code N (x # c)" "exec_stmt M N t r x c s = Next c' s'" "0 < N"
  shows "at_code N c' \<and> code s' = code s \<and> gid_count s' = gid_count s"
proof -
  have "at_code N c" by (rule at_code_tl [OF assms(1)])
  moreover have "at_code N (belt_op (r mod N) @ c)" if "x = UseBelt"
  proof (rule at_code_program)
    have "r mod N < N" using assms(3) by simp
    then show "belt_op (r mod N) @ c \<in> programs N"
      using at_code_skips [OF assms(1)] that by (auto simp: programs_def)
  qed
  moreover have "at_code N boarding_turn" "at_code N boarding_retry"
    by (auto intro!: at_code_program simp: programs_def)
  moreover have "at_code N []"
    using at_code_suffix [of N boarding_turn "[]"] \<open>at_code N boarding_turn\<close> by simp
  ultimately show ?thesis
    using assms(2) by (cases x) (auto simp: print_def at_code_drop split: if_splits list.splits)
qed

section \<open>Counting the statements still to come\<close>

text \<open>
  A quantity that every statement changes by what it takes off the weight of the rest of its thread
  is, together with the weights of all threads, constant.
\<close>

definition weight :: "(stmt \<Rightarrow> int) \<Rightarrow> stmt list \<Rightarrow> int" where
  "weight w c = sum_list (map w c)"

definition total :: "(stmt \<Rightarrow> int) \<Rightarrow> airport \<Rightarrow> int" where
  "total w s = (\<Sum>t \<in> {1..gid_count s}. weight w (code s t))"

lemma weight_simps [simp]: "weight w [] = 0" "weight w (x # c) = w x + weight w c"
  "weight w (a @ b) = weight w a + weight w b"
  by (simp_all add: weight_def)

lemma total_update:
  assumes "t \<in> {1..gid_count s}" "code s' = code s" "gid_count s' = gid_count s"
  shows "total w (s'\<lparr>code := (code s')(t := c)\<rparr>) = total w s - weight w (code s t) + weight w c"
proof -
  let ?T = "{1..gid_count s}"
  have "(\<Sum>u \<in> ?T - {t}. weight w (((code s)(t := c)) u)) = (\<Sum>u \<in> ?T - {t}. weight w (code s u))"
    by (intro sum.cong) auto
  moreover have "(\<Sum>u \<in> ?T. weight w (((code s)(t := c)) u)) =
      weight w c + (\<Sum>u \<in> ?T - {t}. weight w (((code s)(t := c)) u))"
    using sum.remove [OF _ assms(1), of "\<lambda>u. weight w (((code s)(t := c)) u)"] by simp
  moreover have "total w s = weight w (code s t) + (\<Sum>u \<in> ?T - {t}. weight w (code s u))"
    unfolding total_def using sum.remove [OF _ assms(1)] by simp
  ultimately show ?thesis using assms(2,3) by (simp add: total_def)
qed

lemma total_new:
  "weight w (PassengerLifeCycle v) = 0 \<Longrightarrow> total w (new_passenger v s) = total w s"
proof -
  assume "weight w (PassengerLifeCycle v) = 0"
  moreover have "(\<Sum>u \<in> {1..gid_count s}. weight w (((code s)(gid_count s + 1 := PassengerLifeCycle v)) u)) = total w s"
    unfolding total_def by (intro sum.cong) auto
  ultimately show ?thesis by (simp add: total_def new_passenger_def Let_def atLeastAtMostSuc_conv)
qed

definition conserves :: "(stmt \<Rightarrow> int) \<Rightarrow> (airport \<Rightarrow> int) \<Rightarrow> bool" where
  "conserves w V \<longleftrightarrow> (\<forall>v. weight w (PassengerLifeCycle v) = 0) \<and> (\<forall>v s. V (new_passenger v s) = V s) \<and>
     (\<forall>s f. V (s\<lparr>code := f\<rparr>) = V s) \<and>
     (\<forall>M N t r x c s c' s'. at_code N (x # c) \<longrightarrow> exec_stmt M N t r x c s = Next c' s' \<longrightarrow>
        V s' + weight w c' = V s + w x + weight w c)"

text \<open>Every thread is somewhere in its program.\<close>

definition codes_ok :: "nat \<Rightarrow> airport \<Rightarrow> bool" where
  "codes_ok N s \<longleftrightarrow> (\<forall>t \<in> {1..gid_count s}. at_code N (code s t))"

lemma code_at: "codes_ok N s \<Longrightarrow> t \<in> {1..gid_count s} \<Longrightarrow> at_code N (code s t)"
  by (simp add: codes_ok_def)

lemma step_codes:
  assumes "airport_step M N s s'" "codes_ok N s" "0 < N"
  shows "codes_ok N s'"
  using assms
proof (cases rule: airport_step.cases)
  case (produce v)
  have "at_code N (PassengerLifeCycle v)"
    by (rule at_code_program) (cases v; simp add: programs_def)
  then show ?thesis using produce assms(2) by (auto simp: codes_ok_def new_passenger_def Let_def le_Suc_eq)
next
  case (run t x c r c' s1)
  then have "at_code N (x # c)" using code_at [OF assms(2) run(2)] by simp
  from exec_code [OF this run(4) assms(3)] show ?thesis
    using run assms(2) by (auto simp: codes_ok_def)
qed

lemma conserved_step:
  assumes "conserves w V" "airport_step M N s s'" "codes_ok N s" "0 < N"
  shows "V s' + total w s' = V s + total w s"
  using assms(2)
proof (cases rule: airport_step.cases)
  case (produce v)
  then show ?thesis using assms(1) by (simp add: conserves_def total_new)
next
  case (run t x c r c' s1)
  then have at: "at_code N (x # c)" using code_at [OF assms(3) run(2)] by simp
  have "V s1 + weight w c' = V s + w x + weight w c"
    using assms(1) at run(4) unfolding conserves_def by blast
  moreover have "V s' = V s1" using run(1) assms(1) by (simp add: conserves_def)
  ultimately show ?thesis
    using run(1,3) total_update [OF run(2), of s1 w c'] exec_code [OF at run(4) assms(4)] by simp
qed

end
