(* ===== verification/Airport_Vip.thy ===== *)
theory Airport_Vip
  imports Airport
begin

text \<open>
  The VIP channel of the airport: the protocol its two functions follow, an invariant of the protocol
  for any number of threads, and what it excludes.
\<close>

section \<open>The VIP channel\<close>

text \<open>Where a thread is in \<open>LeftToRightVIP\<close> or \<open>RightToLeftVIP\<close>.\<close>

datatype vip_pc =
    Idle
  | LLock | LInc | LTest1 | LLeft | LChan | LUnl1 | LPass | LLock2 | LDec | LTest0 | LUnchan | LUnleft | LUnl0
  | RLeft | RUnleft | RLock | RInc | RTest1 | RChan | RUnl1 | RPass | RLock2 | RDec | RTest0 | RUnchan | RUnl0

definition vip_pc :: "stmt list \<Rightarrow> vip_pc" where
  "vip_pc c = (case c of [] \<Rightarrow> Idle | x # c1 \<Rightarrow>
     (let y = (if c1 = [] then Boarding else hd c1) in
      case x of
        Lock LrCountLock \<Rightarrow> (if y = LrInc then LLock else LLock2)
      | LrInc \<Rightarrow> LInc
      | UnlessLr k n \<Rightarrow> (if k = 1 then LTest1 else LTest0)
      | Lock LeftSideEmpty \<Rightarrow> (if y = Lock ChannelLock then LLeft else RLeft)
      | Lock ChannelLock \<Rightarrow> (if y = Unlock LrCountLock then LChan else RChan)
      | Unlock LrCountLock \<Rightarrow> (if y = Wait IoLock then LUnl1 else LUnl0)
      | Wait IoLock \<Rightarrow> (if y = Say PassedLR True then LPass else if y = Say PassedRL True then RPass else Idle)
      | Say e own \<Rightarrow> (if e = PassedLR then LPass else if e = PassedRL then RPass else Idle)
      | Post IoLock \<Rightarrow> (if y = Lock LrCountLock then LPass else if y = Lock RlCountLock then RPass else Idle)
      | LrDec \<Rightarrow> LDec
      | Unlock ChannelLock \<Rightarrow> (if y = Unlock LeftSideEmpty then LUnchan else RUnchan)
      | Unlock LeftSideEmpty \<Rightarrow> (if y = Unlock LrCountLock then LUnleft else RUnleft)
      | Lock RlCountLock \<Rightarrow> (if y = RlInc then RLock else RLock2)
      | RlInc \<Rightarrow> RInc
      | UnlessRl k n \<Rightarrow> (if k = 1 then RTest1 else RTest0)
      | Unlock RlCountLock \<Rightarrow> (if y = Wait IoLock then RUnl1 else RUnl0)
      | RlDec \<Rightarrow> RDec
      | _ \<Rightarrow> Idle))"

text \<open>The protocol of the channel: the moves of one thread, on the mutexes and the two counters.\<close>

type_synonym vip_view = "(mutex \<Rightarrow> bool) \<times> int \<times> int"

definition view :: "airport \<Rightarrow> vip_view" where
  "view s = (mutexes s, lr_count s, rl_count s)"

inductive vip_move :: "vip_pc \<Rightarrow> vip_pc \<Rightarrow> vip_view \<Rightarrow> vip_view \<Rightarrow> bool" where
  idle: "p \<in> {Idle, LLock, RLeft} \<Longrightarrow> vip_move Idle p v v"
| llock: "\<not> m LrCountLock \<Longrightarrow> vip_move LLock LInc (m, l, r) (m(LrCountLock := True), l, r)"
| linc: "vip_move LInc LTest1 (m, l, r) (m, l + 1, r)"
| lfirst: "l = 1 \<Longrightarrow> vip_move LTest1 LLeft (m, l, r) (m, l, r)"
| lnext: "l \<noteq> 1 \<Longrightarrow> vip_move LTest1 LUnl1 (m, l, r) (m, l, r)"
| lleft: "\<not> m LeftSideEmpty \<Longrightarrow> vip_move LLeft LChan (m, l, r) (m(LeftSideEmpty := True), l, r)"
| lchan: "\<not> m ChannelLock \<Longrightarrow> vip_move LChan LUnl1 (m, l, r) (m(ChannelLock := True), l, r)"
| lunl1: "m LrCountLock \<Longrightarrow> vip_move LUnl1 LPass (m, l, r) (m(LrCountLock := False), l, r)"
| lpass: "p \<in> {LPass, LLock2} \<Longrightarrow> vip_move LPass p v v"
| llock2: "\<not> m LrCountLock \<Longrightarrow> vip_move LLock2 LDec (m, l, r) (m(LrCountLock := True), l, r)"
| ldec: "vip_move LDec LTest0 (m, l, r) (m, l - 1, r)"
| llast: "l = 0 \<Longrightarrow> vip_move LTest0 LUnchan (m, l, r) (m, l, r)"
| lmore: "l \<noteq> 0 \<Longrightarrow> vip_move LTest0 LUnl0 (m, l, r) (m, l, r)"
| lunchan: "m ChannelLock \<Longrightarrow> vip_move LUnchan LUnleft (m, l, r) (m(ChannelLock := False), l, r)"
| lunleft: "m LeftSideEmpty \<Longrightarrow> vip_move LUnleft LUnl0 (m, l, r) (m(LeftSideEmpty := False), l, r)"
| lunl0: "m LrCountLock \<Longrightarrow> vip_move LUnl0 Idle (m, l, r) (m(LrCountLock := False), l, r)"
| rleft: "\<not> m LeftSideEmpty \<Longrightarrow> vip_move RLeft RUnleft (m, l, r) (m(LeftSideEmpty := True), l, r)"
| runleft: "m LeftSideEmpty \<Longrightarrow> vip_move RUnleft RLock (m, l, r) (m(LeftSideEmpty := False), l, r)"
| rlock: "\<not> m RlCountLock \<Longrightarrow> vip_move RLock RInc (m, l, r) (m(RlCountLock := True), l, r)"
| rinc: "vip_move RInc RTest1 (m, l, r) (m, l, r + 1)"
| rfirst: "r = 1 \<Longrightarrow> vip_move RTest1 RChan (m, l, r) (m, l, r)"
| rnext: "r \<noteq> 1 \<Longrightarrow> vip_move RTest1 RUnl1 (m, l, r) (m, l, r)"
| rchan: "\<not> m ChannelLock \<Longrightarrow> vip_move RChan RUnl1 (m, l, r) (m(ChannelLock := True), l, r)"
| runl1: "m RlCountLock \<Longrightarrow> vip_move RUnl1 RPass (m, l, r) (m(RlCountLock := False), l, r)"
| rpass: "p \<in> {RPass, RLock2} \<Longrightarrow> vip_move RPass p v v"
| rlock2: "\<not> m RlCountLock \<Longrightarrow> vip_move RLock2 RDec (m, l, r) (m(RlCountLock := True), l, r)"
| rdec: "vip_move RDec RTest0 (m, l, r) (m, l, r - 1)"
| rlast: "r = 0 \<Longrightarrow> vip_move RTest0 RUnchan (m, l, r) (m, l, r)"
| rmore: "r \<noteq> 0 \<Longrightarrow> vip_move RTest0 RUnl0 (m, l, r) (m, l, r)"
| runchan: "m ChannelLock \<Longrightarrow> vip_move RUnchan RUnl0 (m, l, r) (m(ChannelLock := False), l, r)"
| runl0: "m RlCountLock \<Longrightarrow> vip_move RUnl0 Idle (m, l, r) (m(RlCountLock := False), l, r)"

text \<open>What follows each statement of the two functions.\<close>

definition vip_next :: "stmt list \<Rightarrow> bool" where
  "vip_next c \<longleftrightarrow> (case c of [] \<Rightarrow> True | x # c1 \<Rightarrow>
     (case vip_pc c of
        Idle \<Rightarrow> vip_pc c1 \<in> {Idle, LLock, RLeft} \<and> (\<forall>m. x \<noteq> Lock m \<and> x \<noteq> Unlock m) \<and>
          x \<noteq> LrInc \<and> x \<noteq> LrDec \<and> x \<noteq> RlInc \<and> x \<noteq> RlDec \<and> (\<forall>k n. x \<noteq> UnlessLr k n \<and> x \<noteq> UnlessRl k n)
      | LLock \<Rightarrow> x = Lock LrCountLock \<and> vip_pc c1 = LInc
      | LInc \<Rightarrow> x = LrInc \<and> vip_pc c1 = LTest1
      | LTest1 \<Rightarrow> x = UnlessLr 1 2 \<and> vip_pc c1 = LLeft \<and> vip_pc (drop 2 c1) = LUnl1
      | LLeft \<Rightarrow> x = Lock LeftSideEmpty \<and> vip_pc c1 = LChan
      | LChan \<Rightarrow> x = Lock ChannelLock \<and> vip_pc c1 = LUnl1
      | LUnl1 \<Rightarrow> x = Unlock LrCountLock \<and> vip_pc c1 = LPass
      | LPass \<Rightarrow> vip_pc c1 \<in> {LPass, LLock2} \<and> (x = Wait IoLock \<or> x = Post IoLock \<or> (\<exists>e b. x = Say e b))
      | LLock2 \<Rightarrow> x = Lock LrCountLock \<and> vip_pc c1 = LDec
      | LDec \<Rightarrow> x = LrDec \<and> vip_pc c1 = LTest0
      | LTest0 \<Rightarrow> x = UnlessLr 0 2 \<and> vip_pc c1 = LUnchan \<and> vip_pc (drop 2 c1) = LUnl0
      | LUnchan \<Rightarrow> x = Unlock ChannelLock \<and> vip_pc c1 = LUnleft
      | LUnleft \<Rightarrow> x = Unlock LeftSideEmpty \<and> vip_pc c1 = LUnl0
      | LUnl0 \<Rightarrow> x = Unlock LrCountLock \<and> vip_pc c1 = Idle
      | RLeft \<Rightarrow> x = Lock LeftSideEmpty \<and> vip_pc c1 = RUnleft
      | RUnleft \<Rightarrow> x = Unlock LeftSideEmpty \<and> vip_pc c1 = RLock
      | RLock \<Rightarrow> x = Lock RlCountLock \<and> vip_pc c1 = RInc
      | RInc \<Rightarrow> x = RlInc \<and> vip_pc c1 = RTest1
      | RTest1 \<Rightarrow> x = UnlessRl 1 1 \<and> vip_pc c1 = RChan \<and> vip_pc (drop 1 c1) = RUnl1
      | RChan \<Rightarrow> x = Lock ChannelLock \<and> vip_pc c1 = RUnl1
      | RUnl1 \<Rightarrow> x = Unlock RlCountLock \<and> vip_pc c1 = RPass
      | RPass \<Rightarrow> vip_pc c1 \<in> {RPass, RLock2} \<and> (x = Wait IoLock \<or> x = Post IoLock \<or> (\<exists>e b. x = Say e b))
      | RLock2 \<Rightarrow> x = Lock RlCountLock \<and> vip_pc c1 = RDec
      | RDec \<Rightarrow> x = RlDec \<and> vip_pc c1 = RTest0
      | RTest0 \<Rightarrow> x = UnlessRl 0 1 \<and> vip_pc c1 = RUnchan \<and> vip_pc (drop 1 c1) = RUnl0
      | RUnchan \<Rightarrow> x = Unlock ChannelLock \<and> vip_pc c1 = RUnl0
      | RUnl0 \<Rightarrow> x = Unlock RlCountLock \<and> vip_pc c1 = Idle))"

lemma at_code_vip: "at_code N c \<Longrightarrow> vip_next c"
proof (rule at_code_all)
  show "on_suffixes vip_next (PassengerLifeCycle v)" for v
    by (cases v) (auto simp: program_defs vip_next_def vip_pc_def)
qed (auto simp: program_defs vip_next_def vip_pc_def)

lemma vip_passing [simp]:
  "vip_move LPass LPass v v" "vip_move LPass LLock2 v v" "vip_move RPass RPass v v" "vip_move RPass RLock2 v v"
  by (auto intro: lpass rpass)

lemma vip_pc_starts [simp]: "vip_pc (PassengerLifeCycle v) = Idle" "vip_pc boarding_turn = Idle"
  "vip_pc boarding_retry = RLeft" "vip_pc (belt_op b @ c) = Idle" "vip_pc [] = Idle"
  by (simp_all add: program_defs vip_pc_def)

text \<open>The program follows the protocol.\<close>

lemma exec_vip:
  assumes "at_code N (x # c)" "exec_stmt M N t r x c s = Next c' s'"
  shows "vip_move (vip_pc (x # c)) (vip_pc c') (view s) (view s')"
proof -
  note n = at_code_vip [OF assms(1), unfolded vip_next_def, simplified]
  have idle: "vip_move Idle (vip_pc c') (view s) (view s')" if "vip_pc (x # c) = Idle"
    using n assms(2) that
    by (cases x) (auto simp: view_def print_def intro: idle split: if_splits list.splits)
  show ?thesis
    using n assms(2) idle
    by (cases "vip_pc (x # c)")
      (auto simp: view_def print_def intro: vip_move.intros split: if_splits)
qed

subsection \<open>The invariant of the protocol\<close>

text \<open>
  In the critical section of a counter; counted by it; and how far the channel or the left side is
  from being held once for each direction with a nonzero counter.
\<close>

definition csL :: "vip_pc \<Rightarrow> int" where
  "csL p = (if p \<in> {LInc, LTest1, LLeft, LChan, LUnl1, LDec, LTest0, LUnchan, LUnleft, LUnl0} then 1 else 0)"

definition csR :: "vip_pc \<Rightarrow> int" where
  "csR p = (if p \<in> {RInc, RTest1, RChan, RUnl1, RDec, RTest0, RUnchan, RUnl0} then 1 else 0)"

definition inL :: "vip_pc \<Rightarrow> int" where
  "inL p = (if p \<in> {LTest1, LLeft, LChan, LUnl1, LPass, LLock2, LDec} then 1 else 0)"

definition inR :: "vip_pc \<Rightarrow> int" where
  "inR p = (if p \<in> {RTest1, RChan, RUnl1, RPass, RLock2, RDec} then 1 else 0)"

fun gapL :: "int \<Rightarrow> vip_pc \<Rightarrow> int" where
  "gapL l LTest1 = (if l = 1 then - 1 else 0)"
| "gapL l LLeft = - 1"
| "gapL l LChan = - 1"
| "gapL l LTest0 = (if l = 0 then 1 else 0)"
| "gapL l LUnchan = 1"
| "gapL l p = 0"

fun gapR :: "int \<Rightarrow> vip_pc \<Rightarrow> int" where
  "gapR r RTest1 = (if r = 1 then - 1 else 0)"
| "gapR r RChan = - 1"
| "gapR r RTest0 = (if r = 0 then 1 else 0)"
| "gapR r RUnchan = 1"
| "gapR r p = 0"

fun gapS :: "int \<Rightarrow> vip_pc \<Rightarrow> int" where
  "gapS l LTest1 = (if l = 1 then - 1 else 0)"
| "gapS l LLeft = - 1"
| "gapS l LTest0 = (if l = 0 then 1 else 0)"
| "gapS l LUnchan = 1"
| "gapS l LUnleft = 1"
| "gapS l RUnleft = 1"
| "gapS l p = 0"

fun pend :: "int \<Rightarrow> int \<Rightarrow> vip_pc \<Rightarrow> bool" where
  "pend l r LLeft = (l = 1)"
| "pend l r LChan = (l = 1)"
| "pend l r LUnchan = (l = 0)"
| "pend l r LUnleft = (l = 0)"
| "pend l r RChan = (r = 1)"
| "pend l r RUnchan = (r = 0)"
| "pend l r p = True"

definition vip_inv :: "nat set \<Rightarrow> (nat \<Rightarrow> vip_pc) \<Rightarrow> vip_view \<Rightarrow> bool" where
  "vip_inv T pcs = (\<lambda>(m, l, r).
     (\<Sum>u \<in> T. csL (pcs u)) = of_bool (m LrCountLock) \<and> (\<Sum>u \<in> T. csR (pcs u)) = of_bool (m RlCountLock) \<and>
     (\<Sum>u \<in> T. inL (pcs u)) = l \<and> (\<Sum>u \<in> T. inR (pcs u)) = r \<and>
     of_bool (m ChannelLock) = of_bool (1 \<le> l) + of_bool (1 \<le> r) + (\<Sum>u \<in> T. gapL l (pcs u)) + (\<Sum>u \<in> T. gapR r (pcs u)) \<and>
     of_bool (m LeftSideEmpty) = of_bool (1 \<le> l) + (\<Sum>u \<in> T. gapS l (pcs u)) \<and>
     (\<forall>u \<in> T. pend l r (pcs u)))"

text \<open>A thread outside a critical section does not look at its counter.\<close>

lemma gapL_outside: "csL p = 0 \<Longrightarrow> gapL l p = gapL l' p"
  by (cases p) (simp_all add: csL_def)

lemma gapS_outside: "csL p = 0 \<Longrightarrow> gapS l p = gapS l' p"
  by (cases p) (simp_all add: csL_def)

lemma gapR_outside: "csR p = 0 \<Longrightarrow> gapR r p = gapR r' p"
  by (cases p) (simp_all add: csR_def)

lemma pendL_outside: "csL p = 0 \<Longrightarrow> pend l r p = pend l' r p"
  by (cases p) (simp_all add: csL_def)

lemma pendR_outside: "csR p = 0 \<Longrightarrow> pend l r p = pend l r' p"
  by (cases p) (simp_all add: csR_def)

lemma cs_nonneg: "0 \<le> csL p" "0 \<le> csR p" "0 \<le> inL p" "0 \<le> inR p"
  by (simp_all add: csL_def csR_def inL_def inR_def)

lemma vip_inv_move:
  assumes "vip_inv T pcs v" "t \<in> T" "finite T" "vip_move (pcs t) p v v'"
  shows "vip_inv T (pcs(t := p)) v'"
proof -
  let ?O = "T - {t}"
  define R where "R = (\<lambda>f :: vip_pc \<Rightarrow> int. \<Sum>u \<in> ?O. f (pcs u))"
  have old: "(\<Sum>u \<in> T. f (pcs u)) = f (pcs t) + R f" for f :: "vip_pc \<Rightarrow> int"
    using sum.remove [OF assms(3,2), of "\<lambda>u. f (pcs u)"] by (simp add: R_def)
  have new: "(\<Sum>u \<in> T. f ((pcs(t := p)) u)) = f p + R f" for f :: "vip_pc \<Rightarrow> int"
  proof -
    have "(\<Sum>u \<in> ?O. f ((pcs(t := p)) u)) = R f" unfolding R_def by (intro sum.cong) auto
    then show ?thesis using sum.remove [OF assms(3,2), of "\<lambda>u. f ((pcs(t := p)) u)"] by simp
  qed
  have R0: "0 \<le> R csL" "0 \<le> R csR" "0 \<le> R inL" "0 \<le> R inR"
    by (auto simp: R_def intro!: sum_nonneg cs_nonneg)
  have zero: "\<forall>u \<in> ?O. f (pcs u) = 0" if "R f = 0" "\<And>p. 0 \<le> f p" for f
    using that assms(3) by (simp add: R_def sum_nonneg_eq_0_iff)
  have outL: "R (gapL l) = R (gapL l')" "R (gapS l) = R (gapS l')" if "R csL = 0" for l l'
    unfolding R_def using zero [OF that cs_nonneg(1)]
    by (intro sum.cong refl gapL_outside gapS_outside; blast)+
  have outR: "R (gapR r) = R (gapR r')" if "R csR = 0" for r r'
    unfolding R_def using zero [OF that cs_nonneg(2)] by (intro sum.cong refl gapR_outside; blast)
  obtain m l r where v: "v = (m, l, r)" by (cases v)
  obtain m' l' r' where v': "v' = (m', l', r')" by (cases v')
  note inv = assms(1) [unfolded vip_inv_def v prod.case old]
  have pendL: "\<forall>u \<in> ?O. pend l' r (pcs u)" if "R csL = 0" "\<forall>u \<in> T. pend l r (pcs u)" for l l' r
    using zero [OF that(1) cs_nonneg(1)] that(2) pendL_outside by blast
  have pendR: "\<forall>u \<in> ?O. pend l r' (pcs u)" if "R csR = 0" "\<forall>u \<in> T. pend l r (pcs u)" for l r r'
    using zero [OF that(1) cs_nonneg(2)] that(2) pendR_outside by blast
  have goal: "vip_inv T (pcs(t := p)) v' \<longleftrightarrow>
     csL p + R csL = of_bool (m' LrCountLock) \<and> csR p + R csR = of_bool (m' RlCountLock) \<and>
     inL p + R inL = l' \<and> inR p + R inR = r' \<and>
     of_bool (m' ChannelLock) = of_bool (1 \<le> l') + of_bool (1 \<le> r') + (gapL l' p + R (gapL l')) + (gapR r' p + R (gapR r')) \<and>
     of_bool (m' LeftSideEmpty) = of_bool (1 \<le> l') + (gapS l' p + R (gapS l')) \<and>
     pend l' r' p \<and> (\<forall>u \<in> ?O. pend l' r' (pcs u))"
    unfolding vip_inv_def v' prod.case new using assms(2) by auto
  from assms(4) show ?thesis
  proof (cases rule: vip_move.cases)
    case linc
    then have z: "R csL = 0" using inv R0(1) unfolding v by (auto simp: csL_def of_bool_def split: if_splits)
    show ?thesis
      using linc inv R0 outL [OF z, of "l + 1" l] pendL [OF z, of l r "l + 1"]
      unfolding goal unfolding v v' by (auto simp: csL_def csR_def inL_def inR_def)
  next
    case ldec
    then have z: "R csL = 0" using inv R0(1) unfolding v by (auto simp: csL_def of_bool_def split: if_splits)
    show ?thesis
      using ldec inv R0 outL [OF z, of "l - 1" l] pendL [OF z, of l r "l - 1"]
      unfolding goal unfolding v v' by (auto simp: csL_def csR_def inL_def inR_def)
  next
    case rinc
    then have z: "R csR = 0" using inv R0(2) unfolding v by (auto simp: csR_def of_bool_def split: if_splits)
    show ?thesis
      using rinc inv R0 outR [OF z, of "r + 1" r] pendR [OF z, of l r "r + 1"]
      unfolding goal unfolding v v' by (auto simp: csL_def csR_def inL_def inR_def)
  next
    case rdec
    then have z: "R csR = 0" using inv R0(2) unfolding v by (auto simp: csR_def of_bool_def split: if_splits)
    show ?thesis
      using rdec inv R0 outR [OF z, of "r - 1" r] pendR [OF z, of l r "r - 1"]
      unfolding goal unfolding v v' by (auto simp: csL_def csR_def inL_def inR_def)
  qed (unfold goal, use inv assms(2) in \<open>auto simp: v v' csL_def csR_def inL_def inR_def\<close>)
qed

text \<open>What the invariant says of one thread and of two.\<close>

lemma gap_lower:
  "pend l r p \<Longrightarrow> - (if l = 1 then csL p else 0) \<le> gapL l p"
  "pend l r p \<Longrightarrow> - (if l = 1 then inL p else 0) \<le> gapL l p"
  "pend l r p \<Longrightarrow> - (if l = 1 then csL p else 0) \<le> gapS l p"
  "pend l r p \<Longrightarrow> - (if r = 1 then csR p else 0) \<le> gapR r p"
  "pend l r p \<Longrightarrow> - (if r = 1 then inR p else 0) \<le> gapR r p"
  by (cases p; simp add: csL_def csR_def inL_def inR_def)+

lemma sum_others:
  fixes f :: "'a \<Rightarrow> int"
  assumes "finite T" "t \<in> T" "\<And>u. u \<in> T \<Longrightarrow> 0 \<le> f u"
  shows "f t \<le> sum f T" "u \<in> T \<Longrightarrow> u \<noteq> t \<Longrightarrow> f t + f u \<le> sum f T"
proof -
  have r: "sum f T = f t + sum f (T - {t})" by (rule sum.remove [OF assms(1,2)])
  have nn: "0 \<le> sum f (T - {t})" by (intro sum_nonneg) (use assms(3) in auto)
  then show "f t \<le> sum f T" using r by simp
  assume u: "u \<in> T" "u \<noteq> t"
  then have "sum f (T - {t}) = f u + sum f (T - {t} - {u})"
    using assms(1) by (intro sum.remove) auto
  moreover have "0 \<le> sum f (T - {t} - {u})" by (intro sum_nonneg) (use assms(3) in auto)
  ultimately show "f t + f u \<le> sum f T" using r by simp
qed

lemma sum_lower:
  fixes f g :: "'a \<Rightarrow> int"
  assumes "finite T" "A \<subseteq> T" "\<And>u. u \<in> T \<Longrightarrow> - (if q then g u else 0) \<le> f u" "\<And>u. u \<in> T \<Longrightarrow> 0 \<le> g u"
    "sum g T \<le> 1"
  shows "- of_bool q \<le> sum f A"
proof -
  have "- (if q then sum g A else 0) = (\<Sum>u \<in> A. - (if q then g u else 0))"
    by (cases q) (simp_all add: sum_negf)
  also have "\<dots> \<le> sum f A" using assms(2,3) by (intro sum_mono) auto
  finally have "- (if q then sum g A else 0) \<le> sum f A" .
  moreover have "sum g A \<le> sum g T" using assms(1,2,4) by (intro sum_mono2) auto
  ultimately show ?thesis using assms(5) by (cases q) auto
qed

text \<open>A thread that passes in one direction keeps the gap of that direction at zero or above.\<close>

lemma passing_gap:
  fixes inX :: "vip_pc \<Rightarrow> int" and gap :: "vip_pc \<Rightarrow> int"
  assumes "finite T" "t \<in> T" "inX (pcs t) = 1" "gap (pcs t) = 0" "\<And>p. 0 \<le> inX p"
    "(\<Sum>u \<in> T. inX (pcs u)) = n" "\<And>u. u \<in> T \<Longrightarrow> - (if n = 1 then inX (pcs u) else 0) \<le> gap (pcs u)"
  shows "1 \<le> n \<and> 0 \<le> (\<Sum>u \<in> T. gap (pcs u))"
proof
  show n: "1 \<le> n"
    using sum_others(1) [OF assms(1,2), of "\<lambda>u. inX (pcs u)"] assms(3,5,6) by simp
  have r: "(\<Sum>u \<in> T. f (pcs u)) = f (pcs t) + (\<Sum>u \<in> T - {t}. f (pcs u))" for f :: "vip_pc \<Rightarrow> int"
    by (rule sum.remove [OF assms(1,2)])
  have "- (if n = 1 then (\<Sum>u \<in> T - {t}. inX (pcs u)) else 0) = (\<Sum>u \<in> T - {t}. - (if n = 1 then inX (pcs u) else 0))"
    by (simp add: sum_negf)
  also have "\<dots> \<le> (\<Sum>u \<in> T - {t}. gap (pcs u))" by (intro sum_mono) (use assms(7) in auto)
  finally show "0 \<le> (\<Sum>u \<in> T. gap (pcs u))"
    using r [of inX] r [of gap] assms(3,4,6) by (auto split: if_splits)
qed

lemma vip_exclusive:
  assumes "vip_inv T pcs v" "finite T" "t \<in> T" "u \<in> T" "pcs t \<in> {LPass, LLock2}" "pcs u \<in> {RPass, RLock2}"
  shows False
proof -
  obtain m l r where v: "v = (m, l, r)" by (cases v)
  note inv = assms(1) [unfolded vip_inv_def v prod.case]
  have p: "pend l r (pcs w)" if "w \<in> T" for w using inv that by blast
  have t: "inL (pcs t) = 1" "gapL l (pcs t) = 0" using assms(5) by (auto simp: inL_def)
  have u: "inR (pcs u) = 1" "gapR r (pcs u) = 0" using assms(6) by (auto simp: inR_def)
  have s: "(\<Sum>u \<in> T. inL (pcs u)) = l" "(\<Sum>u \<in> T. inR (pcs u)) = r" using inv by simp_all
  have "1 \<le> l \<and> 0 \<le> (\<Sum>u \<in> T. gapL l (pcs u))"
    by (rule passing_gap [where inX = inL, OF assms(2,3) t cs_nonneg(3) s(1) gap_lower(2) [OF p]])
  moreover have "1 \<le> r \<and> 0 \<le> (\<Sum>u \<in> T. gapR r (pcs u))"
    by (rule passing_gap [where inX = inR, OF assms(2,4) u cs_nonneg(4) s(2) gap_lower(5) [OF p]])
  ultimately have "2 \<le> (of_bool (m ChannelLock) :: int)" using inv by simp
  then show False by (cases "m ChannelLock") simp_all
qed

text \<open>No mutex is unlocked that is not locked.\<close>

definition unlocks :: "vip_pc \<Rightarrow> mutex option" where
  "unlocks p =
     (if p \<in> {LUnl1, LUnl0} then Some LrCountLock else if p \<in> {RUnl1, RUnl0} then Some RlCountLock
      else if p \<in> {LUnchan, RUnchan} then Some ChannelLock
      else if p \<in> {LUnleft, RUnleft} then Some LeftSideEmpty else None)"

lemma vip_unlock:
  assumes "vip_inv T pcs (m, l, r)" "finite T" "t \<in> T" "unlocks (pcs t) = Some x"
  shows "m x"
proof -
  note inv = assms(1) [unfolded vip_inv_def prod.case]
  have p: "pend l r (pcs w)" if "w \<in> T" for w using inv that by blast
  have cs: "csL (pcs t) \<le> of_bool (m LrCountLock)" "csR (pcs t) \<le> of_bool (m RlCountLock)"
    using sum_others(1) [OF assms(2,3), of "\<lambda>u. csL (pcs u)"] sum_others(1) [OF assms(2,3), of "\<lambda>u. csR (pcs u)"]
      inv cs_nonneg by auto
  have c1: "(\<Sum>u \<in> T. csL (pcs u)) \<le> 1" "(\<Sum>u \<in> T. csR (pcs u)) \<le> 1" using inv by auto
  have lo: "- of_bool (l = 1) \<le> (\<Sum>u \<in> A. gapL l (pcs u))" "- of_bool (l = 1) \<le> (\<Sum>u \<in> A. gapS l (pcs u))"
    "- of_bool (r = 1) \<le> (\<Sum>u \<in> A. gapR r (pcs u))" if "A \<subseteq> T" for A
  proof -
    show "- of_bool (l = 1) \<le> (\<Sum>u \<in> A. gapL l (pcs u))"
      by (rule sum_lower [OF assms(2) that gap_lower(1) [OF p] cs_nonneg(1) c1(1)])
    show "- of_bool (l = 1) \<le> (\<Sum>u \<in> A. gapS l (pcs u))"
      by (rule sum_lower [OF assms(2) that gap_lower(3) [OF p] cs_nonneg(1) c1(1)])
    show "- of_bool (r = 1) \<le> (\<Sum>u \<in> A. gapR r (pcs u))"
      by (rule sum_lower [OF assms(2) that gap_lower(4) [OF p] cs_nonneg(2) c1(2)])
  qed
  have rm: "(\<Sum>u \<in> T. f (pcs u)) = f (pcs t) + (\<Sum>u \<in> T - {t}. f (pcs u))" for f :: "vip_pc \<Rightarrow> int"
    by (rule sum.remove [OF assms(2,3)])
  have b: "of_bool (n = 1) \<le> (of_bool (1 \<le> n) :: int)" "0 \<le> (of_bool (1 \<le> n) :: int)" for n :: int by simp_all
  have ch: "of_bool (m ChannelLock) = of_bool (1 \<le> l) + of_bool (1 \<le> r) +
      (\<Sum>u \<in> T. gapL l (pcs u)) + (\<Sum>u \<in> T. gapR r (pcs u))"
    and le: "of_bool (m LeftSideEmpty) = of_bool (1 \<le> l) + (\<Sum>u \<in> T. gapS l (pcs u))"
    using inv by blast+
  show ?thesis
  proof (cases x)
    case ChannelLock
    then have "pcs t = LUnchan \<or> pcs t = RUnchan" using assms(4) by (auto simp: unlocks_def split: if_splits)
    then have "1 \<le> (of_bool (m ChannelLock) :: int)"
    proof
      assume t: "pcs t = LUnchan"
      then have "(of_bool (l = 1) :: int) = 0" "gapL l (pcs t) = 1" using p [OF assms(3)] by simp_all
      then show ?thesis
        using lo(1) [OF Diff_subset [of T "{t}"]] lo(3) [OF order_refl] rm [of "gapL l"] ch b(1) [of r] b(2) [of l]
        by linarith
    next
      assume t: "pcs t = RUnchan"
      then have "(of_bool (r = 1) :: int) = 0" "gapR r (pcs t) = 1" using p [OF assms(3)] by simp_all
      then show ?thesis
        using lo(1) [OF order_refl] lo(3) [OF Diff_subset [of T "{t}"]] rm [of "gapR r"] ch b(1) [of l] b(2) [of r]
        by linarith
    qed
    then show ?thesis using ChannelLock by (cases "m ChannelLock") simp_all
  next
    case LeftSideEmpty
    then have "pcs t = LUnleft \<or> pcs t = RUnleft" using assms(4) by (auto simp: unlocks_def split: if_splits)
    then have "gapS l (pcs t) = 1" by auto
    then have "1 \<le> (of_bool (m LeftSideEmpty) :: int)"
      using lo(2) [OF Diff_subset [of T "{t}"]] rm [of "gapS l"] le b(1) [of l] by linarith
    then show ?thesis using LeftSideEmpty by (cases "m LeftSideEmpty") simp_all
  next
    case LrCountLock
    then have "csL (pcs t) = 1" using assms(4) by (auto simp: unlocks_def csL_def split: if_splits)
    then show ?thesis using cs(1) LrCountLock by (cases "m LrCountLock") simp_all
  next
    case RlCountLock
    then have "csR (pcs t) = 1" using assms(4) by (auto simp: unlocks_def csR_def split: if_splits)
    then show ?thesis using cs(2) RlCountLock by (cases "m RlCountLock") simp_all
  qed
qed

end
