(* ===== verification/Airport_Live.thy ===== *)
theory Airport_Live
  imports Airport_Vip
begin

text \<open>
  The airport as a whole: what holds in every reachable state of any number of passengers.
\<close>

section \<open>Semaphores and queues\<close>

fun w_sem :: "sem \<Rightarrow> stmt \<Rightarrow> int" where
  "w_sem x (Wait y) = (if y = x then - 1 else 0)"
| "w_sem x (Post y) = (if y = x then 1 else 0)"
| "w_sem x _ = 0"

fun w_line :: "line \<Rightarrow> stmt \<Rightarrow> int" where
  "w_line q (Push p) = (if p = q then 1 else 0)"
| "w_line q (Pop p) = (if p = q then - 1 else 0)"
| "w_line q _ = 0"

text \<open>Statements that a condition skips weigh nothing.\<close>

lemma skip_weight:
  assumes "at_code N (x # c)" "x = UnlessLr k n \<or> x = UnlessRl k n" "\<And>m. w (Lock m) = 0" "\<And>m. w (Unlock m) = 0"
  shows "weight w (drop n c) = weight w c"
proof -
  note s = at_code_skips [OF assms(1)]
  have "weight w (take n c) = 0"
  proof (cases "x = UnlessLr k n")
    case True
    let ?A = "[Lock LeftSideEmpty, Lock ChannelLock, Unlock LrCountLock]"
    let ?B = "[Unlock ChannelLock, Unlock LeftSideEmpty, Unlock LrCountLock]"
    have "n = 2" "take 3 c = ?A \<or> take 3 c = ?B" using s True by blast+
    moreover have "take 2 (take 3 c) = take 2 c" by simp
    ultimately have "take n c = take 2 ?A \<or> take n c = take 2 ?B" by metis
    then show ?thesis using assms(3,4) by auto
  next
    case False
    let ?A = "[Lock ChannelLock, Unlock RlCountLock]" and ?B = "[Unlock ChannelLock, Unlock RlCountLock]"
    have "n = 1" "take 2 c = ?A \<or> take 2 c = ?B" using s False assms(2) by blast+
    moreover have "take 1 (take 2 c) = take 1 c" by simp
    ultimately have "take n c = take 1 ?A \<or> take n c = take 1 ?B" by metis
    then show ?thesis using assms(3,4) by auto
  qed
  moreover have "weight w c = weight w (take n c) + weight w (drop n c)"
    by (simp flip: weight_simps(3))
  ultimately show ?thesis by simp
qed

lemma conserves_sem: "conserves (w_sem x) (\<lambda>s. int (sems s x))"
  unfolding conserves_def
proof (intro conjI allI impI)
  show "weight (w_sem x) (PassengerLifeCycle v) = 0" for v
    by (cases v; cases x) (simp_all add: program_defs)
  fix M N t r y c s c' s'
  assume "at_code N (y # c)" "exec_stmt M N t r y c s = Next c' s'"
  moreover note at_code_skips [OF this(1)]
  moreover have "y = UseBelt \<Longrightarrow> weight (w_sem x) (belt_op (r mod N)) = 0"
    by (cases x) (auto simp: program_defs)
  moreover have "weight (w_sem x) boarding_turn = 0" "weight (w_sem x) boarding_retry = 0"
    by (cases x; simp add: program_defs)+
  ultimately show "int (sems s' x) + weight (w_sem x) c' = int (sems s x) + w_sem x y + weight (w_sem x) c"
    using skip_weight [of N y c _ _ "w_sem x"]
    by (cases y) (auto simp: print_def split: if_splits list.splits)
qed (simp_all add: new_passenger_def Let_def)

lemma conserves_line: "conserves (w_line q) (\<lambda>s. int (length (lines s q)))"
  unfolding conserves_def
proof (intro conjI allI impI)
  show "weight (w_line q) (PassengerLifeCycle v) = 0" for v
    by (cases v; cases q) (simp_all add: program_defs)
  fix M N t r y c s c' s'
  assume "at_code N (y # c)" "exec_stmt M N t r y c s = Next c' s'"
  moreover note at_code_skips [OF this(1)]
  moreover have "y = UseBelt \<Longrightarrow> weight (w_line q) (belt_op (r mod N)) = 0"
    by (cases q) (auto simp: program_defs)
  moreover have "weight (w_line q) boarding_turn = 0" "weight (w_line q) boarding_retry = 0"
    by (cases q; simp add: program_defs)+
  ultimately show "int (length (lines s' q)) + weight (w_line q) c' =
      int (length (lines s q)) + w_line q y + weight (w_line q) c"
    using skip_weight [of N y c _ _ "w_line q"]
    by (cases y) (auto simp: print_def split: if_splits list.splits)
qed (simp_all add: new_passenger_def Let_def)

text \<open>The semaphores that count the free and the taken places of a queue, and its lock.\<close>

fun room :: "line \<Rightarrow> sem" where
  "room Kiosks = KioskEmpty"
| "room (Belt b) = BeltEmp b"
| "room BoardOfficer = BoardingEmpty"
| "room Skiosk = SkioskEmpty"

fun filled :: "line \<Rightarrow> sem" where
  "filled Kiosks = KioskFull"
| "filled (Belt b) = BeltFull b"
| "filled BoardOfficer = BoardingFull"
| "filled Skiosk = SkioskFull"

fun line_lock :: "line \<Rightarrow> sem" where
  "line_lock Kiosks = KioskLock"
| "line_lock (Belt b) = BeltLock"
| "line_lock BoardOfficer = BoardLock"
| "line_lock Skiosk = SkioskLock"

text \<open>Inside the brackets of a queue.\<close>

definition weights_ok :: "line \<Rightarrow> stmt list \<Rightarrow> bool" where
  "weights_ok q c \<longleftrightarrow>
     weight (w_sem (room q)) c \<in> {0, 1} \<and> weight (w_sem (line_lock q)) c \<in> {0, 1} \<and>
     weight (w_sem IoLock) c \<in> {0, 1} \<and> weight (w_sem (filled q)) c \<in> {- 1, 0} \<and>
     weight (w_line q) c \<in> {- 1, 0} \<and> - weight (w_line q) c \<le> weight (w_sem (room q)) c \<and>
     (c \<noteq> [] \<and> (hd c = Front q \<or> hd c = Pop q) \<longrightarrow> weight (w_line q) c = - 1)"

lemma at_code_weights: "at_code N c \<Longrightarrow> weights_ok q c"
proof (rule at_code_all)
  show "on_suffixes (weights_ok q) (PassengerLifeCycle v)" for v
    by (cases q; cases v) (simp_all add: program_defs weights_ok_def)
  show "on_suffixes (weights_ok q) boarding_turn"
    by (cases q) (simp_all add: program_defs weights_ok_def)
  show "on_suffixes (weights_ok q) boarding_retry"
    by (cases q) (simp_all add: program_defs weights_ok_def)
  show "on_suffixes (weights_ok q) (belt_op b @ [Boarding])" for b
    by (cases q) (auto simp add: program_defs weights_ok_def)
qed

section \<open>Every reachable state\<close>

text \<open>A queue with one place holds the passenger whose thread is between its push and its pop.\<close>

definition own_line :: "airport \<Rightarrow> line \<Rightarrow> bool" where
  "own_line s q \<longleftrightarrow> (\<forall>t \<in> set (lines s q). t \<in> {1..gid_count s} \<and> weight (w_line q) (code s t) = - 1)"

definition airport_ok :: "nat \<Rightarrow> nat \<Rightarrow> nat \<Rightarrow> airport \<Rightarrow> bool" where
  "airport_ok M N P s \<longleftrightarrow> codes_ok N s \<and>
     (\<forall>x. int (sems s x) + total (w_sem x) s = int (init_sem M P x)) \<and>
     (\<forall>q. int (length (lines s q)) + total (w_line q) s = 0) \<and>
     vip_inv {1..gid_count s} (\<lambda>t. vip_pc (code s t)) (view s)"

lemma vip_inv_new:
  "vip_inv {1..n} pcs v \<Longrightarrow> vip_inv {1..n + 1} (pcs(n + 1 := Idle)) v"
proof -
  assume inv: "vip_inv {1..n} pcs v"
  have "(\<Sum>u \<in> {1..n + 1}. f ((pcs(n + 1 := Idle)) u)) = (\<Sum>u \<in> {1..n}. f (pcs u))"
    if "f Idle = 0" for f :: "vip_pc \<Rightarrow> int"
  proof -
    have "(\<Sum>u \<in> {1..n}. f ((pcs(n + 1 := Idle)) u)) = (\<Sum>u \<in> {1..n}. f (pcs u))"
      by (intro sum.cong) auto
    then show ?thesis using that by (simp add: atLeastAtMostSuc_conv)
  qed
  note s = this
  obtain m l r where v: "v = (m, l, r)" by (cases v)
  have z: "csL Idle = 0" "csR Idle = 0" "inL Idle = 0" "inR Idle = 0" "gapL l Idle = 0" "gapR r Idle = 0" "gapS l Idle = 0"
    by (simp_all add: csL_def csR_def inL_def inR_def)
  have "\<forall>u \<in> {1..n + 1}. pend l r ((pcs(n + 1 := Idle)) u)"
    using inv by (auto simp: vip_inv_def v le_Suc_eq)
  then show ?thesis
    using inv unfolding vip_inv_def v prod.case s [of csL, OF z(1)] s [of csR, OF z(2)] s [of inL, OF z(3)] s [of inR, OF z(4)] s [of "gapL l", OF z(5)] s [of "gapR r", OF z(6)] s [of "gapS l", OF z(7)]
    by blast
qed

lemma step_vip:
  assumes "airport_step M N s s'" "codes_ok N s" "0 < N"
    "vip_inv {1..gid_count s} (\<lambda>t. vip_pc (code s t)) (view s)"
  shows "vip_inv {1..gid_count s'} (\<lambda>t. vip_pc (code s' t)) (view s')"
  using assms(1)
proof (cases rule: airport_step.cases)
  case (produce v)
  have "(\<lambda>t. vip_pc (code s' t)) = (\<lambda>t. vip_pc (code s t))(gid_count s + 1 := Idle)"
    by (rule ext) (simp add: produce new_passenger_def Let_def)
  then show ?thesis
    using vip_inv_new [OF assms(4)] by (simp add: produce new_passenger_def Let_def view_def)
next
  case (run t x c r c' s1)
  have at: "at_code N (x # c)" using code_at [OF assms(2) run(2)] run(3) by simp
  note ex = exec_code [OF at run(4) assms(3)]
  have "(\<lambda>u. vip_pc (code s' u)) = (\<lambda>u. vip_pc (code s u))(t := vip_pc c')"
    using run(1) ex by (intro ext) simp
  moreover have "view s' = view s1" "gid_count s' = gid_count s" using run(1) ex by (simp_all add: view_def)
  ultimately show ?thesis
    using vip_inv_move [OF assms(4) run(2) _ exec_vip [OF at run(4), folded run(3)]] by simp
qed

lemma reachable_ok: "airport_reachable M N P s \<Longrightarrow> 0 < N \<Longrightarrow> airport_ok M N P s"
proof (induction rule: airport_reachable.induct)
  case start
  have "total w (airport_init M P) = 0" for w by (simp add: total_def airport_init_def)
  then show ?case
    by (simp add: airport_ok_def codes_ok_def vip_inv_def view_def) (simp add: airport_init_def)
next
  case (step s s')
  then have c: "codes_ok N s" by (simp add: airport_ok_def)
  show ?case
    using step.IH [OF step.prems] conserved_step [OF conserves_sem step.hyps(2) c step.prems]
      conserved_step [OF conserves_line step.hyps(2) c step.prems] step_vip [OF step.hyps(2) c step.prems]
      step_codes [OF step.hyps(2) c step.prems]
    by (simp add: airport_ok_def)
qed

section \<open>Schedules\<close>

text \<open>Running a schedule: which thread goes next, and what \<open>rand()\<close> gives it; 0 stands for a new passenger.\<close>

fun run_schedule :: "int \<Rightarrow> nat \<Rightarrow> (nat \<times> nat) list \<Rightarrow> airport \<Rightarrow> airport option" where
  "run_schedule M N [] s = Some s"
| "run_schedule M N ((t, r) # ts) s =
     (if t = 0 then run_schedule M N ts (new_passenger (r mod 2 = 0) s)
      else if gid_count s < t then None
      else case code s t of
             [] \<Rightarrow> None
           | x # c \<Rightarrow> (case exec_stmt M N t r x c s of
               Next c' s' \<Rightarrow> run_schedule M N ts (s'\<lparr>code := (code s')(t := c')\<rparr>)
             | _ \<Rightarrow> None))"

lemma run_schedule_reachable:
  "run_schedule (int M) N ts s = Some s' \<Longrightarrow> airport_reachable M N P s \<Longrightarrow> airport_reachable M N P s'"
proof (induction ts arbitrary: s)
  case (Cons tr ts)
  obtain t r where tr: "tr = (t, r)" by (cases tr)
  show ?case
  proof (cases "t = 0")
    case True
    then show ?thesis
      using Cons.IH [of "new_passenger (r mod 2 = 0) s"] Cons.prems
        airport_reachable.step [OF Cons.prems(2) produce] by (simp add: tr)
  next
    case False
    then obtain x c c' s1 where n: "t \<le> gid_count s" "code s t = x # c"
      "exec_stmt (int M) N t r x c s = Next c' s1"
      "run_schedule (int M) N ts (s1\<lparr>code := (code s1)(t := c')\<rparr>) = Some s'"
      using Cons.prems(1) by (auto simp: tr split: if_splits list.splits outcome.splits)
    then have "t \<in> {1..gid_count s}" using False by simp
    from airport_reachable.step [OF Cons.prems(2) run [OF this n(2,3)]] n(4) Cons.IH show ?thesis by simp
  qed
qed simp

section \<open>Properties\<close>

lemma line_bounded:
  assumes "airport_ok M N P s"
  shows "length (lines s q) \<le> init_sem M P (room q)"
proof -
  have c: "codes_ok N s" using assms by (simp add: airport_ok_def)
  have "- total (w_line q) s = (\<Sum>t \<in> {1..gid_count s}. - weight (w_line q) (code s t))"
    by (simp add: total_def sum_negf)
  also have "\<dots> \<le> total (w_sem (room q)) s"
    unfolding total_def using at_code_weights [OF code_at [OF c], of _ q]
    by (intro sum_mono) (auto simp: weights_ok_def)
  finally have "- total (w_line q) s \<le> total (w_sem (room q)) s" .
  moreover have "int (length (lines s q)) = - total (w_line q) s"
    using assms by (simp add: airport_ok_def eq_neg_iff_add_eq_0)
  moreover have "int (sems s (room q)) + total (w_sem (room q)) s = int (init_sem M P (room q))"
    using assms by (simp add: airport_ok_def)
  ultimately show ?thesis by linarith
qed

lemma never_undefined:
  assumes "airport_ok M N P s" "t \<in> {1..gid_count s}" "code s t = x # c"
  shows "exec_stmt m N t r x c s \<noteq> Undefined"
proof -
  have at: "at_code N (x # c)" using assms code_at [of N s t] by (simp add: airport_ok_def)
  have line: "lines s q \<noteq> []" if "x = Front q \<or> x = Pop q" for q
  proof
    assume e: "lines s q = []"
    have "codes_ok N s" using assms(1) by (simp add: airport_ok_def)
    then have w: "weights_ok q (code s u)" if "u \<in> {1..gid_count s}" for u
      using at_code_weights [OF code_at] that by blast
    have "weight (w_line q) (code s t) = - 1"
      using w [OF assms(2)] that by (auto simp: weights_ok_def assms(3))
    moreover have "- weight (w_line q) (code s t) \<le> (\<Sum>u \<in> {1..gid_count s}. - weight (w_line q) (code s u))"
    proof (rule sum_others(1) [OF _ assms(2)])
      show "0 \<le> - weight (w_line q) (code s u)" if "u \<in> {1..gid_count s}" for u
        using w [OF that] by (auto simp: weights_ok_def)
    qed simp
    moreover have "(\<Sum>u \<in> {1..gid_count s}. - weight (w_line q) (code s u)) = - total (w_line q) s"
      by (simp add: total_def sum_negf)
    moreover have "int (length (lines s q)) + total (w_line q) s = 0"
      using assms(1) unfolding airport_ok_def by blast
    ultimately show False using e by simp
  qed
  have mu: "mutexes s m" if "x = Unlock m" for m
  proof -
    have "unlocks (vip_pc (x # c)) = Some m"
      using at_code_vip [OF at] that
      by (cases "vip_pc (x # c)") (auto simp: vip_next_def unlocks_def)
    then show ?thesis
      using vip_unlock [of "{1..gid_count s}" "\<lambda>t. vip_pc (code s t)" "mutexes s" "lr_count s" "rl_count s" t m]
        assms by (simp add: airport_ok_def view_def)
  qed
  show ?thesis using line mu by (cases x) (auto split: list.splits)
qed

text \<open>
  (C27) The queues of the airport never overflow and never fail: in every reachable state, for any
  number of passengers and any interleaving, at most \<open>M\<close> passengers wait at the kiosks, at most \<open>P\<close> at
  each belt and one at the officer and at the special kiosk, and no thread takes the front of an empty
  queue, pops one, or unlocks a mutex that is not locked.
\<close>

theorem airport_queues_safe:
  assumes "airport_reachable M N P s" and "0 < N"
  shows "length (lines s Kiosks) \<le> M \<and> length (lines s (Belt b)) \<le> P \<and>
    length (lines s BoardOfficer) \<le> 1 \<and> length (lines s Skiosk) \<le> 1 \<and>
    (\<forall>t x c r. t \<in> {1..gid_count s} \<and> code s t = x # c \<longrightarrow> exec_stmt (int M) N t r x c s \<noteq> Undefined)"
proof -
  note ok = reachable_ok [OF assms]
  show ?thesis
    using line_bounded [OF ok, of Kiosks] line_bounded [OF ok, of "Belt b"] line_bounded [OF ok, of BoardOfficer]
      line_bounded [OF ok, of Skiosk] never_undefined [OF ok]
    by simp
qed

text \<open>
  (C12) The VIP channel is used in one direction at a time: in no reachable state is a passenger
  passing from left to right while another one is passing from right to left.
\<close>

theorem vip_channel_exclusive:
  assumes "airport_reachable M N P s" and "0 < N" and "t \<in> {1..gid_count s}" and "u \<in> {1..gid_count s}"
    and "vip_pc (code s t) = LPass"
  shows "vip_pc (code s u) \<noteq> RPass"
proof
  assume u: "vip_pc (code s u) = RPass"
  have "vip_inv {1..gid_count s} (\<lambda>t. vip_pc (code s t)) (view s)"
    using reachable_ok [OF assms(1,2)] by (simp add: airport_ok_def)
  from vip_exclusive [OF this _ assms(3,4)] show False using assms(5) u by simp
qed

section \<open>No deadlock\<close>

text \<open>
  What a thread that cannot move may be at: with the print lock, the lock of a queue or a place in a
  queue in hand it only waits for the next in this order, and for nothing after the last; outside all
  of them it is at a lock of the VIP channel.
\<close>

definition free_stmt :: "stmt \<Rightarrow> bool" where
  "free_stmt x \<longleftrightarrow> (\<forall>y. x \<noteq> Wait y) \<and> (\<forall>m. x \<noteq> Lock m)"

definition waits_ok :: "line \<Rightarrow> stmt list \<Rightarrow> bool" where
  "waits_ok q c \<longleftrightarrow> (c \<noteq> [] \<longrightarrow>
     (weight (w_sem IoLock) c = 1 \<longrightarrow> free_stmt (hd c)) \<and>
     (weight (w_sem (line_lock q)) c = 1 \<longrightarrow> free_stmt (hd c) \<or> hd c = Wait IoLock) \<and>
     (weight (w_sem (room q)) c = 1 \<longrightarrow> free_stmt (hd c) \<or>
        hd c \<in> {Wait IoLock, Wait (line_lock q), Wait (filled q)}) \<and>
     (hd c = Wait (filled q) \<longrightarrow> weight (w_sem (filled q)) c = - 1))"

lemma at_code_waits: "at_code N c \<Longrightarrow> waits_ok q c"
proof (rule at_code_all)
  show "on_suffixes (waits_ok q) (PassengerLifeCycle v)" for v
    by (cases q; cases v) (simp_all add: program_defs waits_ok_def free_stmt_def)
  show "on_suffixes (waits_ok q) boarding_turn"
    by (cases q) (simp_all add: program_defs waits_ok_def free_stmt_def)
  show "on_suffixes (waits_ok q) boarding_retry"
    by (cases q) (simp_all add: program_defs waits_ok_def free_stmt_def)
  show "on_suffixes (waits_ok q) (belt_op b @ [Boarding])" for b
    by (cases q) (auto simp add: program_defs waits_ok_def free_stmt_def)
qed

text \<open>Every wait is one of these.\<close>

definition wait_kinds :: "stmt list \<Rightarrow> bool" where
  "wait_kinds c \<longleftrightarrow> (\<forall>y. c \<noteq> [] \<and> hd c = Wait y \<longrightarrow>
     y = IoLock \<or> (\<exists>q. y = line_lock q) \<or> (\<exists>q. y = room q) \<or> (\<exists>q. y = filled q))"

lemma wait_kinds: "wait_kinds c"
proof -
  have "y = IoLock \<or> (\<exists>q. y = line_lock q) \<or> (\<exists>q. y = room q) \<or> (\<exists>q. y = filled q)" for y
  proof (cases y)
    case KioskEmpty then have "y = room Kiosks" by simp then show ?thesis by blast
  next
    case KioskFull then have "y = filled Kiosks" by simp then show ?thesis by blast
  next
    case KioskLock then have "y = line_lock Kiosks" by simp then show ?thesis by blast
  next
    case (BeltEmp b) then have "y = room (Belt b)" by simp then show ?thesis by blast
  next
    case (BeltFull b) then have "y = filled (Belt b)" by simp then show ?thesis by blast
  next
    case BeltLock then have "y = line_lock (Belt 0)" by simp then show ?thesis by blast
  next
    case BoardingEmpty then have "y = room BoardOfficer" by simp then show ?thesis by blast
  next
    case BoardingFull then have "y = filled BoardOfficer" by simp then show ?thesis by blast
  next
    case BoardLock then have "y = line_lock BoardOfficer" by simp then show ?thesis by blast
  next
    case SkioskEmpty then have "y = room Skiosk" by simp then show ?thesis by blast
  next
    case SkioskFull then have "y = filled Skiosk" by simp then show ?thesis by blast
  next
    case SkioskLock then have "y = line_lock Skiosk" by simp then show ?thesis by blast
  qed simp
  then show ?thesis by (simp add: wait_kinds_def)
qed

text \<open>The mutex that a thread in the channel's functions is about to lock.\<close>

definition locks :: "vip_pc \<Rightarrow> mutex option" where
  "locks p =
     (if p \<in> {LLock, LLock2} then Some LrCountLock else if p \<in> {RLock, RLock2} then Some RlCountLock
      else if p \<in> {LChan, RChan} then Some ChannelLock
      else if p \<in> {LLeft, RLeft} then Some LeftSideEmpty else None)"

text \<open>A state in which no thread can run.\<close>

definition stuck :: "int \<Rightarrow> nat \<Rightarrow> nat \<Rightarrow> airport \<Rightarrow> bool" where
  "stuck M N r s \<longleftrightarrow> (\<forall>t \<in> {1..gid_count s}. \<forall>x c. code s t = x # c \<longrightarrow> exec_stmt M N t r x c s = Blocked)"

lemma blocked_cases:
  "exec_stmt M N t r x c s = Blocked \<Longrightarrow>
   (\<exists>y. x = Wait y \<and> sems s y = 0) \<or> (\<exists>m. x = Lock m \<and> mutexes s m)"
  by (cases x) (auto split: if_splits list.splits)

text \<open>Nobody holds a semaphore that no blocked thread can hold, so it has its initial value.\<close>

lemma sem_at_init:
  assumes "airport_ok M N P s" "\<And>t. t \<in> {1..gid_count s} \<Longrightarrow> weight (w_sem y) (code s t) = 0"
  shows "sems s y = init_sem M P y"
proof -
  have "total (w_sem y) s = 0" unfolding total_def using assms(2) by (intro sum.neutral) auto
  then show ?thesis using assms(1) unfolding airport_ok_def by (metis add.right_neutral of_nat_eq_iff)
qed

lemma stuck_no_wait:
  assumes "airport_ok M N P s" "stuck m N r s" "0 < M" "0 < P" "t \<in> {1..gid_count s}" "code s t = x # c"
  shows "\<exists>m. x = Lock m \<and> mutexes s m"
proof -
  let ?T = "{1..gid_count s}"
  have cs: "codes_ok N s" using assms(1) by (simp add: airport_ok_def)
  have bl: "(\<exists>y. hd (code s u) = Wait y \<and> sems s y = 0) \<or> (\<exists>m. hd (code s u) = Lock m \<and> mutexes s m)"
    if u: "u \<in> ?T" "code s u \<noteq> []" for u
  proof -
    obtain y d where "code s u = y # d" using u(2) by (cases "code s u") auto
    then show ?thesis using assms(2) u(1) blocked_cases unfolding stuck_def by (metis list.sel(1))
  qed
  have nf: "\<not> free_stmt (hd (code s u))" if "u \<in> ?T" "code s u \<noteq> []" for u
    using bl [OF that] by (auto simp: free_stmt_def)
  have w: "weights_ok q (code s u)" "waits_ok q (code s u)" if "u \<in> ?T" for u q
    using at_code_weights [OF code_at [OF cs that]] at_code_waits [OF code_at [OF cs that]] by auto
  have io: "sems s IoLock = 1"
  proof -
    have "weight (w_sem IoLock) (code s u) = 0" if "u \<in> ?T" for u
      using w [OF that, of Kiosks] nf [OF that] by (cases "code s u = []") (auto simp: weights_ok_def waits_ok_def)
    from sem_at_init [OF assms(1) this] show ?thesis by simp
  qed
  have not_io: "hd (code s u) \<noteq> Wait IoLock" if "u \<in> ?T" "code s u \<noteq> []" for u
    using bl [OF that] io by auto
  have lk: "sems s (line_lock q) = 1" for q
  proof -
    have "weight (w_sem (line_lock q)) (code s u) = 0" if "u \<in> ?T" for u
      using w [OF that, of q] nf [OF that] not_io [OF that]
      by (cases "code s u = []") (auto simp: weights_ok_def waits_ok_def)
    from sem_at_init [OF assms(1) this] show ?thesis by (cases q) simp_all
  qed
  have fl: "0 < sems s (filled q)" if u: "u \<in> ?T" "code s u \<noteq> []" "hd (code s u) = Wait (filled q)" for q u
  proof -
    have "0 \<le> - weight (w_sem (filled q)) (code s v)" if "v \<in> ?T" for v
      using w(1) [OF that, of q] by (auto simp: weights_ok_def)
    then have "- weight (w_sem (filled q)) (code s u) \<le> (\<Sum>v \<in> ?T. - weight (w_sem (filled q)) (code s v))"
      by (rule sum_others(1) [OF finite_atLeastAtMost u(1)])
    moreover have "weight (w_sem (filled q)) (code s u) = - 1"
      using w(2) [OF u(1), of q] u(2,3) by (simp add: waits_ok_def)
    moreover have "(\<Sum>v \<in> ?T. - weight (w_sem (filled q)) (code s v)) = - total (w_sem (filled q)) s"
      by (simp add: total_def sum_negf)
    moreover have "int (sems s (filled q)) + total (w_sem (filled q)) s = 0"
      using assms(1) unfolding airport_ok_def by (cases q) auto
    ultimately show ?thesis by linarith
  qed
  have not_lk: "hd (code s u) \<noteq> Wait (line_lock q)" "hd (code s u) \<noteq> Wait (filled q)"
    if "u \<in> ?T" "code s u \<noteq> []" for u q
    using bl [OF that] lk [of q] fl [OF that, of q] by auto
  have rm: "0 < sems s (room q)" for q
  proof -
    have "weight (w_sem (room q)) (code s u) = 0" if "u \<in> ?T" for u
      using w [OF that, of q] nf [OF that] not_io [OF that] not_lk [OF that]
      by (cases "code s u = []") (auto simp: weights_ok_def waits_ok_def)
    from sem_at_init [OF assms(1) this] show ?thesis using assms(3,4) by (cases q) simp_all
  qed
  have c: "code s t \<noteq> []" "hd (code s t) = x" using assms(6) by simp_all
  have False if x: "x = Wait y" "sems s y = 0" for y
  proof -
    have "y = IoLock \<or> (\<exists>q. y = line_lock q) \<or> (\<exists>q. y = room q) \<or> (\<exists>q. y = filled q)"
      using wait_kinds [of "code s t"] c x(1) by (simp add: wait_kinds_def)
    moreover have "y \<noteq> IoLock" "\<And>q. y \<noteq> line_lock q" using io lk x(2) by auto
    moreover have "y \<noteq> room q" for q using rm [of q] x(2) by auto
    moreover have "y \<noteq> filled q" for q using not_lk(2) [OF assms(5) c(1), of q] c(2) x(1) by auto
    ultimately show False by blast
  qed
  then show ?thesis using bl [OF assms(5) c(1)] c(2) by auto
qed

lemma stuck_no_lock:
  assumes "vip_inv T pcs (m, l, r)" "finite T"
    and at: "\<And>t. t \<in> T \<Longrightarrow> pcs t = Idle \<or> (\<exists>x. locks (pcs t) = Some x \<and> m x)"
  shows "\<forall>t \<in> T. pcs t = Idle"
proof -
  note inv = assms(1) [unfolded vip_inv_def prod.case]
  have kinds: "pcs t \<in> {Idle, LLock, LLock2, RLock, RLock2, LChan, RChan, LLeft, RLeft}" if "t \<in> T" for t
    using at [OF that] by (auto simp: locks_def split: if_splits)
  have needs: "pcs t \<in> {LLock, LLock2} \<Longrightarrow> m LrCountLock" "pcs t \<in> {RLock, RLock2} \<Longrightarrow> m RlCountLock"
    "pcs t \<in> {LChan, RChan} \<Longrightarrow> m ChannelLock" "pcs t \<in> {LLeft, RLeft} \<Longrightarrow> m LeftSideEmpty" if "t \<in> T" for t
    using at [OF that] by (auto simp: locks_def split: if_splits)
  have p: "pend l r (pcs t)" if "t \<in> T" for t using inv that by blast
  have each: "gapL l (pcs u) = - csL (pcs u)" "gapR r (pcs u) = - csR (pcs u)" "gapS l (pcs u) \<le> 0"
    "csL (pcs u) \<noteq> 0 \<Longrightarrow> pcs u = LLeft \<or> pcs u = LChan" "csR (pcs u) \<noteq> 0 \<Longrightarrow> pcs u = RChan"
    "inR (pcs u) \<noteq> 0 \<Longrightarrow> pcs u = RChan \<or> pcs u = RLock2" if "u \<in> T" for u
    using kinds [OF that] by (auto simp: csL_def csR_def inR_def)
  then have gL: "(\<Sum>u \<in> T. gapL l (pcs u)) = - (\<Sum>u \<in> T. csL (pcs u))"
    and gR: "(\<Sum>u \<in> T. gapR r (pcs u)) = - (\<Sum>u \<in> T. csR (pcs u))"
    unfolding sum_negf [symmetric] by (simp_all cong: sum.cong)
  have zero: "\<And>u. u \<in> T \<Longrightarrow> f (pcs u) = 0" if "(\<Sum>u \<in> T. f (pcs u)) = 0" "\<And>p. 0 \<le> f p" for f :: "vip_pc \<Rightarrow> int"
    using that assms(2) by (simp add: sum_nonneg_eq_0_iff)
  have some: "\<exists>u \<in> T. f (pcs u) \<noteq> 0" if "(\<Sum>u \<in> T. f (pcs u)) \<noteq> 0" for f :: "vip_pc \<Rightarrow> int"
    using that by (meson sum.neutral)
  have ch: "of_bool (m ChannelLock) = of_bool (1 \<le> l) + of_bool (1 \<le> r) - (of_bool (m LrCountLock) + of_bool (m RlCountLock) :: int)"
    using inv gL gR by simp
  have noL: "\<not> m LrCountLock"
  proof
    assume mL: "m LrCountLock"
    then have "(\<Sum>u \<in> T. csL (pcs u)) \<noteq> 0" using inv by simp
    from some [OF this] obtain w where w: "w \<in> T" "pcs w = LLeft \<or> pcs w = LChan"
      using each(4) by blast
    then have l: "l = 1" using p [OF w(1)] by auto
    show False
    proof (cases "pcs w = LLeft")
      case True
      have "(\<Sum>u \<in> T - {w}. gapS l (pcs u)) \<le> 0"
        by (intro sum_nonpos) (use each(3) in blast)
      then have "(\<Sum>u \<in> T. gapS l (pcs u)) \<le> - 1"
        using sum.remove [OF assms(2) w(1), of "\<lambda>u. gapS l (pcs u)"] True by simp
      moreover have "of_bool (m LeftSideEmpty) = of_bool (1 \<le> l) + (\<Sum>u \<in> T. gapS l (pcs u))" using inv by blast
      moreover have "m LeftSideEmpty" using needs(4) [OF w(1)] True by simp
      ultimately show False using l by simp
    next
      case False
      then have "m ChannelLock" using needs(3) [OF w(1)] w(2) by simp
      then have r: "1 \<le> r" "\<not> m RlCountLock" using ch mL l by (auto simp: of_bool_def split: if_splits)
      then have "(\<Sum>u \<in> T. inR (pcs u)) \<noteq> 0" using inv by simp
      from some [OF this] obtain u where u: "u \<in> T" "pcs u = RChan \<or> pcs u = RLock2"
        using each(6) by blast
      have "csR (pcs u) = 0" by (rule zero [OF _ cs_nonneg(2) u(1)]) (use inv r(2) in simp)
      then have "pcs u = RLock2" using u(2) by (auto simp: csR_def)
      then show False using needs(2) [OF u(1)] r(2) by simp
    qed
  qed
  have z: "csL (pcs u) = 0" if "u \<in> T" for u by (rule zero [OF _ cs_nonneg(1) that]) (use inv noL in simp)
  then have L: "pcs u \<in> {Idle, RLock, RLock2, RChan, RLeft}" if "u \<in> T" for u
    using kinds [OF that] needs(1) [OF that] noL z [OF that] by (auto simp: csL_def)
  have inL0: "inL (pcs u) = 0" "gapS l (pcs u) = 0" if "u \<in> T" for u
    using L [OF that] by (auto simp: inL_def)
  have "(\<Sum>u \<in> T. inL (pcs u)) = 0" by (intro sum.neutral ballI) (use inL0 in blast)
  then have l0: "l = 0" using inv by simp
  have "(\<Sum>u \<in> T. gapS l (pcs u)) = 0" by (intro sum.neutral ballI) (use inL0 in blast)
  moreover have "of_bool (m LeftSideEmpty) = of_bool (1 \<le> l) + (\<Sum>u \<in> T. gapS l (pcs u))" using inv by blast
  ultimately have noS: "\<not> m LeftSideEmpty" using l0 by simp
  have noR: "\<not> m RlCountLock"
  proof
    assume mR: "m RlCountLock"
    then have "(\<Sum>u \<in> T. csR (pcs u)) \<noteq> 0" using inv by simp
    from some [OF this] obtain w where w: "w \<in> T" "pcs w = RChan"
      using each(5) by blast
    then have "r = 1" "m ChannelLock" using p [OF w(1)] needs(3) [OF w(1)] by auto
    then show False using ch mR noL l0 by simp
  qed
  have c: "csR (pcs u) = 0" if "u \<in> T" for u by (rule zero [OF _ cs_nonneg(2) that]) (use inv noR in simp)
  show ?thesis
  proof
    fix u assume u: "u \<in> T"
    show "pcs u = Idle" using L [OF u] needs(2,4) [OF u] noR noS c [OF u] by (auto simp: csR_def)
  qed
qed

text \<open>
  (C11) The airport never deadlocks: in every reachable state in which some passenger has not boarded
  yet, some passenger's thread can take its next step, whatever \<open>rand()\<close> gives it.
\<close>

theorem airport_deadlock_free:
  assumes "airport_reachable M N P s" and "0 < M" and "0 < N" and "0 < P"
    and "t \<in> {1..gid_count s}" and "code s t \<noteq> []"
  shows "\<exists>u \<in> {1..gid_count s}. \<exists>x c c' s'. code s u = x # c \<and> exec_stmt (int M) N u r x c s = Next c' s'"
proof (rule ccontr)
  let ?T = "{1..gid_count s}"
  assume none: "\<not> (\<exists>u \<in> ?T. \<exists>x c c' s'. code s u = x # c \<and> exec_stmt (int M) N u r x c s = Next c' s')"
  note ok = reachable_ok [OF assms(1,3)]
  have "exec_stmt (int M) N u r x c s = Blocked" if "u \<in> ?T" "code s u = x # c" for u x c
    using never_undefined [OF ok that] none that by (cases "exec_stmt (int M) N u r x c s") auto
  then have st: "stuck (int M) N r s" by (simp add: stuck_def)
  have cs: "codes_ok N s" using ok by (simp add: airport_ok_def)
  have lk: "\<exists>m. x = Lock m \<and> mutexes s m" if "u \<in> ?T" "code s u = x # c" for u x c
    by (rule stuck_no_wait [OF ok st assms(2,4) that])
  have pcs: "(code s u = [] \<longleftrightarrow> vip_pc (code s u) = Idle) \<and>
      (code s u \<noteq> [] \<longrightarrow> (\<exists>m. locks (vip_pc (code s u)) = Some m \<and> mutexes s m))" if u: "u \<in> ?T" for u
  proof (cases "code s u")
    case (Cons x c)
    from lk [OF u this] obtain m where m: "x = Lock m" "mutexes s m" by blast
    then show ?thesis
      using at_code_vip [OF code_at [OF cs u]] Cons
      by (cases "vip_pc (code s u)") (auto simp: vip_next_def locks_def)
  qed simp
  have "vip_inv ?T (\<lambda>u. vip_pc (code s u)) (mutexes s, lr_count s, rl_count s)"
    using ok by (simp add: airport_ok_def view_def)
  from stuck_no_lock [OF this] have "\<forall>u \<in> ?T. vip_pc (code s u) = Idle" using pcs by blast
  then show False using pcs [OF assms(5)] assms(5,6) by blast
qed


text \<open>
  Two VIP passengers: the first is passing to the right while the second has lost its boarding pass
  and waits for the left side to be empty.
\<close>

definition ex_schedule :: "(nat \<times> nat) list" where
  "ex_schedule = [(0, 0), (0, 0)] @ replicate 27 (1, 0) @ replicate 55 (2, 0)"

lemma ex_airport:
  obtains s where "airport_reachable 2 3 3 s" "gid_count s = 2" "vip_pc (code s 1) = LPass" "vip_pc (code s 2) = RLeft"
proof -
  have "case run_schedule (int 2) 3 ex_schedule (airport_init 2 3) of None \<Rightarrow> False
    | Some s \<Rightarrow> gid_count s = 2 \<and> vip_pc (code s 1) = LPass \<and> vip_pc (code s 2) = RLeft"
    by code_simp
  then obtain s where "run_schedule (int 2) 3 ex_schedule (airport_init 2 3) = Some s"
    "gid_count s = 2" "vip_pc (code s 1) = LPass" "vip_pc (code s 2) = RLeft"
    by (auto split: option.splits)
  with run_schedule_reachable [OF this(1) airport_reachable.start] show ?thesis by (auto intro: that)
qed

theorem vip_channel_exclusive_witness:
  "\<exists>s. airport_reachable 2 3 3 s \<and> vip_pc (code s 1) = LPass \<and> vip_pc (code s 2) = RLeft \<and> vip_pc (code s 2) \<noteq> RPass"
proof -
  obtain s where s: "airport_reachable 2 3 3 s" "gid_count s = 2" "vip_pc (code s 1) = LPass" "vip_pc (code s 2) = RLeft"
    by (rule ex_airport)
  from vip_channel_exclusive [OF s(1) _ _ _ s(3), of 2] s show ?thesis by auto
qed

theorem airport_queues_safe_witness:
  "\<exists>s. airport_reachable 2 3 3 s \<and> gid_count s = 2 \<and> length (lines s Kiosks) \<le> 2"
proof -
  obtain s where s: "airport_reachable 2 3 3 s" "gid_count s = 2" by (rule ex_airport)
  from airport_queues_safe [OF s(1)] s show ?thesis by auto
qed

theorem airport_deadlock_free_witness:
  "\<exists>s. airport_reachable 2 3 3 s \<and> vip_pc (code s 2) = RLeft \<and>
     (\<exists>u \<in> {1..gid_count s}. \<exists>x c c' s'. code s u = x # c \<and> exec_stmt 2 3 u 0 x c s = Next c' s')"
proof -
  obtain s where s: "airport_reachable 2 3 3 s" "gid_count s = 2" "vip_pc (code s 1) = LPass" "vip_pc (code s 2) = RLeft"
    by (rule ex_airport)
  have ne: "code s 2 \<noteq> []" using s(4) by auto
  have "\<exists>u \<in> {1..gid_count s}. \<exists>x c c' s'. code s u = x # c \<and> exec_stmt (int 2) 3 u 0 x c s = Next c' s'"
    by (rule airport_deadlock_free [OF s(1) _ _ _ _ ne]) (use s(2) in simp_all)
  then show ?thesis using s(1,4) unfolding of_nat_numeral by blast
qed

text \<open>
  A kiosk serves the front of the queue, whoever that is: here the thread of the VIP passenger 2
  announces the check-in of passenger 1, who is not one, with the mark of a VIP.
\<close>

lemma kiosk_marks_other:
  "\<exists>s. airport_reachable 2 3 3 s \<and> \<not> vip (passengers s 1) \<and> (KioskStart, 1, True) \<in> set (out s)"
proof -
  have "case run_schedule (int 2) 3 ([(0, 1), (0, 0)] @ replicate 8 (1, 0) @ replicate 14 (2, 0)) (airport_init 2 3) of
      None \<Rightarrow> False | Some s \<Rightarrow> \<not> vip (passengers s 1) \<and> (KioskStart, 1, True) \<in> set (out s)"
    by code_simp
  then obtain s where "run_schedule (int 2) 3 ([(0, 1), (0, 0)] @ replicate 8 (1, 0) @ replicate 14 (2, 0)) (airport_init 2 3) = Some s"
    "\<not> vip (passengers s 1)" "(KioskStart, 1, True) \<in> set (out s)"
    by (auto split: option.splits)
  with run_schedule_reachable [OF this(1) airport_reachable.start] show ?thesis by blast
qed

end
