(* ===== verification/Ide.thy ===== *)
theory Ide
  imports Bio
begin

text \<open>
  The interrupt-driven disk driver \<open>ide.c\<close>: a queue of buffers whose head is the request the drive works
  on. \<open>outb\<close> leaves a byte in a port of the controller, \<open>inb(0x1f7)\<close> takes the next of the status bytes
  that the drive shows, and the data port is the list of bytes sent or to be received. The drive is a
  separate definition, \<open>drive\<close>, which does what the ATA registers ask for. The queue is shown to
  carry out the transfers that \<open>memide.c\<close> does at once, in the order of the requests.
\<close>

section \<open>State\<close>

definition FSSIZE :: uint where "FSSIZE = 1000"
definition SECTOR_SIZE :: nat where "SECTOR_SIZE = 512"
definition IDE_BSY :: uchar where "IDE_BSY = 0x80"
definition IDE_DRDY :: uchar where "IDE_DRDY = 0x40"
definition IDE_DF :: uchar where "IDE_DF = 0x20"
definition IDE_ERR :: uchar where "IDE_ERR = 0x01"
definition IDE_CMD_READ :: uchar where "IDE_CMD_READ = 0x20"
definition IDE_CMD_WRITE :: uchar where "IDE_CMD_WRITE = 0x30"
definition IDE_CMD_RDMUL :: uchar where "IDE_CMD_RDMUL = 0xc4"
definition IDE_CMD_WRMUL :: uchar where "IDE_CMD_WRMUL = 0xc5"

record idestate = bstate +
  idequeue :: "nat list"
  havedisk1 :: bool
  ports :: "ushort \<Rightarrow> uchar"
  status :: "uchar list"
  out_data :: "uchar list"
  in_data :: "uchar list"

definition outb :: "ushort \<Rightarrow> uchar \<Rightarrow> 'a idestate_scheme \<Rightarrow> 'a idestate_scheme" where
  "outb p v s = s\<lparr>ports := (ports s)(p := v)\<rparr>"

section \<open>The driver\<close>

text \<open>The wait spins until the drive is ready; it never returns when the drive never is.\<close>

definition idewait :: "bool \<Rightarrow> 'a idestate_scheme \<Rightarrow> ('a idestate_scheme, int) res" where
  "idewait checkerr s =
     (case dropWhile (\<lambda>r. r AND (IDE_BSY OR IDE_DRDY) \<noteq> IDE_DRDY) (status s) of
        [] \<Rightarrow> NoReturn (s\<lparr>status := []\<rparr>)
      | r # rs \<Rightarrow> Ok (if checkerr \<and> r AND (IDE_DF OR IDE_ERR) \<noteq> 0 then - 1 else 0) (s\<lparr>status := rs\<rparr>))"

definition ideinit :: "'a idestate_scheme \<Rightarrow> ('a idestate_scheme, unit) res" where
  "ideinit s =
     bindR (idewait False s) (\<lambda>_ s.
     let s = outb 0x1f6 (0xe0 OR push_bit 4 1) s;
         zeros = length (takeWhile (\<lambda>r. r = 0) (take 1000 (status s)));
         s = (if zeros < length (take 1000 (status s)) then s\<lparr>havedisk1 := True, status := drop (zeros + 1) (status s)\<rparr>
              else s\<lparr>status := drop zeros (status s)\<rparr>)
     in Ok () (outb 0x1f6 (0xe0 OR push_bit 4 0) s))"

definition idestart :: "nat option \<Rightarrow> 'a idestate_scheme \<Rightarrow> ('a idestate_scheme, unit) res" where
  "idestart b s =
     (case b of
        None \<Rightarrow> Panic ''idestart''
      | Some b \<Rightarrow>
          if FSSIZE \<le> bblockno (bufs s b) then Panic ''incorrect blockno''
          else let n = BSIZE div SECTOR_SIZE;
                   sector = bblockno (bufs s b) * of_nat n;
                   read_cmd = (if n = 1 then IDE_CMD_READ else IDE_CMD_RDMUL);
                   write_cmd = (if n = 1 then IDE_CMD_WRITE else IDE_CMD_WRMUL)
               in if 7 < n then Panic ''idestart''
                  else bindR (idewait False s) (\<lambda>_ s.
                    let s = outb 0x3f6 0 s;
                        s = outb 0x1f2 (of_nat n) s;
                        s = outb 0x1f3 (ucast (sector AND 0xff)) s;
                        s = outb 0x1f4 (ucast (drop_bit 8 sector AND 0xff)) s;
                        s = outb 0x1f5 (ucast (drop_bit 16 sector AND 0xff)) s;
                        s = outb 0x1f6 (ucast (0xe0 OR push_bit 4 (bdev (bufs s b) AND 1) OR (drop_bit 24 sector AND 0x0f))) s
                    in if B_DIRTY (bufs s b)
                       then Ok () ((outb 0x1f7 write_cmd s)\<lparr>out_data := data (bufs s b)\<rparr>)
                       else Ok () (outb 0x1f7 read_cmd s)))"

definition ideintr :: "'a idestate_scheme \<Rightarrow> ('a idestate_scheme, unit) res" where
  "ideintr s =
     bindR (acquire_lk Lide s) (\<lambda>_ s.
       case idequeue s of
         [] \<Rightarrow> release_lk Lide s
       | b # q \<Rightarrow>
           let s = s\<lparr>idequeue := q\<rparr>
           in bindR (if \<not> B_DIRTY (bufs s b)
                     then bindR (idewait True s) (\<lambda>r s.
                          Ok () (if 0 \<le> r then (upd_buf b (\<lambda>u. u\<lparr>data := take BSIZE (in_data s)\<rparr>) s)\<lparr>in_data := drop BSIZE (in_data s)\<rparr>
                                 else s))
                     else Ok () s) (\<lambda>_ s.
              let s = upd_buf b (\<lambda>u. u\<lparr>B_VALID := True, B_DIRTY := False\<rparr>) s
              in bindR (wakeup (ChBuf b) s) (\<lambda>_ s.
                 bindR (if idequeue s \<noteq> [] then idestart (Some (hd (idequeue s))) s else Ok () s) (\<lambda>_ s.
                 release_lk Lide s))))"

text \<open>
  \<open>iderw\<close> up to the end of its wait: one turn of the loop, entered with the lock held, ends with a
  switch while the request is not done; \<open>iderw_resume\<close> goes on after the wakeup.
\<close>

definition iderw_loop :: "nat \<Rightarrow> 'a idestate_scheme \<Rightarrow> ('a idestate_scheme, unit) res" where
  "iderw_loop b s =
     (if \<not> (B_VALID (bufs s b) \<and> \<not> B_DIRTY (bufs s b)) then sleep (ChBuf b) Lide s else release_lk Lide s)"

definition iderw_queued :: "nat \<Rightarrow> 'a idestate_scheme \<Rightarrow> ('a idestate_scheme, unit) res" where
  "iderw_queued b s =
     bindR (holdingsleep (ChBufLock b) (blk_get b) s) (\<lambda>h s.
       if \<not> h then Panic ''iderw: buf not locked''
       else if B_VALID (bufs s b) \<and> \<not> B_DIRTY (bufs s b) then Panic ''iderw: nothing to do''
       else if bdev (bufs s b) \<noteq> 0 \<and> \<not> havedisk1 s then Panic ''iderw: ide disk 1 not present''
       else bindR (acquire_lk Lide s) (\<lambda>_ s.
         let s = s\<lparr>idequeue := idequeue s @ [b]\<rparr>
         in bindR (if hd (idequeue s) = b then idestart (Some b) s else Ok () s) (\<lambda>_ s. iderw_loop b s)))"

definition iderw_resume :: "nat \<Rightarrow> 'a idestate_scheme \<Rightarrow> ('a idestate_scheme, unit) res" where
  "iderw_resume b s = bindR (sleep_resume Lide s) (\<lambda>_ s. iderw_loop b s)"

section \<open>The drive\<close>

text \<open>
  The documented behaviour of an ATA drive: it takes sector number, drive and command from the
  registers, carries the command out, and shows that it is ready. Disk 1 is the disk of \<open>Bio\<close>.
\<close>

definition lba :: "(ushort \<Rightarrow> uchar) \<Rightarrow> uint" where
  "lba r = le32 (r 0x1f3) (r 0x1f4) (r 0x1f5) (r 0x1f6 AND 0x0f)"

definition drive :: "'a idestate_scheme \<Rightarrow> 'a idestate_scheme" where
  "drive s =
     (let n = lba (ports s); s' = s\<lparr>status := [IDE_DRDY, IDE_DRDY]\<rparr>
      in if \<not> bit (ports s 0x1f6) 4 then s
         else if ports s 0x1f7 = IDE_CMD_WRITE
         then s'\<lparr>disk := (disk s)(n := out_data s), dwrites := dwrites s @ [(n, out_data s)]\<rparr>
         else if ports s 0x1f7 = IDE_CMD_READ then s'\<lparr>in_data := disk s n\<rparr>
         else s)"

text \<open>The transfer that \<open>iderw\<close> of \<open>memide.c\<close> does at once.\<close>

definition transfer :: "nat \<Rightarrow> 'a bstate_scheme \<Rightarrow> 'a bstate_scheme" where
  "transfer b s =
     (let p = bblockno (bufs s b)
      in upd_buf b (\<lambda>u. u\<lparr>B_VALID := True\<rparr>)
           (if B_DIRTY (bufs s b)
            then (upd_buf b (\<lambda>u. u\<lparr>B_DIRTY := False\<rparr>) s)
                   \<lparr>disk := (disk s)(p := data (bufs s b)), dwrites := dwrites s @ [(p, data (bufs s b))]\<rparr>
            else upd_buf b (\<lambda>u. u\<lparr>data := disk s p\<rparr>) s))"

lemma iderw_transfer:
  assumes "cur s = Some p" "slocked (blk (bufs s b))" "spid (blk (bufs s b)) = pid (procs s p)" "held s = []"
    and "\<not> (B_VALID (bufs s b) \<and> \<not> B_DIRTY (bufs s b))" "bdev (bufs s b) = 1" "bblockno (bufs s b) < disksize s"
  shows "iderw b s = Ok () (transfer b s)"
  using assms by (simp add: iderw_def transfer_def bl.holdingsleep_eq [where p = p] blk_get_def Let_def not_le)

section \<open>Requests\<close>

text \<open>The registers ask for the request of buffer \<open>b\<close>.\<close>

definition asks_for :: "'a idestate_scheme \<Rightarrow> nat \<Rightarrow> bool" where
  "asks_for s b \<longleftrightarrow> lba (ports s) = bblockno (bufs s b) \<and> bit (ports s 0x1f6) 4 \<and>
     ports s 0x1f7 = (if B_DIRTY (bufs s b) then IDE_CMD_WRITE else IDE_CMD_READ) \<and>
     (B_DIRTY (bufs s b) \<longrightarrow> out_data s = data (bufs s b))"

definition ready :: "uchar list \<Rightarrow> bool" where
  "ready st \<longleftrightarrow> (\<exists>r \<in> set st. r AND (IDE_BSY OR IDE_DRDY) = IDE_DRDY)"

definition request_ok :: "'a idestate_scheme \<Rightarrow> nat \<Rightarrow> bool" where
  "request_ok s b \<longleftrightarrow> bdev (bufs s b) = 1 \<and> bblockno (bufs s b) < FSSIZE \<and> length (data (bufs s b)) = BSIZE \<and>
     \<not> (B_VALID (bufs s b) \<and> \<not> B_DIRTY (bufs s b))"

definition ide_ok :: "'a idestate_scheme \<Rightarrow> bool" where
  "ide_ok s \<longleftrightarrow> distinct (idequeue s) \<and> (\<forall>b \<in> set (idequeue s). request_ok s b) \<and>
     (idequeue s \<noteq> [] \<longrightarrow> asks_for s (hd (idequeue s))) \<and> (\<forall>n. length (disk s n) = BSIZE) \<and>
     (idequeue s = [] \<longrightarrow> ready (status s))"

lemma sector_bytes:
  fixes w :: uint
  assumes "w < FSSIZE"
  shows "le32 (ucast (w AND 0xff)) (ucast (drop_bit 8 w AND 0xff)) (ucast (drop_bit 16 w AND 0xff)) (ucast (drop_bit 24 w AND 0x0f) AND 0x0f) = w"
proof -
  have "w < 2 ^ 10" using assms by (simp add: FSSIZE_def word_less_nat_alt)
  then have hi: "\<not> bit w n" if "10 \<le> n" for n
    using that by (metis bit_take_bit_iff less_mask_eq not_less take_bit_eq_mask and.commute take_bit_word_eq_self)
  have lt: "n < 10" if "bit w n" for n using hi [of n] that by linarith
  have m: "(0xff :: uint) = mask 8" "(0x0f :: uint) = mask 4" "(0x0f :: uchar) = mask 4"
    by (simp_all add: mask_eq_exp_minus_1)
  show ?thesis
  proof (rule bit_word_eqI)
    fix n assume "n < LENGTH(32)"
    show "bit (le32 (ucast (w AND 0xff)) (ucast (drop_bit 8 w AND 0xff)) (ucast (drop_bit 16 w AND 0xff))
        (ucast (drop_bit 24 w AND 0x0f) AND 0x0f)) n = bit w n"
    proof (cases "n < 8")
      case True
      then show ?thesis by (auto simp: le32_def m bit_simps)
    next
      case False
      then have "8 + (n - 8) = n" "n < 10 \<Longrightarrow> n - 8 < 8" by simp_all
      then show ?thesis using False hi lt [of n] by (auto simp: le32_def m bit_simps)
    qed
  qed
qed

lemma idewait_ready:
  assumes "ready (status s)"
  shows "\<exists>st. idewait False s = Ok 0 (s\<lparr>status := st\<rparr>)"
proof -
  have "dropWhile (\<lambda>r. r AND (IDE_BSY OR IDE_DRDY) \<noteq> IDE_DRDY) (status s) \<noteq> []" using assms by (auto simp: ready_def)
  then show ?thesis by (auto simp: idewait_def split: list.splits)
qed

text \<open>Only the controller changes when a request is started.\<close>

lemma idestart_ok:
  fixes s :: "'a idestate_scheme"
  assumes "ready (status s)" "bdev (bufs s b) = 1" "bblockno (bufs s b) < FSSIZE"
  shows "\<exists>st r od. idestart (Some b) s = Ok () (s\<lparr>ports := r, status := st, out_data := od\<rparr>) \<and>
    asks_for (s\<lparr>ports := r, status := st, out_data := od\<rparr>) b"
proof -
  obtain st where st: "idewait False s = Ok 0 (s\<lparr>status := st\<rparr>)" using idewait_ready [OF assms(1)] by blast
  have n: "BSIZE div SECTOR_SIZE = 1" by (simp add: BSIZE_def SECTOR_SIZE_def)
  let ?w = "bblockno (bufs s b)"
  have m: "(0x0f :: uchar) = mask 4" "(0x0f :: uint) = mask 4" "(0xe0 :: uint) = push_bit 5 (mask 3)"
    "push_bit 4 (1 AND 1 :: uint) = push_bit 4 (mask 1)"
    by (simp_all add: mask_eq_exp_minus_1 push_bit_eq_mult)
  have h16: "bit (16 :: uint) k \<longleftrightarrow> k = 4" "bit (16 :: int) k \<longleftrightarrow> k = 4" for k
    using bit_exp_iff [where 'a = uint, of 4 k] bit_exp_iff [where 'a = int, of 4 k] by (auto simp: possible_bit_def)
  have low: "(ucast (0xe0 OR push_bit 4 (1 AND 1) OR (drop_bit 24 ?w AND 0x0f)) :: uchar) AND 0x0f =
      ucast (drop_bit 24 ?w AND 0x0f) AND 0x0f"
    unfolding m by (auto simp: bit_simps h16 intro!: bit_word_eqI)
  have drv: "bit (ucast (0xe0 OR push_bit 4 (1 AND 1) OR (drop_bit 24 ?w AND 0x0f) :: uint) :: uchar) 4"
    unfolding m by (simp add: bit_simps h16)
  have sec: "le32 (ucast (?w AND 0xff)) (ucast (drop_bit 8 ?w AND 0xff)) (ucast (drop_bit 16 ?w AND 0xff))
      ((ucast (0xe0 OR push_bit 4 (1 AND 1) OR (drop_bit 24 ?w AND 0x0f)) :: uchar) AND 0x0f) = ?w"
    unfolding low by (rule sector_bytes [OF assms(3)])
  let ?r = "(ports s)(0x3f6 := 0, 0x1f2 := of_nat 1, 0x1f3 := ucast (?w AND 0xff), 0x1f4 := ucast (drop_bit 8 ?w AND 0xff),
    0x1f5 := ucast (drop_bit 16 ?w AND 0xff), 0x1f6 := ucast (0xe0 OR push_bit 4 (1 AND 1) OR (drop_bit 24 ?w AND 0x0f)),
    0x1f7 := (if B_DIRTY (bufs s b) then IDE_CMD_WRITE else IDE_CMD_READ))"
  let ?od = "if B_DIRTY (bufs s b) then data (bufs s b) else out_data s"
  have "idestart (Some b) s = Ok () (s\<lparr>ports := ?r, status := st, out_data := ?od\<rparr>)"
    using assms(2,3) by (simp add: idestart_def n st outb_def not_le Let_def)
  moreover have "asks_for (s\<lparr>ports := ?r, status := st, out_data := ?od\<rparr>) b"
    using sec drv by (simp add: asks_for_def lba_def)
  ultimately show ?thesis by blast
qed

lemma ready_DRDY [simp]: "ready (IDE_DRDY # st)"
  by (simp add: ready_def IDE_BSY_def IDE_DRDY_def)

text \<open>The end of \<open>ideintr\<close>: the next request is started.\<close>

lemma start_next:
  fixes u :: "'a idestate_scheme"
  assumes "held u = [Lide]" "ready (status u)" "\<forall>b \<in> set (idequeue u). request_ok u b"
  shows "\<exists>st r od. bindR (if idequeue u \<noteq> [] then idestart (Some (hd (idequeue u))) u else Ok () u) (\<lambda>_ s. release_lk Lide s) =
      Ok () (u\<lparr>held := [], ports := r, status := st, out_data := od\<rparr>) \<and>
    (idequeue u \<noteq> [] \<longrightarrow> asks_for (u\<lparr>held := [], ports := r, status := st, out_data := od\<rparr>) (hd (idequeue u))) \<and>
    (idequeue u = [] \<longrightarrow> st = status u)"
proof (cases "idequeue u = []")
  case True
  let ?v = "u\<lparr>held := [], ports := ports u, status := status u, out_data := out_data u\<rparr>"
  have v: "?v = u\<lparr>held := []\<rparr>" by simp
  have "release_lk Lide u = Ok () ?v" unfolding v using assms(1) by (simp add: release_lk_def)
  then have "bindR (if idequeue u \<noteq> [] then idestart (Some (hd (idequeue u))) u else Ok () u) (\<lambda>_ s. release_lk Lide s) = Ok () ?v"
    using True by (simp only: not_True_eq_False simp_thms if_False bindR.simps)
  with True show ?thesis by blast
next
  case False
  then have "bdev (bufs u (hd (idequeue u))) = 1" "bblockno (bufs u (hd (idequeue u))) < FSSIZE"
    using assms(3) by (simp_all add: request_ok_def)
  from idestart_ok [OF assms(2) this] obtain st r od where i: "idestart (Some (hd (idequeue u))) u = Ok () (u\<lparr>ports := r, status := st, out_data := od\<rparr>)"
    "asks_for (u\<lparr>ports := r, status := st, out_data := od\<rparr>) (hd (idequeue u))"
    by (elim exE conjE) (rule that)
  let ?v = "u\<lparr>held := [], ports := r, status := st, out_data := od\<rparr>"
  have "release_lk Lide (u\<lparr>ports := r, status := st, out_data := od\<rparr>) = Ok () ?v"
    using assms(1) by (simp add: release_lk_def)
  moreover have "asks_for ?v (hd (idequeue u))" using i(2) by (simp add: asks_for_def)
  ultimately have "bindR (if idequeue u \<noteq> [] then idestart (Some (hd (idequeue u))) u else Ok () u) (\<lambda>_ s. release_lk Lide s) = Ok () ?v"
    unfolding if_P [OF False] i(1) bindR.simps by simp
  with \<open>asks_for ?v _\<close> False show ?thesis
    by (intro exI [of _ st] exI [of _ r] exI [of _ od] conjI impI) simp_all
qed

lemma upd_buf_ide [simp]:
  "idequeue (upd_buf b f s) = idequeue s" "status (upd_buf b f s) = status s" "in_data (upd_buf b f s) = in_data s"
  "havedisk1 (upd_buf b f s) = havedisk1 s" "dwrites (upd_buf b f s) = dwrites s"
  by (simp_all add: upd_buf_def)

lemma wakeup1_ide [simp]:
  "idequeue (wakeup1 ch s) = idequeue s" "status (wakeup1 ch s) = status s" "havedisk1 (wakeup1 ch s) = havedisk1 s"
  by (simp_all add: wakeup1_def)

text \<open>\<open>ideintr\<close> after the data was read.\<close>

lemma intr_rest:
  fixes v :: "'a idestate_scheme"
  assumes "held v = [Lide]" "idequeue v = bs" "ready (status v)" "\<forall>c \<in> set bs. request_ok v c" "b \<notin> set bs"
  defines "w \<equiv> upd_buf b (\<lambda>u. u\<lparr>B_VALID := True, B_DIRTY := False\<rparr>) v"
  shows "\<exists>t. bindR (wakeup (ChBuf b) w) (\<lambda>_ s.
      bindR (if idequeue s \<noteq> [] then idestart (Some (hd (idequeue s))) s else Ok () s) (\<lambda>_ s. release_lk Lide s)) = Ok () t \<and>
    held t = [] \<and> idequeue t = bs \<and> bufs t = bufs w \<and> disk t = disk v \<and> dwrites t = dwrites v \<and>
    procs t = procs (wakeup1 (ChBuf b) v) \<and> cur t = cur v \<and> havedisk1 t = havedisk1 v \<and>
    (bs \<noteq> [] \<longrightarrow> asks_for t (hd bs)) \<and> (bs = [] \<longrightarrow> ready (status t))"
proof -
  let ?u = "wakeup1 (ChBuf b) w"
  have u: "held ?u = [Lide]" "ready (status ?u)" "idequeue ?u = bs" "wakeup (ChBuf b) w = Ok () ?u"
    using assms by simp_all
  have "\<forall>c \<in> set (idequeue ?u). request_ok ?u c"
    using assms(4,5) u(3) by (auto simp: request_ok_def w_def)
  from start_next [OF u(1,2) this] obtain st r od where
    t: "bindR (if idequeue ?u \<noteq> [] then idestart (Some (hd (idequeue ?u))) ?u else Ok () ?u) (\<lambda>_ s. release_lk Lide s) =
      Ok () (?u\<lparr>held := [], ports := r, status := st, out_data := od\<rparr>)"
    "idequeue ?u \<noteq> [] \<longrightarrow> asks_for (?u\<lparr>held := [], ports := r, status := st, out_data := od\<rparr>) (hd (idequeue ?u))"
    "idequeue ?u = [] \<longrightarrow> st = status ?u" by blast
  have p: "procs ?u = procs (wakeup1 (ChBuf b) v)" by (rule ext) (simp add: procs_wakeup1 w_def)
  show ?thesis
    using t u p assms(3) unfolding u(4) bindR.simps
    by (intro exI [of _ "?u\<lparr>held := [], ports := r, status := st, out_data := od\<rparr>"]) (simp add: w_def)
qed

lemma serve_one:
  fixes s :: "'a idestate_scheme"
  assumes ok: "ide_ok s" and h: "held s = []" and q: "idequeue s = b # bs"
  shows "\<exists>t. ideintr (drive s) = Ok () t \<and> ide_ok t \<and> idequeue t = bs \<and> held t = [] \<and> cur t = cur s \<and>
    havedisk1 t = havedisk1 s \<and> bufs t = bufs (transfer b s) \<and> disk t = disk (transfer b s) \<and>
    dwrites t = dwrites (transfer b s) \<and> procs t = procs (wakeup1 (ChBuf b) s)"
proof -
  have r: "request_ok s b" "asks_for s b" "\<forall>c \<in> set bs. request_ok s c" "b \<notin> set bs" "distinct bs"
    "length (disk s n) = BSIZE" for n
    using ok q by (auto simp: ide_ok_def)
  let ?n = "bblockno (bufs s b)"
  have d: "drive s = (if B_DIRTY (bufs s b)
      then s\<lparr>status := [IDE_DRDY, IDE_DRDY], disk := (disk s)(?n := data (bufs s b)), dwrites := dwrites s @ [(?n, data (bufs s b))]\<rparr>
      else s\<lparr>status := [IDE_DRDY, IDE_DRDY], in_data := disk s ?n\<rparr>)"
    using r(2) by (auto simp: drive_def asks_for_def Let_def IDE_CMD_READ_def IDE_CMD_WRITE_def)
  let ?e = "(drive s)\<lparr>held := [Lide], idequeue := bs\<rparr>"
  let ?v = "if B_DIRTY (bufs s b) then ?e
    else (upd_buf b (\<lambda>u. u\<lparr>data := disk s ?n\<rparr>) (?e\<lparr>status := [IDE_DRDY]\<rparr>))\<lparr>in_data := []\<rparr>"
  have D: "held (drive s) = []" "idequeue (drive s) = b # bs" "bufs (drive s) = bufs s" using h q by (simp_all add: d)
  have E: "ideintr (drive s) = bindR (wakeup (ChBuf b) (upd_buf b (\<lambda>u. u\<lparr>B_VALID := True, B_DIRTY := False\<rparr>) ?v)) (\<lambda>_ s.
      bindR (if idequeue s \<noteq> [] then idestart (Some (hd (idequeue s))) s else Ok () s) (\<lambda>_ s. release_lk Lide s))"
  proof (cases "B_DIRTY (bufs s b)")
    case True
    then show ?thesis using D by (simp add: ideintr_def)
  next
    case False
    have "idewait True ?e = Ok 0 (?e\<lparr>status := [IDE_DRDY]\<rparr>)"
      using False by (simp add: idewait_def d IDE_BSY_def IDE_DRDY_def IDE_DF_def IDE_ERR_def)
    moreover have "in_data (drive s) = disk s ?n" using False by (simp add: d)
    ultimately show ?thesis using False D r(6) by (simp add: ideintr_def)
  qed
  have V: "held ?v = [Lide]" "idequeue ?v = bs" "ready (status ?v)" "\<forall>c \<in> set bs. request_ok ?v c"
    using D r(3,4) by (auto simp: d request_ok_def)
  obtain t where t: "ideintr (drive s) = Ok () t" "held t = []" "idequeue t = bs"
    "bufs t = bufs (upd_buf b (\<lambda>u. u\<lparr>B_VALID := True, B_DIRTY := False\<rparr>) ?v)" "disk t = disk ?v" "dwrites t = dwrites ?v"
    "procs t = procs (wakeup1 (ChBuf b) ?v)" "cur t = cur ?v" "havedisk1 t = havedisk1 ?v"
    "bs \<noteq> [] \<longrightarrow> asks_for t (hd bs)" "bs = [] \<longrightarrow> ready (status t)"
    using intr_rest [OF V r(4), folded E] by (elim exE conjE) (rule that)
  have eff: "bufs t = bufs (transfer b s)" "disk t = disk (transfer b s)" "dwrites t = dwrites (transfer b s)"
    using t(4-6) by (auto simp: d transfer_def Let_def fun_eq_iff)
  have "bufs t c = bufs s c" if "c \<in> set bs" for c
    using that r(4) t(4) by (auto simp: d)
  moreover have "length (disk t n) = BSIZE" for n
    using r(1,6) t(5) by (simp add: d request_ok_def)
  ultimately have "ide_ok t" using t(3,10,11) r(3,5) by (auto simp: ide_ok_def request_ok_def)
  moreover have "procs t = procs (wakeup1 (ChBuf b) s)" "cur t = cur s" "havedisk1 t = havedisk1 s"
    using t(7-9) by (auto simp: d procs_wakeup1 fun_eq_iff)
  ultimately show ?thesis using t(1-3) eff by blast
qed

section \<open>The queue\<close>

text \<open>The drive finishes a request and interrupts, \<open>n\<close> times.\<close>

fun serve :: "nat \<Rightarrow> 'a idestate_scheme \<Rightarrow> ('a idestate_scheme, unit) res" where
  "serve 0 s = Ok () s"
| "serve (Suc n) s = bindR (ideintr (drive s)) (\<lambda>_ s. serve n s)"

definition same_data :: "'a bstate_scheme \<Rightarrow> 'a bstate_scheme \<Rightarrow> bool" where
  "same_data s t \<longleftrightarrow> bufs s = bufs t \<and> disk s = disk t \<and> dwrites s = dwrites t"

lemma same_data_transfer: "same_data s t \<Longrightarrow> same_data (transfer b s) (transfer b t)"
  by (simp add: same_data_def transfer_def Let_def)

lemma same_data_fold: "same_data s t \<Longrightarrow> same_data (fold transfer bs s) (fold transfer bs t)"
  by (induction bs arbitrary: s t) (simp_all add: same_data_transfer)

lemma same_data_trans: "same_data s t \<Longrightarrow> same_data t u \<Longrightarrow> same_data s u"
  by (simp add: same_data_def)

lemma transfer_done: "B_VALID (bufs (transfer b s) b) \<and> \<not> B_DIRTY (bufs (transfer b s) b)"
  by (simp add: transfer_def Let_def)

lemma transfer_bufs_other: "c \<noteq> b \<Longrightarrow> bufs (transfer b s) c = bufs s c"
  by (simp add: transfer_def Let_def)

lemma fold_transfer_done: "b \<in> set bs \<Longrightarrow> distinct bs \<Longrightarrow>
    B_VALID (bufs (fold transfer bs s) b) \<and> \<not> B_DIRTY (bufs (fold transfer bs s) b)"
proof -
  have other: "bufs (fold transfer cs t) b = bufs t b" if "b \<notin> set cs" for cs and t :: "'a bstate_scheme"
    using that by (induction cs arbitrary: t) (simp_all add: transfer_bufs_other)
  show "b \<in> set bs \<Longrightarrow> distinct bs \<Longrightarrow> ?thesis"
    by (induction bs arbitrary: s) (auto simp: other transfer_done)
qed

lemma state_wake_back: "state (wake ch q) = SLEEPING \<Longrightarrow> state q = SLEEPING" "chan (wake ch q) = chan q"
  "pid (wake ch q) = pid q"
  by (auto simp: wake_def split: if_splits)

lemma serve_all:
  fixes s :: "'a idestate_scheme"
  assumes "ide_ok s" "held s = []"
  shows "\<exists>t. serve (length (idequeue s)) s = Ok () t \<and> ide_ok t \<and> idequeue t = [] \<and> held t = [] \<and> cur t = cur s \<and>
    same_data t (fold transfer (idequeue s) s) \<and>
    (\<forall>p < NPROC. chan (procs t p) = chan (procs s p) \<and> (state (procs t p) = SLEEPING \<longrightarrow> state (procs s p) = SLEEPING) \<and>
       (\<forall>b \<in> set (idequeue s). chan (procs s p) = Some (ChBuf b) \<longrightarrow> state (procs t p) \<noteq> SLEEPING))"
  using assms
proof (induction "idequeue s" arbitrary: s)
  case Nil
  then show ?case by (intro exI [of _ s]) (simp add: same_data_def)
next
  case (Cons b bs)
  obtain s1 where s1: "ideintr (drive s) = Ok () s1" "ide_ok s1" "idequeue s1 = bs" "held s1 = []" "cur s1 = cur s"
    "same_data s1 (transfer b s)" "procs s1 = procs (wakeup1 (ChBuf b) s)"
    using serve_one [OF Cons.prems Cons.hyps(2) [symmetric]] by (auto simp: same_data_def)
  obtain t where t: "serve (length bs) s1 = Ok () t" "ide_ok t" "idequeue t = []" "held t = []" "cur t = cur s1"
    "same_data t (fold transfer bs s1)" and
    p: "\<forall>p < NPROC. chan (procs t p) = chan (procs s1 p) \<and> (state (procs t p) = SLEEPING \<longrightarrow> state (procs s1 p) = SLEEPING) \<and>
       (\<forall>b \<in> set bs. chan (procs s1 p) = Some (ChBuf b) \<longrightarrow> state (procs t p) \<noteq> SLEEPING)"
    using Cons.hyps(1) [OF s1(3) [symmetric] s1(2,4)] unfolding s1(3) by blast
  have q: "idequeue s = b # bs" using Cons.hyps(2) by simp
  have "serve (length (idequeue s)) s = Ok () t" using t(1) s1(1) by (simp add: q)
  moreover have "same_data t (fold transfer (idequeue s) s)"
    using same_data_trans [OF t(6) same_data_fold [OF s1(6)]] by (simp add: q)
  moreover have "chan (procs t p) = chan (procs s p) \<and> (state (procs t p) = SLEEPING \<longrightarrow> state (procs s p) = SLEEPING) \<and>
       (\<forall>b \<in> set (idequeue s). chan (procs s p) = Some (ChBuf b) \<longrightarrow> state (procs t p) \<noteq> SLEEPING)" if "p < NPROC" for p
  proof -
    have w: "procs s1 p = wake (ChBuf b) (procs s p)" using that s1(7) by (simp add: procs_wakeup1)
    have "chan (procs s p) = Some (ChBuf b) \<Longrightarrow> state (procs s1 p) \<noteq> SLEEPING" by (auto simp: w wake_def)
    then show ?thesis using that p w state_wake_back by (auto simp: q)
  qed
  ultimately show ?case using t(2-5) s1(5) by (intro exI [of _ t]) simp
qed

text \<open>A request is put behind the others and its process sleeps.\<close>

lemma iderw_queues:
  fixes s :: "'a idestate_scheme"
  assumes ok: "ide_ok s" and p: "cur s = Some p" "held s = []" and d: "havedisk1 s"
    and b: "b \<notin> set (idequeue s)" "request_ok s b" "slocked (blk (bufs s b))" "spid (blk (bufs s b)) = pid (procs s p)"
  shows "\<exists>r st od s1. s1 = s\<lparr>idequeue := idequeue s @ [b], ports := r, status := st, out_data := od\<rparr> \<and> ide_ok s1 \<and>
    iderw_queued b s = Swtch (upd_proc p (\<lambda>q. q\<lparr>chan := Some (ChBuf b), state := SLEEPING, ctx := AfterSched\<rparr>) (s1\<lparr>held := [Lptable]\<rparr>))"
proof -
  let ?q = "idequeue s @ [b]" and ?s0 = "s\<lparr>held := [Lide], idequeue := idequeue s @ [b]\<rparr>"
  let ?f = "\<lambda>r st od. s\<lparr>idequeue := ?q, ports := r, status := st, out_data := od\<rparr>"
  have ok1: "ide_ok (?f r st od)" if "asks_for (?f r st od) (hd ?q)" for r st od
    using ok b(1,2) that by (auto simp: ide_ok_def request_ok_def)
  have "\<exists>r st od. (if hd ?q = b then idestart (Some b) ?s0 else Ok () ?s0) = Ok () ((?f r st od)\<lparr>held := [Lide]\<rparr>) \<and>
    asks_for (?f r st od) (hd ?q)"
  proof (cases "idequeue s = []")
    case True
    have b': "ready (status ?s0)" "bdev (bufs ?s0 b) = 1" "bblockno (bufs ?s0 b) < FSSIZE"
      using ok True b(2) by (simp_all add: ide_ok_def request_ok_def)
    from idestart_ok [OF b'] obtain st r od where i: "idestart (Some b) ?s0 = Ok () (?s0\<lparr>ports := r, status := st, out_data := od\<rparr>)"
      "asks_for (?s0\<lparr>ports := r, status := st, out_data := od\<rparr>) b"
      by (elim exE conjE) (rule that)
    have e: "?s0\<lparr>ports := r, status := st, out_data := od\<rparr> = (?f r st od)\<lparr>held := [Lide]\<rparr>" by simp
    have hq: "hd ?q = b" using True by simp
    have 1: "(if hd ?q = b then idestart (Some b) ?s0 else Ok () ?s0) = Ok () ((?f r st od)\<lparr>held := [Lide]\<rparr>)"
      unfolding if_P [OF hq] i(1) e ..
    have 2: "asks_for (?f r st od) (hd ?q)" unfolding hq using i(2) by (simp add: asks_for_def)
    show ?thesis by (rule exI [of _ r], rule exI [of _ st], rule exI [of _ od], rule conjI [OF 1 2])
  next
    case False
    then have ne: "hd ?q \<noteq> b" "hd ?q = hd (idequeue s)" using b(1) by (cases "idequeue s"; auto)+
    have e: "?s0 = (?f (ports s) (status s) (out_data s))\<lparr>held := [Lide]\<rparr>" by simp
    have 1: "(if hd ?q = b then idestart (Some b) ?s0 else Ok () ?s0) =
        Ok () ((?f (ports s) (status s) (out_data s))\<lparr>held := [Lide]\<rparr>)"
      unfolding if_not_P [OF ne(1)] by (rule arg_cong [OF e])
    have 2: "asks_for (?f (ports s) (status s) (out_data s)) (hd ?q)"
      using ok False ne(2) by (simp add: ide_ok_def asks_for_def)
    show ?thesis by (rule exI [of _ "ports s"], rule exI [of _ "status s"], rule exI [of _ "out_data s"], rule conjI [OF 1 2])
  qed
  then obtain r st od where i: "(if hd ?q = b then idestart (Some b) ?s0 else Ok () ?s0) = Ok () ((?f r st od)\<lparr>held := [Lide]\<rparr>)"
    "asks_for (?f r st od) (hd ?q)" by (elim exE conjE) (rule that)
  let ?s1 = "?f r st od"
  have h: "holdingsleep (ChBufLock b) (blk_get b) s = Ok True s"
    using bl.holdingsleep_eq [of s p b] p b(3,4) by (simp add: blk_get_def)
  have nd: "\<not> (B_VALID (bufs s b) \<and> \<not> B_DIRTY (bufs s b))" using b(2) by (simp add: request_ok_def)
  have "iderw_loop b (?s1\<lparr>held := [Lide]\<rparr>) = sleep (ChBuf b) Lide (?s1\<lparr>held := [Lide]\<rparr>)"
    using nd by (simp add: iderw_loop_def)
  also have "\<dots> = Swtch (upd_proc p (\<lambda>q. q\<lparr>chan := Some (ChBuf b), state := SLEEPING, ctx := AfterSched\<rparr>)
      ((?s1\<lparr>held := [Lide]\<rparr>)\<lparr>held := [Lptable]\<rparr>))"
    using p by (intro sleep_Swtch) simp_all
  finally have l: "iderw_loop b (?s1\<lparr>held := [Lide]\<rparr>) =
      Swtch (upd_proc p (\<lambda>q. q\<lparr>chan := Some (ChBuf b), state := SLEEPING, ctx := AfterSched\<rparr>) (?s1\<lparr>held := [Lptable]\<rparr>))"
    by simp
  have "iderw_queued b s = bindR (if hd ?q = b then idestart (Some b) ?s0 else Ok () ?s0) (\<lambda>_ s. iderw_loop b s)"
    using h d p(2) by (simp only: iderw_queued_def bindR.simps simp_thms if_not_P [OF nd] if_False Let_def) simp
  then have "iderw_queued b s = Swtch (upd_proc p (\<lambda>q. q\<lparr>chan := Some (ChBuf b), state := SLEEPING, ctx := AfterSched\<rparr>) (?s1\<lparr>held := [Lptable]\<rparr>))"
    unfolding i(1) bindR.simps l .
  moreover have "ide_ok ?s1" by (rule ok1 [OF i(2)])
  ultimately show ?thesis by (intro exI [of _ r] exI [of _ st] exI [of _ od] exI [of _ ?s1] conjI refl)
qed


section \<open>Property\<close>

text \<open>
  (C6) The interrupt-driven driver does what the memory disk does: \<open>iderw\<close> called for a locked buffer puts
  the request behind the others and sleeps; after the drive has interrupted once for every request in the
  queue, the queue is empty, the process is runnable, and when it runs again \<open>iderw\<close> returns with buffers
  and disk as after the transfers of all requests in the order of the queue, the buffer's own last.
  When the queue was empty these are the buffers and the disk that \<open>iderw\<close> of \<open>memide.c\<close> leaves.
\<close>

theorem ide_refines_memide:
  fixes s :: "'a idestate_scheme"
  assumes "ide_ok s" and "cur s = Some p" and "held s = []" and "p < NPROC" and "havedisk1 s"
    and "b \<notin> set (idequeue s)" and "request_ok s b" and "slocked (blk (bufs s b))" and "spid (blk (bufs s b)) = pid (procs s p)"
  shows "\<exists>s1 t u. iderw_queued b s = Swtch s1 \<and> state (procs s1 p) = SLEEPING \<and>
    serve (Suc (length (idequeue s))) (s1\<lparr>held := []\<rparr>) = Ok () t \<and> idequeue t = [] \<and> state (procs t p) \<noteq> SLEEPING \<and>
    iderw_resume b (t\<lparr>cur := Some p, held := [Lptable]\<rparr>) = Ok () u \<and> held u = [] \<and> ide_ok u \<and>
    same_data u (fold transfer (idequeue s @ [b]) s) \<and>
    (idequeue s = [] \<and> bblockno (bufs s b) < disksize s \<longrightarrow> (\<exists>m. iderw b s = Ok () m \<and> same_data u m))"
proof -
  let ?q = "idequeue s @ [b]"
  obtain r st od s0 where s0: "s0 = s\<lparr>idequeue := ?q, ports := r, status := st, out_data := od\<rparr>" "ide_ok s0"
    "iderw_queued b s = Swtch (upd_proc p (\<lambda>q. q\<lparr>chan := Some (ChBuf b), state := SLEEPING, ctx := AfterSched\<rparr>) (s0\<lparr>held := [Lptable]\<rparr>))"
    using iderw_queues [OF assms(1-3,5-9)] by (elim exE conjE) (rule that)
  let ?s1 = "upd_proc p (\<lambda>q. q\<lparr>chan := Some (ChBuf b), state := SLEEPING, ctx := AfterSched\<rparr>) (s0\<lparr>held := [Lptable]\<rparr>)"
  let ?e = "?s1\<lparr>held := []\<rparr>"
  have sel: "idequeue ?e = ?q" "bufs ?e = bufs s" "disk ?e = disk s" "dwrites ?e = dwrites s" "status ?e = status s0"
    "ports ?e = ports s0" "out_data ?e = out_data s0" "idequeue s0 = ?q" "bufs s0 = bufs s" "disk s0 = disk s"
    by (simp_all add: s0(1) upd_proc_def)
  have e: "ide_ok ?e" using s0(2) by (simp add: ide_ok_def request_ok_def asks_for_def sel)
  have he: "held ?e = []" by simp
  obtain t where t: "serve (length (idequeue ?e)) ?e = Ok () t" "ide_ok t" "idequeue t = []" "held t = []"
    "same_data t (fold transfer (idequeue ?e) ?e)" and
    w: "\<forall>p < NPROC. chan (procs t p) = chan (procs ?e p) \<and> (state (procs t p) = SLEEPING \<longrightarrow> state (procs ?e p) = SLEEPING) \<and>
       (\<forall>b \<in> set (idequeue ?e). chan (procs ?e p) = Some (ChBuf b) \<longrightarrow> state (procs t p) \<noteq> SLEEPING)"
    using serve_all [OF e he] by (elim exE conjE) (rule that)
  have awake: "state (procs t p) \<noteq> SLEEPING" using w assms(4) sel(1) by (simp add: upd_proc_def)
  have "same_data ?e s" using sel by (simp add: same_data_def)
  then have data: "same_data t (fold transfer ?q s)"
    using same_data_trans [OF t(5) same_data_fold] sel(1) by simp
  have "distinct ?q" using assms(1,6) by (simp add: ide_ok_def)
  then have valid: "B_VALID (bufs t b) \<and> \<not> B_DIRTY (bufs t b)"
    using fold_transfer_done [of b ?q s] data by (simp add: same_data_def)
  let ?u = "upd_proc p (\<lambda>q. q\<lparr>chan := None\<rparr>) (t\<lparr>cur := Some p, held := []\<rparr>)"
  have res: "iderw_resume b (t\<lparr>cur := Some p, held := [Lptable]\<rparr>) = Ok () ?u"
    using valid by (simp add: iderw_resume_def sleep_resume_def iderw_loop_def release_lk_def upd_proc_def)
  have u: "ide_ok ?u" "same_data ?u t" "held ?u = []"
    using t(2) by (simp_all add: ide_ok_def request_ok_def asks_for_def same_data_def upd_proc_def)
  have "\<exists>m. iderw b s = Ok () m \<and> same_data ?u m" if "idequeue s = []" "bblockno (bufs s b) < disksize s"
  proof -
    have "iderw b s = Ok () (transfer b s)"
      using assms(7) by (intro iderw_transfer [OF assms(2,8,9,3) _ _ that(2)]) (simp_all add: request_ok_def)
    moreover have "same_data ?u (transfer b s)" using same_data_trans [OF u(2) data] that(1) by simp
    ultimately show ?thesis by blast
  qed
  then show ?thesis
    using s0(3) t(1,3) awake res u same_data_trans [OF u(2) data] sel(1)
    by (intro exI [of _ ?s1] exI [of _ t] exI [of _ ?u]) simp
qed

text \<open>A drive that is ready, and a process that holds buffer 0 with new contents for block 5.\<close>

definition ex_ide :: idestate where
  "ex_ide = bstate.extend (ex_bstate\<lparr>bufs := (\<lambda>_. ex_buf)(0 := ex_buf\<lparr>B_VALID := True, B_DIRTY := True, bdev := 1, bblockno := 5,
      blk := \<lparr>slocked = True, spid = 0\<rparr>, data := replicate 512 7\<rparr>)\<rparr>)
     (idestate.fields [] True (\<lambda>_. 0) [IDE_DRDY] [] [])"

theorem ide_refines_memide_witness:
  "\<exists>s1 t u m. iderw_queued 0 ex_ide = Swtch s1 \<and> serve 1 (s1\<lparr>held := []\<rparr>) = Ok () t \<and>
     iderw_resume 0 (t\<lparr>cur := Some 3, held := [Lptable]\<rparr>) = Ok () u \<and> iderw 0 ex_ide = Ok () m \<and> same_data u m"
proof -
  have sel: "idequeue ex_ide = []" "havedisk1 ex_ide" "status ex_ide = [IDE_DRDY]" "cur ex_ide = Some 3" "held ex_ide = []"
    "bufs ex_ide 0 = ex_buf\<lparr>B_VALID := True, B_DIRTY := True, bdev := 1, bblockno := 5,
      blk := \<lparr>slocked = True, spid = 0\<rparr>, data := replicate 512 7\<rparr>" "disk ex_ide = (\<lambda>_. replicate 512 0)"
    "disksize ex_ide = 1000" "procs ex_ide = (\<lambda>_. zero_proc)"
    by (simp_all add: ex_ide_def ex_bstate_def bstate.extend_def idestate.fields_def)
  have "ide_ok ex_ide" "request_ok ex_ide 0"
    by (simp_all add: ide_ok_def request_ok_def sel BSIZE_def FSSIZE_def)
  then show ?thesis using ide_refines_memide [of ex_ide 3 0] by (auto simp: sel NPROC_def zero_proc_def)
qed

text \<open>
  When the drive reports an error for a read, the handler skips the data but marks the buffer valid all the same,
  so the reader takes what the buffer held before for the contents of the block.
\<close>

lemma read_error_unnoticed:
  assumes "held s = []" "idequeue s = [b]" "status s = [IDE_DRDY OR IDE_ERR]" "\<not> B_DIRTY (bufs s b)"
  shows "\<exists>t. ideintr s = Ok () t \<and> bufs t b = (bufs s b)\<lparr>B_VALID := True\<rparr>"
proof -
  have "idewait True (s\<lparr>held := [Lide], idequeue := []\<rparr>) = Ok (- 1) (s\<lparr>held := [Lide], idequeue := [], status := []\<rparr>)"
    using assms(3) by (simp add: idewait_def IDE_BSY_def IDE_DRDY_def IDE_DF_def IDE_ERR_def)
  then show ?thesis using assms by (simp add: ideintr_def Let_def release_lk_def)
qed

end
