(* ===== verification/Umalloc.thy ===== *)
theory Umalloc
  imports Cstring "HOL-Library.Disjoint_Sets"
begin

text \<open>
  The memory allocator of user programs, \<open>umalloc.c\<close>: a circular list of free blocks in the memory of
  the process, in the order of their addresses and starting at the static header \<open>base\<close>. A block is a
  header of 8 bytes (\<open>ptr\<close>, \<open>size\<close>) and the bytes after it; sizes are counted in headers. Pointers are
  addresses, so that the arithmetic and the comparisons of the code wrap as they do in C; a loop that
  follows the list without end is \<open>None\<close>. The heap is shown to be cut into free and allocated blocks
  at every moment, without a byte lost, whatever the program allocates and frees.
\<close>

section \<open>The code\<close>

text \<open>
  \<open>ubytes\<close> is the memory of the process and \<open>brk\<close> its size, which \<open>sbrk\<close> changes. \<open>base\<close> is the address
  the linker gives to the static header, an argument \<open>bs\<close> of what uses it.
\<close>

record uheap =
  ubytes :: memory
  freep :: uint
  brk :: uint

definition hptr :: "memory \<Rightarrow> uint \<Rightarrow> uint" where "hptr m p = load32 m p"
definition hsize :: "memory \<Rightarrow> uint \<Rightarrow> uint" where "hsize m p = load32 m (p + 4)"

definition set_ptr :: "uint \<Rightarrow> uint \<Rightarrow> uheap \<Rightarrow> uheap" where
  "set_ptr p q s = s\<lparr>ubytes := store32 p q (ubytes s)\<rparr>"

definition set_size :: "uint \<Rightarrow> uint \<Rightarrow> uheap \<Rightarrow> uheap" where
  "set_size p n s = s\<lparr>ubytes := store32 (p + 4) n (ubytes s)\<rparr>"

text \<open>\<open>p + n\<close> for a pointer to headers.\<close>

definition hadd :: "uint \<Rightarrow> uint \<Rightarrow> uint" where "hadd p n = p + 8 * n"

partial_function (option) free_find :: "memory \<Rightarrow> uint \<Rightarrow> uint \<Rightarrow> uint option" where
  "free_find m bp p =
     (if p < bp \<and> bp < hptr m p then Some p
      else if hptr m p \<le> p \<and> (p < bp \<or> bp < hptr m p) then Some p
      else free_find m bp (hptr m p))"

text \<open>
  \<open>free\<close> joins the block \<open>bp\<close> with its right neighbour \<open>q\<close>, or points it there; then it joins the left
  neighbour \<open>p\<close> with \<open>bp\<close>, or points it there.
\<close>

definition free_upper :: "uint \<Rightarrow> uint \<Rightarrow> uheap \<Rightarrow> uheap" where
  "free_upper bp q s =
     (if hadd bp (hsize (ubytes s) bp) = q
      then let s = set_size bp (hsize (ubytes s) bp + hsize (ubytes s) q) s in set_ptr bp (hptr (ubytes s) q) s
      else set_ptr bp q s)"

definition free_lower :: "uint \<Rightarrow> uint \<Rightarrow> uheap \<Rightarrow> uheap" where
  "free_lower bp p s =
     (if hadd p (hsize (ubytes s) p) = bp
      then let s = set_size p (hsize (ubytes s) p + hsize (ubytes s) bp) s in set_ptr p (hptr (ubytes s) bp) s
      else set_ptr p bp s)"

definition ufree :: "uint \<Rightarrow> uheap \<Rightarrow> uheap option" where
  "ufree ap s =
     (let bp = ap - 8
      in case free_find (ubytes s) bp (freep s) of None \<Rightarrow> None
      | Some p \<Rightarrow> Some ((free_lower bp p (free_upper bp (hptr (ubytes s) p) s))\<lparr>freep := p\<rparr>))"

text \<open>
  \<open>sbrk\<close> as \<open>sys_sbrk\<close> and \<open>growproc\<close> answer it. \<open>grow sz n\<close> says that the kernel has memory for \<open>n\<close> bytes
  more.
\<close>

definition sbrk :: "(uint \<Rightarrow> uint \<Rightarrow> bool) \<Rightarrow> uint \<Rightarrow> uheap \<Rightarrow> uint \<times> uheap" where
  "sbrk grow n s =
     (let old = brk s
      in if 0 <s n then
           if KERNBASE \<le> old + n \<or> \<not> grow old n then (- 1, s) else (old, s\<lparr>brk := old + n\<rparr>)
         else if n <s 0 then
           if old \<le> old + n then (old, s) else if old + n = 0 then (- 1, s) else (old, s\<lparr>brk := old + n\<rparr>)
         else (old, s))"

definition morecore :: "(uint \<Rightarrow> uint \<Rightarrow> bool) \<Rightarrow> uint \<Rightarrow> uheap \<Rightarrow> (uint \<times> uheap) option" where
  "morecore grow nu s =
     (let nu = (if nu < 4096 then 4096 else nu);
          (p, s) = sbrk grow (nu * 8) s
      in if p = - 1 then Some (0, s)
         else case ufree (hadd p 1) (set_size p nu s) of None \<Rightarrow> None
              | Some s \<Rightarrow> Some (freep s, s))"

definition malloc_take :: "uint \<Rightarrow> uint \<Rightarrow> uint \<Rightarrow> uheap \<Rightarrow> uint \<times> uheap" where
  "malloc_take nunits prevp p s =
     (let m = ubytes s;
          (p, s) = (if hsize m p = nunits then (p, set_ptr prevp (hptr m p) s)
                    else let s = set_size p (hsize m p - nunits) s; q = hadd p (hsize (ubytes s) p)
                         in (q, set_size q nunits s))
      in (hadd p 1, s\<lparr>freep := prevp\<rparr>))"

partial_function (option) malloc_loop ::
  "(uint \<Rightarrow> uint \<Rightarrow> bool) \<Rightarrow> uint \<Rightarrow> uint \<Rightarrow> uint \<Rightarrow> uheap \<Rightarrow> (uint \<times> uheap) option" where
  "malloc_loop grow nunits prevp p s =
     (if nunits \<le> hsize (ubytes s) p then Some (malloc_take nunits prevp p s)
      else if p = freep s then
        case morecore grow nunits s of None \<Rightarrow> None
        | Some r \<Rightarrow> if fst r = 0 then Some (0, snd r)
                    else malloc_loop grow nunits (fst r) (hptr (ubytes (snd r)) (fst r)) (snd r)
      else malloc_loop grow nunits p (hptr (ubytes s) p) s)"

definition malloc :: "(uint \<Rightarrow> uint \<Rightarrow> bool) \<Rightarrow> uint \<Rightarrow> uint \<Rightarrow> uheap \<Rightarrow> (uint \<times> uheap) option" where
  "malloc grow bs nbytes s =
     (let nunits = (nbytes + 8 - 1) div 8 + 1;
          s = (if freep s = 0 then set_size bs 0 (set_ptr bs bs (s\<lparr>freep := bs\<rparr>)) else s);
          prevp = freep s
      in malloc_loop grow nunits prevp (hptr (ubytes s) prevp) s)"

text \<open>The number of headers wraps: a request for almost all of the address space is served with one header.\<close>

lemma malloc_overflow: "malloc grow bs 0xFFFFFFFF s = malloc grow bs 0 s"
  by (simp add: malloc_def)

section \<open>Headers in memory\<close>

text \<open>Two headers do not overlap.\<close>

definition hapart :: "uint \<Rightarrow> uint \<Rightarrow> bool" where
  "hapart a b \<longleftrightarrow> unat a + 8 \<le> unat b \<or> unat b + 8 \<le> unat a"

definition low :: "uint \<Rightarrow> bool" where "low a \<longleftrightarrow> unat a + 8 \<le> 2147483648"

lemma far4:
  fixes a b :: uint
  assumes "unat a + 4 \<le> unat b" "unat b + 4 \<le> 4294967296"
  shows "4 \<le> b - a \<and> 4 \<le> a - b"
proof -
  have ab: "a \<le> b" "a \<noteq> b" using assms by (auto simp: word_le_nat_alt)
  have u: "unat (b - a) = unat b - unat a" using ab by (simp add: unat_sub)
  have "b - a \<noteq> 0" using ab by simp
  from unat_neg [OF this] have "unat (a - b) = 2 ^ 32 - unat (b - a)" by simp
  then show ?thesis using u assms by (auto simp: word_le_nat_alt)
qed

lemma load_store_apart:
  assumes "unat a + 4 \<le> unat b \<or> unat b + 4 \<le> unat a" "unat a + 4 \<le> 4294967296" "unat b + 4 \<le> 4294967296"
  shows "load32 (store32 a w m) b = load32 m b"
  using assms far4 [of a b] far4 [of b a] by (intro load32_store32_far) auto

lemma unat_add4: "low a \<Longrightarrow> unat (a + 4) = unat a + 4"
  by (simp add: low_def unat_add_lt)

lemma header_upd [simp]:
  assumes "low a"
  shows "hptr (ubytes (set_ptr a q s)) a = q" "hsize (ubytes (set_ptr a q s)) a = hsize (ubytes s) a"
    "hptr (ubytes (set_size a n s)) a = hptr (ubytes s) a" "hsize (ubytes (set_size a n s)) a = n"
  using assms by (auto simp: hptr_def hsize_def set_ptr_def set_size_def unat_add4 low_def intro!: load_store_apart)

lemma header_upd_apart [simp]:
  assumes "hapart a b" "low a" "low b"
  shows "hptr (ubytes (set_ptr a q s)) b = hptr (ubytes s) b" "hsize (ubytes (set_ptr a q s)) b = hsize (ubytes s) b"
    "hptr (ubytes (set_size a n s)) b = hptr (ubytes s) b" "hsize (ubytes (set_size a n s)) b = hsize (ubytes s) b"
  using assms
  by (auto simp: hptr_def hsize_def set_ptr_def set_size_def unat_add4 low_def hapart_def intro!: load_store_apart)

lemma set_simps [simp]:
  "freep (set_ptr a q s) = freep s" "brk (set_ptr a q s) = brk s"
  "freep (set_size a n s) = freep s" "brk (set_size a n s) = brk s"
  by (simp_all add: set_ptr_def set_size_def)

lemma store32_outside: "unat a + 4 \<le> 4294967296 \<Longrightarrow> unat x < unat a \<or> unat a + 4 \<le> unat x \<Longrightarrow> store32 a w m x = m x"
proof -
  assume a: "unat a + 4 \<le> 4294967296" "unat x < unat a \<or> unat a + 4 \<le> unat x"
  have "\<not> x - a < 4"
  proof
    assume "x - a < 4"
    then have l: "unat (x - a) < 4" by (simp add: word_less_nat_alt)
    then have "unat (a + (x - a)) = unat a + unat (x - a)" using a(1) by (intro unat_add_lt) simp
    then show False using l a by simp
  qed
  then show ?thesis by (simp add: store32_apply)
qed

lemma header_frame:
  assumes "low a" "unat x < unat a \<or> unat a + 8 \<le> unat x"
  shows "ubytes (set_ptr a q s) x = ubytes s x" "ubytes (set_size a n s) x = ubytes s x"
  using assms by (auto simp: set_ptr_def set_size_def unat_add4 low_def intro!: store32_outside)

section \<open>The heap as disjoint blocks\<close>

definition blk_end :: "memory \<Rightarrow> uint \<Rightarrow> nat" where
  "blk_end m a = unat a + 8 * unat (hsize m a)"

definition blk :: "memory \<Rightarrow> uint \<Rightarrow> nat set" where
  "blk m a = {unat a..<blk_end m a}"

text \<open>The blocks with their headers in \<open>S\<close> cut the heap, from \<open>h0\<close> to the end of the process, into disjoint pieces.\<close>

definition cells :: "nat \<Rightarrow> uint set \<Rightarrow> uheap \<Rightarrow> bool" where
  "cells h0 S s \<longleftrightarrow> h0 \<le> unat (brk s) \<and> brk s < KERNBASE \<and> (\<forall>a \<in> S. hsize (ubytes s) a \<noteq> 0) \<and>
     disjoint_family_on (blk (ubytes s)) S \<and> \<Union> (blk (ubytes s) ` S) = {h0..<unat (brk s)}"

lemma cellsD:
  assumes "cells h0 S s"
  shows "h0 \<le> unat (brk s)" "unat (brk s) < 2147483648" "\<And>a. a \<in> S \<Longrightarrow> 0 < unat (hsize (ubytes s) a)"
    "\<And>a. a \<in> S \<Longrightarrow> h0 \<le> unat a" "\<And>a. a \<in> S \<Longrightarrow> blk_end (ubytes s) a \<le> unat (brk s)"
    "\<And>a. a \<in> S \<Longrightarrow> unat a + 8 \<le> blk_end (ubytes s) a" "\<And>a. a \<in> S \<Longrightarrow> low a"
    "\<And>a b. a \<in> S \<Longrightarrow> b \<in> S \<Longrightarrow> a \<noteq> b \<Longrightarrow> blk_end (ubytes s) a \<le> unat b \<or> blk_end (ubytes s) b \<le> unat a"
    "\<And>a b. a \<in> S \<Longrightarrow> b \<in> S \<Longrightarrow> a \<noteq> b \<Longrightarrow> hapart a b"
proof -
  let ?m = "ubytes s"
  show h: "h0 \<le> unat (brk s)" and k: "unat (brk s) < 2147483648"
    using assms by (auto simp: cells_def KERNBASE_def word_less_nat_alt)
  show p: "0 < unat (hsize ?m a)" if "a \<in> S" for a
    using assms that by (auto simp: cells_def unat_gt_0)
  show e: "unat a + 8 \<le> blk_end ?m a" if "a \<in> S" for a
    using p [OF that] by (simp add: blk_end_def)
  have in_heap: "blk ?m a \<subseteq> {h0..<unat (brk s)}" if "a \<in> S" for a
    using assms that by (auto simp: cells_def)
  have ne: "unat a \<in> blk ?m a" "blk_end ?m a - 1 \<in> blk ?m a" if "a \<in> S" for a
    using e [OF that] by (auto simp: blk_def)
  show l: "h0 \<le> unat a" if "a \<in> S" for a using ne(1) [OF that] in_heap [OF that] by auto
  show u: "blk_end ?m a \<le> unat (brk s)" if "a \<in> S" for a
    using ne(2) [OF that] in_heap [OF that] e [OF that] by fastforce
  show "low a" if "a \<in> S" for a using u [OF that] e [OF that] k by (simp add: low_def)
  show d: "blk_end ?m a \<le> unat b \<or> blk_end ?m b \<le> unat a" if "a \<in> S" "b \<in> S" "a \<noteq> b" for a b
  proof -
    have "blk ?m a \<inter> blk ?m b = {}" using assms that by (auto simp: cells_def disjoint_family_on_def)
    then have "unat a \<notin> blk ?m b" "unat b \<notin> blk ?m a" using ne(1) that by auto
    then show ?thesis by (auto simp: blk_def)
  qed
  show "hapart a b" if "a \<in> S" "b \<in> S" "a \<noteq> b" for a b
    using d [OF that] e that by (fastforce simp: hapart_def)
qed

lemma cells_cong:
  assumes "cells h0 S s" "brk t = brk s" "\<And>a. a \<in> S \<Longrightarrow> hsize (ubytes t) a = hsize (ubytes s) a"
  shows "cells h0 S t"
proof -
  have "blk (ubytes t) a = blk (ubytes s) a" if "a \<in> S" for a
    using assms(3) [OF that] by (simp add: blk_def blk_end_def)
  then show ?thesis using assms by (auto simp: cells_def disjoint_family_on_def)
qed

text \<open>A block that grows over its right neighbour, a block cut in two, and a block added at the end.\<close>

lemma cells_merge:
  assumes c: "cells h0 S s" and ab: "a \<in> S" "b \<in> S" "a \<noteq> b" "blk_end (ubytes s) a = unat b" and "brk t = brk s"
    and ha: "hsize (ubytes t) a = hsize (ubytes s) a + hsize (ubytes s) b"
    and o: "\<And>x. x \<in> S - {a, b} \<Longrightarrow> hsize (ubytes t) x = hsize (ubytes s) x"
  shows "cells h0 (S - {b}) t" "blk_end (ubytes t) a = blk_end (ubytes s) b" "blk (ubytes t) a = blk (ubytes s) a \<union> blk (ubytes s) b"
proof -
  let ?m = "ubytes s" and ?n = "ubytes t"
  note D = cellsD [OF c]
  have le: "blk_end ?m b < 2147483648" using D(2) D(5) [OF ab(2)] by simp
  have u: "unat (hsize ?n a) = unat (hsize ?m a) + unat (hsize ?m b)"
    unfolding ha using le ab(4) by (intro unat_add_lt) (simp add: blk_end_def)
  show e: "blk_end ?n a = blk_end ?m b" using u ab(4) by (simp add: blk_end_def)
  show ba: "blk ?n a = blk ?m a \<union> blk ?m b"
    using e ab(4) D(6) [OF ab(1)] D(6) [OF ab(2)] by (auto simp: blk_def)
  have bo: "blk ?n x = blk ?m x" if "x \<in> S - {a, b}" for x using o [OF that] by (simp add: blk_def blk_end_def)
  have dj: "blk ?m x \<inter> blk ?m y = {}" if "x \<in> S" "y \<in> S" "x \<noteq> y" for x y
    using c that by (auto simp: cells_def disjoint_family_on_def)
  have "disjoint_family_on (blk ?n) (S - {b})"
  proof (unfold disjoint_family_on_def, intro ballI impI)
    fix x y assume xy: "x \<in> S - {b}" "y \<in> S - {b}" "x \<noteq> y"
    show "blk ?n x \<inter> blk ?n y = {}"
    proof (cases "x = a")
      case True
      with xy ab dj [of a y] dj [of b y] show ?thesis by (auto simp: ba bo)
    next
      case xa: False
      show ?thesis
      proof (cases "y = a")
        case True
        with xy ab dj [of x a] dj [of x b] show ?thesis by (auto simp: ba bo)
      next
        case False
        with xa xy dj [of x y] show ?thesis by (simp add: bo)
      qed
    qed
  qed
  moreover have "\<Union> (blk ?n ` (S - {b})) = \<Union> (blk ?m ` S)"
  proof -
    have "\<Union> (blk ?n ` (S - {b})) = blk ?n a \<union> \<Union> (blk ?n ` (S - {a, b}))" using ab by auto
    also have "\<dots> = blk ?m a \<union> blk ?m b \<union> \<Union> (blk ?m ` (S - {a, b}))" by (simp add: ba bo)
    also have "\<dots> = \<Union> (blk ?m ` S)" using ab by auto
    finally show ?thesis .
  qed
  moreover have "hsize ?n x \<noteq> 0" if "x \<in> S - {b}" for x
  proof (cases "x = a")
    case True
    have "unat (hsize ?n a) \<noteq> 0" using u D(3) [OF ab(1)] by linarith
    then show ?thesis unfolding True by (intro notI) simp
  next
    case False
    with that o [of x] D(3) [of x] show ?thesis by (auto simp: unat_gt_0)
  qed
  ultimately show "cells h0 (S - {b}) t" using c assms(6) by (auto simp: cells_def)
qed

lemma cells_split:
  assumes c: "cells h0 S s" and a: "a \<in> S" and b: "blk_end (ubytes t) a = unat b"
    and "hsize (ubytes t) a \<noteq> 0" "hsize (ubytes t) b \<noteq> 0" "blk_end (ubytes t) b = blk_end (ubytes s) a" "brk t = brk s"
    and o: "\<And>x. x \<in> S - {a} \<Longrightarrow> hsize (ubytes t) x = hsize (ubytes s) x"
  shows "cells h0 (insert b S) t" "b \<notin> S" "blk (ubytes t) a \<union> blk (ubytes t) b = blk (ubytes s) a"
proof -
  let ?m = "ubytes s" and ?n = "ubytes t"
  note D = cellsD [OF c]
  have p: "0 < unat (hsize ?n a)" "0 < unat (hsize ?n b)" using assms(4,5) by (simp_all add: unat_gt_0)
  have r: "unat a < unat b" "unat b < blk_end ?m a" using b p assms(6) by (auto simp: blk_end_def)
  show nb: "b \<notin> S"
  proof
    assume "b \<in> S"
    with D(8) [OF a, of b] D(6) [of b] r show False by auto
  qed
  show un: "blk ?n a \<union> blk ?n b = blk ?m a" using b r assms(6) by (auto simp: blk_def)
  have ab: "blk ?n a \<inter> blk ?n b = {}" using b by (auto simp: blk_def)
  have bo: "blk ?n x = blk ?m x" if "x \<in> S - {a}" for x using o [OF that] by (simp add: blk_def blk_end_def)
  have dj: "blk ?m x \<inter> blk ?m y = {}" if "x \<in> S" "y \<in> S" "x \<noteq> y" for x y
    using c that by (auto simp: cells_def disjoint_family_on_def)
  have da: "blk ?n x \<inter> blk ?n a = {} \<and> blk ?n x \<inter> blk ?n b = {}" if "x \<in> S - {a}" for x
    using dj [of x a] that a un by (auto simp: bo)
  have "disjoint_family_on (blk ?n) (insert b S)"
  proof (unfold disjoint_family_on_def, intro ballI impI)
    fix x y assume xy: "x \<in> insert b S" "y \<in> insert b S" "x \<noteq> y"
    show "blk ?n x \<inter> blk ?n y = {}"
    proof (cases "x \<in> {a, b} \<or> y \<in> {a, b}")
      case True
      with xy ab da [of x] da [of y] nb a show ?thesis by auto
    next
      case False
      with xy dj [of x y] show ?thesis by (simp add: bo)
    qed
  qed
  moreover have "\<Union> (blk ?n ` insert b S) = \<Union> (blk ?m ` S)"
  proof -
    have "\<Union> (blk ?n ` insert b S) = blk ?n a \<union> blk ?n b \<union> \<Union> (blk ?n ` (S - {a}))" using a by auto
    also have "\<dots> = blk ?m a \<union> \<Union> (blk ?m ` (S - {a}))" by (simp add: un bo)
    also have "\<dots> = \<Union> (blk ?m ` S)" using a by auto
    finally show ?thesis .
  qed
  moreover have "hsize ?n x \<noteq> 0" if "x \<in> insert b S" for x
  proof (cases "x \<in> {a, b}")
    case False
    with that o [of x] D(3) [of x] show ?thesis by (auto simp: unat_gt_0)
  qed (use assms(4,5) in auto)
  ultimately show "cells h0 (insert b S) t" using c assms(7) by (auto simp: cells_def)
qed

lemma cells_extend:
  assumes c: "cells h0 S s" and "unat (hsize (ubytes t) b) \<noteq> 0" and b: "b = brk s" "blk_end (ubytes t) b = unat (brk t)"
    "brk t < KERNBASE" and o: "\<And>x. x \<in> S \<Longrightarrow> hsize (ubytes t) x = hsize (ubytes s) x"
  shows "cells h0 (insert b S) t" "b \<notin> S"
proof -
  let ?m = "ubytes s" and ?n = "ubytes t"
  note D = cellsD [OF c]
  show nb: "b \<notin> S" using D(5,6) [of b] b(1) by auto
  have bo: "blk ?n x = blk ?m x" if "x \<in> S" for x using o [OF that] by (simp add: blk_def blk_end_def)
  have bb: "blk ?n b = {unat (brk s)..<unat (brk t)}" using b by (simp add: blk_def)
  have ub: "\<Union> (blk ?n ` S) = {h0..<unat (brk s)}" using c bo by (simp add: cells_def)
  have "disjoint_family_on (blk ?n) S" using c bo by (auto simp: cells_def disjoint_family_on_def)
  then have "disjoint_family_on (blk ?n) (insert b S)" using nb ub bb by (subst disjoint_family_on_insert) auto
  moreover have "unat (brk s) \<le> unat (brk t)" using b by (simp add: blk_end_def)
  moreover then have "\<Union> (blk ?n ` insert b S) = {h0..<unat (brk t)}" using ub bb D(1) by auto
  moreover have "hsize ?n x \<noteq> 0" if "x \<in> insert b S" for x
    using that assms(2) o [of x] D(3) [of x] by (auto simp: unat_gt_0)
  ultimately show "cells h0 (insert b S) t" using c D(1) b(3) by (auto simp: cells_def)
qed

section \<open>The free list\<close>

text \<open>From \<open>p\<close>, following the pointers, the blocks \<open>zs\<close> and then \<open>q\<close>.\<close>

primrec hpath :: "memory \<Rightarrow> uint \<Rightarrow> uint list \<Rightarrow> uint \<Rightarrow> bool" where
  "hpath m p [] q \<longleftrightarrow> p = q"
| "hpath m p (z # zs) q \<longleftrightarrow> p = z \<and> hpath m (hptr m z) zs q"

lemma hpath_append [simp]: "hpath m p (xs @ ys) q \<longleftrightarrow> (\<exists>r. hpath m p xs r \<and> hpath m r ys q)"
  by (induction xs arbitrary: p) auto

lemma hpath_cong: "(\<And>z. z \<in> set zs \<Longrightarrow> hptr m' z = hptr m z) \<Longrightarrow> hpath m' p zs q = hpath m p zs q"
  by (induction zs arbitrary: p) auto

text \<open>
  \<open>heap bs h0 ys A s\<close>: the free blocks are \<open>ys\<close>, in a circle with \<open>base\<close> and in the order of their addresses;
  the allocated blocks have their headers in \<open>A\<close>; together they are the heap; no two free blocks touch.
\<close>

definition heap :: "uint \<Rightarrow> nat \<Rightarrow> uint list \<Rightarrow> uint set \<Rightarrow> uheap \<Rightarrow> bool" where
  "heap bs h0 ys A s \<longleftrightarrow> bs \<noteq> 0 \<and> unat bs + 8 \<le> h0 \<and> hsize (ubytes s) bs = 0 \<and> freep s \<in> set (bs # ys) \<and>
     sorted_wrt (<) (bs # ys) \<and> hpath (ubytes s) bs (bs # ys) bs \<and> set ys \<inter> A = {} \<and>
     cells h0 (set ys \<union> A) s \<and> (\<forall>y \<in> set ys. blk_end (ubytes s) y \<notin> unat ` set ys)"

lemma heapD:
  assumes "heap bs h0 ys A s"
  shows "bs \<noteq> 0" "unat bs + 8 \<le> h0" "hsize (ubytes s) bs = 0" "freep s \<in> set (bs # ys)" "sorted_wrt (<) (bs # ys)"
    "hpath (ubytes s) bs (bs # ys) bs" "set ys \<inter> A = {}" "cells h0 (set ys \<union> A) s"
    "\<And>y. y \<in> set ys \<Longrightarrow> blk_end (ubytes s) y \<notin> unat ` set ys" "low bs"
    "\<And>a. a \<in> set ys \<union> A \<Longrightarrow> unat bs + 8 \<le> unat a" "\<And>a. a \<in> set ys \<union> A \<Longrightarrow> hapart bs a"
proof -
  show h: "bs \<noteq> 0" "unat bs + 8 \<le> h0" "hsize (ubytes s) bs = 0" "freep s \<in> set (bs # ys)" "sorted_wrt (<) (bs # ys)"
    "hpath (ubytes s) bs (bs # ys) bs" "set ys \<inter> A = {}" and c: "cells h0 (set ys \<union> A) s" and
    "\<And>y. y \<in> set ys \<Longrightarrow> blk_end (ubytes s) y \<notin> unat ` set ys"
    using assms by (auto simp: heap_def)
  show "low bs" using h(2) cellsD(1,2) [OF c] by (simp add: low_def)
  show l: "unat bs + 8 \<le> unat a" if "a \<in> set ys \<union> A" for a using h(2) cellsD(4) [OF c that] by simp
  show "hapart bs a" if "a \<in> set ys \<union> A" for a using l [OF that] by (simp add: hapart_def)
qed

lemma sorted_split:
  fixes x :: "'a :: linorder"
  assumes "sorted_wrt (<) xs" "xs \<noteq> []" "hd xs < x" "x \<notin> set xs"
  shows "\<exists>ls p rs. xs = ls @ p # rs \<and> p < x \<and> (\<forall>y \<in> set ls. y < p) \<and> (\<forall>y \<in> set rs. x < y)"
  using assms
proof (induction xs)
  case (Cons a xs)
  show ?case
  proof (cases "xs = [] \<or> x < hd xs")
    case True
    then have "\<forall>y \<in> set xs. x < y" using Cons.prems(1) by (cases xs) auto
    then show ?thesis using Cons.prems by (intro exI [of _ "[]"]) auto
  next
    case False
    with Cons.prems have "hd xs < x" by (cases xs) auto
    with False Cons obtain ls p rs where "xs = ls @ p # rs" "p < x" "\<forall>y \<in> set ls. y < p" "\<forall>y \<in> set rs. x < y"
      by auto
    moreover then have "a < p" using Cons.prems(1) by auto
    ultimately show ?thesis by (intro exI [of _ "a # ls"]) auto
  qed
qed simp

lemma distinct_split: "distinct (ls @ p # rs) \<Longrightarrow> us @ p # vs = ls @ p # rs \<Longrightarrow> vs = rs"
proof (induction ls arbitrary: us)
  case Nil
  then show ?case by (cases us) auto
next
  case (Cons l ls)
  then show ?case by (cases us) auto
qed

text \<open>\<open>free\<close> goes round the list and stops at the block after which \<open>bp\<close> belongs.\<close>

lemma free_find_stop:
  assumes "hpath m p zs q" "pr \<in> set zs"
    and "\<And>z. z \<in> set zs \<Longrightarrow> z < bp \<and> bp < hptr m z \<or> hptr m z \<le> z \<and> (z < bp \<or> bp < hptr m z) \<longleftrightarrow> z = pr"
  shows "free_find m bp p = Some pr"
  using assms
proof (induction zs arbitrary: p)
  case (Cons z zs)
  have pz: "p = z" using Cons.prems(1) by simp
  show ?case
  proof (cases "z = pr")
    case True
    with Cons.prems(3) [of z] pz show ?thesis by (subst free_find.simps) auto
  next
    case False
    with Cons.prems have "free_find m bp (hptr m z) = Some pr" by (intro Cons.IH) auto
    then show ?thesis using Cons.prems(3) [of z] False pz by (subst free_find.simps) auto
  qed
qed simp

lemma hpath_next: "hpath m p (ls @ z # rs) q \<Longrightarrow> hptr m z = hd (rs @ [q])"
  by (cases rs) auto

lemma free_find_ok:
  assumes "sorted_wrt (<) (bs # ys)" "hpath m bs (bs # ys) bs" "bs < bp" and f: "f \<in> set (bs # ys)"
    and split: "bs # ys = ls @ pr # rs" "pr < bp" "\<forall>y \<in> set ls. y < pr" "\<forall>y \<in> set rs. bp < y"
  shows "free_find m bp f = Some pr"
proof -
  obtain us vs where e: "bs # ys = us @ f # vs" using f by (metis split_list)
  have "hpath m bs (us @ f # vs) bs" using assms(2) unfolding e .
  then have "hpath m f (f # vs @ us) f" by auto
  moreover have "set (f # vs @ us) = set (bs # ys)" unfolding e by auto
  moreover have "z < bp \<and> bp < hptr m z \<or> hptr m z \<le> z \<and> (z < bp \<or> bp < hptr m z) \<longleftrightarrow> z = pr" if z: "z \<in> set (bs # ys)" for z
  proof -
    obtain as cs where zz: "bs # ys = as @ z # cs" using z by (metis split_list)
    have nx: "hptr m z = hd (cs @ [bs])" using assms(2) unfolding zz by (rule hpath_next)
    have bz: "bs \<le> z" using z assms(1) by auto
    have srt: "sorted_wrt (<) (as @ z # cs)" "sorted_wrt (<) (ls @ pr # rs)" using assms(1) zz split(1) by metis+
    consider "z = pr" | "z \<in> set ls" | "z \<in> set rs" using z unfolding split(1) by auto
    then show ?thesis
    proof cases
      case 1
      have "as @ pr # cs = ls @ pr # rs" using zz split(1) 1 by metis
      then have "cs = rs" using srt(2) by (intro distinct_split [of ls pr rs as cs]) (simp_all add: strict_sorted_iff)
      then show ?thesis using 1 nx split bz assms(3) by (cases rs) auto
    next
      case 2
      then have "z < pr" using split(3) by simp
      have "pr \<in> set cs"
      proof -
        have "pr \<in> set (as @ z # cs)" unfolding zz [symmetric] split(1) by simp
        then show ?thesis using srt(1) \<open>z < pr\<close> by (auto simp: sorted_wrt_append)
      qed
      then obtain c cs' where "cs = c # cs'" by (cases cs) auto
      then have "hptr m z = c" "c \<le> pr" "z < c" using nx srt(1) \<open>pr \<in> set cs\<close> by (auto simp: sorted_wrt_append)
      then show ?thesis using \<open>z < pr\<close> split(2) by auto
    next
      case 3
      then have "bp < z" using split(4) by simp
      moreover have "hptr m z = bs \<or> z < hptr m z" using nx srt(1) by (cases cs) (auto simp: sorted_wrt_append)
      ultimately show ?thesis using bz assms(3) split(2) by auto
    qed
  qed
  ultimately show ?thesis using split(1) by (intro free_find_stop [of m f "f # vs @ us" f]) auto
qed

section \<open>Freeing\<close>

lemma hadd_eq: "blk_end m a \<le> 2147483648 \<Longrightarrow> hadd a (hsize m a) = q \<longleftrightarrow> blk_end m a = unat q"
proof -
  assume b: "blk_end m a \<le> 2147483648"
  have "unat (8 * hsize m a) = 8 * unat (hsize m a)" using b by (simp add: blk_end_def unat_word_ariths)
  then have "unat (hadd a (hsize m a)) = blk_end m a" using b by (simp add: hadd_def blk_end_def unat_add_lt)
  then show ?thesis by (metis word_unat_eq_iff)
qed

text \<open>The first step of \<open>free\<close>: \<open>rs\<close> are the free blocks above, \<open>U\<close> those below.\<close>

lemma free_upper_ok:
  assumes c: "cells h0 (U \<union> set rs \<union> A) s" and bp: "bp \<in> A" and dj: "(U \<union> set rs) \<inter> A = {}" "U \<inter> set rs = {}"
    and srt: "sorted_wrt (<) rs" "\<forall>x \<in> set rs. bp < x" and path: "hpath (ubytes s) q rs bs" and bs: "low bs" "unat bs + 8 \<le> h0"
    and co: "\<And>y. y \<in> set rs \<Longrightarrow> blk_end (ubytes s) y \<notin> unat ` set rs"
  shows "\<exists>rs'. cells h0 (U \<union> set rs' \<union> A) (free_upper bp q s) \<and>
    hpath (ubytes (free_upper bp q s)) (hptr (ubytes (free_upper bp q s)) bp) rs' bs \<and>
    blk_end (ubytes (free_upper bp q s)) bp \<notin> unat ` set rs' \<and> set rs' \<subseteq> set rs \<and> sorted_wrt (<) rs' \<and>
    hsize (ubytes s) bp \<le> hsize (ubytes (free_upper bp q s)) bp"
proof -
  let ?m = "ubytes s" and ?S = "U \<union> set rs \<union> A" and ?n = "ubytes (free_upper bp q s)"
  note D = cellsD [OF c]
  have bS: "bp \<in> ?S" and bl: "low bp" using bp D(7) by auto
  have ap: "hapart bp x" "low x" if "x \<in> ?S" "x \<noteq> bp" for x using D(7,9) that bS by auto
  have eq: "hadd bp (hsize ?m bp) = q \<longleftrightarrow> blk_end ?m bp = unat q" using D(2) D(5) [OF bS] by (intro hadd_eq) simp
  show ?thesis
  proof (cases "blk_end ?m bp = unat q")
    case False
    with eq have u: "free_upper bp q s = set_ptr bp q s" by (simp add: free_upper_def)
    have sm: "hptr ?n x = hptr ?m x" "hsize ?n x = hsize ?m x" if "x \<in> ?S" "x \<noteq> bp" for x
      using ap that bl by (simp_all add: u)
    have hs: "hsize ?n x = hsize ?m x" if "x \<in> ?S" for x using sm that bl by (cases "x = bp") (simp_all add: u)
    have "cells h0 ?S (free_upper bp q s)" by (rule cells_cong [OF c]) (use hs in \<open>auto simp: u\<close>)
    moreover have "hptr ?n bp = q" using bl by (simp add: u)
    moreover have "hpath ?n q rs bs"
    proof -
      have "hptr ?n x = hptr ?m x" if "x \<in> set rs" for x using that srt(2) by (intro sm(1)) auto
      then show ?thesis using path by (simp cong: hpath_cong)
    qed
    moreover have "blk_end ?n bp \<notin> unat ` set rs"
    proof
      assume "blk_end ?n bp \<in> unat ` set rs"
      moreover have "blk_end ?n bp = blk_end ?m bp" using hs [OF bS] by (simp add: blk_end_def)
      ultimately obtain r where r: "r \<in> set rs" "blk_end ?m bp = unat r" by auto
      then obtain r' rs' where rs: "rs = r' # rs'" by (cases rs) auto
      then have q: "q = r'" using path by simp
      with False r rs srt(1) have "r \<in> set rs'" "unat q < unat r" by (auto simp: word_less_nat_alt)
      moreover have "blk_end ?m q \<le> unat bp \<or> blk_end ?m bp \<le> unat q"
        using D(8) [of q bp] q rs bS srt(2) by auto
      moreover have "unat bp < unat q" using srt(2) rs q by (simp add: word_less_nat_alt)
      ultimately show False using r D(6) [of q] q rs by auto
    qed
    ultimately show ?thesis using srt(1) hs [OF bS] by (intro exI [of _ rs]) auto
  next
    case True
    have "rs \<noteq> []"
    proof
      assume "rs = []"
      then have "q = bs" using path by simp
      with True bs D(6) [OF bS] D(4) [OF bS] show False by simp
    qed
    then obtain rs' where rs: "rs = q # rs'" and p': "hpath ?m (hptr ?m q) rs' bs" using path by (cases rs) auto
    have qS: "q \<in> ?S" "q \<noteq> bp" using rs srt(2) by auto
    let ?k = "hsize ?m bp + hsize ?m q"
    have u: "free_upper bp q s = set_ptr bp (hptr ?m q) (set_size bp ?k s)"
      using eq True ap [OF qS] bl by (simp add: free_upper_def Let_def)
    have sm: "hptr ?n x = hptr ?m x" "hsize ?n x = hsize ?m x" if "x \<in> ?S" "x \<noteq> bp" for x
      using ap that bl by (simp_all add: u)
    have hb: "hsize ?n bp = ?k" "hptr ?n bp = hptr ?m q" using bl by (simp_all add: u)
    note M = cells_merge [OF c bS qS(1) qS(2) [symmetric] True, of "free_upper bp q s"]
    have m: "cells h0 (?S - {q}) (free_upper bp q s)" "blk_end ?n bp = blk_end ?m q"
      by (rule M; use hb sm in \<open>simp add: u\<close>)+
    have q': "q \<notin> set rs'" "q \<notin> A" "q \<notin> U" using srt(1) rs dj by auto
    then have "?S - {q} = U \<union> set rs' \<union> A" using rs by auto
    with m(1) have "cells h0 (U \<union> set rs' \<union> A) (free_upper bp q s)" by simp
    moreover have "hpath ?n (hptr ?n bp) rs' bs"
    proof -
      have "hptr ?n x = hptr ?m x" if "x \<in> set rs'" for x using that rs srt(2) by (intro sm(1)) auto
      then show ?thesis unfolding hb(2) using p' by (simp cong: hpath_cong)
    qed
    moreover have "blk_end ?n bp \<notin> unat ` set rs'" unfolding m(2) using co [of q] rs by auto
    moreover have "hsize ?m bp \<le> ?k"
    proof -
      have "unat ?k = unat (hsize ?m bp) + unat (hsize ?m q)"
        using True D(2) D(5) [OF qS(1)] by (intro unat_add_lt) (simp add: blk_end_def)
      then show ?thesis by (simp add: word_le_nat_alt)
    qed
    ultimately show ?thesis using srt(1) rs hb(1) by (intro exI [of _ rs']) auto
  qed
qed

lemma free_upper_same:
  assumes "hapart bp x" "low bp" "low x"
  shows "hptr (ubytes (free_upper bp q s)) x = hptr (ubytes s) x" "hsize (ubytes (free_upper bp q s)) x = hsize (ubytes s) x"
  using assms by (simp_all add: free_upper_def Let_def)

lemma free_upper_frame [simp]:
  "brk (free_upper bp q s) = brk s" "freep (free_upper bp q s) = freep s"
  "low bp \<Longrightarrow> unat x < unat bp \<or> unat bp + 8 \<le> unat x \<Longrightarrow> ubytes (free_upper bp q s) x = ubytes s x"
  by (simp_all add: free_upper_def Let_def header_frame)

lemma free_lower_frame [simp]:
  "brk (free_lower bp p s) = brk s"
  "low p \<Longrightarrow> unat x < unat p \<or> unat p + 8 \<le> unat x \<Longrightarrow> ubytes (free_lower bp p s) x = ubytes s x"
  by (simp_all add: free_lower_def Let_def header_frame)

lemma free_lower_same:
  assumes "hapart p x" "low p" "low x"
  shows "hptr (ubytes (free_lower bp p s)) x = hptr (ubytes s) x" "hsize (ubytes (free_lower bp p s)) x = hsize (ubytes s) x"
  using assms by (simp_all add: free_lower_def Let_def)

text \<open>
  The second step, as a heap again: \<open>ls @ [pr]\<close> are \<open>base\<close> and the free blocks below \<open>bp\<close>.
\<close>

lemma free_lower_ok:
  assumes c: "cells h0 (set us \<union> set rs \<union> A) s" and bp: "bp \<in> A" and bs: "ls @ [pr] = bs # us" "bs \<noteq> 0" "unat bs + 8 \<le> h0"
    and dj: "(set us \<union> set rs) \<inter> A = {}" and sz0: "hsize (ubytes s) bs = 0"
    and srt: "sorted_wrt (<) (ls @ [pr])" "pr < bp" "sorted_wrt (<) rs" "\<forall>x \<in> set rs. bp < x"
    and path: "hpath (ubytes s) bs ls pr" "hpath (ubytes s) (hptr (ubytes s) bp) rs bs"
    and co: "\<And>y. y \<in> set us \<Longrightarrow> blk_end (ubytes s) y \<notin> unat ` (set us \<union> set rs)"
      "\<And>y. y \<in> set rs \<Longrightarrow> blk_end (ubytes s) y \<notin> unat ` set rs" "blk_end (ubytes s) bp \<notin> unat ` set rs"
  shows "\<exists>ys. heap bs h0 ys (A - {bp}) ((free_lower bp pr s)\<lparr>freep := pr\<rparr>) \<and>
    (\<exists>y \<in> set ys. hsize (ubytes s) bp \<le> hsize (ubytes (free_lower bp pr s)) y)"
proof -
  let ?m = "ubytes s" and ?n = "ubytes (free_lower bp pr s)"
  let ?S = "set us \<union> set rs \<union> A"
  note D = cellsD [OF c]
  have pr: "pr = bs \<and> us = [] \<or> pr \<in> set us" using bs(1) by (cases ls) auto
  have bS: "bp \<in> ?S" and bl: "low bp" using bp D(7) by auto
  have lb: "low bs" using bs(3) D(1,2) by (simp add: low_def)
  have lp: "low pr" using pr lb D(7) by auto
  have below: "x \<le> pr" if "x \<in> set (bs # us)" for x
    using that srt(1) unfolding bs(1) [symmetric] by (auto simp: sorted_wrt_append)
  have base: "hapart bs x" "unat bs + 8 \<le> unat x" if "x \<in> ?S" for x using D(4) [OF that] bs(3) by (auto simp: hapart_def)
  have ap: "hapart pr x" "low x" if "x \<in> insert bs ?S" "x \<noteq> pr" for x
  proof -
    show "low x" using that lb D(7) by auto
    show "hapart pr x"
    proof (cases "pr = bs")
      case True
      then show ?thesis using that base by auto
    next
      case False
      then have "pr \<in> ?S" using pr by auto
      then show ?thesis using that D(9) [of pr x] base [of pr] by (auto simp: hapart_def)
    qed
  qed
  have sm: "hptr ?n x = hptr ?m x" "hsize ?n x = hsize ?m x" if "x \<in> insert bs ?S" "x \<noteq> pr" for x
    using free_lower_same ap [OF that] lp by auto
  have prbp: "bp \<noteq> pr" using srt(2) by auto
  have up: "bp < x" if "x \<in> set rs" for x using srt(4) that by auto
  have ls: "hptr ?n x = hptr ?m x" if "x \<in> set ls" for x
  proof -
    have "x < pr" using that srt(1) by (auto simp: sorted_wrt_append)
    have "x \<in> set (bs # us)" unfolding bs(1) [symmetric] using that by simp
    then have "x \<in> insert bs ?S" by (simp only: list.set Un_iff insert_iff) blast
    then show ?thesis using \<open>x < pr\<close> by (intro sm(1)) auto
  qed
  have rsn: "hptr ?n x = hptr ?m x" "hsize ?n x = hsize ?m x" if "x \<in> set rs" for x
    using sm [of x] that up [OF that] srt(2) by auto
  have pls: "hpath ?n bs ls pr" using path(1) ls by (simp cong: hpath_cong)
  have prs: "hpath ?n (hptr ?m bp) rs bs" using path(2) rsn(1) by (simp cong: hpath_cong)
  have bend: "unat bp < blk_end ?m bp" using D(6) [OF bS] by simp
  show ?thesis
  proof (cases "hadd pr (hsize ?m pr) = bp")
    case True
    have nb: "pr \<noteq> bs" using True sz0 srt(2) by (auto simp: hadd_def)
    then have pS: "pr \<in> ?S" "pr \<in> set us" using pr by auto
    have e: "blk_end ?m pr = unat bp" using hadd_eq [of ?m pr bp] True D(2) D(5) [OF pS(1)] by simp
    have f: "free_lower bp pr s = set_ptr pr (hptr ?m bp) (set_size pr (hsize ?m pr + hsize ?m bp) s)"
      using True ap [of bp] bS prbp lp by (simp add: free_lower_def Let_def)
    have hp: "hsize ?n pr = hsize ?m pr + hsize ?m bp" "hptr ?n pr = hptr ?m bp" using lp by (simp_all add: f)
    note M = cells_merge [OF c pS(1) bS prbp [symmetric] e, of "free_lower bp pr s"]
    have m: "cells h0 (?S - {bp}) (free_lower bp pr s)" "blk_end ?n pr = blk_end ?m bp"
      by (rule M; use hp sm in simp)+
    let ?ys = "us @ rs"
    have S: "?S - {bp} = set ?ys \<union> (A - {bp})" using dj bp by auto
    have "hpath ?n bs (bs # ?ys) bs"
    proof -
      have "hpath ?n bs (ls @ pr # rs) bs" using pls prs hp(2) by auto
      then show ?thesis using bs(1) by (metis append_Cons append_Nil append_assoc)
    qed
    moreover have "sorted_wrt (<) (bs # ?ys)"
    proof -
      have "sorted_wrt (<) ((ls @ [pr]) @ rs)" using srt below up bs(1) by (fastforce simp: sorted_wrt_append)
      then show ?thesis unfolding bs(1) by simp
    qed
    moreover have "blk_end ?n y \<notin> unat ` set ?ys" if y: "y \<in> set ?ys" for y
    proof (cases "y = pr")
      case True
      have "unat x < blk_end ?m bp" if "x \<in> set us" for x
        using below [of x] that srt(2) bend by (auto simp: word_le_nat_alt word_less_nat_alt)
      then show ?thesis using co(3) unfolding True m(2) by fastforce
    next
      case False
      then have "hsize ?n y = hsize ?m y" using sm(2) [of y] y by auto
      then have "blk_end ?n y = blk_end ?m y" by (simp add: blk_end_def)
      moreover have "blk_end ?m y \<notin> unat ` set us" if "y \<in> set rs"
      proof -
        have "unat x < blk_end ?m y" if "x \<in> set us" for x
          using below [of x] that srt(2) up [OF \<open>y \<in> set rs\<close>] by (auto simp: blk_end_def word_le_nat_alt word_less_nat_alt)
        then show ?thesis by fastforce
      qed
      ultimately show ?thesis using y co(1) [of y] co(2) [of y] by (auto simp: image_Un)
    qed
    moreover have "hsize ?n bs = 0" using sm [of bs] nb sz0 by auto
    moreover have "hsize ?m bp \<le> hsize ?n pr"
    proof -
      have "unat (hsize ?m pr + hsize ?m bp) = unat (hsize ?m pr) + unat (hsize ?m bp)"
        using e D(2) D(5) [OF bS] by (intro unat_add_lt) (simp add: blk_end_def)
      then show ?thesis unfolding hp(1) by (simp add: word_le_nat_alt)
    qed
    moreover have "cells h0 (set ?ys \<union> (A - {bp})) ((free_lower bp pr s)\<lparr>freep := pr\<rparr>)"
      by (rule cells_cong [OF m(1) [unfolded S]]) simp_all
    ultimately show ?thesis using bs pS(2) dj by (intro exI [of _ ?ys]) (auto simp: heap_def)
  next
    case False
    have f: "free_lower bp pr s = set_ptr pr bp s" using False by (simp add: free_lower_def)
    have hp: "hptr ?n pr = bp" "hsize ?n pr = hsize ?m pr" using lp by (simp_all add: f)
    have hs: "hsize ?n x = hsize ?m x" if "x \<in> insert bs ?S" for x using sm(2) [OF that] hp(2) by metis
    then have be: "blk_end ?n x = blk_end ?m x" if "x \<in> ?S" for x using that by (simp add: blk_end_def)
    let ?ys = "us @ bp # rs"
    have S: "?S = set ?ys \<union> (A - {bp})" using dj bp by auto
    have cs: "cells h0 (set ?ys \<union> (A - {bp})) ((free_lower bp pr s)\<lparr>freep := pr\<rparr>)"
      by (rule cells_cong [OF c [unfolded S]]) (simp_all add: hs S)
    have "hpath ?n bs (bs # ?ys) bs"
    proof -
      have "hptr ?n bp = hptr ?m bp" using sm(1) [of bp] bS prbp by auto
      then have "hpath ?n bs (ls @ pr # bp # rs) bs" using pls prs hp(1) by auto
      then show ?thesis using bs(1) by (metis append_Cons append_Nil append_assoc)
    qed
    moreover have "sorted_wrt (<) (bs # ?ys)"
    proof -
      have "sorted_wrt (<) ((ls @ [pr]) @ bp # rs)" using srt below up bs(1) by (fastforce simp: sorted_wrt_append)
      then show ?thesis unfolding bs(1) by simp
    qed
    moreover have "blk_end ?n y \<notin> unat ` set ?ys" if y: "y \<in> set ?ys" for y
    proof -
      have yS: "y \<in> ?S" using y bS by auto
      consider "y = bp" | "y \<in> set rs" | "y \<in> set us" using y by auto
      then have "blk_end ?m y \<notin> unat ` set ?ys"
      proof cases
        case 1
        have "unat x < blk_end ?m bp" if "x \<in> set us" for x
          using below [of x] that srt(2) bend by (auto simp: word_le_nat_alt word_less_nat_alt)
        then show ?thesis using co(3) bend unfolding 1 by fastforce
      next
        case 2
        have "unat x < blk_end ?m y" if "x \<in> set (bp # us)" for x
          using below [of x] that srt(2) up [OF 2] by (auto simp: blk_end_def word_le_nat_alt word_less_nat_alt)
        then show ?thesis using co(2) [OF 2] by fastforce
      next
        case 3
        have "blk_end ?m y \<noteq> unat bp"
        proof (cases "y = pr")
          case True
          then show ?thesis using False hadd_eq [of ?m pr bp] D(2) D(5) [of pr] yS by auto
        next
          case yp: False
          have "pr \<in> ?S" using pr 3 by auto
          moreover have "y < pr" using below [of y] 3 yp by auto
          ultimately have "blk_end ?m y \<le> unat pr"
            using D(8) [of y pr] yS yp D(6) [of pr] by (fastforce simp: word_less_nat_alt)
          then show ?thesis using srt(2) by (auto simp: word_less_nat_alt)
        qed
        then show ?thesis using co(1) [OF 3] by auto
      qed
      then show ?thesis using be [OF yS] by simp
    qed
    moreover have "hsize ?n bs = 0" using hs [of bs] sz0 by auto
    moreover have "pr \<in> set (bs # ?ys)" using pr by auto
    moreover have "hsize ?m bp \<le> hsize ?n bp" using hs [of bp] bS by auto
    ultimately show ?thesis using bs cs dj by (intro exI [of _ ?ys]) (auto simp: heap_def)
  qed
qed

text \<open>What lies outside the headers of free blocks and of the block freed keeps its bytes.\<close>

definition spared :: "uint \<Rightarrow> nat \<Rightarrow> uint set \<Rightarrow> uheap \<Rightarrow> uheap \<Rightarrow> bool" where
  "spared bs h0 A s t \<longleftrightarrow>
     (\<forall>x. (\<exists>a \<in> A. unat x \<in> blk (ubytes s) a) \<or> unat x < unat bs \<or> unat bs + 8 \<le> unat x \<and> unat x < h0 \<or> unat (brk t) \<le> unat x \<longrightarrow>
        ubytes t x = ubytes s x)"

lemma ufree_ok:
  assumes h: "heap bs h0 ys A s" and bp: "bp \<in> A"
  shows "\<exists>t ys'. ufree (bp + 8) s = Some t \<and> heap bs h0 ys' (A - {bp}) t \<and> brk t = brk s \<and>
    spared bs h0 (A - {bp}) s t \<and> (\<exists>y \<in> set ys'. hsize (ubytes s) bp \<le> hsize (ubytes t) y)"
proof -
  note H = heapD [OF h]
  note D = cellsD [OF H(8)]
  let ?m = "ubytes s"
  have bS: "bp \<in> set ys \<union> A" "bp \<notin> set ys" using bp H(7) by auto
  have bsbp: "bs < bp" "bp \<noteq> bs" using H(11) [OF bS(1)] by (auto simp: word_less_nat_alt)
  obtain ls pr rs where sp: "bs # ys = ls @ pr # rs" "pr < bp" "\<forall>y \<in> set ls. y < pr" "\<forall>y \<in> set rs. bp < y"
    using sorted_split [OF H(5), of bp] bsbp bS(2) by auto
  define us where "us = tl (ls @ [pr])"
  have us: "ls @ [pr] = bs # us" using sp(1) unfolding us_def by (cases ls) auto
  have ys: "ys = us @ rs"
  proof -
    have "bs # ys = (ls @ [pr]) @ rs" using sp(1) by simp
    then show ?thesis unfolding us by simp
  qed
  let ?q = "hptr ?m pr" and ?n = "ubytes (free_upper bp (hptr ?m pr) s)"
  have path: "hpath ?m bs ls pr" "hpath ?m ?q rs bs" using H(6) unfolding sp(1) by auto
  have srt: "sorted_wrt (<) (ls @ [pr])" "sorted_wrt (<) rs" "set us \<inter> set rs = {}"
    using H(5) unfolding us ys by (auto simp: sorted_wrt_append strict_sorted_iff)
  have S: "set ys \<union> A = set us \<union> set rs \<union> A" using ys by auto
  have find: "free_find ?m bp (freep s) = Some pr" by (rule free_find_ok [OF H(5) H(6) bsbp(1) H(4) sp])
  have bl: "low bp" using D(7) bS(1) by auto
  obtain rs' where u: "cells h0 (set us \<union> set rs' \<union> A) (free_upper bp ?q s)" "hpath ?n (hptr ?n bp) rs' bs"
    "blk_end ?n bp \<notin> unat ` set rs'" "set rs' \<subseteq> set rs" "sorted_wrt (<) rs'" "hsize ?m bp \<le> hsize ?n bp"
    using free_upper_ok [OF H(8) [unfolded S] bp _ srt(3) srt(2) sp(4) path(2) H(10) H(2)] H(7) H(9) ys by auto
  have sm: "hptr ?n x = hptr ?m x" "hsize ?n x = hsize ?m x" if "x \<in> insert bs (set ys \<union> A)" "x \<noteq> bp" for x
  proof -
    have "hapart bp x" "low x" using that D(7,9) bS(1) H(10) H(12) [of bp] by (auto simp: hapart_def)
    then show "hptr ?n x = hptr ?m x" "hsize ?n x = hsize ?m x" using free_upper_same bl by auto
  qed
  have be: "blk_end ?n y = blk_end ?m y" if "y \<in> set ys" for y
  proof -
    have "y \<noteq> bp" using that bS(2) by auto
    with sm(2) [of y] that show ?thesis by (simp add: blk_end_def)
  qed
  have lsm: "hptr ?n x = hptr ?m x" if "x \<in> set ls" for x
  proof -
    have "x \<in> set (bs # us)" unfolding us [symmetric] using that by simp
    then have "x \<in> insert bs (set ys \<union> A)" unfolding ys by auto
    moreover have "x \<noteq> bp" using that sp(2,3) by fastforce
    ultimately show ?thesis by (rule sm(1))
  qed
  let ?t = "(free_lower bp pr (free_upper bp ?q s))\<lparr>freep := pr\<rparr>"
  have "\<exists>ys'. heap bs h0 ys' (A - {bp}) ?t \<and>
    (\<exists>y \<in> set ys'. hsize ?n bp \<le> hsize (ubytes (free_lower bp pr (free_upper bp ?q s))) y)"
  proof (rule free_lower_ok [OF u(1) bp us H(1,2)])
    show "(set us \<union> set rs') \<inter> A = {}" using H(7) ys u(4) by auto
    show "hsize ?n bs = 0" using sm(2) [of bs] bsbp(2) H(3) by auto
    show "\<forall>x \<in> set rs'. bp < x" using sp(4) u(4) by auto
    show "hpath ?n bs ls pr" using path(1) lsm by (simp cong: hpath_cong)
    show "blk_end ?n y \<notin> unat ` (set us \<union> set rs')" if "y \<in> set us" for y
      using H(9) [of y] be [of y] that ys u(4) by auto
    show "blk_end ?n y \<notin> unat ` set rs'" if "y \<in> set rs'" for y
      using H(9) [of y] be [of y] subsetD [OF u(4) that] ys u(4) by auto
  qed (fact srt u sp)+
  then obtain ys' where ys': "heap bs h0 ys' (A - {bp}) ?t" "\<exists>y \<in> set ys'. hsize ?n bp \<le> hsize (ubytes ?t) y"
    by auto
  have "ufree (bp + 8) s = Some ?t" using find by (simp add: ufree_def)
  moreover have "brk ?t = brk s" by simp
  moreover have "spared bs h0 (A - {bp}) s ?t"
  proof (unfold spared_def, intro allI impI)
    fix x :: uint
    assume x: "(\<exists>a \<in> A - {bp}. unat x \<in> blk ?m a) \<or> unat x < unat bs \<or> unat bs + 8 \<le> unat x \<and> unat x < h0 \<or> unat (brk ?t) \<le> unat x"
    have out: "unat x < unat b \<or> unat b + 8 \<le> unat x" if b: "b \<in> insert bs (set ys \<union> {bp})" for b
    proof (cases "b = bs")
      case True
      then show ?thesis using x D(1) H(2) D(4) by (fastforce simp: blk_def)
    next
      case False
      then have bS: "b \<in> set ys \<union> A" using b bp by auto
      show ?thesis
      proof (cases "\<exists>a \<in> A - {bp}. unat x \<in> blk ?m a")
        case True
        then obtain a where a: "a \<in> A - {bp}" "unat x \<in> blk ?m a" by auto
        then have "a \<noteq> b" using b False H(7) by auto
        then show ?thesis using D(8) [of a b] D(6) [OF bS] a bS by (auto simp: blk_def)
      next
        case False
        then show ?thesis using x D(4) [OF bS] D(5) [OF bS] D(6) [OF bS] H(2) by auto
      qed
    qed
    have "pr \<in> set (bs # ys)" unfolding sp(1) by simp
    then have "pr \<in> insert bs (set ys)" by simp
    then have "low pr" using D(7) H(10) by auto
    then show "ubytes ?t x = ubytes s x" using out [of pr] out [of bp] \<open>pr \<in> insert bs (set ys)\<close> bl by auto
  qed
  moreover have "\<exists>y \<in> set ys'. hsize ?m bp \<le> hsize (ubytes ?t) y" using ys'(2) u(6) by (auto intro: order_trans)
  ultimately show ?thesis using ys'(1) by blast
qed

section \<open>Allocating\<close>

lemma spared_trans: 
  assumes "spared bs h0 A s t" "spared bs h0 A t u" "unat (brk t) \<le> unat (brk u)"
    "\<And>a. a \<in> A \<Longrightarrow> hsize (ubytes t) a = hsize (ubytes s) a"
  shows "spared bs h0 A s u"
proof -
  have "blk (ubytes t) a = blk (ubytes s) a" if "a \<in> A" for a using assms(4) [OF that] by (simp add: blk_def blk_end_def)
  then show ?thesis using assms(3) assms(1) [unfolded spared_def, rule_format] assms(2) [unfolded spared_def, rule_format]
    unfolding spared_def by (intro allI impI) (smt (verit) order_trans)
qed

lemma spared_size:
  assumes "spared bs h0 A s t" "cells h0 S s" "A \<subseteq> S" "a \<in> A"
  shows "hsize (ubytes t) a = hsize (ubytes s) a"
proof -
  have aS: "a \<in> S" using assms(3,4) by auto
  note D = cellsD [OF assms(2)]
  have "ubytes t (a + 4 + k) = ubytes s (a + 4 + k)" if "k < 4" for k
  proof -
    have l: "unat k < 4" using that by (simp add: word_less_nat_alt)
    then have "unat (a + 4 + k) = unat a + 4 + unat k"
      using unat_add4 [OF D(7) [OF aS]] D(7) [OF aS] by (subst unat_add_lt) (simp_all add: low_def)
    then have "unat (a + 4 + k) \<in> blk (ubytes s) a" using D(6) [OF aS] l by (auto simp: blk_def)
    then show ?thesis using assms(1,4) unfolding spared_def by blast
  qed
  then show ?thesis unfolding hsize_def by (rule load32_cong)
qed

lemma sless_pos: "unat (x :: uint) < 2147483648 \<Longrightarrow> 0 < unat x \<Longrightarrow> 0 <s x"
proof -
  assume x: "unat x < 2147483648" "0 < unat x"
  then have "sint x = int (unat x)" using sint_of_nat32 [of "unat x"] by simp
  with x(2) have "0 < sint x" by linarith
  then show ?thesis by (simp add: word_sless_alt)
qed

text \<open>The kernel has no room for \<open>n\<close> headers, or for 4096 of them if \<open>n\<close> is less.\<close>

definition refused :: "(uint \<Rightarrow> uint \<Rightarrow> bool) \<Rightarrow> uint \<Rightarrow> uheap \<Rightarrow> bool" where
  "refused grow n s \<longleftrightarrow>
     (let k = (if n < 4096 then 4096 else n) * 8 in KERNBASE \<le> brk s + k \<or> \<not> grow (brk s) k)"

lemma morecore_ok:
  assumes h: "heap bs h0 ys A s" and n: "unat n < 268435456"
  shows "refused grow n s \<and> morecore grow n s = Some (0, s) \<or> (\<exists>t ys'. morecore grow n s = Some (freep t, t) \<and> freep t \<noteq> 0 \<and>
    heap bs h0 ys' A t \<and> spared bs h0 A s t \<and> unat (brk s) \<le> unat (brk t) \<and> (\<exists>y \<in> set ys'. n \<le> hsize (ubytes t) y))"
proof -
  note H = heapD [OF h]
  note D = cellsD [OF H(8)]
  define nu where "nu = (if n < 4096 then 4096 else n)"
  let ?S = "set ys \<union> A" and ?old = "brk s"
  have nu: "n \<le> nu" "unat nu < 268435456" "4096 \<le> unat nu"
    using n unfolding nu_def by (auto simp: word_less_nat_alt word_le_nat_alt)
  have u8: "unat (nu * 8) = 8 * unat nu" using nu(2) by (simp add: unat_word_ariths)
  have pos: "0 <s nu * 8" using nu u8 by (intro sless_pos) auto
  show ?thesis
  proof (cases "KERNBASE \<le> ?old + nu * 8 \<or> \<not> grow ?old (nu * 8)")
    case True
    then have "sbrk grow (nu * 8) s = (- 1, s)" using pos by (auto simp: sbrk_def Let_def)
    then show ?thesis using True by (simp add: morecore_def refused_def nu_def [symmetric] Let_def)
  next
    case False
    define s1 where "s1 = set_size ?old nu (s\<lparr>brk := ?old + nu * 8\<rparr>)"
    let ?m = "ubytes s" and ?n = "ubytes s1"
    have sb: "sbrk grow (nu * 8) s = (?old, s\<lparr>brk := ?old + nu * 8\<rparr>)" using False pos by (auto simp: sbrk_def Let_def)
    have b1: "unat (?old + nu * 8) = unat ?old + 8 * unat nu"
      using D(2) nu(2) u8 by (subst unat_add_lt) auto
    have bk: "unat (brk s1) < 2147483648" "brk s1 < KERNBASE" "brk s1 = ?old + nu * 8"
      using False by (auto simp: s1_def KERNBASE_def word_less_nat_alt word_le_nat_alt)
    have lo: "low ?old" using bk b1 nu by (simp add: low_def)
    have ap: "hapart ?old x" "low x" if "x \<in> insert bs ?S" for x
      using that D(5) [of x] D(6) [of x] D(7) [of x] H(2,10) D(1) by (auto simp: hapart_def)
    have sm: "hptr ?n x = hptr ?m x" "hsize ?n x = hsize ?m x" if "x \<in> insert bs ?S" for x
      using ap [OF that] lo by (simp_all add: s1_def)
    have so: "hsize ?n ?old = nu" using lo by (simp add: s1_def)
    have eo: "blk_end ?n ?old = unat (brk s1)" using so b1 bk(3) by (simp add: blk_end_def)
    have nz: "unat (hsize ?n ?old) \<noteq> 0" using so nu(3) by simp
    note E = cells_extend [OF H(8) nz refl eo bk(2) sm(2)]
    have h1: "heap bs h0 ys (insert ?old A) s1"
    proof -
      have "blk_end ?n y = blk_end ?m y" if "y \<in> set ys" for y using sm(2) [of y] that by (simp add: blk_end_def)
      moreover have "hpath ?n bs (bs # ys) bs" 
      proof -
        have "hptr ?n z = hptr ?m z" if "z \<in> set (bs # ys)" for z using that sm(1) by auto
        then show ?thesis using H(6) by (metis hpath_cong)
      qed
      moreover have "cells h0 (set ys \<union> insert ?old A) s1" using E(1) by auto
      moreover have "freep s1 = freep s" by (simp add: s1_def)
      ultimately show ?thesis using H sm(2) [of bs] E(2) unfolding heap_def by auto
    qed
    have oA: "?old \<notin> A" using E(2) by auto
    obtain t ys' where t: "ufree (?old + 8) s1 = Some t" "heap bs h0 ys' (insert ?old A - {?old}) t" "brk t = brk s1"
      "spared bs h0 (insert ?old A - {?old}) s1 t" "\<exists>y \<in> set ys'. hsize ?n ?old \<le> hsize (ubytes t) y"
      using ufree_ok [OF h1, of ?old] by auto
    have A: "insert ?old A - {?old} = A" using oA by auto
    note t' = t [unfolded A]
    note T = heapD [OF t'(2)]
    have fz: "freep t \<noteq> 0" using T(1,4) T(11) [of "freep t"] by auto
    have "?old \<noteq> - 1" using D(2) by (auto simp: unsigned_minus_1_eq_mask mask_eq_exp_minus_1)
    then have mc: "morecore grow n s = Some (freep t, t)"
      using sb t'(1) by (simp add: morecore_def nu_def [symmetric] Let_def s1_def hadd_def)
    have "spared bs h0 A s s1"
    proof (unfold spared_def, intro allI impI)
      fix x :: uint
      assume x: "(\<exists>a \<in> A. unat x \<in> blk ?m a) \<or> unat x < unat bs \<or> unat bs + 8 \<le> unat x \<and> unat x < h0 \<or> unat (brk s1) \<le> unat x"
      have "unat x < unat ?old \<or> unat ?old + 8 \<le> unat x"
        using x D(1,5) H(2) b1 bk(3) nu(3) by (fastforce simp: blk_def)
      then show "ubytes s1 x = ubytes s x" using header_frame [OF lo] by (simp add: s1_def)
    qed
    then have "spared bs h0 A s t" by (rule spared_trans [OF _ t'(4)]) (use t'(3) sm(2) in auto)
    moreover have "\<exists>y \<in> set ys'. n \<le> hsize (ubytes t) y" using t'(5) nu(1) unfolding so by (auto intro: order_trans)
    moreover have "unat (brk s) \<le> unat (brk t)" using t'(3) bk(3) b1 by simp
    ultimately show ?thesis using mc fz t'(2) by blast
  qed
qed

text \<open>Taking a block out of the list, whole or from its end.\<close>

lemma hpath_map: "hpath m p xs q \<Longrightarrow> map (hptr m) xs = tl (xs @ [q])"
proof (induction xs arbitrary: p)
  case (Cons x xs)
  then show ?case by (cases xs) auto
qed simp

lemma ring_pred:
  assumes "hpath m bs (bs # ys) bs" "sorted_wrt (<) (bs # ys)" "a \<in> set (bs # ys)" "b \<in> set (bs # ys)" "hptr m a = hptr m b"
  shows "a = b"
proof -
  have "distinct (bs # ys)" using assms(2) by (simp only: strict_sorted_iff)
  moreover have "map (hptr m) (bs # ys) = ys @ [bs]" using hpath_map [OF assms(1)] by simp
  ultimately have "distinct (map (hptr m) (bs # ys))" by simp
  then have "inj_on (hptr m) (set (bs # ys))" by (simp only: distinct_map)
  then show ?thesis using assms(3-5) by (metis inj_onD)
qed

definition took :: "uint \<Rightarrow> nat \<Rightarrow> uint set \<Rightarrow> uint \<Rightarrow> uheap \<Rightarrow> uint \<Rightarrow> uheap \<Rightarrow> bool" where
  "took bs h0 A n s ap t \<longleftrightarrow> ap \<noteq> 0 \<and> ap - 8 \<notin> A \<and> (\<exists>ys. heap bs h0 ys (insert (ap - 8) A) t) \<and> hsize (ubytes t) (ap - 8) = n \<and>
     spared bs h0 A s t \<and> unat (brk s) \<le> unat (brk t)"

lemma spared_free:
  assumes h: "heap bs h0 ys A s" and b: "brk t = brk s"
    and o: "\<And>x. (\<And>b. b \<in> insert bs (set ys) \<Longrightarrow> unat x < unat b \<or> blk_end (ubytes s) b \<le> unat x \<and> unat b + 8 \<le> unat x) \<Longrightarrow> ubytes t x = ubytes s x"
  shows "spared bs h0 A s t"
proof (unfold spared_def, intro allI impI, rule o)
  note H = heapD [OF h]
  note D = cellsD [OF H(8)]
  fix x b :: uint
  assume x: "(\<exists>a \<in> A. unat x \<in> blk (ubytes s) a) \<or> unat x < unat bs \<or> unat bs + 8 \<le> unat x \<and> unat x < h0 \<or> unat (brk t) \<le> unat x"
    and b: "b \<in> insert bs (set ys)"
  show "unat x < unat b \<or> blk_end (ubytes s) b \<le> unat x \<and> unat b + 8 \<le> unat x"
  proof (cases "b = bs")
    case True
    then show ?thesis using x H(2,3) D(1,4) assms(2) by (fastforce simp: blk_def blk_end_def)
  next
    case False
    then have bS: "b \<in> set ys \<union> A" using b by auto
    show ?thesis
    proof (cases "\<exists>a \<in> A. unat x \<in> blk (ubytes s) a")
      case True
      then obtain a where a: "a \<in> A" "unat x \<in> blk (ubytes s) a" by auto
      then have "a \<noteq> b" using b False H(7) by auto
      then show ?thesis using D(8) [of a b] D(6) [OF bS] a bS by (auto simp: blk_def)
    next
      case False
      then show ?thesis using x D(4) [OF bS] D(5) [OF bS] D(6) [OF bS] H(2) assms(2) by auto
    qed
  qed
qed

lemma insert_eq_diff: "insert b X = insert b Y - {p} \<Longrightarrow> b \<notin> Y \<Longrightarrow> b \<notin> X \<Longrightarrow> X = Y - {p}"
proof (rule set_eqI)
  fix x assume a: "insert b X = insert b Y - {p}" "b \<notin> Y" "b \<notin> X"
  have "x \<in> insert b X \<longleftrightarrow> x \<in> insert b Y - {p}" using a(1) by simp
  then show "x \<in> X \<longleftrightarrow> x \<in> Y - {p}" using a(2,3) by (cases "x = b") auto
qed

lemma take_whole:
  assumes h: "heap bs h0 ys A s" and p: "p \<in> set ys" "pv \<in> set (bs # ys)" "hptr (ubytes s) pv = p"
  shows "\<exists>ys'. heap bs h0 ys' (insert p A) ((set_ptr pv (hptr (ubytes s) p) s)\<lparr>freep := pv\<rparr>)" and
    "spared bs h0 A s (set_ptr pv (hptr (ubytes s) p) s)"
    "hsize (ubytes (set_ptr pv (hptr (ubytes s) p) s)) p = hsize (ubytes s) p"
proof -
  note H = heapD [OF h]
  note D = cellsD [OF H(8)]
  let ?m = "ubytes s" and ?t = "set_ptr pv (hptr (ubytes s) p) s"
  obtain us vs where sp: "bs # ys = us @ pv # vs" using p(2) by (metis split_list)
  have nx: "hptr ?m pv = hd (vs @ [bs])" using H(6) unfolding sp by (rule hpath_next)
  have "p \<noteq> bs" using p(1) H(11) [of p] by auto
  with nx p(3) obtain vs' where vs: "vs = p # vs'" by (cases vs) auto
  note sp = sp [unfolded vs]
  have dist: "distinct (us @ pv # p # vs')" using H(5) unfolding sp by (simp only: strict_sorted_iff)
  have pvl: "low pv" using p(2) D(7) H(10) by auto
  have ap: "hapart pv x" "low x" if "x \<in> insert bs (set ys \<union> A)" "x \<noteq> pv" for x
    using that p(2) D(7,9) H(10) H(12) [of pv] H(12) [of x] by (auto simp: hapart_def)
  have sm: "hptr (ubytes ?t) x = (if x = pv then hptr ?m p else hptr ?m x)" "hsize (ubytes ?t) x = hsize ?m x"
    if "x \<in> insert bs (set ys \<union> A)" for x
    using ap [OF that] pvl by (cases "x = pv"; simp)+
  show "hsize (ubytes ?t) p = hsize ?m p" using sm(2) [of p] p(1) by auto
  have R: "set (us @ pv # p # vs') = insert bs (set ys)" unfolding sp [symmetric] by simp
  define ys' where "ys' = tl (us @ pv # vs')"
  have e: "us @ pv # vs' = bs # ys'" using sp unfolding ys'_def by (cases us) auto
  have srt: "sorted_wrt (<) (bs # ys')" using H(5) unfolding e [symmetric] sp by (auto simp: sorted_wrt_append)
  have "set (bs # ys') = insert bs (set ys) - {p}" unfolding e [symmetric] R [symmetric] using dist by auto
  moreover have "bs \<notin> set ys" "bs \<notin> set ys'" using H(5) srt by auto
  ultimately have ys': "set ys' = set ys - {p}" unfolding list.set by (rule insert_eq_diff)
  show "\<exists>ys'. heap bs h0 ys' (insert p A) (?t\<lparr>freep := pv\<rparr>)"
  proof (rule exI [of _ ys'], unfold heap_def, intro conjI ballI)
    show "bs \<noteq> 0" "unat bs + 8 \<le> h0" by (rule H)+
    show "hsize (ubytes (?t\<lparr>freep := pv\<rparr>)) bs = 0" using sm(2) [of bs] H(3) by simp
    show "freep (?t\<lparr>freep := pv\<rparr>) \<in> set (bs # ys')" unfolding e [symmetric] by simp
    show "sorted_wrt (<) (bs # ys')" by (rule srt)
    have "hpath ?m bs (us @ pv # p # vs') bs" using H(6) unfolding sp .
    then have P: "hpath ?m bs us pv" "hpath ?m (hptr ?m p) vs' bs" by auto
    have e1: "hptr (ubytes ?t) x = hptr ?m x" if "x \<in> set us \<union> set vs'" for x
    proof -
      have "x \<in> insert bs (set ys \<union> A)" using that unfolding R [symmetric] Un_insert_left [symmetric] by auto
      moreover have "x \<noteq> pv" using that dist by auto
      ultimately show ?thesis using sm(1) by simp
    qed
    have "hpath (ubytes ?t) bs us pv = hpath ?m bs us pv" by (rule hpath_cong) (simp add: e1)
    moreover have "hpath (ubytes ?t) (hptr ?m p) vs' bs = hpath ?m (hptr ?m p) vs' bs" by (rule hpath_cong) (simp add: e1)
    ultimately have "hpath (ubytes ?t) bs us pv" "hpath (ubytes ?t) (hptr ?m p) vs' bs" using P by (simp_all only:)
    then have "hpath (ubytes ?t) bs (us @ pv # vs') bs" using sm(1) [of pv] p(2) by auto
    then show "hpath (ubytes (?t\<lparr>freep := pv\<rparr>)) bs (bs # ys') bs" unfolding e by simp
    show "set ys' \<inter> insert p A = {}" using ys' H(7) by auto
    have "set ys' \<union> insert p A = set ys \<union> A" using ys' p(1) by auto
    then show "cells h0 (set ys' \<union> insert p A) (?t\<lparr>freep := pv\<rparr>)" using sm(2) by (auto intro!: cells_cong [OF H(8)])
    show "blk_end (ubytes (?t\<lparr>freep := pv\<rparr>)) y \<notin> unat ` set ys'" if "y \<in> set ys'" for y
      using H(9) [of y] that sm(2) [of y] ys' by (auto simp: blk_end_def)
  qed
  show "spared bs h0 A s ?t"
  proof (rule spared_free [OF h])
    fix x :: uint
    assume "\<And>b. b \<in> insert bs (set ys) \<Longrightarrow> unat x < unat b \<or> blk_end ?m b \<le> unat x \<and> unat b + 8 \<le> unat x"
    from this [of pv] p(2) show "ubytes ?t x = ubytes s x" by (intro header_frame(1) [OF pvl]) auto
  qed simp
qed

lemma take_tail:
  assumes h: "heap bs h0 ys A s" and p: "p \<in> set ys" "pv \<in> set (bs # ys)" and n: "n < hsize (ubytes s) p" "n \<noteq> 0"
  defines "s1 \<equiv> set_size p (hsize (ubytes s) p - n) s"
  defines "q \<equiv> hadd p (hsize (ubytes s1) p)"
  shows "heap bs h0 ys (insert q A) ((set_size q n s1)\<lparr>freep := pv\<rparr>)" and
    "spared bs h0 A s (set_size q n s1)" "hsize (ubytes (set_size q n s1)) q = n" "q \<notin> A" "low q" "h0 \<le> unat q"
proof -
  note H = heapD [OF h]
  note D = cellsD [OF H(8)]
  let ?m = "ubytes s" and ?S = "set ys \<union> A" and ?t = "set_size q n s1"
  have pS: "p \<in> ?S" and pl: "low p" using p(1) D(7) by auto
  have hd: "hsize (ubytes s1) p = hsize ?m p - n" using pl by (simp add: s1_def)
  have un: "unat (hsize ?m p - n) = unat (hsize ?m p) - unat n" "unat n < unat (hsize ?m p)" "0 < unat n"
    using n by (auto simp: unat_sub word_less_nat_alt unat_gt_0 word_le_nat_alt)
  have be: "blk_end ?m p = unat p + 8 * unat (hsize ?m p)" "blk_end ?m p \<le> unat (brk s)"
    using D(5) [OF pS] by (simp_all add: blk_end_def)
  have "blk_end (ubytes s1) p \<le> 2147483648" using hd un be D(2) by (simp add: blk_end_def)
  from hadd_eq [OF this, of q] have uq: "unat q = unat p + 8 * (unat (hsize ?m p) - unat n)"
    unfolding q_def [symmetric] using hd un(1) by (simp add: blk_end_def)
  have q8: "unat p + 8 \<le> unat q" "unat q + 8 * unat n = blk_end ?m p" using uq un be(1) by auto
  show ql: "low q" using q8(2) un(3) be(2) D(2) by (simp add: low_def)
  show "h0 \<le> unat q" using q8(1) D(4) [OF pS] by simp
  have apq: "hapart q x" if "x \<in> insert bs ?S" for x
  proof (cases "x = p \<or> x = bs")
    case True
    then show ?thesis using q8(1) H(11) [of p] pS by (auto simp: hapart_def)
  next
    case False
    then have "x \<in> ?S" "x \<noteq> p" using that by auto
    then show ?thesis using D(6) [of x] D(8) [OF pS, of x] q8 un(3) by (auto simp: hapart_def)
  qed
  have app: "hapart p x" "low x" if "x \<in> insert bs ?S" "x \<noteq> p" for x
    using that D(7,9) pS H(10) H(12) [OF pS] by (auto simp: hapart_def)
  have lx: "low x" if "x \<in> insert bs ?S" for x using that D(7) H(10) by auto
  have ptr: "hptr (ubytes ?t) x = hptr ?m x" if "x \<in> insert bs ?S" for x
  proof (cases "x = p")
    case True
    then show ?thesis using apq [OF that] ql pl by (simp add: s1_def)
  next
    case False
    then show ?thesis using apq [OF that] lx [OF that] app [OF that] ql pl by (simp add: s1_def)
  qed
  have sz: "hsize (ubytes ?t) x = (if x = p then hsize ?m p - n else hsize ?m x)" if "x \<in> insert bs ?S" for x
  proof (cases "x = p")
    case True
    then show ?thesis using apq [OF that] ql pl by (simp add: s1_def)
  next
    case False
    then show ?thesis using apq [OF that] lx [OF that] app [OF that] ql pl by (simp add: s1_def)
  qed
  show sq: "hsize (ubytes ?t) q = n" using ql by simp
  have ep: "blk_end (ubytes ?t) p = unat q" using sz [of p] pS un(1) uq by (simp add: blk_end_def)
  have eq: "blk_end (ubytes ?t) q = blk_end ?m p" using sq q8(2) by (simp add: blk_end_def)
  have nz: "hsize (ubytes ?t) p \<noteq> 0"
  proof
    assume "hsize (ubytes ?t) p = 0"
    then have "unat (hsize ?m p - n) = 0" using sz [of p] pS by simp
    then show False using un by simp
  qed
  have ns: "hsize (ubytes ?t) q \<noteq> 0" using sq n(2) by simp
  have b: "brk ?t = brk s" by (simp add: s1_def)
  have so: "hsize (ubytes ?t) x = hsize ?m x" if "x \<in> ?S - {p}" for x using sz [of x] that by auto
  note C = cells_split [OF H(8) pS ep nz ns eq b so]
  show "q \<notin> A" using C(2) by simp
  show "heap bs h0 ys (insert q A) (?t\<lparr>freep := pv\<rparr>)"
  proof (unfold heap_def, intro conjI ballI)
    show "bs \<noteq> 0" "unat bs + 8 \<le> h0" "sorted_wrt (<) (bs # ys)" by (rule H)+
    have "bs \<noteq> p" using p(1) H(11) [of p] by auto
    then show "hsize (ubytes (?t\<lparr>freep := pv\<rparr>)) bs = 0" using sz [of bs] H(3) by simp
    show "freep (?t\<lparr>freep := pv\<rparr>) \<in> set (bs # ys)" using p(2) by simp
    have "hpath (ubytes ?t) bs (bs # ys) bs = hpath ?m bs (bs # ys) bs" by (rule hpath_cong) (use ptr in auto)
    then show "hpath (ubytes (?t\<lparr>freep := pv\<rparr>)) bs (bs # ys) bs" using H(6) by simp
    show "set ys \<inter> insert q A = {}" using H(7) C(2) by auto
    have "cells h0 (set ys \<union> insert q A) ?t" using C(1) by simp
    then show "cells h0 (set ys \<union> insert q A) (?t\<lparr>freep := pv\<rparr>)" by (rule cells_cong) simp_all
    show "blk_end (ubytes (?t\<lparr>freep := pv\<rparr>)) y \<notin> unat ` set ys" if y: "y \<in> set ys" for y
    proof (cases "y = p")
      case True
      have "unat q \<notin> unat ` set ys" using C(2) by (metis UnI1 imageE word_unat_eq_iff)
      then show ?thesis using ep unfolding True by simp
    next
      case False
      then show ?thesis using H(9) [OF y] so [of y] y by (simp add: blk_end_def)
    qed
  qed
  show "spared bs h0 A s ?t"
  proof (rule spared_free [OF h b])
    fix x :: uint
    assume "\<And>b. b \<in> insert bs (set ys) \<Longrightarrow> unat x < unat b \<or> blk_end ?m b \<le> unat x \<and> unat b + 8 \<le> unat x"
    from this [of p] p(1) have "unat x < unat p \<or> blk_end ?m p \<le> unat x" by auto
    then show "ubytes ?t x = ubytes s x"
      using header_frame(2) [OF ql, of x] header_frame(2) [OF pl, of x] q8 un(3) by (auto simp: s1_def)
  qed
qed

lemma malloc_take_ok:
  assumes h: "heap bs h0 ys A s" and p: "p \<in> set (bs # ys)" "pv \<in> set (bs # ys)" "hptr (ubytes s) pv = p" "n \<le> hsize (ubytes s) p" "n \<noteq> 0"
  shows "took bs h0 A n s (fst (malloc_take n pv p s)) (snd (malloc_take n pv p s))"
proof -
  note H = heapD [OF h]
  note D = cellsD [OF H(8)]
  have py: "p \<in> set ys" using p(1,4,5) H(3) by auto
  have h8: "hadd x 1 - 8 = x" for x by (simp add: hadd_def)
  have nz: "hadd x 1 \<noteq> 0" if "low x" for x
  proof
    assume "hadd x 1 = 0"
    moreover have "unat (hadd x 1) = unat x + 8" using that by (simp add: hadd_def low_def unat_add_lt)
    ultimately show False by simp
  qed
  have fr: "spared bs h0 A s (t\<lparr>freep := pv\<rparr>)" if "spared bs h0 A s t" for t using that by (simp add: spared_def)
  show ?thesis
  proof (cases "hsize (ubytes s) p = n")
    case True
    note T = take_whole [OF h py p(2,3)]
    have "p \<notin> A" using py H(7) by auto
    then show ?thesis using T(1) fr [OF T(2)] T(3) True nz [of p] D(7) [of p] py
      by (simp add: malloc_take_def took_def h8)
  next
    case False
    then have "n < hsize (ubytes s) p" using p(4) by auto
    note T = take_tail [OF h py p(2) this p(5)]
    show ?thesis using T(1) fr [OF T(2)] T(3,4) nz [OF T(5)] False
      by (simp add: malloc_take_def took_def h8 Let_def) blast
  qed
qed

text \<open>The loop passes the blocks that are too small, and asks for memory after the last one.\<close>

lemma malloc_scan:
  assumes "hpath (ubytes s) p (zs @ [freep s]) q" "freep s \<notin> set zs" "pv \<in> R" "hptr (ubytes s) pv = p" "set zs \<union> {freep s} \<subseteq> R"
  shows "(\<exists>x pv'. x \<in> R \<and> n \<le> hsize (ubytes s) x \<and> pv' \<in> R \<and> hptr (ubytes s) pv' = x \<and>
       malloc_loop grow n pv p s = Some (malloc_take n pv' x s)) \<or>
     (\<forall>x \<in> set zs \<union> {freep s}. hsize (ubytes s) x < n) \<and>
     malloc_loop grow n pv p s = (case morecore grow n s of None \<Rightarrow> None
        | Some r \<Rightarrow> if fst r = 0 then Some (0, snd r)
                    else malloc_loop grow n (fst r) (hptr (ubytes (snd r)) (fst r)) (snd r))"
  using assms
proof (induction zs arbitrary: p pv)
  case Nil
  then have p: "p = freep s" by simp
  show ?case
  proof (cases "n \<le> hsize (ubytes s) p")
    case True
    then have "malloc_loop grow n pv p s = Some (malloc_take n pv p s)" by (subst malloc_loop.simps) simp
    then show ?thesis using Nil.prems p True by auto
  next
    case False
    then show ?thesis using p by (subst malloc_loop.simps) (auto split: option.splits)
  qed
next
  case (Cons z zs)
  then have p: "p = z" by simp
  show ?case
  proof (cases "n \<le> hsize (ubytes s) p")
    case True
    then have "malloc_loop grow n pv p s = Some (malloc_take n pv p s)" by (subst malloc_loop.simps) simp
    then show ?thesis using Cons.prems p True by auto
  next
    case False
    have e: "malloc_loop grow n pv p s = malloc_loop grow n p (hptr (ubytes s) p) s"
      using False Cons.prems(2) p by (subst malloc_loop.simps) auto
    show ?thesis unfolding e using Cons.IH [of "hptr (ubytes s) p" p] Cons.prems False p by auto
  qed
qed

lemma malloc_round:
  assumes h: "heap bs h0 ys A s" and n: "n \<noteq> 0"
  shows "(\<exists>ap t. malloc_loop grow n (freep s) (hptr (ubytes s) (freep s)) s = Some (ap, t) \<and> took bs h0 A n s ap t) \<or>
     (\<forall>y \<in> set ys. hsize (ubytes s) y < n) \<and>
     malloc_loop grow n (freep s) (hptr (ubytes s) (freep s)) s = (case morecore grow n s of None \<Rightarrow> None
        | Some r \<Rightarrow> if fst r = 0 then Some (0, snd r)
                    else malloc_loop grow n (fst r) (hptr (ubytes (snd r)) (fst r)) (snd r))"
    (is "?found \<or> ?more")
proof -
  note H = heapD [OF h]
  let ?m = "ubytes s"
  obtain us vs where sp: "bs # ys = us @ freep s # vs" using H(4) by (metis split_list)
  have "hpath ?m bs (us @ freep s # vs) bs" using H(6) unfolding sp .
  then have path: "hpath ?m (hptr ?m (freep s)) ((vs @ us) @ [freep s]) (hptr ?m (freep s))" by auto
  have "distinct (us @ freep s # vs)" using H(5) unfolding sp by (simp only: strict_sorted_iff)
  then have nf: "freep s \<notin> set (vs @ us)" by auto
  have R: "set (vs @ us) \<union> {freep s} = set (bs # ys)" unfolding sp by auto
  show ?thesis
  proof (rule malloc_scan [OF path nf H(4) refl, of n grow, THEN disjE])
    show "set (vs @ us) \<union> {freep s} \<subseteq> set (bs # ys)" using R by simp
  next
    assume "\<exists>x pv'. x \<in> set (bs # ys) \<and> n \<le> hsize ?m x \<and> pv' \<in> set (bs # ys) \<and> hptr ?m pv' = x \<and>
       malloc_loop grow n (freep s) (hptr ?m (freep s)) s = Some (malloc_take n pv' x s)"
    then obtain x pv' where x: "x \<in> set (bs # ys)" "n \<le> hsize ?m x" "pv' \<in> set (bs # ys)" "hptr ?m pv' = x"
       "malloc_loop grow n (freep s) (hptr ?m (freep s)) s = Some (malloc_take n pv' x s)" by blast
    from malloc_take_ok [OF h x(1) x(3) x(4) x(2) n] x(5) have ?found by (metis prod.collapse)
    then show ?thesis ..
  next
    assume "(\<forall>x \<in> set (vs @ us) \<union> {freep s}. hsize ?m x < n) \<and>
     malloc_loop grow n (freep s) (hptr ?m (freep s)) s = (case morecore grow n s of None \<Rightarrow> None
        | Some r \<Rightarrow> if fst r = 0 then Some (0, snd r)
                    else malloc_loop grow n (fst r) (hptr (ubytes (snd r)) (fst r)) (snd r))"
    then have ?more unfolding R by simp
    then show ?thesis ..
  qed
qed

lemma malloc_loop_ok:
  assumes h: "heap bs h0 ys A s" and n: "n \<noteq> 0" "unat n < 268435456"
  shows "\<exists>ap t. malloc_loop grow n (freep s) (hptr (ubytes s) (freep s)) s = Some (ap, t) \<and>
    (refused grow n s \<and> ap = 0 \<and> t = s \<or> took bs h0 A n s ap t)"
proof (rule malloc_round [OF h n(1), of grow, THEN disjE])
  assume more: "(\<forall>y \<in> set ys. hsize (ubytes s) y < n) \<and>
     malloc_loop grow n (freep s) (hptr (ubytes s) (freep s)) s = (case morecore grow n s of None \<Rightarrow> None
        | Some r \<Rightarrow> if fst r = 0 then Some (0, snd r)
                    else malloc_loop grow n (fst r) (hptr (ubytes (snd r)) (fst r)) (snd r))"
  show ?thesis
  proof (cases "refused grow n s \<and> morecore grow n s = Some (0, s)")
    case True
    then show ?thesis using more by simp
  next
    case False
    then obtain t ys' where t: "morecore grow n s = Some (freep t, t)" "freep t \<noteq> 0" "heap bs h0 ys' A t"
      "spared bs h0 A s t" "unat (brk s) \<le> unat (brk t)" "\<exists>y \<in> set ys'. n \<le> hsize (ubytes t) y"
      using morecore_ok [OF h n(2), of grow] by blast
    from malloc_round [OF t(3) n(1), of grow] t(6)
    obtain ap u where u: "malloc_loop grow n (freep t) (hptr (ubytes t) (freep t)) t = Some (ap, u)" "took bs h0 A n t ap u"
      by (meson leD)
    have sz: "hsize (ubytes t) a = hsize (ubytes s) a" if "a \<in> A" for a
      by (rule spared_size [OF t(4) heapD(8) [OF h] _ that]) auto
    have "spared bs h0 A s u"
      by (rule spared_trans [OF t(4) _ _ sz]) (use u(2) in \<open>auto simp: took_def\<close>)
    then have "took bs h0 A n s ap u" using u(2) t(5) by (auto simp: took_def)
    then show ?thesis using more t(1,2) u(1) by auto
  qed
qed blast

section \<open>Properties\<close>

text \<open>The heap of a running program: before the first \<open>malloc\<close> there is none.\<close>

definition heap_ok :: "uint \<Rightarrow> nat \<Rightarrow> uint set \<Rightarrow> uheap \<Rightarrow> bool" where
  "heap_ok bs h0 A s \<longleftrightarrow> (\<exists>ys. heap bs h0 ys A s) \<or>
     freep s = 0 \<and> A = {} \<and> bs \<noteq> 0 \<and> unat bs + 8 \<le> h0 \<and> h0 = unat (brk s) \<and> brk s < KERNBASE"

lemma heap_okD:
  assumes "heap_ok bs h0 A s"
  shows "disjoint_family_on (blk (ubytes s)) A" "\<And>a. a \<in> A \<Longrightarrow> blk (ubytes s) a \<subseteq> {h0..<unat (brk s)}"
    "\<And>a. a \<in> A \<Longrightarrow> low a \<and> unat a + 8 \<le> blk_end (ubytes s) a" "A \<noteq> {} \<Longrightarrow> \<exists>ys. heap bs h0 ys A s"
  using assms heapD(8) cellsD(6,7) unfolding heap_ok_def cells_def disjoint_family_on_def
  by (blast, blast, metis Un_iff empty_iff heapD(8) cellsD(6,7), blast)

text \<open>The number of headers for \<open>nbytes\<close>, without overflow.\<close>

lemma nunits_ok:
  fixes nbytes :: uint
  assumes "unat nbytes + 16 \<le> 2147483648"
  defines "n \<equiv> (nbytes + 8 - 1) div 8 + 1"
  shows "n \<noteq> 0" "unat n < 268435456" "unat nbytes \<le> 8 * unat n - 8"
proof -
  have e: "nbytes + 8 - 1 = nbytes + 7" by simp
  have "unat (nbytes + 7) = unat nbytes + 7" using assms(1) by (subst unat_add_lt) auto
  then have d: "unat ((nbytes + 7) div 8) = (unat nbytes + 7) div 8" by (simp add: unat_div)
  have u: "unat n = (unat nbytes + 7) div 8 + 1"
    unfolding n_def e using d assms(1) by (subst unat_add_lt) auto
  show "unat n < 268435456" "unat nbytes \<le> 8 * unat n - 8" using u assms(1) by auto
  show "n \<noteq> 0" using u by (metis add_is_0 one_neq_zero unat_0)
qed

lemma malloc_ok:
  assumes h: "heap_ok bs h0 A s" and n: "unat nbytes + 16 \<le> 2147483648"
  shows "\<exists>ap t. malloc grow bs nbytes s = Some (ap, t) \<and> spared bs h0 A s t \<and>
    (ap = 0 \<and> refused grow ((nbytes + 7) div 8 + 1) s \<and> heap_ok bs h0 A t \<or> took bs h0 A ((nbytes + 7) div 8 + 1) s ap t)"
proof -
  define s' where "s' = (if freep s = 0 then set_size bs 0 (set_ptr bs bs (s\<lparr>freep := bs\<rparr>)) else s)"
  have h': "\<exists>ys. heap bs h0 ys A s'" and eq: "brk s' = brk s" and ut: "spared bs h0 A s s'"
    and sz: "\<And>a. a \<in> A \<Longrightarrow> hsize (ubytes s') a = hsize (ubytes s) a"
  proof -
    show "\<exists>ys. heap bs h0 ys A s'"
    proof (cases "freep s = 0")
      case True
      have "\<not> heap bs h0 ys A s" for ys using heapD(4,11) [of bs h0 ys A s] True heapD(1) [of bs h0 ys A s] by fastforce
      then have b: "A = {}" "bs \<noteq> 0" "unat bs + 8 \<le> h0" "h0 = unat (brk s)" "brk s < KERNBASE"
        using h unfolding heap_ok_def by auto
      then have "low bs" by (auto simp: low_def KERNBASE_def word_less_nat_alt)
      then have "heap bs h0 [] {} s'" using b True by (simp add: heap_def s'_def cells_def disjoint_family_on_def)
      then show ?thesis using b(1) by blast
    next
      case False
      then show ?thesis using h by (auto simp: s'_def heap_ok_def)
    qed
    show "brk s' = brk s" by (simp add: s'_def)
    have "low bs" using \<open>\<exists>ys. heap bs h0 ys A s'\<close> heapD(10) by blast
    then show u: "spared bs h0 A s s'"
    proof -
      have "unat bs + 8 \<le> h0" using \<open>\<exists>ys. heap bs h0 ys A s'\<close> heapD(2) by blast
      have "unat x < unat bs \<or> unat bs + 8 \<le> unat x" if "a \<in> A" "unat x \<in> blk (ubytes s) a" for x :: uint and a
        using heap_okD(2) [OF h that(1)] that(2) \<open>unat bs + 8 \<le> h0\<close> by auto
      moreover have "h0 \<le> unat (brk s)" using \<open>\<exists>ys. heap bs h0 ys A s'\<close> heapD(8) cellsD(1) \<open>brk s' = brk s\<close> by metis
      ultimately have out: "unat x < unat bs \<or> unat bs + 8 \<le> unat x"
        if "(\<exists>a \<in> A. unat x \<in> blk (ubytes s) a) \<or> unat x < unat bs \<or> unat bs + 8 \<le> unat x \<and> unat x < h0 \<or> unat (brk s') \<le> unat x" for x :: uint
        using that \<open>unat bs + 8 \<le> h0\<close> \<open>brk s' = brk s\<close> by (metis le_trans)
      show ?thesis
      proof (unfold spared_def, intro allI impI)
        fix x :: uint
        assume "(\<exists>a \<in> A. unat x \<in> blk (ubytes s) a) \<or> unat x < unat bs \<or> unat bs + 8 \<le> unat x \<and> unat x < h0 \<or> unat (brk s') \<le> unat x"
        from out [OF this] show "ubytes s' x = ubytes s x" using header_frame [OF \<open>low bs\<close>] by (simp add: s'_def)
      qed
    qed
    show "hsize (ubytes s') a = hsize (ubytes s) a" if "a \<in> A" for a
      using that h heap_okD(4) [OF h] spared_size [OF u heapD(8)] by blast
  qed
  obtain ys where ys: "heap bs h0 ys A s'" using h' by auto
  let ?n = "(nbytes + 7) div 8 + 1"
  have "nbytes + 8 - 1 = nbytes + 7" by simp
  then have e: "(nbytes + 8 - 1) div 8 + 1 = ?n" by (simp only:)
  note N = nunits_ok [OF n, unfolded e]
  obtain ap t where t: "malloc_loop grow ?n (freep s') (hptr (ubytes s') (freep s')) s' = Some (ap, t)"
    "refused grow ?n s' \<and> ap = 0 \<and> t = s' \<or> took bs h0 A ?n s' ap t"
    using malloc_loop_ok [OF ys N(1,2), of grow] by blast
  have m: "malloc grow bs nbytes s = Some (ap, t)" unfolding malloc_def Let_def e s'_def [symmetric] by (rule t(1))
  have r: "refused grow ?n s' = refused grow ?n s" using eq by (simp add: refused_def)
  show ?thesis
  proof (cases "took bs h0 A ?n s' ap t")
    case True
    then have "spared bs h0 A s t" by (intro spared_trans [OF ut _ _ sz]) (auto simp: took_def)
    then show ?thesis using m True eq by (auto simp: took_def)
  next
    case False
    then show ?thesis using m t(2) ut ys r by (auto simp: heap_ok_def)
  qed
qed

text \<open>
  (C18) \<open>malloc\<close> of fewer than \<open>2^31 - 15\<close> bytes always returns. Either the kernel refused to grow the process and
  the pointer is null, or the block returned is new: it has room for the bytes asked for, inside the heap and
  apart from every block already allocated. In both cases the heap is sound afterwards and the allocated
  blocks keep their bytes.
\<close>

theorem malloc_correct:
  assumes "heap_ok bs h0 A s" and "unat nbytes + 16 \<le> 2147483648"
  shows "\<exists>ap t. malloc grow bs nbytes s = Some (ap, t) \<and>
    (if ap = 0 then heap_ok bs h0 A t \<and> refused grow ((nbytes + 7) div 8 + 1) s
     else ap - 8 \<notin> A \<and> heap_ok bs h0 (insert (ap - 8) A) t \<and>
       {unat ap..<unat ap + unat nbytes} \<subseteq> {h0..<unat (brk t)} \<and>
       (\<forall>a \<in> A. {unat ap..<unat ap + unat nbytes} \<inter> blk (ubytes s) a = {})) \<and>
    (\<forall>a \<in> A. \<forall>x. unat x \<in> blk (ubytes s) a \<longrightarrow> ubytes t x = ubytes s x)"
proof -
  let ?n = "(nbytes + 7) div 8 + 1"
  obtain ap t where t: "malloc grow bs nbytes s = Some (ap, t)" "spared bs h0 A s t"
    "ap = 0 \<and> refused grow ?n s \<and> heap_ok bs h0 A t \<or> took bs h0 A ?n s ap t"
    using malloc_ok [OF assms, of grow] by blast
  have keep: "\<forall>a \<in> A. \<forall>x. unat x \<in> blk (ubytes s) a \<longrightarrow> ubytes t x = ubytes s x"
    using t(2) unfolding spared_def by blast
  show ?thesis
  proof (cases "ap = 0")
    case True
    then show ?thesis using t(1,3) keep by (auto simp: took_def)
  next
    case False
    let ?b = "ap - 8"
    have tk: "?b \<notin> A" "hsize (ubytes t) ?b = ?n" and h: "heap_ok bs h0 (insert ?b A) t"
      using False t(3) by (auto simp: took_def heap_ok_def)
    note B = heap_okD [OF h]
    have e: "nbytes + 8 - 1 = nbytes + 7" by simp
    note N = nunits_ok [OF assms(2), unfolded e]
    have "low ?b" "unat ?b + 8 \<le> blk_end (ubytes t) ?b" using B(3) by auto
    then have "unat (?b + 8) = unat ?b + 8" using unat_add_lt [of ?b 8] by (simp add: low_def)
    then have ap: "unat ap = unat ?b + 8" by (simp only: diff_add_cancel)
    have sub: "{unat ap..<unat ap + unat nbytes} \<subseteq> blk (ubytes t) ?b"
      using N(3) \<open>unat ?b + 8 \<le> blk_end (ubytes t) ?b\<close> ap tk(2) by (auto simp: blk_def blk_end_def)
    have "{unat ap..<unat ap + unat nbytes} \<inter> blk (ubytes s) a = {}" if "a \<in> A" for a
    proof -
      have "hsize (ubytes t) a = hsize (ubytes s) a"
        using that heap_okD(4) [OF assms(1)] spared_size [OF t(2) heapD(8)] by blast
      then have "blk (ubytes s) a = blk (ubytes t) a" by (simp add: blk_def blk_end_def)
      moreover have "blk (ubytes t) ?b \<inter> blk (ubytes t) a = {}"
        using B(1) that tk(1) by (auto simp: disjoint_family_on_def)
      ultimately show ?thesis using sub by auto
    qed
    moreover have "{unat ap..<unat ap + unat nbytes} \<subseteq> {h0..<unat (brk t)}"
      using sub B(2) [of ?b] by (meson insertI1 order_trans)
    ultimately show ?thesis using False t(1) tk(1) h keep by auto
  qed
qed

text \<open>A process of three pages that has allocated nothing.\<close>

definition ex_uheap :: uheap where
  "ex_uheap = \<lparr>ubytes = (\<lambda>_. 0), freep = 0, brk = 0x3000\<rparr>"

lemma ex_uheap_ok: "heap_ok 0x800 0x3000 {} ex_uheap"
  by (simp add: heap_ok_def ex_uheap_def KERNBASE_def)

theorem malloc_correct_witness:
  "\<exists>ap t. malloc (\<lambda>_ _. True) 0x800 100 ex_uheap = Some (ap, t) \<and> ap \<noteq> 0 \<and> heap_ok 0x800 0x3000 {ap - 8} t \<and>
     {unat ap..<unat ap + 100} \<subseteq> {0x3000..<unat (brk t)}"
proof -
  have "\<not> refused (\<lambda>_ _. True) ((100 + 7) div 8 + 1) ex_uheap" by (simp add: refused_def ex_uheap_def KERNBASE_def)
  then show ?thesis using malloc_correct [OF ex_uheap_ok, of 100 "\<lambda>_ _. True"] by (auto split: if_splits)
qed

text \<open>
  What a program does with the heap: it allocates, frees a block it has, and writes into the bytes of a
  block it has, but not over the headers.
\<close>

inductive ustep :: "(uint \<Rightarrow> uint \<Rightarrow> bool) \<Rightarrow> uint \<Rightarrow> uint set \<times> uheap \<Rightarrow> uint set \<times> uheap \<Rightarrow> bool" for grow bs where
  ustep_malloc: "unat nbytes + 16 \<le> 2147483648 \<Longrightarrow> malloc grow bs nbytes s = Some (ap, t) \<Longrightarrow>
    ustep grow bs (A, s) (if ap = 0 then A else insert (ap - 8) A, t)"
| ustep_free: "a \<in> A \<Longrightarrow> ufree (a + 8) s = Some t \<Longrightarrow> ustep grow bs (A, s) (A - {a}, t)"
| ustep_write: "a \<in> A \<Longrightarrow> unat a + 8 \<le> unat x \<Longrightarrow> unat x < blk_end (ubytes s) a \<Longrightarrow>
    ustep grow bs (A, s) (A, s\<lparr>ubytes := (ubytes s)(x := v)\<rparr>)"

inductive_cases ustepE: "ustep grow bs (A, s) (A', s')"

lemma load32_upd_other: "unat x < unat p \<or> unat p + 4 \<le> unat x \<Longrightarrow> unat p + 4 \<le> 4294967296 \<Longrightarrow> load32 (m(x := v)) p = load32 m p"
proof (rule load32_cong)
  fix k :: uint
  assume x: "unat x < unat p \<or> unat p + 4 \<le> unat x" "unat p + 4 \<le> 4294967296" "k < 4"
  have k: "unat k < 4" using x(3) by (simp add: word_less_nat_alt)
  then have "unat (p + k) = unat p + unat k" using x(2) by (intro unat_add_lt) simp
  then have "p + k \<noteq> x" using x(1) k by auto
  then show "(m(x := v)) (p + k) = m (p + k)" by simp
qed

lemma header_write:
  assumes "low p" "unat x < unat p \<or> unat p + 8 \<le> unat x"
  shows "hptr (m(x := v)) p = hptr m p" "hsize (m(x := v)) p = hsize m p"
  using assms unat_add4 [OF assms(1)] by (auto simp: hptr_def hsize_def low_def intro!: load32_upd_other)

lemma heap_write:
  assumes h: "heap bs h0 ys A s" and a: "a \<in> A" "unat a + 8 \<le> unat x" "unat x < blk_end (ubytes s) a"
  shows "heap bs h0 ys A (s\<lparr>ubytes := (ubytes s)(x := v)\<rparr>)"
proof -
  note H = heapD [OF h]
  note D = cellsD [OF H(8)]
  let ?n = "(ubytes s)(x := v)"
  have same: "hptr ?n b = hptr (ubytes s) b" "hsize ?n b = hsize (ubytes s) b" if b: "b \<in> insert bs (set ys \<union> A)" for b
  proof -
    have "low b" using b D(7) H(10) by auto
    moreover have "unat x < unat b \<or> unat b + 8 \<le> unat x"
    proof (cases "b = a \<or> b = bs")
      case True
      then show ?thesis using a H(11) [of a] by auto
    next
      case False
      then show ?thesis using a b D(6) [of b] D(8) [of a b] by fastforce
    qed
    ultimately show "hptr ?n b = hptr (ubytes s) b" "hsize ?n b = hsize (ubytes s) b" by (auto intro: header_write)
  qed
  have "hpath ?n bs (bs # ys) bs = hpath (ubytes s) bs (bs # ys) bs" by (rule hpath_cong) (use same in auto)
  moreover have "cells h0 (set ys \<union> A) (s\<lparr>ubytes := ?n\<rparr>)" by (rule cells_cong [OF H(8)]) (use same in auto)
  moreover have "blk_end ?n y = blk_end (ubytes s) y" if "y \<in> set ys" for y using same(2) [of y] that by (simp add: blk_end_def)
  ultimately show ?thesis using h same(2) [of bs] unfolding heap_def by auto
qed

lemma ufree_heap_ok:
  assumes "heap_ok bs h0 A s" and "a \<in> A"
  shows "\<exists>t. ufree (a + 8) s = Some t \<and> heap_ok bs h0 (A - {a}) t \<and> spared bs h0 (A - {a}) s t"
  using assms heap_okD(4) [OF assms(1)] ufree_ok unfolding heap_ok_def by blast

lemma ustep_ok:
  assumes step: "ustep grow bs (A, s) (A', s')" and h: "heap_ok bs h0 A s"
  shows "heap_ok bs h0 A' s'"
  using step
proof (rule ustepE)
  fix nbytes ap
  assume "A' = (if ap = 0 then A else insert (ap - 8) A)" "unat nbytes \<le> 2147483632" "malloc grow bs nbytes s = Some (ap, s')"
  with malloc_ok [OF h, of nbytes grow] show ?thesis by (auto simp: took_def heap_ok_def)
next
  fix a
  assume "A' = A - {a}" "a \<in> A" "ufree (a + 8) s = Some s'"
  with ufree_heap_ok [OF h, of a] show ?thesis by auto
next
  fix a x v
  assume a: "A = A'" "s' = s\<lparr>ubytes := (ubytes s)(x := v)\<rparr>" "a \<in> A'" "unat a + 8 \<le> unat x" "unat x < blk_end (ubytes s) a"
  then obtain ys where "heap bs h0 ys A s" using heap_okD(4) [OF h] by blast
  from heap_write [OF this a(3) [folded a(1)] a(4,5)] a(1,2) show ?thesis by (auto simp: heap_ok_def)
qed



end
