(* ===== verification/Kbd.thy ===== *)
theory Kbd
  imports Console
begin

text \<open>
  The keyboard driver \<open>kbd.c\<close> with the tables of \<open>kbd.h\<close>: scan codes, as the controller delivers them, turned
  into characters, and the interrupt handler that feeds them to the console. Typing a line puts that line
  into the input buffer of the console.
\<close>

section \<open>Tables (kbd.h)\<close>

definition SHIFT :: uint where "SHIFT = 1"
definition CTL :: uint where "CTL = 2"
definition ALT :: uint where "ALT = 4"
definition CAPSLOCK :: uint where "CAPSLOCK = 8"
definition NUMLOCK :: uint where "NUMLOCK = 16"
definition SCROLLLOCK :: uint where "SCROLLLOCK = 32"
definition E0ESC :: uint where "E0ESC = 64"

lemmas kbd_flags = SHIFT_def CTL_def ALT_def CAPSLOCK_def NUMLOCK_def SCROLLLOCK_def E0ESC_def

text \<open>An array of 256 entries: the first ones in order, then those with an index.\<close>

fun set_keys :: "(nat \<times> 'a) list \<Rightarrow> 'a list \<Rightarrow> 'a list" where
  "set_keys [] t = t"
| "set_keys ((i, c) # ks) t = set_keys ks (t[i := c])"

definition keymap :: "'a \<Rightarrow> 'a list \<Rightarrow> (nat \<times> 'a) list \<Rightarrow> 'a list" where
  "keymap z xs ks = set_keys ks (xs @ replicate (256 - length xs) z)"

definition shiftcode :: "uint list" where
  "shiftcode = keymap 0 [] [(0x1D, CTL), (0x2A, SHIFT), (0x36, SHIFT), (0x38, ALT), (0x9D, CTL), (0xB8, ALT)]"

definition togglecode :: "uint list" where
  "togglecode = keymap 0 [] [(0x3A, CAPSLOCK), (0x45, NUMLOCK), (0x46, SCROLLLOCK)]"

text \<open>The keys of the keypad and the arrows, from \<open>KEY_HOME = 0xE0\<close> to \<open>KEY_DEL = 0xE9\<close>.\<close>

definition arrow_keys :: "(nat \<times> uchar) list" where
  "arrow_keys = [(0xC8, 0xE2), (0xD0, 0xE3), (0xC9, 0xE6), (0xD1, 0xE7), (0xCB, 0xE4), (0xCD, 0xE5),
     (0x97, 0xE0), (0xCF, 0xE1), (0xD2, 0xE8), (0xD3, 0xE9)]"

definition normalmap :: "uchar list" where
  "normalmap = keymap 0
     ([0, 0x1B] @ str ''1234567890-='' @ [8, 9] @
      str ''qwertyuiop[]'' @ [10, 0] @ str ''asdfghjkl;'' @ [39, 96, 0, 92] @ str ''zxcvbnm,./'' @ [0] @ str ''*'' @
      [0] @ str '' '' @ replicate 13 0 @ str ''789-456+1230.'' @ replicate 4 0)
     ([(0x9C, 10), (0xB5, 47)] @ arrow_keys)"

definition shiftmap :: "uchar list" where
  "shiftmap = keymap 0
     ([0, 0x1B] @ str ''!@#$%^&*()_+'' @ [8, 9] @
      str ''QWERTYUIOP{}'' @ [10, 0] @ str ''ASDFGHJKL:'' @ [34, 126, 0] @ str ''|ZXCVBNM<>?'' @ [0] @ str ''*'' @
      [0] @ str '' '' @ replicate 13 0 @ str ''789-456+1230.'' @ replicate 4 0)
     ([(0x9C, 10), (0xB5, 47)] @ arrow_keys)"

text \<open>\<open>C(x) = x - '@'\<close>.\<close>

definition ctl :: "string \<Rightarrow> uchar list" where "ctl s = map (\<lambda>c. c - 64) (str s)"

definition ctlmap :: "uchar list" where
  "ctlmap = keymap 0
     (replicate 16 0 @ ctl ''QWERTYUIOP'' @ [0, 0, 13, 0] @ ctl ''ASDFGHJKL'' @ [0, 0, 0, 0] @ [92 - 64] @ ctl ''ZXCVBNM'' @
      [0, 0] @ ctl ''/'' @ [0, 0])
     ([(0x9C, 13), (0xB5, 47 - 64)] @ arrow_keys)"

definition charcode :: "uint \<Rightarrow> uchar list" where
  "charcode k = [normalmap, shiftmap, ctlmap, ctlmap] ! unat k"

section \<open>The driver\<close>

text \<open>
  \<open>kbdgetc\<close> with the static \<open>shift\<close>: \<open>inp\<close> is the byte of the data port, or \<open>None\<close> when the status port shows no
  data.
\<close>

definition kbdgetc :: "uchar option \<Rightarrow> uint \<Rightarrow> int \<times> uint" where
  "kbdgetc inp shift =
     (case inp of None \<Rightarrow> (- 1, shift)
      | Some b \<Rightarrow>
          let data = ucast b :: uint
          in if data = 0xE0 then (0, shift OR E0ESC)
             else if data AND 0x80 \<noteq> 0 then
               let data = (if shift AND E0ESC \<noteq> 0 then data else data AND 0x7F)
               in (0, shift AND NOT (shiftcode ! unat data OR E0ESC))
             else
               let data' = (if shift AND E0ESC \<noteq> 0 then data OR 0x80 else data);
                   shift = (if shift AND E0ESC \<noteq> 0 then shift AND NOT E0ESC else shift);
                   shift = shift OR shiftcode ! unat data';
                   shift = shift XOR togglecode ! unat data';
                   c = charcode (shift AND (CTL OR SHIFT)) ! unat data';
                   c = (if shift AND CAPSLOCK \<noteq> 0 then
                          if 97 \<le> c \<and> c \<le> 122 then c + (65 - 97)
                          else if 65 \<le> c \<and> c \<le> 90 then c + (97 - 65) else c
                        else c)
               in (uint c, shift))"

text \<open>The calls of \<open>kbdgetc\<close> until it returns a negative value, when the codes \<open>bs\<close> are waiting.\<close>

fun kbd_run :: "uchar list \<Rightarrow> uint \<Rightarrow> int list \<times> uint" where
  "kbd_run [] shift = ([fst (kbdgetc None shift)], snd (kbdgetc None shift))"
| "kbd_run (b # bs) shift =
     (let (c, shift) = kbdgetc (Some b) shift; (xs, shift) = kbd_run bs shift in (c # xs, shift))"

definition kbdintr :: "(nat \<Rightarrow> uint list) \<Rightarrow> uchar list \<Rightarrow> uint \<Rightarrow> 'a constate_scheme \<Rightarrow> ('a constate_scheme, uint) res" where
  "kbdintr pcs bs shift s =
     (let (xs, shift) = kbd_run bs shift in bindR (consoleintr pcs xs s) (\<lambda>_ s. Ok shift s))"

section \<open>What the keys mean\<close>

lemma table_lengths [simp]:
  "length shiftcode = 256" "length togglecode = 256" "length normalmap = 256" "length shiftmap = 256" "length ctlmap = 256"
  by code_simp+

text \<open>The keys pressed and released for a character: with the shift key when it is not on the keyboard without.\<close>

fun key_at :: "uchar list \<Rightarrow> uchar \<Rightarrow> uchar \<Rightarrow> uchar option" where
  "key_at [] c k = None"
| "key_at (x # xs) c k = (if x = c then Some k else key_at xs c (k + 1))"

definition keystrokes :: "uchar \<Rightarrow> uchar list" where
  "keystrokes c =
     (case key_at (take 88 normalmap) c 0 of
        Some k \<Rightarrow> [k, k OR 0x80]
      | None \<Rightarrow> (case key_at (take 88 shiftmap) c 0 of
          Some k \<Rightarrow> [0x2A, k, k OR 0x80, 0xAA]
        | None \<Rightarrow> []))"

lemma key_at_SomeD: "key_at xs c k = Some j \<Longrightarrow> \<exists>i < length xs. j = k + of_nat i \<and> xs ! i = c"
proof (induction xs arbitrary: k)
  case (Cons x xs)
  show ?case
  proof (cases "x = c")
    case True
    then show ?thesis using Cons.prems by (intro exI [of _ 0]) simp
  next
    case False
    with Cons obtain i where "i < length xs" "j = k + 1 + of_nat i" "xs ! i = c" by auto
    then show ?thesis by (intro exI [of _ "Suc i"]) (simp add: algebra_simps)
  qed
qed simp

lemma key_at_None: "key_at xs c k = None \<longleftrightarrow> c \<notin> set xs"
  by (induction xs arbitrary: k) auto

text \<open>The keys that only change the state have no character.\<close>

definition modifiers :: "nat set" where
  "modifiers = {0x1D, 0x2A, 0x36, 0x38, 0x3A, 0x45, 0x46}"

lemma modifier_tables:
  "i \<in> modifiers \<Longrightarrow> normalmap ! i = 0" "i \<in> modifiers \<Longrightarrow> shiftmap ! i = 0"
proof -
  have "\<forall>i \<in> {0x1D, 0x2A, 0x36, 0x38, 0x3A, 0x45, 0x46}. normalmap ! i = 0 \<and> shiftmap ! i = 0" by code_simp
  then show "i \<in> modifiers \<Longrightarrow> normalmap ! i = 0" "i \<in> modifiers \<Longrightarrow> shiftmap ! i = 0"
    unfolding modifiers_def by blast+
qed

lemma plain_tables:
  assumes "i < 88" "i \<notin> modifiers"
  shows "shiftcode ! i = 0" "togglecode ! i = 0"
  using assms by (auto simp: modifiers_def shiftcode_def togglecode_def keymap_def nth_list_update)

lemma bit7: "x AND 128 \<noteq> 0 \<longleftrightarrow> bit x 7" for x :: uint
  using and_exp_eq_0_iff_not_bit [of x 7] by simp

lemma scan_code:
  assumes "i < 88"
  shows "\<not> bit (of_nat i :: uchar) 7" "unat (ucast (of_nat i :: uchar) :: uint) = i" "ucast (of_nat i :: uchar) \<noteq> (0xE0 :: uint)"
    "ucast (of_nat i OR 0x80 :: uchar) AND 0x7F = (ucast (of_nat i :: uchar) :: uint)" "ucast (of_nat i OR 0x80 :: uchar) \<noteq> (0xE0 :: uint)"
    "bit (of_nat i OR 0x80 :: uchar) 7"
proof -
  have "\<forall>i \<in> set [0..<88]. \<not> bit (of_nat i :: uchar) 7 \<and> unat (ucast (of_nat i :: uchar) :: uint) = i \<and>
    ucast (of_nat i :: uchar) \<noteq> (0xE0 :: uint) \<and>
    ucast (of_nat i OR 0x80 :: uchar) AND 0x7F = (ucast (of_nat i :: uchar) :: uint) \<and>
    ucast (of_nat i OR 0x80 :: uchar) \<noteq> (0xE0 :: uint) \<and> bit (of_nat i OR 0x80 :: uchar) 7"
    by code_simp
  moreover have "i \<in> set [0..<88]" using assms by simp
  ultimately show "\<not> bit (of_nat i :: uchar) 7" "unat (ucast (of_nat i :: uchar) :: uint) = i" "ucast (of_nat i :: uchar) \<noteq> (0xE0 :: uint)"
    "ucast (of_nat i OR 0x80 :: uchar) AND 0x7F = (ucast (of_nat i :: uchar) :: uint)" "ucast (of_nat i OR 0x80 :: uchar) \<noteq> (0xE0 :: uint)"
    "bit (of_nat i OR 0x80 :: uchar) 7" by blast+
qed

lemma press:
  assumes "i < 88" "i \<notin> modifiers"
  shows "kbdgetc (Some (of_nat i)) 0 = (uint (normalmap ! i), 0)" "kbdgetc (Some (of_nat i)) SHIFT = (uint (shiftmap ! i), SHIFT)"
proof -
  note S = scan_code [OF assms(1)] plain_tables [OF assms]
  have z: "\<not> (ucast (of_nat i :: uchar) AND (128 :: uint)) \<noteq> 0" using S(1) by (simp add: bit7 bit_ucast_iff del: bit_of_nat_iff)
  have s: "SHIFT AND E0ESC = 0" "SHIFT AND CAPSLOCK = 0" "SHIFT AND (CTL OR SHIFT) = SHIFT" "unat SHIFT = 1" by (simp_all add: kbd_flags)
  show "kbdgetc (Some (of_nat i)) 0 = (uint (normalmap ! i), 0)"
    unfolding kbdgetc_def Let_def option.case if_not_P [OF S(3)] if_not_P [OF z] using S(2,7,8) by (simp add: charcode_def)
  show "kbdgetc (Some (of_nat i)) SHIFT = (uint (shiftmap ! i), SHIFT)"
    unfolding kbdgetc_def Let_def option.case if_not_P [OF S(3)] if_not_P [OF z] using S(2,7,8) s by (simp add: charcode_def)
qed

lemma key_release:
  assumes "i < 88" "i \<notin> modifiers"
  shows "kbdgetc (Some (of_nat i OR 0x80)) 0 = (0, 0)" "kbdgetc (Some (of_nat i OR 0x80)) SHIFT = (0, SHIFT)"
proof -
  note S = scan_code [OF assms(1)] plain_tables [OF assms]
  have z: "(ucast (of_nat i OR 128 :: uchar) AND (128 :: uint)) \<noteq> 0" using S(6) by (simp add: bit7 bit_ucast_iff)
  have s: "SHIFT AND E0ESC = 0" "SHIFT AND NOT E0ESC = SHIFT" by (simp_all add: kbd_flags)
  show "kbdgetc (Some (of_nat i OR 0x80)) 0 = (0, 0)" "kbdgetc (Some (of_nat i OR 0x80)) SHIFT = (0, SHIFT)"
    unfolding kbdgetc_def Let_def option.case if_not_P [OF S(5)] if_P [OF z] using S(2,4,7) s by simp_all
qed

lemma shift_key: "kbdgetc (Some 0x2A) 0 = (0, SHIFT)" "kbdgetc (Some 0xAA) SHIFT = (0, 0)"
  by code_simp+

text \<open>The characters one can type.\<close>

definition typable :: "uchar set" where
  "typable = (set (take 88 normalmap) \<union> set (take 88 shiftmap)) - {0}"

lemma kbd_key:
  assumes "c \<in> typable"
  shows "\<exists>out. filter (\<lambda>x. x \<noteq> 0) out = [uint c] \<and> (\<forall>x \<in> set out. 0 \<le> x) \<and>
    kbd_run (keystrokes c @ bs) 0 = (out @ fst (kbd_run bs 0), snd (kbd_run bs 0))"
proof (cases "key_at (take 88 normalmap) c 0")
  case (Some k)
  then obtain i where i: "i < 88" "k = of_nat i" "normalmap ! i = c" using key_at_SomeD by fastforce
  then have m: "i \<notin> modifiers" using modifier_tables(1) assms by (auto simp: typable_def)
  have "kbd_run (keystrokes c @ bs) 0 = ([uint c, 0] @ fst (kbd_run bs 0), snd (kbd_run bs 0))"
    using press(1) [OF i(1) m] key_release(1) [OF i(1) m] Some i(2,3) by (simp add: keystrokes_def split: prod.splits)
  then show ?thesis using assms by (intro exI [of _ "[uint c, 0]"]) (auto simp: typable_def unsigned_eq_0_iff)
next
  case None
  then have "c \<in> set (take 88 shiftmap)" using assms key_at_None [of "take 88 normalmap" c 0] by (auto simp: typable_def)
  then obtain k where k: "key_at (take 88 shiftmap) c 0 = Some k" using key_at_None [of "take 88 shiftmap" c 0] by auto
  then obtain i where i: "i < 88" "k = of_nat i" "shiftmap ! i = c" using key_at_SomeD by fastforce
  then have m: "i \<notin> modifiers" using modifier_tables(2) assms by (auto simp: typable_def)
  have "kbd_run (keystrokes c @ bs) 0 = ([0, uint c, 0, 0] @ fst (kbd_run bs 0), snd (kbd_run bs 0))"
    using press(2) [OF i(1) m] key_release(2) [OF i(1) m] shift_key None k i(2,3) by (simp add: keystrokes_def split: prod.splits)
  then show ?thesis using assms by (intro exI [of _ "[0, uint c, 0, 0]"]) (auto simp: typable_def unsigned_eq_0_iff)
qed

lemma printable_typable: "32 \<le> c \<Longrightarrow> c < 127 \<Longrightarrow> c \<in> typable" "10 \<in> typable"
proof -
  have n: "map unat (take 88 normalmap) =
    [0, 27, 49, 50, 51, 52, 53, 54, 55, 56, 57, 48, 45, 61, 8, 9, 113, 119, 101, 114, 116, 121, 117,
     105, 111, 112, 91, 93, 10, 0, 97, 115, 100, 102, 103, 104, 106, 107, 108, 59, 39, 96, 0, 92,
     122, 120, 99, 118, 98, 110, 109, 44, 46, 47, 0, 42, 0, 32, 0, 0, 0, 0, 0, 0, 0, 0, 0, 0, 0, 0,
     0, 55, 56, 57, 45, 52, 53, 54, 43, 49, 50, 51, 48, 46, 0, 0, 0, 0]" by code_simp
  have m: "map unat (take 88 shiftmap) =
    [0, 27, 33, 64, 35, 36, 37, 94, 38, 42, 40, 41, 95, 43, 8, 9, 81, 87, 69, 82, 84, 89, 85, 73,
     79, 80, 123, 125, 10, 0, 65, 83, 68, 70, 71, 72, 74, 75, 76, 58, 34, 126, 0, 124, 90, 88, 67,
     86, 66, 78, 77, 60, 62, 63, 0, 42, 0, 32, 0, 0, 0, 0, 0, 0, 0, 0, 0, 0, 0, 0, 0, 55, 56, 57,
     45, 52, 53, 54, 43, 49, 50, 51, 48, 46, 0, 0, 0, 0]" by code_simp
  have a: "set (10 # [32..<127]) \<subseteq> set (map unat (take 88 normalmap)) \<union> set (map unat (take 88 shiftmap))"
    unfolding n m by simp
  have t: "c \<in> typable" if c: "unat c \<in> set (10 # [32..<127])" for c
  proof -
    have "c \<in> set (take 88 normalmap) \<union> set (take 88 shiftmap)"
      using subsetD [OF a c] unfolding set_map image_Un [symmetric] by (metis imageE word_unat_eq_iff)
    moreover have "c \<noteq> 0" using c by auto
    ultimately show ?thesis by (simp add: typable_def)
  qed
  show "10 \<in> typable" by (rule t) simp
  assume "32 \<le> c" "c < 127"
  then have "32 \<le> unat c" "unat c < 127" by (simp_all add: word_le_nat_alt word_less_nat_alt)
  then show "c \<in> typable" by (intro t) (simp only: list.set set_upt insert_iff atLeastLessThan_iff simp_thms)
qed

section \<open>Typing a line\<close>

lemma console_zero: "console_char 0 s = Ok () s"
  by (simp add: console_char_def ctrl_def)

lemma console_chars_zeros: "(\<forall>x \<in> set zs. x = 0) \<Longrightarrow> console_chars (zs @ rest) dump s = console_chars rest dump s"
  by (induction zs) (auto simp: console_zero ctrl_def)

lemma console_chars_one:
  fixes s :: "'a constate_scheme"
  assumes "filter (\<lambda>x. x \<noteq> 0) out = [c]" "0 \<le> c" "c \<noteq> ctrl 80"
  shows "console_chars (out @ rest) dump s = bindR (console_char c s) (\<lambda>_ s. console_chars rest dump s)"
proof -
  from assms(1) obtain as bs where o: "out = as @ c # bs" "\<forall>x \<in> set as. x = 0" "\<forall>x \<in> set bs. x = 0"
    by (auto simp: filter_eq_Cons_iff filter_empty_conv eq_commute [of "[]"])
  from o(3) have "console_chars (bs @ rest) dump = (console_chars rest dump :: 'a constate_scheme \<Rightarrow> _)" by (rule ext [OF console_chars_zeros])
  then show ?thesis using assms(2,3) o(1,2) by (simp add: console_chars_zeros)
qed

text \<open>An ordinary character joins the line, a newline hands it over.\<close>

lemma console_print:
  fixes s :: "'a constate_scheme"
  assumes "in_ok s" "cons_ok s" "Lptable \<notin> set (held s)" "32 \<le> c" "c < 127" "length (committed s) + length (editing s) < 127"
  shows "\<exists>t. console_char (uint c) s = Ok () t \<and> in_ok t \<and> cons_ok t \<and> held t = held s \<and> committed t = committed s \<and>
    editing t = editing s @ [c]"
proof -
  have u: "32 \<le> uint c" "uint c < 127" using assms(4,5) by (simp_all add: word_le_def word_less_def)
  then have "0 \<le> uint c" "uint c < 256" by auto
  from console_char_step [OF assms(1-3) this] u assms(6) show ?thesis by (auto simp: ctrl_def)
qed

lemma console_newline:
  fixes s :: "'a constate_scheme"
  assumes "in_ok s" "cons_ok s" "Lptable \<notin> set (held s)" "length (committed s) + length (editing s) < 128"
  shows "\<exists>t. console_char 10 s = Ok () t \<and> in_ok t \<and> cons_ok t \<and> held t = held s \<and>
    committed t = committed s @ editing s @ [10] \<and> editing t = []"
  using console_char_step [OF assms(1-3), of 10] assms(4) by (auto simp: ctrl_def)

lemma type_text:
  fixes s :: "'a constate_scheme"
  assumes "in_ok s" "cons_ok s" "Lptable \<notin> set (held s)" "\<forall>c \<in> set tx. 32 \<le> c \<and> c < 127"
    "length (committed s) + length (editing s) + length tx < 128"
  shows "\<exists>t. console_chars (fst (kbd_run (concat (map keystrokes tx) @ bs) 0)) dump s = console_chars (fst (kbd_run bs 0)) dump t \<and>
    snd (kbd_run (concat (map keystrokes tx) @ bs) 0) = snd (kbd_run bs 0) \<and>
    in_ok t \<and> cons_ok t \<and> held t = held s \<and> committed t = committed s \<and> editing t = editing s @ tx"
  using assms
proof (induction tx arbitrary: s)
  case (Cons c tx)
  let ?bs = "concat (map keystrokes tx) @ bs"
  have c: "32 \<le> c" "c < 127" using Cons.prems(4) by auto
  obtain out where out: "filter (\<lambda>x. x \<noteq> 0) out = [uint c]"
    "kbd_run (keystrokes c @ ?bs) 0 = (out @ fst (kbd_run ?bs 0), snd (kbd_run ?bs 0))"
    using kbd_key [OF printable_typable(1) [OF c], of ?bs] by blast
  have "32 \<le> uint c" using c by (simp add: word_le_def)
  then have u: "0 \<le> uint c" "uint c \<noteq> ctrl 80" by (auto simp: ctrl_def)
  obtain t where t: "console_char (uint c) s = Ok () t" "in_ok t" "cons_ok t" "held t = held s" "committed t = committed s"
    "editing t = editing s @ [c]"
    using console_print [OF Cons.prems(1-3) c] Cons.prems(5) by auto
  have "console_chars (fst (kbd_run (keystrokes c @ ?bs) 0)) dump s = console_chars (fst (kbd_run ?bs 0)) dump t"
    using out(2) t(1) by (simp add: console_chars_one [OF out(1) u])
  moreover obtain w where "console_chars (fst (kbd_run ?bs 0)) dump t = console_chars (fst (kbd_run bs 0)) dump w"
    "snd (kbd_run ?bs 0) = snd (kbd_run bs 0)" "in_ok w" "cons_ok w" "held w = held t" "committed w = committed t"
    "editing w = editing t @ tx"
    using Cons.IH [of t] t Cons.prems(3,4,5) by auto
  ultimately show ?case using out(2) t by (intro exI [of _ w]) simp
qed auto

text \<open>
  (C30) From the keyboard to the line: when a text of printable characters and the return key are typed,
  with the shift key for the characters that need it, the interrupt handler leaves in the input buffer
  the line that was begun, the text and a newline, ready to be read, as long as they fit in its 128 bytes;
  the keyboard is back in its initial state.
\<close>

theorem typed_line_committed:
  fixes s :: "'a constate_scheme"
  assumes "in_ok s" and "cons_ok s" and "Lptable \<notin> set (held s)" and "Lcons \<notin> set (held s)"
    and "\<forall>c \<in> set tx. 32 \<le> c \<and> c < 127" and "length (committed s) + length (editing s) + length tx < 128"
  shows "\<exists>t. kbdintr pcs (concat (map keystrokes (tx @ [10]))) 0 s = Ok 0 t \<and>
    committed t = committed s @ editing s @ tx @ [10] \<and> editing t = [] \<and> in_ok t \<and> cons_ok t \<and> held t = held s"
proof -
  let ?s = "s\<lparr>held := Lcons # held s\<rparr>"
  have s: "in_ok ?s" "cons_ok ?s" "Lptable \<notin> set (held ?s)" "committed ?s = committed s" "editing ?s = editing s"
    using assms(1-3) by (simp_all add: in_ok_def cons_ok_def committed_def editing_def)
  let ?bs = "keystrokes 10"
  obtain t where t: "console_chars (fst (kbd_run (concat (map keystrokes tx) @ ?bs) 0)) False ?s = console_chars (fst (kbd_run ?bs 0)) False t"
    "snd (kbd_run (concat (map keystrokes tx) @ ?bs) 0) = snd (kbd_run ?bs 0)"
    "in_ok t" "cons_ok t" "held t = Lcons # held s" "committed t = committed s" "editing t = editing s @ tx"
    using type_text [OF s(1-3) assms(5), of ?bs False] s(4,5) assms(6) by auto
  obtain out where out: "filter (\<lambda>x. x \<noteq> 0) out = [10]" "kbd_run ?bs 0 = (out @ [- 1], 0)"
    using kbd_key [OF printable_typable(2), of "[]"] by (auto simp: kbdgetc_def)
  obtain w where w: "console_char 10 t = Ok () w" "in_ok w" "cons_ok w" "held w = held t"
    "committed w = committed t @ editing t @ [10]" "editing w = []"
    using console_newline [OF t(3,4)] t(5-7) assms(3,6) by auto
  have "console_chars (fst (kbd_run ?bs 0)) False t = Ok False w"
    using out(2) w(1) by (simp add: console_chars_one [OF out(1)] ctrl_def)
  then have "kbdintr pcs (concat (map keystrokes (tx @ [10]))) 0 s = Ok 0 (w\<lparr>held := held s\<rparr>)"
    using t(1,2,5) out(2) w(4) assms(4) by (simp add: kbdintr_def consoleintr_def split_beta)
  then show ?thesis using w t(6,7) by (intro exI [of _ "w\<lparr>held := held s\<rparr>"])
    (simp add: in_ok_def cons_ok_def committed_def editing_def)
qed

text \<open>Typing \<open>Hi!\<close> and return.\<close>

theorem typed_line_committed_witness:
  "\<exists>t. kbdintr (\<lambda>_. []) (concat (map keystrokes ([72, 105, 33] @ [10]))) 0 ex_con = Ok 0 t \<and> committed t = [72, 105, 33, 10]"
proof -
  have c: "committed ex_con = []" "editing ex_con = []" by (simp_all add: committed_def editing_def)
  have "in_ok ex_con" by (simp add: in_ok_def editing_def INPUT_BUF_def)
  from typed_line_committed [OF this, of "[72, 105, 33]" "\<lambda>_. []"] show ?thesis by (auto simp: c)
qed

end
