(* ===== verification/Mkfs.thy ===== *)
theory Mkfs
  imports Fs
begin

text \<open>
  The image builder \<open>mkfs.c\<close>: it lays out an empty file system on a host file and copies the user programs
  into it. What it writes is what the kernel reads: each file is in the root directory under its name, and
  the block map of its inode leads to its bytes.
\<close>

section \<open>State and layout\<close>

text \<open>
  \<open>img\<close> is the image file in blocks. The library functions of the host are taken to do what they
  promise; reading past the end of the file fails, writing there extends it. \<open>exit(1)\<close> is \<open>NoReturn\<close>, a
  failed \<open>assert\<close> is \<open>Panic\<close>. Words are stored little-endian by \<open>xint\<close> and \<open>xshort\<close>, as \<open>enc32\<close> and \<open>enc16\<close>
  do.
\<close>

record mkstate =
  img :: "uchar list list"
  freeinode :: uint
  freeblock :: uint

definition NINODES :: nat where "NINODES = 200"
definition MKFSSIZE :: nat where "MKFSSIZE = 1000"
definition nbitmap :: nat where "nbitmap = MKFSSIZE div (BSIZE * 8) + 1"
definition ninodeblocks :: nat where "ninodeblocks = NINODES div IPB + 1"
definition nlog :: nat where "nlog = LOGSIZE"
definition nmeta :: nat where "nmeta = 2 + nlog + ninodeblocks + nbitmap"
definition nblocks :: nat where "nblocks = MKFSSIZE - nmeta"
definition zeroes :: "uchar list" where "zeroes = replicate BSIZE 0"

definition mksb :: superblock where
  "mksb = \<lparr>sb_size = of_nat MKFSSIZE, sb_nblocks = of_nat nblocks, sb_ninodes = of_nat NINODES, sb_nlog = of_nat nlog,
     sb_logstart = 2, sb_inodestart = of_nat (2 + nlog), sb_bmapstart = of_nat (2 + nlog + ninodeblocks)\<rparr>"

section \<open>The code\<close>

definition wsect :: "uint \<Rightarrow> uchar list \<Rightarrow> mkstate \<Rightarrow> (mkstate, unit) res" where
  "wsect sec buf s =
     (let n = unat (sec * of_nat BSIZE) div BSIZE; m = length (img s)
      in Ok () (s\<lparr>img := (if n < m then (img s)[n := buf] else img s @ replicate (n - m) zeroes @ [buf])\<rparr>))"

definition rsect :: "uint \<Rightarrow> mkstate \<Rightarrow> (mkstate, uchar list) res" where
  "rsect sec s =
     (let n = unat (sec * of_nat BSIZE) div BSIZE
      in if n < length (img s) then Ok (img s ! n) s else NoReturn s)"

definition winode :: "uint \<Rightarrow> dinode \<Rightarrow> mkstate \<Rightarrow> (mkstate, unit) res" where
  "winode inum ip s =
     (let bn = IBLOCK inum mksb in bindR (rsect bn s) (\<lambda>buf s. wsect bn (put_dinode inum ip buf) s))"

definition rinode :: "uint \<Rightarrow> mkstate \<Rightarrow> (mkstate, dinode) res" where
  "rinode inum s = bindR (rsect (IBLOCK inum mksb) s) (\<lambda>buf s. Ok (get_dinode inum buf) s)"

definition mk_ialloc :: "ushort \<Rightarrow> mkstate \<Rightarrow> (mkstate, uint) res" where
  "mk_ialloc ty s =
     (let inum = freeinode s;
          din = \<lparr>di_type = ty, di_major = 0, di_minor = 0, di_nlink = 1, di_size = 0, di_addrs = replicate 13 0\<rparr>
      in bindR (winode inum din (s\<lparr>freeinode := inum + 1\<rparr>)) (\<lambda>_ s. Ok inum s))"

definition mk_balloc :: "uint \<Rightarrow> mkstate \<Rightarrow> (mkstate, unit) res" where
  "mk_balloc k s =
     (if \<not> sint k < int (BSIZE * 8) then Panic ''used < BSIZE*8''
      else let buf = fold (\<lambda>i buf. buf[i div 8 := buf ! (i div 8) OR bit_of (i mod 8)]) [0..<nat (sint k)] zeroes
           in wsect (sb_bmapstart mksb) buf s)"

text \<open>
  One turn of the loop of \<open>iappend\<close> up to the choice of the block \<open>x\<close> for the block \<open>fbn\<close> of the file, with
  the inode in memory.
\<close>

definition iappend_blk :: "dinode \<Rightarrow> nat \<Rightarrow> mkstate \<Rightarrow> (mkstate, dinode \<times> uint) res" where
  "iappend_blk din fbn s =
     (if fbn < NDIRECT then
        let (din, s) = (if di_addrs din ! fbn = 0
                        then (din\<lparr>di_addrs := (di_addrs din)[fbn := freeblock s]\<rparr>, s\<lparr>freeblock := freeblock s + 1\<rparr>) else (din, s))
        in Ok (din, di_addrs din ! fbn) s
      else
        let (din, s) = (if di_addrs din ! NDIRECT = 0
                        then (din\<lparr>di_addrs := (di_addrs din)[NDIRECT := freeblock s]\<rparr>, s\<lparr>freeblock := freeblock s + 1\<rparr>) else (din, s));
            ind = di_addrs din ! NDIRECT
        in bindR (rsect ind s) (\<lambda>indirect s.
           let e = dec32 (drop (4 * (fbn - NDIRECT)) indirect)
           in if e = 0
              then let e = freeblock s; s = s\<lparr>freeblock := e + 1\<rparr>
                   in bindR (wsect ind (splice (4 * (fbn - NDIRECT)) (enc32 e) indirect) s) (\<lambda>_ s. Ok (din, e) s)
              else Ok (din, e) s))"

lemma chunk_end: "off < BSIZE + off div BSIZE * BSIZE"
  using dividend_less_div_times [of BSIZE off] by (simp add: BSIZE_def)

lemma iappend_chunk: "p \<noteq> [] \<Longrightarrow> length p - min (length p) (BSIZE + off div BSIZE * BSIZE - off) < length p"
  using chunk_end [of off] by (simp add: min_def)

text \<open>The offset stays below \<open>MAXFILE * BSIZE\<close> by the \<open>assert\<close>, and is a number here.\<close>

function iappend_loop :: "dinode \<Rightarrow> nat \<Rightarrow> uchar list \<Rightarrow> mkstate \<Rightarrow> (mkstate, dinode \<times> nat) res" where
  "iappend_loop din off p s =
     (if p = [] then Ok (din, off) s
      else let fbn = off div BSIZE
           in if \<not> fbn < MAXFILE then Panic ''fbn < MAXFILE''
              else bindR (iappend_blk din fbn s) (\<lambda>(din, x) s.
                   let n1 = min (length p) ((fbn + 1) * BSIZE - off)
                   in bindR (rsect x s) (\<lambda>buf s.
                      bindR (wsect x (splice (off - fbn * BSIZE) (take n1 p) buf) s) (\<lambda>_ s.
                      iappend_loop din (off + n1) (drop n1 p) s))))"
  by pat_completeness auto
termination
  by (relation "measure (\<lambda>(din, off, p, s). length p)") (auto intro: iappend_chunk)

definition iappend :: "uint \<Rightarrow> uchar list \<Rightarrow> mkstate \<Rightarrow> (mkstate, unit) res" where
  "iappend inum p s =
     bindR (rinode inum s) (\<lambda>din s.
     bindR (iappend_loop din (unat (di_size din)) p s) (\<lambda>(din, off) s.
     winode inum (din\<lparr>di_size := of_nat off\<rparr>) s))"

text \<open>
  A file to copy is its name and what the successive calls of \<open>read\<close> return. The leading underscore of
  a name is left out.
\<close>

definition mk_dirent :: "uint \<Rightarrow> uchar list \<Rightarrow> uchar list" where
  "mk_dirent inum name = enc_dirent \<lparr>de_inum = ucast inum, de_name = take DIRSIZ (name @ replicate DIRSIZ 0)\<rparr>"

definition mk_file :: "uint \<Rightarrow> uchar list \<times> uchar list list \<Rightarrow> mkstate \<Rightarrow> (mkstate, unit) res" where
  "mk_file rootino f s =
     (let name = fst f
      in if SLASH \<in> set name then Panic ''index(argv[i], '/') == 0''
         else let name = (if name \<noteq> [] \<and> hd name = 95 then tl name else name)
              in bindR (mk_ialloc T_FILE s) (\<lambda>inum s.
                 bindR (iappend rootino (mk_dirent inum name) s) (\<lambda>_ s.
                 forR (takeWhile (\<lambda>c. c \<noteq> []) (snd f)) (\<lambda>c s. iappend inum c s) s)))"

definition mkfs_init :: "mkstate \<Rightarrow> (mkstate, uint) res" where
  "mkfs_init s =
     (let s = s\<lparr>freeblock := of_nat nmeta\<rparr>
      in bindR (forR [0..<MKFSSIZE] (\<lambda>i s. wsect (of_nat i) zeroes s) s) (\<lambda>_ s.
         bindR (wsect 1 (splice 0 (enc_superblock mksb) zeroes) s) (\<lambda>_ s.
         bindR (mk_ialloc T_DIR s) (\<lambda>rootino s.
           if rootino \<noteq> ROOTINO then Panic ''rootino == ROOTINO''
           else bindR (iappend rootino (mk_dirent rootino [46]) s) (\<lambda>_ s.
                bindR (iappend rootino (mk_dirent rootino [46, 46]) s) (\<lambda>_ s. Ok rootino s))))))"

definition mkfs_finish :: "uint \<Rightarrow> mkstate \<Rightarrow> (mkstate, unit) res" where
  "mkfs_finish rootino s =
     bindR (rinode rootino s) (\<lambda>din s.
     let off = di_size din; off = (off div of_nat BSIZE + 1) * of_nat BSIZE
     in bindR (winode rootino (din\<lparr>di_size := off\<rparr>) s) (\<lambda>_ s. mk_balloc (freeblock s) s))"

definition mkfs :: "(uchar list \<times> uchar list list) list \<Rightarrow> (mkstate, unit) res" where
  "mkfs files =
     bindR (mkfs_init \<lparr>img = [], freeinode = 1, freeblock = 0\<rparr>) (\<lambda>rootino s.
     bindR (forR files (mk_file rootino) s) (\<lambda>_ s. mkfs_finish rootino s))"

declare iappend_loop.simps [simp del]

section \<open>Files on the image\<close>

text \<open>
  The block that the inode \<open>d\<close> names for block \<open>k\<close> of its file; place 140 stands for the indirect block. A
  file of \<open>n\<close> bytes uses the places \<open>fslots n\<close>.
\<close>

definition maddr :: "uchar list list \<Rightarrow> dinode \<Rightarrow> nat \<Rightarrow> nat" where
  "maddr I d k = unat (if k < 12 then di_addrs d ! k else if k = 140 then di_addrs d ! 12
     else dec32 (drop (4 * (k - 12)) (I ! unat (di_addrs d ! 12))))"

definition nblk :: "nat \<Rightarrow> nat" where "nblk n = (n + 511) div 512"

definition fslots :: "nat \<Rightarrow> nat set" where
  "fslots n = {..<nblk n} \<union> (if 12 < nblk n then {140} else {})"

definition nused :: "nat \<Rightarrow> nat" where "nused n = nblk n + (if 12 < nblk n then 1 else 0)"

text \<open>The inode \<open>d\<close> describes a file with the bytes \<open>c\<close>, zeros to the end of its last block, and nothing else.\<close>

definition fok :: "uchar list list \<Rightarrow> dinode \<Rightarrow> uchar list \<Rightarrow> bool" where
  "fok I d c \<longleftrightarrow> length (di_addrs d) = 13 \<and> nblk (length c) \<le> 140 \<and>
     (\<forall>j < nblk (length c) * 512. I ! maddr I d (j div 512) ! (j mod 512) = (if j < length c then c ! j else 0)) \<and>
     (\<forall>k < 12. nblk (length c) \<le> k \<longrightarrow> di_addrs d ! k = 0) \<and>
     (if nblk (length c) \<le> 12 then di_addrs d ! 12 = 0 else \<forall>k < 140. nblk (length c) \<le> k \<longrightarrow> maddr I d k = 0)"

definition slots :: "uchar list list \<Rightarrow> (nat \<times> nat) set" where
  "slots xs = (SIGMA i:{..<length xs}. fslots (length (xs ! i)))"

text \<open>
  An image of 1000 blocks with the files \<open>xs\<close> and their inodes \<open>dns\<close>: every place has a block of its own
  below \<open>fb\<close>, and the blocks from \<open>fb\<close> on have not been used.
\<close>

definition image_ok :: "uchar list list \<Rightarrow> nat \<Rightarrow> dinode list \<Rightarrow> uchar list list \<Rightarrow> bool" where
  "image_ok I fb dns xs \<longleftrightarrow> length dns = length xs \<and> length I = 1000 \<and> (\<forall>b < 1000. length (I ! b) = 512) \<and>
     59 \<le> fb \<and> fb \<le> 1000 \<and> (\<forall>b < 1000. fb \<le> b \<longrightarrow> I ! b = zeroes) \<and>
     inj_on (\<lambda>(i, k). maddr I (dns ! i) k) (slots xs) \<and>
     (\<forall>(i, k) \<in> slots xs. 59 \<le> maddr I (dns ! i) k \<and> maddr I (dns ! i) k < fb) \<and>
     (\<forall>i < length xs. fok I (dns ! i) (xs ! i))"

lemma image_okD:
  assumes "image_ok I fb dns xs"
  shows "length dns = length xs" "length I = 1000" "\<And>b. b < 1000 \<Longrightarrow> length (I ! b) = 512" "59 \<le> fb" "fb \<le> 1000"
    "\<And>b. b < 1000 \<Longrightarrow> fb \<le> b \<Longrightarrow> I ! b = zeroes"
    "\<And>i j k l. i < length xs \<Longrightarrow> k \<in> fslots (length (xs ! i)) \<Longrightarrow> j < length xs \<Longrightarrow> l \<in> fslots (length (xs ! j)) \<Longrightarrow>
       maddr I (dns ! i) k = maddr I (dns ! j) l \<Longrightarrow> i = j \<and> k = l"
    "\<And>i k. i < length xs \<Longrightarrow> k \<in> fslots (length (xs ! i)) \<Longrightarrow> 59 \<le> maddr I (dns ! i) k \<and> maddr I (dns ! i) k < fb"
    "\<And>i. i < length xs \<Longrightarrow> fok I (dns ! i) (xs ! i)"
proof -
  show "i = j \<and> k = l" if "i < length xs" "k \<in> fslots (length (xs ! i))" "j < length xs" "l \<in> fslots (length (xs ! j))"
    "maddr I (dns ! i) k = maddr I (dns ! j) l" for i j k l
  proof -
    have "inj_on (\<lambda>(i, k). maddr I (dns ! i) k) (slots xs)" using assms by (simp add: image_ok_def)
    moreover have "(i, k) \<in> slots xs" "(j, l) \<in> slots xs" using that by (auto simp: slots_def)
    ultimately have "(i, k) = (j, l)" using that(5) by (elim inj_onD) simp_all
    then show ?thesis by simp
  qed
  show "59 \<le> maddr I (dns ! i) k \<and> maddr I (dns ! i) k < fb" if "i < length xs" "k \<in> fslots (length (xs ! i))" for i k
  proof -
    have "(i, k) \<in> slots xs" using that by (auto simp: slots_def)
    then show ?thesis using assms unfolding image_ok_def by blast
  qed
qed (use assms in \<open>auto simp: image_ok_def\<close>)

lemma maddr_direct: "k < 12 \<or> k = 140 \<Longrightarrow> maddr I' d k = maddr I d k"
  by (auto simp: maddr_def)

lemma maddr_same: "I' ! maddr I d 140 = I ! maddr I d 140 \<Longrightarrow> maddr I' d k = maddr I d k"
  by (auto simp: maddr_def)

text \<open>A file whose blocks are not written stays.\<close>

lemma fok_same:
  assumes "fok I d c" "\<And>k. k \<in> fslots (length c) \<Longrightarrow> I' ! maddr I d k = I ! maddr I d k"
  shows "fok I' d c" "\<And>k. k \<in> fslots (length c) \<Longrightarrow> maddr I' d k = maddr I d k"
proof -
  show m: "maddr I' d k = maddr I d k" if "k \<in> fslots (length c)" for k
  proof (cases "k < 12 \<or> k = 140")
    case False
    then have "140 \<in> fslots (length c)" using that by (auto simp: fslots_def split: if_splits)
    from maddr_same [OF assms(2) [OF this]] show ?thesis .
  qed (rule maddr_direct)
  have "I' ! maddr I' d (j div 512) ! (j mod 512) = I ! maddr I d (j div 512) ! (j mod 512)" if "j < nblk (length c) * 512" for j
  proof -
    have "j div 512 \<in> fslots (length c)" using that by (auto simp: fslots_def less_mult_imp_div_less)
    then show ?thesis using m assms(2) by metis
  qed
  moreover have "maddr I' d k = maddr I d k" if "12 < nblk (length c)" for k
  proof -
    have "140 \<in> fslots (length c)" using that by (auto simp: fslots_def)
    from maddr_same [OF assms(2) [OF this]] show ?thesis .
  qed
  ultimately show "fok I' d c" using assms(1) unfolding fok_def by (auto simp: not_le)
qed

lemma fslots_mono: "m \<le> n \<Longrightarrow> fslots m \<subseteq> fslots n"
proof -
  assume "m \<le> n"
  then have "nblk m \<le> nblk n" by (auto simp: nblk_def intro: div_le_mono)
  then show ?thesis by (auto simp: fslots_def)
qed

text \<open>
  A file grows: its old blocks keep their places, the new places get new blocks, the blocks of the others
  are not written.
\<close>

lemma image_step:
  assumes ok: "image_ok I fb dns xs" and i: "i < length xs" and len: "length (xs ! i) \<le> length c"
    and I': "length I' = 1000" "\<And>b. b < 1000 \<Longrightarrow> length (I' ! b) = 512" "fb \<le> fb'" "fb' \<le> 1000" "\<And>b. b < 1000 \<Longrightarrow> fb' \<le> b \<Longrightarrow> I' ! b = zeroes"
    and old: "\<And>k. k \<in> fslots (length (xs ! i)) \<Longrightarrow> maddr I' d k = maddr I (dns ! i) k"
    and new: "\<And>k. k \<in> fslots (length c) - fslots (length (xs ! i)) \<Longrightarrow> fb \<le> maddr I' d k \<and> maddr I' d k < fb'"
      "inj_on (maddr I' d) (fslots (length c) - fslots (length (xs ! i)))"
    and others: "\<And>b. b < fb \<Longrightarrow> (\<And>k. k \<in> fslots (length (xs ! i)) \<Longrightarrow> b \<noteq> maddr I (dns ! i) k) \<Longrightarrow> I' ! b = I ! b"
    and fk: "fok I' d c"
  shows "image_ok I' fb' (dns[i := d]) (xs[i := c])"
proof -
  note D = image_okD [OF ok]
  have o: "I' ! maddr I (dns ! j) k = I ! maddr I (dns ! j) k" if "j < length xs" "j \<noteq> i" "k \<in> fslots (length (xs ! j))" for j k
    using D(8) [OF that(1,3)] D(7) [OF that(1,3) i] that(2) by (intro others) auto
  have m: "maddr I' (dns ! j) k = maddr I (dns ! j) k" and f: "fok I' (dns ! j) (xs ! j)"
    if "j < length xs" "j \<noteq> i" "k \<in> fslots (length (xs ! j))" for j k
    using fok_same [OF D(9) [OF that(1)], of I'] o [OF that(1,2)] that(3) by blast+
  have f': "fok I' (dns ! j) (xs ! j)" if "j < length xs" "j \<noteq> i" for j
    using fok_same(1) [OF D(9) [OF that(1)], of I'] o [OF that] by blast
  let ?dns = "dns[i := d]" and ?xs = "xs[i := c]"
  have ad: "maddr I' (?dns ! j) k = (if j = i then maddr I' d k else maddr I' (dns ! j) k)" if "j < length xs" for j k
    using that D(1) by simp
  have sl: "(j, k) \<in> slots ?xs \<longleftrightarrow> j < length xs \<and> (if j = i then k \<in> fslots (length c) else k \<in> fslots (length (xs ! j)))" for j k
    by (auto simp: slots_def)
  define N where "N = fslots (length c) - fslots (length (xs ! i))"
  have val: "(if j = i \<and> k \<in> N then fb \<le> maddr I' (?dns ! j) k \<and> maddr I' (?dns ! j) k < fb'
      else k \<in> fslots (length (xs ! j)) \<and> maddr I' (?dns ! j) k = maddr I (dns ! j) k \<and> 59 \<le> maddr I' (?dns ! j) k \<and> maddr I' (?dns ! j) k < fb)"
    if "(j, k) \<in> slots ?xs" for j k
  proof (cases "j = i")
    case True
    then show ?thesis using that sl [of j k] ad [of j k] new(1) [of k] old [of k] D(8) [OF i, of k] i by (auto simp: N_def)
  next
    case False
    then show ?thesis using that sl [of j k] ad [of j k] m [of j k] D(8) [of j k] by auto
  qed
  have "inj_on (\<lambda>(i, k). maddr I' (?dns ! i) k) (slots ?xs)"
  proof (rule inj_onI)
    fix p q assume p: "p \<in> slots ?xs" and q: "q \<in> slots ?xs" and e: "(\<lambda>(i, k). maddr I' (?dns ! i) k) p = (\<lambda>(i, k). maddr I' (?dns ! i) k) q"
    obtain j k j' k' where jk: "p = (j, k)" "q = (j', k')" by (cases p, cases q)
    have l: "j < length xs" "j' < length xs" using p q sl unfolding jk by auto
    have e: "maddr I' (?dns ! j) k = maddr I' (?dns ! j') k'" using e unfolding jk by simp
    note v = val [OF p [unfolded jk(1)]] and v' = val [OF q [unfolded jk(2)]]
    consider "j = i \<and> k \<in> N" "j' = i \<and> k' \<in> N" | "\<not> (j = i \<and> k \<in> N)" "\<not> (j' = i \<and> k' \<in> N)"
      | "j = i \<and> k \<in> N" "\<not> (j' = i \<and> k' \<in> N)" | "\<not> (j = i \<and> k \<in> N)" "j' = i \<and> k' \<in> N" by blast
    then show "p = q"
    proof cases
      case 1
      then have "maddr I' d k = maddr I' d k'" using e ad [of i] i by simp
      then have "k = k'" using inj_onD [OF new(2)] 1 by (simp add: N_def)
      then show ?thesis using 1 jk by simp
    next
      case 2
      then have "j = j' \<and> k = k'" using v v' e l by (intro D(7)) auto
      then show ?thesis using jk by simp
    next
      case 3
      then show ?thesis using v v' e by auto
    next
      case 4
      then show ?thesis using v v' e by auto
    qed
  qed
  moreover have "59 \<le> maddr I' (?dns ! j) k \<and> maddr I' (?dns ! j) k < fb'" if "(j, k) \<in> slots ?xs" for j k
    using val [OF that] D(4) I'(3) by (auto split: if_splits)
  moreover have "fok I' (?dns ! j) (?xs ! j)" if "j < length xs" for j using that fk f' D(1) by (cases "j = i") auto
  ultimately show ?thesis using D(1,4) I' unfolding image_ok_def by auto
qed

section \<open>Appending\<close>

lemma nblk_div:
  "nblk n = (if n mod 512 = 0 then n div 512 else n div 512 + 1)"
  "0 < m \<Longrightarrow> m \<le> 512 - n mod 512 \<Longrightarrow> nblk (n + m) = n div 512 + 1"
proof -
  have n: "n = 512 * (n div 512) + n mod 512" by simp
  have m: "n mod 512 < 512" by simp
  define a where "a = n div 512"
  define r where "r = n mod 512"
  have nr: "n = 512 * a + r" "r < 512" using n m unfolding a_def r_def by auto
  have "(512 * a + r + 511) div 512 = (if r = 0 then a else a + 1)" using nr(2) by auto
  then show "nblk n = (if n mod 512 = 0 then n div 512 else n div 512 + 1)"
    unfolding nblk_def a_def [symmetric] r_def [symmetric] using nr(1) by simp
  assume "0 < m" "m \<le> 512 - n mod 512"
  then have "0 < m" "m + r \<le> 512" using nr(2) unfolding r_def by auto
  then have "(512 * a + r + m + 511) div 512 = a + 1" by auto
  then show "nblk (n + m) = n div 512 + 1" unfolding nblk_def a_def [symmetric] using nr(1) by simp
qed

lemma fok_grow:
  assumes f: "fok I d c" and q: "q \<noteq> []" "length q \<le> 512 - length c mod 512" "length c div 512 < 140"
    and d': "length (di_addrs d') = 13"
    and same: "\<And>k. k < length c div 512 \<Longrightarrow> I' ! maddr I' d' k = I ! maddr I d k"
    and lst: "I' ! maddr I' d' (length c div 512) = splice (length c mod 512) q B" "length B = 512"
      "if length c mod 512 = 0 then B = zeroes else B = I ! maddr I d (length c div 512)"
    and zero: "\<And>k. k < 12 \<Longrightarrow> length c div 512 < k \<Longrightarrow> di_addrs d' ! k = 0"
      "length c div 512 < 12 \<Longrightarrow> di_addrs d' ! 12 = 0"
      "\<And>k. \<not> length c div 512 < 12 \<Longrightarrow> k < 140 \<Longrightarrow> length c div 512 < k \<Longrightarrow> maddr I' d' k = 0"
  shows "fok I' d' (c @ q)"
proof -
  define a where "a = length c div 512"
  define r where "r = length c mod 512"
  have cr: "length c = 512 * a + r" "r < 512" unfolding a_def r_def by simp_all
  have lq: "0 < length q" "r + length q \<le> 512" using q(1,2) cr(2) unfolding r_def [symmetric] by auto
  have nb: "nblk (length (c @ q)) = a + 1" using nblk_div(2) [of "length q" "length c"] q lq unfolding a_def by simp
  have nc: "nblk (length c) = (if r = 0 then a else a + 1)" using nblk_div(1) unfolding a_def r_def by blast
  have old: "I ! maddr I d (j div 512) ! (j mod 512) = (if j < length c then c ! j else 0)" if "j < nblk (length c) * 512" for j
    using f that unfolding fok_def by blast
  have byte: "I' ! maddr I' d' (j div 512) ! (j mod 512) = (if j < length (c @ q) then (c @ q) ! j else 0)" if j: "j < (a + 1) * 512" for j
  proof (cases "j div 512 < a")
    case True
    then have "j < a * 512" by (simp add: less_mult_imp_div_less div_less_iff_less_mult)
    then have "j < length c" "j < nblk (length c) * 512" using cr(1) nc by auto
    then show ?thesis using same [of "j div 512"] True old [of j] unfolding a_def [symmetric] by (simp add: nth_append)
  next
    case False
    moreover have "j div 512 < a + 1" using j by (simp add: less_mult_imp_div_less)
    ultimately have jd: "j div 512 = a" by simp
    define x where "x = j mod 512"
    have x: "x < 512" "j = 512 * a + x" using jd unfolding x_def by auto
    have B: "B ! x = (if x < r then c ! j else 0)"
    proof (cases "r = 0")
      case True
      then show ?thesis using lst(3) x by (simp add: r_def [symmetric] zeroes_def BSIZE_def)
    next
      case False
      then have "B ! x = I ! maddr I d (j div 512) ! (j mod 512)"
        using lst(3) jd unfolding x_def a_def [symmetric] r_def [symmetric] by simp
      also have "\<dots> = (if j < length c then c ! j else 0)" using old [of j] j nc False by simp
      finally show ?thesis using x cr by simp
    qed
    have "I' ! maddr I' d' (j div 512) ! (j mod 512) = splice r q B ! x"
      using lst(1) jd unfolding x_def a_def [symmetric] r_def [symmetric] by simp
    also have "\<dots> = (if r \<le> x \<and> x < r + length q then q ! (x - r) else B ! x)"
      using lst(2) lq x by (intro nth_splice) auto
    also have "\<dots> = (if j < length (c @ q) then (c @ q) ! j else 0)" using B x cr by (auto simp: nth_append)
    finally show ?thesis .
  qed
  show ?thesis
    unfolding fok_def nb using d' q(3) byte zero unfolding a_def [symmetric] by (auto simp: not_le Suc_le_eq)
qed

text \<open>An entry of the indirect block.\<close>

lemma dec32_splice:
  assumes "length B = 512" "k < 128" "l < 128"
  shows "dec32 (drop (4 * l) (splice (4 * k) (enc32 w) B)) = (if l = k then w else dec32 (drop (4 * l) B))"
proof -
  have s: "splice (4 * k) (enc32 w) B ! (4 * l + i) = (if l = k then enc32 w ! i else B ! (4 * l + i))" if "i < 4" for i
    using assms that by (subst nth_splice) auto
  have "drop (4 * l) (splice (4 * k) (enc32 w) B) ! i = (if l = k then enc32 w ! i else drop (4 * l) B ! i)" if "i < 4" for i
    using s [OF that] assms that by (simp add: nth_drop)
  then show ?thesis using dec32_enc32(2) [of w] by (simp add: dec32_def)
qed

lemma sector_offset:
  assumes "unat x \<le> 1000"
  shows "unat (x * of_nat BSIZE :: uint) div BSIZE = unat x"
proof -
  have "unat (x * of_nat BSIZE :: uint) = unat x * 512"
    using assms by (simp add: BSIZE_def unat_word_ariths)
  then show ?thesis by (simp add: BSIZE_def)
qed

lemma wsect_in:
  "unat x < length (img s) \<Longrightarrow> length (img s) = 1000 \<Longrightarrow> wsect x b s = Ok () (s\<lparr>img := (img s)[unat x := b]\<rparr>)"
  using sector_offset [of x] by (simp add: wsect_def Let_def)

lemma rsect_in: "unat x < length (img s) \<Longrightarrow> length (img s) = 1000 \<Longrightarrow> rsect x s = Ok (img s ! unat x) s"
  using sector_offset [of x] by (simp add: rsect_def Let_def)

lemma maddr_upd: "b \<noteq> maddr I d 140 \<Longrightarrow> maddr (I[b := v]) d k = maddr I d k"
  by (rule maddr_same) simp

lemma fokD:
  assumes "fok I d c"
  shows "length (di_addrs d) = 13" "nblk (length c) \<le> 140" "\<And>k. k < 12 \<Longrightarrow> nblk (length c) \<le> k \<Longrightarrow> di_addrs d ! k = 0"
    "nblk (length c) \<le> 12 \<Longrightarrow> di_addrs d ! 12 = 0" "\<And>k. 12 < nblk (length c) \<Longrightarrow> k < 140 \<Longrightarrow> nblk (length c) \<le> k \<Longrightarrow> maddr I d k = 0"
  using assms unfolding fok_def by (auto split: if_splits)

text \<open>What one turn of the loop must have done, with the inode in memory.\<close>

definition appended :: "mkstate \<Rightarrow> dinode list \<Rightarrow> uchar list list \<Rightarrow> nat \<Rightarrow> uchar list \<Rightarrow> dinode \<Rightarrow> mkstate \<Rightarrow> bool" where
  "appended s dns xs i q d' t \<longleftrightarrow>
     image_ok (img t) (unat (freeblock t)) (dns[i := d']) (xs[i := xs ! i @ q]) \<and>
     unat (freeblock t) + nused (length (xs ! i)) = unat (freeblock s) + nused (length (xs ! i) + length q) \<and>
     freeinode t = freeinode s \<and> (\<forall>b < 59. img t ! b = img s ! b) \<and> d' = (dns ! i)\<lparr>di_addrs := di_addrs d'\<rparr>"

text \<open>The last block has room.\<close>

lemma append_room:
  assumes ok: "image_ok (img s) (unat (freeblock s)) dns xs" and i: "i < length xs" and r: "length (xs ! i) mod 512 \<noteq> 0"
    and q: "q \<noteq> []" "length q \<le> 512 - length (xs ! i) mod 512" "length (xs ! i) div 512 < 140"
  shows "\<exists>x s2. iappend_blk (dns ! i) (length (xs ! i) div 512) s = Ok (dns ! i, x) s \<and> unat x < length (img s) \<and>
    wsect x (splice (length (xs ! i) mod 512) q (img s ! unat x)) s = Ok () s2 \<and> appended s dns xs i q (dns ! i) s2"
proof -
  let ?c = "xs ! i" and ?d = "dns ! i" and ?I = "img s" and ?f = "length (xs ! i) div 512"
  note D = image_okD [OF ok]
  note K = D(9) [OF i]
  note F = fokD [OF K]
  have nb: "nblk (length ?c) = ?f + 1" "nblk (length ?c + length q) = ?f + 1"
    using nblk_div(1) [of "length ?c"] nblk_div(2) [of "length q" "length ?c"] r q by auto
  have fs: "?f \<in> fslots (length ?c)" using nb by (auto simp: fslots_def)
  define X where "X = maddr ?I ?d ?f"
  have X: "59 \<le> X" "X < unat (freeblock s)" using D(8) [OF i fs] by (auto simp: X_def)
  have X1000: "X < 1000" using X D(5) by simp
  obtain x where x: "iappend_blk ?d ?f s = Ok (?d, x) s" "unat x = X"
  proof (cases "?f < 12")
    case True
    then have X': "unat (di_addrs ?d ! ?f) = X" by (simp add: X_def maddr_def)
    then have "di_addrs ?d ! ?f \<noteq> 0" using X by auto
    then have "iappend_blk ?d ?f s = Ok (?d, di_addrs ?d ! ?f) s" using True by (simp add: iappend_blk_def NDIRECT_def)
    then show ?thesis using X' that by blast
  next
    case False
    then have s140: "140 \<in> fslots (length ?c)" using nb by (auto simp: fslots_def)
    have D140: "unat (di_addrs ?d ! 12) = maddr ?I ?d 140" by (simp add: maddr_def)
    have d12: "di_addrs ?d ! 12 \<noteq> 0" "unat (di_addrs ?d ! 12) < length ?I" using D(8) [OF i s140] D140 D(2,5) by auto
    have X': "unat (dec32 (drop (4 * (?f - 12)) (?I ! unat (di_addrs ?d ! 12)))) = X"
      using False q(3) by (simp add: X_def maddr_def)
    then have "dec32 (drop (4 * (?f - 12)) (?I ! unat (di_addrs ?d ! 12))) \<noteq> 0" using X by auto
    then have "iappend_blk ?d ?f s = Ok (?d, dec32 (drop (4 * (?f - 12)) (?I ! unat (di_addrs ?d ! 12)))) s"
      using False d12 D(2) by (simp add: iappend_blk_def NDIRECT_def rsect_in Let_def)
    then show ?thesis using X' that by blast
  qed
  let ?B = "splice (length ?c mod 512) q (?I ! X)"
  let ?I' = "?I[X := ?B]"
  have lB: "length ?B = 512" using q(2) D(3) [OF X1000] r by (subst length_splice) auto
  have w: "wsect x ?B s = Ok () (s\<lparr>img := ?I'\<rparr>)" using x(2) X1000 D(2) by (simp add: wsect_in)
  have apart: "maddr ?I ?d k \<noteq> X" if "k \<in> fslots (length ?c)" "k \<noteq> ?f" for k
    using D(7) [OF i that(1) i fs] that(2) by (auto simp: X_def)
  have m: "maddr ?I' ?d k = maddr ?I ?d k" if "k < 12 \<or> 12 < nblk (length ?c)" for k
  proof (cases "12 < nblk (length ?c)")
    case True
    then have "140 \<in> fslots (length ?c)" by (auto simp: fslots_def)
    then show ?thesis using apart [of 140] q(3) by (intro maddr_upd) auto
  qed (use that in \<open>auto intro: maddr_direct\<close>)
  have old: "maddr ?I' ?d k = maddr ?I ?d k" if "k \<in> fslots (length ?c)" for k
    using that by (intro m) (auto simp: fslots_def split: if_splits)
  have bl: "length (?I' ! b) = 512" if "b < 1000" for b using D(3) [OF that] lB D(2) that by (cases "b = X") auto
  have fk: "fok ?I' ?d (?c @ q)"
  proof (rule fok_grow [OF K q F(1)])
    show "?I' ! maddr ?I' ?d k = ?I ! maddr ?I ?d k" if "k < ?f" for k
    proof -
      have "k \<in> fslots (length ?c)" using that nb(1) by (auto simp: fslots_def)
      then show ?thesis using old apart [of k] that by auto
    qed
    show "?I' ! maddr ?I' ?d ?f = splice (length ?c mod 512) q (?I ! X)" using old [OF fs] X1000 D(2) by (simp add: X_def)
    show "length (?I ! X) = 512" by (rule D(3) [OF X1000])
    show "if length ?c mod 512 = 0 then ?I ! X = zeroes else ?I ! X = ?I ! maddr ?I ?d ?f" using r by (simp add: X_def)
    show "di_addrs ?d ! k = 0" if "k < 12" "?f < k" for k using F(3) [OF that(1)] that(2) nb(1) by simp
    show "di_addrs ?d ! 12 = 0" if "?f < 12" using F(4) that nb(1) by simp
    show "maddr ?I' ?d k = 0" if "\<not> ?f < 12" "k < 140" "?f < k" for k
      using m [of k] F(5) [of k] that nb(1) by simp
  qed
  have E: "fslots (length (?c @ q)) - fslots (length ?c) = {}" using nb by (simp add: fslots_def)
  have "image_ok ?I' (unat (freeblock s)) (dns[i := ?d]) (xs[i := ?c @ q])"
  proof (rule image_step [OF ok i, of "?c @ q" ?I' "unat (freeblock s)" ?d])
    show "?I' ! b = zeroes" if "b < 1000" "unat (freeblock s) \<le> b" for b using D(6) [OF that] X(2) that by simp
    show "unat (freeblock s) \<le> maddr ?I' ?d k \<and> maddr ?I' ?d k < unat (freeblock s)"
      if "k \<in> fslots (length (?c @ q)) - fslots (length ?c)" for k using that E by auto
    show "inj_on (maddr ?I' ?d) (fslots (length (?c @ q)) - fslots (length ?c))" unfolding E by simp
    show "?I' ! b = ?I ! b" if "\<And>k. k \<in> fslots (length ?c) \<Longrightarrow> b \<noteq> maddr ?I ?d k" for b
      using that [OF fs] by (simp add: X_def)
  qed (use D(2,5) bl old fk E in auto)
  moreover have "nused (length ?c + length q) = nused (length ?c)" using nb by (simp add: nused_def)
  moreover have "?I' ! b = ?I ! b" if "b < 59" for b using X(1) that by simp
  ultimately have "appended s dns xs i q ?d (s\<lparr>img := ?I'\<rparr>)" by (simp add: appended_def)
  then show ?thesis using x w X1000 D(2) by auto
qed

text \<open>
  The file ends with a full block: the new block \<open>F\<close>, and before the thirteenth the indirect block, come
  from the unused ones. What the three cases share is the use of the new block.
\<close>

lemma append_fresh:
  assumes ok: "image_ok (img s) (unat (freeblock s)) dns xs" and i: "i < length xs" and r: "length (xs ! i) mod 512 = 0"
    and q: "q \<noteq> []" "length q \<le> 512" "length (xs ! i) div 512 < 140"
    and I1: "length I1 = 1000" "\<And>b. b < 1000 \<Longrightarrow> length (I1 ! b) = 512"
    and others: "\<And>b. b < unat (freeblock s) \<Longrightarrow> b \<noteq> maddr (img s) (dns ! i) 140 \<or> 140 \<notin> fslots (length (xs ! i)) \<Longrightarrow> I1 ! b = img s ! b"
    and x: "unat (freeblock s) \<le> X" "X < fb'" "fb' \<le> 1000" "\<And>b. b < 1000 \<Longrightarrow> X \<le> b \<Longrightarrow> I1 ! b = zeroes" "X + 1 = fb'"
    and d': "length (di_addrs d') = 13" "maddr I1 d' (length (xs ! i) div 512) = X"
    and old: "\<And>k. k \<in> fslots (length (xs ! i)) \<Longrightarrow> maddr I1 d' k = maddr (img s) (dns ! i) k"
    and zero: "\<And>k. k < 12 \<Longrightarrow> length (xs ! i) div 512 < k \<Longrightarrow> di_addrs d' ! k = 0"
      "length (xs ! i) div 512 < 12 \<Longrightarrow> di_addrs d' ! 12 = 0"
      "\<And>k. \<not> length (xs ! i) div 512 < 12 \<Longrightarrow> k < 140 \<Longrightarrow> length (xs ! i) div 512 < k \<Longrightarrow> maddr I1 d' k = 0"
    and ind: "12 \<le> length (xs ! i) div 512 \<Longrightarrow> maddr I1 d' 140 < X \<and>
       (140 \<notin> fslots (length (xs ! i)) \<longrightarrow> unat (freeblock s) \<le> maddr I1 d' 140)"
  shows "image_ok (I1[X := splice 0 q zeroes]) fb' (dns[i := d']) (xs[i := xs ! i @ q])"
proof -
  let ?c = "xs ! i" and ?d = "dns ! i" and ?I = "img s" and ?f = "length (xs ! i) div 512"
  let ?I' = "I1[X := splice 0 q zeroes]"
  note D = image_okD [OF ok]
  note K = D(9) [OF i]
  note F = fokD [OF K]
  have nb: "nblk (length ?c) = ?f" "nblk (length ?c + length q) = ?f + 1"
    using nblk_div(1) [of "length ?c"] nblk_div(2) [of "length q" "length ?c"] r q by auto
  have X1000: "X < 1000" using x(2,3) by simp
  have lz: "length zeroes = 512" by (simp add: zeroes_def BSIZE_def)
  have m: "maddr ?I' d' k = maddr I1 d' k" if "k < 12 \<or> 12 \<le> ?f \<or> k = 140" for k
  proof (cases "k < 12 \<or> k = 140")
    case True
    then show ?thesis by (rule maddr_direct)
  next
    case False
    then have "12 \<le> ?f" using that by simp
    then show ?thesis using ind by (intro maddr_upd) auto
  qed
  have fresh: "maddr ?I ?d k < unat (freeblock s)" if "k \<in> fslots (length ?c)" for k using D(8) [OF i that] by simp
  have s140: "140 \<in> fslots (length ?c) \<longleftrightarrow> 12 < ?f" using F(2) nb(1) q(3) by (auto simp: fslots_def)
  have old': "maddr ?I' d' k = maddr ?I ?d k" if "k \<in> fslots (length ?c)" for k
  proof -
    have "k < 12 \<or> 12 \<le> ?f \<or> k = 140" using that nb(1) by (auto simp: fslots_def split: if_splits)
    then show ?thesis using m old [OF that] by metis
  qed
  have new: "fslots (length (?c @ q)) - fslots (length ?c) = (if ?f = 12 then {12, 140} else {?f})"
    using nb q(3) by (auto simp: fslots_def)
  have mf: "maddr ?I' d' ?f = X"
  proof -
    have "?f < 12 \<or> 12 \<le> ?f \<or> ?f = 140" by linarith
    from m [OF this] d'(2) show ?thesis by simp
  qed
  have fk: "fok ?I' d' (?c @ q)"
  proof (rule fok_grow [OF K q(1) _ q(3) d'(1), of ?I' zeroes])
    show "length q \<le> 512 - length ?c mod 512" using q(2) r by simp
    show "?I' ! maddr ?I' d' k = ?I ! maddr ?I ?d k" if k: "k < ?f" for k
    proof -
      have ks: "k \<in> fslots (length ?c)" using k nb(1) by (auto simp: fslots_def)
      have "maddr ?I ?d k \<noteq> maddr ?I ?d 140" if "140 \<in> fslots (length ?c)"
        using D(7) [OF i ks i that] k q(3) by auto
      then have "I1 ! maddr ?I ?d k = ?I ! maddr ?I ?d k" using others [OF fresh [OF ks]] by blast
      then show ?thesis using old' [OF ks] fresh [OF ks] x(1) by simp
    qed
    show "?I' ! maddr ?I' d' ?f = splice (length ?c mod 512) q zeroes" using mf r X1000 I1(1) by simp
    show "length zeroes = 512" by (rule lz)
    show "if length ?c mod 512 = 0 then zeroes = zeroes else zeroes = ?I ! maddr ?I ?d ?f" using r by simp
    show "di_addrs d' ! k = 0" if "k < 12" "?f < k" for k by (rule zero(1) [OF that])
    show "di_addrs d' ! 12 = 0" if "?f < 12" by (rule zero(2) [OF that])
    show "maddr ?I' d' k = 0" if "\<not> ?f < 12" "k < 140" "?f < k" for k using zero(3) [OF that] m [of k] that(1) by auto
  qed
  show ?thesis
  proof (rule image_step [OF ok i, of "?c @ q" ?I' fb' d'])
    show "length (?I' ! b) = 512" if "b < 1000" for b using I1 that lz q(2) X1000 by (cases "b = X") auto
    show "?I' ! b = zeroes" if "b < 1000" "fb' \<le> b" for b using x(4) [of b] that x(5) by simp
    show "unat (freeblock s) \<le> maddr ?I' d' k \<and> maddr ?I' d' k < fb'"
      if k: "k \<in> fslots (length (?c @ q)) - fslots (length ?c)" for k
    proof (cases "k = ?f")
      case True
      then show ?thesis using mf x(1,2) by simp
    next
      case False
      then have "k = 140" "?f = 12" using k new by (auto split: if_splits)
      then show ?thesis using ind s140 m [of 140] x(2) by auto
    qed
    show "inj_on (maddr ?I' d') (fslots (length (?c @ q)) - fslots (length ?c))"
    proof (cases "?f = 12")
      case True
      have "maddr ?I' d' 12 \<noteq> maddr ?I' d' 140" using mf True ind m [of 140] by simp
      then show ?thesis unfolding new using True by simp
    next
      case False
      then show ?thesis unfolding new by simp
    qed
    show "?I' ! b = ?I ! b" if "b < unat (freeblock s)" "\<And>k. k \<in> fslots (length ?c) \<Longrightarrow> b \<noteq> maddr ?I ?d k" for b
      using others [OF that(1)] that(2) [of 140] that(1) x(1) by (metis less_irrefl nth_list_update_neq order_less_le_trans)
  qed (use I1 x old' fk in auto)
qed

definition turn_ok :: "mkstate \<Rightarrow> dinode list \<Rightarrow> uchar list list \<Rightarrow> nat \<Rightarrow> uchar list \<Rightarrow> bool" where
  "turn_ok s dns xs i q \<longleftrightarrow>
     (\<exists>d' x s1 buf s2. iappend_blk (dns ! i) (length (xs ! i) div 512) s = Ok (d', x) s1 \<and> rsect x s1 = Ok buf s1 \<and>
        wsect x (splice (length (xs ! i) mod 512) q buf) s1 = Ok () s2 \<and> appended s dns xs i q d' s2)"

lemma turn_okI:
  assumes "iappend_blk (dns ! i) (length (xs ! i) div 512) s = Ok (d', x) s1" "unat x < length (img s1)"
    and "appended s dns xs i q d' (s1\<lparr>img := (img s1)[unat x := splice (length (xs ! i) mod 512) q (img s1 ! unat x)]\<rparr>)"
  shows "turn_ok s dns xs i q"
proof -
  have "length (img s1) = 1000" using assms(3) by (simp add: appended_def image_ok_def)
  then show ?thesis unfolding turn_ok_def using assms by (simp add: rsect_in wsect_in)
qed

lemma next_block: "unat b < 1000 \<Longrightarrow> unat (b + 1) = unat b + 1" for b :: uint
  by (simp add: unat_add_lt)

lemma nused_next:
  assumes "length c mod 512 = 0" "q \<noteq> []" "length q \<le> 512"
  shows "nused (length c + length q) = nused (length c) + (if length c div 512 = 12 then 2 else 1)"
    "nblk (length c) = length c div 512"
  using nblk_div(1) [of "length c"] nblk_div(2) [of "length q" "length c"] assms by (auto simp: nused_def)

lemma turn_direct:
  assumes ok: "image_ok (img s) (unat (freeblock s)) dns xs" and i: "i < length xs" and r: "length (xs ! i) mod 512 = 0"
    and q: "q \<noteq> []" "length q \<le> 512" "length (xs ! i) div 512 < 12"
    and room: "unat (freeblock s) + nused (length (xs ! i) + length q) \<le> 1000 + nused (length (xs ! i))"
  shows "turn_ok s dns xs i q"
proof -
  let ?c = "xs ! i" and ?d = "dns ! i" and ?I = "img s" and ?f = "length (xs ! i) div 512" and ?F = "freeblock s"
  note D = image_okD [OF ok]
  note F = fokD [OF D(9) [OF i]]
  note N = nused_next [OF r q(1,2)]
  have F1: "unat ?F < 1000" "unat (?F + 1) = unat ?F + 1" using room N(1) q(3) by (auto simp: next_block)
  have z: "di_addrs ?d ! ?f = 0" using F(3) [OF q(3)] N(2) by simp
  define d' where "d' = ?d\<lparr>di_addrs := (di_addrs ?d)[?f := ?F]\<rparr>"
  define s1 where "s1 = s\<lparr>freeblock := ?F + 1\<rparr>"
  have b: "iappend_blk ?d ?f s = Ok (d', ?F) s1" using q(3) z F(1) by (simp add: iappend_blk_def NDIRECT_def d'_def s1_def)
  have Iz: "?I ! unat ?F = zeroes" using D(6) [OF F1(1)] by simp
  have mk: "maddr ?I d' k = (if k = ?f then unat ?F else maddr ?I ?d k)" if "k < 12" for k
    using that F(1) by (simp add: maddr_def d'_def nth_list_update)
  have "image_ok (?I[unat ?F := splice 0 q zeroes]) (unat ?F + 1) (dns[i := d']) (xs[i := ?c @ q])"
  proof (rule append_fresh [OF ok i r q(1,2), of ?I "unat ?F" "unat ?F + 1" d'])
    show "maddr ?I d' ?f = unat ?F" using mk q(3) by simp
    show "maddr ?I d' k = maddr ?I ?d k" if "k \<in> fslots (length ?c)" for k
    proof -
      have "k < ?f" using that N(2) q(3) by (auto simp: fslots_def split: if_splits)
      then show ?thesis using mk [of k] q(3) by simp
    qed
    show "di_addrs d' ! k = 0" if "k < 12" "?f < k" for k using F(3) [OF that(1)] that N(2) by (simp add: d'_def)
    show "di_addrs d' ! 12 = 0" using F(4) N(2) q(3) by (simp add: d'_def)
    show "?I ! b = zeroes" if "b < 1000" "unat ?F \<le> b" for b by (rule D(6) [OF that])
  qed (use D F q(3) F1 in \<open>auto simp: d'_def\<close>)
  then have "appended s dns xs i q d' (s1\<lparr>img := ?I[unat ?F := splice (length ?c mod 512) q (?I ! unat ?F)]\<rparr>)"
    using F1 N(1) q(3) r Iz D(4) by (auto simp: appended_def s1_def d'_def)
  then show ?thesis using b F1(1) D(2) by (intro turn_okI [of dns i xs s d' ?F s1]) (simp_all add: s1_def)
qed

lemma turn_indirect:
  assumes ok: "image_ok (img s) (unat (freeblock s)) dns xs" and i: "i < length xs" and r: "length (xs ! i) mod 512 = 0"
    and q: "q \<noteq> []" "length q \<le> 512" "12 < length (xs ! i) div 512" "length (xs ! i) div 512 < 140"
    and room: "unat (freeblock s) + nused (length (xs ! i) + length q) \<le> 1000 + nused (length (xs ! i))"
  shows "turn_ok s dns xs i q"
proof -
  let ?c = "xs ! i" and ?d = "dns ! i" and ?I = "img s" and ?f = "length (xs ! i) div 512" and ?F = "freeblock s"
  note D = image_okD [OF ok]
  note F = fokD [OF D(9) [OF i]]
  note N = nused_next [OF r q(1,2)]
  have F1: "unat ?F < 1000" "unat (?F + 1) = unat ?F + 1" using room N(1) q(3) by (auto simp: next_block)
  have s140: "140 \<in> fslots (length ?c)" using N(2) q(3) by (auto simp: fslots_def)
  let ?A = "di_addrs ?d ! 12"
  have A: "unat ?A = maddr ?I ?d 140" by (simp add: maddr_def)
  have A1: "59 \<le> unat ?A" "unat ?A < unat ?F" "?A \<noteq> 0" "unat ?A < 1000" using D(8) [OF i s140] A D(5) by auto
  let ?k = "?f - 12"
  define I1 where "I1 = ?I[unat ?A := splice (4 * ?k) (enc32 ?F) (?I ! unat ?A)]"
  define s1 where "s1 = s\<lparr>freeblock := ?F + 1, img := I1\<rparr>"
  have e0: "dec32 (drop (4 * ?k) (?I ! unat ?A)) = 0"
  proof -
    have "maddr ?I ?d ?f = 0" using F(5) [of ?f] N(2) q(3,4) by simp
    then have "unat (dec32 (drop (4 * ?k) (?I ! unat ?A))) = 0" using q(3,4) by (simp add: maddr_def)
    then show ?thesis by (simp add: unsigned_eq_0_iff)
  qed
  have b: "iappend_blk ?d ?f s = Ok (?d, ?F) s1"
    using q(3) A1 e0 D(2) by (simp add: iappend_blk_def NDIRECT_def rsect_in wsect_in Let_def s1_def I1_def)
  have lA: "length (?I ! unat ?A) = 512" by (rule D(3) [OF A1(4)])
  have mk: "maddr I1 ?d k = (if k = ?f then unat ?F else maddr ?I ?d k)" if "k \<le> 140" for k
  proof (cases "k < 12 \<or> k = 140")
    case True
    then show ?thesis using q(3,4) by (auto simp: maddr_def)
  next
    case False
    then have k: "k - 12 < 128" "?k < 128" "k - 12 = ?k \<longleftrightarrow> k = ?f" using that q(3,4) by auto
    have "dec32 (drop (4 * (k - 12)) (I1 ! unat ?A)) = (if k = ?f then ?F else dec32 (drop (4 * (k - 12)) (?I ! unat ?A)))"
      using dec32_splice [OF lA k(2,1), of ?F] k(3) A1(4) D(2) by (simp add: I1_def)
    then show ?thesis using False by (simp add: maddr_def)
  qed
  have I1b: "I1 ! b = ?I ! b" if "b \<noteq> unat ?A" for b using that by (simp add: I1_def)
  have I1z: "I1 ! b = zeroes" if "b < 1000" "unat ?F \<le> b" for b using I1b [of b] D(6) [OF that] A1(2) that by auto
  have l1: "length (I1 ! b) = 512" if "b < 1000" for b
    using D(3) [OF that] lA q(4) A1(4) D(2) by (cases "b = unat ?A") (auto simp: I1_def)
  have "image_ok (I1[unat ?F := splice 0 q zeroes]) (unat ?F + 1) (dns[i := ?d]) (xs[i := ?c @ q])"
  proof (rule append_fresh [OF ok i r q(1,2,4), of I1 "unat ?F" "unat ?F + 1" ?d])
    show "maddr I1 ?d ?f = unat ?F" using mk [of ?f] q(4) by simp
    show "maddr I1 ?d k = maddr ?I ?d k" if "k \<in> fslots (length ?c)" for k
    proof -
      have "k < ?f \<or> k = 140" using that N(2) by (auto simp: fslots_def split: if_splits)
      then show ?thesis using mk [of k] q(4) by auto
    qed
    show "I1 ! b = ?I ! b" if "b \<noteq> maddr ?I ?d 140 \<or> 140 \<notin> fslots (length ?c)" for b
      using that s140 A by (intro I1b) auto
    show "maddr I1 ?d k = 0" if "k < 140" "?f < k" for k using mk [of k] F(5) [of k] that N(2) q(3) by simp
    show "maddr I1 ?d 140 < unat ?F \<and> (140 \<notin> fslots (length ?c) \<longrightarrow> unat ?F \<le> maddr I1 ?d 140)"
      using mk [of 140] A A1(2) s140 q(4) by simp
  qed (use D F q(3) F1 l1 I1z in \<open>auto simp: I1_def\<close>)
  then have "appended s dns xs i q ?d (s1\<lparr>img := I1[unat ?F := splice (length ?c mod 512) q (I1 ! unat ?F)]\<rparr>)"
    using F1 N(1) q(3) r I1z [OF F1(1)] D(4) A1(1) by (auto simp: appended_def s1_def I1_def)
  then show ?thesis using b F1(1) D(2) by (intro turn_okI [of dns i xs s ?d ?F s1]) (simp_all add: s1_def I1_def)
qed

lemma dec32_zeroes: "k < 128 \<Longrightarrow> dec32 (drop (4 * k) zeroes) = 0"
  by (simp add: dec32_def zeroes_def BSIZE_def le32_def)

lemma turn_first_indirect:
  assumes ok: "image_ok (img s) (unat (freeblock s)) dns xs" and i: "i < length xs" and r: "length (xs ! i) mod 512 = 0"
    and q: "q \<noteq> []" "length q \<le> 512" "length (xs ! i) div 512 = 12"
    and room: "unat (freeblock s) + nused (length (xs ! i) + length q) \<le> 1000 + nused (length (xs ! i))"
  shows "turn_ok s dns xs i q"
proof -
  let ?c = "xs ! i" and ?d = "dns ! i" and ?I = "img s" and ?F = "freeblock s"
  note D = image_okD [OF ok]
  note F = fokD [OF D(9) [OF i]]
  note N = nused_next [OF r q(1,2)]
  have F1: "unat ?F < 999" "unat (?F + 1) = unat ?F + 1" using room N(1) q(3) by (auto simp: next_block)
  have F2: "unat (?F + 1 + 1) = unat ?F + 2" using next_block [of "?F + 1"] F1 by simp
  have F2': "unat (2 + ?F) = unat ?F + 2" using F2 by (simp add: add.assoc add.commute)
  have nz: "?F \<noteq> 0" "?F + 1 \<noteq> 0" using D(4) F1(2) by auto
  have z: "di_addrs ?d ! 12 = 0" using F(4) N(2) q(3) by simp
  define d' where "d' = ?d\<lparr>di_addrs := (di_addrs ?d)[12 := ?F]\<rparr>"
  define I1 where "I1 = ?I[unat ?F := splice 0 (enc32 (?F + 1)) zeroes]"
  define s1 where "s1 = s\<lparr>freeblock := ?F + 1 + 1, img := I1\<rparr>"
  have Iz: "?I ! unat ?F = zeroes" using D(6) [of "unat ?F"] F1(1) by simp
  have e0: "dec32 zeroes = 0" using dec32_zeroes [of 0] by simp
  have b: "iappend_blk ?d 12 s = Ok (d', ?F + 1) s1"
    using z F(1) F1(1) D(2) Iz e0 by (simp add: iappend_blk_def NDIRECT_def rsect_in wsect_in Let_def d'_def s1_def I1_def)
  have lz: "length zeroes = 512" by (simp add: zeroes_def BSIZE_def)
  have m140: "maddr I1 d' 140 = unat ?F" using F(1) by (simp add: maddr_def d'_def)
  have mlow: "maddr I1 d' k = maddr ?I ?d k" if "k < 12" for k using that by (simp add: maddr_def d'_def)
  have mind: "maddr I1 d' k = (if k = 12 then unat ?F + 1 else 0)" if "12 \<le> k" "k < 140" for k
  proof -
    have "dec32 (drop (4 * (k - 12)) (splice (4 * 0) (enc32 (?F + 1)) zeroes)) = (if k - 12 = 0 then ?F + 1 else 0)"
      using dec32_splice [OF lz, of 0 "k - 12" "?F + 1"] dec32_zeroes [of "k - 12"] that by simp
    then show ?thesis using that F(1) F1 D(2) by (simp add: maddr_def d'_def I1_def)
  qed
  have I1b: "I1 ! b = ?I ! b" if "b \<noteq> unat ?F" for b using that by (simp add: I1_def)
  have I1z: "I1 ! b = zeroes" if "b < 1000" "unat ?F + 1 \<le> b" for b using I1b [of b] D(6) [OF that(1)] that by auto
  have l1: "length (I1 ! b) = 512" if "b < 1000" for b
    using D(3) [OF that] lz F1(1) D(2) by (cases "b = unat ?F") (auto simp: I1_def)
  have f140: "q12 < 140" if "q12 = length ?c div 512" for q12 using that q(3) by simp
  have "image_ok (I1[unat ?F + 1 := splice 0 q zeroes]) (unat ?F + 2) (dns[i := d']) (xs[i := ?c @ q])"
  proof (rule append_fresh [OF ok i r q(1,2) f140 [OF refl], of I1 "unat ?F + 1" "unat ?F + 2" d'])
    show "maddr I1 d' (length ?c div 512) = unat ?F + 1" using mind [of 12] q(3) by simp
    show "maddr I1 d' k = maddr ?I ?d k" if "k \<in> fslots (length ?c)" for k
    proof -
      have "k < 12" using that N(2) q(3) by (auto simp: fslots_def split: if_splits)
      then show ?thesis by (rule mlow)
    qed
    show "maddr I1 d' k = 0" if "k < 140" "length ?c div 512 < k" for k using mind [of k] that q(3) by simp
    show "I1 ! b = ?I ! b" if "b < unat ?F" for b using that by (intro I1b) simp
    show "maddr I1 d' 140 < unat ?F + 1 \<and> (140 \<notin> fslots (length ?c) \<longrightarrow> unat ?F \<le> maddr I1 d' 140)" using m140 by simp
  qed (use D F q(3) F1 l1 I1z in \<open>auto simp: I1_def d'_def\<close>)
  then have "appended s dns xs i q d' (s1\<lparr>img := I1[unat ?F + 1 := splice (length ?c mod 512) q (I1 ! (unat ?F + 1))]\<rparr>)"
    using F1 F2' N(1) q(3) r I1z [of "unat ?F + 1"] D(4) by (auto simp: appended_def s1_def I1_def d'_def)
  then show ?thesis using b F1 D(2) q(3) by (intro turn_okI [of dns i xs s d' "?F + 1" s1]) (simp_all add: s1_def I1_def)
qed

lemma turn_ok_all:
  assumes ok: "image_ok (img s) (unat (freeblock s)) dns xs" and i: "i < length xs"
    and q: "q \<noteq> []" "length q \<le> 512 - length (xs ! i) mod 512" "length (xs ! i) div 512 < 140"
    and room: "unat (freeblock s) + nused (length (xs ! i) + length q) \<le> 1000 + nused (length (xs ! i))"
  shows "turn_ok s dns xs i q"
proof (cases "length (xs ! i) mod 512 = 0")
  case True
  then have l: "length q \<le> 512" using q(2) by simp
  consider "length (xs ! i) div 512 < 12" | "length (xs ! i) div 512 = 12" | "12 < length (xs ! i) div 512" by linarith
  then show ?thesis
    by cases (use turn_direct [OF ok i True q(1) l _ room] turn_first_indirect [OF ok i True q(1) l _ room]
      turn_indirect [OF ok i True q(1) l _ q(3) room] in blast)+
next
  case False
  from append_room [OF ok i False q] show ?thesis
    unfolding turn_ok_def by (metis rsect_in image_okD(2) [OF ok])
qed

lemma nblk_mono: "m \<le> n \<Longrightarrow> nblk m \<le> nblk n"
  by (auto simp: nblk_def intro: div_le_mono)

lemma nused_mono: "m \<le> n \<Longrightarrow> nused m \<le> nused n"
  using nblk_mono [of m n] by (auto simp: nused_def)

lemma nblk_next: "m < n \<Longrightarrow> m div 512 + 1 \<le> nblk n"
proof -
  assume "m < n"
  then have "nblk (m + 1) \<le> nblk n" by (intro nblk_mono) simp
  moreover have "nblk (m + 1) = m div 512 + 1" using nblk_div(2) [of 1 m] by (simp add: less_eq_Suc_le)
  ultimately show ?thesis by simp
qed

lemma appended_trans:
  assumes a: "appended s dns xs i q d1 s1" and b: "appended s1 (dns[i := d1]) (xs[i := xs ! i @ q]) i p d2 s2"
    and i: "i < length xs" "length dns = length xs"
  shows "appended s dns xs i (q @ p) d2 s2"
proof -
  have d: "d2 = d1\<lparr>di_addrs := di_addrs d2\<rparr>" "d1 = (dns ! i)\<lparr>di_addrs := di_addrs d1\<rparr>"
    using a b i by (auto simp: appended_def)
  have "d2 = (dns ! i)\<lparr>di_addrs := di_addrs d2\<rparr>" by (subst d(1), subst d(2)) simp
  then show ?thesis using a b i by (simp add: appended_def add.assoc)
qed

lemma iappend_loop_ok:
  assumes "image_ok (img s) (unat (freeblock s)) dns xs" "i < length xs" "nblk (length (xs ! i) + length p) \<le> 140"
    "unat (freeblock s) + nused (length (xs ! i) + length p) \<le> 1000 + nused (length (xs ! i))"
  shows "\<exists>d' t. iappend_loop (dns ! i) (length (xs ! i)) p s = Ok (d', length (xs ! i) + length p) t \<and> appended s dns xs i p d' t"
  using assms
proof (induction "length p" arbitrary: p s dns xs rule: less_induct)
  case less
  let ?c = "xs ! i"
  note D = image_okD [OF less.prems(1)]
  show ?case
  proof (cases "p = []")
    case True
    then have "appended s dns xs i p (dns ! i) s" using less.prems(1,2) D(1) by (simp add: appended_def)
    moreover have "iappend_loop (dns ! i) (length ?c) p s = Ok (dns ! i, length ?c + length p) s"
      using True by (subst iappend_loop.simps) simp
    ultimately show ?thesis by blast
  next
    case False
    define m where "m = min (length p) ((length ?c div 512 + 1) * 512 - length ?c)"
    define q where "q = take m p"
    have room: "(length ?c div 512 + 1) * 512 - length ?c = 512 - length ?c mod 512"
      by (simp add: algebra_simps minus_div_mult_eq_mod [symmetric])
    have m512: "length ?c mod 512 < 512" by simp
    have mq: "0 < m" "m \<le> length p" "length q = m" "length q \<le> 512 - length ?c mod 512" "q \<noteq> []"
      using False m512 unfolding m_def q_def room by auto
    have f: "length ?c div 512 < 140" using nblk_next [of "length ?c" "length ?c + length p"] less.prems(3) False by auto
    have r1: "unat (freeblock s) + nused (length ?c + length q) \<le> 1000 + nused (length ?c)"
      using nused_mono [of "length ?c + length q" "length ?c + length p"] mq less.prems(4) by simp
    from turn_ok_all [OF less.prems(1,2) mq(5,4) f r1]
    obtain d1 x s1 buf s2 where turn: "iappend_blk (dns ! i) (length ?c div 512) s = Ok (d1, x) s1" "rsect x s1 = Ok buf s1"
      "wsect x (splice (length ?c mod 512) q buf) s1 = Ok () s2" "appended s dns xs i q d1 s2"
      unfolding turn_ok_def by blast
    let ?dns = "dns[i := d1]" and ?xs = "xs[i := ?c @ q]"
    have ix: "?xs ! i = ?c @ q" "?dns ! i = d1" using less.prems(2) D(1) by auto
    have a: "image_ok (img s2) (unat (freeblock s2)) ?dns ?xs"
      "unat (freeblock s2) + nused (length ?c) = unat (freeblock s) + nused (length ?c + length q)"
      using turn(4) by (auto simp: appended_def)
    have l: "length (?xs ! i) + length (drop m p) = length ?c + length p" unfolding ix(1) using mq by simp
    have "\<exists>d' t. iappend_loop (?dns ! i) (length (?xs ! i)) (drop m p) s2 =
        Ok (d', length (?xs ! i) + length (drop m p)) t \<and> appended s2 ?dns ?xs i (drop m p) d' t"
    proof (rule less.hyps [OF _ a(1)])
      show "length (drop m p) < length p" using mq by simp
      show "i < length ?xs" using less.prems(2) by simp
      show "nblk (length (?xs ! i) + length (drop m p)) \<le> 140" unfolding l by (rule less.prems(3))
      show "unat (freeblock s2) + nused (length (?xs ! i) + length (drop m p)) \<le> 1000 + nused (length (?xs ! i))"
        unfolding l using less.prems(4) ix(1) a(2) by simp
    qed
    then obtain d' t where t: "iappend_loop d1 (length ?c + length q) (drop m p) s2 = Ok (d', length ?c + length p) t"
      "appended s2 ?dns ?xs i (drop m p) d' t" unfolding l unfolding ix by auto
    have "appended s dns xs i p d' t" using appended_trans [OF turn(4) t(2) less.prems(2) D(1)] by (simp add: q_def)
    moreover have "iappend_loop (dns ! i) (length ?c) p s = Ok (d', length ?c + length p) t"
    proof -
      have o: "length ?c - length ?c div 512 * 512 = length ?c mod 512" by (simp add: minus_div_mult_eq_mod)
      have e: "min (length p) (512 + length ?c div 512 * 512 - length ?c) = m" by (simp add: m_def add.commute)
      show ?thesis
        using False f turn(1-3) t(1) mq(3)
        by (subst iappend_loop.simps)
          (simp add: BSIZE_def MAXFILE_def NDIRECT_def NINDIRECT_def Let_def o e q_def [symmetric])
    qed
    ultimately show ?thesis by blast
  qed
qed

section \<open>Whole files\<close>

text \<open>The inode table holds the inodes of the files; inode \<open>0\<close> is not used. Block 1 is the superblock.\<close>

definition blocks_need :: "uchar list list \<Rightarrow> nat" where
  "blocks_need xs = 59 + (\<Sum>c\<leftarrow>xs. nused (length c))"

definition fs_img :: "mkstate \<Rightarrow> dinode list \<Rightarrow> uchar list list \<Rightarrow> bool" where
  "fs_img s dns xs \<longleftrightarrow> image_ok (img s) (unat (freeblock s)) dns xs \<and> length xs < 200 \<and> freeinode s = of_nat (Suc (length xs)) \<and>
     unat (freeblock s) = blocks_need xs \<and>
     (\<forall>i < length xs. get_dinode (of_nat (Suc i)) (img s ! (32 + Suc i div 8)) = dns ! i \<and>
        di_size (dns ! i) = of_nat (length (xs ! i))) \<and>
     img s ! 1 = splice 0 (enc_superblock mksb) zeroes"

lemma fs_imgD:
  assumes "fs_img s dns xs"
  shows "image_ok (img s) (unat (freeblock s)) dns xs" "length xs < 200" "freeinode s = of_nat (Suc (length xs))"
    "\<And>i. i < length xs \<Longrightarrow> get_dinode (of_nat (Suc i)) (img s ! (32 + Suc i div 8)) = dns ! i"
    "\<And>i. i < length xs \<Longrightarrow> di_size (dns ! i) = of_nat (length (xs ! i))"
    "unat (freeblock s) = blocks_need xs" "img s ! 1 = splice 0 (enc_superblock mksb) zeroes"
  using assms by (auto simp: fs_img_def)

lemma IBLOCK_mksb: "n < 208 \<Longrightarrow> unat (IBLOCK (of_nat n) mksb) = 32 + n div 8"
proof -
  assume n: "n < 208"
  then have "unat (of_nat n div of_nat IPB :: uint) = n div 8" by (simp add: unat_div unat_of_nat32 IPB_def)
  moreover have "n div 8 < 26" using n by simp
  ultimately show ?thesis by (simp add: IBLOCK_def mksb_def nlog_def LOGSIZE_def unat_add_lt)
qed

text \<open>Replacing an inode changes no other.\<close>

lemma put_inode_table:
  assumes t: "\<forall>i < n. get_dinode (of_nat (Suc i)) (I ! (32 + Suc i div 8)) = dns ! i" and n: "n < 200" "j < 200" "length dns = n"
    and I: "length I = 1000" "\<And>b. b < 1000 \<Longrightarrow> length (I ! b) = 512" and d: "length (di_addrs d) = 13"
  defines "I' \<equiv> I[32 + Suc j div 8 := put_dinode (of_nat (Suc j)) d (I ! (32 + Suc j div 8))]"
  shows "get_dinode (of_nat (Suc j)) (I' ! (32 + Suc j div 8)) = d"
    "\<forall>i < n. i \<noteq> j \<longrightarrow> get_dinode (of_nat (Suc i)) (I' ! (32 + Suc i div 8)) = dns ! i"
    "\<And>b. b < 1000 \<Longrightarrow> length (I' ! b) = 512" "length I' = 1000"
proof -
  have j: "32 + Suc j div 8 < 1000" using n(2) by simp
  have lB: "length (I ! (32 + Suc j div 8)) = BSIZE" using I(2) [OF j] by (simp add: BSIZE_def)
  show "get_dinode (of_nat (Suc j)) (I' ! (32 + Suc j div 8)) = d"
    unfolding I'_def using get_put_dinode [OF d lB] j I(1) by (simp del: of_nat_Suc)
  show "length (I' ! b) = 512" if "b < 1000" for b
    using I(2) [OF that] length_put_dinode [OF d lB] j I(1) unfolding I'_def
    by (cases "b = 32 + Suc j div 8") (simp_all add: BSIZE_def del: of_nat_Suc)
  show "length I' = 1000" using I(1) by (simp add: I'_def)
  show "\<forall>i < n. i \<noteq> j \<longrightarrow> get_dinode (of_nat (Suc i)) (I' ! (32 + Suc i div 8)) = dns ! i"
  proof (intro allI impI)
    fix i assume i: "i < n" "i \<noteq> j"
    show "get_dinode (of_nat (Suc i)) (I' ! (32 + Suc i div 8)) = dns ! i"
    proof (cases "Suc i div 8 = Suc j div 8")
      case True
      then have "Suc i mod 8 \<noteq> Suc j mod 8" using i(2) by (metis Suc_inject mult_div_mod_eq)
      moreover have "unat (of_nat (Suc i) :: uint) = Suc i" "unat (of_nat (Suc j) :: uint) = Suc j"
        using i(1) n by (simp_all add: unat_of_nat32 del: of_nat_Suc)
      ultimately have "get_dinode (of_nat (Suc i)) (put_dinode (of_nat (Suc j)) d (I ! (32 + Suc j div 8))) =
          get_dinode (of_nat (Suc i)) (I ! (32 + Suc j div 8))"
        by (intro get_put_dinode_other [OF d lB]) (simp add: IPB_def)
      moreover have "get_dinode (of_nat (Suc i)) (I ! (32 + Suc i div 8)) = dns ! i" using t i(1) by blast
      ultimately show ?thesis using True j I(1) by (simp add: I'_def del: of_nat_Suc)
    next
      case False
      then show ?thesis using t i(1) by (simp add: I'_def del: of_nat_Suc)
    qed
  qed
qed

text \<open>The inode table is below the data, so that the files do not notice.\<close>

lemma image_ok_low:
  assumes ok: "image_ok I fb dns xs" and I': "length I' = 1000" "\<And>b. b < 1000 \<Longrightarrow> length (I' ! b) = 512" "\<And>b. 59 \<le> b \<Longrightarrow> I' ! b = I ! b"
  shows "image_ok I' fb dns xs"
proof -
  note D = image_okD [OF ok]
  have s: "I' ! maddr I (dns ! i) k = I ! maddr I (dns ! i) k" if "i < length xs" "k \<in> fslots (length (xs ! i))" for i k
    using D(8) [OF that] by (intro I'(3)) simp
  have f: "fok I' (dns ! i) (xs ! i)" if "i < length xs" for i by (rule fok_same(1) [OF D(9) [OF that]]) (rule s [OF that])
  have m: "maddr I' (dns ! i) k = maddr I (dns ! i) k" if "i < length xs" "k \<in> fslots (length (xs ! i))" for i k
    by (rule fok_same(2) [OF D(9) [OF that(1)] _ that(2)]) (rule s [OF that(1)])
  have "inj_on (\<lambda>(i, k). maddr I' (dns ! i) k) (slots xs)"
  proof (rule inj_onI)
    fix p r assume pr: "p \<in> slots xs" "r \<in> slots xs" "(\<lambda>(i, k). maddr I' (dns ! i) k) p = (\<lambda>(i, k). maddr I' (dns ! i) k) r"
    obtain i k j l where e: "p = (i, k)" "r = (j, l)" by (cases p, cases r)
    show "p = r" using pr m D(7) [of i k j l] unfolding e slots_def by auto
  qed
  moreover have "59 \<le> maddr I' (dns ! i) k \<and> maddr I' (dns ! i) k < fb" if "(i, k) \<in> slots xs" for i k
    using D(8) [of i k] m [of i k] that by (auto simp: slots_def)
  ultimately show ?thesis using D(1-6) I' f unfolding image_ok_def by auto
qed

lemma maddr_addrs: "di_addrs d' = di_addrs d \<Longrightarrow> maddr I d' k = maddr I d k"
  unfolding maddr_def by (simp only:)

lemma fok_addrs: "di_addrs d' = di_addrs d \<Longrightarrow> fok I d' c = fok I d c"
  unfolding fok_def maddr_addrs [of d' d] by (simp only: maddr_addrs [of d' d])

lemma image_ok_addrs:
  assumes ok: "image_ok I fb dns xs" and "length dns' = length dns" "\<And>i. i < length dns \<Longrightarrow> di_addrs (dns' ! i) = di_addrs (dns ! i)"
  shows "image_ok I fb dns' xs"
proof -
  note D = image_okD [OF ok]
  have m: "maddr I (dns' ! i) k = maddr I (dns ! i) k" if "i < length xs" for i k
    using assms(3) [of i] that D(1) by (intro maddr_addrs) simp
  have "inj_on (\<lambda>(i, k). maddr I (dns' ! i) k) (slots xs) = inj_on (\<lambda>(i, k). maddr I (dns ! i) k) (slots xs)"
    by (rule inj_on_cong) (auto simp: slots_def m)
  moreover have "fok I (dns' ! i) (xs ! i)" if "i < length xs" for i
  proof -
    have "di_addrs (dns' ! i) = di_addrs (dns ! i)" using assms(3) [of i] that D(1) by simp
    from fok_addrs [OF this] D(9) [OF that] show ?thesis by simp
  qed
  moreover have "59 \<le> maddr I (dns' ! i) k \<and> maddr I (dns' ! i) k < fb" if "(i, k) \<in> slots xs" for i k
    using D(8) [of i k] m [of i k] that by (auto simp: slots_def)
  ultimately show ?thesis using ok assms(2) unfolding image_ok_def by auto
qed

lemma image_ok_new:
  assumes ok: "image_ok I fb dns xs" and d: "di_addrs d = replicate 13 0"
  shows "image_ok I fb (dns @ [d]) (xs @ [[]])"
proof -
  note D = image_okD [OF ok]
  have e: "fslots 0 = {}" "nblk 0 = 0" by (auto simp: fslots_def nblk_def)
  have s: "slots (xs @ [[]]) = slots xs" unfolding slots_def using e
    by (auto simp: nth_append less_Suc_eq split: if_splits)
  have m: "maddr I ((dns @ [d]) ! i) k = maddr I (dns ! i) k" if "(i, k) \<in> slots xs" for i k
    using that D(1) by (auto simp: slots_def nth_append)
  have "inj_on (\<lambda>(i, k). maddr I ((dns @ [d]) ! i) k) (slots xs) = inj_on (\<lambda>(i, k). maddr I (dns ! i) k) (slots xs)"
    by (rule inj_on_cong) (auto simp: m)
  moreover have "fok I ((dns @ [d]) ! i) ((xs @ [[]]) ! i)" if "i < Suc (length xs)" for i
  proof (cases "i < length xs")
    case True
    then show ?thesis using D(1,9) by (simp add: nth_append)
  next
    case False
    then have "i = length xs" using that by simp
    then show ?thesis using d e D(1) by (simp add: fok_def nth_append)
  qed
  moreover have "59 \<le> maddr I ((dns @ [d]) ! i) k \<and> maddr I ((dns @ [d]) ! i) k < fb" if "(i, k) \<in> slots xs" for i k
    using D(8) [of i k] m [OF that] that by (auto simp: slots_def)
  ultimately show ?thesis using ok unfolding image_ok_def s by auto
qed

lemma winode_img:
  assumes "length (img s) = 1000" "j < 200"
  shows "winode (of_nat (Suc j)) d s =
    Ok () (s\<lparr>img := (img s)[32 + Suc j div 8 := put_dinode (of_nat (Suc j)) d (img s ! (32 + Suc j div 8))]\<rparr>)"
proof -
  have "unat (IBLOCK (of_nat (Suc j)) mksb) = 32 + Suc j div 8" using assms(2) by (intro IBLOCK_mksb) simp
  moreover have "32 + Suc j div 8 < 1000" using assms(2) by simp
  ultimately show ?thesis using assms(1) by (simp add: winode_def rsect_in wsect_in Let_def del: of_nat_Suc)
qed

lemma rinode_img:
  assumes "fs_img s dns xs" "i < length xs"
  shows "rinode (of_nat (Suc i)) s = Ok (dns ! i) s"
proof -
  note G = fs_imgD [OF assms(1)]
  have "unat (IBLOCK (of_nat (Suc i)) mksb) = 32 + Suc i div 8" using assms(2) G(2) by (intro IBLOCK_mksb) simp
  moreover have "32 + Suc i div 8 < 1000" using assms(2) G(2) by simp
  ultimately show ?thesis using image_okD(2) [OF G(1)] G(4) [OF assms(2)] by (simp add: rinode_def rsect_in del: of_nat_Suc)
qed

lemma blocks_need_update:
  "i < length xs \<Longrightarrow> blocks_need (xs[i := c]) + nused (length (xs ! i)) = blocks_need xs + nused (length c)"
proof (induction xs arbitrary: i)
  case (Cons x xs)
  then show ?case by (cases i) (auto simp: blocks_need_def)
qed simp

lemma blocks_need_append [simp]: "blocks_need (xs @ [c]) = blocks_need xs + nused (length c)"
  by (simp add: blocks_need_def)

text \<open>\<open>iappend\<close> appends.\<close>

lemma iappend_ok:
  assumes h: "fs_img s dns xs" and i: "i < length xs" and p: "nblk (length (xs ! i) + length p) \<le> 140"
    "blocks_need (xs[i := xs ! i @ p]) \<le> 1000"
  shows "\<exists>d' t. iappend (of_nat (Suc i)) p s = Ok () t \<and> fs_img t (dns[i := d']) (xs[i := xs ! i @ p]) \<and>
    di_type d' = di_type (dns ! i) \<and> di_nlink d' = di_nlink (dns ! i)"
proof -
  note G = fs_imgD [OF h]
  note D = image_okD [OF G(1)]
  let ?c = "xs ! i"
  have room: "unat (freeblock s) + nused (length ?c + length p) \<le> 1000 + nused (length ?c)"
    using blocks_need_update [OF i, of "?c @ p"] p(2) G(6) by simp
  have small: "length ?c + length p \<le> 71680"
    using p(1) by (auto simp: nblk_def div_le_mono)
  have sz: "unat (di_size (dns ! i)) = length ?c" using G(5) [OF i] small by (simp add: unat_of_nat32)
  obtain d1 t1 where t1: "iappend_loop (dns ! i) (length ?c) p s = Ok (d1, length ?c + length p) t1" "appended s dns xs i p d1 t1"
    using iappend_loop_ok [OF G(1) i p(1) room] by blast
  have A: "image_ok (img t1) (unat (freeblock t1)) (dns[i := d1]) (xs[i := ?c @ p])"
    "unat (freeblock t1) + nused (length ?c) = unat (freeblock s) + nused (length ?c + length p)"
    "freeinode t1 = freeinode s" "\<forall>b < 59. img t1 ! b = img s ! b" "d1 = (dns ! i)\<lparr>di_addrs := di_addrs d1\<rparr>"
    using t1(2) by (auto simp: appended_def)
  note D1 = image_okD [OF A(1)]
  define d2 where "d2 = d1\<lparr>di_size := of_nat (length ?c + length p)\<rparr>"
  have l13: "length (di_addrs d2) = 13" using D1(9) [of i] i D(1) by (simp add: d2_def fok_def)
  have tab1: "\<forall>k < length xs. get_dinode (of_nat (Suc k)) (img t1 ! (32 + Suc k div 8)) = dns ! k"
  proof (intro allI impI)
    fix k assume k: "k < length xs"
    then have "32 + Suc k div 8 < 59" using G(2) by simp
    then show "get_dinode (of_nat (Suc k)) (img t1 ! (32 + Suc k div 8)) = dns ! k" using A(4) G(4) [OF k] by simp
  qed
  have i200: "i < 200" using i G(2) by simp
  note P = put_inode_table [OF tab1 G(2) i200 D(1) D1(2,3) l13]
  let ?I = "(img t1)[32 + Suc i div 8 := put_dinode (of_nat (Suc i)) d2 (img t1 ! (32 + Suc i div 8))]"
  have low: "32 + Suc i div 8 < 59" using i200 by simp
  have run: "iappend (of_nat (Suc i)) p s = Ok () (t1\<lparr>img := ?I\<rparr>)"
    using rinode_img [OF h i] t1(1) sz winode_img [OF D1(2) i200, of d2] by (simp add: iappend_def d2_def del: of_nat_Suc)
  have "image_ok ?I (unat (freeblock t1)) (dns[i := d1]) (xs[i := ?c @ p])"
    by (rule image_ok_low [OF A(1) P(4) P(3)]) (use low in \<open>auto simp del: of_nat_Suc\<close>)
  then have "image_ok ?I (unat (freeblock t1)) (dns[i := d2]) (xs[i := ?c @ p])"
    by (rule image_ok_addrs) (use i D(1) in \<open>auto simp: nth_list_update d2_def\<close>)
  moreover have "get_dinode (of_nat (Suc k)) (?I ! (32 + Suc k div 8)) = dns[i := d2] ! k \<and>
      di_size (dns[i := d2] ! k) = of_nat (length (xs[i := ?c @ p] ! k))" if k: "k < length xs" for k
  proof (cases "k = i")
    case True
    then show ?thesis using P(1) i D(1) by (simp add: d2_def del: of_nat_Suc)
  next
    case False
    then show ?thesis using P(2) k G(5) [OF k] by (simp del: of_nat_Suc)
  qed
  moreover have "unat (freeblock t1) = blocks_need (xs[i := ?c @ p])"
    using blocks_need_update [OF i, of "?c @ p"] A(2) G(6) by simp
  moreover have "?I ! 1 = img s ! 1"
  proof -
    have "32 + Suc i div 8 \<noteq> 1" by simp
    then show ?thesis using A(4) by (simp del: of_nat_Suc)
  qed
  ultimately have "fs_img (t1\<lparr>img := ?I\<rparr>) (dns[i := d2]) (xs[i := ?c @ p])"
    using G(2,3,7) A(3) unfolding fs_img_def by (simp del: of_nat_Suc)
  moreover have "di_type d2 = di_type (dns ! i)" "di_nlink d2 = di_nlink (dns ! i)"
    by (simp_all add: d2_def) (subst A(5); simp)+
  ultimately show ?thesis using run by blast
qed

text \<open>The root directory is a directory, the others are files, and each has one link.\<close>

definition kinds :: "dinode list \<Rightarrow> bool" where
  "kinds dns \<longleftrightarrow> (\<forall>i < length dns. di_type (dns ! i) = (if i = 0 then T_DIR else T_FILE) \<and> di_nlink (dns ! i) = 1)"

lemma kinds_update: "kinds dns \<Longrightarrow> di_type d = di_type (dns ! i) \<Longrightarrow> di_nlink d = di_nlink (dns ! i) \<Longrightarrow> kinds (dns[i := d])"
  by (cases "i < length dns") (auto simp: kinds_def nth_list_update)

lemma mk_ialloc_ok:
  assumes h: "fs_img s dns xs" and n: "length xs < 199"
  shows "\<exists>t d. mk_ialloc ty s = Ok (of_nat (Suc (length xs))) t \<and> fs_img t (dns @ [d]) (xs @ [[]]) \<and> di_type d = ty \<and> di_nlink d = 1"
proof -
  note G = fs_imgD [OF h]
  note D = image_okD [OF G(1)]
  let ?n = "length xs"
  define d where "d = \<lparr>di_type = ty, di_major = 0, di_minor = 0, di_nlink = 1, di_size = 0, di_addrs = replicate 13 0\<rparr>"
  have l13: "length (di_addrs d) = 13" and a0: "di_addrs d = replicate 13 0" by (simp_all add: d_def)
  have n200: "?n < 200" using n by simp
  have tab: "\<forall>k < ?n. get_dinode (of_nat (Suc k)) (img s ! (32 + Suc k div 8)) = dns ! k" using G(4) by blast
  note P = put_inode_table [OF tab G(2) n200 D(1) D(2,3) l13]
  let ?I = "(img s)[32 + Suc ?n div 8 := put_dinode (of_nat (Suc ?n)) d (img s ! (32 + Suc ?n div 8))]"
  let ?t = "s\<lparr>freeinode := freeinode s + 1, img := ?I\<rparr>"
  have run: "mk_ialloc ty s = Ok (of_nat (Suc ?n)) ?t"
    using winode_img [of "s\<lparr>freeinode := freeinode s + 1\<rparr>" ?n d] D(2) n200 G(3)
    by (simp add: mk_ialloc_def d_def [symmetric] Let_def del: of_nat_Suc)
  have low: "32 + Suc ?n div 8 < 59" using n by simp
  have "image_ok ?I (unat (freeblock s)) dns xs"
    by (rule image_ok_low [OF G(1) P(4) P(3)]) (use low in \<open>auto simp del: of_nat_Suc\<close>)
  then have "image_ok ?I (unat (freeblock s)) (dns @ [d]) (xs @ [[]])" using a0 by (rule image_ok_new)
  moreover have "get_dinode (of_nat (Suc k)) (?I ! (32 + Suc k div 8)) = (dns @ [d]) ! k \<and>
      di_size ((dns @ [d]) ! k) = of_nat (length ((xs @ [[]]) ! k))" if k: "k < Suc ?n" for k
  proof (cases "k = ?n")
    case True
    then show ?thesis using P(1) D(1) by (simp add: nth_append d_def del: of_nat_Suc)
  next
    case False
    then have k': "k < ?n" using k by simp
    then have "get_dinode (of_nat (Suc k)) (?I ! (32 + Suc k div 8)) = dns ! k" using P(2) False by blast
    then show ?thesis using k' G(5) [OF k'] D(1) by (simp add: nth_append del: of_nat_Suc)
  qed
  moreover have "?I ! 1 = img s ! 1"
  proof -
    have "32 + Suc ?n div 8 \<noteq> 1" by simp
    then show ?thesis by (simp del: of_nat_Suc)
  qed
  moreover have "nused 0 = 0" by (simp add: nused_def nblk_def)
  moreover have "freeinode ?t = of_nat (Suc (length (xs @ [[]])))" using G(3) by simp
  ultimately have "fs_img ?t (dns @ [d]) (xs @ [[]])" using n G(6,7) unfolding fs_img_def by (simp del: of_nat_Suc)
  then show ?thesis using run by (intro exI [of _ ?t] exI [of _ d]) (simp add: d_def)
qed

lemma blocks_need_mono:
  assumes "i < length xs" "length c \<le> length c'"
  shows "blocks_need (xs[i := c]) \<le> blocks_need (xs[i := c'])"
  using blocks_need_update [OF assms(1), of c] blocks_need_update [OF assms(1), of c'] nused_mono [OF assms(2)] by simp

lemma iappends_ok:
  assumes "fs_img s dns xs" "i < length xs" "nblk (length (xs ! i) + length (concat qs)) \<le> 140"
    "blocks_need (xs[i := xs ! i @ concat qs]) \<le> 1000"
  shows "\<exists>d' t. forR qs (\<lambda>c s. iappend (of_nat (Suc i)) c s) s = Ok () t \<and> fs_img t (dns[i := d']) (xs[i := xs ! i @ concat qs]) \<and>
    di_type d' = di_type (dns ! i) \<and> di_nlink d' = di_nlink (dns ! i)"
  using assms
proof (induction qs arbitrary: s dns xs)
  case Nil
  then have "length dns = length xs" using image_okD(1) [OF fs_imgD(1)] by blast
  then show ?case using Nil by (intro exI [of _ "dns ! i"] exI [of _ s]) simp
next
  case (Cons q qs)
  let ?c = "xs ! i"
  have l: "length dns = length xs" using image_okD(1) [OF fs_imgD(1) [OF Cons.prems(1)]] .
  have "nblk (length ?c + length q) \<le> nblk (length ?c + length (concat (q # qs)))" by (rule nblk_mono) simp
  then have n: "nblk (length ?c + length q) \<le> 140" using Cons.prems(3) by linarith
  have "blocks_need (xs[i := ?c @ q]) \<le> blocks_need (xs[i := ?c @ concat (q # qs)])"
    by (rule blocks_need_mono [OF Cons.prems(2)]) simp
  then have b: "blocks_need (xs[i := ?c @ q]) \<le> 1000" using Cons.prems(4) by linarith
  obtain d1 t1 where t1: "iappend (of_nat (Suc i)) q s = Ok () t1" "fs_img t1 (dns[i := d1]) (xs[i := ?c @ q])"
    "di_type d1 = di_type (dns ! i)" "di_nlink d1 = di_nlink (dns ! i)"
    using iappend_ok [OF Cons.prems(1,2) n b] by blast
  let ?xs = "xs[i := ?c @ q]"
  have x: "?xs ! i = ?c @ q" "i < length ?xs" "dns[i := d1] ! i = d1" using Cons.prems(2) l by auto
  obtain d' t where t: "forR qs (\<lambda>c s. iappend (of_nat (Suc i)) c s) t1 = Ok () t"
    "fs_img t (dns[i := d1, i := d']) (?xs[i := ?xs ! i @ concat qs])"
    "di_type d' = di_type (dns[i := d1] ! i)" "di_nlink d' = di_nlink (dns[i := d1] ! i)"
    using Cons.IH [OF t1(2) x(2)] Cons.prems(3,4) x(1) by (auto simp: add.assoc)
  show ?case using t1 t x by (intro exI [of _ d'] exI [of _ t]) (simp add: x(1) del: of_nat_Suc)
qed

definition mkname :: "uchar list \<Rightarrow> uchar list" where
  "mkname n = (if n \<noteq> [] \<and> hd n = 95 then tl n else n)"

definition content :: "uchar list \<times> uchar list list \<Rightarrow> uchar list" where
  "content f = concat (takeWhile (\<lambda>c. c \<noteq> []) (snd f))"

fun entries :: "nat \<Rightarrow> (uchar list \<times> uchar list list) list \<Rightarrow> uchar list" where
  "entries n [] = []"
| "entries n (f # fs) = mk_dirent (of_nat n) (mkname (fst f)) @ entries (Suc n) fs"

lemma length_mk_dirent [simp]: "length (mk_dirent n nm) = 16"
  by (simp add: mk_dirent_def DIRSIZ_def)

lemma length_entries [simp]: "length (entries n fs) = 16 * length fs"
  by (induction fs arbitrary: n) auto

lemma mk_file_ok:
  assumes h: "fs_img s dns (root # xs)" "kinds dns" and n: "length xs < 198" and nm: "SLASH \<notin> set (fst f)"
    and sz: "nblk (length root + 16) \<le> 140" "nblk (length (content f)) \<le> 140"
    and room: "blocks_need ((root @ mk_dirent (of_nat (length xs + 2)) (mkname (fst f))) # xs @ [content f]) \<le> 1000"
  shows "\<exists>t dns'. mk_file ROOTINO f s = Ok () t \<and>
    fs_img t dns' ((root @ mk_dirent (of_nat (length xs + 2)) (mkname (fst f))) # xs @ [content f]) \<and> kinds dns'"
proof -
  let ?n = "length xs + 1" and ?e = "mk_dirent (of_nat (length xs + 2)) (mkname (fst f))"
  have l0: "length dns = ?n" using image_okD(1) [OF fs_imgD(1) [OF h(1)]] by simp
  obtain t1 d where t1: "mk_ialloc T_FILE s = Ok (of_nat (Suc ?n)) t1" "fs_img t1 (dns @ [d]) ((root # xs) @ [[]])"
    "di_type d = T_FILE" "di_nlink d = 1"
    using mk_ialloc_ok [OF h(1), of T_FILE] n by auto
  have k1: "kinds (dns @ [d])" using h(2) t1(3,4) l0 by (auto simp: kinds_def nth_append)
  have b1: "blocks_need ((root @ ?e) # xs @ [[]]) \<le> 1000"
    using room nused_mono [of 0 "length (content f)"] by (simp add: blocks_need_def)
  have "\<exists>d' t. iappend (of_nat (Suc 0)) ?e t1 = Ok () t \<and>
      fs_img t ((dns @ [d])[0 := d']) (((root # xs) @ [[]])[0 := ((root # xs) @ [[]]) ! 0 @ ?e]) \<and>
      di_type d' = di_type ((dns @ [d]) ! 0) \<and> di_nlink d' = di_nlink ((dns @ [d]) ! 0)"
    by (rule iappend_ok [OF t1(2)]) (use sz(1) b1 in auto)
  then obtain d2 t2 where t2: "iappend (of_nat (Suc 0)) ?e t1 = Ok () t2"
    "fs_img t2 ((dns @ [d])[0 := d2]) ((root @ ?e) # xs @ [[]])"
    "di_type d2 = di_type ((dns @ [d]) ! 0)" "di_nlink d2 = di_nlink ((dns @ [d]) ! 0)" by auto
  note k2 = kinds_update [OF k1 t2(3,4)]
  let ?xs = "(root @ ?e) # xs @ [[]]" and ?dns = "(dns @ [d])[0 := d2]" and ?qs = "takeWhile (\<lambda>c. c \<noteq> []) (snd f)"
  have x: "?xs ! ?n = []" "?xs[?n := content f] = (root @ ?e) # xs @ [content f]" by (simp_all add: list_update_append nth_append)
  have "\<exists>d' t. forR ?qs (\<lambda>c s. iappend (of_nat (Suc ?n)) c s) t2 = Ok () t \<and> fs_img t (?dns[?n := d']) (?xs[?n := ?xs ! ?n @ concat ?qs]) \<and>
    di_type d' = di_type (?dns ! ?n) \<and> di_nlink d' = di_nlink (?dns ! ?n)"
  proof (rule iappends_ok [OF t2(2)])
    show "?n < length ?xs" by simp
    show "nblk (length (?xs ! ?n) + length (concat ?qs)) \<le> 140" unfolding x(1) using sz(2) by (simp add: content_def)
    show "blocks_need (?xs[?n := ?xs ! ?n @ concat ?qs]) \<le> 1000" unfolding x(1) append_Nil content_def [symmetric] x(2) by (rule room)
  qed
  then obtain d3 t3 where t3: "forR ?qs (\<lambda>c s. iappend (of_nat (Suc ?n)) c s) t2 = Ok () t3"
    "fs_img t3 (?dns[?n := d3]) ((root @ ?e) # xs @ [content f])" "di_type d3 = di_type (?dns ! ?n)" "di_nlink d3 = di_nlink (?dns ! ?n)"
    unfolding x(1) append_Nil content_def [symmetric] x(2) by blast
  have r1: "ROOTINO = of_nat (Suc 0)" by (simp add: ROOTINO_def)
  have s2: "(of_nat (Suc ?n) :: uint) = of_nat (length xs + 2)" by simp
  have "mk_file ROOTINO f s = Ok () t3"
    using nm t1(1) t2(1) t3(1) unfolding mk_file_def Let_def mkname_def [symmetric] r1 s2
    by (simp del: of_nat_Suc of_nat_add)
  then show ?thesis using t3(2) kinds_update [OF k2 t3(3,4)] by blast
qed

section \<open>The whole image\<close>

lemma blocks_need_prefix:
  assumes "length a \<le> length b" "length xs \<le> length ys" "\<And>i. i < length xs \<Longrightarrow> length (xs ! i) \<le> length (ys ! i)"
  shows "blocks_need (a # xs) \<le> blocks_need (b # ys)"
proof -
  have "(\<Sum>c\<leftarrow>xs. nused (length c)) \<le> (\<Sum>c\<leftarrow>take (length xs) ys. nused (length c))"
    using assms(2,3) by (intro sum_list_mono2) (auto intro: nused_mono)
  also have "\<dots> \<le> (\<Sum>c\<leftarrow>take (length xs) ys. nused (length c)) + (\<Sum>c\<leftarrow>drop (length xs) ys. nused (length c))" by simp
  also have "\<dots> = (\<Sum>c\<leftarrow>ys. nused (length c))" by (simp flip: sum_list.append map_append)
  finally show ?thesis using nused_mono [OF assms(1)] by (simp add: blocks_need_def)
qed

lemma mk_files_ok:
  assumes "fs_img s dns (root # xs)" "kinds dns" "length xs + length fs \<le> 198" "\<forall>f \<in> set fs. SLASH \<notin> set (fst f)"
    "nblk (length root + 16 * length fs) \<le> 140" "\<forall>f \<in> set fs. nblk (length (content f)) \<le> 140"
    "blocks_need ((root @ entries (length xs + 2) fs) # xs @ map content fs) \<le> 1000"
  shows "\<exists>t dns'. forR fs (mk_file ROOTINO) s = Ok () t \<and>
    fs_img t dns' ((root @ entries (length xs + 2) fs) # xs @ map content fs) \<and> kinds dns'"
  using assms
proof (induction fs arbitrary: s dns root xs)
  case Nil
  then show ?case by auto
next
  case (Cons f fs)
  let ?e = "mk_dirent (of_nat (length xs + 2)) (mkname (fst f))"
  have b: "blocks_need ((root @ ?e) # xs @ [content f]) \<le> blocks_need ((root @ entries (length xs + 2) (f # fs)) # xs @ map content (f # fs))"
    by (rule blocks_need_prefix) (auto simp: nth_append)
  have n: "nblk (length root + 16) \<le> nblk (length root + 16 * length (f # fs))" by (rule nblk_mono) simp
  obtain t1 dns1 where t1: "mk_file ROOTINO f s = Ok () t1" "fs_img t1 dns1 ((root @ ?e) # xs @ [content f])" "kinds dns1"
    using mk_file_ok [OF Cons.prems(1,2), of f] Cons.prems(3-7) b n by auto
  have "\<exists>t dns'. forR fs (mk_file ROOTINO) t1 = Ok () t \<and>
    fs_img t dns' (((root @ ?e) @ entries (length (xs @ [content f]) + 2) fs) # (xs @ [content f]) @ map content fs) \<and> kinds dns'"
    by (rule Cons.IH [OF t1(2,3)]) (use Cons.prems(3-7) in \<open>auto simp: add.assoc\<close>)
  then show ?case using t1(1) by simp
qed

text \<open>What \<open>mkfs\<close> is given, and the root directory it makes.\<close>

definition files_fit :: "(uchar list \<times> uchar list list) list \<Rightarrow> bool" where
  "files_fit fs \<longleftrightarrow> length fs \<le> 198 \<and> (\<forall>f \<in> set fs. SLASH \<notin> set (fst f) \<and> nblk (length (content f)) \<le> 140) \<and>
     59 + nused (16 * (length fs + 2)) + (\<Sum>f\<leftarrow>fs. nused (length (content f))) \<le> 1000"

definition rootdir :: "(uchar list \<times> uchar list list) list \<Rightarrow> uchar list" where
  "rootdir fs = mk_dirent 1 [46] @ mk_dirent 1 [46, 46] @ entries 2 fs"

lemma length_superblock: "length (enc_superblock mksb) = 28"
  by (simp add: enc_superblock_def)

lemma init_blocks:
  "\<exists>t. forR [0..<MKFSSIZE] (\<lambda>i s. wsect (of_nat i) zeroes s) \<lparr>img = [], freeinode = a, freeblock = b\<rparr> = Ok () t \<and>
     t = \<lparr>img = replicate MKFSSIZE zeroes, freeinode = a, freeblock = b\<rparr>"
proof (rule forR_upt)
  fix i and s :: mkstate
  assume i: "i < MKFSSIZE" and s: "s = \<lparr>img = replicate i zeroes, freeinode = a, freeblock = b\<rparr>"
  have "unat (of_nat i :: uint) = i" using i by (simp add: unat_of_nat32 MKFSSIZE_def)
  then show "\<exists>s'. wsect (of_nat i) zeroes s = Ok () s' \<and> s' = \<lparr>img = replicate (Suc i) zeroes, freeinode = a, freeblock = b\<rparr>"
    using s sector_offset [of "of_nat i"] i by (simp add: wsect_def Let_def replicate_append_same MKFSSIZE_def)
qed simp

lemma empty_image:
  assumes "I = (replicate 1000 zeroes)[1 := splice 0 (enc_superblock mksb) zeroes]"
  shows "fs_img \<lparr>img = I, freeinode = 1, freeblock = of_nat nmeta\<rparr> [] []"
proof -
  have lz: "length zeroes = 512" by (simp add: zeroes_def BSIZE_def)
  have n: "nmeta = 59" by (simp add: nmeta_def nlog_def LOGSIZE_def ninodeblocks_def NINODES_def IPB_def nbitmap_def MKFSSIZE_def BSIZE_def)
  have "length (I ! b) = 512" if "b < 1000" for b
    using that lz length_superblock by (cases "b = 1") (auto simp: assms)
  then show ?thesis using lz by (auto simp: fs_img_def image_ok_def assms n slots_def blocks_need_def)
qed

lemma mkfs_init_ok:
  "\<exists>t dns. mkfs_init \<lparr>img = [], freeinode = 1, freeblock = 0\<rparr> = Ok ROOTINO t \<and>
     fs_img t dns [mk_dirent 1 [46] @ mk_dirent 1 [46, 46]] \<and> kinds dns"
proof -
  let ?s0 = "\<lparr>img = (replicate 1000 zeroes)[1 := splice 0 (enc_superblock mksb) zeroes], freeinode = 1, freeblock = of_nat nmeta\<rparr>"
  have w: "wsect 1 (splice 0 (enc_superblock mksb) zeroes) \<lparr>img = replicate MKFSSIZE zeroes, freeinode = 1, freeblock = of_nat nmeta\<rparr> =
      Ok () ?s0"
    using wsect_in [of 1 "\<lparr>img = replicate MKFSSIZE zeroes, freeinode = 1, freeblock = of_nat nmeta\<rparr>"] by (simp add: MKFSSIZE_def)
  obtain s1 d where s1: "mk_ialloc T_DIR ?s0 = Ok ROOTINO s1" "fs_img s1 [d] [[]]" "di_type d = T_DIR" "di_nlink d = 1"
    using mk_ialloc_ok [OF empty_image [OF refl], of T_DIR] by (auto simp: ROOTINO_def)
  have k1: "kinds [d]" using s1(3,4) by (simp add: kinds_def)
  have small: "nblk 16 = 1" "nblk 32 = 1" "nused 16 = 1" "nused 32 = 1" by (simp_all add: nblk_def nused_def)
  have r1: "ROOTINO = of_nat (Suc 0)" by (simp add: ROOTINO_def)
  obtain s2 d2 where s2: "iappend ROOTINO (mk_dirent ROOTINO [46]) s1 = Ok () s2" "fs_img s2 [d2] [mk_dirent 1 [46]]"
    "di_type d2 = di_type d" "di_nlink d2 = di_nlink d"
    using iappend_ok [OF s1(2), of 0 "mk_dirent ROOTINO [46]"] small by (auto simp: blocks_need_def ROOTINO_def)
  obtain s3 d3 where s3: "iappend ROOTINO (mk_dirent ROOTINO [46, 46]) s2 = Ok () s3"
    "fs_img s3 [d3] [mk_dirent 1 [46] @ mk_dirent 1 [46, 46]]" "di_type d3 = di_type d2" "di_nlink d3 = di_nlink d2"
    using iappend_ok [OF s2(2), of 0 "mk_dirent ROOTINO [46, 46]"] small by (auto simp: blocks_need_def ROOTINO_def)
  have "kinds [d3]" using k1 s2(3,4) s3(3,4) by (simp add: kinds_def)
  moreover have "mkfs_init \<lparr>img = [], freeinode = 1, freeblock = 0\<rparr> = Ok ROOTINO s3"
    using init_blocks [of 1 "of_nat nmeta"] w s1(1) s2(1) s3(1) by (auto simp: mkfs_init_def Let_def)
  ultimately show ?thesis using s3(2) by blast
qed

text \<open>A file may be made longer up to the end of its last block, which is zero there.\<close>

lemma fok_pad:
  assumes f: "fok I d c" and n: "nblk (length c + k) = nblk (length c)"
  shows "fok I d (c @ replicate k 0)"
proof -
  have "\<forall>j < nblk (length c) * 512.
    I ! maddr I d (j div 512) ! (j mod 512) = (if j < length c + k then (c @ replicate k 0) ! j else 0)"
  proof (intro allI impI)
    fix j assume "j < nblk (length c) * 512"
    then have "I ! maddr I d (j div 512) ! (j mod 512) = (if j < length c then c ! j else 0)" using f unfolding fok_def by blast
    then show "I ! maddr I d (j div 512) ! (j mod 512) = (if j < length c + k then (c @ replicate k 0) ! j else 0)"
      by (auto simp: nth_append)
  qed
  with f show ?thesis unfolding fok_def length_append length_replicate n by blast
qed

lemma image_ok_pad:
  assumes ok: "image_ok I fb dns xs" and i: "i < length xs" and n: "nblk (length (xs ! i) + k) = nblk (length (xs ! i))"
  shows "image_ok I fb dns (xs[i := xs ! i @ replicate k 0])"
proof -
  note D = image_okD [OF ok]
  let ?xs = "xs[i := xs ! i @ replicate k 0]"
  have e: "fslots (length (?xs ! j)) = fslots (length (xs ! j))" if "j < length xs" for j
    using n that by (cases "j = i") (simp_all add: fslots_def)
  then have "slots ?xs = slots xs" by (auto simp: slots_def)
  moreover have "fok I (dns ! j) (?xs ! j)" if "j < length xs" for j
    using fok_pad [OF D(9) [OF i] n] D(9) [OF that] that by (cases "j = i") auto
  ultimately show ?thesis using ok D(1) by (simp add: image_ok_def)
qed

text \<open>The bitmap.\<close>

lemma bitmap_fold:
  assumes "n \<le> 4096" "length d = 512"
  defines "e \<equiv> fold (\<lambda>i buf. buf[i div 8 := buf ! (i div 8) OR bit_of (i mod 8)]) [0..<n] d"
  shows "length e = 512 \<and> (\<forall>c. bit_set e c \<longleftrightarrow> c < n \<or> bit_set d c)"
  using assms(1) unfolding e_def
proof (induction n)
  case 0
  then show ?case using assms(2) by simp
next
  case (Suc n)
  let ?e = "fold (\<lambda>i buf. buf[i div 8 := buf ! (i div 8) OR bit_of (i mod 8)]) [0..<n] d"
  have IH: "length ?e = 512" "\<And>c. bit_set ?e c \<longleftrightarrow> c < n \<or> bit_set d c" using Suc by auto
  have b: "bit_of (n mod 8) = bit_of n" by (simp add: bit_of_def)
  have "n div 8 < length ?e" using IH(1) Suc.prems by simp
  from bit_set_or [OF this] IH show ?case by (auto simp: b less_Suc_eq)
qed

lemma bit_set_zeroes: "c < 4096 \<Longrightarrow> \<not> bit_set zeroes c"
  by (simp add: bit_set_def zeroes_def BSIZE_def)


lemma mksb_bmap: "unat (sb_bmapstart mksb) = 58"
  by (simp add: mksb_def nlog_def LOGSIZE_def ninodeblocks_def NINODES_def IPB_def)

text \<open>Rounding up the size of the root directory.\<close>

lemma round_root:
  assumes "n < 71680" "n mod 512 \<noteq> 0"
  defines "k \<equiv> 512 - n mod 512"
  shows "(of_nat n div of_nat BSIZE + 1) * of_nat BSIZE = (of_nat (n + k) :: uint)" "nblk (n + k) = nblk n" "512 dvd n + k"
proof -
  have n: "n = 512 * (n div 512) + n mod 512" "n mod 512 < 512" by simp_all
  define a where "a = n div 512"
  have a: "n + k = (a + 1) * 512" "a < 140" "n div 512 = a" using n assms(1) unfolding k_def a_def by (simp_all, linarith)
  have "(of_nat n div of_nat BSIZE + 1) * of_nat BSIZE = (of_nat ((a + 1) * 512) :: uint)"
    using off_block(1) [of n] assms(1) a(3) by (simp add: BSIZE_def)
  then show "(of_nat n div of_nat BSIZE + 1) * of_nat BSIZE = (of_nat (n + k) :: uint)" using a(1) by simp
  have "nblk (n + k) = a + 1" unfolding a(1) by (simp add: nblk_def)
  then show "nblk (n + k) = nblk n" using nblk_div(1) [of n] assms(2) a(3) by simp
  show "512 dvd n + k" unfolding a(1) by simp
qed

text \<open>The last step keeps the files, pads the root directory and writes the bitmap.\<close>

lemma pad_root_ok:
  assumes h: "fs_img s dns (root # xs)" "kinds dns" and r: "length root < 71680" "length root mod 512 \<noteq> 0"
  defines "c \<equiv> root @ replicate (512 - length root mod 512) 0"
  shows "\<exists>t dns'. bindR (rinode ROOTINO s) (\<lambda>din s.
      winode ROOTINO (din\<lparr>di_size := (di_size din div of_nat BSIZE + 1) * of_nat BSIZE\<rparr>) s) = Ok () t \<and>
    fs_img t dns' (c # xs) \<and> kinds dns' \<and> freeblock t = freeblock s"
proof -
  note G = fs_imgD [OF h(1)]
  note D = image_okD [OF G(1)]
  note R = round_root [OF r]
  have i0: "0 < length (root # xs)" "(0::nat) < 200" by simp_all
  define d where "d = (dns ! 0)\<lparr>di_size := of_nat (length c)\<rparr>"
  have lc: "length c = length root + (512 - length root mod 512)" by (simp add: c_def)
  have sz: "(di_size (dns ! 0) div of_nat BSIZE + 1) * of_nat BSIZE = (of_nat (length c) :: uint)"
    using R(1) G(5) [OF i0(1)] lc by simp
  have l13: "length (di_addrs d) = 13" using D(9) [OF i0(1)] by (simp add: d_def fok_def)
  have tab: "\<forall>k < length (root # xs). get_dinode (of_nat (Suc k)) (img s ! (32 + Suc k div 8)) = dns ! k" using G(4) by blast
  note P = put_inode_table [OF tab G(2) i0(2) D(1) D(2,3) l13]
  let ?I = "(img s)[32 + Suc 0 div 8 := put_dinode (of_nat (Suc 0)) d (img s ! (32 + Suc 0 div 8))]"
  have r1: "ROOTINO = of_nat (Suc 0)" by (simp add: ROOTINO_def)
  have run: "bindR (rinode ROOTINO s) (\<lambda>din s.
      winode ROOTINO (din\<lparr>di_size := (di_size din div of_nat BSIZE + 1) * of_nat BSIZE\<rparr>) s) = Ok () (s\<lparr>img := ?I\<rparr>)"
    using rinode_img [OF h(1) i0(1)] winode_img [OF D(2) i0(2), of d] sz unfolding r1 by (simp add: d_def del: of_nat_Suc)
  have "image_ok ?I (unat (freeblock s)) dns (root # xs)"
    by (rule image_ok_low [OF G(1) P(4) P(3)]) (auto simp del: of_nat_Suc)
  then have "image_ok ?I (unat (freeblock s)) (dns[0 := d]) (root # xs)"
  proof (rule image_ok_addrs)
    show "di_addrs (dns[0 := d] ! i) = di_addrs (dns ! i)" if "i < length dns" for i
      using that by (cases "i = 0") (simp_all add: d_def)
  qed simp
  from image_ok_pad [OF this i0(1), of "512 - length root mod 512"] R(2)
  have im: "image_ok ?I (unat (freeblock s)) (dns[0 := d]) (c # xs)" by (simp add: c_def)
  have inos: "get_dinode (of_nat (Suc k)) (?I ! (32 + Suc k div 8)) = dns[0 := d] ! k \<and>
      di_size (dns[0 := d] ! k) = of_nat (length ((c # xs) ! k))" if k: "k < length (c # xs)" for k
  proof (cases "k = 0")
    case True
    then show ?thesis using P(1) D(1) i0 by (simp add: d_def del: of_nat_Suc)
  next
    case False
    then have "get_dinode (of_nat (Suc k)) (?I ! (32 + Suc k div 8)) = dns ! k" using P(2) k by auto
    then show ?thesis using False G(5) [of k] k by (simp add: nth_Cons' del: of_nat_Suc)
  qed
  have "nused (length c) = nused (length root)" using R(2) lc by (simp add: nused_def)
  then have bn: "blocks_need (c # xs) = blocks_need (root # xs)" by (simp add: blocks_need_def)
  have "?I ! 1 = img s ! 1" by (simp del: of_nat_Suc)
  then have "fs_img (s\<lparr>img := ?I\<rparr>) (dns[0 := d]) (c # xs)"
    unfolding fs_img_def using im inos G(2,3,6,7) bn by (auto simp del: of_nat_Suc)
  moreover have "kinds (dns[0 := d])" by (rule kinds_update [OF h(2)]) (simp_all add: d_def)
  ultimately show ?thesis using run by (intro exI [of _ "s\<lparr>img := ?I\<rparr>"] exI [of _ "dns[0 := d]"]) simp
qed

lemma mk_balloc_run:
  assumes "unat (freeblock s) \<le> 1000" "length (img s) = 1000"
  obtains e where "mk_balloc (freeblock s) s = Ok () (s\<lparr>img := (img s)[58 := e]\<rparr>)" "length e = 512"
    "\<And>c. c < 4096 \<Longrightarrow> bit_set e c \<longleftrightarrow> c < unat (freeblock s)"
proof -
  let ?n = "unat (freeblock s)"
  have sf: "sint (freeblock s) = int ?n" using sint_of_nat32 [of ?n] assms(1) by simp
  define e where "e = fold (\<lambda>i buf. buf[i div 8 := buf ! (i div 8) OR bit_of (i mod 8)]) [0..<?n] zeroes"
  have n: "?n \<le> 4096" "length zeroes = 512" using assms(1) by (simp_all add: zeroes_def BSIZE_def)
  have e: "length e = 512" "\<And>c. bit_set e c \<longleftrightarrow> c < ?n \<or> bit_set zeroes c" using bitmap_fold [OF n] unfolding e_def by auto
  have lt: "int ?n < int (BSIZE * 8)" using assms(1) by (simp only: of_nat_less_iff) (simp add: BSIZE_def)
  have "mk_balloc (freeblock s) s = Ok () (s\<lparr>img := (img s)[58 := e]\<rparr>)"
    using wsect_in [of "sb_bmapstart mksb" s e] assms(2) mksb_bmap
    unfolding mk_balloc_def sf e_def [symmetric] nat_int Let_def if_not_P [OF not_not [THEN iffD2, OF lt]] by simp
  then show ?thesis using that [of e] e bit_set_zeroes by blast
qed

lemma mk_balloc_ok:
  assumes h: "fs_img s dns xs"
  shows "\<exists>t. mk_balloc (freeblock s) s = Ok () t \<and> fs_img t dns xs \<and> freeblock t = freeblock s \<and>
    (\<forall>b < 1000. bit_set (img t ! 58) b \<longleftrightarrow> b < unat (freeblock s))"
proof -
  note G = fs_imgD [OF h]
  note D = image_okD [OF G(1)]
  obtain e where e: "mk_balloc (freeblock s) s = Ok () (s\<lparr>img := (img s)[58 := e]\<rparr>)" "length e = 512"
    "\<And>c. c < 4096 \<Longrightarrow> bit_set e c \<longleftrightarrow> c < unat (freeblock s)"
    using mk_balloc_run [OF D(5,2)] by blast
  let ?I = "(img s)[58 := e]"
  have "image_ok ?I (unat (freeblock s)) dns xs"
    by (rule image_ok_low [OF G(1)]) (use D(2,3) e(2) in \<open>auto simp: nth_list_update\<close>)
  moreover have "get_dinode (of_nat (Suc i)) (?I ! (32 + Suc i div 8)) = dns ! i" if "i < length xs" for i
  proof -
    have "32 + Suc i div 8 \<noteq> 58" using that G(2) by simp
    then show ?thesis using G(4) [OF that] by (simp del: of_nat_Suc)
  qed
  ultimately show ?thesis using e(1,3) G D(2) by (intro exI [of _ "s\<lparr>img := ?I\<rparr>"]) (auto simp: fs_img_def)
qed

text \<open>The root directory padded to a whole block.\<close>

definition padded_root :: "(uchar list \<times> uchar list list) list \<Rightarrow> uchar list" where
  "padded_root fs = rootdir fs @ replicate (512 - 16 * (length fs + 2) mod 512) 0"

lemma length_rootdir: "length (rootdir fs) = 16 * (length fs + 2)"
  by (simp add: rootdir_def)

lemma mkfs_copied:
  assumes fit: "files_fit fs"
  obtains s dns where "mkfs fs = mkfs_finish ROOTINO s" "fs_img s dns (rootdir fs # map content fs)" "kinds dns"
proof -
  have F: "length fs \<le> 198" "\<forall>f \<in> set fs. SLASH \<notin> set (fst f)" "\<forall>f \<in> set fs. nblk (length (content f)) \<le> 140"
    using fit by (auto simp: files_fit_def)
  let ?r = "mk_dirent 1 [46] @ mk_dirent 1 [46, 46]"
  obtain s0 d0 where s0: "mkfs_init \<lparr>img = [], freeinode = 1, freeblock = 0\<rparr> = Ok ROOTINO s0" "fs_img s0 d0 [?r]" "kinds d0"
    using mkfs_init_ok by blast
  have r: "?r @ entries 2 fs = rootdir fs" by (simp add: rootdir_def)
  have e: "length ([] :: uchar list list) + 2 = 2" by simp
  have need: "blocks_need (rootdir fs # map content fs) \<le> 1000"
    using fit length_rootdir by (simp add: blocks_need_def files_fit_def o_def)
  have nb: "nblk (length ?r + 16 * length fs) \<le> 140" using F(1) nblk_mono [of "length ?r + 16 * length fs" 3200] by (simp add: nblk_def)
  obtain s1 d1 where s1: "forR fs (mk_file ROOTINO) s0 = Ok () s1" "fs_img s1 d1 (rootdir fs # map content fs)" "kinds d1"
    using mk_files_ok [OF s0(2,3) _ F(2) nb F(3)] F(1) need unfolding e r append_Nil by auto
  have "mkfs fs = mkfs_finish ROOTINO s1" using s0(1) s1(1) by (simp add: mkfs_def)
  then show ?thesis using that s1(2,3) by blast
qed

lemma mkfs_finish_split: "mkfs_finish ROOTINO s = bindR (bindR (rinode ROOTINO s) (\<lambda>din s.
    winode ROOTINO (din\<lparr>di_size := (di_size din div of_nat BSIZE + 1) * of_nat BSIZE\<rparr>) s)) (\<lambda>_ s. mk_balloc (freeblock s) s)"
  by (simp add: mkfs_finish_def bindR_assoc Let_def)

lemma mkfs_ok:
  assumes fit: "files_fit fs" and n: "(length fs + 2) mod 32 \<noteq> 0"
  shows "\<exists>t dns. mkfs fs = Ok () t \<and> fs_img t dns (padded_root fs # map content fs) \<and> kinds dns \<and>
    (\<forall>b < 1000. bit_set (img t ! 58) b \<longleftrightarrow> b < unat (freeblock t))"
proof -
  obtain s1 d1 where s1: "mkfs fs = mkfs_finish ROOTINO s1" "fs_img s1 d1 (rootdir fs # map content fs)" "kinds d1"
    using mkfs_copied [OF fit] .
  have "16 * (length fs + 2) mod 512 \<noteq> 0" using n mult_mod_right [of 16 "length fs + 2" 32] by simp
  then have lt: "length (rootdir fs) < 71680" "length (rootdir fs) mod 512 \<noteq> 0"
    using length_rootdir fit by (simp_all add: files_fit_def)
  obtain s2 d2 where s2: "bindR (rinode ROOTINO s1) (\<lambda>din s.
      winode ROOTINO (din\<lparr>di_size := (di_size din div of_nat BSIZE + 1) * of_nat BSIZE\<rparr>) s) = Ok () s2"
    "fs_img s2 d2 (padded_root fs # map content fs)" "kinds d2"
    using pad_root_ok [OF s1(2,3) lt] unfolding padded_root_def length_rootdir by blast
  obtain t where t: "mk_balloc (freeblock s2) s2 = Ok () t" "fs_img t d2 (padded_root fs # map content fs)"
    "freeblock t = freeblock s2" "\<forall>b < 1000. bit_set (img t ! 58) b \<longleftrightarrow> b < unat (freeblock s2)"
    using mk_balloc_ok [OF s2(2)] by blast
  have "mkfs fs = Ok () t" unfolding s1(1) mkfs_finish_split using s2(1) t(1) by simp
  then show ?thesis using t s2(3) by auto
qed

text \<open>
  A root directory that fills its last block gets a size of one block more, and no block for it: reading it
  makes \<open>bmap\<close> allocate one in the kernel.
\<close>

lemma mkfs_root_hole:
  assumes fit: "files_fit fs" and n: "(length fs + 2) mod 32 = 0"
  defines "k \<equiv> nblk (16 * (length fs + 2))"
  shows "\<exists>t d. mkfs fs = Ok () t \<and> get_dinode 1 (img t ! 32) = d \<and> unat (di_size d) = (k + 1) * 512 \<and> k < 12 \<and> di_addrs d ! k = 0"
proof -
  obtain s dns where s: "mkfs fs = mkfs_finish ROOTINO s" "fs_img s dns (rootdir fs # map content fs)" "kinds dns"
    using mkfs_copied [OF fit] .
  note G = fs_imgD [OF s(2)]
  note D = image_okD [OF G(1)]
  have i0: "0 < length (rootdir fs # map content fs)" "(0::nat) < 200" by simp_all
  have l: "length fs \<le> 198" using fit by (simp add: files_fit_def)
  obtain q where q: "length fs + 2 = 32 * q" using n by auto
  have kq: "k = q" "q \<le> 6" using q l by (simp_all add: k_def nblk_def)
  define d where "d = (dns ! 0)\<lparr>di_size := (di_size (dns ! 0) div of_nat BSIZE + 1) * of_nat BSIZE\<rparr>"
  have "length (rootdir fs) = 512 * q" unfolding length_rootdir q by simp
  then have "di_size (dns ! 0) = of_nat (512 * q)" using G(5) [OF i0(1)] by simp
  then have "di_size d = of_nat ((q + 1) * 512)"
    using off_block(1) [of "512 * q"] kq(2) by (simp add: d_def BSIZE_def)
  then have sz: "unat (di_size d) = (k + 1) * 512" using kq by (simp add: unat_of_nat32 del: of_nat_mult of_nat_add)
  have "fok (img s) (dns ! 0) (rootdir fs)" using D(9) [OF i0(1)] by simp
  then have ad: "length (di_addrs d) = 13" "di_addrs d ! k = 0"
    using kq length_rootdir [of fs] unfolding fok_def k_def by (simp_all add: d_def)
  have r1: "ROOTINO = of_nat (Suc 0)" by (simp add: ROOTINO_def)
  let ?I = "(img s)[32 + Suc 0 div 8 := put_dinode (of_nat (Suc 0)) d (img s ! (32 + Suc 0 div 8))]"
  have run: "bindR (rinode ROOTINO s) (\<lambda>din s.
      winode ROOTINO (din\<lparr>di_size := (di_size din div of_nat BSIZE + 1) * of_nat BSIZE\<rparr>) s) = Ok () (s\<lparr>img := ?I\<rparr>)"
    using rinode_img [OF s(2) i0(1)] winode_img [OF D(2) i0(2), of d] unfolding r1 by (simp add: d_def del: of_nat_Suc)
  obtain e where e: "mk_balloc (freeblock s) (s\<lparr>img := ?I\<rparr>) = Ok () (s\<lparr>img := ?I[58 := e]\<rparr>)"
    using mk_balloc_run [of "s\<lparr>img := ?I\<rparr>"] D(2,5) by auto
  have t: "mkfs fs = Ok () (s\<lparr>img := ?I[58 := e]\<rparr>)" unfolding s(1) mkfs_finish_split run using e by simp
  have "length (img s ! 32) = BSIZE" using D(3) [of 32] by (simp add: BSIZE_def)
  then have "get_dinode 1 (?I[58 := e] ! 32) = d" using get_put_dinode [OF ad(1), of "img s ! 32" 1] D(2) by simp
  then show ?thesis using t sz kq ad(2) by (intro exI [of _ "s\<lparr>img := ?I[58 := e]\<rparr>"] exI [of _ d]) simp
qed

section \<open>The kernel on the image\<close>

text \<open>
  The kernel has the image \<open>t\<close> as its disk, as \<open>iinit\<close> and \<open>initlog\<close> leave it; \<open>in_core\<close> is what \<open>ilock\<close>
  makes true of an inode.
\<close>

definition mounted :: "mkstate \<Rightarrow> 'a fstate_scheme \<Rightarrow> bool" where
  "mounted t s \<longleftrightarrow> fs_ok s \<and> (\<forall>b < 1000. bview s b = img t ! unat b) \<and> sb s = dec_superblock (img t ! 1) \<and>
     log_start s = sb_logstart (sb s) \<and> disksize s = 1000 \<and> hblocks s = {}"

definition in_core :: "'a fstate_scheme \<Rightarrow> nat \<Rightarrow> uint \<Rightarrow> bool" where
  "in_core s i inum \<longleftrightarrow> i_dev (icache s i) = 1 \<and> dinode_of (icache s i) = disk_inode s inum"

lemma img_superblock: "fs_img t dns xs \<Longrightarrow> dec_superblock (img t ! 1) = mksb"
proof -
  assume "fs_img t dns xs"
  then have "img t ! 1 = enc_superblock mksb @ drop 28 zeroes" using length_superblock fs_imgD(7) by (auto simp: splice_def)
  then show ?thesis using dec_enc_superblock [of mksb "drop 28 zeroes"] by simp
qed

lemma log_area_low: "b \<in> log_area 2 \<Longrightarrow> unat b < 59"
proof -
  have "unat (log_slot 2 i) < 59" if "i < LOGSIZE" for i
    using that by (simp add: log_slot_def unat_word_ariths unat_of_nat32 LOGSIZE_def)
  then show "b \<in> log_area 2 \<Longrightarrow> unat b < 59" by (auto simp: log_area_def)
qed

lemma in_core_inode:
  assumes h: "fs_img t dns xs" and m: "mounted t s" and c: "in_core s i (of_nat (Suc j))" and j: "j < length xs"
  shows "i_addrs (icache s i) = di_addrs (dns ! j)" "i_size (icache s i) = of_nat (length (xs ! j))"
    "i_type (icache s i) = di_type (dns ! j)" "i_dev (icache s i) = 1"
proof -
  note G = fs_imgD [OF h]
  have sbm: "sb s = mksb" using m img_superblock [OF h] by (simp add: mounted_def)
  have u: "unat (IBLOCK (of_nat (Suc j)) mksb) = 32 + Suc j div 8" using j G(2) by (intro IBLOCK_mksb) simp
  have "unat (IBLOCK (of_nat (Suc j)) mksb) < 1000" unfolding u using j G(2) by simp
  then have "IBLOCK (of_nat (Suc j)) mksb < 1000" by (simp add: word_less_nat_alt)
  then have "bview s (IBLOCK (of_nat (Suc j)) mksb) = img t ! (32 + Suc j div 8)" using m u by (simp only: mounted_def)
  then have "disk_inode s (of_nat (Suc j)) = dns ! j" unfolding disk_inode_def sbm using G(4) [OF j] by (simp only:)
  then have d: "dinode_of (icache s i) = dns ! j" using c by (simp add: in_core_def)
  show "i_addrs (icache s i) = di_addrs (dns ! j)" "i_type (icache s i) = di_type (dns ! j)"
    unfolding d [symmetric] by (simp_all add: dinode_of_def)
  have "i_size (icache s i) = di_size (dns ! j)" unfolding d [symmetric] by (simp add: dinode_of_def)
  then show "i_size (icache s i) = of_nat (length (xs ! j))" using G(5) [OF j] by simp
  show "i_dev (icache s i) = 1" using c by (simp add: in_core_def)
qed

text \<open>The kernel's block map and the one of the image agree.\<close>

lemma mounted_file:
  assumes h: "fs_img t dns xs" and m: "mounted t s" and c: "in_core s i (of_nat (Suc j))" and j: "j < length xs"
  shows "file_mapped s i (nblk (length (xs ! j)))" "\<And>x. x < length (xs ! j) \<Longrightarrow> file_byte s i x = xs ! j ! x"
    "\<And>k. k < nblk (length (xs ! j)) \<Longrightarrow> 59 \<le> unat (file_blk s i k) \<and> unat (file_blk s i k) < unat (freeblock t)"
proof -
  note G = fs_imgD [OF h]
  note D = image_okD [OF G(1)]
  note C = in_core_inode [OF assms]
  note f = D(9) [OF j]
  have sbm: "log_start s = 2" using m img_superblock [OF h] by (simp add: mounted_def mksb_def)
  have view: "bview s b = img t ! unat b" if "unat b < 1000" for b
    using m that by (simp add: mounted_def word_less_nat_alt)
  have val: "b \<noteq> 0 \<and> fs_valid s b" if "59 \<le> unat b" "unat b < 1000" for b
    using m that log_area_low [of b] sbm by (auto simp: fs_valid_def mounted_def word_less_nat_alt)
  have slot: "59 \<le> maddr (img t) (dns ! j) k \<and> maddr (img t) (dns ! j) k < 1000" if "k \<in> fslots (length (xs ! j))" for k
    using D(8) [OF j that] D(5) by linarith
  have ind: "59 \<le> unat (di_addrs (dns ! j) ! 12) \<and> unat (di_addrs (dns ! j) ! 12) < 1000" if "12 < nblk (length (xs ! j))"
    using slot [of 140] that by (simp add: fslots_def maddr_def)
  have n140: "nblk (length (xs ! j)) \<le> 140" using f by (simp add: fok_def)
  have blk: "unat (file_blk s i k) = maddr (img t) (dns ! j) k" if k: "k < nblk (length (xs ! j))" for k
  proof (cases "k < 12")
    case True
    then show ?thesis using C(1) by (simp add: file_blk_def maddr_def NDIRECT_def)
  next
    case False
    then have "bview s (di_addrs (dns ! j) ! 12) = img t ! unat (di_addrs (dns ! j) ! 12)" using ind k by (intro view) simp
    then show ?thesis using False C(1) k n140 by (simp add: file_blk_def maddr_def NDIRECT_def)
  qed
  have in_slots: "k \<in> fslots (length (xs ! j))" if "k < nblk (length (xs ! j))" for k using that by (simp add: fslots_def)
  show "59 \<le> unat (file_blk s i k) \<and> unat (file_blk s i k) < unat (freeblock t)" if "k < nblk (length (xs ! j))" for k
    using D(8) [OF j in_slots [OF that]] blk [OF that] by simp
  show "file_mapped s i (nblk (length (xs ! j)))"
    using n140 C(1,4) val ind slot [OF in_slots] blk by (auto simp: file_mapped_def MAXFILE_def NDIRECT_def NINDIRECT_def)
  show "file_byte s i x = xs ! j ! x" if x: "x < length (xs ! j)" for x
  proof -
    have "length (xs ! j) \<le> nblk (length (xs ! j)) * 512" by (simp add: nblk_def)
    then have k: "x < nblk (length (xs ! j)) * 512" "x div 512 < nblk (length (xs ! j))"
      using x by (auto simp: less_mult_imp_div_less)
    have "img t ! maddr (img t) (dns ! j) (x div 512) ! (x mod 512) = xs ! j ! x" using f k(1) x unfolding fok_def by auto
    then show ?thesis using view slot [OF in_slots [OF k(2)]] blk [OF k(2)] by (simp add: file_byte_def BSIZE_def)
  qed
qed

text \<open>The entries of the root directory.\<close>

definition root_ent :: "(uchar list \<times> uchar list list) list \<Rightarrow> nat \<Rightarrow> dirent" where
  "root_ent fs k = dec_dirent (slice (16 * k) 16 (padded_root fs))"

definition cname :: "uchar list \<Rightarrow> uchar list" where
  "cname nm = take DIRSIZ (nm @ replicate DIRSIZ 0)"

definition root_names :: "(uchar list \<times> uchar list list) list \<Rightarrow> uchar list list" where
  "root_names fs = [46] # [46, 46] # map (\<lambda>f. take DIRSIZ (mkname (fst f))) fs"

definition names_ok :: "(uchar list \<times> uchar list list) list \<Rightarrow> bool" where
  "names_ok fs \<longleftrightarrow> distinct (root_names fs) \<and> (\<forall>f \<in> set fs. 0 \<notin> set (fst f))"

lemma dec_mk_dirent: "dec_dirent (mk_dirent n nm) = \<lparr>de_inum = ucast n, de_name = cname nm\<rparr>"
  using dec_enc_dirent [of "\<lparr>de_inum = ucast n, de_name = cname nm\<rparr>" "[]"]
  by (simp add: mk_dirent_def cname_def DIRSIZ_def)

lemma slice_entries:
  "k < length fs \<Longrightarrow> slice (16 * k) 16 (entries n fs @ bs) = mk_dirent (of_nat (n + k)) (mkname (fst (fs ! k)))"
proof (induction fs arbitrary: n k)
  case (Cons f fs)
  show ?case
  proof (cases k)
    case 0
    then show ?thesis by (simp add: slice_def)
  next
    case (Suc k')
    then have "slice (16 * k) 16 (entries n (f # fs) @ bs) = slice (16 * k') 16 (entries (Suc n) fs @ bs)"
      by (simp add: slice_def)
    then show ?thesis using Cons.IH [of k' "Suc n"] Cons.prems Suc by simp
  qed
qed simp

lemma root_ent_file:
  assumes "k < length fs"
  shows "root_ent fs (k + 2) = \<lparr>de_inum = ucast (of_nat (k + 2) :: uint), de_name = cname (mkname (fst (fs ! k)))\<rparr>"
    "root_ent fs 0 = \<lparr>de_inum = 1, de_name = cname [46]\<rparr>" "root_ent fs 1 = \<lparr>de_inum = 1, de_name = cname [46, 46]\<rparr>"
proof -
  have "slice (16 * (k + 2)) 16 (padded_root fs) =
      slice (16 * k) 16 (entries 2 fs @ replicate (512 - 16 * (length fs + 2) mod 512) 0)"
    by (simp add: padded_root_def rootdir_def slice_def)
  then show "root_ent fs (k + 2) = \<lparr>de_inum = ucast (of_nat (k + 2) :: uint), de_name = cname (mkname (fst (fs ! k)))\<rparr>"
    using slice_entries [OF assms] dec_mk_dirent by (simp add: root_ent_def add.commute)
  show "root_ent fs 0 = \<lparr>de_inum = 1, de_name = cname [46]\<rparr>" "root_ent fs 1 = \<lparr>de_inum = 1, de_name = cname [46, 46]\<rparr>"
    by (simp_all add: root_ent_def padded_root_def rootdir_def slice_def dec_mk_dirent)
qed

lemma length_padded_root: "length (padded_root fs) = 16 * (length fs + 2) + (512 - 16 * (length fs + 2) mod 512)"
  by (simp add: padded_root_def rootdir_def)

lemma padded_root_dvd: "512 dvd length (padded_root fs)"
proof -
  define m where "m = 16 * (length fs + 2)"
  obtain a r where a: "m div 512 = a" and r: "m mod 512 = r" by blast
  have "r < 512" "m = 512 * a + r" unfolding a [symmetric] r [symmetric] by simp_all
  then have "m + (512 - m mod 512) = 512 * (a + 1)" unfolding r by simp
  then show ?thesis unfolding length_padded_root m_def [symmetric] by simp
qed

lemma cstr_cname: "0 \<notin> set nm \<Longrightarrow> cstr (\<lambda>i. cname nm ! i) DIRSIZ = take DIRSIZ nm"
proof -
  assume z: "0 \<notin> set nm"
  have "length (cname nm) = DIRSIZ" by (simp add: cname_def)
  then have "map (\<lambda>i. cname nm ! i) [0..<DIRSIZ] = cname nm" by (metis map_nth)
  moreover have "cname nm = take DIRSIZ nm @ replicate (DIRSIZ - length nm) 0" by (simp add: cname_def min_def)
  moreover have "takeWhile (\<lambda>c. c \<noteq> 0) (take DIRSIZ nm @ replicate (DIRSIZ - length nm) 0) = take DIRSIZ nm"
    using z by (subst takeWhile_append2) (auto dest: in_set_takeD simp: takeWhile_replicate)
  ultimately show ?thesis by (simp only: cstr_def)
qed

text \<open>What the kernel finds in the root directory.\<close>

lemma mounted_root:
  assumes h: "fs_img t dns (padded_root fs # map content fs)" and k: "kinds dns" and m: "mounted t s" and c: "in_core s i ROOTINO"
  shows "dir_ok s i (nblk (length (padded_root fs)))" "dir_count s i * 16 = length (padded_root fs)"
    "j < dir_count s i \<Longrightarrow> dir_entry s i j = root_ent fs j"
proof -
  have r1: "ROOTINO = of_nat (Suc 0)" by (simp add: ROOTINO_def)
  have l: "0 < length (padded_root fs # map content fs)" by simp
  note C = in_core_inode [OF h m c [unfolded r1] l, simplified]
  note M = mounted_file [OF h m c [unfolded r1] l, simplified]
  note G = fs_imgD [OF h]
  note D = image_okD [OF G(1)]
  have sm: "length (padded_root fs) < 2 ^ 31" using G(2) by (simp add: length_padded_root)
  have ty: "i_type (icache s i) = T_DIR" using C(3) k D(1) by (simp add: kinds_def)
  have sz: "unat (i_size (icache s i)) = length (padded_root fs)" using C(2) sm by (simp add: unat_of_nat32)
  have d: "16 dvd length (padded_root fs)" by (rule dvd_trans [OF _ padded_root_dvd]) simp
  have le: "length (padded_root fs) \<le> nblk (length (padded_root fs)) * BSIZE" by (simp add: nblk_def BSIZE_def)
  show "dir_ok s i (nblk (length (padded_root fs)))" using ty M(1) sz d le by (simp add: dir_ok_def)
  show cnt: "dir_count s i * 16 = length (padded_root fs)" using sz d by (simp add: dir_count_def)
  show "dir_entry s i j = root_ent fs j" if "j < dir_count s i"
  proof -
    have b: "16 * j + 16 \<le> length (padded_root fs)" using that cnt by linarith
    then have "map (file_byte s i) [16 * j..<16 * j + 16] = slice (16 * j) 16 (padded_root fs)"
      by (intro nth_equalityI) (auto simp: slice_def M(2))
    then show ?thesis by (simp add: dir_entry_def root_ent_def)
  qed
qed

lemma root_lookup:
  assumes h: "fs_img t dns (padded_root fs # map content fs)" "kinds dns" and m: "mounted t s" and c: "in_core s i ROOTINO"
    and n: "names_ok fs" and k: "k < length fs"
  shows "find (entry_named s i (cname (mkname (fst (fs ! k))))) [0..<dir_count s i] = Some (k + 2)"
    "de_inum (dir_entry s i (k + 2)) = of_nat (k + 2)"
proof -
  note R = mounted_root [OF h m c]
  have "16 * (length fs + 2) \<le> dir_count s i * 16" unfolding R(2) length_padded_root by (rule le_add1)
  then have cnt: "length fs + 2 \<le> dir_count s i" by simp
  have l: "length fs < 200" using fs_imgD(2) [OF h(1)] by simp
  have w: "(ucast (of_nat (j + 2) :: uint) :: ushort) = of_nat (j + 2)" "(of_nat (j + 2) :: ushort) \<noteq> 0" if "j < length fs" for j
  proof -
    have lt: "j + 2 < 2 ^ 16" using that l by simp
    show "(of_nat (j + 2) :: ushort) \<noteq> 0"
      using word_of_nat_eq_0_iff [of "j + 2", where ?'a = 16] lt by (simp add: nat_dvd_not_less)
    show "(ucast (of_nat (j + 2) :: uint) :: ushort) = of_nat (j + 2)" using lt by (simp only: unsigned_of_nat) (simp add: take_bit_nat_eq_self del: of_nat_add)
  qed
  show "de_inum (dir_entry s i (k + 2)) = of_nat (k + 2)"
    using R(3) [of "k + 2"] k cnt root_ent_file(1) [OF k] w(1) [OF k] by simp
  have z: "0 \<notin> set (mkname (fst (fs ! j)))" if "j < length fs" for j
    using n that by (auto simp: names_ok_def mkname_def dest: list.set_sel(2))
  have named: "entry_named s i (cname nm) j \<longleftrightarrow> root_names fs ! j = take DIRSIZ nm" if j: "j < length fs + 2" and nm: "0 \<notin> set nm" for j nm
  proof -
    have e: "dir_entry s i j = root_ent fs j" using R(3) j cnt by simp
    consider "j = 0" | "j = 1" | j' where "j = j' + 2" "j' < length fs"
    proof -
      have "j = 0 \<or> j = 1 \<or> j = (j - 2) + 2 \<and> j - 2 < length fs" using j by linarith
      then show thesis using that by blast
    qed
    then show ?thesis
    proof cases
      case 1
      then show ?thesis using e root_ent_file(2) [OF k] cstr_cname [OF nm] cstr_cname [of "[46]"]
        by (auto simp: entry_named_def root_names_def DIRSIZ_def)
    next
      case 2
      then show ?thesis using e root_ent_file(3) [OF k] cstr_cname [OF nm] cstr_cname [of "[46, 46]"]
        by (auto simp: entry_named_def root_names_def DIRSIZ_def)
    next
      case 3
      then show ?thesis using e root_ent_file(1) [OF 3(2)] w [OF 3(2)] cstr_cname [OF nm] cstr_cname [OF z [OF 3(2)]]
        by (auto simp: entry_named_def root_names_def)
    qed
  qed
  let ?P = "entry_named s i (cname (mkname (fst (fs ! k))))"
  have nk: "take DIRSIZ (mkname (fst (fs ! k))) = root_names fs ! (k + 2)" using k by (simp add: root_names_def)
  have d: "distinct (root_names fs)" "length (root_names fs) = length fs + 2" using n by (simp_all add: names_ok_def root_names_def)
  have "?P (k + 2)" using named [of "k + 2"] z [OF k] k nk by simp
  moreover have "\<not> ?P j" if "j < k + 2" for j
    using named [of j, OF _ z [OF k]] that k nk d nth_eq_iff_index_eq [OF d(1), of j "k + 2"] by simp
  ultimately show "find ?P [0..<dir_count s i] = Some (k + 2)"
    using k cnt by (auto simp: find_Some_iff intro!: exI [of _ "k + 2"])
qed

lemma read_copied:
  fixes s :: constate
  assumes h: "fs_img t dns (c # map content fs)" "kinds dns" and m: "mounted t s" and c: "in_core s i (of_nat (k + 2))" and k: "k < length fs"
  shows "\<exists>s'. readi i 0 (of_nat (length (content (fs ! k)))) s = Ok (int (length (content (fs ! k))), content (fs ! k)) s'"
proof -
  let ?c = "content (fs ! k)"
  have e: "(of_nat (k + 2) :: uint) = of_nat (Suc (k + 1))" by simp
  have x: "(c # map content fs) ! (k + 1) = ?c" "k + 1 < length (c # map content fs)" using k by simp_all
  note C = in_core_inode [OF h(1) m c [unfolded e] x(2), unfolded x(1)]
  note M = mounted_file [OF h(1) m c [unfolded e] x(2), unfolded x(1)]
  have l: "length dns = length (c # map content fs)" using image_okD(1) [OF fs_imgD(1) [OF h(1)]] .
  have ty: "i_type (icache s i) \<noteq> T_DEV" using C(3) h(2) k l by (simp add: kinds_def T_FILE_def T_DEV_def)
  have le: "length ?c \<le> nblk (length ?c) * BSIZE" by (simp add: nblk_def BSIZE_def)
  have "nblk (length ?c) * BSIZE < 2 ^ 31" using M(1) by (intro file_limit) (simp add: file_mapped_def)
  then have sm: "length ?c < 2 ^ 31" using le by linarith
  have sz: "unat (i_size (icache s i)) = length ?c" using C(2) sm by (simp add: unat_of_nat32)
  have ok: "fs_ok s" using m by (simp add: mounted_def)
  have "map (file_byte s i) [0..<length ?c] = ?c" by (intro nth_equalityI) (simp_all add: M(2))
  then show ?thesis using readi_ok [OF ok ty M(1), of 0 "length ?c"] sz sm le by auto
qed

section \<open>Properties\<close>

text \<open>A kernel that has just booted with the image, with one inode in memory.\<close>

definition booted :: "mkstate \<Rightarrow> uint \<Rightarrow> constate" where
  "booted t inum =
     (let d = get_dinode inum (img t ! unat (IBLOCK inum mksb))
      in ex_cons\<lparr>disk := (\<lambda>b. if b < 1000 then img t ! unat b else zeroes), sb := dec_superblock (img t ! 1), log_start := 2,
           icache := (\<lambda>_. ex_inode\<lparr>i_inum := inum, i_type := di_type d, i_major := di_major d, i_minor := di_minor d,
             i_nlink := di_nlink d, i_size := di_size d, i_addrs := di_addrs d\<rparr>)\<rparr>)"

lemma booted_ok:
  assumes h: "fs_img t dns xs" and j: "j < length xs"
  shows "mounted t (booted t (of_nat (Suc j)))" "in_core (booted t (of_nat (Suc j))) 0 (of_nat (Suc j))"
proof -
  let ?s = "booted t (of_nat (Suc j))"
  note G = fs_imgD [OF h]
  have len: "length (img t ! unat b) = 512" if "b < 1000" for b :: uint
    using that by (intro image_okD(3) [OF G(1)]) (simp add: word_less_nat_alt)
  have sel: "disk ?s = (\<lambda>b. if b < 1000 then img t ! unat b else zeroes)" "sb ?s = mksb" "log_start ?s = 2" "bufs ?s = (\<lambda>_. ex_buf)"
    "disksize ?s = 1000" "held ?s = []" "cur ?s = Some 3" "blist ?s = rev [0..<NBUF]" "lh_n ?s = 0" "lh_block ?s = replicate 30 0" "log_dev ?s = 1"
    using img_superblock [OF h] by (simp_all add: booted_def Let_def)
  have c: "cached ?s bn = None" for bn unfolding cached_None_iff sel by (simp add: ex_buf_def)
  then have v: "bview ?s = disk ?s" "hblocks ?s = {}" "dblocks ?s = {}" by (auto simp: bview_def hblocks_def dblocks_def simp del: of_nat_Suc)
  have "bc_ok ?s" using len by (auto simp: bc_ok_def buf_ok_def ex_buf_def BSIZE_def Let_def sel zeroes_def simp del: of_nat_Suc)
  moreover have "b < 1000" if "b \<in> log_area 2" for b using log_area_low [OF that] by (simp add: word_less_nat_alt)
  then have "log_geom ?s" by (auto simp: log_geom_def LOGSIZE_def sel simp del: of_nat_Suc)
  ultimately have "fs_ok ?s" by (simp add: fs_ok_def v logged_def sel del: of_nat_Suc)
  then show "mounted t ?s" using v img_superblock [OF h] by (simp add: mounted_def sel mksb_def del: of_nat_Suc)
  have u: "unat (IBLOCK (of_nat (Suc j)) mksb) = 32 + Suc j div 8" using j G(2) by (intro IBLOCK_mksb) simp
  have "unat (IBLOCK (of_nat (Suc j)) mksb) < 1000" unfolding u using j G(2) by simp
  then have lt: "IBLOCK (of_nat (Suc j)) mksb < 1000" by (simp add: word_less_nat_alt)
  have "i_dev (icache ?s 0) = 1" by (simp add: booted_def Let_def ex_inode_def)
  moreover have "dinode_of (icache ?s 0) = get_dinode (of_nat (Suc j)) (img t ! unat (IBLOCK (of_nat (Suc j)) mksb))"
    by (simp add: booted_def Let_def dinode_of_def del: of_nat_Suc)
  ultimately show "in_core ?s 0 (of_nat (Suc j))" using lt by (simp add: in_core_def disk_inode_def v sel del: of_nat_Suc)
qed

text \<open>
  (C20) \<open>mkfs\<close> puts every file it is given into the image: a kernel that has the image as its disk finds the
  name in the root directory, with the number of an inode through which \<open>readi\<close> returns the bytes of the
  file, and the bitmap marks the blocks in use. The files must fit, and the root directory must not fill its
  last block.
\<close>

theorem mkfs_files_readable:
  assumes "files_fit fs" "names_ok fs" "(length fs + 2) mod 32 \<noteq> 0"
  shows "\<exists>t. mkfs fs = Ok () t \<and> dec_superblock (img t ! 1) = mksb \<and> (\<forall>b < 1000. bit_set (img t ! 58) b \<longleftrightarrow> b < unat (freeblock t)) \<and>
    (\<forall>(s :: constate) i k. mounted t s \<and> k < length fs \<longrightarrow>
      (in_core s i ROOTINO \<longrightarrow> (\<exists>s'. bview s' = bview s \<and> icache s' = icache s \<and>
         dirlookup i (cname (mkname (fst (fs ! k)))) s = bindR (iget 1 (of_nat (k + 2)) s') (\<lambda>j s. Ok (Some (j, of_nat (16 * (k + 2)))) s))) \<and>
      (in_core s i (of_nat (k + 2)) \<longrightarrow>
         (\<exists>s'. readi i 0 (of_nat (length (content (fs ! k)))) s = Ok (int (length (content (fs ! k))), content (fs ! k)) s') \<and>
         (\<forall>x < nblk (length (content (fs ! k))). 59 \<le> unat (file_blk s i x) \<and> unat (file_blk s i x) < unat (freeblock t))))"
proof -
  obtain t dns where t: "mkfs fs = Ok () t" "fs_img t dns (padded_root fs # map content fs)" "kinds dns"
    "\<forall>b < 1000. bit_set (img t ! 58) b \<longleftrightarrow> b < unat (freeblock t)"
    using mkfs_ok [OF assms(1,3)] by blast
  have look: "\<exists>s'. bview s' = bview s \<and> icache s' = icache s \<and>
      dirlookup i (cname (mkname (fst (fs ! k)))) s = bindR (iget 1 (of_nat (k + 2)) s') (\<lambda>j s. Ok (Some (j, of_nat (16 * (k + 2)))) s)"
    if m: "mounted t s" and c: "in_core s i ROOTINO" and k: "k < length fs" for s :: constate and i k
  proof -
    note L = root_lookup [OF t(2,3) m c assms(2) k]
    have ok: "fs_ok s" using m by (simp add: mounted_def)
    have n: "k + 2 < 2 ^ 16" using k assms(1) by (simp add: files_fit_def)
    have u: "(ucast (of_nat (k + 2) :: ushort) :: uint) = of_nat (k + 2)"
      using n by (simp only: unsigned_of_nat) (simp add: take_bit_nat_eq_self del: of_nat_add)
    from dirlookup_ok [OF ok mounted_root(1) [OF t(2,3) m c], of "cname (mkname (fst (fs ! k)))"]
    obtain s' where s': "fs_after s s' (bview s) 0" "dirlookup i (cname (mkname (fst (fs ! k)))) s =
        bindR (iget 1 (of_nat (k + 2)) s') (\<lambda>j s. Ok (Some (j, of_nat (16 * (k + 2)))) s)"
      unfolding L(1) option.case L(2) u by blast
    then show ?thesis using fs_afterD(2,7) [OF s'(1)] by blast
  qed
  have blks: "59 \<le> unat (file_blk s i x) \<and> unat (file_blk s i x) < unat (freeblock t)"
    if "mounted t s" "in_core s i (of_nat (k + 2))" "k < length fs" "x < nblk (length (content (fs ! k)))" for s :: constate and i k x
    using mounted_file(3) [OF t(2) that(1), of i "k + 1"] that(2-4) by simp
  show ?thesis using t(1,4) img_superblock [OF t(2)] look read_copied [OF t(2,3)] blks by blast
qed

theorem mkfs_files_readable_witness:
  "\<exists>t s1 s2. mkfs [([95, 99, 97, 116], [[104, 105]])] = Ok () t \<and> readi 0 0 2 (booted t 2) = Ok (2, [104, 105]) s1 \<and>
    dirlookup 0 (cname [99, 97, 116]) (booted t 1) = bindR (iget 1 2 s2) (\<lambda>j s. Ok (Some (j, 32)) s)"
proof -
  let ?fs = "[([95, 99, 97, 116], [[104, 105]])] :: (uchar list \<times> uchar list list) list"
  have f: "files_fit ?fs" "names_ok ?fs" "(length ?fs + 2) mod 32 \<noteq> 0"
    by (simp_all add: files_fit_def content_def nblk_def nused_def names_ok_def root_names_def mkname_def DIRSIZ_def SLASH_def)
  obtain t where t: "mkfs ?fs = Ok () t" and files: "\<forall>(s :: constate) i k. mounted t s \<and> k < length ?fs \<longrightarrow>
      (in_core s i ROOTINO \<longrightarrow> (\<exists>s'. bview s' = bview s \<and> icache s' = icache s \<and>
         dirlookup i (cname (mkname (fst (?fs ! k)))) s = bindR (iget 1 (of_nat (k + 2)) s') (\<lambda>j s. Ok (Some (j, of_nat (16 * (k + 2)))) s))) \<and>
      (in_core s i (of_nat (k + 2)) \<longrightarrow>
         (\<exists>s'. readi i 0 (of_nat (length (content (?fs ! k)))) s = Ok (int (length (content (?fs ! k))), content (?fs ! k)) s') \<and>
         (\<forall>x < nblk (length (content (?fs ! k))). 59 \<le> unat (file_blk s i x) \<and> unat (file_blk s i x) < unat (freeblock t)))"
    using mkfs_files_readable [OF f] by blast
  obtain dns where "fs_img t dns (padded_root ?fs # map content ?fs)"
    using mkfs_ok [OF f(1,3)] t by auto
  note B = booted_ok [OF this]
  have "mounted t (booted t 2)" "in_core (booted t 2) 0 2" "mounted t (booted t 1)" "in_core (booted t 1) 0 ROOTINO"
    using B [of 1] B [of 0] by (simp_all add: ROOTINO_def)
  then obtain s1 s2 where "readi 0 0 2 (booted t 2) = Ok (2, [104, 105]) s1"
    "dirlookup 0 (cname [99, 97, 116]) (booted t 1) = bindR (iget 1 2 s2) (\<lambda>j s. Ok (Some (j, 32)) s)"
    using files [rule_format, of "booted t 2" 0 0] files [rule_format, of "booted t 1" 0 0]
    by (auto simp: content_def mkname_def)
  then show ?thesis using t by blast
qed

end
