(* ===== verification/Runcmd.thy ===== *)
theory Runcmd
  imports Shell
begin

text \<open>
  Running commands in the shell: \<open>runcmd\<close>, \<open>fork1\<close>, \<open>panic\<close>, \<open>getcmd\<close> and \<open>main\<close> of \<open>sh.c\<close>, and \<open>gets\<close> of \<open>ulib.c\<close>.
  A program is the tree of the system calls it makes, with what it does for each result; \<open>runs\<close> has the
  calls answered the way the kernel does and gives the programs that are started, each with its open
  files.
\<close>

section \<open>System calls\<close>

datatype act =
    SExit
  | SExec "uchar list list" act
  | SPrint string "uchar list" act
  | SClose int act
  | SOpen "uchar list" uint "int \<Rightarrow> act"
  | SDup int "int \<Rightarrow> act"
  | SPipe "int \<Rightarrow> int \<times> int \<Rightarrow> act"
  | SFork "int \<Rightarrow> act"
  | SWait act
  | SChdir "uchar list" "int \<Rightarrow> act"

section \<open>The shell\<close>

definition O_RDWR :: uint where "O_RDWR = 0x002"

definition shpanic :: "string \<Rightarrow> act" where
  "shpanic m = SPrint m [] SExit"

definition fork1 :: "(int \<Rightarrow> act) \<Rightarrow> act" where
  "fork1 k = SFork (\<lambda>pid. if pid = - 1 then shpanic ''fork'' else k pid)"

primrec runcmd :: "cmd \<Rightarrow> act" where
  "runcmd (EXEC argv) =
     (if argv = [] then SExit else SExec argv (SPrint ''exec failed'' (hd argv) SExit))"
| "runcmd (REDIR c f mode fd) =
     SClose fd (SOpen f mode (\<lambda>r. if r < 0 then SPrint ''open failed'' f SExit else runcmd c))"
| "runcmd (LIST l r) = fork1 (\<lambda>pid. if pid = 0 then runcmd l else SWait (runcmd r))"
| "runcmd (PIPE l r) =
     SPipe (\<lambda>res p.
       if res < 0 then shpanic ''pipe''
       else fork1 (\<lambda>pid.
         if pid = 0 then SClose 1 (SDup (snd p) (\<lambda>_. SClose (fst p) (SClose (snd p) (runcmd l))))
         else fork1 (\<lambda>pid.
           if pid = 0 then SClose 0 (SDup (fst p) (\<lambda>_. SClose (fst p) (SClose (snd p) (runcmd r))))
           else SClose (fst p) (SClose (snd p) (SWait (SWait SExit))))))"
| "runcmd (BACK c) = fork1 (\<lambda>pid. if pid = 0 then runcmd c else SExit)"

text \<open>\<open>inp\<close> is what \<open>read\<close> still returns, byte by byte.\<close>

fun gets :: "nat \<Rightarrow> uchar list \<Rightarrow> uchar list \<times> uchar list" where
  "gets (Suc (Suc n)) (c # inp) =
     (if c = 10 \<or> c = 13 then ([c], inp) else (case gets (Suc n) inp of (l, r) \<Rightarrow> (c # l, r)))"
| "gets n inp = ([], inp)"

lemma gets_rest: "length (fst (gets n inp)) + length (snd (gets n inp)) = length inp"
  by (induction n inp rule: gets.induct) (auto split: prod.splits)

lemma gets_some: "inp \<noteq> [] \<Longrightarrow> fst (gets (Suc (Suc n)) inp) \<noteq> []"
  by (cases inp) (auto split: prod.splits)

lemma gets_shorter: "(line, rest) = gets n inp \<Longrightarrow> line \<noteq> [] \<Longrightarrow> length rest < length inp"
  using gets_rest [of n inp] by (metis add_diff_cancel_left' diff_less fst_conv length_greater_0_conv snd_conv trans_less_add1)

text \<open>The child of the shell for the line in \<open>buf\<close>, a string that ends at its first zero.\<close>

definition run_line :: "uchar list \<Rightarrow> act" where
  "run_line buf = (case parsecmd buf of Ok c _ \<Rightarrow> runcmd c | Panic m \<Rightarrow> shpanic m | _ \<Rightarrow> SExit)"

definition is_cd :: "uchar list \<Rightarrow> bool" where
  "is_cd buf \<longleftrightarrow> take 3 buf = [99, 100, 32]"

definition BUFSIZE :: nat where "BUFSIZE = 100"

text \<open>The line that \<open>getcmd\<close> puts into its buffer, after the prompt; \<open>None\<close> when it returns \<open>-1\<close>.\<close>

definition getcmd :: "uchar list \<Rightarrow> uchar list option \<times> uchar list" where
  "getcmd inp = (case gets BUFSIZE inp of (line, rest) \<Rightarrow> (if line = [] \<or> hd line = 0 then None else Some line, rest))"

lemma getcmd_shorter: "(Some line, rest) = getcmd inp \<Longrightarrow> length rest < length inp"
  by (auto simp: getcmd_def split: prod.splits if_splits dest: gets_shorter [OF sym])

function sh_loop :: "uchar list \<Rightarrow> act" where
  "sh_loop inp =
     SPrint ''$ '' []
       (case getcmd inp of
          (None, _) \<Rightarrow> SExit
        | (Some line, rest) \<Rightarrow>
            let buf = takeWhile (\<lambda>c. c \<noteq> 0) line
            in if is_cd buf
               then let path = drop 3 (butlast buf)
                    in SChdir path (\<lambda>r. if r < 0 then SPrint ''cannot cd'' path (sh_loop rest) else sh_loop rest)
               else fork1 (\<lambda>pid. if pid = 0 then run_line buf else SWait (sh_loop rest)))"
  by pat_completeness auto
termination
  by (relation "measure length") (auto dest: getcmd_shorter)

declare sh_loop.simps [simp del]

text \<open>At most four calls of \<open>open\<close> are needed, as each of them returns another number.\<close>

definition CONSOLE_PATH :: "uchar list" where "CONSOLE_PATH = [99, 111, 110, 115, 111, 108, 101]"

primrec open_console :: "nat \<Rightarrow> act \<Rightarrow> act" where
  "open_console 0 k = shpanic ''fuel''"
| "open_console (Suc n) k =
     SOpen CONSOLE_PATH O_RDWR (\<lambda>fd. if fd < 0 then k else if 3 \<le> fd then SClose fd k else open_console n k)"

definition sh_main :: "uchar list \<Rightarrow> act" where
  "sh_main inp = open_console 4 (sh_loop inp)"

section \<open>The answers of the kernel\<close>

text \<open>
  A table of open files of a process, as \<open>sysfile.c\<close> keeps it: the lowest number that is free is taken.
\<close>

datatype ofd = OFile "uchar list" uint | PipeR nat | PipeW nat

type_synonym fdtab = "ofd option list"

definition fd_alloc :: "ofd \<Rightarrow> fdtab \<Rightarrow> int \<times> fdtab" where
  "fd_alloc f T = (case find (\<lambda>i. T ! i = None) [0..<length T] of Some i \<Rightarrow> (int i, T[i := Some f]) | None \<Rightarrow> (- 1, T))"

definition fd_close :: "int \<Rightarrow> fdtab \<Rightarrow> fdtab" where
  "fd_close fd T = (if 0 \<le> fd \<and> nat fd < length T then T[nat fd := None] else T)"

definition fd_dup :: "int \<Rightarrow> fdtab \<Rightarrow> int \<times> fdtab" where
  "fd_dup fd T =
     (if 0 \<le> fd \<and> nat fd < length T then (case T ! nat fd of None \<Rightarrow> (- 1, T) | Some f \<Rightarrow> fd_alloc f T) else (- 1, T))"

text \<open>Which calls succeed for other reasons; forks and pipes are numbered in the order in which they are made.\<close>

record kenv =
  opens :: "uchar list \<Rightarrow> uint \<Rightarrow> bool"
  execs :: "uchar list list \<Rightarrow> bool"
  chdirs :: "uchar list \<Rightarrow> bool"
  forks :: "nat \<Rightarrow> bool"
  pipes :: "nat \<Rightarrow> bool"

datatype event =
    Ran "uchar list list" fdtab
  | Waits fdtab
  | Said string "uchar list"
  | Cd "uchar list"

definition ev :: "event \<Rightarrow> event list \<times> nat \<Rightarrow> event list \<times> nat" where
  "ev x r = (x # fst r, snd r)"

text \<open>
  What happens when the calls are answered: a child and its parent have tables of their own, so that it
  does not matter for what they do which of them runs first.
\<close>

primrec runs :: "kenv \<Rightarrow> act \<Rightarrow> fdtab \<Rightarrow> nat \<Rightarrow> event list \<times> nat" where
  "runs e SExit T n = ([], n)"
| "runs e (SExec argv k) T n = (if execs e argv then ([Ran argv T], n) else runs e k T n)"
| "runs e (SPrint m b k) T n = ev (Said m b) (runs e k T n)"
| "runs e (SClose fd k) T n = runs e k (fd_close fd T) n"
| "runs e (SOpen f mode k) T n =
     (if opens e f mode then (case fd_alloc (OFile f mode) T of (fd, T) \<Rightarrow> runs e (k fd) T n) else runs e (k (- 1)) T n)"
| "runs e (SDup fd k) T n = (case fd_dup fd T of (r, T) \<Rightarrow> runs e (k r) T n)"
| "runs e (SPipe k) T n =
     (case fd_alloc (PipeR n) T of (fd0, T0) \<Rightarrow>
      case fd_alloc (PipeW n) T0 of (fd1, T1) \<Rightarrow>
        if pipes e n \<and> 0 \<le> fd0 \<and> 0 \<le> fd1 then runs e (k 0 (fd0, fd1)) T1 (n + 1) else runs e (k (- 1) (- 1, - 1)) T n)"
| "runs e (SFork k) T n =
     (if forks e n
      then case runs e (k 0) T (n + 1) of (child, n1) \<Rightarrow>
           case runs e (k (int (n + 1))) T n1 of (parent, n2) \<Rightarrow> (child @ parent, n2)
      else runs e (k (- 1)) T n)"
| "runs e (SWait k) T n = ev (Waits T) (runs e k T n)"
| "runs e (SChdir p k) T n = ev (Cd p) (runs e (k (if chdirs e p then 0 else - 1)) T n)"

section \<open>What a command means\<close>

text \<open>
  The programs of a command and the files each is started with. In a pipeline the first program writes to a
  new pipe, the second reads from it; the shell waits without an end of it.
\<close>

primrec plan :: "kenv \<Rightarrow> cmd \<Rightarrow> fdtab \<Rightarrow> nat \<Rightarrow> event list \<times> nat" where
  "plan e (EXEC argv) T n =
     (if argv = [] then [] else if execs e argv then [Ran argv T] else [Said ''exec failed'' (hd argv)], n)"
| "plan e (REDIR c f mode fd) T n =
     (if opens e f mode then plan e c (T[nat fd := Some (OFile f mode)]) n else ([Said ''open failed'' f], n))"
| "plan e (LIST l r) T n =
     (case plan e l T (n + 1) of (x, n1) \<Rightarrow> case plan e r T n1 of (y, n2) \<Rightarrow> (x @ Waits T # y, n2))"
| "plan e (PIPE l r) T n =
     (case plan e l (T[1 := Some (PipeW n)]) (n + 2) of (x, n1) \<Rightarrow>
      case plan e r (T[0 := Some (PipeR n)]) (n1 + 1) of (y, n2) \<Rightarrow> (x @ y @ [Waits T, Waits T], n2))"
| "plan e (BACK c) T n = plan e c T (n + 1)"

text \<open>Standard input, output and error are open, and nothing else.\<close>

definition std :: "fdtab \<Rightarrow> bool" where
  "std T \<longleftrightarrow> length (take 3 T) = 3 \<and> None \<notin> set (take 3 T) \<and> drop 3 T = replicate 13 None"

text \<open>Redirections of the standard input or output only, as the parser makes them.\<close>

primrec fds_ok :: "cmd \<Rightarrow> bool" where
  "fds_ok (EXEC ws) = True"
| "fds_ok (REDIR c f m fd) = (fds_ok c \<and> (fd = 0 \<or> fd = 1))"
| "fds_ok (PIPE a b) = (fds_ok a \<and> fds_ok b)"
| "fds_ok (LIST a b) = (fds_ok a \<and> fds_ok b)"
| "fds_ok (BACK c) = fds_ok c"

lemma std_iff: "std T \<longleftrightarrow> (\<exists>a b c. T = Some a # Some b # Some c # replicate 13 None)"
proof
  assume s: "std T"
  define u where "u = take 3 T"
  have "length u = Suc (Suc (Suc 0))" using s unfolding std_def u_def [symmetric] by simp
  then obtain x y z where "u = [x, y, z]" by (auto simp: length_Suc_conv)
  then have t: "take 3 T = [x, y, z]" by (simp add: u_def)
  have "T = take 3 T @ drop 3 T" by simp
  then have "T = x # y # z # replicate 13 None" using s t by (simp add: std_def)
  moreover have "x \<noteq> None \<and> y \<noteq> None \<and> z \<noteq> None" using s t by (cases x; cases y; cases z) (simp_all add: std_def)
  ultimately show "\<exists>a b c. T = Some a # Some b # Some c # replicate 13 None" by blast
qed (auto simp: std_def numeral_3_eq_3)

lemma std_update: "std T \<Longrightarrow> i < 3 \<Longrightarrow> std (T[i := Some f])"
  by (auto simp: std_iff less_Suc_eq numeral_3_eq_3)

text \<open>The calls on a table with the three standard files.\<close>

lemma alloc_gap:
  "fd_alloc f (None # Some b # Some c # r) = (0, Some f # Some b # Some c # r)"
  "fd_alloc f (Some a # None # Some c # r) = (1, Some a # Some f # Some c # r)"
  "fd_alloc f (Some a # Some b # Some c # None # r) = (3, Some a # Some b # Some c # Some f # r)"
  "fd_alloc f (Some a # Some b # Some c # Some d # None # r) = (4, Some a # Some b # Some c # Some d # Some f # r)"
  "fd_alloc f (Some a # None # Some c # Some d # r) = (1, Some a # Some f # Some c # Some d # r)"
  by (simp_all add: fd_alloc_def upt_conv_Cons del: upt_Suc)

lemma std_reopen:
  assumes "std T" "fd = 0 \<or> fd = 1"
  shows "fd_alloc f (fd_close fd T) = (fd, T[nat fd := Some f])"
  using assms by (auto simp: std_iff fd_close_def alloc_gap)

lemma std_pipe:
  assumes "std T"
  obtains T0 T1 where "fd_alloc r T = (3, T0)" "fd_alloc w T0 = (4, T1)" "fd_close 4 (fd_close 3 T1) = T"
    "\<exists>x. fd_dup 4 (fd_close 1 T1) = (1, x) \<and> fd_close 4 (fd_close 3 x) = T[1 := Some w]"
    "\<exists>x. fd_dup 3 (fd_close 0 T1) = (0, x) \<and> fd_close 4 (fd_close 3 x) = T[0 := Some r]"
proof -
  obtain a b c where T: "T = Some a # Some b # Some c # replicate 13 None" using assms by (auto simp: std_iff)
  have rep: "replicate 13 None = None # None # replicate 11 (None :: ofd option)" by (simp add: eval_nat_numeral)
  show ?thesis
    by (rule that [of "Some a # Some b # Some c # Some r # replicate 12 None" "Some a # Some b # Some c # Some r # Some w # replicate 11 None"])
      (simp_all add: T rep alloc_gap fd_close_def fd_dup_def eval_nat_numeral)
qed

text \<open>Forks and pipes do not fail.\<close>

definition lively :: "kenv \<Rightarrow> bool" where
  "lively e \<longleftrightarrow> (\<forall>n. forks e n \<and> pipes e n)"

lemma lively_fork: "lively e \<Longrightarrow> runs e (fork1 k) T n =
    (case runs e (k 0) T (n + 1) of (child, n1) \<Rightarrow> case runs e (k (int (n + 1))) T n1 of (parent, n2) \<Rightarrow> (child @ parent, n2))"
  by (simp add: fork1_def lively_def)

lemma runcmd_plan:
  assumes "lively e" "fds_ok c" "std T"
  shows "runs e (runcmd c) T n = plan e c T n"
  using assms(2,3)
proof (induction c arbitrary: T n)
  case (REDIR c f m fd)
  then have fd: "fd = 0 \<or> fd = 1" by simp
  have "std (T[nat fd := Some (OFile f m)])" using REDIR.prems(2) fd by (auto intro: std_update)
  then show ?case using REDIR.IH REDIR.prems std_reopen [OF REDIR.prems(2) fd] fd by (auto simp: ev_def)
next
  case (PIPE a b)
  have s: "std (T[1 := Some (PipeW n)])" "std (T[0 := Some (PipeR n)])" using PIPE.prems(2) by (auto intro: std_update)
  obtain T0 T1 where p: "fd_alloc (PipeR n) T = (3, T0)" "fd_alloc (PipeW n) T0 = (4, T1)" "fd_close 4 (fd_close 3 T1) = T"
    "\<exists>x. fd_dup 4 (fd_close 1 T1) = (1, x) \<and> fd_close 4 (fd_close 3 x) = T[1 := Some (PipeW n)]"
    "\<exists>x. fd_dup 3 (fd_close 0 T1) = (0, x) \<and> fd_close 4 (fd_close 3 x) = T[0 := Some (PipeR n)]"
    using std_pipe [OF PIPE.prems(2)] by metis
  obtain x y where xy: "fd_dup 4 (fd_close 1 T1) = (1, x)" "fd_close 4 (fd_close 3 x) = T[1 := Some (PipeW n)]"
    "fd_dup 3 (fd_close 0 T1) = (0, y)" "fd_close 4 (fd_close 3 y) = T[0 := Some (PipeR n)]"
    using p(4,5) by blast
  have e: "forks e k" "pipes e k" for k using assms(1) by (simp_all add: lively_def)
  note A = PIPE.IH(1) [OF _ s(1)] and B = PIPE.IH(2) [OF _ s(2)]
  show ?case
    using A B PIPE.prems(1) by (simp add: p(1-3) xy e fork1_def ev_def split: prod.splits)
next
  case (LIST a b)
  then show ?case using assms(1) by (simp add: lively_fork ev_def split: prod.splits)
next
  case (BACK c)
  then show ?case using assms(1) by (simp add: lively_fork split: prod.splits)
qed (simp add: ev_def)

text \<open>No program is started, and the shell does not wait, with another open file than the three.\<close>

definition clean :: "event \<Rightarrow> bool" where
  "clean x = (case x of Ran a T \<Rightarrow> std T | Waits T \<Rightarrow> std T | _ \<Rightarrow> True)"

lemma plan_clean: "fds_ok c \<Longrightarrow> std T \<Longrightarrow> list_all clean (fst (plan e c T n))"
proof (induction c arbitrary: T n)
  case (REDIR c f m fd)
  then have "std (T[nat fd := Some (OFile f m)])" by (auto intro: std_update)
  then show ?case using REDIR by (simp add: clean_def)
next
  case (PIPE a b)
  have "std (T[1 := Some (PipeW n)])" "std (T[0 := Some (PipeR n)])" using PIPE.prems(2) by (auto intro: std_update)
  then show ?case using PIPE.IH(1) [of "T[1 := Some (PipeW n)]" "n + 2"] PIPE.IH(2) [of "T[0 := Some (PipeR n)]"] PIPE.prems
    by (auto simp: clean_def split: prod.splits) (metis fst_conv)
next
  case (LIST a b)
  obtain x n1 y n2 where "plan e a T (n + 1) = (x, n1)" "plan e b T n1 = (y, n2)" by fastforce
  then show ?case using LIST.IH(1) [of T "n + 1"] LIST.IH(2) [of T n1] LIST.prems by (simp add: clean_def)
qed (auto simp: clean_def)

section \<open>What the parser makes\<close>

definition sane :: "(uchar list, cmd) res \<Rightarrow> bool" where
  "sane r = (case r of Ok c t \<Rightarrow> fds_ok c | _ \<Rightarrow> True)"

lemma sane_Ok [simp]: "sane (Ok c t) = fds_ok c" "sane (Panic m)"
  by (simp_all add: sane_def)

lemma sane_bind: "sane r \<Longrightarrow> (\<And>c t. r = Ok c t \<Longrightarrow> fds_ok c \<Longrightarrow> sane (f c t)) \<Longrightarrow> sane (bindR r f)"
  by (cases r) (auto simp: sane_def)

lemma sane_redirs: "fds_ok c \<Longrightarrow> sane (parseredirs c s)"
proof (induction c s rule: parseredirs.induct)
  case (1 c s)
  then show ?case by (subst parseredirs.simps) (auto simp: Let_def split: prod.splits bool.splits)
qed

lemma fds_add_arg: "fds_ok c \<Longrightarrow> fds_ok (add_arg w c)"
  by (induction c) auto

lemma sane_args: "fds_ok c \<Longrightarrow> sane (parseargs argc c s)"
proof (induction argc c s rule: parseargs.induct)
  case (1 argc c s)
  then show ?case
    by (subst parseargs.simps) (auto split: prod.splits bool.splits intro!: sane_bind [OF sane_redirs] fds_add_arg)
qed

lemma fds_backs: "fds_ok c \<Longrightarrow> fds_ok (fst (parsebacks c s))"
proof (induction c s rule: parsebacks.induct)
  case (1 c s)
  then show ?case by (subst parsebacks.simps) (auto split: prod.splits bool.splits)
qed

lemma sane_line: "sane (parseline n s) \<and> sane (parsepipe n s) \<and> sane (parseexec n s) \<and> sane (parseblock n s)"
proof (induction n arbitrary: s)
  case (Suc n)
  have b: "fds_ok d" if "parsebacks c t = (d, u)" "fds_ok c" for c d t u using fds_backs [OF that(2), of t] that(1) by simp
  have "sane (parseline (Suc n) s)"
    using Suc by (auto split: prod.splits bool.splits intro!: sane_bind) (metis b)+
  moreover have "sane (parsepipe (Suc n) s)"
    using Suc by (auto split: prod.splits bool.splits intro!: sane_bind)
  moreover have "sane (parseexec (Suc n) s)"
    using Suc by (auto split: prod.splits bool.splits intro!: sane_bind [OF sane_redirs] sane_args)
  moreover have "sane (parseblock (Suc n) s)"
    using Suc by (auto split: prod.splits bool.splits intro!: sane_bind sane_redirs)
  ultimately show ?case by blast
qed (simp add: sane_def)

lemma parsed_fds: "parsecmd s = Ok c t \<Longrightarrow> fds_ok c"
proof -
  assume a: "parsecmd s = Ok c t"
  have "sane (parsecmd s)" unfolding parsecmd_def by (rule sane_bind) (use sane_line in \<open>auto split: prod.splits\<close>)
  then show ?thesis using a by simp
qed

section \<open>The session\<close>

text \<open>What the shell does for the bytes it reads: line by line, until the end or a line that starts with a zero.\<close>

function session :: "kenv \<Rightarrow> uchar list \<Rightarrow> fdtab \<Rightarrow> nat \<Rightarrow> event list" where
  "session e inp T n =
     Said ''$ '' [] #
       (case getcmd inp of
          (None, _) \<Rightarrow> []
        | (Some line, rest) \<Rightarrow>
            let buf = takeWhile (\<lambda>c. c \<noteq> 0) line
            in if is_cd buf
               then let path = drop 3 (butlast buf)
                    in Cd path # (if chdirs e path then [] else [Said ''cannot cd'' path]) @ session e rest T n
               else case parsecmd buf of
                    Ok c _ \<Rightarrow> (case plan e c T (n + 1) of (es, n) \<Rightarrow> es @ Waits T # session e rest T n)
                  | Panic m \<Rightarrow> Said m [] # Waits T # session e rest T (n + 1)
                  | _ \<Rightarrow> [])"
  by pat_completeness auto
termination
  by (relation "measure (\<lambda>(e, inp, T, n). length inp)") (auto dest: getcmd_shorter)

declare session.simps [simp del]

lemma run_line_cases:
  assumes "lively e" "std T"
  shows "(\<exists>c. parsecmd buf = Ok c [] \<and> runs e (run_line buf) T n = plan e c T n) \<or>
    (\<exists>m. parsecmd buf = Panic m \<and> runs e (run_line buf) T n = ([Said m []], n))"
proof -
  have "(\<exists>c. parsecmd buf = Ok c []) \<or> (\<exists>m. parsecmd buf = Panic m)" by (rule parsecmd_terminates)
  then show ?thesis
  proof (elim disjE exE)
    fix c assume c: "parsecmd buf = Ok c []"
    show ?thesis using c runcmd_plan [OF assms(1) parsed_fds [OF c] assms(2), of n] by (simp add: run_line_def)
  qed (simp add: run_line_def shpanic_def ev_def)
qed

lemma session_ok:
  assumes "lively e" "std T"
  shows "fst (runs e (sh_loop inp) T n) = session e inp T n \<and> list_all clean (session e inp T n)"
proof (induction "length inp" arbitrary: inp n rule: less_induct)
  case less
  obtain got rest where g: "getcmd inp = (got, rest)" by (cases "getcmd inp")
  show ?case
  proof (cases got)
    case None
    then show ?thesis using g by (subst sh_loop.simps, subst (1 2) session.simps) (simp add: ev_def clean_def)
  next
    case (Some line)
    let ?buf = "takeWhile (\<lambda>c. c \<noteq> 0) line"
    have "length rest < length inp" using getcmd_shorter [of line rest inp] g Some by simp
    note IH = less [OF this]
    show ?thesis
    proof (cases "is_cd ?buf")
      case True
      then show ?thesis using g Some IH
        by (subst sh_loop.simps, subst (1 2) session.simps) (simp add: ev_def clean_def Let_def)
    next
      case cmd: False
      from run_line_cases [OF assms, of ?buf "n + 1"] show ?thesis
      proof (elim disjE exE conjE)
        fix c assume c: "parsecmd ?buf = Ok c []" "runs e (run_line ?buf) T (n + 1) = plan e c T (n + 1)"
        obtain es n1 where p: "plan e c T (n + 1) = (es, n1)" by fastforce
        have "list_all clean es" using plan_clean [OF parsed_fds [OF c(1)] assms(2), of e "n + 1"] p by simp
        then show ?thesis using g Some cmd c p IH [of n1] assms
          by (subst sh_loop.simps, subst (1 2) session.simps) (simp add: lively_fork ev_def clean_def Let_def split: prod.splits)
      next
        fix m assume "parsecmd ?buf = Panic m" "runs e (run_line ?buf) T (n + 1) = ([Said m []], n + 1)"
        then show ?thesis using g Some cmd IH [of "n + 1"] assms
          by (subst sh_loop.simps, subst (1 2) session.simps) (simp add: lively_fork ev_def clean_def Let_def split: prod.splits)
      qed
    qed
  qed
qed

text \<open>\<open>main\<close> opens the console until the three standard files are there.\<close>

lemma open_console_ok:
  assumes "opens e CONSOLE_PATH O_RDWR" "length T = 16" "drop 3 T = replicate 13 None"
  shows "\<exists>U. std U \<and> (\<forall>i < 3. T ! i \<noteq> None \<longrightarrow> U ! i = T ! i) \<and> runs e (open_console 4 k) T n = runs e k U n"
proof -
  let ?c = "OFile CONSOLE_PATH O_RDWR"
  define r where "r = replicate 13 (None :: ofd option)"
  define u where "u = take 3 T"
  have "length u = Suc (Suc (Suc 0))" using assms(2) by (simp add: u_def)
  then obtain x y z where "u = [x, y, z]" by (auto simp: length_Suc_conv)
  then have T: "T = x # y # z # r" using append_take_drop_id [of 3 T] assms(3) by (simp add: u_def r_def)
  have rep: "r = None # replicate 12 None" by (simp add: r_def eval_nat_numeral)
  have last: "fd_alloc ?c (Some a # Some b # Some d # r) = (3, Some a # Some b # Some d # Some ?c # replicate 12 None)" for a b d
    unfolding rep by (rule alloc_gap)
  have gap3: "fd_alloc ?c (Some a # Some b # None # r) = (2, Some a # Some b # Some ?c # r)" for a b
    by (simp add: fd_alloc_def upt_conv_Cons del: upt_Suc)
  have gap2: "fd_alloc ?c (Some a # None # w # r) = (1, Some a # Some ?c # w # r)" for a w
    by (simp add: fd_alloc_def upt_conv_Cons del: upt_Suc)
  have gap1: "fd_alloc ?c (None # v # w # r) = (0, Some ?c # v # w # r)" for v w
    by (simp add: fd_alloc_def upt_conv_Cons del: upt_Suc)
  have cl: "fd_close 3 (Some a # Some b # Some d # Some ?c # replicate 12 None) = Some a # Some b # Some d # r" for a b d
    by (simp add: fd_close_def rep eval_nat_numeral)
  have four: "4 = Suc (Suc (Suc (Suc 0)))" by simp
  let ?f = "\<lambda>v. Some (case v of None \<Rightarrow> ?c | Some a \<Rightarrow> a)"
  let ?U = "?f x # ?f y # ?f z # r"
  have "runs e (open_console 4 k) T n = runs e k ?U n"
    unfolding T four using assms(1)
    by (cases x; cases y; cases z) (simp_all add: gap1 gap2 gap3 last cl)
  moreover have "std ?U" by (auto simp: std_iff r_def)
  moreover have "\<forall>i < 3. T ! i \<noteq> None \<longrightarrow> ?U ! i = T ! i" unfolding T by (auto simp: less_Suc_eq numeral_3_eq_3)
  ultimately show ?thesis by blast
qed

section \<open>Properties\<close>

text \<open>
  (C21) The shell starts the programs of the lines it reads, in order, as the meaning of each command says: with
  its redirections, and between the programs of a pipeline a pipe. A line with a syntax error gives the
  message only. No program is started, and the shell waits for none, with an open file besides the
  standard three, so that a reader sees the end of its pipe once the writer has ended. The kernel has to grant forks
  and pipes; opening files, changing directories and starting programs may fail.
\<close>

theorem shell_session:
  assumes "lively e" "opens e CONSOLE_PATH O_RDWR" "length T = 16" "drop 3 T = replicate 13 None"
  shows "\<exists>U. std U \<and> (\<forall>i < 3. T ! i \<noteq> None \<longrightarrow> U ! i = T ! i) \<and>
    fst (runs e (sh_main inp) T n) = session e inp U n \<and> list_all clean (session e inp U n)"
proof -
  obtain U where U: "std U" "\<forall>i < 3. T ! i \<noteq> None \<longrightarrow> U ! i = T ! i"
    "runs e (sh_main inp) T n = runs e (sh_loop inp) U n"
    using open_console_ok [OF assms(2-4)] unfolding sh_main_def by blast
  then show ?thesis using session_ok [OF assms(1) U(1)] by auto
qed

text \<open>The line \<open>a|b>f\<close>, where \<open>b\<close> cannot be started.\<close>

theorem shell_session_witness:
  "let c = Some (OFile [116] 2);
       e = \<lparr>opens = (\<lambda>_ _. True), execs = (\<lambda>a. a = [[97]]), chdirs = (\<lambda>_. True), forks = (\<lambda>_. True), pipes = (\<lambda>_. True)\<rparr>
   in fst (runs e (sh_main [97, 124, 98, 62, 102, 10]) (c # c # c # replicate 13 None) 0) =
     [Said ''$ '' [], Ran [[97]] (c # Some (PipeW 1) # c # replicate 13 None), Said ''exec failed'' [98],
      Waits (c # c # c # replicate 13 None), Waits (c # c # c # replicate 13 None), Waits (c # c # c # replicate 13 None),
      Said ''$ '' []]"
proof -
  let ?c = "Some (OFile [116] 2)"
  let ?e = "\<lparr>opens = (\<lambda>_ _. True), execs = (\<lambda>a. a = [[97]]), chdirs = (\<lambda>_. True), forks = (\<lambda>_. True), pipes = (\<lambda>_. True)\<rparr>"
  let ?T = "?c # ?c # ?c # replicate 13 None"
  have h: "lively ?e" "opens ?e CONSOLE_PATH O_RDWR" "length ?T = 16" "drop 3 ?T = replicate 13 None"
    by (simp_all add: lively_def numeral_3_eq_3)
  obtain U where U: "std U" "\<forall>i < 3. ?T ! i \<noteq> None \<longrightarrow> U ! i = ?T ! i"
    "fst (runs ?e (sh_main [97, 124, 98, 62, 102, 10]) ?T 0) = session ?e [97, 124, 98, 62, 102, 10] U 0"
    using shell_session [OF h] by blast
  have "U = ?T" using U(1,2) by (auto simp: std_iff less_Suc_eq numeral_3_eq_3 all_conj_distrib)
  moreover have "session ?e [97, 124, 98, 62, 102, 10] ?T 0 =
     [Said ''$ '' [], Ran [[97]] (?c # Some (PipeW 1) # ?c # replicate 13 None), Said ''exec failed'' [98],
      Waits ?T, Waits ?T, Waits ?T, Said ''$ '' []]"
    by code_simp
  ultimately show ?thesis using U(3) by (simp add: Let_def)
qed

end
