(* ===== verification/Mp.thy ===== *)
theory Mp
  imports Mmu Cstring
begin

text \<open>
  \<open>mp.c\<close>: the tables in which the BIOS describes the processors, \<open>mpinit\<close> reads them when the kernel starts.
  Memory is a function of kernel addresses. The loop over the entries of a table need not end: it is a
  partial function, and \<open>None\<close> means that it does not return.
\<close>

section \<open>Looking for the tables\<close>

definition NCPU :: nat where "NCPU = 8"
definition MPPROC :: uchar where "MPPROC = 0x00"
definition MPBUS :: uchar where "MPBUS = 0x01"
definition MPIOAPIC :: uchar where "MPIOAPIC = 0x02"
definition MPIOINTR :: uchar where "MPIOINTR = 0x03"
definition MPLINTR :: uchar where "MPLINTR = 0x04"

type_synonym bios = "uint \<Rightarrow> uchar"

definition mem16 :: "bios \<Rightarrow> uint \<Rightarrow> nat" where
  "mem16 m a = unat (m a) + 256 * unat (m (a + 1))"

definition mem32 :: "bios \<Rightarrow> uint \<Rightarrow> uint" where
  "mem32 m a = le32 (m a) (m (a + 1)) (m (a + 2)) (m (a + 3))"

text \<open>The sum is computed in an \<open>int\<close> and cut to a byte when it is returned.\<close>

definition mp_sum :: "bios \<Rightarrow> uint \<Rightarrow> nat \<Rightarrow> uchar" where
  "mp_sum m a len = word_of_int (\<Sum>i\<leftarrow>[0..<len]. uint (m (a + of_nat i)))"

text \<open>The first four bytes at \<open>a\<close> are those of the string.\<close>

definition signed :: "bios \<Rightarrow> uint \<Rightarrow> uchar list \<Rightarrow> bool" where
  "signed m a s \<longleftrightarrow> memcmp (\<lambda>i. m (a + of_nat i)) (\<lambda>i. s ! i) 4 = 0"

definition MP_SIG :: "uchar list" where "MP_SIG = [95, 77, 80, 95]"
definition PCMP_SIG :: "uchar list" where "PCMP_SIG = [80, 67, 77, 80]"

text \<open>\<open>n\<close> structures of 16 bytes from \<open>p\<close> on.\<close>

primrec mpsearch_from :: "bios \<Rightarrow> uint \<Rightarrow> nat \<Rightarrow> uint option" where
  "mpsearch_from m p 0 = None"
| "mpsearch_from m p (Suc n) =
     (if signed m p MP_SIG \<and> mp_sum m p 16 = 0 then Some p else mpsearch_from m (p + 16) n)"

definition mpsearch1 :: "bios \<Rightarrow> uint \<Rightarrow> nat \<Rightarrow> uint option" where
  "mpsearch1 m a len = mpsearch_from m (P2V a) ((len + 15) div 16)"

definition mpsearch :: "bios \<Rightarrow> uint option" where
  "mpsearch m =
     (let bda = P2V 0x400;
          p = push_bit 4 (push_bit 8 (ucast (m (bda + 0x0F))) OR ucast (m (bda + 0x0E))) :: uint;
          first = (if p \<noteq> 0 then mpsearch1 m p 1024
                   else let p = (push_bit 8 (ucast (m (bda + 0x14))) OR ucast (m (bda + 0x13))) * 1024 :: uint
                        in mpsearch1 m (p - 1024) 1024)
      in case first of Some mp \<Rightarrow> Some mp | None \<Rightarrow> mpsearch1 m 0xF0000 0x10000)"

text \<open>The configuration table and the structure that points to it.\<close>

definition mpconfig :: "bios \<Rightarrow> (uint \<times> uint) option" where
  "mpconfig m =
     (case mpsearch m of
        None \<Rightarrow> None
      | Some mp \<Rightarrow>
          let physaddr = mem32 m (mp + 4)
          in if physaddr = 0 then None
             else let conf = P2V physaddr; version = m (conf + 6)
                  in if \<not> signed m conf PCMP_SIG then None
                     else if version \<noteq> 1 \<and> version \<noteq> 4 then None
                     else if mp_sum m conf (mem16 m (conf + 4)) \<noteq> 0 then None
                     else Some (conf, mp))"

section \<open>Reading the table\<close>

text \<open>\<open>apics\<close> are the \<open>apicid\<close> of the first \<open>ncpu\<close> entries of \<open>cpus\<close>; \<open>ports\<close> are the writes to I/O ports.\<close>

record mpstate =
  apics :: "uchar list"
  lapic :: uint
  ioapicid :: uchar
  ports :: "(uint \<times> uchar) list"

partial_function (option) mpinit_loop :: "bios \<Rightarrow> uint \<Rightarrow> uint \<Rightarrow> bool \<Rightarrow> mpstate \<Rightarrow> (bool \<times> mpstate) option" where
  "mpinit_loop m p e ismp s =
     (if \<not> p < e then Some (ismp, s)
      else if m p = MPPROC
      then mpinit_loop m (p + 20) e ismp (if length (apics s) < NCPU then s\<lparr>apics := apics s @ [m (p + 1)]\<rparr> else s)
      else if m p = MPIOAPIC then mpinit_loop m (p + 8) e ismp (s\<lparr>ioapicid := m (p + 1)\<rparr>)
      else if m p = MPBUS \<or> m p = MPIOINTR \<or> m p = MPLINTR then mpinit_loop m (p + 8) e ismp s
      else mpinit_loop m p e False s)"

text \<open>\<open>inb23\<close> is what the port \<open>0x23\<close> reads.\<close>

definition mpinit :: "bios \<Rightarrow> uchar \<Rightarrow> mpstate \<Rightarrow> (mpstate, unit) res option" where
  "mpinit m inb23 s =
     (case mpconfig m of
        None \<Rightarrow> Some (Panic ''Expect to run on an SMP'')
      | Some (conf, mp) \<Rightarrow>
          (case mpinit_loop m (conf + 44) (conf + of_nat (mem16 m (conf + 4))) True (s\<lparr>lapic := mem32 m (conf + 36)\<rparr>) of
             None \<Rightarrow> None
           | Some (ismp, s) \<Rightarrow>
               if \<not> ismp then Some (Panic ''Didn't find a suitable machine'')
               else if m (mp + 12) \<noteq> 0
               then Some (Ok () (s\<lparr>ports := ports s @ [(0x22, 0x70), (0x23, inb23 OR 1)]\<rparr>))
               else Some (Ok () s)))"

section \<open>What a table says\<close>

datatype mpentry = Proc uchar "uchar list" | Ioapic uchar "uchar list" | Other uchar "uchar list"

fun entry_bytes :: "mpentry \<Rightarrow> uchar list" where
  "entry_bytes (Proc a r) = MPPROC # a # r"
| "entry_bytes (Ioapic a r) = MPIOAPIC # a # r"
| "entry_bytes (Other t r) = t # r"

fun entry_ok :: "mpentry \<Rightarrow> bool" where
  "entry_ok (Proc a r) = (length r = 18)"
| "entry_ok (Ioapic a r) = (length r = 6)"
| "entry_ok (Other t r) = (length r = 7 \<and> t \<in> {MPBUS, MPIOINTR, MPLINTR})"

fun proc_ids :: "mpentry list \<Rightarrow> uchar list" where
  "proc_ids [] = []"
| "proc_ids (Proc a r # es) = a # proc_ids es"
| "proc_ids (_ # es) = proc_ids es"

fun last_ioapic :: "uchar \<Rightarrow> mpentry list \<Rightarrow> uchar" where
  "last_ioapic x [] = x"
| "last_ioapic x (Ioapic a r # es) = last_ioapic a es"
| "last_ioapic x (_ # es) = last_ioapic x es"

definition bios_at :: "bios \<Rightarrow> uint \<Rightarrow> uchar list \<Rightarrow> bool" where
  "bios_at m a bs \<longleftrightarrow> (\<forall>i < length bs. m (a + of_nat i) = bs ! i)"

definition table :: "mpentry list \<Rightarrow> uchar list" where
  "table es = concat (map entry_bytes es)"

lemma bios_at_append: "bios_at m a (xs @ ys) \<longleftrightarrow> bios_at m a xs \<and> bios_at m (a + of_nat (length xs)) ys"
proof
  assume h: "bios_at m a (xs @ ys)"
  have "m (a + of_nat (length xs) + of_nat i) = ys ! i" if "i < length ys" for i
    using h [unfolded bios_at_def, rule_format, of "length xs + i"] that by (simp add: add.assoc)
  moreover have "m (a + of_nat i) = xs ! i" if "i < length xs" for i
    using h [unfolded bios_at_def, rule_format, of i] that by (simp add: nth_append)
  ultimately show "bios_at m a xs \<and> bios_at m (a + of_nat (length xs)) ys" by (simp add: bios_at_def)
next
  assume h: "bios_at m a xs \<and> bios_at m (a + of_nat (length xs)) ys"
  show "bios_at m a (xs @ ys)"
    unfolding bios_at_def
  proof (intro allI impI)
    fix i assume i: "i < length (xs @ ys)"
    show "m (a + of_nat i) = (xs @ ys) ! i"
    proof (cases "i < length xs")
      case False
      then have "m (a + of_nat (length xs) + of_nat (i - length xs)) = ys ! (i - length xs)"
        using h i unfolding bios_at_def by (simp del: of_nat_diff)
      moreover have "a + of_nat (length xs) + of_nat (i - length xs) = a + of_nat i"
        using False by (simp add: add.assoc flip: of_nat_add)
      ultimately show ?thesis using False by (simp add: nth_append)
    qed (use h in \<open>simp add: bios_at_def nth_append\<close>)
  qed
qed

lemma bios_at_Cons: "bios_at m a (x # ys) \<longleftrightarrow> m a = x \<and> bios_at m (a + 1) ys"
  using bios_at_append [of m a "[x]" ys] by (simp add: bios_at_def)

text \<open>The loop passes over the entries and collects the numbers.\<close>

lemma mpinit_loop_entries:
  assumes "bios_at m p (table es)" "list_all entry_ok es" "unat p + length (table es) \<le> unat e"
  shows "mpinit_loop m p e b s = mpinit_loop m (p + of_nat (length (table es))) e b
    (s\<lparr>apics := apics s @ take (NCPU - length (apics s)) (proc_ids es), ioapicid := last_ioapic (ioapicid s) es\<rparr>)"
  using assms
proof (induction es arbitrary: p s)
  case Nil
  then show ?case by (simp add: table_def)
next
  case (Cons x es)
  have t: "table (x # es) = entry_bytes x @ table es" by (simp add: table_def)
  let ?n = "length (entry_bytes x)"
  have n: "0 < ?n" "?n \<le> 20" using Cons.prems(2) by (cases x; simp)+
  have p: "p < e" using Cons.prems(3) n(1) unfolding t length_append word_less_nat_alt by linarith
  have le: "unat p + ?n + length (table es) \<le> unat e" using Cons.prems(3) unfolding t by simp
  then have u: "unat (p + of_nat ?n) = unat p + ?n"
    using n(2) unat_lt32 [of e] by (simp add: unat_word_ariths unat_of_nat32)
  have bs: "bios_at m p (entry_bytes x)" "bios_at m (p + of_nat ?n) (table es)"
    using Cons.prems(1) unfolding t bios_at_append by auto
  have IH: "mpinit_loop m (p + of_nat ?n) e b s' = mpinit_loop m (p + of_nat ?n + of_nat (length (table es))) e b
    (s'\<lparr>apics := apics s' @ take (NCPU - length (apics s')) (proc_ids es), ioapicid := last_ioapic (ioapicid s') es\<rparr>)" for s'
    by (rule Cons.IH [OF bs(2)]) (use Cons.prems(2) le u in auto)
  have len: "p + of_nat (length (table (x # es))) = p + of_nat ?n + of_nat (length (table es))" unfolding t by (simp add: add.assoc)
  show ?case
  proof (cases x)
    case (Proc a r)
    have "m p = MPPROC" "m (p + 1) = a" "?n = 20" using bs(1) Cons.prems(2) Proc by (simp_all add: bios_at_Cons)
    then show ?thesis using p IH [of "if length (apics s) < NCPU then s\<lparr>apics := apics s @ [a]\<rparr> else s"]
      unfolding len by (subst mpinit_loop.simps) (auto simp: Proc take_Cons' Suc_diff_Suc)
  next
    case (Ioapic a r)
    have "m p = MPIOAPIC" "m (p + 1) = a" "?n = 8" using bs(1) Cons.prems(2) Ioapic by (simp_all add: bios_at_Cons)
    then show ?thesis using p IH [of "s\<lparr>ioapicid := a\<rparr>"]
      unfolding len by (subst mpinit_loop.simps) (simp add: Ioapic MPIOAPIC_def MPPROC_def)
  next
    case (Other t' r)
    have "m p = t'" "t' \<in> {MPBUS, MPIOINTR, MPLINTR}" "?n = 8" using bs(1) Cons.prems(2) Other by (simp_all add: bios_at_Cons)
    then show ?thesis using p IH [of s]
      unfolding len by (subst mpinit_loop.simps) (auto simp: Other MPIOAPIC_def MPPROC_def MPBUS_def MPIOINTR_def MPLINTR_def)
  qed
qed

text \<open>At an entry of another type the loop stays for ever.\<close>

definition known :: "uchar \<Rightarrow> bool" where
  "known t \<longleftrightarrow> t \<in> {MPPROC, MPBUS, MPIOAPIC, MPIOINTR, MPLINTR}"

lemma mpinit_loop_stuck:
  assumes "p < e" "\<not> known (m p)"
  shows "mpinit_loop m p e b s = None"
proof (cases "mpinit_loop m p e b s")
  case (Some r)
  have "\<not> (p < e \<and> \<not> known (m p))"
  proof (rule mpinit_loop.raw_induct [where P = "\<lambda>m p e b s r. \<not> (p < e \<and> \<not> known (m p))", OF _ Some])
    fix f m p e b s r
    assume "\<And>m p e b s r. f m p e b s = Some r \<Longrightarrow> \<not> (p < e \<and> \<not> known (m p))"
      "(if \<not> p < e then Some (b, s)
        else if m p = MPPROC
        then f m (p + 20) e b (if length (apics s) < NCPU then s\<lparr>apics := apics s @ [m (p + 1)]\<rparr> else s)
        else if m p = MPIOAPIC then f m (p + 8) e b (s\<lparr>ioapicid := m (p + 1)\<rparr>)
        else if m p = MPBUS \<or> m p = MPIOINTR \<or> m p = MPLINTR then f m (p + 8) e b s
        else f m p e False s) = Some r"
    then show "\<not> (p < e \<and> \<not> known (m p))" by (cases r) (fastforce simp: known_def split: if_splits)
  qed
  then show ?thesis using assms by simp
qed

section \<open>Properties\<close>

lemma mpinit_at:
  assumes c: "mpconfig m = Some (conf, mp)" and t: "bios_at m (conf + 44) (table es)" "list_all entry_ok es"
    and l: "44 + length (table es) \<le> mem16 m (conf + 4)" "unat conf + mem16 m (conf + 4) < 2 ^ 32"
  shows "mpinit_loop m (conf + 44) (conf + of_nat (mem16 m (conf + 4))) True (s\<lparr>lapic := mem32 m (conf + 36)\<rparr>) =
    mpinit_loop m (conf + of_nat (44 + length (table es))) (conf + of_nat (mem16 m (conf + 4))) True
      (s\<lparr>lapic := mem32 m (conf + 36), apics := apics s @ take (NCPU - length (apics s)) (proc_ids es),
         ioapicid := last_ioapic (ioapicid s) es\<rparr>)"
proof -
  have u: "unat (conf + of_nat k) = unat conf + k" if "k \<le> mem16 m (conf + 4)" for k
    using that l(2) by (simp add: unat_word_ariths unat_of_nat32)
  have "unat (conf + 44) = unat conf + 44" using u [of 44] l(1) by simp
  then have "unat (conf + 44) + length (table es) \<le> unat (conf + of_nat (mem16 m (conf + 4)))"
    using u [of "mem16 m (conf + 4)"] l(1) by simp
  from mpinit_loop_entries [OF t this] show ?thesis by (simp add: add.assoc)
qed

text \<open>
  (C29) \<open>mpinit\<close> on a table that \<open>mpconfig\<close> has accepted and that starts with the entries \<open>es\<close>. When
  these are all it holds, the processors are entered in their order, as many as \<open>cpus\<close> has room for, and
  the last I/O APIC; two port writes follow when there is an IMCR. When another entry follows, of a type
  that \<open>mpinit\<close> does not know, it never returns, although the code has a panic for this case.
\<close>

theorem mpinit_reads_table:
  assumes "mpconfig m = Some (conf, mp)" and "bios_at m (conf + 44) (table es)" "list_all entry_ok es"
    and "unat conf + mem16 m (conf + 4) < 2 ^ 32"
  defines "n \<equiv> 44 + length (table es)"
  shows "(mem16 m (conf + 4) = n \<longrightarrow> mpinit m x s = Some (Ok ()
      (s\<lparr>lapic := mem32 m (conf + 36), apics := apics s @ take (NCPU - length (apics s)) (proc_ids es),
         ioapicid := last_ioapic (ioapicid s) es,
         ports := ports s @ (if m (mp + 12) \<noteq> 0 then [(0x22, 0x70), (0x23, x OR 1)] else [])\<rparr>))) \<and>
    (n < mem16 m (conf + 4) \<and> \<not> known (m (conf + of_nat n)) \<longrightarrow> mpinit m x s = None)"
proof (intro conjI impI)
  assume l: "mem16 m (conf + 4) = n"
  have "44 + length (table es) \<le> mem16 m (conf + 4)" using l by (simp add: n_def)
  from mpinit_at [OF assms(1-3) this assms(4), of s]
  show "mpinit m x s = Some (Ok () (s\<lparr>lapic := mem32 m (conf + 36), apics := apics s @ take (NCPU - length (apics s)) (proc_ids es),
      ioapicid := last_ioapic (ioapicid s) es, ports := ports s @ (if m (mp + 12) \<noteq> 0 then [(0x22, 0x70), (0x23, x OR 1)] else [])\<rparr>))"
    using assms(1) l by (simp add: mpinit_def n_def mpinit_loop.simps [of m "conf + (44 + of_nat (length (table es)))"])
next
  assume l: "n < mem16 m (conf + 4) \<and> \<not> known (m (conf + of_nat n))"
  have le: "44 + length (table es) \<le> mem16 m (conf + 4)" using l by (simp add: n_def)
  have u: "unat (conf + of_nat k) = unat conf + k" if "k \<le> mem16 m (conf + 4)" for k
    using that assms(4) by (simp add: unat_word_ariths unat_of_nat32)
  have "conf + of_nat n < conf + of_nat (mem16 m (conf + 4))"
    using u [of n] u [of "mem16 m (conf + 4)"] l by (simp add: word_less_nat_alt)
  from mpinit_loop_stuck [OF this, of m] l mpinit_at [OF assms(1-3) le assms(4), of s]
  show "mpinit m x s = None" using assms(1) by (simp add: mpinit_def n_def)
qed

text \<open>A machine with one processor, its number is 7; the other entry has type \<open>t\<close> and the number 2.\<close>

definition ex_bios :: "uchar \<Rightarrow> bios" where
  "ex_bios t a =
     (let xs = MP_SIG @ [0x10, 0, 0x0F, 0, 1, 4, 129, 0, 0, 0, 0, 0] @
          PCMP_SIG @ [72, 0, 4, 155 - t] @ replicate 26 0 @ [2, 0, 0, 0, 0xE0, 0xFE, 0, 0, 0, 0] @
          [0, 7] @ replicate 18 0 @ [t, 2] @ replicate 6 0
      in if a = 0x8000040F then 0xF0
         else if 0x800F0000 \<le> a \<and> unat (a - 0x800F0000) < length xs then xs ! unat (a - 0x800F0000) else 0)"

lemma ex_bios_config: "mpconfig (ex_bios 2) = Some (0x800F0010, 0x800F0000)" "mpconfig (ex_bios 9) = Some (0x800F0010, 0x800F0000)"
  by code_simp+

lemma ex_bios_table: "list_all2 (\<lambda>i b. ex_bios 2 (0x800F003C + of_nat i) = b) [0..<28] (table [Proc 7 (replicate 18 0), Ioapic 2 (replicate 6 0)])"
  "list_all2 (\<lambda>i b. ex_bios 9 (0x800F003C + of_nat i) = b) [0..<20] (table [Proc 7 (replicate 18 0)])"
  by code_simp+

lemma bios_at_all2: "list_all2 (\<lambda>i b. m (a + of_nat i) = b) [0..<length bs] bs \<Longrightarrow> bios_at m a bs"
  by (simp add: bios_at_def list_all2_conv_all_nth)

theorem mpinit_reads_table_witness:
  "mpinit (ex_bios 2) 0 \<lparr>apics = [], lapic = 0, ioapicid = 0, ports = []\<rparr> =
     Some (Ok () \<lparr>apics = [7], lapic = 0xFEE00000, ioapicid = 2, ports = []\<rparr>) \<and>
   mpinit (ex_bios 9) 0 \<lparr>apics = [], lapic = 0, ioapicid = 0, ports = []\<rparr> = None"
proof
  let ?s = "\<lparr>apics = [], lapic = 0, ioapicid = 0, ports = []\<rparr>"
  let ?es = "[Proc 7 (replicate 18 0), Ioapic 2 (replicate 6 0)]" and ?fs = "[Proc 7 (replicate 18 0)]"
  have l: "length (table ?es) = 28" "length (table ?fs) = 20" by (simp_all add: table_def)
  have m: "mem16 (ex_bios 2) (0x800F0010 + 4) = 72" "mem16 (ex_bios 9) (0x800F0010 + 4) = 72"
    "mem32 (ex_bios 2) (0x800F0010 + 36) = 0xFEE00000" "ex_bios 2 (0x800F0000 + 12) = 0" "ex_bios 9 (0x800F0010 + 64) = 9" by code_simp+
  have b: "bios_at (ex_bios 2) (0x800F0010 + 44) (table ?es)" "bios_at (ex_bios 9) (0x800F0010 + 44) (table ?fs)"
    using bios_at_all2 [of "ex_bios 2" "0x800F003C" "table ?es"] bios_at_all2 [of "ex_bios 9" "0x800F003C" "table ?fs"] ex_bios_table l
    by simp_all
  show "mpinit (ex_bios 2) 0 ?s = Some (Ok () \<lparr>apics = [7], lapic = 0xFEE00000, ioapicid = 2, ports = []\<rparr>)"
    using mpinit_reads_table [OF ex_bios_config(1) b(1), of 0 ?s] l m by (simp add: NCPU_def)
  show "mpinit (ex_bios 9) 0 ?s = None"
    using mpinit_reads_table [OF ex_bios_config(2) b(2), of 0 ?s] l m
    by (simp add: known_def MPPROC_def MPBUS_def MPIOAPIC_def MPIOINTR_def MPLINTR_def)
qed

end
