(* ===== verification/Spec2Isabelle.thy ===== *)
theory Spec2Isabelle
  imports Prelude Spinlock Cstring Kalloc Pagelist Pgtable Sleeplock Bio Fslayout Log Pagefault Trap Lottery Shell Grep Airport_Live Ide Umalloc Kbd Mkfs Runcmd Mp
begin

text \<open>
  A verification development of the xv6 teaching kernel with two assignments on top of it, and of a
  simulation of an airport with threads. The repository holds

  \<^item> \<open>offline4_xv6_memory_mgt/xv6\<close>: xv6 with page replacement. Each process with a pid above 2 keeps at
    most 15 pages in memory (\<open>page_list\<close>, a FIFO) and has a swap file \<open>/.swap<pid>\<close> for the others
    (\<open>meta_list\<close>);
  \<^item> \<open>offline3_xv6_lottery_scheduler/xv6\<close>: xv6 with a lottery scheduler. Its files are those of the first
    kernel except where this text names them;
  \<^item> \<open>offline2 ipc_using_pthreads\<close>: passengers of an airport as threads, with semaphores and mutexes.

  Every definition that models code is written from the C source, with the names of the source; a suffix
  \<open>3\<close> marks a function of the lottery kernel that differs from the one of the paging kernel.

  \<^bold>\<open>How code is modelled.\<close> A kernel function is a HOL function on the state of the kernel with a result
  of type \<open>res\<close> (\<open>Prelude\<close>): it returns (\<open>Ok\<close>), panics (\<open>Panic\<close>), does what C leaves undefined
  (\<open>Fault\<close>: a null pointer followed, an array left), gives up the CPU (\<open>Swtch\<close>) or never returns
  (\<open>NoReturn\<close>). Where a call sleeps its model ends with \<open>Swtch\<close>, and a second definition with the
  suffix \<open>_resume\<close> is what runs after the wakeup. The state is one record, extended theory by theory, so
  that an operation of a lower layer runs on the state of every higher one:
  \<open>klocks\<close> (locks held), \<open>pstate\<close> (process table), \<open>kmem\<close> and \<open>vmstate\<close> (memory, page tables),
  \<open>bstate\<close> (buffer cache, disk), \<open>lstate\<close> (log), \<open>fstate\<close> (inode cache, superblock), \<open>constate\<close>
  (console), \<open>filestate\<close> (open files, pipes), \<open>kstate\<close>. Integers are words of their width, so that
  overflow wraps; \<open>int\<close> is used for a C \<open>int\<close> only where the code keeps it small.

  \<^bold>\<open>Theories and the code they model.\<close>
  \<^item> \<open>Prelude\<close>: machine types, results, loops over lists, little-endian words, list updates.
  \<^item> \<open>Spinlock\<close> (\<open>spinlock.c\<close>): \<open>acquire\<close> and \<open>release\<close> cut at their atomic instructions, any number of
    CPUs as a step relation \<open>lock_step\<close>; mutual exclusion is an invariant of its reachable states.
    Above this theory a lock is a name in \<open>held\<close>, and the kernel is seen from one CPU: a lock that
    another CPU holds only delays it.
  \<^item> \<open>Mmu\<close> (\<open>mmu.h\<close>, \<open>memlayout.h\<close>), \<open>Cstring\<close> (\<open>string.c\<close>), \<open>Kalloc\<close> (\<open>kalloc.c\<close>, the free list threaded
    through the memory; locale \<open>page_allocator\<close>), \<open>Pgtable\<close> (\<open>vm.c\<close> on page tables in memory),
    \<open>Usermem\<close> (what is written to user memory through a page table, and what \<open>main\<close> finds on its stack).
  \<^item> \<open>Pagelist\<close> (the FIFO of resident pages, locale \<open>bounded_fifo\<close>), \<open>Swapfile\<close> (\<open>itoa\<close>, \<open>create\<close>, \<open>unlink\<close>
    and the swap file functions of \<open>fs.c\<close>), \<open>Vm\<close> (\<open>loaduvm\<close>, \<open>allocuvm\<close> with eviction), \<open>Paging\<close> (the two
    lists of a process through growth, faults and release), \<open>Pagefault\<close> (a page fault from the handler through
    page table, allocator, swap file and lists, with what the program sees of its memory).
  \<^item> \<open>Proc_Base\<close> and \<open>Proc\<close> (\<open>proc.c\<close>): the process table, \<open>sleep\<close> and \<open>wakeup\<close>, creation, \<open>fork\<close>, \<open>exit\<close>,
    \<open>wait\<close>, the round robin scheduler, and the page-fault service \<open>do_the_swap\<close>; \<open>Exec\<close> (\<open>exec.c\<close>),
    \<open>Syscall\<close> and \<open>Sysfile\<close> (argument fetching and every system call), \<open>Trap\<close> (\<open>trap.c\<close>).
  \<^item> \<open>Sleeplock\<close> (\<open>sleeplock.c\<close>, locale \<open>sleep_lock\<close>, interpreted for the locks of buffers and inodes),
    \<open>Bio\<close> (\<open>bio.c\<close>, \<open>memide.c\<close>), \<open>Ide\<close> (\<open>ide.c\<close>, with the drive as a separate definition), \<open>Fslayout\<close> (\<open>fs.h\<close>),
    \<open>Log\<close> (\<open>log.c\<close>; locale \<open>block_store\<close> is what the file system sees of log and cache), \<open>Inode\<close> and \<open>Fs\<close>
    (\<open>fs.c\<close>), \<open>Ring\<close> and \<open>File\<close> (\<open>pipe.c\<close>, \<open>file.c\<close>; locale \<open>byte_queue\<close>), \<open>Console\<close> (\<open>console.c\<close>, \<open>uart.c\<close>),
    \<open>Mp\<close> (\<open>mp.c\<close>: the processors as the BIOS describes them; a loop that may not end is a partial function),
    \<open>Kbd\<close> (\<open>kbd.c\<close>, \<open>kbd.h\<close>: scan codes, from the key to the line in the console),
    \<open>Crash\<close> (a write to a file, from the call to the disk and through a crash).
  \<^item> \<open>Umalloc\<close> (\<open>umalloc.c\<close>, the allocator of user programs: a circular list of free blocks in the memory of the
    process), \<open>Mkfs\<close> (\<open>mkfs.c\<close>, the builder of the disk image, and what the kernel reads from the image),
    \<open>Shell\<close> (the parser of \<open>sh.c\<close>), \<open>Runcmd\<close> (\<open>runcmd\<close> and \<open>main\<close> of \<open>sh.c\<close>, as trees of system calls), \<open>Grep\<close> (\<open>grep.c\<close>), \<open>Lottery\<close> (the lottery kernel), and
    \<open>Airport\<close>, \<open>Airport_Vip\<close>, \<open>Airport_Live\<close> (the simulation: each thread's remaining statements are its
    program counter, and any interleaving is a run).

  \<^bold>\<open>What is shown.\<close> The numbered properties \<open>(C1)\<close>, \<open>(C2)\<close> and so on stand in the theories. They
  say: that a page fault changes nothing a program can see of its memory; what a crash leaves of a write
  to a file, of a commit, and what recovery does; that the cache, the
  disk driver, the page table code, the page allocator, the page lists, pipes and the console buffer
  implement their abstract counterparts; the block and inode operations, reading, writing and looking
  up; what \<open>exec\<close> hands to \<open>main\<close>, and that system calls read only the caller's memory; that the parser
  returns for every line and inverts printing, and what the shell starts for the lines it reads; that \<open>grep\<close>
  accepts the language of its pattern;
  that \<open>malloc\<close> and \<open>free\<close> always return and never lose or hand out a byte twice; that a typed line arrives;
  that the kernel finds the files \<open>mkfs\<close> put into the image, with their bytes;
  how the lottery distributes the draws, that a round of the scheduler passes over no process, that no
  wakeup is lost; that the airport neither deadlocks nor overruns a queue.

  \<^bold>\<open>Loops and fuel.\<close> Loops over a range are folds over a list of numbers and need no fuel. Fuel is used
  where the code counts with wrapping words: \<open>mappages_loop\<close> gets one unit per page of the range;
  \<open>deallocuvm_loop\<close> and \<open>copyuvm_loop\<close> get \<open>size div 4096 + 2\<close>, one more than the pages they can visit.
  The parser of the shell starts with \<open>16 * n + 16\<close> for a line of \<open>n\<close> bytes, and is shown never to run out.
  When fuel runs out the result is \<open>Fault ''fuel''\<close>, which no property allows.

  \<^bold>\<open>Abstractions.\<close>
  \<^item> Kernel code is run as one CPU sees it between two switches. What other processes do meanwhile is the
    state in which a \<open>_resume\<close> function starts. Only \<open>Spinlock\<close> and the airport have interleavings.
  \<^item> A buffer in user memory is copied before the call that reads it or after the call that fills it, not
    byte by byte in between; the page faults of these copies are served as \<open>trap\<close> serves them.
  \<^item> The contents of kernel stacks are not kept: \<open>context\<close> is where a process resumes, the trap frame is
    a record of \<open>struct proc\<close>. A pipe is kept beside the memory, named by the address of its page.
  \<^item> Memory reads and writes of page tables, free pages and user pages go to one byte memory; the tables of
    the kernel (process table, caches) are records outside it, as they are at fixed addresses.
  \<^item> Functions that the code only prints with (\<open>printCurrentPageList\<close> and the like) run the model of
    \<open>cprintf\<close>.

  \<^bold>\<open>Not modelled.\<close>
  \<^item> Hardware setup and assembly: \<open>bootasm.S\<close>, \<open>bootmain.c\<close>, \<open>entry.S\<close>, \<open>entryother.S\<close>, \<open>swtch.S\<close>,
    \<open>trapasm.S\<close>, \<open>main.c\<close>, \<open>lapic.c\<close>, \<open>ioapic.c\<close>, \<open>picirq.c\<close>, \<open>seginit\<close> and \<open>idtinit\<close>: their effect is on
    registers and descriptor tables that no model here reads. The bytes waiting
    at keyboard and serial port are arguments of the interrupt handlers.
  \<^item> User programs other than the shell, \<open>grep\<close> and the allocator: they only call system calls (\<open>usertests.c\<close>,
    \<open>forktest.c\<close>, \<open>cat.c\<close>, \<open>ls.c\<close>, the tests of the assignments and so on). The constructors of the shell's
    commands only allocate.
  \<^item> The files of the lottery kernel that are the same as those of the paging kernel, and the two earlier
    versions of the airport.
\<close>

end
